(* ===== verification/Prelude.thy ===== *)
theory Prelude
  imports Main "HOL-Library.Monad_Syntax"
begin

text \<open>
  What every component of the development shares: bytes and C strings, the little-endian
  encoding of machine integers, two's complement wrap-around, decimal printing, and the list
  lemmas on equal-sized chunks, first matches and swap-removal that the file database and the
  server's pointer arrays both rest on. A byte is a \<open>char\<close> (HOL's \<open>char\<close> is the type of the
  256 bytes), so a string literal is a byte string.
\<close>

named_theorems chunk_simps \<open>reading and writing a run of equal-sized chunks\<close>
named_theorems codec_simps \<open>decoding what was encoded\<close>

section \<open>Bytes and C strings\<close>

type_synonym bytes = "char list"

text \<open>The C string that starts at the front of a memory region: the bytes before the first
  NUL; a region without NUL is read to its end.\<close>

definition c_str :: "bytes \<Rightarrow> bytes" where
  "c_str m = takeWhile (\<lambda>c. c \<noteq> CHR 0x00) m"

text \<open>\<open>strcpy(dst, s)\<close> into an array of \<open>length dst\<close> bytes: the string and its NUL overwrite the
  front of the array. A string that does not fit writes past the array, which is undefined
  behaviour: \<open>None\<close>.\<close>

definition strcpy :: "bytes \<Rightarrow> bytes \<Rightarrow> bytes option" where
  "strcpy dst s = (if length s < length dst
     then Some (s @ CHR 0x00 # drop (Suc (length s)) dst) else None)"

text \<open>Reading a C string from memory: without a NUL the read leaves the object.\<close>

definition str_at :: "bytes \<Rightarrow> bytes option" where
  "str_at m = (if CHR 0x00 \<in> set m then Some (c_str m) else None)"

definition no_nul :: "bytes \<Rightarrow> bool" where
  "no_nul s \<longleftrightarrow> CHR 0x00 \<notin> set s"

lemma c_str_append_nul [simp]: "no_nul s \<Longrightarrow> c_str (s @ CHR 0x00 # m) = s"
  unfolding c_str_def no_nul_def by (induction s) auto

lemma no_nul_c_str [simp]: "no_nul (c_str m)"
  unfolding c_str_def no_nul_def using set_takeWhileD by fastforce

lemma c_str_no_nul: "no_nul m \<Longrightarrow> c_str m = m"
  unfolding c_str_def no_nul_def by (induction m) auto

lemma c_str_idem [simp]: "c_str (c_str m) = c_str m"
  by (simp add: c_str_no_nul)

lemma length_c_str_le [simp]: "length (c_str m) \<le> length m"
  unfolding c_str_def by (rule length_takeWhile_le)

lemma strcpy_Some:
  "strcpy dst s = Some m \<Longrightarrow> length m = length dst \<and> length s < length dst \<and> take (length s) m = s"
  unfolding strcpy_def by (auto split: if_splits)

lemma strcpy_length [simp]: "strcpy dst s = Some m \<Longrightarrow> length m = length dst"
  by (simp add: strcpy_Some)

lemma strcpy_c_str: "strcpy dst s = Some m \<Longrightarrow> no_nul s \<Longrightarrow> c_str (m @ rest) = s"
  unfolding strcpy_def by (auto split: if_splits)

lemma strcpy_fits: "length s < length dst \<Longrightarrow> \<exists>m. strcpy dst s = Some m"
  unfolding strcpy_def by simp

lemma strcpy_overflow: "length dst \<le> length s \<Longrightarrow> strcpy dst s = None"
  unfolding strcpy_def by simp

section \<open>Machine integers\<close>

text \<open>A signed 32-bit result as the compiled code computes it: two's complement wrap-around.\<close>

definition wrap32 :: "int \<Rightarrow> int" where
  "wrap32 x = (x + 2 ^ 31) mod 2 ^ 32 - 2 ^ 31"

definition int_range :: "int \<Rightarrow> bool" where
  "int_range x \<longleftrightarrow> - (2 ^ 31) \<le> x \<and> x < 2 ^ 31"

lemma wrap32_id [simp]: "int_range x \<Longrightarrow> wrap32 x = x"
  unfolding wrap32_def int_range_def by (simp add: mod_pos_pos_trivial)

lemma int_range_wrap32 [simp]: "int_range (wrap32 x)"
proof -
  have "0 \<le> (x + 2 ^ 31) mod 2 ^ 32" and "(x + 2 ^ 31) mod 2 ^ 32 < (2 ^ 32 :: int)"
    by simp_all
  then show ?thesis unfolding wrap32_def int_range_def by simp
qed

text \<open>Little-endian bytes of an integer, and the signed and unsigned readings of a byte run.\<close>

fun enc_le :: "nat \<Rightarrow> int \<Rightarrow> bytes" where
  "enc_le 0 x = []"
| "enc_le (Suc n) x = char_of (x mod 256) # enc_le n (x div 256)"

fun dec_le :: "bytes \<Rightarrow> int" where
  "dec_le [] = 0"
| "dec_le (c # cs) = of_char c + 256 * dec_le cs"

definition dec_signed :: "bytes \<Rightarrow> int" where
  "dec_signed bs = (let u = dec_le bs; m = 256 ^ length bs
     in if m \<le> 2 * u then u - m else u)"

lemma length_enc_le [simp]: "length (enc_le n x) = n"
  by (induction n arbitrary: x) auto

lemma dec_le_enc_le: "dec_le (enc_le n x) = x mod 256 ^ n"
proof (induction n arbitrary: x)
  case 0
  then show ?case by simp
next
  case (Suc n)
  have "of_char (char_of (x mod 256) :: char) = (x mod 256 :: int)"
    by simp
  then have "dec_le (enc_le (Suc n) x) = x mod 256 + 256 * (x div 256 mod 256 ^ n)"
    using Suc by simp
  also have "\<dots> = x mod (256 * 256 ^ n)"
    by (simp add: zmod_zmult2_eq)
  finally show ?case by simp
qed

lemma dec_signed_enc_le:
  assumes "- (256 ^ n) \<le> 2 * x" "2 * x < 256 ^ n"
  shows "dec_signed (enc_le n x) = x"
proof (cases "0 \<le> x")
  case True
  have "dec_le (enc_le n x) = x"
    unfolding dec_le_enc_le by (rule mod_pos_pos_trivial) (use True assms in linarith)+
  with assms show ?thesis by (simp add: dec_signed_def Let_def)
next
  case False
  have "dec_le (enc_le n x) = x + 256 ^ n"
  proof -
    have "x mod 256 ^ n = (x + 256 ^ n) mod 256 ^ n" by simp
    also have "\<dots> = x + 256 ^ n"
      by (rule mod_pos_pos_trivial) (use False assms in linarith)+
    finally show ?thesis by (simp add: dec_le_enc_le)
  qed
  with assms show ?thesis by (simp add: dec_signed_def Let_def)
qed

text \<open>The 4-byte \<open>int\<close> and the 8-byte \<open>long long\<close> of the x86-64 ABI.\<close>

definition enc_int :: "int \<Rightarrow> bytes" where "enc_int x = enc_le 4 x"
definition dec_int :: "bytes \<Rightarrow> int" where "dec_int bs = dec_signed (take 4 bs)"
definition enc_ll :: "int \<Rightarrow> bytes" where "enc_ll x = enc_le 8 x"
definition dec_ll :: "bytes \<Rightarrow> int" where "dec_ll bs = dec_signed (take 8 bs)"

lemma length_enc_int [simp]: "length (enc_int x) = 4"
  by (simp add: enc_int_def)

lemma length_enc_ll [simp]: "length (enc_ll x) = 8"
  by (simp add: enc_ll_def)

lemma dec_int_enc_int [simp, codec_simps]: "int_range x \<Longrightarrow> dec_int (enc_int x @ rest) = x"
  unfolding dec_int_def enc_int_def int_range_def
  by (simp add: dec_signed_enc_le)

lemma dec_int_enc_int' [simp, codec_simps]: "int_range x \<Longrightarrow> dec_int (enc_int x) = x"
  using dec_int_enc_int [of x "[]"] by simp

lemma dec_le_bounds: "0 \<le> dec_le bs" "dec_le bs < 256 ^ length bs"
proof -
  have "0 \<le> dec_le bs \<and> dec_le bs < 256 ^ length bs"
  proof (induction bs)
    case (Cons b bs)
    have "0 \<le> (of_char b :: int)" "(of_char b :: int) < 256" by (simp_all add: of_char_def)
    then show ?case using Cons by simp
  qed simp
  then show "0 \<le> dec_le bs" "dec_le bs < 256 ^ length bs" by simp_all
qed

lemma range_dec_int [simp]: "int_range (dec_int bs)"
proof -
  let ?x = "take 4 bs"
  have "(256 :: int) ^ length ?x \<le> 256 ^ 4" by (rule power_increasing) simp_all
  then show ?thesis
    using dec_le_bounds [of ?x] by (simp add: dec_int_def dec_signed_def int_range_def Let_def)
qed

lemma dec_ll_enc_ll [simp, codec_simps]:
  "- (2 ^ 63) \<le> x \<Longrightarrow> x < 2 ^ 63 \<Longrightarrow> dec_ll (enc_ll x @ rest) = x"
  unfolding dec_ll_def enc_ll_def by (simp add: dec_signed_enc_le)

lemma dec_ll_enc_ll' [simp, codec_simps]:
  "- (2 ^ 63) \<le> x \<Longrightarrow> x < 2 ^ 63 \<Longrightarrow> dec_ll (enc_ll x) = x"
  using dec_ll_enc_ll [of x "[]"] by simp

section \<open>Decimal printing: the \<open>%d\<close> of \<open>sprintf\<close>\<close>

definition digit_char :: "nat \<Rightarrow> char" where
  "digit_char d = char_of (48 + d)"

fun show_nat :: "nat \<Rightarrow> bytes" where
  "show_nat n = (if n < 10 then [digit_char n] else show_nat (n div 10) @ [digit_char (n mod 10)])"

declare show_nat.simps [simp del]

definition show_int :: "int \<Rightarrow> bytes" where
  "show_int i = (if i < 0 then CHR ''-'' # show_nat (nat (- i)) else show_nat (nat i))"

definition read_digits :: "bytes \<Rightarrow> nat" where
  "read_digits s = foldl (\<lambda>n c. 10 * n + (of_char c - 48)) 0 s"

lemma of_char_digit: "d < 10 \<Longrightarrow> (of_char (digit_char d) :: nat) = 48 + d"
  by (simp add: digit_char_def)

lemma read_digits_snoc: "read_digits (s @ [c]) = 10 * read_digits s + (of_char c - 48)"
  by (simp add: read_digits_def)

lemma read_show_nat [simp]: "read_digits (show_nat n) = n"
proof (induction n rule: show_nat.induct)
  case (1 n)
  show ?case
  proof (cases "n < 10")
    case True
    then show ?thesis
      by (subst show_nat.simps) (simp add: read_digits_def of_char_digit)
  next
    case False
    with "1.IH" show ?thesis
      by (subst show_nat.simps) (simp add: read_digits_snoc of_char_digit)
  qed
qed

lemma show_nat_inject [simp]: "show_nat m = show_nat n \<longleftrightarrow> m = n"
  by (metis read_show_nat)

lemma digit_char_props: "d < 10 \<Longrightarrow> 48 \<le> (of_char (digit_char d) :: nat) \<and> (of_char (digit_char d) :: nat) < 58"
  by (simp add: of_char_digit)

lemma show_nat_digits: "c \<in> set (show_nat n) \<Longrightarrow> 48 \<le> (of_char c :: nat) \<and> (of_char c :: nat) < 58"
proof (induction n rule: show_nat.induct)
  case (1 n)
  show ?case
  proof (cases "n < 10")
    case True
    with "1.prems" have "c = digit_char n" by (simp add: show_nat.simps [of n])
    with True show ?thesis by (simp add: digit_char_props)
  next
    case False
    with "1.prems" consider "c \<in> set (show_nat (n div 10))" | "c = digit_char (n mod 10)"
      by (auto simp: show_nat.simps [of n])
    then show ?thesis
    proof cases
      case 1
      with "1.IH" False show ?thesis by simp
    next
      case 2
      then show ?thesis using digit_char_props [of "n mod 10"] by simp
    qed
  qed
qed

lemma show_nat_not: "c \<in> set (show_nat n) \<Longrightarrow> (of_char c :: nat) < 48 \<or> 58 \<le> (of_char c :: nat) \<Longrightarrow> False"
  using show_nat_digits by fastforce

lemma show_nat_nonempty [simp]: "show_nat n \<noteq> []"
  by (subst show_nat.simps) simp

lemma show_int_inject [simp]: "show_int i = show_int j \<longleftrightarrow> i = j"
proof
  have minus: "CHR ''-'' \<notin> set (show_nat n)" for n
    using show_nat_not by fastforce
  assume eq: "show_int i = show_int j"
  show "i = j"
  proof (cases "i < 0")
    case True
    have "j < 0"
    proof (rule ccontr)
      assume "\<not> j < 0"
      with True eq have "CHR ''-'' # show_nat (nat (- i)) = show_nat (nat j)"
        by (simp add: show_int_def)
      with minus [of "nat j"] show False by (metis list.set_intros(1))
    qed
    with True eq show ?thesis by (simp add: show_int_def)
  next
    case False
    have "\<not> j < 0"
    proof
      assume "j < 0"
      with False eq have "CHR ''-'' # show_nat (nat (- j)) = show_nat (nat i)"
        by (simp add: show_int_def)
      with minus [of "nat i"] show False by (metis list.set_intros(1))
    qed
    with False eq show ?thesis by (simp add: show_int_def)
  qed
qed simp

section \<open>Runs of equal-sized chunks\<close>

text \<open>Writing \<open>bs\<close> at offset \<open>off\<close> of a file's contents: a gap past the end reads as NULs, as
  POSIX says of a file hole.\<close>

definition overwrite :: "nat \<Rightarrow> bytes \<Rightarrow> bytes \<Rightarrow> bytes" where
  "overwrite off bs mem =
     take off (mem @ replicate (off - length mem) (CHR 0x00)) @ bs @ drop (off + length bs) mem"

definition all_len :: "nat \<Rightarrow> bytes list \<Rightarrow> bool" where
  "all_len k xs \<longleftrightarrow> (\<forall>x \<in> set xs. length x = k)"

lemma all_len_simps [simp]:
  "all_len k []"
  "all_len k (x # xs) \<longleftrightarrow> length x = k \<and> all_len k xs"
  "all_len k (xs @ ys) \<longleftrightarrow> all_len k xs \<and> all_len k ys"
  by (auto simp: all_len_def)

lemma all_len_nth: "all_len k xs \<Longrightarrow> i < length xs \<Longrightarrow> length (xs ! i) = k"
  by (simp add: all_len_def)

lemma all_len_update [intro]: "all_len k xs \<Longrightarrow> length y = k \<Longrightarrow> all_len k (xs[i := y])"
  unfolding all_len_def using set_update_subset_insert by fastforce

lemma all_len_mono: "all_len k xs \<Longrightarrow> set ys \<subseteq> set xs \<Longrightarrow> all_len k ys"
  by (auto simp: all_len_def)

lemma length_concat_chunks [chunk_simps]: "all_len k xs \<Longrightarrow> length (concat xs) = length xs * k"
  by (induction xs) auto

lemma take_concat_chunks: "all_len k xs \<Longrightarrow> i \<le> length xs \<Longrightarrow> take (i * k) (concat xs @ t) = concat (take i xs)"
proof (induction i arbitrary: xs)
  case 0
  then show ?case by simp
next
  case (Suc i)
  then obtain y ys where [simp]: "xs = y # ys" by (cases xs) auto
  from Suc show ?case by simp
qed

lemma drop_concat_chunks:
  "all_len k xs \<Longrightarrow> i \<le> length xs \<Longrightarrow> drop (i * k) (concat xs @ t) = concat (drop i xs) @ t"
proof (induction i arbitrary: xs)
  case 0
  then show ?case by simp
next
  case (Suc i)
  then obtain y ys where [simp]: "xs = y # ys" by (cases xs) auto
  from Suc show ?case by simp
qed

lemma chunk_at [chunk_simps]:
  assumes "all_len k xs" "i < length xs"
  shows "take k (drop (i * k) (concat xs @ t)) = xs ! i"
proof -
  have "drop (i * k) (concat xs @ t) = concat (drop i xs) @ t"
    using assms by (intro drop_concat_chunks) auto
  also have "\<dots> = xs ! i @ concat (drop (Suc i) xs) @ t"
    using assms(2) by (simp add: Cons_nth_drop_Suc [symmetric])
  finally show ?thesis using all_len_nth [OF assms] by simp
qed

lemma chunk_set [chunk_simps]:
  assumes "all_len k xs" "i < length xs" "length y = k"
  shows "overwrite (i * k) y (concat xs @ t) = concat (xs[i := y]) @ t"
proof -
  have len: "length (concat xs) = length xs * k" using assms by (simp add: length_concat_chunks)
  have "i * k \<le> length xs * k" using assms(2) by (intro mult_le_mono1) simp
  then have "i * k \<le> length (concat xs @ t)" unfolding length_append len by linarith
  then have pad: "i * k - length (concat xs @ t) = 0" by simp
  have "drop (i * k + length y) (concat xs @ t) = drop (Suc i * k) (concat xs @ t)"
    using assms(3) by (simp add: algebra_simps)
  also have "\<dots> = concat (drop (Suc i) xs) @ t"
    using assms(1,2) by (intro drop_concat_chunks) auto
  finally have dropped: "drop (i * k + length y) (concat xs @ t) = concat (drop (Suc i) xs) @ t" .
  have taken: "take (i * k) (concat xs @ t) = concat (take i xs)"
    using assms by (intro take_concat_chunks) auto
  show ?thesis
    using assms unfolding overwrite_def pad replicate_0 append_Nil2 dropped taken
    by (simp add: upd_conv_take_nth_drop)
qed

lemma chunk_append [chunk_simps]:
  assumes "all_len k xs" "length y = k"
  shows "overwrite (length xs * k) y (concat xs @ t) = concat (xs @ [y]) @ drop k t"
  using assms unfolding overwrite_def by (simp add: length_concat_chunks)

lemma overwrite_prefix [chunk_simps]:
  "length p \<le> off \<Longrightarrow> overwrite off bs (p @ m) = p @ overwrite (off - length p) bs m"
  unfolding overwrite_def by (auto simp: add.commute)

lemma overwrite_front [chunk_simps]: "length p = length bs \<Longrightarrow> overwrite 0 bs (p @ m) = bs @ m"
  unfolding overwrite_def by simp

section \<open>First matches and swap-removal\<close>

fun find_index :: "('a \<Rightarrow> bool) \<Rightarrow> 'a list \<Rightarrow> nat option" where
  "find_index P [] = None"
| "find_index P (x # xs) = (if P x then Some 0 else map_option Suc (find_index P xs))"

lemma find_index_None [simp]: "find_index P xs = None \<longleftrightarrow> (\<forall>x \<in> set xs. \<not> P x)"
  by (induction xs) auto

lemma find_index_Some:
  "find_index P xs = Some i \<Longrightarrow> i < length xs \<and> P (xs ! i) \<and> (\<forall>j < i. \<not> P (xs ! j))"
proof (induction xs arbitrary: i)
  case Nil
  then show ?case by simp
next
  case (Cons x xs)
  show ?case
  proof (cases "P x")
    case True
    with Cons.prems show ?thesis by simp
  next
    case False
    with Cons.prems obtain k where k: "find_index P xs = Some k" "i = Suc k" by auto
    from Cons.IH [OF k(1)] show ?thesis using k(2) False
      by (auto simp: less_Suc_eq_0_disj nth_Cons split: nat.split)
  qed
qed

lemma find_index_eq_find: "List.find P xs = map_option (\<lambda>i. xs ! i) (find_index P xs)"
  by (induction xs) (auto simp: option.map_comp comp_def)

text \<open>Removal by moving the last element into the hole, as the database and the pointer arrays
  of the server do it.\<close>

definition swap_remove :: "nat \<Rightarrow> 'a list \<Rightarrow> 'a list" where
  "swap_remove i xs = butlast (xs[i := last xs])"

lemma length_swap_remove [simp]: "length (swap_remove i xs) = length xs - 1"
  by (simp add: swap_remove_def)

lemma swap_remove_split:
  assumes "i < length xs"
  shows "swap_remove i xs = (if Suc i = length xs then butlast xs
           else take i xs @ last xs # butlast (drop (Suc i) xs))"
proof (cases "Suc i = length xs")
  case True
  then show ?thesis by (auto simp: swap_remove_def butlast_list_update)
next
  case False
  with assms have "drop (Suc i) xs \<noteq> []" by simp
  with assms False show ?thesis
    by (simp add: swap_remove_def upd_conv_take_nth_drop butlast_append)
qed

lemma mset_swap_remove_aux:
  assumes "i < length xs" "Suc i \<noteq> length xs"
  shows "xs = take i xs @ xs ! i # butlast (drop (Suc i) xs) @ [last xs]"
proof -
  have ne: "drop (Suc i) xs \<noteq> []" using assms by simp
  have "xs = take i xs @ xs ! i # drop (Suc i) xs"
    using assms(1) by (rule id_take_nth_drop)
  also have "drop (Suc i) xs = butlast (drop (Suc i) xs) @ [last xs]"
    using ne append_butlast_last_id [OF ne] by (simp add: last_drop)
  finally show ?thesis .
qed

lemma set_swap_remove_distinct:
  assumes "i < length xs" "distinct (map f xs)"
  shows "set (swap_remove i xs) = {x \<in> set xs. f x \<noteq> f (xs ! i)}"
    and "distinct (map f (swap_remove i xs))"
proof -
  have "set (swap_remove i xs) = {x \<in> set xs. f x \<noteq> f (xs ! i)} \<and> distinct (map f (swap_remove i xs))"
  proof (cases "Suc i = length xs")
    case True
    with assms(1) obtain ys x where xs: "xs = ys @ [x]" and i: "i = length ys"
      by (cases xs rule: rev_cases) auto
    have "swap_remove i xs = ys"
      using assms(1) True xs by (simp add: swap_remove_split)
    with assms(2) show ?thesis by (auto simp: xs i dest: image_eqI [where f = f, OF sym])
  next
    case False
    define a b where "a = take i xs" and "b = butlast (drop (Suc i) xs)"
    have xs: "xs = a @ xs ! i # b @ [last xs]"
      using mset_swap_remove_aux [OF assms(1) False] by (simp add: a_def b_def)
    have sr: "swap_remove i xs = a @ last xs # b"
      using assms(1) False by (simp add: swap_remove_split a_def b_def)
    have d: "distinct (map f (a @ xs ! i # b @ [last xs]))" using assms(2) xs by simp
    have s: "set xs = set (a @ xs ! i # b @ [last xs])" using xs by simp
    show ?thesis unfolding sr s using d by (auto dest: image_eqI [where f = f, OF sym])
  qed
  then show "set (swap_remove i xs) = {x \<in> set xs. f x \<noteq> f (xs ! i)}"
    and "distinct (map f (swap_remove i xs))" by auto
qed

lemma set_swap_remove_subset: "i < length xs \<Longrightarrow> set (swap_remove i xs) \<subseteq> set xs"
proof -
  assume "i < length xs"
  then have "xs \<noteq> []" by auto
  then have "set (xs[i := last xs]) \<subseteq> set xs"
    using set_update_subset_insert [of xs i "last xs"] by auto
  then show ?thesis
    unfolding swap_remove_def using in_set_butlastD by fast
qed

end
