(* ===== verification/Posix.thy ===== *)
theory Posix
  imports Prelude
begin

text \<open>
  The part of the POSIX interface the file database and the file transfer use. The file system
  is a map from path names to contents; an open file is its contents with a position. A read at
  the end of a file returns fewer bytes and leaves the rest of the destination as it was; a
  \<open>lseek\<close> to a negative offset fails and leaves the position; a write past the end extends the
  file. \<open>junk\<close> is what freshly allocated memory holds: an arbitrary but fixed function, so that
  every theorem holds whatever \<open>malloc\<close> returns. \<open>setlkw_ok\<close> and \<open>setlk_ok\<close> say whether the
  blocking lock request and the unlock request of \<open>fcntl\<close> succeed, so that the error returns
  they guard are branches of the model, and \<open>creatable\<close> whether \<open>open\<close> with \<open>O_CREAT\<close> succeeds on
  a path. A socket or pipe is, on its reading side, the list of what the reads find (\<open>event\<close>) and,
  on its writing side, the bytes delivered and how much each write takes (\<open>ostream\<close>). Disk-full and I/O errors of regular files, and an
  allocation that fails, are not modelled.
\<close>

record os =
  files :: "bytes \<rightharpoonup> bytes"
  junk :: "nat \<Rightarrow> char"
  setlkw_ok :: bool
  setlk_ok :: bool
  creatable :: "bytes \<Rightarrow> bool"

record cfile =
  fdata :: bytes
  fpos :: nat

definition open_file :: "bytes \<Rightarrow> cfile" where
  "open_file c = \<lparr>fdata = c, fpos = 0\<rparr>"

definition malloc :: "'a os_scheme \<Rightarrow> nat \<Rightarrow> bytes" where
  "malloc s n = map (junk s) [0..<n]"

definition fd_read :: "nat \<Rightarrow> cfile \<Rightarrow> bytes \<times> cfile" where
  "fd_read n f = (let bs = take n (drop (fpos f) (fdata f))
     in (bs, f\<lparr>fpos := fpos f + length bs\<rparr>))"

definition read_into :: "bytes \<Rightarrow> cfile \<Rightarrow> bytes \<times> cfile" where
  "read_into dst f = (let (bs, f') = fd_read (length dst) f
     in (bs @ drop (length bs) dst, f'))"

definition fd_lseek :: "int \<Rightarrow> cfile \<Rightarrow> cfile" where
  "fd_lseek off f = (if off < 0 then f else f\<lparr>fpos := nat off\<rparr>)"

definition fd_write :: "bytes \<Rightarrow> cfile \<Rightarrow> cfile" where
  "fd_write bs f = f\<lparr>fdata := overwrite (fpos f) bs (fdata f), fpos := fpos f + length bs\<rparr>"

definition put_file :: "bytes \<Rightarrow> bytes \<Rightarrow> 'a os_scheme \<Rightarrow> 'a os_scheme" where
  "put_file path c s = s\<lparr>files := (files s)(path \<mapsto> c)\<rparr>"

text \<open>\<open>remove(path)\<close> and \<open>rename(old, new)\<close>; a \<open>rename\<close> of a missing file changes nothing.\<close>

definition remove_file :: "bytes \<Rightarrow> 'a os_scheme \<Rightarrow> int \<times> 'a os_scheme" where
  "remove_file path s = (if files s path = None then (-1, s)
     else (0, s\<lparr>files := (files s)(path := None)\<rparr>))"

definition rename_file :: "bytes \<Rightarrow> bytes \<Rightarrow> 'a os_scheme \<Rightarrow> 'a os_scheme" where
  "rename_file old new s = (case files s old of
     None \<Rightarrow> s
   | Some c \<Rightarrow> if old = new then s
       else s\<lparr>files := (files s)(new \<mapsto> c, old := None)\<rparr>)"

section \<open>Sockets and pipes\<close>

text \<open>What one \<open>read\<close> can find: a segment of bytes, of which it takes as many as it asks for and
  leaves the rest, an error, or an interruption (\<open>errno == EINTR\<close>). At the end of the list the peer
  has closed and \<open>read\<close> returns 0.\<close>

datatype event = Data bytes | ReadError | ReadIntr

fun sock_read :: "nat \<Rightarrow> event list \<Rightarrow> int \<times> bytes \<times> event list" where
  "sock_read n [] = (0, [], [])"
| "sock_read n (ReadError # es) = (-1, [], es)"
| "sock_read n (ReadIntr # es) = (-1, [], es)"
| "sock_read n (Data c # es) =
     (int (length (take n c)), take n c, if length c \<le> n then es else Data (drop n c) # es)"

lemma sock_read_pos: "sock_read n es = (k, bs, es') \<Longrightarrow> 0 < k \<Longrightarrow> k = int (length bs) \<and> bs \<noteq> []"
  by (cases "(n, es)" rule: sock_read.cases) auto

lemma sock_read_le: "sock_read n es = (k, bs, es') \<Longrightarrow> length bs \<le> n"
  by (cases "(n, es)" rule: sock_read.cases) auto

lemmas sock_read_pos_sym = sock_read_pos [OF sym]

text \<open>\<open>ocaps\<close> says what the next writes do: a negative number is a failure, any other how many bytes
  the write takes at most; a write behind the end of the list takes everything.\<close>

record ostream =
  odata :: bytes
  ocaps :: "int list"

definition sock_write :: "bytes \<Rightarrow> ostream \<Rightarrow> int \<times> ostream" where
  "sock_write bs w = (case ocaps w of
     [] \<Rightarrow> (int (length bs), w\<lparr>odata := odata w @ bs\<rparr>)
   | c # cs \<Rightarrow>
       if c < 0 then (-1, w\<lparr>ocaps := cs\<rparr>)
       else (int (length (take (nat c) bs)), w\<lparr>odata := odata w @ take (nat c) bs, ocaps := cs\<rparr>))"

text \<open>The bytes a reading side still delivers when no read fails.\<close>

fun stream :: "event list \<Rightarrow> bytes" where
  "stream [] = []"
| "stream (Data c # es) = c @ stream es"
| "stream (_ # es) = stream es"

fun clean :: "event list \<Rightarrow> bool" where
  "clean [] = True"
| "clean (Data c # es) = (c \<noteq> [] \<and> clean es)"
| "clean (_ # es) = False"

section \<open>What reads and writes return\<close>

lemma length_malloc [simp]: "length (malloc s n) = n"
  by (simp add: malloc_def)

lemma fdata_simps [simp]:
  "fdata (open_file c) = c" "fpos (open_file c) = 0"
  "fdata (fd_lseek off f) = fdata f"
  by (simp_all add: open_file_def fd_lseek_def)

lemma fpos_lseek [simp]: "0 \<le> off \<Longrightarrow> fpos (fd_lseek off f) = nat off"
  by (simp add: fd_lseek_def)

lemma read_into_full [simp]:
  assumes "fpos f + length dst \<le> length (fdata f)"
  shows "read_into dst f = (take (length dst) (drop (fpos f) (fdata f)),
     f\<lparr>fpos := fpos f + length dst\<rparr>)"
  using assms by (simp add: read_into_def fd_read_def Let_def)

lemma read_into_fdata [simp]: "fdata (snd (read_into dst f)) = fdata f"
  by (simp add: read_into_def fd_read_def Let_def)

lemma read_into_length [simp]: "length (fst (read_into dst f)) = length dst"
  by (simp add: read_into_def fd_read_def Let_def)

lemma fdata_write: "fdata (fd_write bs f) = overwrite (fpos f) bs (fdata f)"
  by (simp add: fd_write_def)

lemma put_file_simps [simp]:
  "files (put_file p c s) = (files s)(p \<mapsto> c)"
  "junk (put_file p c s) = junk s"
  "setlkw_ok (put_file p c s) = setlkw_ok s"
  "setlk_ok (put_file p c s) = setlk_ok s"
  "malloc (put_file p c s) n = malloc s n"
  by (simp_all add: put_file_def malloc_def)

end
