(* ===== verification/DatabaseRefinement.thy ===== *)
theory DatabaseRefinement
  imports GenericDatabase "HOL-Library.Multiset"
begin

text \<open>
  The abstraction of a database file, and the proof that every function of
  \<open>Server/genericDatabase.c\<close> implements an operation on the list of its rows. \<open>db_rows\<close> reads
  the rows, \<open>db_inv\<close> is the well-formedness of a file; \<open>db_image\<close> builds the file of a row list
  followed by whatever bytes an earlier, longer table left behind.
\<close>

section \<open>Rows of a file\<close>

definition db_rows :: "nat \<Rightarrow> bytes \<Rightarrow> bytes list" where
  "db_rows sz c = splitRecords sz (nat (dec_int c)) (drop 4 c)"

definition db_inv :: "nat \<Rightarrow> bytes \<Rightarrow> bool" where
  "db_inv sz c \<longleftrightarrow> 0 < sz \<and> 4 \<le> length c \<and> 0 \<le> dec_int c
     \<and> 4 + nat (dec_int c) * sz \<le> length c \<and> nat (dec_int c) * sz < 2 ^ 31"

definition db_image :: "bytes list \<Rightarrow> bytes \<Rightarrow> bytes" where
  "db_image rows t = enc_int (int (length rows)) @ concat rows @ t"

definition db_fits :: "nat \<Rightarrow> bytes list \<Rightarrow> bool" where
  "db_fits sz rows \<longleftrightarrow> 0 < sz \<and> all_len sz rows \<and> length rows * sz < 2 ^ 31"

lemma db_fitsD:
  assumes "db_fits sz rows"
  shows "0 < sz" "all_len sz rows" "length rows * sz < 2 ^ 31" "length (concat rows) = length rows * sz"
  using assms by (auto simp: db_fits_def length_concat_chunks)

lemma db_invD:
  assumes "db_inv sz c"
  shows "0 < sz" "4 \<le> length c" "0 \<le> dec_int c" "nat (dec_int c) * sz \<le> length (drop 4 c)"
    "nat (dec_int c) * sz < 2 ^ 31"
  using assms by (auto simp: db_inv_def)

lemma db_fits_count: "db_fits sz rows \<Longrightarrow> length rows < 2 ^ 31"
proof -
  assume f: "db_fits sz rows"
  then have "length rows * 1 \<le> length rows * sz"
    unfolding db_fits_def by (intro mult_le_mono2) simp
  also have "length rows * sz < 2 ^ 31" using f by (simp add: db_fits_def)
  finally show ?thesis by simp
qed

lemma db_fits_offset:
  assumes "db_fits sz rows" "i \<le> length rows"
  shows "recordOffset sz (int i) = int (4 + i * sz)"
proof -
  have "i * sz \<le> length rows * sz" using assms(2) by (rule mult_le_mono1)
  also have "\<dots> < 2 ^ 31" using assms(1) by (simp add: db_fits_def)
  finally have b: "i * sz < 2 ^ 31" .
  have "int_range (int i * int sz)"
    using b unfolding int_range_def by (simp flip: of_nat_mult)
  then show ?thesis by (simp add: recordOffset_def)
qed

lemma length_splitRecords [simp]: "length (splitRecords sz n m) = n"
  by (simp add: splitRecords_def)

lemma splitRecords_concat:
  assumes "all_len sz rows"
  shows "splitRecords sz (length rows) (concat rows @ t) = rows"
  unfolding splitRecords_def
  by (rule nth_equalityI) (use assms in \<open>simp_all add: chunk_at del: take_append drop_append\<close>)

lemma all_len_splitRecords: "n * sz \<le> length m \<Longrightarrow> all_len sz (splitRecords sz n m)"
proof -
  assume le: "n * sz \<le> length m"
  have "i * sz + sz \<le> length m" if "i < n" for i
  proof -
    have "Suc i * sz \<le> n * sz" using that by (intro mult_le_mono1) simp
    with le show ?thesis by simp
  qed
  then show ?thesis by (fastforce simp: all_len_def splitRecords_def)
qed

lemma concat_splitRecords: "n * sz \<le> length m \<Longrightarrow> concat (splitRecords sz n m) = take (n * sz) m"
proof (induction n)
  case 0
  then show ?case by (simp add: splitRecords_def)
next
  case (Suc n)
  have "splitRecords sz (Suc n) m = splitRecords sz n m @ [take sz (drop (n * sz) m)]"
    by (simp add: splitRecords_def)
  with Suc show ?case by (simp add: take_add [symmetric] add.commute)
qed

lemma of_char_int_bounds: "0 \<le> (of_char c :: int)" "(of_char c :: int) < 256"
proof -
  have e: "(of_char c :: int) = int (of_char c)" by (rule of_nat_of_char [symmetric])
  show "0 \<le> (of_char c :: int)" "(of_char c :: int) < 256"
    unfolding e using nat_of_char_less_256 [of c] by linarith+
qed

lemma enc_le_dec_le: "enc_le (length bs) (dec_le bs) = bs"
proof (induction bs)
  case Nil
  then show ?case by simp
next
  case (Cons c cs)
  note b = of_char_int_bounds [of c]
  have "(of_char c + 256 * dec_le cs) mod 256 = (of_char c :: int)"
    and "(of_char c + 256 * dec_le cs) div 256 = dec_le cs" using b by simp_all
  then show ?case using Cons by simp
qed

lemma enc_int_dec_int:
  assumes "4 \<le> length c"
  shows "enc_int (dec_int c) = take 4 c"
proof -
  define b where "b = take 4 c"
  have len: "length b = 4" using assms by (simp add: b_def)
  have shift: "enc_le n (x - 256 ^ n) = enc_le n x" for n x
  proof (induction n arbitrary: x)
    case 0
    then show ?case by simp
  next
    case (Suc n)
    have e: "x - 256 ^ Suc n = x + (- (256 ^ n)) * 256" by simp
    have "(x - 256 ^ Suc n) mod 256 = x mod 256" unfolding e by (rule mod_mult_self1)
    moreover have "(x - 256 ^ Suc n) div 256 = x div 256 - 256 ^ n"
      unfolding e by (subst div_mult_self1) simp_all
    ultimately show ?case using Suc by (simp del: power_Suc)
  qed
  have "enc_le 4 (dec_signed b) = enc_le 4 (dec_le b)"
    using shift [of 4 "dec_le b"] len by (simp add: dec_signed_def Let_def)
  also have "\<dots> = b" using enc_le_dec_le [of b] len by simp
  finally show ?thesis by (simp add: enc_int_def dec_int_def b_def)
qed

lemma db_inv_image:
  assumes "db_fits sz rows"
  shows "db_inv sz (db_image rows t)" and "db_rows sz (db_image rows t) = rows"
proof -
  have n: "length rows < 2 ^ 31" by (rule db_fits_count [OF assms])
  then have r: "int_range (int (length rows))" by (simp add: int_range_def)
  then have d: "dec_int (db_image rows t) = int (length rows)" by (simp add: db_image_def)
  show "db_inv sz (db_image rows t)"
    using db_fitsD [OF assms] unfolding db_inv_def d by (simp add: db_image_def)
  show "db_rows sz (db_image rows t) = rows"
    using db_fitsD [OF assms] unfolding db_rows_def d
    by (simp add: db_image_def splitRecords_concat)
qed

lemma db_inv_fits: "db_inv sz c \<Longrightarrow> db_fits sz (db_rows sz c)"
  using db_invD [of sz c] all_len_splitRecords [of "nat (dec_int c)" sz "drop 4 c"]
  by (simp add: db_fits_def db_rows_def)

lemma db_inv_is_image:
  assumes "db_inv sz c"
  obtains t where "c = db_image (db_rows sz c) t"
proof
  have "db_image (db_rows sz c) (drop (nat (dec_int c) * sz) (drop 4 c))
      = enc_int (dec_int c) @ take (nat (dec_int c) * sz) (drop 4 c)
          @ drop (nat (dec_int c) * sz) (drop 4 c)"
    using concat_splitRecords [OF db_invD(4) [OF assms]] db_invD(3) [OF assms]
    by (simp add: db_image_def db_rows_def del: drop_drop)
  also have "\<dots> = take 4 c @ drop 4 c"
    using db_invD(2) [OF assms] by (simp only: enc_int_dec_int append_take_drop_id)
  finally show "c = db_image (db_rows sz c) (drop (nat (dec_int c) * sz) (drop 4 c))" by simp
qed

section \<open>The primitives on an image\<close>

lemma length_image: "db_fits sz rows \<Longrightarrow> length (db_image rows t) = 4 + length rows * sz + length t"
  by (simp add: db_image_def db_fitsD)

lemma readCount_image:
  assumes "db_fits sz rows"
  shows "readCount s (open_file (db_image rows t))
    = (int (length rows), \<lparr>fdata = db_image rows t, fpos = 4\<rparr>)"
proof -
  have "int_range (int (length rows))"
    using db_fits_count [OF assms] by (simp add: int_range_def)
  then show ?thesis
    using assms by (simp add: readCount_def length_image) (simp add: db_image_def open_file_def)
qed

lemma getRecordUnlocked_image:
  assumes "db_fits sz rows" "fdata f = db_image rows t" "i < length rows"
  shows "fst (getRecordUnlocked s f sz (int i)) = rows ! i"
    and "fdata (snd (getRecordUnlocked s f sz (int i))) = fdata f"
proof -
  have off: "recordOffset sz (int i) = int (4 + i * sz)"
    using db_fits_offset [OF assms(1)] assms(3) by simp
  have "Suc i * sz \<le> length rows * sz" using assms(3) by (intro mult_le_mono1) simp
  then have le: "4 + i * sz + sz \<le> length (db_image rows t)" using assms(1) by (simp add: length_image)
  have at: "take sz (drop (4 + i * sz) (db_image rows t)) = rows ! i"
    using chunk_at [OF db_fitsD(2) [OF assms(1)] assms(3), of t]
    by (simp add: db_image_def del: take_append)
  have "getRecordUnlocked s f sz (int i) = read_into (malloc s sz) (f\<lparr>fpos := 4 + i * sz\<rparr>)"
    unfolding getRecordUnlocked_def off by (simp add: fd_lseek_def nat_add_distrib flip: of_nat_mult)
  then show "fst (getRecordUnlocked s f sz (int i)) = rows ! i"
    and "fdata (snd (getRecordUnlocked s f sz (int i))) = fdata f"
    using le at assms(2) by simp_all
qed

lemma scanRecords_image:
  assumes "db_fits sz rows" "fdata f = db_image rows t" "i + n = length rows"
  shows "fst (scanRecords s sz mf n (int i) f)
      = map_option (\<lambda>k. (int (i + k), rows ! (i + k))) (find_index (\<lambda>r. mf r = 1) (drop i rows))
    \<and> fdata (snd (scanRecords s sz mf n (int i) f)) = fdata f"
  using assms(2,3)
proof (induction n arbitrary: i f)
  case 0
  then show ?case by simp
next
  case (Suc n)
  then have i: "i < length rows" by simp
  obtain r f' where g: "getRecordUnlocked s f sz (int i) = (r, f')" by fastforce
  from getRecordUnlocked_image [OF assms(1) Suc.prems(1) i, of s] g
  have r: "r = rows ! i" and f': "fdata f' = fdata f" by simp_all
  have IH: "fst (scanRecords s sz mf n (int i + 1) f')
      = map_option (\<lambda>k. (int (Suc i + k), rows ! (Suc i + k))) (find_index (\<lambda>r. mf r = 1) (drop (Suc i) rows))
    \<and> fdata (snd (scanRecords s sz mf n (int i + 1) f')) = fdata f'"
    using Suc.IH [of f' "Suc i"] Suc.prems f' by (simp add: add.commute)
  have d: "drop i rows = rows ! i # drop (Suc i) rows"
    using i by (simp add: Cons_nth_drop_Suc)
  show ?case
  proof (cases "mf r = 1")
    case True
    then show ?thesis using g r f' by (simp add: d)
  next
    case False
    then show ?thesis using g r f' IH
      by (simp add: d option.map_comp comp_def algebra_simps)
  qed
qed

lemma fdata_write_at:
  assumes "db_fits sz rows" "fdata f = db_image rows t" "i < length rows" "length r = sz"
  shows "fdata (fd_write (take sz r) (fd_lseek (recordOffset sz (int i)) f)) = db_image (rows[i := r]) t"
proof -
  have "recordOffset sz (int i) = int (4 + i * sz)"
    using db_fits_offset [OF assms(1)] assms(3) by simp
  then have "fdata (fd_write (take sz r) (fd_lseek (recordOffset sz (int i)) f))
      = overwrite (4 + i * sz) r (db_image rows t)"
    using assms(2,4) by (simp add: fdata_write fd_lseek_def nat_add_distrib flip: of_nat_mult)
  also have "\<dots> = enc_int (int (length rows)) @ overwrite (i * sz) r (concat rows @ t)"
    by (simp add: db_image_def overwrite_prefix)
  also have "\<dots> = db_image (rows[i := r]) t"
    using db_fitsD(2) [OF assms(1)] assms(3,4) by (simp add: db_image_def chunk_set)
  finally show ?thesis .
qed

lemma appendRecord_image:
  assumes "db_fits sz (rows @ [r])" "fdata f = db_image rows t"
  shows "fdata (appendRecord sz (int (length rows)) r f) = db_image (rows @ [r]) (drop sz t)"
proof -
  have fits: "db_fits sz rows" using assms(1) by (auto simp: db_fits_def)
  have r: "length r = sz" using db_fitsD(2) [OF assms(1)] by simp
  have "recordOffset sz (int (length rows)) = int (4 + length rows * sz)"
    by (rule db_fits_offset [OF fits]) simp
  then have "fdata (fd_write (take sz r) (fd_lseek (recordOffset sz (int (length rows))) f))
      = overwrite (4 + length rows * sz) r (db_image rows t)"
    using assms(2) r by (simp add: fdata_write fd_lseek_def nat_add_distrib flip: of_nat_mult)
  also have "\<dots> = enc_int (int (length rows)) @ concat (rows @ [r]) @ drop sz t"
    using db_fitsD(2) [OF fits] r by (simp add: db_image_def overwrite_prefix chunk_append)
  finally have body: "fdata (fd_write (take sz r) (fd_lseek (recordOffset sz (int (length rows))) f))
      = enc_int (int (length rows)) @ concat (rows @ [r]) @ drop sz t" .
  have "int_range (int (length rows) + 1)"
    using db_fits_count [OF assms(1)] by (simp add: int_range_def)
  then show ?thesis
    using body by (simp add: appendRecord_def Let_def fdata_write fd_lseek_def overwrite_front
        db_image_def add.commute)
qed

lemma concat_swap_remove:
  assumes "i < length rows"
  shows "concat (rows[i := last rows]) = concat (swap_remove i rows) @ last (rows[i := last rows])"
proof -
  have "rows[i := last rows] \<noteq> []" using assms by auto
  then have "rows[i := last rows] = swap_remove i rows @ [last (rows[i := last rows])]"
    unfolding swap_remove_def by simp
  then have "concat (rows[i := last rows]) = concat (swap_remove i rows @ [last (rows[i := last rows])])"
    by (rule arg_cong)
  then show ?thesis by simp
qed

lemma removeAt_image:
  assumes "db_fits sz rows" "fdata f = db_image rows t" "i < length rows"
  shows "\<exists>t'. fdata (removeAt s sz (int (length rows)) (int i) f) = db_image (swap_remove i rows) t'"
proof -
  have ne: "rows \<noteq> []" using assms(3) by auto
  obtain r f' where g: "getRecordUnlocked s f sz (int (length rows - 1)) = (r, f')" by fastforce
  have r: "r = last rows" and f': "fdata f' = db_image rows t"
    using getRecordUnlocked_image [OF assms(1,2), of "length rows - 1" s] g ne assms(2)
    by (simp_all add: last_conv_nth)
  have g': "read_into (malloc s sz) (fd_lseek (recordOffset sz (int (length rows) - 1)) f) = (r, f')"
    using g assms(3) by (simp add: getRecordUnlocked_def of_nat_diff)
  have len: "length r = sz"
    using db_fitsD(2) [OF assms(1)] ne r by (simp add: all_len_def)
  have body: "fdata (fd_write r (fd_lseek (recordOffset sz (int i)) f')) = db_image (rows[i := last rows]) t"
    using fdata_write_at [OF assms(1) f' assms(3) len] len r by simp
  have "int_range (int (length rows) - 1)"
    using db_fits_count [OF assms(1)] assms(3) by (simp add: int_range_def)
  then have "fdata (removeAt s sz (int (length rows)) (int i) f)
      = enc_int (int (length rows) - 1) @ concat (rows[i := last rows]) @ t"
    using body g' by (simp add: removeAt_def Let_def fdata_write fd_lseek_def overwrite_front db_image_def)
  also have "\<dots> = db_image (swap_remove i rows) (last (rows[i := last rows]) @ t)"
    using assms(3) by (simp add: db_image_def concat_swap_remove of_nat_diff)
  finally show ?thesis by blast
qed

section \<open>The operations on tables\<close>

definition table_rows :: "bytes \<Rightarrow> nat \<Rightarrow> 'a os_scheme \<Rightarrow> bytes list" where
  "table_rows fn sz s = (case files s (db_path fn) of None \<Rightarrow> [] | Some c \<Rightarrow> db_rows sz c)"

definition table_ok :: "bytes \<Rightarrow> nat \<Rightarrow> 'a os_scheme \<Rightarrow> bool" where
  "table_ok fn sz s \<longleftrightarrow> (case files s (db_path fn) of None \<Rightarrow> False | Some c \<Rightarrow> db_inv sz c)"

definition fcntl_ok :: "'a os_scheme \<Rightarrow> bool" where
  "fcntl_ok s \<longleftrightarrow> setlkw_ok s \<and> setlk_ok s"

text \<open>\<open>writes_rows fn sz rows s s'\<close>: the step from \<open>s\<close> to \<open>s'\<close> replaces the rows of one table
  by \<open>rows\<close>, keeps the file well formed and touches nothing else.\<close>

definition writes_rows :: "bytes \<Rightarrow> nat \<Rightarrow> bytes list \<Rightarrow> 'a os_scheme \<Rightarrow> 'a os_scheme \<Rightarrow> bool" where
  "writes_rows fn sz rows s s' \<longleftrightarrow>
     (\<exists>c. s' = put_file (db_path fn) c s \<and> db_inv sz c \<and> db_rows sz c = rows)"

lemma writes_rowsD:
  assumes "writes_rows fn sz rows s s'"
  shows "table_ok fn sz s'" "table_rows fn sz s' = rows" "fcntl_ok s' = fcntl_ok s"
    "junk s' = junk s"
  using assms by (auto simp: writes_rows_def table_ok_def table_rows_def fcntl_ok_def)

lemma db_path_inject [simp]: "db_path a = db_path b \<longleftrightarrow> a = b"
  by (simp add: db_path_def)

lemma writes_rows_other:
  assumes "writes_rows fn sz rows s s'" "fn' \<noteq> fn"
  shows "table_ok fn' sz' s' = table_ok fn' sz' s" "table_rows fn' sz' s' = table_rows fn' sz' s"
  using assms by (auto simp: writes_rows_def table_ok_def table_rows_def)

lemma writes_rows_files:
  "writes_rows fn sz rows s s' \<Longrightarrow> p \<noteq> db_path fn \<Longrightarrow> files s' p = files s p"
  by (auto simp: writes_rows_def)

lemma writes_rows_image:
  "db_fits sz rows \<Longrightarrow> writes_rows fn sz rows s (put_file (db_path fn) (db_image rows t) s)"
  unfolding writes_rows_def using db_inv_image by blast

lemma table_okE:
  assumes "table_ok fn sz s"
  obtains t where "files s (db_path fn) = Some (db_image (table_rows fn sz s) t)"
    "db_fits sz (table_rows fn sz s)"
proof -
  from assms obtain c where c: "files s (db_path fn) = Some c" "db_inv sz c"
    by (auto simp: table_ok_def split: option.splits)
  from db_inv_is_image [OF c(2)] obtain t where "c = db_image (db_rows sz c) t" .
  with c db_inv_fits [OF c(2)] that show ?thesis by (simp add: table_rows_def)
qed

lemma put_file_same [simp]: "files s p = Some c \<Longrightarrow> put_file p c s = s"
  by (simp add: put_file_def map_upd_triv)

text \<open>Opening a well-formed table, reading its count and searching it.\<close>

lemma table_scan:
  assumes "table_ok fn sz s"
  obtains t fd fd' where
    "files s (db_path fn) = Some (db_image (table_rows fn sz s) t)"
    "db_fits sz (table_rows fn sz s)"
    "readCount s (open_file (db_image (table_rows fn sz s) t)) = (int (length (table_rows fn sz s)), fd)"
    "fdata fd = db_image (table_rows fn sz s) t"
    "fpos fd = 4"
    "scanRecords s sz mf (length (table_rows fn sz s)) 0 fd
      = (map_option (\<lambda>k. (int k, table_rows fn sz s ! k))
          (find_index (\<lambda>r. mf r = 1) (table_rows fn sz s)), fd')"
    "fdata fd' = db_image (table_rows fn sz s) t"
proof -
  let ?rows = "table_rows fn sz s"
  from assms obtain t where t: "files s (db_path fn) = Some (db_image ?rows t)" "db_fits sz ?rows"
    by (rule table_okE)
  define fd where "fd = \<lparr>fdata = db_image ?rows t, fpos = 4\<rparr>"
  have sc: "fst (scanRecords s sz mf (length ?rows) 0 fd)
        = map_option (\<lambda>k. (int k, ?rows ! k)) (find_index (\<lambda>r. mf r = 1) ?rows)
      \<and> fdata (snd (scanRecords s sz mf (length ?rows) 0 fd)) = fdata fd"
    using scanRecords_image [OF t(2), of fd t 0 "length ?rows" s mf] by (simp add: fd_def)
  show ?thesis
  proof (rule that [OF t])
    show "readCount s (open_file (db_image ?rows t)) = (int (length ?rows), fd)"
      using readCount_image [OF t(2)] by (simp add: fd_def)
    show "scanRecords s sz mf (length ?rows) 0 fd = (map_option (\<lambda>k. (int k, ?rows ! k))
          (find_index (\<lambda>r. mf r = 1) ?rows), snd (scanRecords s sz mf (length ?rows) 0 fd))"
      using sc by (metis prod.collapse)
    show "fdata (snd (scanRecords s sz mf (length ?rows) 0 fd)) = db_image ?rows t"
      using sc by (simp add: fd_def)
  qed (simp_all add: fd_def)
qed

lemma getRecord_spec:
  assumes "table_ok fn sz s" "fcntl_ok s"
  shows "getRecord fn sz mf s = List.find (\<lambda>r. mf r = 1) (table_rows fn sz s)"
  using assms(2)
  by (rule_tac mf = mf in table_scan [OF assms(1)])
    (auto simp: getRecord_def fcntl_ok_def find_index_eq_find option.map_comp comp_def)

lemma getRecordCount_spec:
  assumes "table_ok fn sz s" "fcntl_ok s"
  shows "getRecordCount fn s = int (length (table_rows fn sz s))"
  using assms(2)
  by (rule_tac mf = "\<lambda>_. 0" in table_scan [OF assms(1)])
    (auto simp: getRecordCount_def fcntl_ok_def)

lemma insertRecord_spec:
  assumes "table_ok fn sz s" "fcntl_ok s" "db_fits sz (table_rows fn sz s @ [r])"
  shows "\<exists>s'. insertRecord fn r sz s = (0, s') \<and> writes_rows fn sz (table_rows fn sz s @ [r]) s s'"
  using assms(2,3) appendRecord_image writes_rows_image
  by (rule_tac mf = "\<lambda>_. 0" in table_scan [OF assms(1)])
    (fastforce simp: insertRecord_def fcntl_ok_def Let_def)

lemma insertUniqueRecord_spec:
  assumes "table_ok fn sz s" "fcntl_ok s"
  shows "(\<exists>r \<in> set (table_rows fn sz s). mf r = 1) \<Longrightarrow> insertUniqueRecord fn r sz mf s = (-1, s)"
    and "\<forall>r \<in> set (table_rows fn sz s). mf r \<noteq> 1 \<Longrightarrow> db_fits sz (table_rows fn sz s @ [r]) \<Longrightarrow>
      \<exists>s'. insertUniqueRecord fn r sz mf s = (0, s') \<and> writes_rows fn sz (table_rows fn sz s @ [r]) s s'"
proof -
  let ?rows = "table_rows fn sz s"
  obtain t fd fd' where
    t: "files s (db_path fn) = Some (db_image ?rows t)" and "db_fits sz ?rows" and
    rc: "readCount s (open_file (db_image ?rows t)) = (int (length ?rows), fd)" and
    "fdata fd = db_image ?rows t" and "fpos fd = 4" and
    sc: "scanRecords s sz mf (length ?rows) 0 fd = (map_option (\<lambda>k. (int k, ?rows ! k))
          (find_index (\<lambda>r. mf r = 1) ?rows), fd')" and
    fd': "fdata fd' = db_image ?rows t" by (rule table_scan [OF assms(1), where mf = mf])
  show "insertUniqueRecord fn r sz mf s = (-1, s)" if "\<exists>r \<in> set ?rows. mf r = 1"
  proof -
    from that have "find_index (\<lambda>r. mf r = 1) ?rows \<noteq> None" by simp
    with t rc sc assms(2) show ?thesis
      by (auto simp: insertUniqueRecord_def fcntl_ok_def simp del: find_index_None)
  qed
  show "\<exists>s'. insertUniqueRecord fn r sz mf s = (0, s') \<and> writes_rows fn sz (?rows @ [r]) s s'"
    if none: "\<forall>r \<in> set ?rows. mf r \<noteq> 1" and fits: "db_fits sz (?rows @ [r])"
  proof -
    from none have "find_index (\<lambda>r. mf r = 1) ?rows = None" by simp
    with sc have sc': "scanRecords s sz mf (length ?rows) 0 fd = (None, fd')" by simp
    have "insertUniqueRecord fn r sz mf s = (0, put_file (db_path fn) (db_image (?rows @ [r]) (drop sz t)) s)"
      using assms(2) appendRecord_image [OF fits fd']
      by (simp add: insertUniqueRecord_def fcntl_ok_def t rc sc' Let_def)
    then show ?thesis using writes_rows_image [OF fits] by blast
  qed
qed

lemma updateRecord_spec:
  assumes "table_ok fn sz s" "fcntl_ok s"
  shows "find_index (\<lambda>r. mf r = 1) (table_rows fn sz s) = None \<Longrightarrow> updateRecord fn r sz mf s = (-1, s)"
    and "find_index (\<lambda>r. mf r = 1) (table_rows fn sz s) = Some i \<Longrightarrow> length r = sz \<Longrightarrow>
      \<exists>s'. updateRecord fn r sz mf s = (0, s') \<and> writes_rows fn sz ((table_rows fn sz s)[i := r]) s s'"
proof -
  let ?rows = "table_rows fn sz s"
  obtain t fd fd' where
    t: "files s (db_path fn) = Some (db_image ?rows t)" and fits: "db_fits sz ?rows" and
    rc: "readCount s (open_file (db_image ?rows t)) = (int (length ?rows), fd)" and
    "fdata fd = db_image ?rows t" and "fpos fd = 4" and
    sc: "scanRecords s sz mf (length ?rows) 0 fd = (map_option (\<lambda>k. (int k, ?rows ! k))
          (find_index (\<lambda>r. mf r = 1) ?rows), fd')" and
    fd': "fdata fd' = db_image ?rows t" by (rule table_scan [OF assms(1), where mf = mf])
  show "updateRecord fn r sz mf s = (-1, s)" if "find_index (\<lambda>r. mf r = 1) ?rows = None"
    using assms(2) t rc sc fd' unfolding that
    by (simp add: updateRecord_def fcntl_ok_def Let_def del: find_index_None)
  show "\<exists>s'. updateRecord fn r sz mf s = (0, s') \<and> writes_rows fn sz (?rows[i := r]) s s'"
    if found: "find_index (\<lambda>r. mf r = 1) ?rows = Some i" and len: "length r = sz"
  proof -
    have i: "i < length ?rows" using find_index_Some [OF found] by simp
    have w: "fdata (snd (updateRecordUnlocked fd' r sz (int i))) = db_image (?rows[i := r]) t"
      using fdata_write_at [OF fits fd' i len] by (simp add: updateRecordUnlocked_def)
    have fits': "db_fits sz (?rows[i := r])"
      using fits len by (auto simp: db_fits_def)
    have "updateRecord fn r sz mf s = (0, put_file (db_path fn) (db_image (?rows[i := r]) t) s)"
      using assms(2) t rc sc w unfolding found
      by (simp add: updateRecord_def fcntl_ok_def Let_def updateRecordUnlocked_def)
    then show ?thesis using writes_rows_image [OF fits'] by blast
  qed
qed

lemma db_fits_swap_remove:
  assumes "db_fits sz rows" "i < length rows"
  shows "db_fits sz (swap_remove i rows)"
proof -
  have "(length rows - 1) * sz \<le> length rows * sz" by (intro mult_le_mono1) simp
  also have "\<dots> < 2 ^ 31" by (rule db_fitsD(3) [OF assms(1)])
  finally show ?thesis
    using assms all_len_mono [OF db_fitsD(2) [OF assms(1)] set_swap_remove_subset [OF assms(2)]]
    by (simp add: db_fits_def)
qed

lemma deleteRecord_spec:
  assumes "table_ok fn sz s" "fcntl_ok s"
  shows "find_index (\<lambda>r. mf r = 1) (table_rows fn sz s) = None \<Longrightarrow> deleteRecord fn sz mf s = (-1, s)"
    and "find_index (\<lambda>r. mf r = 1) (table_rows fn sz s) = Some i \<Longrightarrow>
      \<exists>s'. deleteRecord fn sz mf s = (0, s') \<and> writes_rows fn sz (swap_remove i (table_rows fn sz s)) s s'"
proof -
  let ?rows = "table_rows fn sz s"
  obtain t fd fd' where
    t: "files s (db_path fn) = Some (db_image ?rows t)" and fits: "db_fits sz ?rows" and
    rc: "readCount s (open_file (db_image ?rows t)) = (int (length ?rows), fd)" and
    "fdata fd = db_image ?rows t" and "fpos fd = 4" and
    sc: "scanRecords s sz mf (length ?rows) 0 fd = (map_option (\<lambda>k. (int k, ?rows ! k))
          (find_index (\<lambda>r. mf r = 1) ?rows), fd')" and
    fd': "fdata fd' = db_image ?rows t" by (rule table_scan [OF assms(1), where mf = mf])
  show "deleteRecord fn sz mf s = (-1, s)" if "find_index (\<lambda>r. mf r = 1) ?rows = None"
    using assms(2) t rc sc fd' unfolding that
    by (simp add: deleteRecord_def fcntl_ok_def Let_def del: find_index_None)
  show "\<exists>s'. deleteRecord fn sz mf s = (0, s') \<and> writes_rows fn sz (swap_remove i ?rows) s s'"
    if found: "find_index (\<lambda>r. mf r = 1) ?rows = Some i"
  proof -
    have i: "i < length ?rows" using find_index_Some [OF found] by simp
    obtain t' where rm: "fdata (removeAt s sz (int (length ?rows)) (int i) fd') = db_image (swap_remove i ?rows) t'"
      using removeAt_image [OF fits fd' i] by blast
    have "deleteRecord fn sz mf s = (0, put_file (db_path fn) (db_image (swap_remove i ?rows) t') s)"
      using assms(2) t rc sc rm unfolding found
      by (simp add: deleteRecord_def fcntl_ok_def Let_def)
    then show ?thesis using writes_rows_image [OF db_fits_swap_remove [OF fits i]] by blast
  qed
qed

section \<open>Pages and random picks\<close>

lemma pageLoop_image:
  assumes "db_fits sz rows" "fdata fd = db_image rows t" "n = length rows - i"
  shows "pageLoop s sz per mf n (int i) acc fd
    = acc @ take (per - length acc) (filter (page_match mf) (drop i rows))"
  using assms(2,3)
proof (induction n arbitrary: i acc fd)
  case 0
  then show ?case by simp
next
  case (Suc n)
  show ?case
  proof (cases "length acc < per")
    case False
    then show ?thesis by simp
  next
    case True
    have i: "i < length rows" using Suc.prems by simp
    obtain r fd' where g: "getRecordUnlocked s fd sz (int i) = (r, fd')" by fastforce
    from getRecordUnlocked_image [OF assms(1) Suc.prems(1) i, of s] g
    have r: "r = rows ! i" and fd': "fdata fd' = db_image rows t" using Suc.prems(1) by simp_all
    have d: "drop i rows = rows ! i # drop (Suc i) rows"
      using i by (simp add: Cons_nth_drop_Suc)
    have IH: "pageLoop s sz per mf n (int i + 1) acc' fd'
        = acc' @ take (per - length acc') (filter (page_match mf) (drop (Suc i) rows))" for acc'
    proof -
      have n: "n = length rows - Suc i" using Suc.prems(2) by simp
      show ?thesis using Suc.IH [OF fd' n, of acc'] by (simp add: add.commute)
    qed
    have p: "per - length acc = Suc (per - Suc (length acc))" using True by simp
    show ?thesis
      using True g r IH by (simp add: d p)
  qed
qed

lemma getRecordPage_spec:
  assumes "table_ok fn sz s" "fcntl_ok s" "1 \<le> page" "(page - 1) * int per < 2 ^ 31" "page < 2 ^ 31"
  shows "getRecordPage fn sz page per mf s
    = Some (take per (filter (page_match mf) (drop (nat (page - 1) * per) (table_rows fn sz s))))"
proof -
  let ?rows = "table_rows fn sz s"
  obtain t fd fd' where
    t: "files s (db_path fn) = Some (db_image ?rows t)" and fits: "db_fits sz ?rows" and
    rc: "readCount s (open_file (db_image ?rows t)) = (int (length ?rows), fd)" and
    fd: "fdata fd = db_image ?rows t" and "fpos fd = 4" and
    "scanRecords s sz (\<lambda>_. 0) (length ?rows) 0 fd = (map_option (\<lambda>k. (int k, ?rows ! k))
          (find_index (\<lambda>r. (0::int) = 1) ?rows), fd')" and
    "fdata fd' = db_image ?rows t" by (rule table_scan [OF assms(1), where mf = "\<lambda>_. 0"])
  define i where "i = nat (page - 1) * per"
  have "0 \<le> (page - 1) * int per" using assms(3) by simp
  then have "int_range ((page - 1) * int per)" "int_range (page - 1)"
    using assms(3-5) unfolding int_range_def by linarith+
  moreover have i: "(page - 1) * int per = int i" using assms(3) by (simp add: i_def)
  ultimately have start: "wrap32 (wrap32 (page - 1) * int per) = int i" by simp
  have "pageLoop s sz per mf (nat (int (length ?rows) - int i)) (int i) [] fd
      = take per (filter (page_match mf) (drop i ?rows))"
    using pageLoop_image [OF fits fd, of "nat (int (length ?rows) - int i)" i s per mf "[]"]
    by (simp add: nat_minus_as_int)
  then show ?thesis
    using assms(2) by (simp add: getRecordPage_def fcntl_ok_def t rc start i_def [symmetric] Let_def)
qed

lemma randomLoop_image:
  assumes "db_fits sz rows" "fdata fd = db_image rows t" "rows \<noteq> []"
  shows "randomLoop s sz mf (int (length rows)) rand n k fd
    = List.find (page_match mf) (map (\<lambda>j. rows ! (rand j mod length rows)) [k..<k + n])"
  using assms(2)
proof (induction n arbitrary: k fd)
  case 0
  then show ?case by simp
next
  case (Suc n)
  have i: "rand k mod length rows < length rows" using assms(3) by simp
  obtain r fd' where g: "getRecordUnlocked s fd sz (int (rand k mod length rows)) = (r, fd')" by fastforce
  from getRecordUnlocked_image [OF assms(1) Suc.prems i, of s] g
  have r: "r = rows ! (rand k mod length rows)" and fd': "fdata fd' = db_image rows t"
    using Suc.prems by simp_all
  have "[k..<k + Suc n] = k # [Suc k..<Suc k + n]" by (simp add: upt_conv_Cons)
  then show ?case
    using g r Suc.IH [OF fd', of "Suc k"]
    by (simp add: zmod_int del: upt_Suc)
qed

lemma getRandomRecord_spec:
  assumes "table_ok fn sz s" "fcntl_ok s"
  shows "getRandomRecord fn sz mf maxTries rand s
    = (if table_rows fn sz s = [] then None
       else List.find (page_match mf)
         (map (\<lambda>j. table_rows fn sz s ! (rand j mod length (table_rows fn sz s))) [0..<maxTries]))"
proof -
  let ?rows = "table_rows fn sz s"
  obtain t fd fd' where
    t: "files s (db_path fn) = Some (db_image ?rows t)" and fits: "db_fits sz ?rows" and
    rc: "readCount s (open_file (db_image ?rows t)) = (int (length ?rows), fd)" and
    fd: "fdata fd = db_image ?rows t" and "fpos fd = 4" and
    "scanRecords s sz (\<lambda>_. 0) (length ?rows) 0 fd = (map_option (\<lambda>k. (int k, ?rows ! k))
          (find_index (\<lambda>r. (0::int) = 1) ?rows), fd')" and
    "fdata fd' = db_image ?rows t" by (rule table_scan [OF assms(1), where mf = "\<lambda>_. 0"])
  show ?thesis
    using assms(2) randomLoop_image [OF fits fd, of s mf rand maxTries 0]
    by (simp add: getRandomRecord_def fcntl_ok_def t rc Let_def)
qed

section \<open>What the operations do to a table\<close>

text \<open>\<open>other_files\<close>: a step on one table leaves every other path of the file system alone.\<close>

definition other_files :: "bytes \<Rightarrow> 'a os_scheme \<Rightarrow> 'a os_scheme \<Rightarrow> bool" where
  "other_files fn s s' \<longleftrightarrow> (\<forall>p. p \<noteq> db_path fn \<longrightarrow> files s' p = files s p)"

lemma writes_rows_effect:
  assumes "\<exists>s'. f = (v, s') \<and> writes_rows fn sz rws s s'"
  shows "\<exists>s'. f = (v, s') \<and> table_ok fn sz s' \<and> table_rows fn sz s' = rws \<and> other_files fn s s'"
  using assms writes_rowsD writes_rows_files by (fastforce simp: other_files_def)

text \<open>A file system with one table, for the concrete instances below.\<close>

definition table_at :: "bytes \<Rightarrow> bytes list \<Rightarrow> os" where
  "table_at fn rows = \<lparr>files = [db_path fn \<mapsto> db_image rows []], junk = (\<lambda>_. CHR ''?''),
     setlkw_ok = True, setlk_ok = True, creatable = (\<lambda>_. True)\<rparr>"

lemma table_at [simp]:
  assumes "db_fits sz rows"
  shows "table_ok fn sz (table_at fn rows)" "fcntl_ok (table_at fn rows)"
    "table_rows fn sz (table_at fn rows) = rows"
  using db_inv_image [OF assms, of "[]"]
  by (simp_all add: table_ok_def table_rows_def fcntl_ok_def table_at_def)

text \<open>inserting a record whose key is already in the table is refused with \<open>-1\<close> and changes
  nothing; otherwise the call returns 0 and the table holds the old records, in order, followed
  by the new one. No other file changes and the table file stays well formed.\<close>

theorem insert_unique_correct:
  assumes "table_ok fn sz s" "fcntl_ok s" "db_fits sz (table_rows fn sz s @ [r])"
  shows "if \<exists>b \<in> set (table_rows fn sz s). mf b = 1
    then insertUniqueRecord fn r sz mf s = (-1, s)
    else \<exists>s'. insertUniqueRecord fn r sz mf s = (0, s') \<and> table_ok fn sz s'
      \<and> table_rows fn sz s' = table_rows fn sz s @ [r] \<and> other_files fn s s'"
proof (cases "\<exists>b \<in> set (table_rows fn sz s). mf b = 1")
  case True
  then show ?thesis using insertUniqueRecord_spec(1) [OF assms(1,2)] by simp
next
  case False
  then have "\<forall>b \<in> set (table_rows fn sz s). mf b \<noteq> 1" by blast
  from writes_rows_effect [OF insertUniqueRecord_spec(2) [OF assms(1,2) this assms(3)]] False
  show ?thesis by (simp only: if_False)
qed

theorem insert_unique_correct_witness:
  "\<exists>s'. insertUniqueRecord ''t'' ''def'' 3 (\<lambda>b. if b = ''def'' then 1 else 0) (table_at ''t'' [''abc'']) = (0, s')
    \<and> table_ok ''t'' 3 s' \<and> table_rows ''t'' 3 s' = [''abc'', ''def'']
    \<and> other_files ''t'' (table_at ''t'' [''abc'']) s'"
proof -
  have "db_fits 3 [''abc'']" "db_fits 3 [''abc'', ''def'']" by (simp_all add: db_fits_def all_len_def)
  then show ?thesis
    using insert_unique_correct [of "''t''" 3 "table_at ''t'' [''abc'']" "''def''"
        "\<lambda>b. if b = ''def'' then 1 else 0"] by simp
qed

text \<open>\<open>updateRecord\<close> replaces the first matching record in place and returns 0; without a match
  it returns \<open>-1\<close> and changes nothing.\<close>

theorem update_record_correct:
  assumes "table_ok fn sz s" "fcntl_ok s" "length r = sz"
  shows "case find_index (\<lambda>b. mf b = 1) (table_rows fn sz s) of
      None \<Rightarrow> updateRecord fn r sz mf s = (-1, s)
    | Some i \<Rightarrow> \<exists>s'. updateRecord fn r sz mf s = (0, s') \<and> table_ok fn sz s'
        \<and> table_rows fn sz s' = (table_rows fn sz s)[i := r] \<and> other_files fn s s'"
  using updateRecord_spec(1) [OF assms(1,2)]
    writes_rows_effect [OF updateRecord_spec(2) [OF assms(1,2) _ assms(3)]]
  by (simp split: option.split)

theorem update_record_correct_witness:
  "\<exists>s'. updateRecord ''t'' ''xyz'' 3 (\<lambda>b. if b = ''def'' then 1 else 0) (table_at ''t'' [''abc'', ''def'']) = (0, s')
    \<and> table_ok ''t'' 3 s' \<and> table_rows ''t'' 3 s' = [''abc'', ''xyz'']
    \<and> other_files ''t'' (table_at ''t'' [''abc'', ''def'']) s'"
proof -
  have "db_fits 3 [''abc'', ''def'']" by (simp add: db_fits_def all_len_def)
  then show ?thesis
    using update_record_correct [of "''t''" 3 "table_at ''t'' [''abc'', ''def'']" "''xyz''"
        "\<lambda>b. if b = ''def'' then 1 else 0"] by simp
qed

text \<open>\<open>deleteRecord\<close> moves the last record into the place of the first matching one, shortens
  the table by one and returns 0; without a match it returns \<open>-1\<close> and changes nothing.\<close>

theorem delete_record_correct:
  assumes "table_ok fn sz s" "fcntl_ok s"
  shows "case find_index (\<lambda>b. mf b = 1) (table_rows fn sz s) of
      None \<Rightarrow> deleteRecord fn sz mf s = (-1, s)
    | Some i \<Rightarrow> \<exists>s'. deleteRecord fn sz mf s = (0, s') \<and> table_ok fn sz s'
        \<and> table_rows fn sz s' = butlast ((table_rows fn sz s)[i := last (table_rows fn sz s)])
        \<and> other_files fn s s'"
  using deleteRecord_spec(1) [OF assms(1,2)]
    writes_rows_effect [OF deleteRecord_spec(2) [OF assms(1,2)]]
  by (simp add: swap_remove_def split: option.split)

theorem delete_record_correct_witness:
  "\<exists>s'. deleteRecord ''t'' 3 (\<lambda>b. if b = ''abc'' then 1 else 0) (table_at ''t'' [''abc'', ''def'']) = (0, s')
    \<and> table_ok ''t'' 3 s' \<and> table_rows ''t'' 3 s' = [''def'']
    \<and> other_files ''t'' (table_at ''t'' [''abc'', ''def'']) s'"
proof -
  have "db_fits 3 [''abc'', ''def'']" by (simp add: db_fits_def all_len_def)
  then show ?thesis
    using delete_record_correct [of "''t''" 3 "table_at ''t'' [''abc'', ''def'']"
        "\<lambda>b. if b = ''abc'' then 1 else 0"] by simp
qed

text \<open>page \<open>p\<close> of a table (pages count from 1) is what the filter keeps of the raw records from
  position \<open>(p - 1) * per\<close> on, cut to \<open>per\<close> records: the offset counts raw records and the limit
  counts the filtered ones.\<close>

theorem record_page_correct:
  assumes "table_ok fn sz s" "fcntl_ok s" "1 \<le> page" "page < 2 ^ 31" "(page - 1) * int per < 2 ^ 31"
  shows "getRecordPage fn sz page per mf s
    = Some (take per (filter (page_match mf) (drop (nat (page - 1) * per) (table_rows fn sz s))))"
  using assms by (intro getRecordPage_spec)

theorem record_page_correct_witness:
  "getRecordPage ''t'' 1 1 2 (Some (\<lambda>b. if b = ''x'' then 1 else 0)) (table_at ''t'' [''a'', ''x'', ''b'', ''x''])
      = Some [''x'', ''x'']
   \<and> getRecordPage ''t'' 1 2 2 (Some (\<lambda>b. if b = ''x'' then 1 else 0)) (table_at ''t'' [''a'', ''x'', ''b'', ''x''])
      = Some [''x'']"
proof -
  have "db_fits 1 [''a'', ''x'', ''b'', ''x'']" by (simp add: db_fits_def all_len_def)
  then show ?thesis
    using record_page_correct [of "''t''" 1 "table_at ''t'' [''a'', ''x'', ''b'', ''x'']" 1 2]
      record_page_correct [of "''t''" 1 "table_at ''t'' [''a'', ''x'', ''b'', ''x'']" 2 2]
    by (simp add: page_match_def)
qed

text \<open>\<open>getRandomRecord\<close> never returns a record that is not in the table or that the filter
  rejects, and returns one whenever one of its \<open>maxTries\<close> draws, taken modulo the number of records,
  hits an accepted record.\<close>

theorem random_record_correct:
  assumes "table_ok fn sz s" "fcntl_ok s"
  shows "(\<forall>r. getRandomRecord fn sz mf n rand s = Some r \<longrightarrow>
        r \<in> set (table_rows fn sz s) \<and> page_match mf r)
    \<and> (getRandomRecord fn sz mf n rand s = None \<longleftrightarrow> table_rows fn sz s = []
        \<or> (\<forall>j < n. \<not> page_match mf (table_rows fn sz s ! (rand j mod length (table_rows fn sz s)))))"
  unfolding getRandomRecord_spec [OF assms]
  by (auto simp: find_Some_iff find_None_iff)

theorem random_record_correct_witness:
  "getRandomRecord ''t'' 1 (Some (\<lambda>b. if b = ''x'' then 1 else 0)) 2 id (table_at ''t'' [''a'', ''x'']) \<noteq> None"
proof -
  have "db_fits 1 [''a'', ''x'']" by (simp add: db_fits_def all_len_def)
  then show ?thesis
    using random_record_correct [of "''t''" 1 "table_at ''t'' [''a'', ''x'']"
      "Some (\<lambda>b. if b = ''x'' then 1 else 0)" 2 id] by (simp add: numeral_2_eq_2 page_match_def All_less_Suc)
qed

end
