(* ===== verification/DatabaseSort.thy ===== *)
theory DatabaseSort
  imports DatabaseRefinement
begin

text \<open>
  \<open>diskBubbleSortRecords\<close>: for a compare function that orders two records by an integer key the
  bubble sort computes the library's stable sort by that key. The records are swapped when the
  compare function is negative, so a compare function that returns \<open>key b - key a\<close> gives
  ascending keys.
\<close>

section \<open>One pass\<close>

lemma length_bubblePass [simp]: "length (bubblePass cmp n j xs) = length xs"
  by (induction n arbitrary: j xs) (simp_all add: Let_def)

lemma length_bubbleRounds [simp]: "length (bubbleRounds cmp n i xs) = length xs"
  by (induction n arbitrary: i xs) simp_all

text \<open>The pass as a recursion on the list: the larger element is carried to the right.\<close>

fun bubble :: "('a \<Rightarrow> int) \<Rightarrow> nat \<Rightarrow> 'a list \<Rightarrow> 'a list" where
  "bubble key (Suc n) (a # b # xs) =
     (if key b < key a then b # bubble key n (a # xs) else a # bubble key n (b # xs))"
| "bubble key 0 xs = xs"
| "bubble key (Suc n) [] = []"
| "bubble key (Suc n) [a] = [a]"

definition orders_by :: "('a \<Rightarrow> 'a \<Rightarrow> int) \<Rightarrow> ('a \<Rightarrow> int) \<Rightarrow> 'a list \<Rightarrow> bool" where
  "orders_by cmp key xs \<longleftrightarrow> (\<forall>a \<in> set xs. \<forall>b \<in> set xs. (cmp a b < 0) = (key b < key a))"

lemma orders_by_subset: "orders_by cmp key xs \<Longrightarrow> set ys \<subseteq> set xs \<Longrightarrow> orders_by cmp key ys"
  by (auto simp: orders_by_def)

lemma set_bubble [simp]: "set (bubble key n xs) = set xs"
  by (induction key n xs rule: bubble.induct) auto

lemma length_bubble [simp]: "length (bubble key n xs) = length xs"
  by (induction key n xs rule: bubble.induct) auto

lemma bubblePass_eq_bubble:
  assumes "orders_by cmp key (ps @ xs)" "n < length xs"
  shows "bubblePass cmp n (length ps) (ps @ xs) = ps @ bubble key n xs"
  using assms
proof (induction n arbitrary: ps xs)
  case 0
  then show ?case by simp
next
  case (Suc n)
  then obtain a b ys where xs: "xs = a # b # ys"
    by (metis One_nat_def Suc_le_length_iff Suc_leI le_Suc_eq length_Cons less_Suc_eq_le list.exhaust list.size(3)
        not_less_zero)
  have cmp: "(cmp a b < 0) = (key b < key a)"
    using Suc.prems(1) by (simp add: orders_by_def xs)
  have nth: "(ps @ xs) ! length ps = a" "(ps @ xs) ! Suc (length ps) = b"
    by (simp_all add: xs nth_append)
  show ?case
  proof (cases "key b < key a")
    case True
    have upd: "(ps @ xs)[length ps := b, Suc (length ps) := a] = (ps @ [b]) @ (a # ys)"
      by (simp add: xs list_update_append)
    have "orders_by cmp key ((ps @ [b]) @ (a # ys))"
      by (rule orders_by_subset [OF Suc.prems(1)]) (auto simp: xs)
    from Suc.IH [OF this] Suc.prems(2)
    show ?thesis using True cmp nth upd by (simp add: xs Let_def)
  next
    case False
    have split: "ps @ xs = (ps @ [a]) @ (b # ys)" by (simp add: xs)
    have "orders_by cmp key ((ps @ [a]) @ (b # ys))"
      using Suc.prems(1) split by simp
    from Suc.IH [OF this] Suc.prems(2)
    show ?thesis using False cmp nth split by (simp add: xs Let_def)
  qed
qed

lemma bubble_filter:
  "filter (\<lambda>x. key x = k) (bubble key n xs) = filter (\<lambda>x. key x = k) xs"
  by (induction key n xs rule: bubble.induct) auto

lemma bubble_append: "n < length xs \<Longrightarrow> bubble key n (xs @ ys) = bubble key n xs @ ys"
proof (induction key n xs rule: bubble.induct)
  case (1 key n a b xs)
  then show ?case by simp
qed simp_all

lemma bubble_last_max:
  "length xs = Suc n \<Longrightarrow> x \<in> set xs \<Longrightarrow> key x \<le> key (last (bubble key n xs))"
proof (induction key n xs arbitrary: x rule: bubble.induct)
  case (1 key n a b xs)
  have ne: "bubble key n (c # xs) \<noteq> []" for c
    using length_bubble [of key n "c # xs"] by (metis list.size(3) length_Cons nat.distinct(1))
  show ?case
  proof (cases "key b < key a")
    case True
    have IH: "key y \<le> key (last (bubble key n (a # xs)))" if "y = a \<or> y \<in> set xs" for y
      using "1.IH"(1) [OF True, of y] "1.prems"(1) that by simp
    have "key x \<le> key (last (bubble key n (a # xs)))"
      using "1.prems"(2) IH [of x] IH [of a] True by auto
    then show ?thesis using True ne by simp
  next
    case False
    have IH: "key y \<le> key (last (bubble key n (b # xs)))" if "y = b \<or> y \<in> set xs" for y
      using "1.IH"(2) [OF False, of y] "1.prems"(1) that by simp
    have "key x \<le> key (last (bubble key n (b # xs)))"
      using "1.prems"(2) IH [of x] IH [of b] False by auto
    then show ?thesis using False ne by simp
  qed
next
  case (2 key xs)
  then show ?case by (cases xs) simp_all
qed simp_all

section \<open>All rounds\<close>

text \<open>After each round a suffix is sorted and dominates the rest: the invariant of the outer
  loop.\<close>

lemma bubbleRounds_sorts:
  assumes "orders_by cmp key (us @ vs)" "length us = Suc k \<or> us = [] \<and> k = 0"
    "sorted (map key vs)" "\<forall>u \<in> set us. \<forall>v \<in> set vs. key u \<le> key v"
  shows "sorted (map key (bubbleRounds cmp k (length vs) (us @ vs)))
    \<and> (\<forall>c. filter (\<lambda>x. key x = c) (bubbleRounds cmp k (length vs) (us @ vs))
          = filter (\<lambda>x. key x = c) (us @ vs))"
  using assms
proof (induction k arbitrary: us vs)
  case 0
  then show ?case by (cases us) (auto simp: sorted_append)
next
  case (Suc k)
  then have len: "length us = Suc (Suc k)" by simp
  define ws where "ws = bubble key (Suc k) us"
  have lenw: "length ws = Suc (Suc k)" using len by (simp add: ws_def)
  then have wne: "ws \<noteq> []" by auto
  have pass: "bubblePass cmp (length (us @ vs) - length vs - 1) 0 (us @ vs) = ws @ vs"
    using bubblePass_eq_bubble [of cmp key "[]" "us @ vs" "Suc k"] Suc.prems(1) len
    by (simp add: ws_def bubble_append)
  have ws: "ws = butlast ws @ [last ws]" using wne by simp
  have setw: "set ws = set us" by (simp add: ws_def)
  have max: "key x \<le> key (last ws)" if "x \<in> set us" for x
    using bubble_last_max [OF len that, of key] by (simp add: ws_def)
  have lastw: "last ws \<in> set us" using wne setw last_in_set by fastforce
  have "sorted (map key (bubbleRounds cmp k (length (last ws # vs)) (butlast ws @ (last ws # vs))))
    \<and> (\<forall>c. filter (\<lambda>x. key x = c) (bubbleRounds cmp k (length (last ws # vs)) (butlast ws @ (last ws # vs)))
          = filter (\<lambda>x. key x = c) (butlast ws @ (last ws # vs)))"
  proof (rule Suc.IH)
    have "set (butlast ws @ last ws # vs) \<subseteq> set (us @ vs)"
      using setw lastw in_set_butlastD by fastforce
    then show "orders_by cmp key (butlast ws @ last ws # vs)"
      by (rule orders_by_subset [OF Suc.prems(1)])
    show "length (butlast ws) = Suc k \<or> butlast ws = [] \<and> k = 0" using lenw by simp
    show "sorted (map key (last ws # vs))" using Suc.prems(3,4) lastw by simp
    show "\<forall>u\<in>set (butlast ws). \<forall>v\<in>set (last ws # vs). key u \<le> key v"
      using Suc.prems(4) max setw by (auto dest: in_set_butlastD)
  qed
  moreover have "butlast ws @ last ws # vs = ws @ vs" using ws by (metis append.assoc append_Cons append_Nil)
  moreover have "filter (\<lambda>x. key x = c) (ws @ vs) = filter (\<lambda>x. key x = c) (us @ vs)" for c
    by (simp add: ws_def bubble_filter)
  ultimately show ?case using pass by simp
qed

theorem bubbleRounds_eq_sort_key:
  assumes "orders_by cmp key xs"
  shows "bubbleRounds cmp (length xs - 1) 0 xs = sort_key key xs"
proof -
  have "sorted (map key (bubbleRounds cmp (length xs - 1) (length ([] :: bytes list)) (xs @ [])))
    \<and> (\<forall>c. filter (\<lambda>x. key x = c) (bubbleRounds cmp (length xs - 1) (length ([] :: bytes list)) (xs @ []))
          = filter (\<lambda>x. key x = c) (xs @ []))"
    using assms by (intro bubbleRounds_sorts) (cases xs, auto)+
  then have srt: "sorted (map key (bubbleRounds cmp (length xs - 1) 0 xs))"
    and flt: "\<And>c. filter (\<lambda>x. key x = c) (bubbleRounds cmp (length xs - 1) 0 xs) = filter (\<lambda>x. key x = c) xs"
    by simp_all
  have flt': "filter (\<lambda>x. c = key x) (bubbleRounds cmp (length xs - 1) 0 xs) = filter (\<lambda>x. c = key x) xs" for c
    using flt [of c] by (simp add: eq_commute)
  have "mset (bubbleRounds cmp (length xs - 1) 0 xs) = mset xs"
  proof (rule multiset_eqI)
    fix a
    have "count (mset (filter (\<lambda>x. key x = key a) (bubbleRounds cmp (length xs - 1) 0 xs))) a
        = count (mset (filter (\<lambda>x. key x = key a) xs)) a" by (simp only: flt)
    then show "count (mset (bubbleRounds cmp (length xs - 1) 0 xs)) a = count (mset xs) a" by simp
  qed
  then have "sort_key key xs = bubbleRounds cmp (length xs - 1) 0 xs"
    using srt flt' by (intro properties_for_sort_key) simp_all
  then show ?thesis by simp
qed

section \<open>The sort on a table\<close>

lemma diskBubbleSortRecords_spec:
  assumes "table_ok fn sz s" "fcntl_ok s" "orders_by cmp key (table_rows fn sz s)"
  shows "\<exists>s'. diskBubbleSortRecords fn sz cmp s = (0, s')
    \<and> writes_rows fn sz (sort_key key (table_rows fn sz s)) s s'"
proof -
  let ?rows = "table_rows fn sz s"
  obtain t fd fd' where
    t: "files s (db_path fn) = Some (db_image ?rows t)" and fits: "db_fits sz ?rows" and
    rc: "readCount s (open_file (db_image ?rows t)) = (int (length ?rows), fd)" and
    fd: "fdata fd = db_image ?rows t" and pos: "fpos fd = 4" and
    "scanRecords s sz (\<lambda>_. 0) (length ?rows) 0 fd = (map_option (\<lambda>k. (int k, ?rows ! k))
          (find_index (\<lambda>r. (0::int) = 1) ?rows), fd')" and
    "fdata fd' = db_image ?rows t" by (rule table_scan [OF assms(1), where mf = "\<lambda>_. 0"])
  let ?new = "sort_key key ?rows"
  have new: "all_len sz ?new" "length ?new = length ?rows"
    using all_len_mono [OF db_fitsD(2) [OF fits], of ?new] by simp_all
  have fits': "db_fits sz ?new" using fits new by (simp add: db_fits_def)
  have len: "fpos fd + length (malloc s (sz * length ?rows)) \<le> length (fdata fd)"
    using fd pos length_image [OF fits] by simp
  have blk: "take (length ?rows * sz) (drop 4 (db_image ?rows t)) = concat ?rows"
    using db_fitsD(4) [OF fits] by (simp add: db_image_def)
  have rd: "read_into (malloc s (sz * length ?rows)) fd
      = (concat ?rows, fd\<lparr>fpos := 4 + sz * length ?rows\<rparr>)"
    using read_into_full [OF len] fd pos blk by (simp add: mult.commute)
  have sp: "splitRecords sz (length ?rows) (concat ?rows) = ?rows"
    using splitRecords_concat [OF db_fitsD(2) [OF fits], of "[]"] by simp
  have "overwrite 4 (concat ?new) (db_image ?rows t) = db_image ?new t"
    using db_fitsD(4) [OF fits] db_fitsD(4) [OF fits'] new(2)
    by (simp add: db_image_def overwrite_prefix overwrite_front)
  then have "diskBubbleSortRecords fn sz cmp s = (0, put_file (db_path fn) (db_image ?new t) s)"
    using assms(2) bubbleRounds_eq_sort_key [OF assms(3)] fd
    by (simp add: diskBubbleSortRecords_def fcntl_ok_def t rc rd sp fdata_write fd_lseek_def Let_def)
  then show ?thesis using writes_rows_image [OF fits'] by blast
qed

text \<open>C33: the on-disk bubble sort is a stable sort by the key that the compare function orders
  (a negative result means the first argument belongs after the second): the table becomes the
  sorted permutation of its records, in ascending key order, with equal keys in their old order,
  and nothing else changes.\<close>

theorem disk_sort_correct:
  assumes "table_ok fn sz s" "fcntl_ok s" "orders_by cmp key (table_rows fn sz s)"
  shows "\<exists>s'. diskBubbleSortRecords fn sz cmp s = (0, s') \<and> table_ok fn sz s'
    \<and> sorted (map key (table_rows fn sz s'))
    \<and> mset (table_rows fn sz s') = mset (table_rows fn sz s)
    \<and> (\<forall>k. filter (\<lambda>b. key b = k) (table_rows fn sz s') = filter (\<lambda>b. key b = k) (table_rows fn sz s))
    \<and> other_files fn s s'"
proof -
  from writes_rows_effect [OF diskBubbleSortRecords_spec [OF assms]]
  obtain s' where s': "diskBubbleSortRecords fn sz cmp s = (0, s')" "table_ok fn sz s'"
    "table_rows fn sz s' = sort_key key (table_rows fn sz s)" "other_files fn s s'" by blast
  have "filter (\<lambda>b. key b = k) (sort_key key xs) = filter (\<lambda>b. key b = k) xs" for k xs
    using sort_key_stable [of key k xs] by (simp add: eq_commute [of _ k])
  then show ?thesis using s' by simp
qed

theorem disk_sort_correct_witness:
  "\<exists>s'. diskBubbleSortRecords ''t'' 1 (\<lambda>a b. dec_int b - dec_int a) (table_at ''t'' [''c'', ''a'', ''b'']) = (0, s')
    \<and> table_ok ''t'' 1 s' \<and> sorted (map dec_int (table_rows ''t'' 1 s'))
    \<and> mset (table_rows ''t'' 1 s') = {#''a'', ''b'', ''c''#}
    \<and> other_files ''t'' (table_at ''t'' [''c'', ''a'', ''b'']) s'"
proof -
  have fits: "db_fits 1 [''c'', ''a'', ''b'']" by (simp add: db_fits_def all_len_def)
  have "orders_by (\<lambda>a b. dec_int b - dec_int a) dec_int [''c'', ''a'', ''b'']" by (auto simp: orders_by_def)
  with disk_sort_correct [of "''t''" 1 "table_at ''t'' [''c'', ''a'', ''b'']" "\<lambda>a b. dec_int b - dec_int a"
      dec_int] fits
  show ?thesis by (fastforce simp: add_mset_commute)
qed

end
