(* ===== verification/Codes.thy ===== *)
theory Codes
  imports Prelude
begin

text \<open>
  \<open>Utility/codes.h\<close>: the protocol's status and operation codes, the client's menus and the
  difficulty, privilege and visibility values. They are abbreviations, as the macros are, so
  that a comparison of two codes evaluates.
\<close>

abbreviation (input) SUCCESS :: int where "SUCCESS \<equiv> 0"
abbreviation (input) FAILURE :: int where "FAILURE \<equiv> 1"
abbreviation (input) JUDGE_ERROR :: int where "JUDGE_ERROR \<equiv> 2"
abbreviation (input) LOGIN_ATTEMPT :: int where "LOGIN_ATTEMPT \<equiv> 0"
abbreviation (input) SIGNUP_ATTEMPT :: int where "SIGNUP_ATTEMPT \<equiv> 1"
abbreviation (input) LOGOUT_ATTEMPT :: int where "LOGOUT_ATTEMPT \<equiv> 2"
abbreviation (input) ADD_PROBLEM :: int where "ADD_PROBLEM \<equiv> 3"
abbreviation (input) UPDATE_PROBLEM :: int where "UPDATE_PROBLEM \<equiv> 4"
abbreviation (input) GET_PROBLEM :: int where "GET_PROBLEM \<equiv> 5"
abbreviation (input) DELETE_PROBLEM :: int where "DELETE_PROBLEM \<equiv> 6"
abbreviation (input) VIEW_ALL_PROBLEMS :: int where "VIEW_ALL_PROBLEMS \<equiv> 7"
abbreviation (input) VIEW_A_PROBLEM :: int where "VIEW_A_PROBLEM \<equiv> 8"
abbreviation (input) SUBMIT_SOLUTION :: int where "SUBMIT_SOLUTION \<equiv> 9"
abbreviation (input) DUEL_USER :: int where "DUEL_USER \<equiv> 10"
abbreviation (input) WITHDRAW_CHALLENGE :: int where "WITHDRAW_CHALLENGE \<equiv> 11"
abbreviation (input) VIEW_DUEL_PROBLEM_STATEMENT :: int where "VIEW_DUEL_PROBLEM_STATEMENT \<equiv> 12"
abbreviation (input) SUBMIT_DUEL_SOLUTION :: int where "SUBMIT_DUEL_SOLUTION \<equiv> 13"
abbreviation (input) FORFEIT_DUEL :: int where "FORFEIT_DUEL \<equiv> 14"
abbreviation (input) DUEL_ACCEPTED :: int where "DUEL_ACCEPTED \<equiv> 15"
abbreviation (input) VIEW_FULL_LEADERBOARD :: int where "VIEW_FULL_LEADERBOARD \<equiv> 16"
abbreviation (input) VIEW_SPECIFIC_ELO :: int where "VIEW_SPECIFIC_ELO \<equiv> 17"
abbreviation (input) GO_TO_LOGIN_MENU :: int where "GO_TO_LOGIN_MENU \<equiv> 1000"
abbreviation (input) GO_TO_MODIFY_PROBLEMS_MENU :: int where "GO_TO_MODIFY_PROBLEMS_MENU \<equiv> 1001"
abbreviation (input) GO_TO_ADMIN_MENU :: int where "GO_TO_ADMIN_MENU \<equiv> 1002"
abbreviation (input) GO_TO_USER_MENU :: int where "GO_TO_USER_MENU \<equiv> 1003"
abbreviation (input) GO_TO_DUEL_WAITING_MENU :: int where "GO_TO_DUEL_WAITING_MENU \<equiv> 1004"
abbreviation (input) GO_TO_DUEL_MENU :: int where "GO_TO_DUEL_MENU \<equiv> 1005"
abbreviation (input) EASY_PROBLEM :: int where "EASY_PROBLEM \<equiv> 0"
abbreviation (input) MEDIUM_PROBLEM :: int where "MEDIUM_PROBLEM \<equiv> 1"
abbreviation (input) HARD_PROBLEM :: int where "HARD_PROBLEM \<equiv> 2"
abbreviation (input) REGULAR_USER :: int where "REGULAR_USER \<equiv> 0"
abbreviation (input) ADMIN_USER :: int where "ADMIN_USER \<equiv> 1"
abbreviation (input) PROBLEM_SETTER_USER :: int where "PROBLEM_SETTER_USER \<equiv> 2"
abbreviation (input) LOGIN_MENU :: int where "LOGIN_MENU \<equiv> 0"
abbreviation (input) ADMIN_MENU :: int where "ADMIN_MENU \<equiv> 1"
abbreviation (input) USER_MENU :: int where "USER_MENU \<equiv> 2"
abbreviation (input) MODIFY_PROBLEMS_MENU :: int where "MODIFY_PROBLEMS_MENU \<equiv> 3"
abbreviation (input) DUEL_MENU :: int where "DUEL_MENU \<equiv> 4"
abbreviation (input) PROBLEM_VISIBLE :: int where "PROBLEM_VISIBLE \<equiv> 1"
abbreviation (input) PROBLEM_HIDDEN :: int where "PROBLEM_HIDDEN \<equiv> 0"
abbreviation (input) MATCH_FOUND :: int where "MATCH_FOUND \<equiv> 101"
abbreviation (input) ADDED_TO_CHALLENGE_QUEUE :: int where "ADDED_TO_CHALLENGE_QUEUE \<equiv> 102"

end
