(* ===== verification/Structs.thy ===== *)
theory Structs
  imports Codes
begin

text \<open>
  The three record types that \<open>Utility/structs.h\<close> stores on disk, and their x86-64 layout: the
  character arrays are their 100 bytes, an \<open>int\<close> its 4 little-endian bytes, without padding.
  \<open>enc\<close> is the memory image of a struct (what \<open>write(fd, record, recordSize)\<close> stores), \<open>dec\<close>
  the struct that an image is read as. \<open>wf\<close> says that the arrays have their length and hold a
  terminated string and that the integers are in range.
\<close>

definition terminated :: "nat \<Rightarrow> bytes \<Rightarrow> bool" where
  "terminated n m \<longleftrightarrow> length m = n \<and> CHR 0x00 \<in> set m"

lemma terminated_length: "terminated n m \<Longrightarrow> length m = n"
  by (simp add: terminated_def)

lemma c_str_prefix: "CHR 0x00 \<in> set m \<Longrightarrow> c_str (m @ rest) = c_str m"
  unfolding c_str_def by (induction m) auto

lemma terminated_c_str: "terminated n m \<Longrightarrow> c_str (m @ rest) = c_str m"
  by (simp add: terminated_def c_str_prefix)

lemma length_c_str_terminated: "terminated n m \<Longrightarrow> length (c_str m) < n"
proof -
  assume t: "terminated n m"
  have "CHR 0x00 \<in> set m \<Longrightarrow> length (takeWhile (\<lambda>c. c \<noteq> CHR 0x00) m) < length m"
    by (induction m) auto
  with t show ?thesis by (simp add: terminated_def c_str_def)
qed

lemma strcpy_terminated: "strcpy dst s = Some m \<Longrightarrow> terminated (length dst) m"
  unfolding strcpy_def terminated_def by (auto split: if_splits)

text \<open>The content of a \<open>char[100]\<close> member that holds the string \<open>s\<close> and is zero behind it.\<close>

definition char_array :: "bytes \<Rightarrow> bytes" where
  "char_array s = s @ replicate (100 - length s) (CHR 0x00)"

lemma char_array [simp]:
  assumes "no_nul s" "length s < 100"
  shows "terminated 100 (char_array s)" "c_str (char_array s) = s"
proof -
  have "takeWhile (\<lambda>c. c \<noteq> CHR 0x00) (s @ replicate n (CHR 0x00)) = s" for n
    using assms(1) by (subst takeWhile_append2) (auto simp: no_nul_def takeWhile_replicate)
  then show "terminated 100 (char_array s)" "c_str (char_array s) = s"
    using assms(2) by (auto simp: terminated_def char_array_def c_str_def)
qed

section \<open>UserRecord\<close>

record UserRecord =
  ur_username :: bytes
  ur_password :: bytes
  ur_privilege :: int

abbreviation (input) sizeof_UserRecord :: nat where "sizeof_UserRecord \<equiv> 204"

definition enc_UserRecord :: "UserRecord \<Rightarrow> bytes" where
  "enc_UserRecord r = ur_username r @ ur_password r @ enc_int (ur_privilege r)"

definition dec_UserRecord :: "bytes \<Rightarrow> UserRecord" where
  "dec_UserRecord m = \<lparr>ur_username = take 100 m, ur_password = take 100 (drop 100 m),
     ur_privilege = dec_int (drop 200 m)\<rparr>"

definition wf_UserRecord :: "UserRecord \<Rightarrow> bool" where
  "wf_UserRecord r \<longleftrightarrow> terminated 100 (ur_username r) \<and> terminated 100 (ur_password r)
     \<and> int_range (ur_privilege r)"

definition user_name :: "UserRecord \<Rightarrow> bytes" where
  "user_name r = c_str (ur_username r)"

lemma UserRecord_codec:
  assumes "wf_UserRecord r"
  shows "length (enc_UserRecord r) = 204" and "dec_UserRecord (enc_UserRecord r) = r"
  using assms by (auto simp: terminated_def wf_UserRecord_def enc_UserRecord_def dec_UserRecord_def)

section \<open>Problem\<close>

record Problem =
  pr_id :: int
  pr_title :: bytes
  pr_difficulty :: int
  pr_visibility :: int

abbreviation (input) sizeof_Problem :: nat where "sizeof_Problem \<equiv> 112"

definition enc_Problem :: "Problem \<Rightarrow> bytes" where
  "enc_Problem p = enc_int (pr_id p) @ pr_title p @ enc_int (pr_difficulty p)
     @ enc_int (pr_visibility p)"

definition dec_Problem :: "bytes \<Rightarrow> Problem" where
  "dec_Problem m = \<lparr>pr_id = dec_int m, pr_title = take 100 (drop 4 m),
     pr_difficulty = dec_int (drop 104 m), pr_visibility = dec_int (drop 108 m)\<rparr>"

definition wf_Problem :: "Problem \<Rightarrow> bool" where
  "wf_Problem p \<longleftrightarrow> terminated 100 (pr_title p) \<and> int_range (pr_id p)
     \<and> int_range (pr_difficulty p) \<and> int_range (pr_visibility p)"

lemma Problem_codec:
  assumes "wf_Problem p"
  shows "length (enc_Problem p) = 112" and "dec_Problem (enc_Problem p) = p"
  using assms by (auto simp: terminated_def wf_Problem_def enc_Problem_def dec_Problem_def)

section \<open>LeaderboardEntry\<close>

record LeaderboardEntry =
  le_username :: bytes
  le_elo :: int

abbreviation (input) sizeof_LeaderboardEntry :: nat where "sizeof_LeaderboardEntry \<equiv> 104"

definition enc_LeaderboardEntry :: "LeaderboardEntry \<Rightarrow> bytes" where
  "enc_LeaderboardEntry e = le_username e @ enc_int (le_elo e)"

definition dec_LeaderboardEntry :: "bytes \<Rightarrow> LeaderboardEntry" where
  "dec_LeaderboardEntry m = \<lparr>le_username = take 100 m, le_elo = dec_int (drop 100 m)\<rparr>"

definition wf_LeaderboardEntry :: "LeaderboardEntry \<Rightarrow> bool" where
  "wf_LeaderboardEntry e \<longleftrightarrow> terminated 100 (le_username e) \<and> int_range (le_elo e)"

definition entry_name :: "LeaderboardEntry \<Rightarrow> bytes" where
  "entry_name e = c_str (le_username e)"

lemma LeaderboardEntry_codec:
  assumes "wf_LeaderboardEntry e"
  shows "length (enc_LeaderboardEntry e) = 104" and "dec_LeaderboardEntry (enc_LeaderboardEntry e) = e"
  using assms
  by (auto simp: terminated_def wf_LeaderboardEntry_def enc_LeaderboardEntry_def dec_LeaderboardEntry_def)

end
