(* ===== verification/Tables.thy ===== *)
theory Tables
  imports DatabaseSort Structs
begin

text \<open>
  The interfaces between the query layer and its users. \<open>keyed_table\<close> is a table of rows with
  a key, a lookup and an insertion that refuses a key already present; \<open>updatable_table\<close> and
  \<open>deletable_table\<close> add replacement and deletion by key. Their laws speak of the multiset of
  rows, because the code reorders rows (it sorts the leaderboard and deletes by swapping).
  \<open>typed_table\<close> is the interface of the layer below: a file of the generic database whose
  records are images of a struct, with the same laws one level down (the query layer combines both).
\<close>

section \<open>Keyed tables\<close>

locale keyed_table =
  fixes ok :: "'s \<Rightarrow> bool"
    and rows :: "'s \<Rightarrow> 'r list"
    and room :: "'s \<Rightarrow> bool"
    and wf :: "'r \<Rightarrow> bool"
    and key :: "'r \<Rightarrow> 'k"
    and get :: "'k \<Rightarrow> 's \<Rightarrow> 'r option"
    and add :: "'r \<Rightarrow> 's \<Rightarrow> int \<times> 's"
  assumes get_find: "ok s \<Longrightarrow> get k s = List.find (\<lambda>r. key r = k) (rows s)"
    and add_dup: "ok s \<Longrightarrow> wf r \<Longrightarrow> key r \<in> key ` set (rows s) \<Longrightarrow>
      fst (add r s) = -1 \<and> ok (snd (add r s)) \<and> mset (rows (snd (add r s))) = mset (rows s)"
    and add_new: "ok s \<Longrightarrow> wf r \<Longrightarrow> room s \<Longrightarrow> key r \<notin> key ` set (rows s) \<Longrightarrow>
      fst (add r s) = 0 \<and> ok (snd (add r s))
        \<and> mset (rows (snd (add r s))) = add_mset r (mset (rows s))"
begin

text \<open>\<open>unique s\<close>: no two rows share a key.\<close>

abbreviation unique where "unique s \<equiv> distinct (map key (rows s))"

lemma find_distinct:
  "distinct (map key xs) \<Longrightarrow> List.find (\<lambda>r. key r = k) xs = Some r \<longleftrightarrow> r \<in> set xs \<and> key r = k"
  by (induction xs) (auto simp: rev_image_eqI)

lemma find_missing: "List.find (\<lambda>r. key r = k) xs = None \<longleftrightarrow> k \<notin> key ` set xs"
  by (auto simp: find_None_iff)

lemma get_Some_iff: "ok s \<Longrightarrow> unique s \<Longrightarrow> get k s = Some r \<longleftrightarrow> r \<in> set (rows s) \<and> key r = k"
  by (simp add: get_find find_distinct)

lemma get_None_iff: "ok s \<Longrightarrow> get k s = None \<longleftrightarrow> k \<notin> key ` set (rows s)"
  by (simp add: get_find find_missing)

lemma unique_cong: "mset (rows s) = mset (rows s') \<Longrightarrow> unique s = unique s'"
  by (metis mset_eq_imp_distinct_iff mset_map)

lemma get_cong:
  assumes "ok s" "ok s'" "unique s" "mset (rows s') = mset (rows s)"
  shows "get k s' = get k s"
proof -
  have u: "unique s'" using assms(3) unique_cong [OF assms(4)] by simp
  have "set (rows s') = set (rows s)" using assms(4) by (rule mset_eq_setD)
  then have "get k s' = Some r \<longleftrightarrow> get k s = Some r" for r
    using assms u by (simp add: get_Some_iff)
  then show ?thesis by (metis option.exhaust)
qed

lemma add_result:
  assumes "ok s" "wf r" "room s"
  shows "fst (add r s) = 0 \<longleftrightarrow> get (key r) s = None"
    and "fst (add r s) = 0 \<or> fst (add r s) = -1"
proof -
  have "(fst (add r s) = 0 \<longleftrightarrow> get (key r) s = None) \<and> (fst (add r s) = 0 \<or> fst (add r s) = -1)"
  proof (cases "key r \<in> key ` set (rows s)")
    case True
    then show ?thesis using add_dup [OF assms(1,2) True] get_None_iff [OF assms(1)] by simp
  next
    case False
    then show ?thesis using add_new [OF assms False] get_None_iff [OF assms(1)] by simp
  qed
  then show "fst (add r s) = 0 \<longleftrightarrow> get (key r) s = None"
    and "fst (add r s) = 0 \<or> fst (add r s) = -1" by blast+
qed

lemma add_ok:
  assumes "ok s" "wf r" "room s"
  shows "ok (snd (add r s))"
proof (cases "key r \<in> key ` set (rows s)")
  case True
  show ?thesis by (rule add_dup [OF assms(1,2) True, THEN conjunct2, THEN conjunct1])
next
  case False
  show ?thesis by (rule add_new [OF assms False, THEN conjunct2, THEN conjunct1])
qed

lemma add_unique:
  assumes "ok s" "wf r" "room s" "unique s"
  shows "unique (snd (add r s))"
proof (cases "key r \<in> key ` set (rows s)")
  case True
  then have "mset (rows (snd (add r s))) = mset (rows s)" using add_dup [OF assms(1,2) True] by simp
  from unique_cong [OF this] show ?thesis using assms(4) by simp
next
  case False
  then have m: "mset (rows (snd (add r s))) = mset (r # rows s)" using add_new [OF assms(1-3) False] by simp
  have "distinct (map key (r # rows s))" using assms(4) False by simp
  then show ?thesis using m by (metis mset_eq_imp_distinct_iff mset_map)
qed

lemma get_add_same:
  assumes "ok s" "wf r" "room s" "unique s" "get (key r) s = None"
  shows "get (key r) (snd (add r s)) = Some r"
proof -
  have new: "key r \<notin> key ` set (rows s)" using assms(5) get_None_iff [OF assms(1)] by simp
  have "ok (snd (add r s))" "mset (rows (snd (add r s))) = mset (r # rows s)"
    using add_new [OF assms(1-3) new] by simp_all
  moreover from this(2) have "set (rows (snd (add r s))) = set (r # rows s)" by (rule mset_eq_setD)
  ultimately show ?thesis using add_unique [OF assms(1-4)] by (simp add: get_Some_iff)
qed

lemma get_add_other:
  assumes "ok s" "wf r" "room s" "unique s" "k \<noteq> key r"
  shows "get k (snd (add r s)) = get k s"
proof (cases "key r \<in> key ` set (rows s)")
  case True
  then have "ok (snd (add r s))" "mset (rows (snd (add r s))) = mset (rows s)"
    using add_dup [OF assms(1,2) True] by simp_all
  then show ?thesis by (rule get_cong [OF assms(1) _ assms(4)])
next
  case False
  then have ok': "ok (snd (add r s))" and m: "mset (rows (snd (add r s))) = mset (r # rows s)"
    using add_new [OF assms(1-3) False] by simp_all
  from m have "set (rows (snd (add r s))) = set (r # rows s)" by (rule mset_eq_setD)
  then have "get k (snd (add r s)) = Some x \<longleftrightarrow> get k s = Some x" for x
    using assms(5) get_Some_iff [OF ok' add_unique [OF assms(1-4)]] get_Some_iff [OF assms(1,4)] by auto
  then show ?thesis by (metis option.exhaust)
qed

lemma get_add_refused:
  assumes "ok s" "wf r" "room s" "unique s" "get (key r) s \<noteq> None"
  shows "get k (snd (add r s)) = get k s"
proof -
  have dup: "key r \<in> key ` set (rows s)"
    using assms(5) unfolding get_None_iff [OF assms(1)] by (rule notnotD)
  have "ok (snd (add r s))" "mset (rows (snd (add r s))) = mset (rows s)"
    using add_dup [OF assms(1,2) dup] by simp_all
  then show ?thesis by (rule get_cong [OF assms(1) _ assms(4)])
qed

lemma add_map:
  assumes "ok s" "wf r" "room s" "unique s" "add r s = (ret, s')"
  shows "ret = (if get (key r) s = None then 0 else -1)"
    and "get (key r) s' = (if ret = 0 then Some r else get (key r) s)"
    and "k \<noteq> key r \<Longrightarrow> get k s' = get k s"
    and "ok s'" and "unique s'"
proof -
  have st: "ret = fst (add r s)" "s' = snd (add r s)" using assms(5) by simp_all
  note res = add_result [OF assms(1-3)]
  show ret: "ret = (if get (key r) s = None then 0 else -1)" using res unfolding st by presburger
  show "get (key r) s' = (if ret = 0 then Some r else get (key r) s)"
  proof (cases "get (key r) s = None")
    case True
    then show ?thesis using get_add_same [OF assms(1-4) True] ret unfolding st by simp
  next
    case False
    then show ?thesis using get_add_refused [OF assms(1-4) False] ret unfolding st by simp
  qed
  show "get k s' = get k s" if "k \<noteq> key r"
    unfolding st by (rule get_add_other [OF assms(1-4) that])
  show "ok s'" unfolding st by (rule add_ok [OF assms(1-3)])
  show "unique s'" unfolding st by (rule add_unique [OF assms(1-4)])
qed

text \<open>The two laws together: the lookup function is updated at the key, or the insertion is refused and the
  lookup function stays.\<close>

lemma add_lookup:
  assumes "ok s" "wf r" "room s" "unique s" "add r s = (ret, s')"
  shows "(\<lambda>k. get k s') = (if ret = 0 then (\<lambda>k. get k s)(key r := Some r) else (\<lambda>k. get k s))"
proof
  fix k
  show "get k s' = (if ret = 0 then (\<lambda>k. get k s)(key r := Some r) else (\<lambda>k. get k s)) k"
    using add_map(2) [OF assms] add_map(3) [OF assms, of k] by (cases "k = key r") simp_all
qed

end

section \<open>Replacement by key\<close>

locale updatable_table = keyed_table +
  fixes upd :: "'b \<Rightarrow> 'a \<Rightarrow> int \<times> 'a"
  assumes upd_missing: "ok s \<Longrightarrow> wf r \<Longrightarrow> key r \<notin> key ` set (rows s) \<Longrightarrow>
      fst (upd r s) = -1 \<and> ok (snd (upd r s)) \<and> mset (rows (snd (upd r s))) = mset (rows s)"
    and upd_found: "ok s \<Longrightarrow> wf r \<Longrightarrow> distinct (map key (rows s)) \<Longrightarrow> key r \<in> key ` set (rows s) \<Longrightarrow>
      fst (upd r s) = 0 \<and> ok (snd (upd r s))
        \<and> mset (rows (snd (upd r s))) = mset (map (\<lambda>x. if key x = key r then r else x) (rows s))"
begin

lemma upd_result:
  assumes "ok s" "wf r" "unique s"
  shows "fst (upd r s) = 0 \<longleftrightarrow> get (key r) s \<noteq> None"
proof (cases "key r \<in> key ` set (rows s)")
  case True
  then show ?thesis using upd_found [OF assms True] get_None_iff [OF assms(1)] by simp
next
  case False
  then show ?thesis using upd_missing [OF assms(1,2) False] get_None_iff [OF assms(1)] by simp
qed

lemma upd_ok:
  assumes "ok s" "wf r" "unique s"
  shows "ok (snd (upd r s))"
proof (cases "key r \<in> key ` set (rows s)")
  case True
  show ?thesis by (rule upd_found [OF assms True, THEN conjunct2, THEN conjunct1])
next
  case False
  show ?thesis by (rule upd_missing [OF assms(1,2) False, THEN conjunct2, THEN conjunct1])
qed

lemma upd_keys:
  assumes "ok s" "wf r" "unique s"
  shows "mset (map key (rows (snd (upd r s)))) = mset (map key (rows s))"
proof (cases "key r \<in> key ` set (rows s)")
  case True
  have "mset (map key (rows (snd (upd r s))))
      = mset (map key (map (\<lambda>x. if key x = key r then r else x) (rows s)))"
    unfolding mset_map [of key] using upd_found [OF assms True] by presburger
  also have "map key (map (\<lambda>x. if key x = key r then r else x) (rows s)) = map key (rows s)" by simp
  finally show ?thesis .
next
  case False
  then show ?thesis using upd_missing [OF assms(1,2) False] by simp
qed

lemma upd_unique: "ok s \<Longrightarrow> wf r \<Longrightarrow> unique s \<Longrightarrow> unique (snd (upd r s))"
  using mset_eq_imp_distinct_iff [OF upd_keys] by simp

lemma get_upd_same:
  assumes "ok s" "wf r" "unique s" "get (key r) s \<noteq> None"
  shows "get (key r) (snd (upd r s)) = Some r"
proof -
  have k: "key r \<in> key ` set (rows s)"
    using assms(4) unfolding get_None_iff [OF assms(1)] by (rule notnotD)
  have "set (rows (snd (upd r s))) = set (map (\<lambda>x. if key x = key r then r else x) (rows s))"
    by (rule mset_eq_setD) (simp only: upd_found [OF assms(1-3) k])
  moreover from k have "r \<in> (\<lambda>x. if key x = key r then r else x) ` set (rows s)"
    unfolding image_def by (auto dest: sym)
  ultimately have "r \<in> set (rows (snd (upd r s)))" by simp
  then show ?thesis
    using get_Some_iff [OF upd_ok [OF assms(1-3)] upd_unique [OF assms(1-3)]] by simp
qed

lemma get_upd_other:
  assumes "ok s" "wf r" "unique s" "k \<noteq> key r"
  shows "get k (snd (upd r s)) = get k s"
proof (cases "key r \<in> key ` set (rows s)")
  case True
  have st: "set (rows (snd (upd r s))) = set (map (\<lambda>x. if key x = key r then r else x) (rows s))"
    by (rule mset_eq_setD) (simp only: upd_found [OF assms(1-3) True])
  have mem: "x \<in> set (rows (snd (upd r s))) \<and> key x = k \<longleftrightarrow> x \<in> set (rows s) \<and> key x = k" for x
    unfolding st using assms(4) by auto
  have "get k (snd (upd r s)) = Some x \<longleftrightarrow> get k s = Some x" for x
    unfolding get_Some_iff [OF upd_ok [OF assms(1-3)] upd_unique [OF assms(1-3)]]
      get_Some_iff [OF assms(1,3)] by (rule mem)
  then show ?thesis by (metis option.exhaust)
next
  case False
  then show ?thesis using upd_missing [OF assms(1,2) False] by (intro get_cong [OF assms(1) _ assms(3)]) simp_all
qed

lemma upd_map:
  assumes "ok s" "wf r" "unique s" "upd r s = (ret, s')"
  shows "ret = 0 \<longleftrightarrow> get (key r) s \<noteq> None"
    and "ret = 0 \<Longrightarrow> get (key r) s' = Some r"
    and "k \<noteq> key r \<Longrightarrow> get k s' = get k s"
    and "ok s'" and "unique s'"
proof -
  have st: "ret = fst (upd r s)" "s' = snd (upd r s)" using assms(4) by simp_all
  show ret: "ret = 0 \<longleftrightarrow> get (key r) s \<noteq> None" unfolding st by (rule upd_result [OF assms(1-3)])
  show "get (key r) s' = Some r" if "ret = 0"
    unfolding st by (rule get_upd_same [OF assms(1-3)]) (rule ret [THEN iffD1, OF that])
  show "get k s' = get k s" if "k \<noteq> key r"
    unfolding st by (rule get_upd_other [OF assms(1-3) that])
  show "ok s'" unfolding st by (rule upd_ok [OF assms(1-3)])
  show "unique s'" unfolding st by (rule upd_unique [OF assms(1-3)])
qed

lemma upd_lookup:
  assumes "ok s" "wf r" "unique s" "upd r s = (ret, s')"
  shows "ret = (if get (key r) s = None then -1 else 0)"
    and "(\<lambda>k. get k s') = (if ret = 0 then (\<lambda>k. get k s)(key r := Some r) else (\<lambda>k. get k s))"
proof -
  have st: "ret = fst (upd r s)" "s' = snd (upd r s)" using assms(4) by simp_all
  show ret: "ret = (if get (key r) s = None then -1 else 0)"
  proof (cases "get (key r) s = None")
    case True
    then have "key r \<notin> key ` set (rows s)" using get_None_iff [OF assms(1)] by simp
    then show ?thesis using upd_missing [OF assms(1,2)] True st(1) by simp
  next
    case False
    then show ?thesis using upd_result [OF assms(1-3)] st(1) by simp
  qed
  have "get k s' = get k s" if "ret \<noteq> 0" for k
  proof -
    have "key r \<notin> key ` set (rows s)" using that ret get_None_iff [OF assms(1)] by (auto split: if_splits)
    from upd_missing [OF assms(1,2) this] show ?thesis
      unfolding st by (intro get_cong [OF assms(1) _ assms(3)]) simp_all
  qed
  then show "(\<lambda>k. get k s') = (if ret = 0 then (\<lambda>k. get k s)(key r := Some r) else (\<lambda>k. get k s))"
    using upd_map(2,3) [OF assms] by (auto simp: fun_eq_iff)
qed

end

section \<open>Deletion by key\<close>

locale deletable_table = keyed_table +
  fixes del :: "'c \<Rightarrow> 'a \<Rightarrow> int \<times> 'a"
  assumes del_missing: "ok s \<Longrightarrow> k \<notin> key ` set (rows s) \<Longrightarrow> del k s = (-1, s)"
    and del_found: "ok s \<Longrightarrow> distinct (map key (rows s)) \<Longrightarrow> k \<in> key ` set (rows s) \<Longrightarrow>
      fst (del k s) = 0 \<and> ok (snd (del k s)) \<and> distinct (map key (rows (snd (del k s))))
        \<and> set (rows (snd (del k s))) = {r \<in> set (rows s). key r \<noteq> k}"
begin

lemma del_result:
  assumes "ok s" "unique s"
  shows "fst (del k s) = 0 \<longleftrightarrow> get k s \<noteq> None"
proof (cases "k \<in> key ` set (rows s)")
  case True
  then show ?thesis using del_found [OF assms True] get_None_iff [OF assms(1)] by simp
next
  case False
  then show ?thesis using del_missing [OF assms(1) False] get_None_iff [OF assms(1)] by simp
qed

lemma del_inv:
  assumes "ok s" "unique s"
  shows "ok (snd (del k s)) \<and> unique (snd (del k s))"
proof (cases "k \<in> key ` set (rows s)")
  case True
  then show ?thesis using del_found [OF assms True] by blast
next
  case False
  then show ?thesis using del_missing [OF assms(1) False] assms by simp
qed

lemma del_outcome:
  assumes "ok s" "unique s"
  shows "fst (del k s) = (if get k s = None then -1 else 0)"
proof (cases "get k s = None")
  case True
  then show ?thesis using del_missing [OF assms(1)] get_None_iff [OF assms(1)] by simp
next
  case False
  then show ?thesis using del_result [OF assms, of k] by simp
qed

lemma get_del:
  assumes "ok s" "unique s"
  shows "get k' (snd (del k s)) = (if k' = k then None else get k' s)"
proof (cases "k \<in> key ` set (rows s)")
  case True
  from del_found [OF assms True]
  have ok': "ok (snd (del k s))" "unique (snd (del k s))"
    and st: "set (rows (snd (del k s))) = {r \<in> set (rows s). key r \<noteq> k}" by auto
  have "get k' (snd (del k s)) = Some x \<longleftrightarrow> (if k' = k then None else get k' s) = Some x" for x
    using get_Some_iff [OF ok'] get_Some_iff [OF assms] st by auto
  then show ?thesis by (metis option.exhaust)
next
  case False
  then show ?thesis using del_missing [OF assms(1) False] get_None_iff [OF assms(1)] by auto
qed

end

locale full_table = updatable_table + deletable_table

section \<open>Typed tables: a database file of struct images\<close>

definition typed_rows :: "bytes \<Rightarrow> nat \<Rightarrow> (bytes \<Rightarrow> 'r) \<Rightarrow> 'a os_scheme \<Rightarrow> 'r list" where
  "typed_rows fn sz dec s = map dec (table_rows fn sz s)"

definition typed_ok :: "bytes \<Rightarrow> nat \<Rightarrow> (bytes \<Rightarrow> 'r) \<Rightarrow> ('r \<Rightarrow> bool) \<Rightarrow> 'a os_scheme \<Rightarrow> bool" where
  "typed_ok fn sz dec valid s \<longleftrightarrow> table_ok fn sz s \<and> fcntl_ok s \<and> list_all valid (typed_rows fn sz dec s)"

definition table_room :: "bytes \<Rightarrow> nat \<Rightarrow> 'a os_scheme \<Rightarrow> bool" where
  "table_room fn sz s \<longleftrightarrow> (length (table_rows fn sz s) + 1) * sz < 2 ^ 31"

lemma table_ok_all_len: "table_ok fn sz s \<Longrightarrow> all_len sz (table_rows fn sz s)"
  by (metis table_okE db_fitsD(2))

lemma table_room_fits:
  "table_ok fn sz s \<Longrightarrow> table_room fn sz s \<Longrightarrow> length r = sz \<Longrightarrow> db_fits sz (table_rows fn sz s @ [r])"
proof -
  assume h: "table_ok fn sz s" "table_room fn sz s" "length r = sz"
  from table_okE [OF h(1)] have "db_fits sz (table_rows fn sz s)" by blast
  with h(2,3) show ?thesis by (simp add: db_fits_def table_room_def)
qed

lemma notin_imageD: "k \<notin> f ` A \<Longrightarrow> x \<in> A \<Longrightarrow> f x \<noteq> k"
  by blast

locale typed_table =
  fixes fn :: bytes and sz :: nat
    and enc :: "'r \<Rightarrow> bytes" and dec :: "bytes \<Rightarrow> 'r" and wf :: "'r \<Rightarrow> bool"
    and key :: "'r \<Rightarrow> 'k" and mf :: "bytes \<Rightarrow> 'k \<Rightarrow> int"
  assumes enc_length: "wf r \<Longrightarrow> length (enc r) = sz"
    and dec_enc: "wf r \<Longrightarrow> dec (enc r) = r"
    and match: "length b = sz \<Longrightarrow> wf (dec b) \<Longrightarrow> mf b k = 1 \<longleftrightarrow> key (dec b) = k"
begin

abbreviation ok where "ok \<equiv> typed_ok fn sz dec wf"
abbreviation rows where "rows \<equiv> typed_rows fn sz dec"

lemma okD:
  assumes "ok s"
  shows "table_ok fn sz s" "fcntl_ok s" "\<And>r. r \<in> set (rows s) \<Longrightarrow> wf r"
  using assms by (auto simp: typed_ok_def list_all_iff)

lemma row_match: "ok s \<Longrightarrow> b \<in> set (table_rows fn sz s) \<Longrightarrow> mf b k = 1 \<longleftrightarrow> key (dec b) = k"
  using okD(3) [of s "dec b"] table_ok_all_len [OF okD(1), of s]
  by (intro match) (auto simp: typed_rows_def all_len_def)

lemma find_map: "(\<And>b. b \<in> set xs \<Longrightarrow> P b \<longleftrightarrow> Q (dec b)) \<Longrightarrow>
    map_option dec (List.find P xs) = List.find Q (map dec xs)"
  by (induction xs) auto

lemma get_typed:
  assumes "ok s"
  shows "map_option dec (getRecord fn sz (\<lambda>b. mf b k) s) = List.find (\<lambda>r. key r = k) (rows s)"
  using find_map [of "table_rows fn sz s" "\<lambda>b. mf b k = 1" "\<lambda>r. key r = k"] row_match [OF assms]
  by (simp add: getRecord_spec [OF okD(1,2) [OF assms]] typed_rows_def)

lemma ok_writes:
  assumes "ok s" "writes_rows fn sz rws s s'" "list_all wf (map dec rws)"
  shows "ok s'" "rows s' = map dec rws"
  using assms writes_rowsD [OF assms(2)] by (simp_all add: typed_ok_def typed_rows_def)

lemma add_typed_dup:
  assumes "ok s" "key r \<in> key ` set (rows s)"
  shows "insertUniqueRecord fn (enc r) sz (\<lambda>b. mf b (key r)) s = (-1, s)"
  using assms(2) row_match [OF assms(1)]
  by (intro insertUniqueRecord_spec(1) okD [OF assms(1)]) (force simp: typed_rows_def)

lemma add_typed_new:
  assumes "ok s" "wf r" "table_room fn sz s" "key r \<notin> key ` set (rows s)"
  shows "\<exists>s'. insertUniqueRecord fn (enc r) sz (\<lambda>b. mf b (key r)) s = (0, s')
    \<and> writes_rows fn sz (table_rows fn sz s @ [enc r]) s s' \<and> ok s' \<and> rows s' = rows s @ [r]"
proof -
  have none: "\<forall>b \<in> set (table_rows fn sz s). mf b (key r) \<noteq> 1"
    using notin_imageD [OF assms(4)] row_match [OF assms(1)] by (auto simp: typed_rows_def)
  have fits: "db_fits sz (table_rows fn sz s @ [enc r])"
    using table_room_fits okD(1) [OF assms(1)] assms(3) enc_length [OF assms(2)] by blast
  from insertUniqueRecord_spec(2) [OF okD(1,2) [OF assms(1)] none fits]
  obtain s' where s': "insertUniqueRecord fn (enc r) sz (\<lambda>b. mf b (key r)) s = (0, s')"
    "writes_rows fn sz (table_rows fn sz s @ [enc r]) s s'" by blast
  have "list_all wf (map dec (table_rows fn sz s @ [enc r]))"
    using assms(1,2) dec_enc by (simp add: typed_ok_def typed_rows_def)
  from ok_writes [OF assms(1) s'(2) this] show ?thesis
    using s' assms(2) dec_enc by (auto simp: typed_rows_def)
qed

lemma find_index_typed:
  "ok s \<Longrightarrow> find_index (\<lambda>b. mf b k = 1) (table_rows fn sz s) = find_index (\<lambda>r. key r = k) (rows s)"
proof -
  assume "ok s"
  have "(\<And>b. b \<in> set xs \<Longrightarrow> P b \<longleftrightarrow> Q (dec b)) \<Longrightarrow> find_index P xs = find_index Q (map dec xs)" for P Q xs
    by (induction xs) auto
  with row_match [OF \<open>ok s\<close>] show ?thesis by (simp add: typed_rows_def)
qed

lemma upd_typed_missing:
  assumes "ok s" "key r \<notin> key ` set (rows s)"
  shows "updateRecord fn (enc r) sz (\<lambda>b. mf b (key r)) s = (-1, s)"
proof -
  have "find_index (\<lambda>x. key x = key r) (rows s) = None"
    using notin_imageD [OF assms(2)] by simp
  then show ?thesis
    by (intro updateRecord_spec(1) okD [OF assms(1)]) (simp only: find_index_typed [OF assms(1)])
qed

lemma upd_typed_found:
  assumes "ok s" "wf r" "find_index (\<lambda>x. key x = key r) (rows s) = Some i"
  shows "\<exists>s'. updateRecord fn (enc r) sz (\<lambda>b. mf b (key r)) s = (0, s')
    \<and> writes_rows fn sz ((table_rows fn sz s)[i := enc r]) s s' \<and> ok s' \<and> rows s' = (rows s)[i := r]"
proof -
  have fi: "find_index (\<lambda>b. mf b (key r) = 1) (table_rows fn sz s) = Some i"
    using assms(3) find_index_typed [OF assms(1)] by simp
  from updateRecord_spec(2) [OF okD(1,2) [OF assms(1)] fi enc_length [OF assms(2)]]
  obtain s' where s': "updateRecord fn (enc r) sz (\<lambda>b. mf b (key r)) s = (0, s')"
    "writes_rows fn sz ((table_rows fn sz s)[i := enc r]) s s'" by blast
  have new: "map dec ((table_rows fn sz s)[i := enc r]) = (rows s)[i := r]"
    using dec_enc [OF assms(2)] by (simp add: typed_rows_def map_update)
  have "set ((rows s)[i := r]) \<subseteq> insert r (set (rows s))" by (rule set_update_subset_insert)
  then have "list_all wf ((rows s)[i := r])"
    using okD(3) [OF assms(1)] assms(2) by (auto simp: list_all_iff)
  with ok_writes [OF assms(1) s'(2)] s' new show ?thesis by auto
qed

lemma del_typed_missing:
  assumes "ok s" "k \<notin> key ` set (rows s)"
  shows "deleteRecord fn sz (\<lambda>b. mf b k) s = (-1, s)"
proof -
  have "find_index (\<lambda>x. key x = k) (rows s) = None"
    using notin_imageD [OF assms(2)] by simp
  then show ?thesis
    by (intro deleteRecord_spec(1) okD [OF assms(1)]) (simp only: find_index_typed [OF assms(1)])
qed

lemma map_swap_remove: "xs \<noteq> [] \<Longrightarrow> map f (swap_remove i xs) = swap_remove i (map f xs)"
  by (simp add: swap_remove_def map_butlast map_update last_map)

lemma del_typed_found:
  assumes "ok s" "find_index (\<lambda>x. key x = k) (rows s) = Some i"
  shows "\<exists>s'. deleteRecord fn sz (\<lambda>b. mf b k) s = (0, s')
    \<and> writes_rows fn sz (swap_remove i (table_rows fn sz s)) s s' \<and> ok s'
    \<and> rows s' = swap_remove i (rows s)"
proof -
  have fi: "find_index (\<lambda>b. mf b k = 1) (table_rows fn sz s) = Some i"
    using assms(2) find_index_typed [OF assms(1)] by simp
  have i: "i < length (rows s)" using find_index_Some [OF assms(2)] by simp
  then have ne: "table_rows fn sz s \<noteq> []" by (auto simp: typed_rows_def)
  from deleteRecord_spec(2) [OF okD(1,2) [OF assms(1)] fi]
  obtain s' where s': "deleteRecord fn sz (\<lambda>b. mf b k) s = (0, s')"
    "writes_rows fn sz (swap_remove i (table_rows fn sz s)) s s'" by blast
  have new: "map dec (swap_remove i (table_rows fn sz s)) = swap_remove i (rows s)"
    using map_swap_remove [OF ne] by (simp add: typed_rows_def)
  have "list_all wf (swap_remove i (rows s))"
    using okD(3) [OF assms(1)] set_swap_remove_subset [OF i] by (auto simp: list_all_iff)
  with ok_writes [OF assms(1) s'(2)] s' new show ?thesis by auto
qed

lemma table_at_ok:
  assumes "list_all wf rs" "length rs * sz < 2 ^ 31" "0 < sz"
  shows "ok (table_at fn (map enc rs))" "rows (table_at fn (map enc rs)) = rs"
    "table_rows fn sz (table_at fn (map enc rs)) = map enc rs"
proof -
  have fits: "db_fits sz (map enc rs)"
    using assms enc_length by (auto simp: db_fits_def all_len_def list_all_iff)
  show "table_rows fn sz (table_at fn (map enc rs)) = map enc rs" using table_at(3) [OF fits] .
  have "map (dec \<circ> enc) rs = rs" using assms(1) dec_enc by (induction rs) auto
  then show rs: "rows (table_at fn (map enc rs)) = rs"
    using table_at(3) [OF fits] by (simp add: typed_rows_def)
  then show "ok (table_at fn (map enc rs))"
    using table_at(1,2) [OF fits] assms(1) by (simp add: typed_ok_def)
qed

end

end
