(* ===== verification/QueryDatabase.thy ===== *)
theory QueryDatabase
  imports Tables
begin

text \<open>
  \<open>Server/queryDatabase.c\<close>: the three tables of the platform over the file database. The
  definitions are the C functions; a \<open>char *\<close> key is the C string it points to. The
  interpretations at the end discharge the contracts of \<open>Tables\<close> for the code's own operations:
  \<open>users\<close> and \<open>leaderboard\<close> are keyed by name, \<open>problems\<close> by its id.
\<close>

section \<open>Registered users\<close>

definition matchUserRecord :: "bytes \<Rightarrow> bytes \<Rightarrow> int" where
  "matchUserRecord record username = (if c_str record = username then 1 else 0)"

definition getUserRecord :: "bytes \<Rightarrow> 'a os_scheme \<Rightarrow> UserRecord option" where
  "getUserRecord username s = map_option dec_UserRecord
     (getRecord ''users.dat'' sizeof_UserRecord (\<lambda>r. matchUserRecord r username) s)"

definition addUserRecord :: "UserRecord \<Rightarrow> 'a os_scheme \<Rightarrow> int \<times> 'a os_scheme" where
  "addUserRecord userRecord s = insertUniqueRecord ''users.dat'' (enc_UserRecord userRecord)
     sizeof_UserRecord (\<lambda>r. matchUserRecord r (user_name userRecord)) s"

section \<open>Problems\<close>

definition matchProblem :: "bytes \<Rightarrow> int \<Rightarrow> int" where
  "matchProblem record problemID = (if dec_int record = problemID then 1 else 0)"

definition matchProblemVisibility :: "bytes \<Rightarrow> int \<Rightarrow> int" where
  "matchProblemVisibility record visibility =
     (if dec_int (drop 108 record) = visibility then 1 else 0)"

definition addProblem :: "Problem \<Rightarrow> 'a os_scheme \<Rightarrow> int \<times> 'a os_scheme" where
  "addProblem problem s = insertUniqueRecord ''problems.dat'' (enc_Problem problem)
     sizeof_Problem (\<lambda>r. matchProblem r (pr_id problem)) s"

definition updateProblem :: "Problem \<Rightarrow> 'a os_scheme \<Rightarrow> int \<times> 'a os_scheme" where
  "updateProblem problem s = updateRecord ''problems.dat'' (enc_Problem problem)
     sizeof_Problem (\<lambda>r. matchProblem r (pr_id problem)) s"

definition getProblem :: "int \<Rightarrow> 'a os_scheme \<Rightarrow> Problem option" where
  "getProblem problemID s = map_option dec_Problem
     (getRecord ''problems.dat'' sizeof_Problem (\<lambda>r. matchProblem r problemID) s)"

definition deleteProblem :: "int \<Rightarrow> 'a os_scheme \<Rightarrow> int \<times> 'a os_scheme" where
  "deleteProblem problemID s =
     deleteRecord ''problems.dat'' sizeof_Problem (\<lambda>r. matchProblem r problemID) s"

definition getRandomVisibleProblem :: "(nat \<Rightarrow> nat) \<Rightarrow> 'a os_scheme \<Rightarrow> Problem option" where
  "getRandomVisibleProblem rand s = map_option dec_Problem
     (getRandomRecord ''problems.dat'' sizeof_Problem
        (Some (\<lambda>r. matchProblemVisibility r PROBLEM_VISIBLE)) 100 rand s)"

section \<open>Leaderboard\<close>

definition matchLeaderboardEntry :: "bytes \<Rightarrow> bytes \<Rightarrow> int" where
  "matchLeaderboardEntry record username = (if c_str record = username then 1 else 0)"

definition compareLeaderboardEntries :: "bytes \<Rightarrow> bytes \<Rightarrow> int" where
  "compareLeaderboardEntries record1 record2 =
     wrap32 (le_elo (dec_LeaderboardEntry record2) - le_elo (dec_LeaderboardEntry record1))"

definition sortLeaderboard :: "'a os_scheme \<Rightarrow> int \<times> 'a os_scheme" where
  "sortLeaderboard s =
     diskBubbleSortRecords ''leaderboard.dat'' sizeof_LeaderboardEntry compareLeaderboardEntries s"

definition addLeaderboardEntry :: "LeaderboardEntry \<Rightarrow> 'a os_scheme \<Rightarrow> int \<times> 'a os_scheme" where
  "addLeaderboardEntry entry s =
     (let (ret, s1) = insertUniqueRecord ''leaderboard.dat'' (enc_LeaderboardEntry entry)
            sizeof_LeaderboardEntry (\<lambda>r. matchLeaderboardEntry r (entry_name entry)) s;
          (_, s2) = sortLeaderboard s1
      in (ret, s2))"

definition getLeaderboardEntry :: "bytes \<Rightarrow> 'a os_scheme \<Rightarrow> LeaderboardEntry option" where
  "getLeaderboardEntry username s = map_option dec_LeaderboardEntry
     (getRecord ''leaderboard.dat'' sizeof_LeaderboardEntry (\<lambda>r. matchLeaderboardEntry r username) s)"

definition updateLeaderboardEntry :: "LeaderboardEntry \<Rightarrow> 'a os_scheme \<Rightarrow> int \<times> 'a os_scheme" where
  "updateLeaderboardEntry entry s =
     (let (ret, s1) = updateRecord ''leaderboard.dat'' (enc_LeaderboardEntry entry)
            sizeof_LeaderboardEntry (\<lambda>r. matchLeaderboardEntry r (entry_name entry)) s;
          (_, s2) = sortLeaderboard s1
      in (ret, s2))"

section \<open>The tables as lists of structs\<close>

definition user_rows :: "'a os_scheme \<Rightarrow> UserRecord list" where
  "user_rows s = typed_rows ''users.dat'' sizeof_UserRecord dec_UserRecord s"

definition users_ok :: "'a os_scheme \<Rightarrow> bool" where
  "users_ok s \<longleftrightarrow> typed_ok ''users.dat'' sizeof_UserRecord dec_UserRecord wf_UserRecord s"

definition users_room :: "'a os_scheme \<Rightarrow> bool" where
  "users_room s \<longleftrightarrow> table_room ''users.dat'' sizeof_UserRecord s"

definition problem_rows :: "'a os_scheme \<Rightarrow> Problem list" where
  "problem_rows s = typed_rows ''problems.dat'' sizeof_Problem dec_Problem s"

definition problems_ok :: "'a os_scheme \<Rightarrow> bool" where
  "problems_ok s \<longleftrightarrow> typed_ok ''problems.dat'' sizeof_Problem dec_Problem wf_Problem s"

definition problems_room :: "'a os_scheme \<Rightarrow> bool" where
  "problems_room s \<longleftrightarrow> table_room ''problems.dat'' sizeof_Problem s"

definition leaderboard_rows :: "'a os_scheme \<Rightarrow> LeaderboardEntry list" where
  "leaderboard_rows s = typed_rows ''leaderboard.dat'' sizeof_LeaderboardEntry dec_LeaderboardEntry s"

text \<open>The Elo differences the compare function computes must not wrap: the ratings lie within
  a range of less than \<open>2\<^sup>3\<^sup>1\<close>.\<close>

definition elo_sane :: "LeaderboardEntry \<Rightarrow> bool" where
  "elo_sane e \<longleftrightarrow> - (2 ^ 30) \<le> le_elo e \<and> le_elo e < 2 ^ 30"

definition wf_entry :: "LeaderboardEntry \<Rightarrow> bool" where
  "wf_entry e \<longleftrightarrow> wf_LeaderboardEntry e \<and> elo_sane e"

definition leaderboard_ok :: "'a os_scheme \<Rightarrow> bool" where
  "leaderboard_ok s \<longleftrightarrow>
     typed_ok ''leaderboard.dat'' sizeof_LeaderboardEntry dec_LeaderboardEntry wf_entry s"

definition leaderboard_room :: "'a os_scheme \<Rightarrow> bool" where
  "leaderboard_room s \<longleftrightarrow> table_room ''leaderboard.dat'' sizeof_LeaderboardEntry s"

section \<open>The typed tables\<close>

lemma c_str_take:
  assumes "terminated n (take n b)"
  shows "c_str b = c_str (take n b)"
proof -
  have "b = take n b @ drop n b" by simp
  with terminated_c_str [OF assms, of "drop n b"] show ?thesis by simp
qed

interpretation user_file: typed_table "''users.dat''" "204" enc_UserRecord dec_UserRecord
    wf_UserRecord user_name matchUserRecord
proof unfold_locales
  fix b :: bytes and k
  assume "wf_UserRecord (dec_UserRecord b)"
  then have "terminated 100 (take 100 b)" by (simp add: wf_UserRecord_def dec_UserRecord_def)
  then show "(matchUserRecord b k = 1) = (user_name (dec_UserRecord b) = k)"
    by (simp add: matchUserRecord_def user_name_def dec_UserRecord_def c_str_take)
qed (simp_all add: UserRecord_codec)

interpretation problem_file: typed_table "''problems.dat''" "112" enc_Problem dec_Problem
    wf_Problem pr_id matchProblem
proof unfold_locales
  fix b :: bytes and k
  show "(matchProblem b k = 1) = (pr_id (dec_Problem b) = k)"
    by (simp add: matchProblem_def dec_Problem_def)
qed (simp_all add: Problem_codec)

interpretation leaderboard_file: typed_table "''leaderboard.dat''" "104" enc_LeaderboardEntry
    dec_LeaderboardEntry wf_entry entry_name matchLeaderboardEntry
proof unfold_locales
  fix b :: bytes and k
  assume "wf_entry (dec_LeaderboardEntry b)"
  then have "terminated 100 (take 100 b)"
    by (simp add: wf_entry_def wf_LeaderboardEntry_def dec_LeaderboardEntry_def)
  then show "(matchLeaderboardEntry b k = 1) = (entry_name (dec_LeaderboardEntry b) = k)"
    by (simp add: matchLeaderboardEntry_def entry_name_def dec_LeaderboardEntry_def c_str_take)
qed (simp_all add: LeaderboardEntry_codec wf_entry_def)

lemmas users_defs = user_rows_def users_ok_def users_room_def getUserRecord_def addUserRecord_def
lemmas problems_defs = problem_rows_def problems_ok_def problems_room_def getProblem_def
  addProblem_def updateProblem_def deleteProblem_def
lemmas leaderboard_defs = leaderboard_rows_def leaderboard_ok_def leaderboard_room_def
  getLeaderboardEntry_def addLeaderboardEntry_def updateLeaderboardEntry_def

section \<open>Users and problems keep the contracts\<close>

interpretation users: keyed_table users_ok user_rows users_room wf_UserRecord user_name
    getUserRecord addUserRecord
proof unfold_locales
  fix s :: "'a os_scheme" and r :: UserRecord and k
  assume ok: "users_ok s"
  show "getUserRecord k s = List.find (\<lambda>r. user_name r = k) (user_rows s)"
    using ok user_file.get_typed by (simp add: users_defs)
  show "fst (addUserRecord r s) = -1 \<and> users_ok (snd (addUserRecord r s))
      \<and> mset (user_rows (snd (addUserRecord r s))) = mset (user_rows s)"
    if "user_name r \<in> user_name ` set (user_rows s)"
    using ok that user_file.add_typed_dup [of s r] by (simp add: users_defs)
  show "fst (addUserRecord r s) = 0 \<and> users_ok (snd (addUserRecord r s))
      \<and> mset (user_rows (snd (addUserRecord r s))) = add_mset r (mset (user_rows s))"
    if "wf_UserRecord r" "users_room s" "user_name r \<notin> user_name ` set (user_rows s)"
    using ok that user_file.add_typed_new [of s r] by (auto simp: users_defs)
qed

lemma mset_update_distinct:
  assumes "distinct (map key xs)" "find_index (\<lambda>x. key x = k) xs = Some i"
  shows "xs[i := r] = map (\<lambda>x. if key x = k then r else x) xs"
proof (rule nth_equalityI)
  fix j
  assume "j < length (xs[i := r])"
  then have j: "j < length xs" by simp
  have i: "i < length xs" "key (xs ! i) = k" using find_index_Some [OF assms(2)] by simp_all
  have "key (xs ! j) = k \<longleftrightarrow> j = i"
    using assms(1) i j by (auto simp: distinct_conv_nth)
  then show "xs[i := r] ! j = map (\<lambda>x. if key x = k then r else x) xs ! j"
    using i j by (auto simp: nth_list_update)
qed simp

lemma find_index_image: "k \<in> key ` set xs \<Longrightarrow> \<exists>i. find_index (\<lambda>x. key x = k) xs = Some i"
  by (metis (mono_tags, lifting) find_index_None image_iff not_None_eq)

interpretation problems: full_table problems_ok problem_rows problems_room wf_Problem pr_id
    getProblem addProblem updateProblem deleteProblem
proof unfold_locales
  fix s :: "'a os_scheme" and r :: Problem and k
  assume ok: "problems_ok s"
  show "getProblem k s = List.find (\<lambda>r. pr_id r = k) (problem_rows s)"
    using ok problem_file.get_typed by (simp add: problems_defs)
  show "fst (addProblem r s) = -1 \<and> problems_ok (snd (addProblem r s))
      \<and> mset (problem_rows (snd (addProblem r s))) = mset (problem_rows s)"
    if "pr_id r \<in> pr_id ` set (problem_rows s)"
    using ok that problem_file.add_typed_dup [of s r] by (simp add: problems_defs)
  show "fst (addProblem r s) = 0 \<and> problems_ok (snd (addProblem r s))
      \<and> mset (problem_rows (snd (addProblem r s))) = add_mset r (mset (problem_rows s))"
    if "wf_Problem r" "problems_room s" "pr_id r \<notin> pr_id ` set (problem_rows s)"
    using ok that problem_file.add_typed_new [of s r] by (auto simp: problems_defs)
  show "fst (updateProblem r s) = -1 \<and> problems_ok (snd (updateProblem r s))
      \<and> mset (problem_rows (snd (updateProblem r s))) = mset (problem_rows s)"
    if "pr_id r \<notin> pr_id ` set (problem_rows s)"
    using ok that problem_file.upd_typed_missing [of s r] by (simp add: problems_defs)
  show "fst (updateProblem r s) = 0 \<and> problems_ok (snd (updateProblem r s))
      \<and> mset (problem_rows (snd (updateProblem r s)))
        = mset (map (\<lambda>x. if pr_id x = pr_id r then r else x) (problem_rows s))"
    if r: "wf_Problem r" and d: "distinct (map pr_id (problem_rows s))"
      and mem: "pr_id r \<in> pr_id ` set (problem_rows s)"
  proof -
    obtain i where i: "find_index (\<lambda>x. pr_id x = pr_id r) (problem_rows s) = Some i"
      using find_index_image [OF mem] by blast
    have "problem_file.ok s" using ok by (simp add: problems_ok_def)
    from problem_file.upd_typed_found [OF this r, of i] i
    obtain s' where s': "updateProblem r s = (0, s')" "problems_ok s'"
      "problem_rows s' = (problem_rows s)[i := r]" by (auto simp: problems_defs)
    show ?thesis unfolding s'(1) fst_conv snd_conv s'(3) mset_update_distinct [OF d i] using s'(2) by simp
  qed
  show "deleteProblem k s = (-1, s)" if "k \<notin> pr_id ` set (problem_rows s)"
    using ok that problem_file.del_typed_missing [of s k] by (simp add: problems_defs)
  show "fst (deleteProblem k s) = 0 \<and> problems_ok (snd (deleteProblem k s))
      \<and> distinct (map pr_id (problem_rows (snd (deleteProblem k s))))
      \<and> set (problem_rows (snd (deleteProblem k s))) = {r \<in> set (problem_rows s). pr_id r \<noteq> k}"
    if d: "distinct (map pr_id (problem_rows s))" and mem: "k \<in> pr_id ` set (problem_rows s)"
  proof -
    obtain i where i: "find_index (\<lambda>x. pr_id x = k) (problem_rows s) = Some i"
      using find_index_image [OF mem] by blast
    then have lt: "i < length (problem_rows s)" "pr_id (problem_rows s ! i) = k"
      using find_index_Some [OF i] by simp_all
    have "problem_file.ok s" using ok by (simp add: problems_ok_def)
    from problem_file.del_typed_found [OF this, of k i] i
    obtain s' where s': "deleteProblem k s = (0, s')" "problems_ok s'"
      "problem_rows s' = swap_remove i (problem_rows s)" by (auto simp: problems_defs)
    show ?thesis unfolding s'(1) fst_conv snd_conv s'(3) using s'(2) lt(2)
        set_swap_remove_distinct [OF lt(1) d] by simp
  qed
qed

section \<open>The leaderboard: each write re-sorts\<close>

lemma compare_orders:
  assumes "list_all wf_entry (map dec_LeaderboardEntry bs)"
  shows "orders_by compareLeaderboardEntries (\<lambda>b. le_elo (dec_LeaderboardEntry b)) bs"
proof -
  have "wrap32 (le_elo b - le_elo a) = le_elo b - le_elo a" if "elo_sane a" "elo_sane b" for a b
    using that by (simp add: elo_sane_def wrap32_id int_range_def)
  with assms show ?thesis
    by (auto simp: orders_by_def compareLeaderboardEntries_def list_all_iff wf_entry_def)
qed

lemma sort_key_map: "map f (sort_key (\<lambda>x. key (f x)) xs) = sort_key key (map f xs)"
proof (induction xs)
  case (Cons x xs)
  have "map f (insort_key (\<lambda>x. key (f x)) x ys) = insort_key key (f x) (map f ys)" for ys
    by (induction ys) auto
  with Cons show ?case by simp
qed simp

lemma sortLeaderboard_spec:
  assumes "leaderboard_ok s"
  shows "\<exists>s'. sortLeaderboard s = (0, s') \<and> leaderboard_ok s'
    \<and> leaderboard_rows s' = sort_key le_elo (leaderboard_rows s)
    \<and> writes_rows ''leaderboard.dat'' 104 (sort_key (\<lambda>b. le_elo (dec_LeaderboardEntry b))
         (table_rows ''leaderboard.dat'' 104 s)) s s'"
proof -
  have ok: "leaderboard_file.ok s" using assms by (simp add: leaderboard_ok_def)
  have all: "list_all wf_entry (map dec_LeaderboardEntry (table_rows ''leaderboard.dat'' 104 s))"
    using ok by (simp add: typed_ok_def typed_rows_def)
  from diskBubbleSortRecords_spec [OF leaderboard_file.okD(1,2) [OF ok] compare_orders [OF all]]
  obtain s' where s': "sortLeaderboard s = (0, s')"
    "writes_rows ''leaderboard.dat'' 104 (sort_key (\<lambda>b. le_elo (dec_LeaderboardEntry b))
       (table_rows ''leaderboard.dat'' 104 s)) s s'" by (auto simp: sortLeaderboard_def)
  have "list_all wf_entry (map dec_LeaderboardEntry (sort_key (\<lambda>b. le_elo (dec_LeaderboardEntry b))
       (table_rows ''leaderboard.dat'' 104 s)))"
    using all by (simp add: list_all_iff)
  from leaderboard_file.ok_writes [OF ok s'(2) this] s' show ?thesis
    by (simp add: leaderboard_ok_def leaderboard_rows_def typed_rows_def sort_key_map)
qed

lemma addLeaderboardEntry_dup:
  assumes "leaderboard_ok s" "entry_name r \<in> entry_name ` set (leaderboard_rows s)"
  shows "fst (addLeaderboardEntry r s) = -1 \<and> leaderboard_ok (snd (addLeaderboardEntry r s))
    \<and> leaderboard_rows (snd (addLeaderboardEntry r s)) = sort_key le_elo (leaderboard_rows s)"
proof -
  have ok: "leaderboard_file.ok s" using assms(1) by (simp add: leaderboard_ok_def)
  have "insertUniqueRecord ''leaderboard.dat'' (enc_LeaderboardEntry r) 104
      (\<lambda>b. matchLeaderboardEntry b (entry_name r)) s = (-1, s)"
    using assms(2) by (intro leaderboard_file.add_typed_dup [OF ok]) (simp add: leaderboard_rows_def)
  with sortLeaderboard_spec [OF assms(1)] show ?thesis by (auto simp: addLeaderboardEntry_def)
qed

lemma addLeaderboardEntry_new:
  assumes "leaderboard_ok s" "wf_entry r" "leaderboard_room s"
    "entry_name r \<notin> entry_name ` set (leaderboard_rows s)"
  shows "fst (addLeaderboardEntry r s) = 0 \<and> leaderboard_ok (snd (addLeaderboardEntry r s))
    \<and> leaderboard_rows (snd (addLeaderboardEntry r s)) = sort_key le_elo (leaderboard_rows s @ [r])"
proof -
  have ok: "leaderboard_file.ok s" using assms(1) by (simp add: leaderboard_ok_def)
  obtain s1 where s1: "insertUniqueRecord ''leaderboard.dat'' (enc_LeaderboardEntry r) 104
      (\<lambda>b. matchLeaderboardEntry b (entry_name r)) s = (0, s1)" "leaderboard_ok s1"
    "leaderboard_rows s1 = leaderboard_rows s @ [r]"
    using leaderboard_file.add_typed_new [OF ok assms(2)] assms(3,4)
    by (auto simp: leaderboard_room_def leaderboard_rows_def leaderboard_ok_def)
  from sortLeaderboard_spec [OF s1(2)] show ?thesis using s1 by (auto simp: addLeaderboardEntry_def)
qed

lemma updateLeaderboardEntry_missing:
  assumes "leaderboard_ok s" "entry_name r \<notin> entry_name ` set (leaderboard_rows s)"
  shows "fst (updateLeaderboardEntry r s) = -1 \<and> leaderboard_ok (snd (updateLeaderboardEntry r s))
    \<and> leaderboard_rows (snd (updateLeaderboardEntry r s)) = sort_key le_elo (leaderboard_rows s)"
proof -
  have ok: "leaderboard_file.ok s" using assms(1) by (simp add: leaderboard_ok_def)
  have "updateRecord ''leaderboard.dat'' (enc_LeaderboardEntry r) 104
      (\<lambda>b. matchLeaderboardEntry b (entry_name r)) s = (-1, s)"
    using assms(2) by (intro leaderboard_file.upd_typed_missing [OF ok]) (simp add: leaderboard_rows_def)
  with sortLeaderboard_spec [OF assms(1)] show ?thesis by (auto simp: updateLeaderboardEntry_def)
qed

lemma updateLeaderboardEntry_found:
  assumes "leaderboard_ok s" "wf_entry r" "distinct (map entry_name (leaderboard_rows s))"
    "entry_name r \<in> entry_name ` set (leaderboard_rows s)"
  shows "fst (updateLeaderboardEntry r s) = 0 \<and> leaderboard_ok (snd (updateLeaderboardEntry r s))
    \<and> leaderboard_rows (snd (updateLeaderboardEntry r s))
      = sort_key le_elo (map (\<lambda>x. if entry_name x = entry_name r then r else x) (leaderboard_rows s))"
proof -
  have ok: "leaderboard_file.ok s" using assms(1) by (simp add: leaderboard_ok_def)
  obtain i where i: "find_index (\<lambda>x. entry_name x = entry_name r) (leaderboard_rows s) = Some i"
    using find_index_image [OF assms(4)] by blast
  obtain s1 where s1: "updateRecord ''leaderboard.dat'' (enc_LeaderboardEntry r) 104
      (\<lambda>b. matchLeaderboardEntry b (entry_name r)) s = (0, s1)" "leaderboard_ok s1"
    "leaderboard_rows s1 = (leaderboard_rows s)[i := r]"
    using leaderboard_file.upd_typed_found [OF ok assms(2), of i] i
    by (auto simp: leaderboard_rows_def leaderboard_ok_def)
  from sortLeaderboard_spec [OF s1(2)]
  obtain s2 where s2: "sortLeaderboard s1 = (0, s2)" "leaderboard_ok s2"
    "leaderboard_rows s2 = sort_key le_elo (leaderboard_rows s1)" by blast
  have "updateLeaderboardEntry r s = (0, s2)" using s1(1) s2(1) by (simp add: updateLeaderboardEntry_def)
  then show ?thesis
    unfolding mset_update_distinct [OF assms(3) i, of r, symmetric] using s2(2,3) s1(3) by simp
qed

interpretation leaderboard: updatable_table leaderboard_ok leaderboard_rows leaderboard_room wf_entry
    entry_name getLeaderboardEntry addLeaderboardEntry updateLeaderboardEntry
proof unfold_locales
  fix s :: "'a os_scheme" and k
  assume "leaderboard_ok s"
  then show "getLeaderboardEntry k s = List.find (\<lambda>r. entry_name r = k) (leaderboard_rows s)"
    using leaderboard_file.get_typed [of s k] by (simp add: leaderboard_defs)
next
  fix s :: "'a os_scheme" and r
  assume h: "leaderboard_ok s" "entry_name r \<in> entry_name ` set (leaderboard_rows s)"
  show "fst (addLeaderboardEntry r s) = -1 \<and> leaderboard_ok (snd (addLeaderboardEntry r s))
      \<and> mset (leaderboard_rows (snd (addLeaderboardEntry r s))) = mset (leaderboard_rows s)"
    using addLeaderboardEntry_dup [OF h] by simp
next
  fix s :: "'a os_scheme" and r
  assume h: "leaderboard_ok s" "wf_entry r" "leaderboard_room s"
    "entry_name r \<notin> entry_name ` set (leaderboard_rows s)"
  show "fst (addLeaderboardEntry r s) = 0 \<and> leaderboard_ok (snd (addLeaderboardEntry r s))
      \<and> mset (leaderboard_rows (snd (addLeaderboardEntry r s))) = add_mset r (mset (leaderboard_rows s))"
    using addLeaderboardEntry_new [OF h] by simp
next
  fix s :: "'a os_scheme" and r
  assume h: "leaderboard_ok s" "entry_name r \<notin> entry_name ` set (leaderboard_rows s)"
  show "fst (updateLeaderboardEntry r s) = -1 \<and> leaderboard_ok (snd (updateLeaderboardEntry r s))
      \<and> mset (leaderboard_rows (snd (updateLeaderboardEntry r s))) = mset (leaderboard_rows s)"
    using updateLeaderboardEntry_missing [OF h] by simp
next
  fix s :: "'a os_scheme" and r
  assume h: "leaderboard_ok s" "wf_entry r" "distinct (map entry_name (leaderboard_rows s))"
    "entry_name r \<in> entry_name ` set (leaderboard_rows s)"
  show "fst (updateLeaderboardEntry r s) = 0 \<and> leaderboard_ok (snd (updateLeaderboardEntry r s))
      \<and> mset (leaderboard_rows (snd (updateLeaderboardEntry r s)))
        = mset (map (\<lambda>x. if entry_name x = entry_name r then r else x) (leaderboard_rows s))"
    using updateLeaderboardEntry_found [OF h] by simp
qed

section \<open>What the query layer promises\<close>

text \<open>registering a user succeeds (returns 0) exactly if no stored user has that name, and is
  refused with \<open>-1\<close> otherwise. Afterwards a lookup of the name finds the registered record, or the
  old one if it was refused; every other name is found as before; names stay unique and the file
  well formed.\<close>

theorem add_user_correct:
  assumes "users_ok s" "distinct (map user_name (user_rows s))" "wf_UserRecord r" "users_room s"
    and "addUserRecord r s = (ret, s')"
  shows "ret = (if getUserRecord (user_name r) s = None then 0 else -1)
    \<and> getUserRecord (user_name r) s'
        = (if ret = 0 then Some r else getUserRecord (user_name r) s)
    \<and> (\<forall>k. k \<noteq> user_name r \<longrightarrow> getUserRecord k s' = getUserRecord k s)
    \<and> users_ok s' \<and> distinct (map user_name (user_rows s'))"
  using users.add_map [OF assms(1,3,4,2,5)] by blast

theorem add_user_correct_witness:
  "let alice = \<lparr>ur_username = char_array ''alice'', ur_password = char_array ''pw'', ur_privilege = 1\<rparr>;
       bob = \<lparr>ur_username = char_array ''bob'', ur_password = char_array ''pw'', ur_privilege = 1\<rparr>;
       s = table_at ''users.dat'' [enc_UserRecord alice]
   in fst (addUserRecord bob s) = 0 \<and> getUserRecord ''bob'' (snd (addUserRecord bob s)) = Some bob
      \<and> getUserRecord ''alice'' (snd (addUserRecord bob s)) = getUserRecord ''alice'' s"
proof -
  define alice where "alice = \<lparr>ur_username = char_array ''alice'', ur_password = char_array ''pw'', ur_privilege = 1\<rparr>"
  define bob where "bob = \<lparr>ur_username = char_array ''bob'', ur_password = char_array ''pw'', ur_privilege = 1\<rparr>"
  define s where "s = table_at ''users.dat'' (map enc_UserRecord [alice])"
  have wf: "wf_UserRecord alice" "wf_UserRecord bob" and names: "user_name alice = ''alice''" "user_name bob = ''bob''"
    by (simp_all add: alice_def bob_def wf_UserRecord_def no_nul_def int_range_def user_name_def)
  have ok: "users_ok s" "user_rows s = [alice]" "users_room s"
    using user_file.table_at_ok [of "[alice]"] wf(1)
    by (simp_all add: users_defs s_def table_room_def)
  then have none: "getUserRecord ''bob'' s = None"
    using users.get_None_iff [OF ok(1), of "''bob''"] names by simp
  obtain ret s' where add: "addUserRecord bob s = (ret, s')" by (metis surj_pair)
  have "ret = 0 \<and> getUserRecord ''bob'' s' = Some bob
    \<and> getUserRecord ''alice'' s' = getUserRecord ''alice'' s"
    using add_user_correct [OF ok(1) _ wf(2) ok(3) add] ok(2) names none by simp
  then show ?thesis using add by (simp add: Let_def s_def alice_def bob_def)
qed

text \<open>C34: the problem table as a map from ids to problems. Adding a new id, updating a present one
  and deleting a present one return 0 and change the map at that id and nowhere else; adding a present id,
  updating or deleting an absent one return \<open>-1\<close> and leave the whole map as it was, at the own id too. Ids stay
  unique.\<close>

theorem problem_table_correct:
  assumes "problems_ok s" "distinct (map pr_id (problem_rows s))" "wf_Problem p" "problems_room s"
  shows "(case addProblem p s of (ret, s') \<Rightarrow>
        ret = (if getProblem (pr_id p) s = None then 0 else -1)
        \<and> (\<lambda>k. getProblem k s') = (if ret = 0 then (\<lambda>k. getProblem k s)(pr_id p := Some p) else (\<lambda>k. getProblem k s))
        \<and> problems_ok s' \<and> distinct (map pr_id (problem_rows s')))
    \<and> (case updateProblem p s of (ret, s') \<Rightarrow>
        ret = (if getProblem (pr_id p) s = None then -1 else 0)
        \<and> (\<lambda>k. getProblem k s') = (if ret = 0 then (\<lambda>k. getProblem k s)(pr_id p := Some p) else (\<lambda>k. getProblem k s))
        \<and> problems_ok s' \<and> distinct (map pr_id (problem_rows s')))
    \<and> (case deleteProblem (pr_id p) s of (ret, s') \<Rightarrow>
        ret = (if getProblem (pr_id p) s = None then -1 else 0)
        \<and> (\<lambda>k. getProblem k s') = (if ret = 0 then (\<lambda>k. getProblem k s)(pr_id p := None) else (\<lambda>k. getProblem k s))
        \<and> problems_ok s' \<and> distinct (map pr_id (problem_rows s')))"
proof -
  obtain ra sa ru su where a: "addProblem p s = (ra, sa)" and u: "updateProblem p s = (ru, su)"
    by (metis surj_pair)
  obtain rd sd where d: "deleteProblem (pr_id p) s = (rd, sd)" by (metis surj_pair)
  note am = problems.add_map [OF assms(1,3,4,2) a] and al = problems.add_lookup [OF assms(1,3,4,2) a]
  note um = problems.upd_map [OF assms(1,3,2) u] and ul = problems.upd_lookup [OF assms(1,3,2) u]
  have del: "rd = (if getProblem (pr_id p) s = None then -1 else 0)"
    "problems_ok sd" "distinct (map pr_id (problem_rows sd))"
    using problems.del_outcome [OF assms(1,2), of "pr_id p"] problems.del_inv [OF assms(1,2), of "pr_id p"]
    unfolding d by simp_all
  have "getProblem k sd = (if k = pr_id p then None else getProblem k s)" for k
    using problems.get_del [OF assms(1,2), of k "pr_id p"] unfolding d by simp
  then have dl: "(\<lambda>k. getProblem k sd) = (if rd = 0 then (\<lambda>k. getProblem k s)(pr_id p := None) else (\<lambda>k. getProblem k s))"
    using del(1) by (auto simp: fun_eq_iff)
  show ?thesis unfolding a u d prod.case
    by (intro conjI am(1,4,5) al um(4,5) ul del dl)
qed

theorem problem_table_correct_witness:
  "let p = \<lparr>pr_id = 1, pr_title = char_array ''Sum'', pr_difficulty = 1, pr_visibility = 1\<rparr>;
       q = p\<lparr>pr_difficulty := 2\<rparr>;
       s = table_at ''problems.dat'' [enc_Problem p]
   in getProblem 1 (snd (updateProblem q s)) = Some q \<and> getProblem 1 (snd (deleteProblem 1 s)) = None
      \<and> fst (addProblem q s) = -1"
proof -
  define p where "p = \<lparr>pr_id = 1, pr_title = char_array ''Sum'', pr_difficulty = 1, pr_visibility = 1\<rparr>"
  define q where "q = p\<lparr>pr_difficulty := 2\<rparr>"
  define s where "s = table_at ''problems.dat'' (map enc_Problem [p])"
  have wf: "wf_Problem p" "wf_Problem q" and ids: "pr_id p = 1" "pr_id q = 1"
    by (simp_all add: p_def q_def wf_Problem_def no_nul_def int_range_def)
  have ok: "problems_ok s" "problem_rows s = [p]" "problems_room s"
    using problem_file.table_at_ok [of "[p]"] wf(1)
    by (simp_all add: problems_defs s_def table_room_def)
  have some: "getProblem 1 s = Some p"
    using problems.get_find [OF ok(1), of 1] ok(2) ids by simp
  have "getProblem 1 (snd (updateProblem q s)) = Some q \<and> getProblem 1 (snd (deleteProblem 1 s)) = None
      \<and> fst (addProblem q s) = -1"
    using problem_table_correct [OF ok(1) _ wf(2) ok(3)] ok(2) ids some
    by (simp add: case_prod_beta fun_eq_iff)
  then show ?thesis by (simp add: Let_def s_def q_def p_def)
qed

text \<open>C35: every write of a rating re-sorts the leaderboard: after \<open>updateLeaderboardEntry\<close> of a
  present player the rows are the old ones with that player's row replaced, in \<^emph>\<open>ascending\<close> order of
  Elo (the comment in \<open>diskBubbleSortRecords\<close> says decreasing), so that the lowest ratings come
  first, and names stay unique.\<close>

theorem leaderboard_update_sorted:
  assumes "leaderboard_ok s" "wf_entry e" "distinct (map entry_name (leaderboard_rows s))"
    "getLeaderboardEntry (entry_name e) s \<noteq> None"
    and "updateLeaderboardEntry e s = (ret, s')"
  shows "ret = 0 \<and> sorted (map le_elo (leaderboard_rows s'))
    \<and> mset (leaderboard_rows s')
        = mset (map (\<lambda>x. if entry_name x = entry_name e then e else x) (leaderboard_rows s))
    \<and> getLeaderboardEntry (entry_name e) s' = Some e
    \<and> leaderboard_ok s' \<and> distinct (map entry_name (leaderboard_rows s'))"
proof -
  have mem: "entry_name e \<in> entry_name ` set (leaderboard_rows s)"
    using assms(4) unfolding leaderboard.get_None_iff [OF assms(1)] by (rule notnotD)
  note upd = leaderboard.upd_map [OF assms(1-3,5)]
  have ret: "ret = 0" using upd(1) assms(4) by (rule iffD2)
  have rows: "leaderboard_rows s'
      = sort_key le_elo (map (\<lambda>x. if entry_name x = entry_name e then e else x) (leaderboard_rows s))"
    using updateLeaderboardEntry_found [OF assms(1-3) mem] unfolding assms(5) by simp
  have "sorted (map le_elo (leaderboard_rows s'))" and "mset (leaderboard_rows s')
      = mset (map (\<lambda>x. if entry_name x = entry_name e then e else x) (leaderboard_rows s))"
    unfolding rows by simp_all
  then show ?thesis using ret upd(2) [OF ret] upd(4,5) by blast
qed

theorem leaderboard_update_sorted_witness:
  "let a = \<lparr>le_username = char_array ''ann'', le_elo = 1200\<rparr>;
       b = \<lparr>le_username = char_array ''bob'', le_elo = 1100\<rparr>;
       s = table_at ''leaderboard.dat'' (map enc_LeaderboardEntry [a, b]);
       s' = snd (updateLeaderboardEntry (a\<lparr>le_elo := 1225\<rparr>) s)
   in sorted (map le_elo (leaderboard_rows s')) \<and> getLeaderboardEntry ''ann'' s' = Some (a\<lparr>le_elo := 1225\<rparr>)"
proof -
  define a where "a = \<lparr>le_username = char_array ''ann'', le_elo = 1200\<rparr>"
  define b where "b = \<lparr>le_username = char_array ''bob'', le_elo = 1100\<rparr>"
  define s where "s = table_at ''leaderboard.dat'' (map enc_LeaderboardEntry [a, b])"
  have wf: "wf_entry a" "wf_entry b" "wf_entry (a\<lparr>le_elo := 1225\<rparr>)"
    and names: "entry_name a = ''ann''" "entry_name b = ''bob''" "entry_name (a\<lparr>le_elo := 1225\<rparr>) = ''ann''"
    by (simp_all add: a_def b_def wf_entry_def wf_LeaderboardEntry_def elo_sane_def no_nul_def
        int_range_def entry_name_def)
  have ok: "leaderboard_ok s" "leaderboard_rows s = [a, b]"
    using leaderboard_file.table_at_ok [of "[a, b]"] wf
    by (simp_all add: leaderboard_ok_def leaderboard_rows_def s_def)
  have some: "getLeaderboardEntry ''ann'' s \<noteq> None"
    using leaderboard.get_find [OF ok(1), of "''ann''"] ok(2) names by simp
  obtain ret s' where upd: "updateLeaderboardEntry (a\<lparr>le_elo := 1225\<rparr>) s = (ret, s')" by (metis surj_pair)
  have "sorted (map le_elo (leaderboard_rows s')) \<and> getLeaderboardEntry ''ann'' s' = Some (a\<lparr>le_elo := 1225\<rparr>)"
    using leaderboard_update_sorted [OF ok(1) wf(3) _ _ upd] ok(2) names some by simp
  then show ?thesis using upd by (simp add: Let_def s_def a_def b_def)
qed

end
