(* ===== verification/FileTransfer.thy ===== *)
theory FileTransfer
  imports DatabaseRefinement Codes
begin

text \<open>
  \<open>Utility/fileTransfer.c\<close>: sending a file with an 8-byte length header in chunks of 1024 bytes,
  receiving it, reading a pipe into a bounded buffer, and the judge's comparison of two files. The
  loops on regular files recurse on the content that is left, the loops on sockets on the events
  that are left.
\<close>

definition MAX_FILE_SIZE :: int where "MAX_FILE_SIZE = 10000000"

definition getFileSize :: "bytes \<Rightarrow> 'a os_scheme \<Rightarrow> int" where
  "getFileSize filePath s = (case files s filePath of
     None \<Rightarrow> -1
   | Some c \<Rightarrow> if int (length c) > MAX_FILE_SIZE then -1 else int (length c))"

section \<open>Sending\<close>

text \<open>\<open>while(totalSent < bytesRead)\<close>: writes what is left until the chunk is out or a write fails.\<close>

function sendAll :: "bytes \<Rightarrow> ostream \<Rightarrow> int \<times> ostream" where
  "sendAll chunk w =
     (if chunk = [] then (0, w)
      else let (sent, w') = sock_write chunk w
           in if sent < 0 then (-1, w') else sendAll (drop (nat sent) chunk) w')"
  by auto

termination
  by (relation "measure (\<lambda>(chunk, w). length chunk + length (ocaps w))")
    (auto simp: sock_write_def split: list.splits if_splits)

function sendChunks :: "bytes \<Rightarrow> ostream \<Rightarrow> int \<times> ostream" where
  "sendChunks c w =
     (if c = [] then (0, w)
      else let (r, w') = sendAll (take 1024 c) w
           in if r < 0 then (-1, w') else sendChunks (drop 1024 c) w')"
  by auto

termination
  by (relation "measure (\<lambda>(c, w). length c)") auto

definition sendFile :: "bytes \<Rightarrow> int \<Rightarrow> 'a os_scheme \<Rightarrow> ostream \<Rightarrow> int \<times> ostream" where
  "sendFile filePath fileSize s w = (case files s filePath of
     None \<Rightarrow> (-1, w)
   | Some c \<Rightarrow>
       let (r, w1) = sock_write (enc_ll fileSize) w
       in if r < 0 then (-1, w1) else sendChunks c w1)"

section \<open>Receiving\<close>

text \<open>\<open>while(bytesReceived < fileSize)\<close>: \<open>acc\<close> is what has been written to the file so far.\<close>

function receiveLoop :: "int \<Rightarrow> bytes \<Rightarrow> event list \<Rightarrow> int \<times> bytes \<times> event list" where
  "receiveLoop fileSize acc es =
     (if int (length acc) < fileSize then
        let remaining = fileSize - int (length acc);
            toRead = (if remaining < 1024 then nat remaining else 1024);
            (bytesRead, bs, es') = sock_read toRead es
        in if bytesRead \<le> 0 then (-1, acc, es')
           else receiveLoop fileSize (acc @ bs) es'
      else (0, acc, es))"
  by auto

termination
  by (relation "measure (\<lambda>(fileSize, acc, es). nat (fileSize - int (length acc)))")
    (auto dest: sock_read_pos_sym)

definition receiveFile :: "bytes \<Rightarrow> 'a os_scheme \<Rightarrow> event list \<Rightarrow> int \<times> 'a os_scheme \<times> event list" where
  "receiveFile savePath s es =
     (let (r, hdr, es1) = sock_read 8 es
      in if r < 0 then (-1, s, es1)
         else let fileSize = dec_ll (hdr @ drop (length hdr) (malloc s 8))
              in if \<not> creatable s savePath then (-1, s, es1)
                 else let (ret, content, es2) = receiveLoop fileSize [] es1
                      in (ret, put_file savePath content s, es2))"

section \<open>Deleting and showing files\<close>

definition deleteFile :: "bytes \<Rightarrow> 'a os_scheme \<Rightarrow> int \<times> 'a os_scheme" where
  "deleteFile filePath s = remove_file filePath s"

text \<open>\<open>deleteMultipleFiles(n, p1, ..., pn)\<close> takes its variable arguments as a list.\<close>

fun deleteMultipleFiles :: "bytes list \<Rightarrow> 'a os_scheme \<Rightarrow> int \<times> 'a os_scheme" where
  "deleteMultipleFiles [] s = (SUCCESS, s)"
| "deleteMultipleFiles (p # ps) s =
     (let (r, s1) = deleteFile p s;
          (result, s2) = deleteMultipleFiles ps s1
      in (if r < 0 then FAILURE else result, s2))"

text \<open>The second component is what \<open>readFile\<close> writes to the standard output.\<close>

definition readFile :: "bytes \<Rightarrow> 'a os_scheme \<Rightarrow> int \<times> bytes" where
  "readFile filePath s = (case files s filePath of None \<Rightarrow> (-1, []) | Some c \<Rightarrow> (0, c))"

section \<open>Reading a pipe into a bounded buffer\<close>

text \<open>The loop \<open>while(space_left > 0)\<close>: \<open>None\<close> is the return on an interrupted read, otherwise the
  bytes read; the second component is what the buffer received.\<close>

function pipeLoop :: "nat \<Rightarrow> bytes \<Rightarrow> event list \<Rightarrow> bool \<times> bytes" where
  "pipeLoop space_left acc es =
     (if 0 < space_left then
        let (k, bs, es') = sock_read space_left es
        in if k < 0 \<and> (case es of ReadIntr # _ \<Rightarrow> True | _ \<Rightarrow> False) then (False, acc)
           else if k \<le> 0 then (True, acc)
           else pipeLoop (space_left - nat k) (acc @ bs) es'
      else (True, acc))"
  by auto

termination
  by (relation "measure (\<lambda>(space_left, acc, es). space_left)")
    (auto dest: sock_read_pos_sym)

definition readPipe :: "event list \<Rightarrow> bytes \<Rightarrow> int \<Rightarrow> bytes \<Rightarrow> int \<times> bytes" where
  "readPipe es buffer max_buffer_size prefix =
     (if max_buffer_size \<le> 0 then (0, buffer)
      else let n = nat max_buffer_size;
               prefix_len = (if n \<le> length prefix then n - 1 else length prefix);
               buffer1 = overwrite 0 (take (n - 1) prefix @ [CHR 0x00]) buffer;
               space_left = n - prefix_len - 1
           in if space_left = 0 then (0, buffer1)
              else let (fine, bs) = pipeLoop space_left [] es
                   in if \<not> fine then (-1, overwrite prefix_len bs buffer1)
                      else if bs = [] then (0, buffer1)
                      else (int (length bs), overwrite prefix_len (bs @ [CHR 0x00]) buffer1))"

section \<open>Comparing two files\<close>

definition isspace :: "char \<Rightarrow> bool" where
  "isspace c \<longleftrightarrow> c \<in> {CHR 0x20, CHR 0x09, CHR 0x0A, CHR 0x0B, CHR 0x0C, CHR 0x0D}"

text \<open>\<open>do { bytesRead = read(fd, &c, 1); } while(bytesRead > 0 && isspace(c))\<close>.\<close>

fun nextChar :: "bytes \<Rightarrow> (char \<times> bytes) option" where
  "nextChar [] = None"
| "nextChar (c # cs) = (if isspace c then nextChar cs else Some (c, cs))"

lemma nextChar_length: "nextChar cs = Some (c, cs') \<Longrightarrow> length cs' < length cs"
  by (induction cs rule: nextChar.induct) (auto split: if_splits)

function compareLoop :: "bytes \<Rightarrow> bytes \<Rightarrow> int" where
  "compareLoop f1 f2 = (case (nextChar f1, nextChar f2) of
     (None, None) \<Rightarrow> SUCCESS
   | (Some (c1, f1'), Some (c2, f2')) \<Rightarrow> if c1 \<noteq> c2 then FAILURE else compareLoop f1' f2'
   | _ \<Rightarrow> FAILURE)"
  by auto

termination
  by (relation "measure (\<lambda>(f1, f2). length f1)") (auto dest: nextChar_length [OF sym])

definition compareFiles :: "bytes \<Rightarrow> bytes \<Rightarrow> 'a os_scheme \<Rightarrow> int" where
  "compareFiles file1 file2 s = (case (files s file1, files s file2) of
     (Some c1, Some c2) \<Rightarrow> compareLoop c1 c2
   | _ \<Rightarrow> JUDGE_ERROR)"

section \<open>A transfer over a stream that loses nothing\<close>

declare sendAll.simps [simp del] sendChunks.simps [simp del] receiveLoop.simps [simp del]
  pipeLoop.simps [simp del] compareLoop.simps [simp del]

definition no_write_error :: "ostream \<Rightarrow> bool" where
  "no_write_error w \<longleftrightarrow> (\<forall>c \<in> set (ocaps w). 0 \<le> c)"

lemma sock_write_ok:
  assumes "no_write_error w" "sock_write bs w = (k, w')"
  shows "0 \<le> k \<and> odata w' = odata w @ take (nat k) bs \<and> no_write_error w'
    \<and> length (drop (nat k) bs) + length (ocaps w') \<le> length bs + length (ocaps w)"
  using assms by (auto simp: sock_write_def no_write_error_def min_def split: list.splits if_splits)

lemma sendAll_ok:
  assumes "no_write_error w"
  shows "\<exists>w'. sendAll bs w = (0, w') \<and> odata w' = odata w @ bs \<and> no_write_error w'"
  using assms
proof (induction bs w rule: sendAll.induct)
  case (1 bs w)
  obtain k w1 where wr: "sock_write bs w = (k, w1)" by (metis surj_pair)
  note ok = sock_write_ok [OF "1.prems" wr]
  show ?case
  proof (cases "bs = []")
    case True
    then show ?thesis using "1.prems" by (simp add: sendAll.simps)
  next
    case False
    have "\<exists>w'. sendAll (drop (nat k) bs) w1 = (0, w') \<and> odata w' = odata w1 @ drop (nat k) bs \<and> no_write_error w'"
      using "1.IH" [OF False wr [symmetric] refl] ok by simp
    then show ?thesis using False wr ok by (auto simp: sendAll.simps [of bs])
  qed
qed

lemma sendChunks_ok:
  assumes "no_write_error w"
  shows "\<exists>w'. sendChunks c w = (0, w') \<and> odata w' = odata w @ c \<and> no_write_error w'"
  using assms
proof (induction c w rule: sendChunks.induct)
  case (1 c w)
  show ?case
  proof (cases "c = []")
    case True
    then show ?thesis using "1.prems" by (simp add: sendChunks.simps)
  next
    case False
    obtain w1 where w1: "sendAll (take 1024 c) w = (0, w1)" "odata w1 = odata w @ take 1024 c" "no_write_error w1"
      using sendAll_ok [OF "1.prems"] by blast
    have "\<exists>w'. sendChunks (drop 1024 c) w1 = (0, w') \<and> odata w' = odata w1 @ drop 1024 c \<and> no_write_error w'"
      by (rule "1.IH" [OF False w1(1) [symmetric] refl _ w1(3)]) simp
    then show ?thesis using False w1 by (auto simp: sendChunks.simps [of c])
  qed
qed

lemma sock_read_clean:
  assumes "clean es" "sock_read n es = (k, bs, es')" "0 < n"
  shows "k = int (length bs) \<and> stream es = bs @ stream es' \<and> clean es' \<and> length bs \<le> n
    \<and> (bs = [] \<longleftrightarrow> stream es = [])"
  using assms by (cases "(n, es)" rule: sock_read.cases) auto

lemma receiveLoop_step:
  assumes "int (length acc) < n" "sock_read (if n - int (length acc) < 1024 then nat (n - int (length acc)) else 1024) es
      = (k, bs, es1)"
  shows "receiveLoop n acc es = (if k \<le> 0 then (-1, acc, es1) else receiveLoop n (acc @ bs) es1)"
  using assms by (subst receiveLoop.simps) (simp only: Let_def if_True case_prod_conv)

lemma receiveLoop_clean:
  assumes "clean es"
  shows "\<exists>es'. receiveLoop n acc es
      = (if n \<le> int (length acc) + int (length (stream es)) then 0 else -1,
         acc @ take (nat (n - int (length acc))) (stream es), es')
    \<and> clean es' \<and> stream es' = drop (nat (n - int (length acc))) (stream es)"
  using assms
proof (induction n acc es rule: receiveLoop.induct)
  case (1 n acc es)
  define m where "m = (if n - int (length acc) < 1024 then nat (n - int (length acc)) else 1024)"
  obtain k bs es1 where rd: "sock_read m es = (k, bs, es1)" by (metis surj_pair)
  show ?case
  proof (cases "int (length acc) < n")
    case False
    then show ?thesis using "1.prems" by (simp add: receiveLoop.simps)
  next
    case True
    then have "0 < m" by (simp add: m_def)
    note rdc = sock_read_clean [OF "1.prems" rd this]
    have m_le: "m \<le> nat (n - int (length acc))" by (auto simp: m_def)
    show ?thesis
    proof (cases "k \<le> 0")
      case True
      have "k = int (length bs)" using rdc by blast
      then have bs: "bs = []" using True by simp
      then have st: "stream es = []" using rdc by blast
      have "stream es = bs @ stream es1" using rdc by blast
      then have nil: "stream es = []" "bs = []" "stream es1 = []" using bs st by simp_all
      have "clean es1" using rdc by blast
      moreover have "receiveLoop n acc es = (-1, acc, es1)"
        using True receiveLoop_step [OF \<open>int (length acc) < n\<close> rd [unfolded m_def]] by simp
      ultimately show ?thesis using nil \<open>int (length acc) < n\<close> by simp
    next
      case False
      have len: "length bs \<le> nat (n - int (length acc))" using rdc m_le by simp
      have IH: "\<exists>es'. receiveLoop n (acc @ bs) es1
          = (if n \<le> int (length (acc @ bs)) + int (length (stream es1)) then 0 else -1,
             (acc @ bs) @ take (nat (n - int (length (acc @ bs)))) (stream es1), es')
        \<and> clean es' \<and> stream es' = drop (nat (n - int (length (acc @ bs)))) (stream es1)"
        by (rule "1.IH" [OF True refl m_def refl rd [symmetric] refl False]) (use rdc in blast)
      have sub: "nat (n - int (length (acc @ bs))) = nat (n - int (length acc)) - length bs" by simp
      have tk: "take (nat (n - int (length acc))) (stream es)
          = bs @ take (nat (n - int (length acc)) - length bs) (stream es1)"
        and dr: "drop (nat (n - int (length acc))) (stream es)
          = drop (nat (n - int (length acc)) - length bs) (stream es1)"
        using rdc len by simp_all
      have tot: "int (length (acc @ bs)) + int (length (stream es1)) = int (length acc) + int (length (stream es))"
        using rdc by simp
      have eq: "receiveLoop n acc es = receiveLoop n (acc @ bs) es1"
        using False receiveLoop_step [OF True rd [unfolded m_def]] by simp
      show ?thesis using IH unfolding eq sub tk dr tot by simp
    qed
  qed
qed

definition header_whole :: "event list \<Rightarrow> bool" where
  "header_whole es \<longleftrightarrow> (case es of Data c # _ \<Rightarrow> 8 \<le> length c | _ \<Rightarrow> False)"

lemma receiveFile_clean:
  assumes "clean es" "header_whole es" "creatable s path" "stream es = enc_ll n @ d"
    "- (2 ^ 63) \<le> n" "n < 2 ^ 63"
  shows "\<exists>es'. receiveFile path s es
      = (if n \<le> int (length d) then 0 else -1, put_file path (take (nat n) d) s, es')
    \<and> clean es' \<and> stream es' = drop (nat n) d"
proof -
  obtain k hdr es1 where rd: "sock_read 8 es = (k, hdr, es1)" by (metis surj_pair)
  have hdr8: "length hdr = 8"
    using assms(2) rd by (cases "(8 :: nat, es)" rule: sock_read.cases) (auto simp: header_whole_def)
  note rdc = sock_read_clean [OF assms(1) rd]
  have eq: "hdr @ stream es1 = enc_ll n @ d" using rdc assms(4) by simp
  have hdr: "hdr = enc_ll n" and s1: "stream es1 = d"
    using append_eq_append_conv [THEN iffD1, OF _ eq] hdr8 by simp_all
  obtain es' where loop: "receiveLoop n [] es1 = (if n \<le> int (length d) then 0 else -1, take (nat n) d, es')"
    "clean es'" "stream es' = drop (nat n) d"
    using receiveLoop_clean [of es1 n "[]"] rdc s1 by auto
  have "dec_ll (hdr @ drop (length hdr) (malloc s 8)) = n" using hdr hdr8 assms(5,6) by simp
  moreover have "\<not> k < 0" using rdc by simp
  ultimately have "receiveFile path s es
      = (if n \<le> int (length d) then 0 else -1, put_file path (take (nat n) d) s, es')"
    using rd assms(3) loop(1) by (simp add: receiveFile_def)
  then show ?thesis using loop(2,3) by blast
qed

section \<open>Pipes and comparison\<close>

lemma pipeLoop_clean:
  assumes "clean es"
  shows "pipeLoop n acc es = (True, acc @ take n (stream es))"
  using assms
proof (induction n acc es rule: pipeLoop.induct)
  case (1 n acc es)
  obtain k bs es1 where rd: "sock_read n es = (k, bs, es1)" by (metis surj_pair)
  show ?case
  proof (cases "0 < n")
    case False
    then show ?thesis by (simp add: pipeLoop.simps)
  next
    case True
    note rdc = sock_read_clean [OF "1.prems" rd True]
    then have k: "k = int (length bs)" by blast
    have step: "pipeLoop n acc es = (if k \<le> 0 then (True, acc) else pipeLoop (n - nat k) (acc @ bs) es1)"
      using True k rd by (subst pipeLoop.simps) simp
    show ?thesis
    proof (cases "k \<le> 0")
      case True
      then have "bs = []" using k by simp
      then have "stream es = []" using rdc by blast
      then show ?thesis using step True by simp
    next
      case False
      have "pipeLoop (n - nat k) (acc @ bs) es1 = (True, (acc @ bs) @ take (n - nat k) (stream es1))"
        by (rule "1.IH" [OF True refl rd [symmetric] refl _ False]) (use k rdc in auto)
      moreover have "take n (stream es) = bs @ take (n - nat k) (stream es1)" using rdc k by simp
      ultimately show ?thesis using step False by simp
    qed
  qed
qed

lemma nextChar_filter:
  "filter (\<lambda>c. \<not> isspace c) cs = (case nextChar cs of None \<Rightarrow> []
     | Some (c, cs') \<Rightarrow> c # filter (\<lambda>c. \<not> isspace c) cs')"
  by (induction cs rule: nextChar.induct) auto

lemma compareLoop_filter:
  "compareLoop f1 f2 = (if filter (\<lambda>c. \<not> isspace c) f1 = filter (\<lambda>c. \<not> isspace c) f2 then SUCCESS else FAILURE)"
proof (induction f1 f2 rule: compareLoop.induct)
  case (1 f1 f2)
  note flt = nextChar_filter [of f1] nextChar_filter [of f2]
  show ?case
  proof (cases "nextChar f1 = None \<or> nextChar f2 = None")
    case True
    then show ?thesis using flt by (auto simp: compareLoop.simps [of f1 f2] split: option.splits)
  next
    case False
    then obtain c1 g1 c2 g2 where n: "nextChar f1 = Some (c1, g1)" "nextChar f2 = Some (c2, g2)" by auto
    show ?thesis
    proof (cases "c1 = c2")
      case True
      then show ?thesis using "1.IH" n flt by (simp add: compareLoop.simps [of f1 f2])
    next
      case False
      then show ?thesis using n flt by (simp add: compareLoop.simps [of f1 f2])
    qed
  qed
qed

lemma overwrite_in_front:
  "length bs \<le> length mem \<Longrightarrow> overwrite 0 bs mem = bs @ drop (length bs) mem"
  by (simp add: overwrite_def)

lemma overwrite_after:
  "overwrite (length p) bs (p @ q) = p @ bs @ drop (length bs) q"
  by (simp add: overwrite_def)

lemma deleteMultipleFiles_files:
  "files (snd (deleteMultipleFiles ps s)) p = (if p \<in> set ps then None else files s p)"
proof (induction ps arbitrary: s)
  case (Cons q ps)
  have "files (snd (deleteFile q s)) p = (if p = q then None else files s p)"
    by (auto simp: deleteFile_def remove_file_def)
  with Cons.IH [of "snd (deleteFile q s)"] show ?case by (auto simp: case_prod_beta Let_def)
qed simp

lemma pipeLoop_length: "length (snd (pipeLoop n acc es)) \<le> length acc + n"
proof (induction n acc es rule: pipeLoop.induct)
  case (1 n acc es)
  obtain k bs es1 where rd: "sock_read n es = (k, bs, es1)" by (metis surj_pair)
  show ?case
  proof (cases "0 < n \<and> 0 < k")
    case True
    then have k: "k = int (length bs)" "length bs \<le> n"
      using sock_read_pos [OF rd] sock_read_le [OF rd] by simp_all
    have "length (snd (pipeLoop (n - nat k) (acc @ bs) es1)) \<le> length (acc @ bs) + (n - nat k)"
      by (rule "1.IH" [OF _ refl rd [symmetric] refl]) (use True in auto)
    then show ?thesis using True k rd by (subst pipeLoop.simps) simp
  next
    case False
    then show ?thesis using rd by (subst pipeLoop.simps) auto
  qed
qed

text \<open>Whatever happens on the pipe, a positive result means that the buffer holds the prefix, the
  bytes read and a terminator, inside the limit.\<close>

lemma readPipe_positive:
  assumes "readPipe es buffer m prefix = (k, b)" "0 < k" "length buffer = nat m"
  shows "\<exists>bs rest. b = prefix @ bs @ CHR 0x00 # rest \<and> bs \<noteq> [] \<and> length b = nat m"
proof -
  have m: "0 < m" using assms(1,2) by (simp add: readPipe_def split: if_splits)
  define n where "n = nat m"
  have "length prefix < n - 1"
  proof (rule ccontr)
    assume "\<not> length prefix < n - 1"
    then have sp0: "nat m - (if nat m \<le> length prefix then nat m - 1 else length prefix) - 1 = 0"
      by (auto simp: n_def)
    have "k = 0" using assms(1) m unfolding readPipe_def Let_def sp0 by simp
    then show False using assms(2) by simp
  qed
  then have pl: "length prefix < n - 1" .
  define sp where "sp = n - 1 - length prefix"
  define buffer1 where "buffer1 = overwrite 0 (prefix @ [CHR 0x00]) buffer"
  obtain fine bs where loop: "pipeLoop sp [] es = (fine, bs)" by (metis surj_pair)
  have len: "length bs \<le> sp" using pipeLoop_length [of sp "[]" es] loop by simp
  have eq: "(k, b) = (if \<not> fine then (-1, overwrite (length prefix) bs buffer1)
      else if bs = [] then (0, buffer1)
      else (int (length bs), overwrite (length prefix) (bs @ [CHR 0x00]) buffer1))"
  proof -
    have "\<not> nat m \<le> length prefix" using pl unfolding n_def by linarith
    then have plen: "(if nat m \<le> length prefix then nat m - 1 else length prefix) = length prefix"
      by (simp only: if_False)
    have tk: "take (nat m - 1) prefix = prefix"
      using pl unfolding n_def by (intro take_all) linarith
    have sp: "nat m - length prefix - 1 = sp" "sp \<noteq> 0"
      using pl unfolding n_def sp_def by linarith+
    show ?thesis
      using assms(1) m sp(2) unfolding readPipe_def Let_def plen tk sp(1) loop buffer1_def by simp
  qed
  then have bs: "bs \<noteq> []" "b = overwrite (length prefix) (bs @ [CHR 0x00]) buffer1"
    using assms(2) by (auto split: if_splits)
  have "buffer1 = prefix @ CHR 0x00 # drop (Suc (length prefix)) buffer"
    unfolding buffer1_def using pl assms(3) by (subst overwrite_in_front) (auto simp: n_def)
  then have "b = prefix @ bs @ CHR 0x00 # drop (length bs) (drop (Suc (length prefix)) buffer)"
    using bs by (simp add: overwrite_after)
  moreover from this have "length b = nat m"
    using len pl assms(3) by (auto simp: sp_def n_def)
  ultimately show ?thesis using bs(1) by blast
qed

section \<open>What file transfer promises\<close>

text \<open>C17: a file of at most 10 MB sent with its size and received at the other end arrives
  unchanged for every cutting of the stream and every sequence of short writes that leave the 8-byte header in one
  piece, when no read or write fails (a header in two pieces breaks the code); the bytes
  behind it stay in the stream for the next read.\<close>

theorem transfer_roundtrip:
  assumes "files s1 p1 = Some c" "getFileSize p1 s1 = n" "n \<noteq> -1"
    and "no_write_error w" "ocaps w = [] \<or> 8 \<le> hd (ocaps w)" "odata w = []"
    and "sendFile p1 n s1 w = (r, w')"
    and "clean es" "header_whole es" "stream es = odata w' @ rest" "creatable s2 p2"
  shows "r = 0 \<and> (\<exists>es'. receiveFile p2 s2 es = (0, put_file p2 c s2, es')
    \<and> clean es' \<and> stream es' = rest)"
proof -
  have n: "n = int (length c)" "length c \<le> 10000000"
    using assms(1-3) by (auto simp: getFileSize_def MAX_FILE_SIZE_def split: if_splits)
  obtain k w1 where hd: "sock_write (enc_ll n) w = (k, w1)" by (metis surj_pair)
  have "k = 8"
    using hd assms(5) by (cases "ocaps w") (auto simp: sock_write_def split: if_splits)
  with sock_write_ok [OF assms(4) hd] assms(6)
  have w1: "odata w1 = enc_ll n" "no_write_error w1" by simp_all
  obtain w2 where w2: "sendChunks c w1 = (0, w2)" "odata w2 = odata w1 @ c"
    using sendChunks_ok [OF w1(2)] by blast
  have sent: "r = 0" "odata w' = enc_ll n @ c"
    using assms(1,7) hd \<open>k = 8\<close> w2 w1 by (simp_all add: sendFile_def)
  have "- (2 ^ 63) \<le> n" "n < 2 ^ 63" using n by simp_all
  from receiveFile_clean [of es s2 p2 n "c @ rest", OF assms(8,9,11) _ this] assms(10) sent n(1)
  show ?thesis by auto
qed


theorem transfer_roundtrip_witness:
  "let s = put_file ''a'' ''hello'' (table_at ''t'' []);
       w' = snd (sendFile ''a'' 5 s \<lparr>odata = [], ocaps = [8, 0, 2]\<rparr>);
       es = [Data (take 9 (odata w')), Data (drop 9 (odata w') @ ''next'')]
   in \<exists>es'. receiveFile ''b'' s es = (0, put_file ''b'' ''hello'' s, es') \<and> stream es' = ''next''"
proof -
  define s where "s = put_file ''a'' ''hello'' (table_at ''t'' [])"
  have size: "getFileSize ''a'' s = 5" "files s ''a'' = Some ''hello''" "creatable s ''b''"
    by (simp_all add: getFileSize_def s_def MAX_FILE_SIZE_def table_at_def put_file_def)
  define w' where "w' = snd (sendFile ''a'' 5 s \<lparr>odata = [], ocaps = [8, 0, 2]\<rparr>)"
  have len: "odata w' = enc_ll 5 @ ''hello''" and snd: "sendFile ''a'' 5 s \<lparr>odata = [], ocaps = [8, 0, 2]\<rparr> = (0, w')"
    unfolding w'_def by (simp_all add: sendFile_def size sock_write_def sendChunks.simps sendAll.simps)
  have "\<exists>es'. receiveFile ''b'' s [Data (take 9 (odata w')), Data (drop 9 (odata w') @ ''next'')]
      = (0, put_file ''b'' ''hello'' s, es') \<and> stream es' = ''next''"
    using transfer_roundtrip [OF size(2,1) _ _ _ _ snd, of "[Data (take 9 (odata w')), Data (drop 9 (odata w') @ ''next'')]"
        "''next''" s "''b''"] size(3) len
    by (auto simp: no_write_error_def header_whole_def)
  then show ?thesis by (simp add: Let_def s_def w'_def)
qed

text \<open>a file that cannot be sent desynchronises the stream: \<open>getFileSize\<close> answers \<open>-1\<close> for a file
  over the limit, the callers pass that to \<open>sendFile\<close> unchecked, and the receiver then reports
  success with an empty file while the whole content is still in the stream, to be read as the next
  message.\<close>

theorem oversized_transfer_desync:
  assumes "files s1 p1 = Some c" "int (length c) > MAX_FILE_SIZE"
    and "sendFile p1 (getFileSize p1 s1) s1 \<lparr>odata = [], ocaps = []\<rparr> = (r, w')"
    and "clean es" "header_whole es" "stream es = odata w'" "creatable s2 p2"
  shows "r = 0 \<and> (\<exists>es'. receiveFile p2 s2 es = (0, put_file p2 [] s2, es') \<and> stream es' = c)"
proof -
  have n: "getFileSize p1 s1 = -1" using assms(1,2) by (simp add: getFileSize_def)
  have "no_write_error \<lparr>odata = enc_ll (-1), ocaps = []\<rparr>" by (simp add: no_write_error_def)
  from sendChunks_ok [OF this, of c] assms(1,3) n
  have "r = 0" "odata w' = enc_ll (-1) @ c" by (auto simp: sendFile_def sock_write_def)
  with receiveFile_clean [of es s2 p2 "-1" c, OF assms(4,5,7)] assms(6) show ?thesis by auto
qed

theorem oversized_transfer_desync_witness:
  "let s = put_file ''a'' (replicate 10000001 (CHR ''x'')) (table_at ''t'' []);
       es = [Data (enc_ll (-1) @ replicate 10000001 (CHR ''x''))]
   in \<exists>es'. receiveFile ''b'' s es = (0, put_file ''b'' [] s, es')
      \<and> stream es' = replicate 10000001 (CHR ''x'')"
proof -
  define big where "big = replicate 10000001 (CHR ''x'')"
  define s where "s = put_file ''a'' big (table_at ''t'' [])"
  have f: "files s ''a'' = Some big" "int (length big) > MAX_FILE_SIZE" "creatable s ''b''"
    by (simp_all add: s_def big_def MAX_FILE_SIZE_def table_at_def put_file_def del: replicate.simps)
  have "no_write_error \<lparr>odata = enc_ll (-1), ocaps = []\<rparr>" by (simp add: no_write_error_def)
  from sendChunks_ok [OF this, of big] obtain w'
    where snd: "sendFile ''a'' (getFileSize ''a'' s) s \<lparr>odata = [], ocaps = []\<rparr> = (0, w')" "odata w' = enc_ll (-1) @ big"
    using f(1,2) by (auto simp: sendFile_def sock_write_def getFileSize_def)
  have "\<exists>es'. receiveFile ''b'' s [Data (enc_ll (-1) @ big)] = (0, put_file ''b'' [] s, es') \<and> stream es' = big"
    using oversized_transfer_desync [OF f(1,2) snd(1), of "[Data (enc_ll (-1) @ big)]" s "''b''"] f(3) snd(2)
    by (auto simp: header_whole_def simp flip: length_0_conv)
  then show ?thesis by (simp add: Let_def s_def big_def del: replicate.simps)
qed

text \<open>the judge accepts an output exactly if it has the same characters as the expected one
  after all white space is deleted from both, so that ``1 2'' and ``12'' are equal to it; a missing
  file is a judge error.\<close>

theorem compare_files_correct:
  "compareFiles f1 f2 s = (case (files s f1, files s f2) of
     (Some c1, Some c2) \<Rightarrow>
       if filter (\<lambda>c. \<not> isspace c) c1 = filter (\<lambda>c. \<not> isspace c) c2 then SUCCESS else FAILURE
   | _ \<Rightarrow> JUDGE_ERROR)"
  by (simp add: compareFiles_def compareLoop_filter split: option.split)

lemma readPipe_clean:
  fixes prefix buffer :: bytes
  assumes "clean es" "0 < m" "nat m \<le> length buffer"
  defines "p \<equiv> take (nat m - 1) prefix" and "d \<equiv> take (nat m - 1 - length prefix) (stream es)"
  shows "readPipe es buffer m prefix
    = (int (length d), p @ d @ CHR 0x00 # drop (Suc (length (p @ d))) buffer)"
proof -
  have plen: "(if nat m \<le> length prefix then nat m - 1 else length prefix) = length p"
    using assms(2) by (auto simp: p_def)
  have space: "nat m - length p - 1 = nat m - 1 - length prefix" by (auto simp: p_def)
  have b1: "overwrite 0 (p @ [CHR 0x00]) buffer = p @ CHR 0x00 # drop (Suc (length p)) buffer"
    using assms(2,3) by (subst overwrite_in_front) (auto simp: p_def)
  have pl: "pipeLoop (nat m - 1 - length prefix) [] es = (True, d)"
    using pipeLoop_clean [OF assms(1)] by (simp add: d_def)
  have d0: "d = []" if "nat m - 1 - length prefix = 0" using that by (simp add: d_def)
  have b2: "overwrite (length p) (d @ [CHR 0x00]) (p @ CHR 0x00 # drop (Suc (length p)) buffer)
      = p @ d @ CHR 0x00 # drop (Suc (length (p @ d))) buffer"
    unfolding overwrite_after by (cases d) (simp_all add: add.commute)
  show ?thesis
    using assms(2) unfolding readPipe_def Let_def plen space p_def [symmetric] b1 pl prod.case b2
    by (auto simp: d0)
qed

text \<open>\<open>readPipe\<close> leaves in the buffer the prefix followed by what the pipe delivers, cut to
  \<open>max_buffer_size - 1\<close> characters and terminated, writes nothing at or behind \<open>max_buffer_size\<close>, and
  returns how many bytes of the pipe it stored.\<close>

theorem read_pipe_bounded:
  assumes "clean es" "0 < m" "nat m \<le> length buffer" "no_nul prefix" "no_nul (stream es)"
    and "readPipe es buffer m prefix = (n, buffer')"
  shows "c_str buffer' = take (nat m - 1) (prefix @ stream es)
    \<and> length buffer' = length buffer \<and> drop (nat m) buffer' = drop (nat m) buffer
    \<and> n = int (length (take (nat m - 1 - length prefix) (stream es)))"
proof -
  define p where "p = take (nat m - 1) prefix"
  define d where "d = take (nat m - 1 - length prefix) (stream es)"
  have n: "n = int (length d)" and b: "buffer' = (p @ d) @ CHR 0x00 # drop (Suc (length (p @ d))) buffer"
    using readPipe_clean [OF assms(1-3), of prefix] assms(6) by (simp_all add: p_def d_def)
  have "set p \<subseteq> set prefix" "set d \<subseteq> set (stream es)" unfolding p_def d_def by (rule set_take_subset)+
  then have "no_nul (p @ d)" using assms(4,5) by (auto simp: no_nul_def)
  then have c: "c_str buffer' = p @ d" unfolding b by (rule c_str_append_nul)
  have "length (p @ d) < nat m" using assms(2) by (auto simp: p_def d_def)
  then have "length buffer' = length buffer \<and> drop (nat m) buffer' = drop (nat m) buffer"
    using assms(3) unfolding b by (simp add: drop_Cons' del: drop_append) (auto simp: drop_Cons')
  then show ?thesis using n c by (simp add: p_def d_def)
qed

theorem read_pipe_bounded_witness:
  "c_str (snd (readPipe [Data ''ab'', Data ''cdef''] (replicate 10 (CHR ''?'')) 8 ''E:'')) = ''E:abcde''"
proof -
  obtain n b where r: "readPipe [Data ''ab'', Data ''cdef''] (replicate 10 (CHR ''?'')) 8 ''E:'' = (n, b)"
    by (metis surj_pair)
  from read_pipe_bounded [OF _ _ _ _ _ r] show ?thesis using r by (simp add: no_nul_def)
qed

end
