(* ===== verification/Floating.thy ===== *)
theory Floating
  imports Complex_Main
begin

text \<open>
  IEEE arithmetic as exact rational arithmetic followed by rounding to \<open>p\<close> significant bits, to
  the nearest and ties to even: \<open>double\<close> has \<open>p = 53\<close>, the x86-64 \<open>long double\<close> \<open>p = 64\<close>. Overflow,
  underflow and the special values are outside the range of numbers the code computes with and
  are not modelled. \<open>c_round\<close> is the C library's \<open>round\<close> (ties away from zero) and \<open>c_trunc\<close> the
  conversion to an integer.
\<close>

fun ndigits :: "nat \<Rightarrow> nat \<Rightarrow> nat" where
  "ndigits B n = (if B \<le> 1 \<or> n = 0 then 0 else Suc (ndigits B (n div B)))"

declare ndigits.simps [simp del]

text \<open>The exponent of a number written with one digit in front of the point, in base \<open>B\<close>.\<close>

definition exponent_in :: "nat \<Rightarrow> rat \<Rightarrow> int" where
  "exponent_in B x = (let (a, b) = quotient_of \<bar>x\<bar>;
       e = int (ndigits B (nat a)) - int (ndigits B (nat b))
     in if of_nat B powi e \<le> \<bar>x\<bar> then e else e - 1)"

abbreviation rat_exponent :: "rat \<Rightarrow> int" where
  "rat_exponent \<equiv> exponent_in 2"

definition round_half_even :: "rat \<Rightarrow> int" where
  "round_half_even y = (let f = \<lfloor>y\<rfloor>; d = y - of_int f
     in if d < 1 / 2 then f else if 1 / 2 < d then f + 1 else if even f then f else f + 1)"

definition round_sig :: "nat \<Rightarrow> rat \<Rightarrow> rat" where
  "round_sig p x = (if x = 0 then 0
     else let s = int p - 1 - rat_exponent x
          in of_int (round_half_even (x * 2 powi s)) / 2 powi s)"

definition double :: "rat \<Rightarrow> rat" where "double x = round_sig 53 x"
definition long_double :: "rat \<Rightarrow> rat" where "long_double x = round_sig 64 x"

definition c_trunc :: "rat \<Rightarrow> int" where
  "c_trunc x = (if x < 0 then \<lceil>x\<rceil> else \<lfloor>x\<rfloor>)"

definition c_round :: "rat \<Rightarrow> int" where
  "c_round x = (if x < 0 then \<lceil>x - 1 / 2\<rceil> else \<lfloor>x + 1 / 2\<rfloor>)"

section \<open>The exponent\<close>

lemma ndigits_lower: "1 < B \<Longrightarrow> 0 < n \<Longrightarrow> B ^ (ndigits B n - 1) \<le> n"
proof (induction B n rule: ndigits.induct)
  case (1 B n)
  show ?case
  proof (cases "n div B = 0")
    case True
    then have "ndigits B (n div B) = 0" by (simp only: True ndigits.simps [of B 0]) simp
    then show ?thesis using "1.prems" by (simp add: ndigits.simps [of B n])
  next
    case False
    then have IH: "B ^ (ndigits B (n div B) - 1) \<le> n div B" using 1 by simp
    have nz: "0 < ndigits B (n div B)" using False "1.prems" by (simp add: ndigits.simps [of B "n div B"])
    have "ndigits B n = Suc (ndigits B (n div B))" using "1.prems" by (simp add: ndigits.simps [of B n])
    then have "B ^ (ndigits B n - 1) = B * B ^ (ndigits B (n div B) - 1)"
      using nz by (metis Suc_pred diff_Suc_1 power_Suc)
    also have "\<dots> \<le> B * (n div B)" using IH by simp
    also have "\<dots> \<le> n" by simp
    finally show ?thesis .
  qed
qed

lemma ndigits_upper: "1 < B \<Longrightarrow> n < B ^ ndigits B n"
proof (induction B n rule: ndigits.induct)
  case (1 B n)
  show ?case
  proof (cases "n = 0")
    case False
    then have "n div B < B ^ ndigits B (n div B)" using 1 by simp
    then have "n < B * B ^ ndigits B (n div B)" using "1.prems" by (simp add: div_less_iff_less_mult mult.commute)
    then show ?thesis using False "1.prems" by (simp add: ndigits.simps [of B n])
  qed (use "1.prems" in simp)
qed

lemma ndigits_pos: "1 < B \<Longrightarrow> 0 < n \<Longrightarrow> 0 < ndigits B n"
  by (simp add: ndigits.simps [of B n])

lemma ratio_of_digits:
  assumes "1 < B" "0 < a" "0 < b"
  shows "of_nat B powi (int (ndigits B (nat a)) - int (ndigits B (nat b)) - 1) \<le> (of_int a / of_int b :: rat)"
    "(of_int a / of_int b :: rat) < of_nat B powi (int (ndigits B (nat a)) - int (ndigits B (nat b)) + 1)"
proof -
  let ?m = "ndigits B (nat a)" and ?k = "ndigits B (nat b)"
  have B: "(0::rat) < of_nat B" "(of_nat B :: rat) \<noteq> 0" using assms(1) by simp_all
  have pos: "0 < ?m" "0 < ?k" using assms by (simp_all add: ndigits_pos)
  have cast: "of_nat (nat a) = (of_int a :: rat)" "of_nat (nat b) = (of_int b :: rat)" using assms by simp_all
  have "of_nat (B ^ (?m - 1)) \<le> (of_nat (nat a) :: rat)" "of_nat (B ^ (?k - 1)) \<le> (of_nat (nat b) :: rat)"
    unfolding of_nat_le_iff using ndigits_lower [OF assms(1)] assms(2,3) by simp_all
  then have la: "of_nat B ^ (?m - 1) \<le> (of_int a :: rat)" "of_nat B ^ (?k - 1) \<le> (of_int b :: rat)"
    unfolding cast of_nat_power by simp_all
  have "of_nat (nat a) < (of_nat (B ^ ?m) :: rat)" "of_nat (nat b) < (of_nat (B ^ ?k) :: rat)"
    unfolding of_nat_less_iff using ndigits_upper [OF assms(1)] by simp_all
  then have ua: "(of_int a :: rat) < of_nat B ^ ?m" "(of_int b :: rat) < of_nat B ^ ?k"
    unfolding cast of_nat_power by simp_all
  have e: "int ?m - int ?k - 1 = int (?m - 1) - int ?k" "int ?m - int ?k + 1 = int ?m - int (?k - 1)" using pos by simp_all
  have "of_nat B powi (int ?m - int ?k - 1) = (of_nat B :: rat) ^ (?m - 1) / of_nat B ^ ?k"
    unfolding e using B by (simp add: power_int_diff del: of_nat_diff)
  also have "\<dots> \<le> of_int a / of_int b" using la ua B assms by (intro frac_le) auto
  finally show "of_nat B powi (int ?m - int ?k - 1) \<le> (of_int a / of_int b :: rat)" .
  have "(of_int a / of_int b :: rat) < of_nat B ^ ?m / of_nat B ^ (?k - 1)"
    using la ua B assms by (intro frac_less) auto
  also have "\<dots> = of_nat B powi (int ?m - int ?k + 1)"
    unfolding e using B by (simp add: power_int_diff del: of_nat_diff)
  finally show "(of_int a / of_int b :: rat) < of_nat B powi (int ?m - int ?k + 1)" .
qed

lemma exponent_in_bounds:
  assumes "1 < B" "x \<noteq> 0"
  shows "of_nat B powi exponent_in B x \<le> \<bar>x\<bar>" "\<bar>x\<bar> < of_nat B powi (exponent_in B x + 1)"
proof -
  obtain a b where q: "quotient_of \<bar>x\<bar> = (a, b)" by (cases "quotient_of \<bar>x\<bar>")
  have x: "\<bar>x\<bar> = of_int a / of_int b" and b: "0 < b"
    using quotient_of_div [OF q] quotient_of_denom_pos [OF q] by auto
  have "0 < of_int a / (of_int b :: rat)" using assms(2) unfolding x [symmetric] by simp
  then have a: "0 < a" using b by (simp add: zero_less_divide_iff)
  note r = ratio_of_digits [OF assms(1) a b, folded x]
  define e where "e = int (ndigits B (nat a)) - int (ndigits B (nat b))"
  have "exponent_in B x = (if of_nat B powi e \<le> \<bar>x\<bar> then e else e - 1)" by (simp add: exponent_in_def q e_def Let_def)
  then show "of_nat B powi exponent_in B x \<le> \<bar>x\<bar>" "\<bar>x\<bar> < of_nat B powi (exponent_in B x + 1)"
    using r unfolding e_def [symmetric] by auto
qed

lemma powi_mono_strict:
  assumes "1 < (B::rat)" "B powi i < B powi j"
  shows "i < j"
proof (rule ccontr)
  assume "\<not> i < j"
  then have "B powi j \<le> B powi i" using assms(1) by (intro power_int_increasing) auto
  then show False using assms(2) by simp
qed

lemma exponent_in_unique:
  assumes "1 < B" "of_nat B powi e \<le> \<bar>x\<bar>" "\<bar>x\<bar> < of_nat B powi (e + 1)"
  shows "exponent_in B x = e"
proof -
  have B: "(1::rat) < of_nat B" using assms(1) by simp
  then have "(0::rat) < of_nat B powi e" by (intro zero_less_power_int) simp
  then have "x \<noteq> 0" using assms(2) by auto
  note b = exponent_in_bounds [OF assms(1) this]
  have "exponent_in B x < e + 1" by (rule powi_mono_strict [OF B le_less_trans [OF b(1) assms(3)]])
  moreover have "e < exponent_in B x + 1" by (rule powi_mono_strict [OF B le_less_trans [OF assms(2) b(2)]])
  ultimately show ?thesis by simp
qed

lemma rat_exponent_le: "x \<noteq> 0 \<Longrightarrow> 2 powi rat_exponent x \<le> \<bar>x\<bar>"
  using exponent_in_bounds(1) [of 2 x] by simp

lemma rat_exponent_int:
  assumes "k \<noteq> 0" "\<bar>k\<bar> < 2 ^ p"
  shows "rat_exponent (of_int k) \<le> int p - 1"
proof -
  have "2 powi rat_exponent (of_int k) \<le> (of_int \<bar>k\<bar> :: rat)" using rat_exponent_le [of "of_int k"] assms(1) by simp
  also have "\<dots> < of_int (2 ^ p)" using assms(2) by (simp only: of_int_less_iff)
  also have "\<dots> = 2 powi int p" by simp
  finally have "rat_exponent (of_int k) < int p" by (rule powi_mono_strict [rotated]) simp
  then show ?thesis by simp
qed

section \<open>Rounding\<close>

lemma round_half_even_int [simp]: "round_half_even (of_int k) = k"
  by (simp add: round_half_even_def)

lemma round_half_even_le:
  assumes "y \<le> of_int n"
  shows "round_half_even y \<le> n"
proof (cases "y = of_int n")
  case True
  then show ?thesis by simp
next
  case False
  then have "\<lfloor>y\<rfloor> < n" using assms by (simp add: floor_less_iff)
  then show ?thesis by (auto simp: round_half_even_def Let_def)
qed

lemma round_half_even_ge:
  assumes "of_int n \<le> y"
  shows "n \<le> round_half_even y"
proof -
  have "n \<le> \<lfloor>y\<rfloor>" using assms by (simp add: le_floor_iff)
  then show ?thesis by (auto simp: round_half_even_def Let_def)
qed

lemma round_sig_0 [simp]: "round_sig p 0 = 0"
  by (simp add: round_sig_def)

text \<open>An integer of at most \<open>p\<close> bits is exactly representable.\<close>

lemma round_sig_int:
  assumes "\<bar>k\<bar> < 2 ^ p"
  shows "round_sig p (of_int k) = of_int k"
proof (cases "k = 0")
  case False
  define n where "n = nat (int p - 1 - rat_exponent (of_int k))"
  have s: "int p - 1 - rat_exponent (of_int k) = int n"
    using rat_exponent_int [OF False assms] by (simp add: n_def)
  have "of_int k * 2 powi int n = (of_int (k * 2 ^ n) :: rat)" by simp
  then have "round_half_even (of_int k * 2 powi int n) = k * 2 ^ n" by (metis round_half_even_int)
  then show ?thesis using False by (simp add: round_sig_def s)
qed simp

text \<open>Rounding does not cross zero or a representable integer.\<close>

lemma round_sig_nonneg: "0 \<le> x \<Longrightarrow> 0 \<le> round_sig p x"
proof -
  assume "0 \<le> x"
  have "0 \<le> round_half_even (x * 2 powi k)" for k :: int
    using \<open>0 \<le> x\<close> by (intro round_half_even_ge) simp
  then show ?thesis by (simp add: round_sig_def Let_def)
qed

lemma round_sig_le_int:
  assumes "0 \<le> x" "x \<le> of_int k" "k < 2 ^ p"
  shows "round_sig p x \<le> of_int k"
proof (cases "x = 0")
  case True
  then show ?thesis using assms by simp
next
  case False
  define s where "s = int p - 1 - rat_exponent x"
  have s0: "0 \<le> s"
  proof (rule ccontr)
    assume "\<not> 0 \<le> s"
    then have "int p \<le> rat_exponent x" by (simp add: s_def)
    then have "(2::rat) powi int p \<le> 2 powi rat_exponent x" by (intro power_int_increasing) auto
    also have "\<dots> \<le> x" using rat_exponent_le [OF False] assms(1) by simp
    also have "\<dots> \<le> of_int k" by (rule assms(2))
    finally have "(2::rat) ^ p \<le> of_int k" by simp
    then have "(of_int (2 ^ p) :: rat) \<le> of_int k" by simp
    then show False using assms(3) unfolding of_int_le_iff by simp
  qed
  have "x * 2 powi s \<le> of_int k * 2 powi s" using assms(2) by (intro mult_right_mono) simp_all
  also have "\<dots> = of_int (k * 2 ^ nat s)" using s0 by (simp add: power_int_def)
  finally have "round_half_even (x * 2 powi s) \<le> k * 2 ^ nat s" by (rule round_half_even_le)
  then have "(of_int (round_half_even (x * 2 powi s)) :: rat) \<le> of_int (k * 2 ^ nat s)"
    by (simp only: of_int_le_iff)
  also have "\<dots> = of_int k * 2 powi s" using s0 by (simp add: power_int_def)
  finally show ?thesis using False by (simp add: round_sig_def s_def Let_def divide_le_eq)
qed

lemma round_sig_bounds:
  assumes "0 \<le> x" "x \<le> of_int k" "k < 2 ^ p"
  shows "0 \<le> round_sig p x \<and> round_sig p x \<le> of_int k"
  using round_sig_nonneg [OF assms(1)] round_sig_le_int [OF assms] by blast

lemma round_sig_ge_one:
  assumes "1 \<le> x" "0 < p"
  shows "1 \<le> round_sig p x"
proof -
  have nz: "x \<noteq> 0" using assms by auto
  define s where "s = int p - 1 - rat_exponent x"
  have "(2::rat) powi s \<le> of_int (round_half_even (x * 2 powi s))"
  proof (cases "0 \<le> s")
    case True
    have "of_int (2 ^ nat s) \<le> x * 2 powi s" using True assms by (simp add: power_int_def)
    then have "2 ^ nat s \<le> round_half_even (x * 2 powi s)" by (rule round_half_even_ge)
    then have "(of_int (2 ^ nat s) :: rat) \<le> of_int (round_half_even (x * 2 powi s))"
      by (simp only: of_int_le_iff)
    then show ?thesis using True by (simp add: power_int_def)
  next
    case False
    have "2 powi rat_exponent x * 2 powi s \<le> x * 2 powi s"
      using rat_exponent_le [OF nz] assms by (intro mult_right_mono) simp_all
    moreover have "2 powi rat_exponent x * 2 powi s = (2::rat) powi (int p - 1)"
      by (simp add: s_def flip: power_int_add)
    moreover have "(2::rat) powi (int p - 1) = of_int (2 ^ (p - 1))"
      using assms(2) by (simp add: power_int_def nat_diff_distrib)
    ultimately have "of_int (2 ^ (p - 1)) \<le> x * 2 powi s" by simp
    then have "2 ^ (p - 1) \<le> round_half_even (x * 2 powi s)" by (rule round_half_even_ge)
    then have "1 \<le> round_half_even (x * 2 powi s)" by (smt (verit) one_le_power)
    then have "(1::rat) \<le> of_int (round_half_even (x * 2 powi s))" by simp
    moreover have "(2::rat) powi s \<le> 2 powi 0" using False by (intro power_int_increasing) auto
    ultimately show ?thesis by simp
  qed
  then show ?thesis using nz by (simp add: round_sig_def s_def Let_def le_divide_eq)
qed

section \<open>Reading a number back\<close>

lemma round_half_even_near:
  assumes "\<bar>y - of_int k\<bar> < 1 / 2"
  shows "round_half_even y = k"
proof (cases "of_int k \<le> y")
  case True
  then have "\<lfloor>y\<rfloor> = k" using assms by (simp add: floor_eq_iff)
  then show ?thesis using assms True by (simp add: round_half_even_def)
next
  case False
  then have "\<lfloor>y\<rfloor> = k - 1" using assms by (simp add: floor_eq_iff)
  then show ?thesis using assms False by (auto simp: round_half_even_def Let_def)
qed

lemma round_half_even_error: "\<bar>of_int (round_half_even y) - y\<bar> \<le> 1 / 2"
  using of_int_floor_le [of y] floor_correct [of y] by (auto simp: round_half_even_def Let_def abs_le_iff; linarith)

lemma of_int_gap: "(of_int a :: rat) < of_int b \<Longrightarrow> (of_int a :: rat) \<le> of_int b - 1"
proof -
  assume "(of_int a :: rat) < of_int b"
  then have "a \<le> b - 1" by simp
  then have "(of_int a :: rat) \<le> of_int (b - 1)" by (simp only: of_int_le_iff)
  then show ?thesis by simp
qed

lemma powi_shift: "(2::rat) powi (i + j) = 2 powi i * 2 powi j"
  by (simp add: power_int_add)

lemma exponent_scaled:
  assumes "2 powi e * 2 powi s = (b :: rat)" "b \<le> \<bar>v * 2 powi s\<bar>" "\<bar>v * 2 powi s\<bar> < 2 * b"
  shows "rat_exponent v = e"
proof -
  have c: "(0::rat) < 2 powi s" "\<bar>v * 2 powi s\<bar> = \<bar>v\<bar> * 2 powi s" by (simp_all add: abs_mult)
  have e: "2 powi (e + 1) * 2 powi s = 2 * b" using assms(1) by (simp add: powi_shift)
  have "2 powi e \<le> \<bar>v\<bar>"
    using assms(2) unfolding c(2) assms(1) [symmetric] by (rule mult_right_le_imp_le) (rule c(1))
  moreover have "\<bar>v\<bar> < 2 powi (e + 1)"
    using assms(3) unfolding c(2) e [symmetric] by (rule mult_right_less_imp_less) (rule less_imp_le [OF c(1)])
  ultimately show ?thesis by (intro exponent_in_unique) simp_all
qed

text \<open>A number with a rounding of \<open>p + 1\<close> bits is what every number close enough to it rounds to.\<close>

lemma round_sig_near:
  assumes "round_sig (Suc p) d = d" "d \<noteq> 0" "\<bar>v - d\<bar> * 2 ^ (p + 2) < \<bar>d\<bar>"
  shows "round_sig (Suc p) v = d"
proof -
  define s where "s = int p - rat_exponent d"
  define K where "K = round_half_even (d * 2 powi s)"
  let ?c = "2 powi s :: rat"
  have c: "0 < ?c" and two: "(0::rat) < 2 ^ p" by simp_all
  have "d = of_int K / ?c" using assms(1,2) by (simp add: round_sig_def s_def K_def Let_def)
  then have K: "d * ?c = of_int K" using c by simp
  have pe: "2 powi rat_exponent d * ?c = 2 ^ p" by (simp add: s_def flip: powi_shift)
  have dK: "\<bar>d\<bar> * ?c = \<bar>of_int K\<bar>" using K c by (metis abs_mult abs_of_pos)
  have "2 powi rat_exponent d * ?c \<le> \<bar>d\<bar> * ?c" using exponent_in_bounds(1) [of 2 d] assms(2) c by (intro mult_right_mono) simp_all
  then have Kb1: "2 ^ p \<le> \<bar>of_int K :: rat\<bar>" unfolding pe dK .
  have "\<bar>d\<bar> * ?c < 2 powi (rat_exponent d + 1) * ?c"
    using exponent_in_bounds(2) [of 2 d] assms(2) c by (intro mult_strict_right_mono) simp_all
  also have "2 powi (rat_exponent d + 1) * ?c = 2 * (2 powi rat_exponent d * ?c)" by (simp add: powi_shift)
  finally have Kb2: "\<bar>of_int K :: rat\<bar> < 2 * 2 ^ p" unfolding pe dK .
  note Kb = Kb1 Kb2
  have vd: "\<bar>v - d\<bar> * ?c = \<bar>v * ?c - of_int K\<bar>" using c K by (metis abs_mult abs_of_pos left_diff_distrib)
  have "\<bar>v - d\<bar> * ?c * (4 * 2 ^ p) = \<bar>v - d\<bar> * 2 ^ (p + 2) * ?c" by (simp add: power_add)
  also have "\<dots> < \<bar>d\<bar> * ?c" using assms(3) c by (rule mult_strict_right_mono)
  finally have near: "\<bar>v * ?c - of_int K\<bar> * (4 * 2 ^ p) < \<bar>of_int K\<bar>" unfolding vd dK .
  have half: "\<bar>v * ?c - of_int K\<bar> < 1 / 2"
  proof -
    have "\<bar>v * ?c - of_int K\<bar> * (4 * 2 ^ p) < 1 / 2 * (4 * 2 ^ p)" using near Kb(2) by linarith
    then show ?thesis by (rule mult_right_less_imp_less) simp
  qed
  show ?thesis
  proof (cases "2 ^ p \<le> \<bar>v * ?c\<bar>")
    case True
    have "\<bar>of_int K :: rat\<bar> \<le> 2 * 2 ^ p - 1" using of_int_gap [of "\<bar>K\<bar>" "2 * 2 ^ p"] Kb(2) by simp
    then have "\<bar>v * ?c\<bar> < 2 * 2 ^ p" using half by linarith
    then have "rat_exponent v = rat_exponent d" by (rule exponent_scaled [OF pe True])
    moreover have "v \<noteq> 0" using True two by (metis abs_zero mult_zero_left not_less)
    ultimately show ?thesis using round_half_even_near [OF half] K c
      by (simp add: round_sig_def Let_def s_def [symmetric] nonzero_divide_eq_eq)
  next
    case False
    then have "\<bar>of_int K :: rat\<bar> < 2 ^ p + 1" using half by linarith
    then have Kp: "\<bar>of_int K :: rat\<bar> = 2 ^ p" using of_int_gap [of "\<bar>K\<bar>" "2 ^ p + 1"] Kb(1) by simp
    have q: "\<bar>v * ?c - of_int K\<bar> < 1 / 4"
    proof -
      have "\<bar>v * ?c - of_int K\<bar> * (4 * 2 ^ p) < 1 / 4 * (4 * 2 ^ p)" using near Kp by simp
      then show ?thesis by (rule mult_right_less_imp_less) simp
    qed
    have one: "(1::rat) \<le> 2 ^ p" by simp
    have "2 ^ p \<le> 2 * \<bar>v * ?c\<bar>" using q Kp one by linarith
    moreover have "2 powi (rat_exponent d - 1) * ?c = 2 ^ p / 2" using pe by (simp add: power_int_diff)
    ultimately have e: "rat_exponent v = rat_exponent d - 1" using False by (intro exponent_scaled [of _ s "2 ^ p / 2"]) simp_all
    have "v \<noteq> 0" using \<open>2 ^ p \<le> 2 * \<bar>v * ?c\<bar>\<close> two by (metis abs_zero mult_zero_left mult_zero_right not_less)
    have sc: "v * 2 powi (s + 1) = v * ?c + v * ?c" by (simp add: powi_shift)
    have "\<bar>v * 2 powi (s + 1) - of_int (2 * K)\<bar> < 1 / 2" unfolding sc of_int_mult of_int_numeral using q by linarith
    then have "round_half_even (v * 2 powi (s + 1)) = 2 * K" by (rule round_half_even_near)
    moreover have s: "int (Suc p) - 1 - rat_exponent v = s + 1" using e by (simp add: s_def)
    ultimately have "round_sig (Suc p) v = of_int (2 * K) / 2 powi (s + 1)"
      using \<open>v \<noteq> 0\<close> by (simp add: round_sig_def Let_def s)
    also have "\<dots> = d" using K by (simp add: powi_shift nonzero_divide_eq_eq)
    finally show ?thesis .
  qed
qed

lemma round_sig_half: "round_sig (Suc p) (1 / 2) = 1 / 2"
proof -
  have e: "rat_exponent (1 / 2) = -1"
    by (intro exponent_in_unique) (simp_all add: power_int_minus)
  have pw: "(2::rat) powi (int p + 1) = 2 * 2 ^ p" by (simp add: power_int_def nat_add_distrib)
  have "(2 * 2 ^ p / 2 :: rat) = of_int (2 ^ p)" by simp
  then have "round_half_even (2 * 2 ^ p / 2) = 2 ^ p" by (simp only: round_half_even_int)
  then show ?thesis unfolding round_sig_def e by (simp add: Let_def pw)
qed

lemma double_half [simp]: "double (1 / 2) = 1 / 2" "long_double (1 / 2) = 1 / 2"
  using round_sig_half [of 52] round_sig_half [of 63] by (simp_all add: double_def long_double_def)

end
