(* ===== verification/Elo.thy ===== *)
theory Elo
  imports Floating QueryDatabase
begin

text \<open>
  \<open>Utility/elo.c\<close> and \<open>updateDuelElos\<close> of \<open>Server/server.c\<close>. \<open>pow\<close> is the C library's function; the
  properties assume of it that a power of 10 is not negative and that \<open>pow(10, 0) = 1\<close>. The
  expression of \<open>getExpectedScore\<close> is \<open>double\<close> arithmetic (each operation rounds), the product in
  \<open>calculateEloChange\<close> is \<open>long double\<close> arithmetic, and its result is rounded to \<open>double\<close> when it is
  passed to \<open>round\<close>.
\<close>

definition getExpectedScore :: "(rat \<Rightarrow> rat \<Rightarrow> rat) \<Rightarrow> int \<Rightarrow> int \<Rightarrow> rat" where
  "getExpectedScore pow playerElo opponentElo =
     double (1 / double (1 + pow 10 (double (of_int (wrap32 (opponentElo - playerElo)) / 400))))"

definition calculateEloChange :: "(rat \<Rightarrow> rat \<Rightarrow> rat) \<Rightarrow> int \<Rightarrow> int \<Rightarrow> int \<Rightarrow> int \<Rightarrow> int" where
  "calculateEloChange pow playerElo opponentElo score kFactor =
     (let expectedScore = getExpectedScore pow playerElo opponentElo
      in c_round (double (long_double (of_int kFactor * long_double (of_int score - expectedScore)))))"

text \<open>The two entries are local variables: \<open>malloc s 100\<close> is what their name arrays hold before
  the copy.\<close>

definition updateDuelElos :: "(rat \<Rightarrow> rat \<Rightarrow> rat) \<Rightarrow> bytes \<Rightarrow> bytes \<Rightarrow> 'a os_scheme
    \<Rightarrow> (int \<times> 'a os_scheme) option" where
  "updateDuelElos pow winner loser s =
     (case (getLeaderboardEntry winner s, getLeaderboardEntry loser s) of
        (Some winnerEntry, Some loserEntry) \<Rightarrow> do {
          let winnerElo = le_elo winnerEntry;
          let loserElo = le_elo loserEntry;
          let eloChange = calculateEloChange pow winnerElo loserElo 1 50;
          wname \<leftarrow> strcpy (malloc s 100) winner;
          let s1 = snd (updateLeaderboardEntry
            \<lparr>le_username = wname, le_elo = wrap32 (winnerElo + eloChange)\<rparr> s);
          lname \<leftarrow> strcpy (malloc s1 100) loser;
          let s2 = snd (updateLeaderboardEntry
            \<lparr>le_username = lname, le_elo = wrap32 (loserElo - eloChange)\<rparr> s1);
          Some (SUCCESS, s2)
        }
      | _ \<Rightarrow> Some (FAILURE, s))"

section \<open>The change of rating\<close>

lemma c_round_bounds: "0 \<le> x \<Longrightarrow> x \<le> of_int k \<Longrightarrow> 0 \<le> c_round x \<and> c_round x \<le> k"
  by (auto simp: c_round_def floor_le_iff le_floor_iff)

lemma getExpectedScore_bounds:
  assumes "\<And>x. 0 \<le> pow 10 x"
  shows "0 \<le> getExpectedScore pow a b \<and> getExpectedScore pow a b \<le> 1"
proof -
  define y where "y = double (1 + pow 10 (double (of_int (wrap32 (b - a)) / 400)))"
  have "(1::rat) \<le> y"
  proof -
    define x where "x = 1 + pow 10 (double (of_int (wrap32 (b - a)) / 400))"
    have "1 \<le> x" using assms by (simp add: x_def)
    from round_sig_ge_one [OF this, of 53] show ?thesis
      unfolding y_def x_def double_def by simp
  qed
  then have "0 \<le> 1 / y" "1 / y \<le> of_int 1" by simp_all
  from round_sig_bounds [OF this, of 53] show ?thesis
    by (simp add: getExpectedScore_def y_def double_def)
qed

lemma calculateEloChange_bounds:
  assumes "\<And>x. 0 \<le> pow 10 x" "0 \<le> k" "k < 2 ^ 53"
  shows "0 \<le> calculateEloChange pow a b 1 k \<and> calculateEloChange pow a b 1 k \<le> k"
proof -
  define e where "e = getExpectedScore pow a b"
  have "0 \<le> 1 - e" "1 - e \<le> of_int 1"
    using getExpectedScore_bounds [of pow a b, OF assms(1)] by (simp_all add: e_def)
  from round_sig_bounds [OF this, of 64] have d: "0 \<le> long_double (1 - e)" "long_double (1 - e) \<le> 1"
    by (simp_all add: long_double_def)
  have "0 \<le> of_int k * long_double (1 - e)" "of_int k * long_double (1 - e) \<le> of_int k"
    using d assms(2) mult_left_mono [OF d(2), of "of_int k"] by simp_all
  from round_sig_bounds [OF this, of 64] assms(3)
  have p: "0 \<le> long_double (of_int k * long_double (1 - e))"
    "long_double (of_int k * long_double (1 - e)) \<le> of_int k" by (simp_all add: long_double_def)
  from round_sig_bounds [OF p, of 53] assms(3)
  have "0 \<le> double (long_double (of_int k * long_double (1 - e)))"
    "double (long_double (of_int k * long_double (1 - e))) \<le> of_int k" by (simp_all add: double_def)
  from c_round_bounds [OF this] show ?thesis by (simp add: calculateEloChange_def e_def)
qed

lemma double_0: "double 0 = 0"
  by (simp add: double_def)

text \<open>Players of equal rating exchange half of the factor.\<close>

lemma calculateEloChange_equal:
  assumes "pow 10 0 = 1"
  shows "calculateEloChange pow a a 1 50 = 25"
proof -
  have two: "double 2 = 2" using round_sig_int [of 2 53] by (simp add: double_def)
  have exp: "getExpectedScore pow a a = 1 / 2"
    using assms two by (simp add: getExpectedScore_def wrap32_def double_0)
  have "long_double 25 = 25" "double 25 = 25"
    using round_sig_int [of 25 64] round_sig_int [of 25 53] by (simp_all add: double_def long_double_def)
  then show ?thesis unfolding calculateEloChange_def exp
    by (simp add: c_round_def floor_eq_iff)
qed

section \<open>The exchange in the leaderboard\<close>

lemma strcpy_name:
  assumes "no_nul k" "length k < 100" "length dst = 100"
  shows "\<exists>m. strcpy dst k = Some m \<and> terminated 100 m \<and> c_str m = k"
proof -
  obtain m where m: "strcpy dst k = Some m" using strcpy_fits assms(2,3) by metis
  then show ?thesis
    using strcpy_terminated [OF m] strcpy_c_str [OF m assms(1), of "[]"] assms(3) by simp
qed

text \<open>A player's entry gets a new rating.\<close>

lemma write_entry:
  assumes "leaderboard_ok s" "distinct (map entry_name (leaderboard_rows s))" "no_nul k" "length k < 100"
    and "getLeaderboardEntry k s = Some e" "\<bar>x\<bar> < 2 ^ 30"
  obtains nm s1 where "strcpy (malloc s 100) k = Some nm" "updateLeaderboardEntry \<lparr>le_username = nm, le_elo = x\<rparr> s = (0, s1)"
    "getLeaderboardEntry k s1 = Some \<lparr>le_username = nm, le_elo = x\<rparr>"
    "\<And>k'. k' \<noteq> k \<Longrightarrow> getLeaderboardEntry k' s1 = getLeaderboardEntry k' s"
    "leaderboard_ok s1" "distinct (map entry_name (leaderboard_rows s1))" "sorted (map le_elo (leaderboard_rows s1))"
proof -
  obtain nm where nm: "strcpy (malloc s 100) k = Some nm" "terminated 100 nm" "c_str nm = k"
    using strcpy_name [OF assms(3,4), of "malloc s 100"] by auto
  define e1 where "e1 = \<lparr>le_username = nm, le_elo = x\<rparr>"
  have e1: "wf_entry e1" "entry_name e1 = k"
    using nm(2,3) assms(6) by (auto simp: e1_def wf_entry_def wf_LeaderboardEntry_def elo_sane_def entry_name_def int_range_def)
  obtain r1 s1 where u: "updateLeaderboardEntry e1 s = (r1, s1)" by (metis surj_pair)
  note m = leaderboard.upd_map [OF assms(1) e1(1) assms(2) u]
  have r1: "r1 = 0" using m(1) assms(5) e1(2) by simp
  have "getLeaderboardEntry (entry_name e1) s \<noteq> None" using m(1) r1 by simp
  then have "entry_name e1 \<in> entry_name ` set (leaderboard_rows s)"
    unfolding leaderboard.get_None_iff [OF assms(1)] by (rule notnotD)
  from updateLeaderboardEntry_found [OF assms(1) e1(1) assms(2) this]
  have "leaderboard_rows s1 = sort_key le_elo (map (\<lambda>x. if entry_name x = entry_name e1 then e1 else x) (leaderboard_rows s))"
    unfolding u by simp
  then have "sorted (map le_elo (leaderboard_rows s1))" by simp
  then show ?thesis
    using nm(1) u m(2-5) r1 e1(2) by (intro that [of nm s1]) (simp_all add: e1_def)
qed

text \<open>C24: the result of a duel moves \<open>d\<close> points from the loser to the winner, with \<open>0 \<le> d \<le> 50\<close> and
  \<open>d = 25\<close> for equal ratings: the two entries change by \<open>d\<close> in opposite directions, every other
  player's entry stays, names stay unique and the leaderboard sorted.\<close>

theorem duel_elo_exchange:
  assumes "\<And>x. 0 \<le> pow 10 x" "pow 10 0 = 1"
    and "leaderboard_ok s" "distinct (map entry_name (leaderboard_rows s))"
    and "winner \<noteq> loser" "no_nul winner" "length winner < 100" "no_nul loser" "length loser < 100"
    and "getLeaderboardEntry winner s = Some ew" "getLeaderboardEntry loser s = Some el"
    and "\<bar>le_elo ew\<bar> < 2 ^ 30 - 50" "\<bar>le_elo el\<bar> < 2 ^ 30 - 50"
  shows "\<exists>s' d. updateDuelElos pow winner loser s = Some (SUCCESS, s')
    \<and> 0 \<le> d \<and> d \<le> 50 \<and> (le_elo ew = le_elo el \<longrightarrow> d = 25)
    \<and> map_option le_elo (getLeaderboardEntry winner s') = Some (le_elo ew + d)
    \<and> map_option le_elo (getLeaderboardEntry loser s') = Some (le_elo el - d)
    \<and> (\<forall>k. k \<noteq> winner \<longrightarrow> k \<noteq> loser \<longrightarrow> getLeaderboardEntry k s' = getLeaderboardEntry k s)
    \<and> leaderboard_ok s' \<and> distinct (map entry_name (leaderboard_rows s'))
    \<and> sorted (map le_elo (leaderboard_rows s'))"
proof -
  define d where "d = calculateEloChange pow (le_elo ew) (le_elo el) 1 50"
  have d: "0 \<le> d" "d \<le> 50" "le_elo ew = le_elo el \<longrightarrow> d = 25"
    using calculateEloChange_bounds [of pow 50 "le_elo ew" "le_elo el", OF assms(1)]
      calculateEloChange_equal [of pow, OF assms(2)] by (auto simp: d_def)
  have w: "wrap32 (le_elo ew + d) = le_elo ew + d" "wrap32 (le_elo el - d) = le_elo el - d"
    using assms(12,13) d by (intro wrap32_id; auto simp: int_range_def)+
  have room: "\<bar>le_elo ew + d\<bar> < 2 ^ 30" "\<bar>le_elo el - d\<bar> < 2 ^ 30" using assms(12,13) d(1,2) by auto
  obtain wn s1 where u1: "strcpy (malloc s 100) winner = Some wn"
    "updateLeaderboardEntry \<lparr>le_username = wn, le_elo = le_elo ew + d\<rparr> s = (0, s1)"
    "getLeaderboardEntry winner s1 = Some \<lparr>le_username = wn, le_elo = le_elo ew + d\<rparr>"
    "\<And>k. k \<noteq> winner \<Longrightarrow> getLeaderboardEntry k s1 = getLeaderboardEntry k s"
    "leaderboard_ok s1" "distinct (map entry_name (leaderboard_rows s1))" "sorted (map le_elo (leaderboard_rows s1))"
    by (rule write_entry [OF assms(3,4,6,7,10) room(1)]) (rule that)
  have el: "getLeaderboardEntry loser s1 = Some el" using u1(4) assms(5,11) by simp
  obtain ln s2 where u2: "strcpy (malloc s1 100) loser = Some ln"
    "updateLeaderboardEntry \<lparr>le_username = ln, le_elo = le_elo el - d\<rparr> s1 = (0, s2)"
    "getLeaderboardEntry loser s2 = Some \<lparr>le_username = ln, le_elo = le_elo el - d\<rparr>"
    "\<And>k. k \<noteq> loser \<Longrightarrow> getLeaderboardEntry k s2 = getLeaderboardEntry k s1"
    "leaderboard_ok s2" "distinct (map entry_name (leaderboard_rows s2))" "sorted (map le_elo (leaderboard_rows s2))"
    by (rule write_entry [OF u1(5,6) assms(8,9) el room(2)]) (rule that)
  have "updateDuelElos pow winner loser s = Some (SUCCESS, s2)"
    using u1(1,2) u2(1,2) by (simp add: updateDuelElos_def assms(10,11) w flip: d_def)
  then show ?thesis
    using d u1(3,4) u2(3-7) assms(5) by (intro exI [of _ s2] exI [of _ d]) simp
qed

theorem duel_elo_exchange_witness:
  "let a = \<lparr>le_username = char_array ''ann'', le_elo = 1000\<rparr>;
       b = \<lparr>le_username = char_array ''bob'', le_elo = 1000\<rparr>;
       s = table_at ''leaderboard.dat'' (map enc_LeaderboardEntry [a, b]);
       pw = (\<lambda>x y. if y = 0 then 1 else x)
   in \<exists>s'. updateDuelElos pw ''bob'' ''ann'' s = Some (SUCCESS, s')
      \<and> map_option le_elo (getLeaderboardEntry ''bob'' s') = Some 1025
      \<and> map_option le_elo (getLeaderboardEntry ''ann'' s') = Some 975"
proof -
  define a where "a = \<lparr>le_username = char_array ''ann'', le_elo = 1000\<rparr>"
  define b where "b = \<lparr>le_username = char_array ''bob'', le_elo = 1000\<rparr>"
  define s where "s = table_at ''leaderboard.dat'' (map enc_LeaderboardEntry [a, b])"
  define pw where "pw = (\<lambda>x y. if y = (0::rat) then 1 else x :: rat)"
  have pw: "0 \<le> pw 10 x" "pw 10 0 = 1" for x by (simp_all add: pw_def)
  have wf: "wf_entry a" "wf_entry b"
    and names: "entry_name a = ''ann''" "entry_name b = ''bob''" and elos: "le_elo a = 1000" "le_elo b = 1000"
    by (simp_all add: a_def b_def wf_entry_def wf_LeaderboardEntry_def elo_sane_def no_nul_def
        int_range_def entry_name_def)
  have ok: "leaderboard_ok s" "leaderboard_rows s = [a, b]"
    using leaderboard_file.table_at_ok [of "[a, b]"] wf
    by (simp_all add: leaderboard_ok_def leaderboard_rows_def s_def)
  have g: "getLeaderboardEntry ''ann'' s = Some a" "getLeaderboardEntry ''bob'' s = Some b"
    using leaderboard.get_find [OF ok(1), of "''ann''"] leaderboard.get_find [OF ok(1), of "''bob''"]
      ok(2) names by simp_all
  have "\<exists>s'. updateDuelElos pw ''bob'' ''ann'' s = Some (SUCCESS, s')
      \<and> map_option le_elo (getLeaderboardEntry ''bob'' s') = Some 1025
      \<and> map_option le_elo (getLeaderboardEntry ''ann'' s') = Some 975"
    using duel_elo_exchange [of pw s "''bob''" "''ann''" b a, OF pw ok(1) _ _ _ _ _ _ g(2,1)] ok(2) names elos
    by (auto simp: no_nul_def)
  then show ?thesis unfolding Let_def s_def pw_def a_def b_def by simp
qed

end
