(* ===== verification/NumberText.thy ===== *)
theory NumberText
  imports Floating Prelude
begin

text \<open>
  The C library's text of a \<open>double\<close>: \<open>strtod\<close> reads one, the conversion \<open>%.<P>g\<close> of \<open>sprintf\<close> writes one with
  \<open>P\<close> significant digits. Both round exactly; 17 digits are enough to read the same \<open>double\<close> back.
\<close>

section \<open>Reading\<close>

definition isdigit :: "char \<Rightarrow> bool" where
  "isdigit c \<longleftrightarrow> 48 \<le> (of_char c :: nat) \<and> (of_char c :: nat) \<le> 57"

definition take_sign :: "bytes \<Rightarrow> int \<times> bytes" where
  "take_sign s = (case s of [] \<Rightarrow> (1, s)
     | c # r \<Rightarrow> if c = CHR ''-'' then (-1, r) else if c = CHR ''+'' then (1, r) else (1, s))"

definition take_fraction :: "bytes \<Rightarrow> bytes \<times> bytes" where
  "take_fraction s = (case s of [] \<Rightarrow> ([], s)
     | c # r \<Rightarrow> if c = CHR ''.'' then (takeWhile isdigit r, dropWhile isdigit r) else ([], s))"

definition take_exponent :: "bytes \<Rightarrow> int \<times> bytes" where
  "take_exponent s = (case s of [] \<Rightarrow> (0, s)
     | c # r \<Rightarrow> if c = CHR ''e'' \<or> c = CHR ''E'' then
           (let (sg, r') = take_sign r; ds = takeWhile isdigit r'
            in if ds = [] then (0, s) else (sg * int (read_digits ds), dropWhile isdigit r'))
         else (0, s))"

text \<open>The value and how many characters were used, 0 if there is no number.\<close>

definition strtod :: "bytes \<Rightarrow> rat \<times> nat" where
  "strtod s =
     (let (sg, s1) = take_sign s;
          ds = takeWhile isdigit s1;
          (fs, s3) = take_fraction (dropWhile isdigit s1)
      in if ds = [] \<and> fs = [] then (0, 0)
         else let (ex, s4) = take_exponent s3
              in (double (of_int sg * of_nat (read_digits (ds @ fs)) * 10 powi (ex - int (length fs))),
                  length s - length s4))"

section \<open>Writing\<close>

text \<open>The \<open>P\<close> digits and the decimal exponent of the first one.\<close>

definition significand :: "nat \<Rightarrow> rat \<Rightarrow> nat \<times> int" where
  "significand P d =
     (let e = exponent_in 10 d; n = nat (round_half_even (\<bar>d\<bar> * 10 powi (int P - 1 - e)))
      in if n = 10 ^ P then (10 ^ (P - 1), e + 1) else (n, e))"

definition strip_zeros :: "bytes \<Rightarrow> bytes" where
  "strip_zeros s = rev (dropWhile (\<lambda>c. c = CHR ''0'') (rev s))"

definition decimals :: "bytes \<Rightarrow> bytes \<Rightarrow> bytes" where
  "decimals whole fraction = whole @ (let f = strip_zeros fraction in if f = [] then [] else CHR ''.'' # f)"

definition exponent_text :: "int \<Rightarrow> bytes" where
  "exponent_text x = CHR ''e'' # (if x < 0 then CHR ''-'' else CHR ''+'') #
     (let ds = show_nat (nat \<bar>x\<bar>) in if length ds < 2 then CHR ''0'' # ds else ds)"

definition sprintf_g :: "nat \<Rightarrow> rat \<Rightarrow> bytes" where
  "sprintf_g P d = (if d = 0 then ''0''
     else let (n, x) = significand P d; ds = show_nat n
          in (if d < 0 then ''-'' else []) @
             (if x < -4 \<or> int P \<le> x then decimals (take 1 ds) (drop 1 ds) @ exponent_text x
              else if x < 0 then decimals ''0'' (replicate (nat (- x) - 1) (CHR ''0'') @ ds)
              else decimals (take (nat x + 1) ds) (drop (nat x + 1) ds)))"

section \<open>Digits\<close>

lemma isdigit_iff: "isdigit c \<longleftrightarrow> 48 \<le> (of_char c :: nat) \<and> (of_char c :: nat) < 58"
  by (auto simp: isdigit_def)

lemma show_nat_isdigit: "c \<in> set (show_nat n) \<Longrightarrow> isdigit c"
  using show_nat_digits by (auto simp: isdigit_iff)

lemma takeWhile_digits: "takeWhile isdigit (show_nat n) = show_nat n" "dropWhile isdigit (show_nat n) = []"
  using show_nat_isdigit by (simp_all add: takeWhile_eq_all_conv dropWhile_eq_Nil_conv)

lemma length_show_nat: "length (show_nat n) \<le> k \<longleftrightarrow> (0 < k \<and> n < 10 ^ k)"
proof (induction n arbitrary: k rule: show_nat.induct)
  case (1 n)
  show ?case
  proof (cases "n < 10")
    case True
    have "10 \<le> (10::nat) ^ k" if "0 < k" using that by (cases k) simp_all
    then show ?thesis using True by (subst show_nat.simps) (auto simp: Suc_le_eq intro: less_le_trans)
  next
    case False
    then have len: "length (show_nat n) = Suc (length (show_nat (n div 10)))" by (subst show_nat.simps) simp
    show ?thesis
    proof (cases k)
      case (Suc j)
      have "n div 10 < 10 ^ j \<longleftrightarrow> n < 10 ^ k" using Suc by (simp add: div_less_iff_less_mult mult.commute)
      moreover have "0 < j" if "n div 10 < 10 ^ j" using that False by (cases j) simp_all
      ultimately show ?thesis using "1.IH" [OF False, of j] Suc len by auto
    qed (use len in simp)
  qed
qed

lemma length_show_nat_eq: "10 ^ k \<le> n \<Longrightarrow> n < 10 ^ Suc k \<Longrightarrow> length (show_nat n) = Suc k"
  using length_show_nat [of n "Suc k"] length_show_nat [of n k] by (cases k) (auto simp: le_Suc_eq)

lemma read_digits_zeros: "read_digits (s @ replicate j (CHR ''0'')) = read_digits s * 10 ^ j"
  by (induction j) (simp_all add: read_digits_snoc replicate_append_same [symmetric] flip: append_assoc)

lemma read_digits_leading: "read_digits (replicate j (CHR ''0'') @ s) = read_digits s"
  by (induction j) (simp_all add: read_digits_def)

lemma strip_zeros_split: "s = strip_zeros s @ replicate (length s - length (strip_zeros s)) (CHR ''0'')"
proof -
  have "rev s = takeWhile (\<lambda>c. c = CHR ''0'') (rev s) @ rev (strip_zeros s)" by (simp add: strip_zeros_def)
  then have s: "s = strip_zeros s @ rev (takeWhile (\<lambda>c. c = CHR ''0'') (rev s))" by (metis rev_append rev_rev_ident)
  have "rev (takeWhile (\<lambda>c. c = CHR ''0'') (rev s)) = replicate (length s - length (strip_zeros s)) (CHR ''0'')"
  proof -
    have "\<forall>c \<in> set (rev (takeWhile (\<lambda>c. c = CHR ''0'') (rev s))). c = CHR ''0''" using set_takeWhileD by fastforce
    moreover have "length s = length (strip_zeros s) + length (rev (takeWhile (\<lambda>c. c = CHR ''0'') (rev s)))"
      by (subst s) simp
    ultimately show ?thesis by (metis diff_add_inverse replicate_eqI)
  qed
  then show ?thesis using s by simp
qed

lemma strip_zeros_length: "length (strip_zeros s) \<le> length s"
  using strip_zeros_split [of s] by (metis length_append le_add1)

lemma strip_zeros_set: "set (strip_zeros s) \<subseteq> set s"
  using strip_zeros_split [of s] by (metis set_append Un_upper1)

lemma read_digits_strip:
  "of_nat (read_digits (w @ strip_zeros f)) * 10 powi (x - int (length (strip_zeros f)))
   = (of_nat (read_digits (w @ f)) * 10 powi (x - int (length f)) :: rat)"
proof -
  let ?j = "length f - length (strip_zeros f)"
  have "read_digits (w @ f) = read_digits (w @ strip_zeros f) * 10 ^ ?j"
    using read_digits_zeros [of "w @ strip_zeros f" ?j] strip_zeros_split [of f] by simp
  moreover have "10 ^ ?j * 10 powi (x - int (length f)) = (10 powi (x - int (length (strip_zeros f))) :: rat)"
    using strip_zeros_length [of f] by (simp add: of_nat_diff flip: power_int_add power_int_of_nat)
  ultimately show ?thesis by (simp add: mult.assoc)
qed

section \<open>Reading what was written\<close>

lemma strtod_decimals:
  assumes "\<forall>c \<in> set w. isdigit c" "w \<noteq> []" "\<forall>c \<in> set f. isdigit c" "t = [] \<and> x = 0 \<or> t = exponent_text x"
  shows "strtod ((if neg then ''-'' else []) @ decimals w f @ t) =
    (double ((if neg then -1 else 1) * of_nat (read_digits (w @ f)) * 10 powi (x - int (length f))),
     length ((if neg then ''-'' else []) @ decimals w f @ t))"
proof -
  let ?f = "strip_zeros f" and ?r = "(if strip_zeros f = [] then [] else CHR ''.'' # strip_zeros f) @ t"
  have dot: "\<not> isdigit (CHR ''.'')" "\<not> isdigit (CHR ''e'')" by (simp_all add: isdigit_def)
  obtain c w' where w: "w = c # w'" using assms(2) by (cases w) auto
  have "isdigit c" using assms(1) w by simp
  then have c: "c \<noteq> CHR ''-''" "c \<noteq> CHR ''+''" by (auto simp: isdigit_def)
  have sign: "take_sign ((if neg then ''-'' else []) @ w @ ?r) = (if neg then -1 else 1, w @ ?r)"
    using c by (simp add: take_sign_def w)
  have t: "t = [] \<or> (\<exists>u. t = CHR ''e'' # u)" using assms(4) by (auto simp: exponent_text_def)
  have whole: "takeWhile isdigit (w @ ?r) = w" "dropWhile isdigit (w @ ?r) = ?r"
    using assms(1) t dot by (auto simp: takeWhile_append2 dropWhile_append2)
  have "\<forall>c \<in> set ?f. isdigit c" using assms(3) strip_zeros_set by blast
  then have fraction: "take_fraction ?r = (?f, t)"
    using t dot by (cases "?f = []") (auto simp: take_fraction_def takeWhile_append2 dropWhile_append2)
  have ex: "take_exponent t = (x, [])"
  proof (cases "t = []")
    case True
    then have "x = 0" using assms(4) by (auto simp: exponent_text_def)
    then show ?thesis using True by (simp add: take_exponent_def)
  next
    case False
    define e where "e = (let ds = show_nat (nat \<bar>x\<bar>) in if length ds < 2 then CHR ''0'' # ds else ds)"
    have "\<forall>c \<in> set e. isdigit c" using show_nat_isdigit by (auto simp: e_def isdigit_def Let_def)
    then have "takeWhile isdigit e = e" "dropWhile isdigit e = []" by (simp_all add: takeWhile_eq_all_conv dropWhile_eq_Nil_conv)
    moreover have "read_digits e = nat \<bar>x\<bar>" "e \<noteq> []"
      using read_digits_leading [of 1 "show_nat (nat \<bar>x\<bar>)"] by (simp_all add: e_def Let_def)
    moreover have "t = CHR ''e'' # (if x < 0 then CHR ''-'' else CHR ''+'') # e" using False assms(4) by (simp add: exponent_text_def e_def)
    ultimately show ?thesis
      by (simp add: take_exponent_def take_sign_def Let_def takeWhile_eq_all_conv [THEN iffD2] dropWhile_eq_Nil_conv [THEN iffD2])
  qed
  have "strtod ((if neg then ''-'' else []) @ w @ ?r) =
      (double ((if neg then -1 else 1) * (of_nat (read_digits (w @ ?f)) * 10 powi (x - int (length ?f)))),
       length ((if neg then ''-'' else []) @ w @ ?r))"
    unfolding strtod_def sign Let_def prod.case whole fraction ex using assms(2) by (simp add: mult.assoc)
  then show ?thesis unfolding read_digits_strip by (simp add: decimals_def Let_def mult.assoc)
qed

lemma significand_bounds:
  assumes "d \<noteq> 0" "significand (Suc p) d = (n, x)"
  shows "10 ^ p \<le> n" "n < 10 ^ Suc p" "\<bar>of_nat n * 10 powi (x - int p) - \<bar>d\<bar>\<bar> * (2 * 10 ^ p) \<le> \<bar>d\<bar>"
    "x = exponent_in 10 d \<or> x = exponent_in 10 d + 1"
proof -
  define e where "e = exponent_in 10 d"
  define c where "c = (10 :: rat) powi (int p - e)"
  define k where "k = round_half_even (\<bar>d\<bar> * c)"
  have c: "0 < c" "10 powi e * c = 10 ^ p" by (simp_all add: c_def flip: power_int_add)
  note b = exponent_in_bounds [of 10 d, folded e_def, simplified, OF assms(1)]
  have "10 powi e * c \<le> \<bar>d\<bar> * c" using b(1) c(1) by (intro mult_right_mono) simp_all
  then have lo: "of_int (10 ^ p) \<le> \<bar>d\<bar> * c" unfolding c(2) by simp
  have "\<bar>d\<bar> * c \<le> 10 powi (e + 1) * c" using b(2) c(1) by (intro mult_right_mono) simp_all
  also have "\<dots> = of_int (10 ^ Suc p)" using c(2) by (simp add: power_int_add)
  finally have hi: "\<bar>d\<bar> * c \<le> of_int (10 ^ Suc p)" .
  have k: "10 ^ p \<le> k" "k \<le> 10 ^ Suc p"
    using round_half_even_ge [OF lo] round_half_even_le [OF hi] by (simp_all only: k_def)
  have "(0 :: int) < 10 ^ p" by simp
  then have k0: "0 < k" using k(1) by (rule less_le_trans)
  have sig: "(n, x) = (if nat k = 10 ^ Suc p then (10 ^ p, e + 1) else (nat k, e))"
    using assms(2) by (simp add: significand_def Let_def e_def c_def k_def cong: if_cong)
  have nk: "nat k = 10 ^ Suc p \<longleftrightarrow> k = 10 ^ Suc p" using k0 by (simp add: nat_eq_iff)
  have "10 ^ p \<le> nat k" "nat k \<le> 10 ^ Suc p"
    using k k0 by (simp_all add: le_nat_iff nat_le_iff)
  then show "10 ^ p \<le> n" "n < 10 ^ Suc p" using sig by (auto split: if_splits)
  show "x = exponent_in 10 d \<or> x = exponent_in 10 d + 1" using sig by (auto simp: e_def split: if_splits)
  have "10 powi (x - int p) * c = 10 powi (x - e)" by (simp add: c_def flip: power_int_add)
  moreover have "of_nat n * 10 powi (x - e) = (of_int k :: rat)"
    using sig nk k0 by (cases "k = 10 ^ Suc p") auto
  ultimately have val: "of_nat n * 10 powi (x - int p) * c = of_int k" by (simp only: mult.assoc)
  have "\<bar>of_nat n * 10 powi (x - int p) - \<bar>d\<bar>\<bar> * c = \<bar>of_int k - \<bar>d\<bar> * c\<bar>"
    using c(1) val by (metis abs_mult abs_of_pos left_diff_distrib)
  also have "\<dots> \<le> 1 / 2" unfolding k_def by (rule round_half_even_error)
  finally have "\<bar>of_nat n * 10 powi (x - int p) - \<bar>d\<bar>\<bar> * c * (2 * 10 ^ p) \<le> 1 / 2 * (2 * 10 ^ p)" by (rule mult_right_mono) simp
  also have "\<dots> = of_int (10 ^ p)" by simp
  also have "\<dots> \<le> \<bar>d\<bar> * c" by (rule lo)
  finally have "(\<bar>of_nat n * 10 powi (x - int p) - \<bar>d\<bar>\<bar> * (2 * 10 ^ p)) * c \<le> \<bar>d\<bar> * c" by (simp only: mult.assoc mult.commute mult.left_commute)
  then show "\<bar>of_nat n * 10 powi (x - int p) - \<bar>d\<bar>\<bar> * (2 * 10 ^ p) \<le> \<bar>d\<bar>"
    using c(1) by (rule mult_right_le_imp_le)
qed

lemma strtod_sprintf:
  assumes "d \<noteq> 0" "significand (Suc p) d = (n, x)"
  shows "strtod (sprintf_g (Suc p) d) =
    (double ((if d < 0 then -1 else 1) * of_nat n * 10 powi (x - int p)), length (sprintf_g (Suc p) d))"
proof -
  note b = significand_bounds [OF assms]
  let ?ds = "show_nat n"
  have len: "length ?ds = Suc p" using length_show_nat_eq [OF b(1,2)] .
  have dig: "\<forall>c \<in> set ?ds. isdigit c" using show_nat_isdigit by blast
  have part: "\<forall>c \<in> set (take k ?ds). isdigit c" "\<forall>c \<in> set (drop k ?ds). isdigit c" for k
    using dig by (auto dest: in_set_takeD in_set_dropD)
  have g: "sprintf_g (Suc p) d = (if d < 0 then ''-'' else []) @
      (if x < -4 \<or> int (Suc p) \<le> x then decimals (take 1 ?ds) (drop 1 ?ds) @ exponent_text x
       else if x < 0 then decimals ''0'' (replicate (nat (- x) - 1) (CHR ''0'') @ ?ds)
       else decimals (take (nat x + 1) ?ds) (drop (nat x + 1) ?ds))"
    using assms by (simp add: sprintf_g_def Let_def)
  consider "x < -4 \<or> int (Suc p) \<le> x" | "-4 \<le> x" "x < 0" | "0 \<le> x" "x < int (Suc p)" by linarith
  then show ?thesis
  proof cases
    case 1
    have "strtod ((if d < 0 then ''-'' else []) @ decimals (take 1 ?ds) (drop 1 ?ds) @ exponent_text x) =
      (double ((if d < 0 then -1 else 1) * of_nat (read_digits (take 1 ?ds @ drop 1 ?ds)) * 10 powi (x - int (length (drop 1 ?ds)))),
       length ((if d < 0 then ''-'' else []) @ decimals (take 1 ?ds) (drop 1 ?ds) @ exponent_text x))"
      using part [of 1] len by (intro strtod_decimals) auto
    then show ?thesis using 1 g len by simp
  next
    case 2
    let ?f = "replicate (nat (- x) - 1) (CHR ''0'') @ ?ds"
    have "\<forall>c \<in> set ?f. isdigit c" using dig by (auto simp: isdigit_def)
    then have "strtod ((if d < 0 then ''-'' else []) @ decimals ''0'' ?f @ []) =
      (double ((if d < 0 then -1 else 1) * of_nat (read_digits (''0'' @ ?f)) * 10 powi (0 - int (length ?f))),
       length ((if d < 0 then ''-'' else []) @ decimals ''0'' ?f @ []))"
      by (intro strtod_decimals) (auto simp: isdigit_def)
    moreover have "read_digits (''0'' @ ?f) = n" using read_digits_leading [of 1 ?f] read_digits_leading [of _ ?ds] by simp
    moreover have "0 - int (length ?f) = x - int p" using 2 len by simp
    ultimately show ?thesis using 2 g unfolding append_Nil2 by (simp only: if_False if_True) simp
  next
    case 3
    have "strtod ((if d < 0 then ''-'' else []) @ decimals (take (nat x + 1) ?ds) (drop (nat x + 1) ?ds) @ []) =
      (double ((if d < 0 then -1 else 1) * of_nat (read_digits (take (nat x + 1) ?ds @ drop (nat x + 1) ?ds)) *
         10 powi (0 - int (length (drop (nat x + 1) ?ds)))),
       length ((if d < 0 then ''-'' else []) @ decimals (take (nat x + 1) ?ds) (drop (nat x + 1) ?ds) @ []))"
      using part [of "nat x + 1"] len by (intro strtod_decimals) auto
    moreover have "0 - int (length (drop (nat x + 1) ?ds)) = x - int p" using 3 len by simp
    ultimately show ?thesis using 3 g by simp
  qed
qed

text \<open>Seventeen digits determine the \<open>double\<close>.\<close>

lemma strtod_sprintf_17:
  assumes "double d = d"
  shows "strtod (sprintf_g 17 d) = (d, length (sprintf_g 17 d))"
proof (cases "d = 0")
  case True
  have "takeWhile isdigit ''0'' = ''0''" "read_digits ''0'' = 0" by (simp_all add: isdigit_def read_digits_def)
  then show ?thesis using True
    by (simp add: sprintf_g_def strtod_def take_sign_def take_fraction_def take_exponent_def double_def Let_def isdigit_def)
next
  case False
  obtain n x where s: "significand (Suc 16) d = (n, x)" by fastforce
  define v :: rat where "v = (if d < 0 then -1 else 1) * (of_nat n * 10 powi (x - int 16))"
  note b = significand_bounds(3) [OF False s]
  have e: "\<bar>v - d\<bar> = \<bar>of_nat n * 10 powi (x - int 16) - \<bar>d\<bar>\<bar>" by (simp add: v_def abs_if)
  have near: "\<bar>v - d\<bar> * 2 ^ (52 + 2) < \<bar>d\<bar>"
  proof (cases "v = d")
    case True
    then show ?thesis using False by simp
  next
    case v: False
    have "\<bar>v - d\<bar> * 2 ^ (52 + 2) < \<bar>v - d\<bar> * (2 * 10 ^ 16)" using v by (intro mult_strict_left_mono) simp_all
    also have "\<dots> \<le> \<bar>d\<bar>" unfolding e by (rule b)
    finally show ?thesis .
  qed
  have "round_sig (Suc 52) d = d" using assms by (simp add: double_def)
  then have "round_sig (Suc 52) v = d" using False near by (rule round_sig_near)
  then have "double v = d" by (simp add: double_def)
  then show ?thesis using strtod_sprintf [OF False s] unfolding v_def mult.assoc by simp
qed

section \<open>The text\<close>

lemma decimals_chars:
  "\<forall>c \<in> set w. isdigit c \<Longrightarrow> \<forall>c \<in> set f. isdigit c \<Longrightarrow> c \<in> set (decimals w f) \<Longrightarrow> isdigit c \<or> c = CHR ''.''"
  using strip_zeros_set by (auto simp: decimals_def Let_def split: if_splits)

lemma decimals_length: "length (decimals w f) \<le> length w + Suc (length f)"
  using strip_zeros_length [of f] by (auto simp: decimals_def Let_def)

lemma decimals_start: "w = c # w' \<Longrightarrow> \<exists>r. decimals w f = c # r"
  by (simp add: decimals_def)

definition number_char :: "char \<Rightarrow> bool" where
  "number_char c \<longleftrightarrow> isdigit c \<or> c \<in> {CHR ''+'', CHR ''-'', CHR ''e'', CHR ''E'', CHR ''.''}"

lemma exponent_text_chars:
  assumes "c \<in> set (exponent_text x)"
  shows "number_char c"
proof -
  have "number_char (CHR ''0'')" by (simp add: number_char_def isdigit_def)
  moreover have "number_char c" if "c \<in> set (show_nat (nat \<bar>x\<bar>))" using show_nat_isdigit [OF that] by (simp add: number_char_def)
  ultimately show ?thesis using assms by (cases "x < 0") (auto simp: exponent_text_def Let_def number_char_def split: if_split_asm)
qed

lemma exponent_text_length:
  assumes "\<bar>x\<bar> < 1000"
  shows "length (exponent_text x) \<le> 5"
proof -
  have "nat \<bar>x\<bar> < 10 ^ 3" using assms by simp
  then have "length (show_nat (nat \<bar>x\<bar>)) \<le> 3" by (subst length_show_nat) simp
  then show ?thesis by (simp add: exponent_text_def Let_def)
qed

text \<open>A text of the conversion: a sign, digits with a point, an exponent.\<close>

lemma sprintf_g_cases:
  assumes "d \<noteq> 0" "significand (Suc p) d = (n, x)"
  obtains w f t where "sprintf_g (Suc p) d = (if d < 0 then ''-'' else []) @ decimals w f @ t"
    "w \<noteq> []" "\<forall>c \<in> set w. isdigit c" "\<forall>c \<in> set f. isdigit c" "length w + length f \<le> p + 5"
    "t = [] \<or> t = exponent_text x \<and> length w + length f = Suc p"
proof -
  note b = significand_bounds [OF assms]
  let ?ds = "show_nat n"
  have len: "length ?ds = Suc p" using length_show_nat_eq [OF b(1,2)] .
  have dig: "\<forall>c \<in> set ?ds. isdigit c" using show_nat_isdigit by blast
  have part: "\<forall>c \<in> set (take k ?ds). isdigit c" "\<forall>c \<in> set (drop k ?ds). isdigit c" for k
    using dig by (auto dest: in_set_takeD in_set_dropD)
  consider "x < -4 \<or> int (Suc p) \<le> x" | "-4 \<le> x" "x < 0" | "0 \<le> x" "x < int (Suc p)" by linarith
  then show ?thesis
  proof cases
    case 1
    then show ?thesis using assms len part [of 1]
      by (intro that [of "take 1 ?ds" "drop 1 ?ds" "exponent_text x"]) (auto simp: sprintf_g_def Let_def)
  next
    case 2
    then show ?thesis using assms len dig
      by (intro that [of "''0''" "replicate (nat (- x) - 1) (CHR ''0'') @ ?ds" "[]"]) (auto simp: sprintf_g_def Let_def isdigit_def)
  next
    case 3
    then show ?thesis using assms len part [of "nat x + 1"]
      by (intro that [of "take (nat x + 1) ?ds" "drop (nat x + 1) ?ds" "[]"]) (auto simp: sprintf_g_def Let_def)
  qed
qed

lemma sprintf_g_chars:
  assumes "d \<noteq> 0"
  shows "\<forall>c \<in> set (sprintf_g (Suc p) d). number_char c" "\<exists>c r. sprintf_g (Suc p) d = c # r \<and> (c = CHR ''-'' \<or> isdigit c)"
proof -
  obtain n x where "significand (Suc p) d = (n, x)" by fastforce
  from assms this obtain w f t where s: "sprintf_g (Suc p) d = (if d < 0 then ''-'' else []) @ decimals w f @ t"
    "w \<noteq> []" "\<forall>c \<in> set w. isdigit c" "\<forall>c \<in> set f. isdigit c" "t = [] \<or> t = exponent_text x"
    by (rule sprintf_g_cases) blast
  have "\<forall>c \<in> set t. number_char c" using s(5) exponent_text_chars by auto
  moreover have "\<forall>c \<in> set (decimals w f). number_char c" using decimals_chars [OF s(3,4)] by (auto simp: number_char_def)
  ultimately show "\<forall>c \<in> set (sprintf_g (Suc p) d). number_char c" by (auto simp: s(1) number_char_def)
  show "\<exists>c r. sprintf_g (Suc p) d = c # r \<and> (c = CHR ''-'' \<or> isdigit c)"
    using s(2,3) by (cases w) (auto simp: s(1) decimals_def)
qed

text \<open>The range of the normal and subnormal \<open>double\<close>s.\<close>

definition double_range :: "rat \<Rightarrow> bool" where
  "double_range d \<longleftrightarrow> 2 powi (-1074) \<le> \<bar>d\<bar> \<and> \<bar>d\<bar> < 2 powi 1024"

lemma double_range_exponent:
  assumes "double_range d"
  shows "-325 < exponent_in 10 d" "exponent_in 10 d < 309"
proof -
  have "(0::rat) < 2 powi (-1074)" by simp
  then have "d \<noteq> 0" using assms unfolding double_range_def by (metis abs_zero not_less)
  note b = exponent_in_bounds [of 10 d, simplified, OF this]
  have "(10::rat) powi (-324) \<le> 2 powi (-1074)" by (simp add: power_int_minus)
  also have "\<dots> \<le> \<bar>d\<bar>" using assms by (simp add: double_range_def)
  also have "\<dots> < 10 powi (exponent_in 10 d + 1)" by (rule b(2))
  finally have "-324 < exponent_in 10 d + 1" by (rule powi_mono_strict [rotated]) simp
  then show "-325 < exponent_in 10 d" by simp
  have "10 powi exponent_in 10 d \<le> \<bar>d\<bar>" by (rule b(1))
  also have "\<dots> < 2 powi 1024" using assms by (simp add: double_range_def)
  also have "\<dots> \<le> (10::rat) powi 309" by simp
  finally show "exponent_in 10 d < 309" by (rule powi_mono_strict [rotated]) simp
qed

lemma sprintf_g_length:
  assumes "double_range d"
  shows "length (sprintf_g (Suc p) d) \<le> p + 8"
proof -
  have "(0::rat) < 2 powi (-1074)" by simp
  then have "d \<noteq> 0" using assms unfolding double_range_def by (metis abs_zero not_less)
  obtain n x where nx: "significand (Suc p) d = (n, x)" by fastforce
  from \<open>d \<noteq> 0\<close> this obtain w f t where s: "sprintf_g (Suc p) d = (if d < 0 then ''-'' else []) @ decimals w f @ t"
    "length w + length f \<le> p + 5" "t = [] \<or> t = exponent_text x \<and> length w + length f = Suc p"
    by (rule sprintf_g_cases) blast
  have "\<bar>x\<bar> < 1000" using significand_bounds(4) [OF \<open>d \<noteq> 0\<close> nx] double_range_exponent [OF assms] by linarith
  then have "length (decimals w f @ t) \<le> p + 7"
    using s(2,3) exponent_text_length [of x] decimals_length [of w f] by auto
  then show ?thesis by (simp add: s(1))
qed

end
