(* ===== verification/CJson.thy ===== *)
theory CJson
  imports NumberText
begin

text \<open>
  The part of \<open>Utility/cJSON.c\<close> the platform speaks JSON with, and \<open>Utility/jsonUtility.c\<close>: trees,
  parsing, unformatted printing, construction and lookup. A tree is a datatype, the linked list of
  children a HOL list. The parse buffer is the rest of the text: its content ends in the NUL of
  the C string, which no character the parser tests for equals, so the end of the list stands for
  it. The first argument of \<open>parse_value\<close> is how many nesting levels are left
  (\<open>CJSON_NESTING_LIMIT\<close>); the number argument of the element loops is fuel, one unit for each
  comma, so that the length of the text is enough (\<open>elements_fuel\<close>, \<open>members_fuel\<close>). A number
  carries its \<open>valuedouble\<close>; its \<open>valueint\<close> is always the saturated conversion of it.
\<close>

datatype cJSON =
    cJSON_NULL
  | cJSON_False
  | cJSON_True
  | cJSON_Number rat
  | cJSON_String bytes
  | cJSON_Array "cJSON list"
  | cJSON_Object "(bytes \<times> cJSON) list"

definition INT_MAX :: int where "INT_MAX = 2147483647"
definition INT_MIN :: int where "INT_MIN = - 2147483648"

definition valueint :: "rat \<Rightarrow> int" where
  "valueint d = (if of_int INT_MAX \<le> d then INT_MAX
     else if d \<le> of_int INT_MIN then INT_MIN else c_trunc d)"

definition CJSON_NESTING_LIMIT :: nat where "CJSON_NESTING_LIMIT = 1000"

section \<open>Numbers\<close>

definition parse_number :: "bytes \<Rightarrow> (cJSON \<times> bytes) option" where
  "parse_number t =
     (let (number, used) = strtod (takeWhile number_char t)
      in if used = 0 then None else Some (cJSON_Number number, drop used t))"

definition DBL_EPSILON :: rat where "DBL_EPSILON = 1 / 2 ^ 52"

definition compare_double :: "rat \<Rightarrow> rat \<Rightarrow> bool" where
  "compare_double a b \<longleftrightarrow>
     \<bar>double (a - b)\<bar> \<le> double ((if \<bar>b\<bar> < \<bar>a\<bar> then \<bar>a\<bar> else \<bar>b\<bar>) * DBL_EPSILON)"

text \<open>
  \<open>print_number\<close>: an integer is written as such, any other number with 15 digits if they read back as (almost)
  the same number, with 17 otherwise. The temporary buffer has room for 25 characters.
\<close>

definition number_text :: "int \<Rightarrow> rat \<Rightarrow> bytes" where
  "number_text i d =
     (if d = of_int i then show_int i
      else let s = sprintf_g 15 d; (test, used) = strtod s
           in if used = 0 \<or> \<not> compare_double test d then sprintf_g 17 d else s)"

definition number_buffer :: "int \<Rightarrow> rat \<Rightarrow> bytes option" where
  "number_buffer i d = (let s = number_text i d in if 25 < length s then None else Some s)"

definition print_number :: "rat \<Rightarrow> bytes option" where
  "print_number d = number_buffer (valueint d) d"

section \<open>Strings\<close>

fun hex_value :: "char \<Rightarrow> nat option" where
  "hex_value c = (let n = of_char c in
     if 48 \<le> n \<and> n \<le> 57 then Some (n - 48)
     else if 65 \<le> n \<and> n \<le> 70 then Some (10 + n - 65)
     else if 97 \<le> n \<and> n \<le> 102 then Some (10 + n - 97) else None)"

definition parse_hex4 :: "bytes \<Rightarrow> nat" where
  "parse_hex4 s = (case map hex_value (take 4 s) of
     [Some a, Some b, Some c, Some d] \<Rightarrow> ((a * 16 + b) * 16 + c) * 16 + d
   | _ \<Rightarrow> 0)"

definition utf8 :: "nat \<Rightarrow> bytes" where
  "utf8 cp =
     (if cp < 0x80 then [char_of cp]
      else if cp < 0x800 then [char_of (0xC0 + cp div 64), char_of (0x80 + cp mod 64)]
      else if cp < 0x10000 then [char_of (0xE0 + cp div 4096), char_of (0x80 + cp div 64 mod 64),
        char_of (0x80 + cp mod 64)]
      else [char_of (0xF0 + cp div 262144), char_of (0x80 + cp div 4096 mod 64),
        char_of (0x80 + cp div 64 mod 64), char_of (0x80 + cp mod 64)])"

text \<open>The input is at the backslash of an escape; the result is the bytes it stands for and how
  many characters it has.\<close>

definition utf16_literal_to_utf8 :: "bytes \<Rightarrow> (bytes \<times> nat) option" where
  "utf16_literal_to_utf8 s =
     (if length s < 6 then None
      else let first_code = parse_hex4 (drop 2 s)
           in if 0xDC00 \<le> first_code \<and> first_code \<le> 0xDFFF then None
              else if 0xD800 \<le> first_code \<and> first_code \<le> 0xDBFF then
                (if length (drop 6 s) < 6 \<or> take 2 (drop 6 s) \<noteq> [CHR 0x5C, CHR ''u''] then None
                 else let second_code = parse_hex4 (drop 8 s)
                      in if second_code < 0xDC00 \<or> second_code > 0xDFFF then None
                         else Some (utf8 (0x10000 + (first_code mod 1024 * 1024 + second_code mod 1024)), 12))
              else Some (utf8 first_code, 6))"

text \<open>The first pass: up to the closing quote, stepping over what a backslash escapes.\<close>

fun string_end :: "bytes \<Rightarrow> (bytes \<times> bytes) option" where
  "string_end [] = None"
| "string_end (c # cs) =
     (if c = CHR 0x22 then Some ([], cs)
      else if c = CHR 0x5C then
        (case cs of [] \<Rightarrow> None
         | d # ds \<Rightarrow> map_option (\<lambda>(a, r). (c # d # a, r)) (string_end ds))
      else map_option (\<lambda>(a, r). (c # a, r)) (string_end cs))"

definition simple_escape :: "char \<Rightarrow> char option" where
  "simple_escape c =
     (if c = CHR ''b'' then Some (CHR 0x08) else if c = CHR ''f'' then Some (CHR 0x0C)
      else if c = CHR ''n'' then Some (CHR 0x0A) else if c = CHR ''r'' then Some (CHR 0x0D)
      else if c = CHR ''t'' then Some (CHR 0x09)
      else if c \<in> {CHR 0x22, CHR 0x5C, CHR ''/''} then Some c else None)"

text \<open>The second pass. A \<open>\u\<close> whose digits are not hexadecimal can take the backslash of the next escape with it; then
  the last backslash can stand right before the closing quote, which it escapes.\<close>

function unescape :: "bytes \<Rightarrow> bytes option" where
  "unescape [] = Some []"
| "unescape (c # cs) =
     (if c \<noteq> CHR 0x5C then map_option ((#) c) (unescape cs)
      else case cs of [] \<Rightarrow> Some [CHR 0x22]
        | d # ds \<Rightarrow>
            (if d = CHR ''u'' then
               (case utf16_literal_to_utf8 (c # cs) of None \<Rightarrow> None
                | Some (bs, n) \<Rightarrow> if n = 0 then None else map_option ((@) bs) (unescape (drop n (c # cs))))
             else case simple_escape d of None \<Rightarrow> None
                | Some e \<Rightarrow> map_option ((#) e) (unescape ds)))"
  by pat_completeness auto

termination
  by (relation "measure length") auto

text \<open>The value is read as a C string: a NUL from \<open>\u0000\<close> ends it.\<close>

definition parse_string :: "bytes \<Rightarrow> (bytes \<times> bytes) option" where
  "parse_string t = (case t of [] \<Rightarrow> None
     | q # cs \<Rightarrow>
         if q \<noteq> CHR 0x22 then None
         else case string_end cs of None \<Rightarrow> None
              | Some (content, rest) \<Rightarrow> map_option (\<lambda>s. (c_str s, rest)) (unescape content))"

definition hex_digit :: "nat \<Rightarrow> char" where
  "hex_digit n = (if n < 10 then char_of (48 + n) else char_of (87 + n))"

definition escape_char :: "char \<Rightarrow> bytes" where
  "escape_char c =
     (if 31 < (of_char c :: nat) \<and> c \<noteq> CHR 0x22 \<and> c \<noteq> CHR 0x5C then [c]
      else CHR 0x5C #
        (if c = CHR 0x5C then [CHR 0x5C] else if c = CHR 0x22 then [CHR 0x22]
         else if c = CHR 0x08 then ''b'' else if c = CHR 0x0C then ''f''
         else if c = CHR 0x0A then ''n'' else if c = CHR 0x0D then ''r''
         else if c = CHR 0x09 then ''t''
         else ''u00'' @ [hex_digit (of_char c div 16), hex_digit (of_char c mod 16)]))"

definition print_string_ptr :: "bytes \<Rightarrow> bytes" where
  "print_string_ptr s = CHR 0x22 # concat (map escape_char s) @ [CHR 0x22]"

section \<open>Printing a tree\<close>

fun print_value :: "cJSON \<Rightarrow> bytes option"
  and print_array :: "cJSON list \<Rightarrow> bytes option"
  and print_object :: "(bytes \<times> cJSON) list \<Rightarrow> bytes option" where
  "print_value cJSON_NULL = Some ''null''"
| "print_value cJSON_False = Some ''false''"
| "print_value cJSON_True = Some ''true''"
| "print_value (cJSON_Number d) = print_number d"
| "print_value (cJSON_String s) = Some (print_string_ptr s)"
| "print_value (cJSON_Array xs) = map_option (\<lambda>b. ''['' @ b @ '']'') (print_array xs)"
| "print_value (cJSON_Object ms) = map_option (\<lambda>b. CHR 0x7B # b @ [CHR 0x7D]) (print_object ms)"
| "print_array [] = Some []"
| "print_array (x # xs) =
     (case (print_value x, print_array xs) of
        (Some p, Some ps) \<Rightarrow> Some (p @ (if xs = [] then [] else CHR '','' # ps))
      | _ \<Rightarrow> None)"
| "print_object [] = Some []"
| "print_object ((k, v) # ms) =
     (case (print_value v, print_object ms) of
        (Some p, Some ps) \<Rightarrow>
          Some (print_string_ptr k @ CHR '':'' # p @ (if ms = [] then [] else CHR '','' # ps))
      | _ \<Rightarrow> None)"

definition cJSON_PrintUnformatted :: "cJSON \<Rightarrow> bytes option" where
  "cJSON_PrintUnformatted item = print_value item"

section \<open>Parsing a tree\<close>

definition skip_whitespace :: "bytes \<Rightarrow> bytes" where
  "skip_whitespace t = dropWhile (\<lambda>c. (of_char c :: nat) \<le> 32) t"

type_synonym parser = "bytes \<Rightarrow> (cJSON \<times> bytes) option"

fun parse_elements :: "parser \<Rightarrow> nat \<Rightarrow> bytes \<Rightarrow> (cJSON list \<times> bytes) option" where
  "parse_elements pv 0 t = None"
| "parse_elements pv (Suc n) t =
     (case pv (skip_whitespace t) of None \<Rightarrow> None
      | Some (v, r) \<Rightarrow>
          (case skip_whitespace r of [] \<Rightarrow> None
           | c # q \<Rightarrow>
               if c = CHR '','' then map_option (\<lambda>(vs, q'). (v # vs, q')) (parse_elements pv n q)
               else if c = CHR '']'' then Some ([v], q) else None))"

definition parse_array :: "parser \<Rightarrow> bytes \<Rightarrow> (cJSON \<times> bytes) option" where
  "parse_array pv t =
     (let u = skip_whitespace (tl t)
      in if u \<noteq> [] \<and> hd u = CHR '']'' then Some (cJSON_Array [], tl u)
         else map_option (\<lambda>(vs, q). (cJSON_Array vs, q)) (parse_elements pv (Suc (length u)) u))"

fun parse_members :: "parser \<Rightarrow> nat \<Rightarrow> bytes \<Rightarrow> ((bytes \<times> cJSON) list \<times> bytes) option" where
  "parse_members pv 0 t = None"
| "parse_members pv (Suc n) t =
     (case parse_string (skip_whitespace t) of None \<Rightarrow> None
      | Some (k, r1) \<Rightarrow>
          (case skip_whitespace r1 of [] \<Rightarrow> None
           | c1 # r2 \<Rightarrow>
               if c1 \<noteq> CHR '':'' then None
               else (case pv (skip_whitespace r2) of None \<Rightarrow> None
                     | Some (v, r) \<Rightarrow>
                         (case skip_whitespace r of [] \<Rightarrow> None
                          | c # q \<Rightarrow>
                              if c = CHR '','' then map_option (\<lambda>(vs, q'). ((k, v) # vs, q')) (parse_members pv n q)
                              else if c = CHR 0x7D then Some ([(k, v)], q) else None))))"

definition parse_object :: "parser \<Rightarrow> bytes \<Rightarrow> (cJSON \<times> bytes) option" where
  "parse_object pv t =
     (let u = skip_whitespace (tl t)
      in if u \<noteq> [] \<and> hd u = CHR 0x7D then Some (cJSON_Object [], tl u)
         else map_option (\<lambda>(vs, q). (cJSON_Object vs, q)) (parse_members pv (Suc (length u)) u))"

fun parse_value :: "nat \<Rightarrow> bytes \<Rightarrow> (cJSON \<times> bytes) option" where
  "parse_value depth_left t =
     (if take 4 t = ''null'' then Some (cJSON_NULL, drop 4 t)
      else if take 5 t = ''false'' then Some (cJSON_False, drop 5 t)
      else if take 4 t = ''true'' then Some (cJSON_True, drop 4 t)
      else if t = [] then None
      else if hd t = CHR 0x22 then map_option (\<lambda>(s, r). (cJSON_String s, r)) (parse_string t)
      else if hd t = CHR ''-'' \<or> isdigit (hd t) then parse_number t
      else if hd t = CHR ''['' then
        (if depth_left = 0 then None else parse_array (\<lambda>u. parse_value (depth_left - 1) u) t)
      else if hd t = CHR 0x7B then
        (if depth_left = 0 then None else parse_object (\<lambda>u. parse_value (depth_left - 1) u) t)
      else None)"

declare parse_value.simps [simp del]

definition skip_utf8_bom :: "bytes \<Rightarrow> bytes" where
  "skip_utf8_bom t = (if 4 \<le> length t \<and> take 3 t = [CHR 0xEF, CHR 0xBB, CHR 0xBF] then drop 3 t else t)"

definition cJSON_Parse :: "bytes \<Rightarrow> cJSON option" where
  "cJSON_Parse value =
     map_option fst (parse_value CJSON_NESTING_LIMIT (skip_whitespace (skip_utf8_bom value)))"

section \<open>Lookup and construction\<close>

definition tolower :: "char \<Rightarrow> char" where
  "tolower c = (let n = (of_char c :: nat) in if 65 \<le> n \<and> n \<le> 90 then char_of (n + 32) else c)"

definition case_insensitive_eq :: "bytes \<Rightarrow> bytes \<Rightarrow> bool" where
  "case_insensitive_eq a b \<longleftrightarrow> map tolower a = map tolower b"

definition cJSON_GetObjectItem :: "cJSON option \<Rightarrow> bytes \<Rightarrow> cJSON option" where
  "cJSON_GetObjectItem object name = (case object of
     Some (cJSON_Object ms) \<Rightarrow> map_option snd (List.find (\<lambda>(k, v). case_insensitive_eq name k) ms)
   | _ \<Rightarrow> None)"

definition cJSON_GetArrayItem :: "cJSON option \<Rightarrow> int \<Rightarrow> cJSON option" where
  "cJSON_GetArrayItem array index =
     (let children = (case array of Some (cJSON_Array xs) \<Rightarrow> xs
        | Some (cJSON_Object ms) \<Rightarrow> map snd ms | _ \<Rightarrow> [])
      in if index < 0 \<or> int (length children) \<le> index then None else Some (children ! nat index))"

definition json_get_int :: "cJSON option \<Rightarrow> bytes \<Rightarrow> int" where
  "json_get_int json key = (case cJSON_GetObjectItem json key of
     Some (cJSON_Number d) \<Rightarrow> valueint d | _ \<Rightarrow> -1)"

definition json_get_string :: "cJSON option \<Rightarrow> bytes \<Rightarrow> bytes" where
  "json_get_string json key = (case cJSON_GetObjectItem json key of
     Some (cJSON_String s) \<Rightarrow> s | _ \<Rightarrow> [])"

definition cJSON_CreateObject :: cJSON where "cJSON_CreateObject = cJSON_Object []"
definition cJSON_CreateArray :: cJSON where "cJSON_CreateArray = cJSON_Array []"
definition cJSON_CreateNumber :: "int \<Rightarrow> cJSON" where "cJSON_CreateNumber n = cJSON_Number (of_int n)"

definition cJSON_AddItemToObject :: "cJSON \<Rightarrow> bytes \<Rightarrow> cJSON \<Rightarrow> cJSON" where
  "cJSON_AddItemToObject object name item = (case object of
     cJSON_Object ms \<Rightarrow> cJSON_Object (ms @ [(name, item)]) | _ \<Rightarrow> object)"

definition cJSON_AddItemToArray :: "cJSON \<Rightarrow> cJSON \<Rightarrow> cJSON" where
  "cJSON_AddItemToArray array item = (case array of
     cJSON_Array xs \<Rightarrow> cJSON_Array (xs @ [item]) | _ \<Rightarrow> array)"

definition cJSON_AddNumberToObject :: "cJSON \<Rightarrow> bytes \<Rightarrow> int \<Rightarrow> cJSON" where
  "cJSON_AddNumberToObject object name number =
     cJSON_AddItemToObject object name (cJSON_CreateNumber number)"

definition cJSON_AddStringToObject :: "cJSON \<Rightarrow> bytes \<Rightarrow> bytes \<Rightarrow> cJSON" where
  "cJSON_AddStringToObject object name string =
     cJSON_AddItemToObject object name (cJSON_String string)"

end
