(* ===== verification/CJsonRoundtrip.thy ===== *)
theory CJsonRoundtrip
  imports CJson
begin

text \<open>
  Printing and parsing are inverse: whatever tree the platform prints, the parser reads it back,
  and ignores the bytes that follow it. The server and the client both rest on this, because they
  parse the whole receive buffer although a message only overwrites its front.
\<close>

section \<open>Numbers\<close>

lemma take_sign_show:
  "take_sign (show_int i) = (if i < 0 then -1 else 1, show_nat (nat \<bar>i\<bar>))"
proof (cases "i < 0")
  case True
  then show ?thesis by (simp add: show_int_def take_sign_def)
next
  case False
  obtain c r where cr: "show_nat (nat i) = c # r" by (metis show_nat_nonempty list.exhaust)
  then have "isdigit c" using show_nat_isdigit [of c "nat i"] by simp
  then have "c \<noteq> CHR ''-'' \<and> c \<noteq> CHR ''+''" by (auto simp: isdigit_def)
  then show ?thesis using False cr by (simp add: show_int_def take_sign_def)
qed

lemma strtod_show:
  assumes "\<bar>i\<bar> < 2 ^ 53"
  shows "strtod (show_int i) = (of_int i, length (show_int i))"
proof -
  have fr: "take_fraction [] = ([], [])" "take_exponent [] = (0, [])"
    by (simp_all add: take_fraction_def take_exponent_def)
  have ex: "double (of_int i) = of_int i" using round_sig_int [OF assms] by (simp add: double_def)
  have "of_int (if i < 0 then -1 else 1) * of_nat (nat \<bar>i\<bar>) = (of_int i :: rat)" by simp
  then show ?thesis
    unfolding strtod_def take_sign_show Let_def prod.case takeWhile_digits fr
    using ex by simp
qed

definition no_number_char :: "bytes \<Rightarrow> bool" where
  "no_number_char rest \<longleftrightarrow> (rest = [] \<or> \<not> number_char (hd rest))"

lemma show_int_number_chars: "c \<in> set (show_int i) \<Longrightarrow> number_char c"
  using show_nat_isdigit by (auto simp: show_int_def number_char_def split: if_splits)

lemma show_int_start: "\<exists>c r. show_int i = c # r \<and> (c = CHR ''-'' \<or> isdigit c)"
proof (cases "i < 0")
  case False
  obtain c r where cr: "show_nat (nat i) = c # r" by (metis show_nat_nonempty list.exhaust)
  then show ?thesis using False show_nat_isdigit [of c "nat i"] by (simp add: show_int_def)
qed (simp add: show_int_def)

lemma valueint_of_int: "int_range i \<Longrightarrow> valueint (of_int i) = i"
  by (auto simp: valueint_def INT_MAX_def INT_MIN_def c_trunc_def int_range_def)

text \<open>The finite \<open>double\<close>s.\<close>

definition is_double :: "rat \<Rightarrow> bool" where
  "is_double d \<longleftrightarrow> double d = d \<and> (d = 0 \<or> double_range d)"

definition reread_number :: "rat \<Rightarrow> rat" where
  "reread_number d = fst (strtod (number_text (valueint d) d))"

lemma is_double_int: "int_range i \<Longrightarrow> is_double (of_int i)"
proof -
  assume i: "int_range i"
  then have "\<bar>i\<bar> \<le> 2 ^ 31" by (auto simp: int_range_def)
  then have "\<bar>of_int i :: rat\<bar> \<le> 2 ^ 31" by (metis of_int_abs of_int_le_numeral_power_cancel_iff)
  also have "(2 :: rat) ^ 31 < 2 powi 1024" by simp
  finally have hi: "\<bar>of_int i :: rat\<bar> < 2 powi 1024" .
  have "i \<noteq> 0 \<Longrightarrow> (2 :: rat) powi (-1074) \<le> \<bar>of_int i\<bar>" 
    by (rule order_trans [of _ 1]) (simp_all add: power_int_minus flip: of_int_abs)
  then show ?thesis using hi round_sig_int [of i 53] i by (auto simp: is_double_def double_range_def double_def int_range_def)
qed

lemma compare_double_refl: "compare_double d d"
  using round_sig_nonneg [of "\<bar>d\<bar> * DBL_EPSILON" 53] by (simp add: compare_double_def double_def DBL_EPSILON_def)

lemma valueint_range: "int_range (valueint d)"
proof (cases "of_int INT_MAX \<le> d \<or> d \<le> of_int INT_MIN")
  case False
  then have "of_int (-2147483648) < d" "d < of_int 2147483647" by (simp_all add: INT_MAX_def INT_MIN_def)
  then have "-2147483648 \<le> c_trunc d \<and> c_trunc d \<le> 2147483647" by (auto simp: c_trunc_def le_ceiling_iff le_floor_iff floor_le_iff ceiling_le_iff)
  then show ?thesis using False by (auto simp: valueint_def int_range_def)
qed (auto simp: valueint_def INT_MAX_def INT_MIN_def int_range_def)

lemma show_int_length: "int_range i \<Longrightarrow> length (show_int i) \<le> 11"
proof -
  assume "int_range i"
  then have "nat \<bar>i\<bar> < 10 ^ 10" by (auto simp: int_range_def)
  then have "length (show_nat (nat \<bar>i\<bar>)) \<le> 10" by (subst length_show_nat) simp
  then show ?thesis by (auto simp: show_int_def)
qed

lemma number_text_chars: "c \<in> set (number_text i d) \<Longrightarrow> number_char c"
proof -
  have "number_char c" if "c \<in> set (sprintf_g (Suc p) d)" for p
  proof (cases "d = 0")
    case True
    then show ?thesis using that by (simp add: sprintf_g_def number_char_def isdigit_def)
  next
    case False
    then show ?thesis using sprintf_g_chars(1) that by blast
  qed
  from this [of 14] this [of 16] show "c \<in> set (number_text i d) \<Longrightarrow> number_char c"
    using show_int_number_chars by (auto simp: number_text_def Let_def split: if_splits prod.splits)
qed

text \<open>A printed \<open>double\<close> fits the buffer of 26 bytes and reads back as the same number, up to what
  \<open>compare_double\<close> tolerates.\<close>

lemma number_text_double:
  assumes "is_double d" "int_range i"
  shows "length (number_text i d) \<le> 24" "strtod (number_text i d) = (fst (strtod (number_text i d)), length (number_text i d))"
    "compare_double (fst (strtod (number_text i d))) d" "\<forall>c \<in> set (number_text i d). number_char c"
    "\<exists>c r. number_text i d = c # r \<and> (c = CHR ''-'' \<or> isdigit c)"
proof -
  consider "d = of_int i" | "d \<noteq> of_int i" "d = 0" | "d \<noteq> of_int i" "d \<noteq> 0" by blast
  then have "length (number_text i d) \<le> 24 \<and> (\<exists>e. strtod (number_text i d) = (e, length (number_text i d)) \<and> compare_double e d) \<and>
    (\<forall>c \<in> set (number_text i d). number_char c) \<and> (\<exists>c r. number_text i d = c # r \<and> (c = CHR ''-'' \<or> isdigit c))"
  proof cases
    case 1
    have "\<bar>i\<bar> < 2 ^ 53" using assms(2) by (auto simp: int_range_def)
    from strtod_show [OF this] show ?thesis
      using 1 show_int_length [OF assms(2)] compare_double_refl show_int_number_chars show_int_start by (auto simp: number_text_def)
  next
    case 2
    have "sprintf_g 17 0 = ''0''" "sprintf_g 15 0 = ''0''" by (simp_all add: sprintf_g_def)
    moreover have "strtod ''0'' = (0, 1)" using strtod_sprintf_17 [of 0] by (simp add: sprintf_g_def double_def)
    ultimately show ?thesis using 2 compare_double_refl [of 0] by (simp add: number_text_def number_char_def isdigit_def)
  next
    case 3
    have r: "double_range d" "double d = d" using assms(1) 3 by (auto simp: is_double_def)
    have s: "length (sprintf_g (Suc p) d) \<le> p + 8" "\<forall>c \<in> set (sprintf_g (Suc p) d). number_char c"
      "\<exists>c r. sprintf_g (Suc p) d = c # r \<and> (c = CHR ''-'' \<or> isdigit c)" for p
      using sprintf_g_length [OF r(1)] sprintf_g_chars [OF 3(2)] by blast+
    obtain n x where "significand (Suc 14) d = (n, x)" by fastforce
    from strtod_sprintf [OF 3(2) this] obtain e where e: "strtod (sprintf_g 15 d) = (e, length (sprintf_g 15 d))" by auto
    show ?thesis
    proof (cases "compare_double e d \<and> sprintf_g 15 d \<noteq> []")
      case True
      then show ?thesis using 3(1) e s [of 14] by (simp add: number_text_def)
    next
      case False
      then have "number_text i d = sprintf_g 17 d" using 3(1) e by (auto simp: number_text_def)
      then show ?thesis using s [of 16] strtod_sprintf_17 [OF r(2)] compare_double_refl by simp
    qed
  qed
  then show "length (number_text i d) \<le> 24" "strtod (number_text i d) = (fst (strtod (number_text i d)), length (number_text i d))"
    "compare_double (fst (strtod (number_text i d))) d" "\<forall>c \<in> set (number_text i d). number_char c"
    "\<exists>c r. number_text i d = c # r \<and> (c = CHR ''-'' \<or> isdigit c)" by auto
qed

lemma print_number_double: "is_double d \<Longrightarrow> print_number d = Some (number_text (valueint d) d)"
  using number_text_double(1) [of d "valueint d"] valueint_range [of d] by (simp add: print_number_def number_buffer_def Let_def)

lemma print_number_int: "int_range i \<Longrightarrow> print_number (of_int i) = Some (show_int i)"
  by (simp add: print_number_double is_double_int number_text_def valueint_of_int)

lemma reread_int: "int_range i \<Longrightarrow> reread_number (of_int i) = of_int i"
proof -
  assume i: "int_range i"
  then have "\<bar>i\<bar> < 2 ^ 53" by (auto simp: int_range_def)
  from strtod_show [OF this] show ?thesis using i by (simp add: reread_number_def number_text_def valueint_of_int)
qed

lemma parse_number_print:
  assumes "is_double d" "no_number_char rest"
  shows "parse_number (number_text (valueint d) d @ rest) = Some (cJSON_Number (reread_number d), rest)"
proof -
  let ?s = "number_text (valueint d) d"
  note t = number_text_double [OF assms(1) valueint_range [of d]]
  have "takeWhile number_char (?s @ rest) = ?s"
    using assms(2) t(4) by (subst takeWhile_append2) (auto simp: no_number_char_def takeWhile_eq_Nil_iff)
  moreover obtain e where "strtod ?s = (e, length ?s)" using t(2) by blast
  moreover have "?s \<noteq> []" using t(5) by auto
  ultimately show ?thesis by (simp add: parse_number_def reread_number_def)
qed

section \<open>Strings\<close>

lemma string_end_plain:
  "c \<noteq> CHR 0x22 \<Longrightarrow> c \<noteq> CHR 0x5C \<Longrightarrow> string_end (c # X) = map_option (\<lambda>(a, r). (c # a, r)) (string_end X)"
  by simp

lemma hex_digit_code:
  "n < 16 \<Longrightarrow> of_char (hex_digit n) = (if n < 10 then 48 + n else 87 + n)"
  by (simp add: hex_digit_def)

lemma hex_value_digit: "n < 16 \<Longrightarrow> hex_value (hex_digit n) = Some n"
  by (simp add: hex_digit_code Let_def)

lemma hex_digit_plain: "n < 16 \<Longrightarrow> hex_digit n \<noteq> CHR 0x22 \<and> hex_digit n \<noteq> CHR 0x5C"
proof -
  assume "n < 16"
  then have "of_char (hex_digit n) \<ge> (48::nat)" "of_char (hex_digit n) \<noteq> (92::nat)"
    by (auto simp: hex_digit_code)
  then show ?thesis by auto
qed

lemma escape_cases:
  obtains (plain) "escape_char c = [c]" "c \<noteq> CHR 0x22" "c \<noteq> CHR 0x5C"
  | (simple) e where "escape_char c = [CHR 0x5C, e]" "simple_escape e = Some c" "e \<noteq> CHR ''u''"
  | (unicode) "escape_char c = CHR 0x5C # ''u00'' @ [hex_digit (of_char c div 16), hex_digit (of_char c mod 16)]"
      "of_char c < (32::nat)"
proof (cases "31 < (of_char c :: nat) \<and> c \<noteq> CHR 0x22 \<and> c \<noteq> CHR 0x5C")
  case True
  then show ?thesis by (intro plain) (simp_all add: escape_char_def)
next
  case False
  consider "c = CHR 0x5C" | "c = CHR 0x22" | "c = CHR 0x08" | "c = CHR 0x0C" | "c = CHR 0x0A" | "c = CHR 0x0D"
    | "c = CHR 0x09" | "c \<notin> {CHR 0x5C, CHR 0x22, CHR 0x08, CHR 0x0C, CHR 0x0A, CHR 0x0D, CHR 0x09}" by blast
  then show ?thesis
  proof cases
    case 1 show ?thesis by (rule simple [of "CHR 0x5C"]) (simp_all add: 1 escape_char_def simple_escape_def)
  next
    case 2 show ?thesis by (rule simple [of "CHR 0x22"]) (simp_all add: 2 escape_char_def simple_escape_def)
  next
    case 3 show ?thesis by (rule simple [of "CHR ''b''"]) (simp_all add: 3 escape_char_def simple_escape_def)
  next
    case 4 show ?thesis by (rule simple [of "CHR ''f''"]) (simp_all add: 4 escape_char_def simple_escape_def)
  next
    case 5 show ?thesis by (rule simple [of "CHR ''n''"]) (simp_all add: 5 escape_char_def simple_escape_def)
  next
    case 6 show ?thesis by (rule simple [of "CHR ''r''"]) (simp_all add: 6 escape_char_def simple_escape_def)
  next
    case 7 show ?thesis by (rule simple [of "CHR ''t''"]) (simp_all add: 7 escape_char_def simple_escape_def)
  next
    case 8
    show ?thesis by (rule unicode) (use 8 False in \<open>auto simp: escape_char_def\<close>)
  qed
qed

lemma escape_char_no_nul: "CHR 0x00 \<notin> set (escape_char c)"
proof -
  have hex: "CHR 0x00 \<noteq> hex_digit n" if "n < 16" for n
  proof
    assume "CHR 0x00 = hex_digit n"
    then have "(of_char (hex_digit n) :: nat) = of_char (CHR 0x00)" by simp
    then show False using hex_digit_code [OF that] by (simp split: if_splits)
  qed
  show ?thesis
  proof (cases "31 < (of_char c :: nat) \<and> c \<noteq> CHR 0x22 \<and> c \<noteq> CHR 0x5C")
    case True
    then have "escape_char c = [c]" "CHR 0x00 \<noteq> c" by (auto simp: escape_char_def)
    then show ?thesis by simp
  next
    case False
    then have "of_char c div 16 < (16 :: nat)" by auto
    from hex [OF this] hex [of "of_char c mod 16"] show ?thesis unfolding escape_char_def if_not_P [OF False] by simp
  qed
qed

lemma print_string_no_nul: "no_nul (print_string_ptr s)"
  using escape_char_no_nul by (auto simp: print_string_ptr_def no_nul_def)

lemma number_buffer_no_nul: "number_buffer i d = Some s \<Longrightarrow> no_nul s"
  using number_text_chars [of "CHR 0x00" i d] by (auto simp: number_buffer_def Let_def no_nul_def number_char_def isdigit_def split: if_splits)

lemma print_no_nul:
  "print_value v = Some p \<Longrightarrow> no_nul p" "print_array xs = Some p \<Longrightarrow> no_nul p" "print_object ms = Some p \<Longrightarrow> no_nul p"
proof (induction v and xs and ms arbitrary: p and p and p rule: print_value_print_array_print_object.induct)
  case (4 x)
  then show ?case using number_buffer_no_nul by (simp add: print_number_def)
next
  case (5 s)
  then show ?case using print_string_no_nul by auto
next
  case (11 k v ms)
  then show ?case using print_string_no_nul [of k] by (fastforce simp: no_nul_def split: option.splits if_splits)
qed (fastforce simp: no_nul_def split: option.splits if_splits)+

lemma string_end_escape:
  "string_end (escape_char c @ X) = map_option (\<lambda>(a, r). (escape_char c @ a, r)) (string_end X)"
proof (cases rule: escape_cases [of c])
  case plain
  then show ?thesis by simp
next
  case (simple e)
  then show ?thesis by (simp add: option.map_comp comp_def case_prod_beta)
next
  case unicode
  then show ?thesis
    using hex_digit_plain [of "of_char c div 16"] hex_digit_plain [of "of_char c mod 16"]
    by (cases "string_end X") auto
qed

lemma string_end_print:
  "string_end (concat (map escape_char s) @ CHR 0x22 # rest) = Some (concat (map escape_char s), rest)"
  by (induction s) (simp_all add: string_end_escape)

lemma unescape_escape: "unescape (escape_char c @ X) = map_option ((#) c) (unescape X)"
proof (cases rule: escape_cases [of c])
  case plain
  then show ?thesis by simp
next
  case (simple e)
  then show ?thesis by simp
next
  case unicode
  let ?n = "of_char c :: nat"
  have h: "?n div 16 < 16" "?n mod 16 < 16" "?n < 32" using unicode(2) by simp_all
  have "parse_hex4 (''00'' @ [hex_digit (?n div 16), hex_digit (?n mod 16)] @ X) = ?n"
    using hex_value_digit [OF h(1)] hex_value_digit [OF h(2)] by (simp add: parse_hex4_def)
  then have "utf16_literal_to_utf8 (escape_char c @ X) = Some ([c], 6)"
    using unicode h by (simp add: utf16_literal_to_utf8_def utf8_def)
  moreover have "(@) [c] = (#) c" by (rule ext) simp
  ultimately show ?thesis using unicode by simp
qed

lemma unescape_print: "unescape (concat (map escape_char s)) = Some s"
  by (induction s) (simp_all add: unescape_escape)

lemma parse_string_print: "no_nul s \<Longrightarrow> parse_string (print_string_ptr s @ rest) = Some (s, rest)"
  by (simp add: parse_string_def print_string_ptr_def string_end_print unescape_print c_str_no_nul)

section \<open>Trees\<close>

fun nesting :: "cJSON \<Rightarrow> nat" where
  "nesting (cJSON_Array xs) = Suc (Max (insert 0 (nesting ` set xs)))"
| "nesting (cJSON_Object ms) = Suc (Max (insert 0 ((\<lambda>(k, v). nesting v) ` set ms)))"
| "nesting _ = 0"

text \<open>The trees the platform builds: strings are C strings, numbers are \<open>int\<close>s.\<close>

fun wf_json :: "cJSON \<Rightarrow> bool" where
  "wf_json (cJSON_Number d) = (\<exists>i. d = of_int i \<and> int_range i)"
| "wf_json (cJSON_String s) = no_nul s"
| "wf_json (cJSON_Array xs) = (\<forall>x \<in> set xs. wf_json x)"
| "wf_json (cJSON_Object ms) = (\<forall>(k, v) \<in> set ms. no_nul k \<and> wf_json v)"
| "wf_json _ = True"

lemma nesting_array: "x \<in> set xs \<Longrightarrow> nesting (cJSON_Array xs) \<le> Suc d \<Longrightarrow> nesting x \<le> d"
  by (simp add: Max_le_iff)

lemma nesting_object: "(k, v) \<in> set ms \<Longrightarrow> nesting (cJSON_Object ms) \<le> Suc d \<Longrightarrow> nesting v \<le> d"
  by (fastforce simp: Max_le_iff)

text \<open>What the parser makes of a printed tree, for any tree of C strings and finite \<open>double\<close>s.\<close>

fun double_json :: "cJSON \<Rightarrow> bool" where
  "double_json (cJSON_Number d) = is_double d"
| "double_json (cJSON_String s) = no_nul s"
| "double_json (cJSON_Array xs) = (\<forall>x \<in> set xs. double_json x)"
| "double_json (cJSON_Object ms) = (\<forall>(k, v) \<in> set ms. no_nul k \<and> double_json v)"
| "double_json _ = True"

fun reread :: "cJSON \<Rightarrow> cJSON" where
  "reread (cJSON_Number d) = cJSON_Number (reread_number d)"
| "reread (cJSON_Array xs) = cJSON_Array (map reread xs)"
| "reread (cJSON_Object ms) = cJSON_Object (map (\<lambda>(k, v). (k, reread v)) ms)"
| "reread v = v"

text \<open>The same tree up to what \<open>compare_double\<close> tolerates.\<close>

fun near :: "cJSON \<Rightarrow> cJSON \<Rightarrow> bool" where
  "near (cJSON_Number d) w = (\<exists>e. w = cJSON_Number e \<and> compare_double e d)"
| "near (cJSON_Array xs) w = (\<exists>ys. w = cJSON_Array ys \<and> list_all2 near xs ys)"
| "near (cJSON_Object ms) w = (\<exists>ns. w = cJSON_Object ns \<and> list_all2 (\<lambda>(k, v) (k', v'). k' = k \<and> near v v') ms ns)"
| "near v w = (w = v)"

lemma wf_double: "wf_json v \<Longrightarrow> double_json v"
  by (induction v rule: double_json.induct) (auto simp: is_double_int)

lemma wf_reread: "wf_json v \<Longrightarrow> reread v = v"
  by (induction v rule: reread.induct) (auto simp: reread_int intro!: map_idI)

lemma near_reread: "double_json v \<Longrightarrow> near v (reread v)"
proof (induction v rule: double_json.induct)
  case (1 d)
  then show ?case using number_text_double(3) [OF _ valueint_range] by (simp add: reread_number_def)
qed (auto simp: list_all2_map2 list_all2_same)

text \<open>What a printed value starts with is neither white space nor a closing bracket, so the parser
  stops in front of it and takes the branch of its kind.\<close>

definition value_start :: "char \<Rightarrow> bool" where
  "value_start c \<longleftrightarrow> c \<in> {CHR ''n'', CHR ''f'', CHR ''t'', CHR 0x22, CHR ''-'', CHR ''['', CHR 0x7B} \<or> isdigit c"

lemma skip_value_start: "value_start c \<Longrightarrow> skip_whitespace (c # X) = c # X"
  by (auto simp: skip_whitespace_def value_start_def isdigit_def)

lemma print_value_start:
  assumes "print_value v = Some p" "double_json v"
  shows "\<exists>c r. p = c # r \<and> value_start c"
proof (cases v)
  case (cJSON_Number d)
  then have "is_double d" "p = number_text (valueint d) d" using assms by (auto simp: print_number_double)
  then show ?thesis using number_text_double(5) [OF _ valueint_range] by (fastforce simp: value_start_def)
qed (use assms in \<open>auto simp: value_start_def print_string_ptr_def\<close>)

lemma print_value_total: "double_json v \<Longrightarrow> print_value v \<noteq> None"
  and print_array_total: "\<forall>x \<in> set xs. double_json x \<Longrightarrow> print_array xs \<noteq> None"
  and print_object_total: "\<forall>(k, v) \<in> set ms. double_json v \<Longrightarrow> print_object ms \<noteq> None"
  by (induction v and xs and ms rule: print_value_print_array_print_object.induct)
    (auto simp: print_number_double split: option.splits)

lemma parse_value_branches:
  "parse_value d (''null'' @ r) = Some (cJSON_NULL, r)"
  "parse_value d (''false'' @ r) = Some (cJSON_False, r)"
  "parse_value d (''true'' @ r) = Some (cJSON_True, r)"
  "parse_value d (CHR 0x22 # r) = map_option (\<lambda>(s, q). (cJSON_String s, q)) (parse_string (CHR 0x22 # r))"
  "parse_value (Suc d) (CHR ''['' # r) = parse_array (\<lambda>u. parse_value d u) (CHR ''['' # r)"
  "parse_value (Suc d) (CHR 0x7B # r) = parse_object (\<lambda>u. parse_value d u) (CHR 0x7B # r)"
  by (subst parse_value.simps; simp add: isdigit_def)+

lemmas parse_value_words = parse_value_branches(1-3) [simplified]

lemma parse_value_number:
  assumes "c = CHR ''-'' \<or> isdigit c"
  shows "parse_value d (c # r) = parse_number (c # r)"
proof -
  have "c \<notin> {CHR ''n'', CHR ''f'', CHR ''t'', CHR 0x22}" using assms by (auto simp: isdigit_def)
  then show ?thesis using assms by (subst parse_value.simps) simp
qed

lemma no_number_delim [simp]:
  "no_number_char (CHR '','' # r)" "no_number_char (CHR '']'' # r)" "no_number_char (CHR 0x7D # r)"
  by (simp_all add: no_number_char_def number_char_def isdigit_def)

lemma skip_delim [simp]:
  "skip_whitespace (CHR '','' # r) = CHR '','' # r" "skip_whitespace (CHR '']'' # r) = CHR '']'' # r"
  "skip_whitespace (CHR 0x7D # r) = CHR 0x7D # r" "skip_whitespace (CHR '':'' # r) = CHR '':'' # r"
  "skip_whitespace (CHR 0x22 # r) = CHR 0x22 # r"
  by (simp_all add: skip_whitespace_def)

lemma skip_print_value:
  assumes "print_value v = Some p" "double_json v"
  shows "skip_whitespace (p @ X) = p @ X"
  using print_value_start [OF assms] by (auto simp: skip_value_start)

lemma skip_print_string [simp]: "skip_whitespace (print_string_ptr k @ X) = print_string_ptr k @ X"
  by (simp add: print_string_ptr_def)

lemma parse_array_print:
  assumes "print_array xs = Some p" "\<forall>x \<in> set xs. double_json x"
    and "xs \<noteq> [] \<Longrightarrow> parse_elements pv (Suc (length (p @ CHR '']'' # rest))) (p @ CHR '']'' # rest) = Some (map reread xs, rest)"
  shows "parse_array pv (CHR ''['' # p @ CHR '']'' # rest) = Some (reread (cJSON_Array xs), rest)"
proof (cases xs)
  case Nil
  then show ?thesis using assms(1) by (simp add: parse_array_def)
next
  case (Cons x xs')
  then obtain p1 ps where p: "print_value x = Some p1" "p = p1 @ ps"
    using assms(1) by (auto split: option.splits)
  obtain c r where c: "p1 = c # r" "value_start c" using print_value_start [OF p(1)] assms(2) Cons by auto
  have "c \<noteq> CHR '']''" using c(2) by (auto simp: value_start_def isdigit_def)
  then show ?thesis using assms(3) Cons p(2) c by (simp add: parse_array_def skip_value_start)
qed

lemma parse_object_print:
  assumes "print_object ms = Some p"
    and "ms \<noteq> [] \<Longrightarrow> parse_members pv (Suc (length (p @ CHR 0x7D # rest))) (p @ CHR 0x7D # rest) = Some (map (\<lambda>(k, v). (k, reread v)) ms, rest)"
  shows "parse_object pv (CHR 0x7B # p @ CHR 0x7D # rest) = Some (reread (cJSON_Object ms), rest)"
proof (cases ms)
  case Nil
  then show ?thesis using assms(1) by (simp add: parse_object_def)
next
  case (Cons m ms')
  obtain k v where m: "m = (k, v)" by (cases m)
  obtain ps where p: "p = print_string_ptr k @ ps"
    using assms(1) Cons m by (auto split: option.splits)
  then show ?thesis using assms(2) Cons
    by (simp add: parse_object_def print_string_ptr_def)
qed

lemma parse_print:
  shows "double_json v \<Longrightarrow> nesting v \<le> d \<Longrightarrow> print_value v = Some p \<Longrightarrow> no_number_char rest \<Longrightarrow>
      parse_value d (p @ rest) = Some (reread v, rest)"
    and "xs \<noteq> [] \<Longrightarrow> \<forall>x \<in> set xs. double_json x \<and> nesting x \<le> d \<Longrightarrow> print_array xs = Some p \<Longrightarrow> length p \<le> n \<Longrightarrow>
      parse_elements (\<lambda>u. parse_value d u) n (p @ CHR '']'' # rest) = Some (map reread xs, rest)"
    and "ms \<noteq> [] \<Longrightarrow> \<forall>(k, v) \<in> set ms. no_nul k \<and> double_json v \<and> nesting v \<le> d \<Longrightarrow> print_object ms = Some p \<Longrightarrow>
      length p \<le> n \<Longrightarrow>
      parse_members (\<lambda>u. parse_value d u) n (p @ CHR 0x7D # rest) = Some (map (\<lambda>(k, v). (k, reread v)) ms, rest)"
proof (induction v and xs and ms arbitrary: d p rest and d p n rest and d p n rest
    rule: print_value_print_array_print_object.induct)
  case (4 x)
  then have "is_double x" "p = number_text (valueint x) x" by (auto simp: print_number_double)
  moreover obtain c r where "number_text (valueint x) x = c # r" "c = CHR ''-'' \<or> isdigit c"
    using number_text_double(5) [OF \<open>is_double x\<close> valueint_range] by blast
  ultimately show ?case using parse_number_print [of x rest] "4.prems"(4) parse_value_number [of c d "r @ rest"] by simp
next
  case (5 s)
  then have p: "p @ rest = CHR 0x22 # concat (map escape_char s) @ CHR 0x22 # rest"
    by (auto simp: print_string_ptr_def)
  have "parse_string (CHR 0x22 # concat (map escape_char s) @ CHR 0x22 # rest) = Some (s, rest)"
    using parse_string_print [of s rest] 5 by (simp add: print_string_ptr_def)
  then show ?case unfolding p parse_value_branches by simp
next
  case (6 xs)
  then obtain d' where d: "d = Suc d'" by (cases d) auto
  obtain b where b: "print_array xs = Some b" "p = CHR ''['' # b @ [CHR '']'']"
    using "6.prems" by auto
  have "parse_elements (\<lambda>u. parse_value d' u) (Suc (length (b @ CHR '']'' # rest))) (b @ CHR '']'' # rest)
      = Some (map reread xs, rest)" if "xs \<noteq> []"
    using that "6.prems" d b(1) nesting_array by (intro "6.IH") auto
  with parse_array_print [OF b(1)] "6.prems" show ?case
    by (simp add: b(2) d parse_value_branches)
next
  case (7 ms)
  then obtain d' where d: "d = Suc d'" by (cases d) auto
  obtain b where b: "print_object ms = Some b" "p = CHR 0x7B # b @ [CHR 0x7D]"
    using "7.prems" by auto
  have "parse_members (\<lambda>u. parse_value d' u) (Suc (length (b @ CHR 0x7D # rest))) (b @ CHR 0x7D # rest)
      = Some (map (\<lambda>(k, v). (k, reread v)) ms, rest)" if "ms \<noteq> []"
    using that "7.prems" d b(1) nesting_object by (intro "7.IH") auto
  with parse_object_print [OF b(1)] show ?case
    by (simp add: b(2) d parse_value_branches)
next
  case (9 x xs)
  obtain p1 ps where p: "print_value x = Some p1" "print_array xs = Some ps"
    "p = p1 @ (if xs = [] then [] else CHR '','' # ps)"
    using "9.prems"(3) by (auto split: option.splits)
  have wf: "double_json x" "nesting x \<le> d" using "9.prems"(2) by auto
  have "p1 \<noteq> []" using print_value_start [OF p(1) wf(1)] by auto
  then obtain m where n: "n = Suc m" using "9.prems"(4) p(3) by (cases n) auto
  show ?case
  proof (cases "xs = []")
    case True
    have "parse_value d (p1 @ CHR '']'' # rest) = Some (reread x, CHR '']'' # rest)"
      by (rule "9.IH"(1) [OF wf p(1)]) simp
    then show ?thesis using True p(3) n skip_print_value [OF p(1) wf(1)] by simp
  next
    case False
    have "parse_value d (p1 @ CHR '','' # ps @ CHR '']'' # rest) = Some (reread x, CHR '','' # ps @ CHR '']'' # rest)"
      by (rule "9.IH"(1) [OF wf p(1)]) simp
    moreover have "parse_elements (\<lambda>u. parse_value d u) m (ps @ CHR '']'' # rest) = Some (map reread xs, rest)"
      using False p "9.prems"(2,4) n by (intro "9.IH"(2)) auto
    ultimately show ?thesis using False p(3) n skip_print_value [OF p(1) wf(1)] by simp
  qed
next
  case (11 k v ms)
  obtain p1 ps where p: "print_value v = Some p1" "print_object ms = Some ps"
    "p = print_string_ptr k @ CHR '':'' # p1 @ (if ms = [] then [] else CHR '','' # ps)"
    using "11.prems"(3) by (auto split: option.splits)
  have wf: "no_nul k" "double_json v" "nesting v \<le> d" using "11.prems"(2) by auto
  obtain m where n: "n = Suc m" using "11.prems"(4) p(3) by (cases n) auto
  show ?case
  proof (cases "ms = []")
    case True
    have "parse_value d (p1 @ CHR 0x7D # rest) = Some (reread v, CHR 0x7D # rest)"
      by (rule "11.IH"(1) [OF wf(2,3) p(1)]) simp
    then show ?thesis
      using True p(3) n wf(1) skip_print_value [OF p(1) wf(2)] by (simp add: parse_string_print)
  next
    case False
    have "parse_value d (p1 @ CHR '','' # ps @ CHR 0x7D # rest) = Some (reread v, CHR '','' # ps @ CHR 0x7D # rest)"
      by (rule "11.IH"(1) [OF wf(2,3) p(1)]) simp
    moreover have "parse_members (\<lambda>u. parse_value d u) m (ps @ CHR 0x7D # rest) = Some (map (\<lambda>(k, v). (k, reread v)) ms, rest)"
      using False p "11.prems"(2,4) n by (intro "11.IH"(2)) auto
    ultimately show ?thesis
      using False p(3) n wf(1) skip_print_value [OF p(1) wf(2)] by (simp add: parse_string_print)
  qed
qed (auto simp: parse_value_words)

lemma print_parse_double:
  assumes "double_json (cJSON_Object ms)" "nesting (cJSON_Object ms) \<le> CJSON_NESTING_LIMIT"
  shows "\<exists>p. cJSON_PrintUnformatted (cJSON_Object ms) = Some p
    \<and> (\<forall>stale. cJSON_Parse (p @ stale) = Some (reread (cJSON_Object ms)))"
proof -
  obtain p where p: "print_value (cJSON_Object ms) = Some p"
    using print_value_total [OF assms(1)] by blast
  then obtain b where b: "print_object ms = Some b" "p = CHR 0x7B # b @ [CHR 0x7D]" by auto
  obtain d where d: "CJSON_NESTING_LIMIT = Suc d" by (simp add: CJSON_NESTING_LIMIT_def)
  have "parse_value CJSON_NESTING_LIMIT (p @ stale) = Some (reread (cJSON_Object ms), stale)" for stale
  proof -
    have "parse_members (\<lambda>u. parse_value d u) (Suc (length (b @ CHR 0x7D # stale))) (b @ CHR 0x7D # stale)
        = Some (map (\<lambda>(k, v). (k, reread v)) ms, stale)" if "ms \<noteq> []"
      using that assms b(1) nesting_object [of _ _ ms d] unfolding d by (intro parse_print(3)) auto
    from parse_object_print [OF b(1) this] show ?thesis unfolding d by (simp add: b(2) parse_value_branches)
  qed
  moreover have "skip_whitespace (skip_utf8_bom (p @ stale)) = p @ stale" for stale
    by (simp add: b(2) skip_utf8_bom_def skip_whitespace_def)
  ultimately show ?thesis using p by (auto simp: cJSON_Parse_def cJSON_PrintUnformatted_def)
qed

lemma print_parse_object:
  "wf_json (cJSON_Object ms) \<Longrightarrow> nesting (cJSON_Object ms) \<le> CJSON_NESTING_LIMIT \<Longrightarrow>
   \<exists>p. cJSON_PrintUnformatted (cJSON_Object ms) = Some p \<and> (\<forall>stale. cJSON_Parse (p @ stale) = Some (cJSON_Object ms))"
  using print_parse_double [OF wf_double] wf_reread [of "cJSON_Object ms"] by fastforce

text \<open>C18: A printed message is read back as the tree it was printed from, whatever follows it in the receive
  buffer: every tree of C strings and finite \<open>double\<close>s nested at most 1000 levels whose root is an object
  prints, and the parser returns that tree for every text that starts with the print; the numbers are the
  same up to the tolerance of \<open>compare_double\<close>, and exactly when they are \<open>int\<close>s.
\<close>
theorem json_print_parse:
  assumes "double_json (cJSON_Object ms)" "nesting (cJSON_Object ms) \<le> CJSON_NESTING_LIMIT"
  shows "\<exists>p w. cJSON_PrintUnformatted (cJSON_Object ms) = Some p \<and> (\<forall>stale. cJSON_Parse (p @ stale) = Some w) \<and>
    near (cJSON_Object ms) w \<and> (wf_json (cJSON_Object ms) \<longrightarrow> w = cJSON_Object ms)"
  using print_parse_double [OF assms] near_reread [OF assms(1)] wf_reread by blast

abbreviation demo_message :: cJSON where
  "demo_message \<equiv> cJSON_Object [(''op'', cJSON_Number 0), (''factor'', cJSON_Number (1 / 2)), (''username'', cJSON_String ''a\<newline>b'')]"

theorem json_print_parse_witness:
  "\<exists>p w. cJSON_PrintUnformatted demo_message = Some p \<and> cJSON_Parse (p @ ''x}'') = Some w \<and> near demo_message w"
proof -
  have "(2 :: rat) powi (-1074) \<le> 2 powi (-1)" by (intro power_int_increasing) simp_all
  then have "is_double (1 / 2)" by (simp add: is_double_def double_range_def power_int_minus)
  then have "double_json demo_message" using is_double_int [of 0] by (simp add: no_nul_def int_range_def)
  from json_print_parse [OF this] show ?thesis by (auto simp: CJSON_NESTING_LIMIT_def)
qed

section \<open>The fuel of the loops is enough\<close>

definition consumes :: "parser \<Rightarrow> bool" where
  "consumes pv \<longleftrightarrow> (\<forall>t v r. pv t = Some (v, r) \<longrightarrow> length r < length t)"

lemma skip_shorter: "length (skip_whitespace t) \<le> length t"
  by (simp add: skip_whitespace_def length_dropWhile_le)

lemma skip_Cons_shorter: "skip_whitespace t = c # q \<Longrightarrow> length q < length t"
  using skip_shorter [of t] by simp

lemma string_end_shorter: "string_end t = Some (a, r) \<Longrightarrow> length r < length t"
  by (induction t arbitrary: a r rule: string_end.induct) (fastforce split: if_splits list.splits)+

lemma parse_string_shorter: "parse_string t = Some (s, r) \<Longrightarrow> length r < length t"
  by (auto simp: parse_string_def dest!: string_end_shorter split: list.splits if_splits option.splits)

lemma parse_number_shorter: "parse_number t = Some (v, r) \<Longrightarrow> length r < length t"
  by (cases t) (auto simp: parse_number_def strtod_def take_sign_def take_fraction_def Let_def
      split: prod.splits if_splits)

lemma parse_elements_shorter:
  "consumes pv \<Longrightarrow> parse_elements pv n t = Some (vs, r) \<Longrightarrow> length r < length t"
proof (induction pv n t arbitrary: vs r rule: parse_elements.induct)
  case (2 pv n t)
  obtain v r1 c q where st: "pv (skip_whitespace t) = Some (v, r1)" "skip_whitespace r1 = c # q"
    using "2.prems"(2) by (auto split: option.splits list.splits)
  have lt: "length q < length t"
    using skip_Cons_shorter [OF st(2)] st(1) "2.prems"(1) skip_shorter [of t]
    unfolding consumes_def by (meson less_le_trans less_trans)
  show ?case
  proof (cases "c = CHR '',''")
    case True
    then obtain vs' where "parse_elements pv n q = Some (vs', r)"
      using "2.prems"(2) st by auto
    then show ?thesis using "2.IH" [OF st(1) refl st(2) True "2.prems"(1)] lt by fastforce
  next
    case False
    then show ?thesis using "2.prems"(2) st lt by (auto split: if_splits)
  qed
qed simp

text \<open>The loop over the elements behaves the same with any fuel above the length of the text.\<close>

lemma elements_fuel:
  "consumes pv \<Longrightarrow> length t < n \<Longrightarrow> parse_elements pv n t = parse_elements pv (Suc n) t"
proof (induction pv n t rule: parse_elements.induct)
  case (2 pv n t)
  have "parse_elements pv n q = parse_elements pv (Suc n) q"
    if st: "pv (skip_whitespace t) = Some (v, r1)" "skip_whitespace r1 = c # q" "c = CHR '',''" for v r1 c q
  proof (rule "2.IH" [OF st(1) refl st(2,3) "2.prems"(1)])
    have "length r1 < length (skip_whitespace t)" using "2.prems"(1) st(1) by (simp add: consumes_def)
    then show "length q < n" using skip_Cons_shorter [OF st(2)] skip_shorter [of t] "2.prems"(2) by linarith
  qed
  then show ?case by (auto split: option.split list.split simp del: parse_elements.simps(2) simp: parse_elements.simps(2) [of pv])
qed simp

lemma member_step:
  assumes "consumes pv" "parse_string (skip_whitespace t) = Some (k, r1)" "skip_whitespace r1 = c1 # r2"
    "pv (skip_whitespace r2) = Some (v, r)" "skip_whitespace r = c # q"
  shows "length q < length t"
proof -
  have "length r1 < length (skip_whitespace t)" using parse_string_shorter assms(2) by blast
  moreover have "length r < length (skip_whitespace r2)" using assms(1,4) by (simp add: consumes_def)
  ultimately show ?thesis
    using skip_Cons_shorter [OF assms(3)] skip_Cons_shorter [OF assms(5)] skip_shorter [of t]
      skip_shorter [of r2] by linarith
qed

lemma parse_members_shorter:
  "consumes pv \<Longrightarrow> parse_members pv n t = Some (vs, r) \<Longrightarrow> length r < length t"
proof (induction n arbitrary: t vs r)
  case (Suc n)
  obtain k r1 c1 r2 v r3 c q where st: "parse_string (skip_whitespace t) = Some (k, r1)"
    "skip_whitespace r1 = c1 # r2" "c1 = CHR '':''" "pv (skip_whitespace r2) = Some (v, r3)"
    "skip_whitespace r3 = c # q"
    using Suc.prems(2) by (auto split: option.splits list.splits if_splits)
  note lt = member_step [OF Suc.prems(1) st(1,2,4,5)]
  show ?case
  proof (cases "c = CHR '',''")
    case True
    then obtain vs' where "parse_members pv n q = Some (vs', r)"
      using Suc.prems(2) st by auto
    then show ?thesis using Suc.IH [OF Suc.prems(1)] lt by fastforce
  next
    case False
    then show ?thesis using Suc.prems(2) st lt by (auto split: if_splits)
  qed
qed simp

lemma members_fuel:
  "consumes pv \<Longrightarrow> length t < n \<Longrightarrow> parse_members pv n t = parse_members pv (Suc n) t"
proof (induction n arbitrary: t)
  case (Suc n)
  have "parse_members pv n q = parse_members pv (Suc n) q"
    if "parse_string (skip_whitespace t) = Some (k, r1)" "skip_whitespace r1 = c1 # r2"
      "pv (skip_whitespace r2) = Some (v, r3)" "skip_whitespace r3 = c # q" for k r1 c1 r2 v r3 c q
    using member_step [OF Suc.prems(1) that] Suc.prems by (intro Suc.IH) auto
  then show ?case
    by (auto split: option.split list.split simp del: parse_members.simps(2) simp: parse_members.simps(2) [of pv])
qed simp

lemma parse_array_shorter:
  assumes "consumes pv" "parse_array pv t = Some (v, r)" "t \<noteq> []"
  shows "length r < length t"
proof -
  define u where "u = skip_whitespace (tl t)"
  have u: "length u < length t"
    using skip_shorter [of "tl t"] assms(3) by (cases t) (auto simp: u_def)
  show ?thesis
  proof (cases "u \<noteq> [] \<and> hd u = CHR '']''")
    case True
    then have "r = tl u" using assms(2) by (simp add: parse_array_def u_def Let_def)
    then show ?thesis using u by simp
  next
    case False
    then obtain vs where "parse_elements pv (Suc (length u)) u = Some (vs, r)"
      using assms(2) unfolding parse_array_def u_def [symmetric] Let_def
      by (auto simp del: parse_elements.simps)
    from parse_elements_shorter [OF assms(1) this] u show ?thesis by simp
  qed
qed

lemma parse_object_shorter:
  assumes "consumes pv" "parse_object pv t = Some (v, r)" "t \<noteq> []"
  shows "length r < length t"
proof -
  define u where "u = skip_whitespace (tl t)"
  have u: "length u < length t"
    using skip_shorter [of "tl t"] assms(3) by (cases t) (auto simp: u_def)
  show ?thesis
  proof (cases "u \<noteq> [] \<and> hd u = CHR 0x7D")
    case True
    then have "r = tl u" using assms(2) by (simp add: parse_object_def u_def Let_def)
    then show ?thesis using u by simp
  next
    case False
    then obtain vs where "parse_members pv (Suc (length u)) u = Some (vs, r)"
      using assms(2) unfolding parse_object_def u_def [symmetric] Let_def
      by (auto simp del: parse_members.simps)
    from parse_members_shorter [OF assms(1) this] u show ?thesis by simp
  qed
qed

lemma parse_value_consumes: "consumes (\<lambda>u. parse_value d u)"
proof (induction d)
  case 0
  have "parse_value 0 t = Some (v, r) \<Longrightarrow> length r < length t" for t v r
    by (subst (asm) parse_value.simps)
      (auto dest: parse_string_shorter parse_number_shorter split: if_splits; cases t; simp)
  then show ?case by (simp add: consumes_def)
next
  case (Suc d)
  have "parse_value (Suc d) t = Some (v, r) \<Longrightarrow> length r < length t" for t v r
    by (subst (asm) parse_value.simps)
      (auto dest: parse_string_shorter parse_number_shorter parse_array_shorter [OF Suc.IH]
        parse_object_shorter [OF Suc.IH] split: if_splits; cases t; simp)
  then show ?case by (simp add: consumes_def)
qed

text \<open>the loops of the parser over array elements and object members always come to an end
  within the length of the text: any fuel above it gives the same result, at every nesting level.\<close>

theorem parser_fuel_enough:
  assumes "length t < n"
  shows "parse_elements (parse_value d) n t = parse_elements (parse_value d) (Suc (length t)) t
    \<and> parse_members (parse_value d) n t = parse_members (parse_value d) (Suc (length t)) t"
proof -
  have c: "consumes (parse_value d)" using parse_value_consumes by simp
  have "parse_elements (parse_value d) (Suc (length t) + k) t = parse_elements (parse_value d) (Suc (length t)) t
    \<and> parse_members (parse_value d) (Suc (length t) + k) t = parse_members (parse_value d) (Suc (length t)) t" for k
  proof (induction k)
    case (Suc k)
    have lt: "length t < Suc (length t) + k" by simp
    show ?case
      using Suc.IH elements_fuel [OF c lt] members_fuel [OF c lt] unfolding add_Suc_right by metis
  qed (simp only: add_0_right simp_thms)
  from this [of "n - Suc (length t)"] assms show ?thesis
    by (simp del: parse_elements.simps parse_members.simps)
qed

theorem parser_fuel_enough_witness:
  "parse_elements (parse_value 5) 10 ''1,2]'' = parse_elements (parse_value 5) (Suc (length ''1,2]'')) ''1,2]''"
  by (rule parser_fuel_enough [of "''1,2]''" 10 5, THEN conjunct1]) simp

end
