(* ===== verification/Seccomp.thy ===== *)
theory Seccomp
  imports Main "HOL-Library.Word"
begin

text \<open>
  The sandbox of a judged program: the instruction macros of \<open>Utility/seccomp-bpf.h\<close>, the filter
  that \<open>submitProblem\<close> in \<open>Server/server.c\<close> builds from them, and the kernel's interpretation of
  the three kinds of instruction the filter uses (load a word of the \<open>seccomp_data\<close>, jump if the
  accumulator equals a constant, return). Words are 32 bits. Jump distances count the
  instructions that follow; running off the end of the filter is \<open>None\<close>.
\<close>

record seccomp_data =
  nr :: "32 word"
  arch :: "32 word"

datatype sock_filter = LD_W_ABS nat | JEQ_K "32 word" nat nat | RET_K "32 word"

abbreviation (input) syscall_nr :: nat where "syscall_nr \<equiv> 0"
abbreviation (input) arch_nr :: nat where "arch_nr \<equiv> 4"

definition SECCOMP_RET_KILL :: "32 word" where "SECCOMP_RET_KILL = 0x00000000"
definition SECCOMP_RET_ALLOW :: "32 word" where "SECCOMP_RET_ALLOW = 0x7fff0000"
definition ARCH_NR :: "32 word" where "ARCH_NR = 0xC000003E"

definition VALIDATE_ARCHITECTURE :: "sock_filter list" where
  "VALIDATE_ARCHITECTURE = [LD_W_ABS arch_nr, JEQ_K ARCH_NR 1 0, RET_K SECCOMP_RET_KILL]"

definition EXAMINE_SYSCALL :: "sock_filter list" where
  "EXAMINE_SYSCALL = [LD_W_ABS syscall_nr]"

definition ALLOW_SYSCALL :: "32 word \<Rightarrow> sock_filter list" where
  "ALLOW_SYSCALL n = [JEQ_K n 0 1, RET_K SECCOMP_RET_ALLOW]"

definition KILL_PROCESS :: "sock_filter list" where
  "KILL_PROCESS = [RET_K SECCOMP_RET_KILL]"

text \<open>The \<open>__NR_\<close> numbers of x86-64, in the order of the filter: read, write, readv, writev, close,
  fstat, newfstatat, lseek; mmap, mprotect, munmap, brk, mremap; execve, exit, exit_group;
  arch_prctl, set_tid_address, set_robust_list, rseq, uname, sysinfo, readlink, getrandom,
  prlimit64, access, faccessat.\<close>

definition allowed_syscalls :: "32 word list" where
  "allowed_syscalls = [0, 1, 19, 20, 3, 5, 262, 8, 9, 10, 11, 12, 25, 59, 60, 231,
     158, 218, 273, 334, 63, 99, 89, 318, 302, 21, 269]"

definition filter_program :: "sock_filter list" where
  "filter_program = VALIDATE_ARCHITECTURE @ EXAMINE_SYSCALL
     @ concat (map ALLOW_SYSCALL allowed_syscalls) @ KILL_PROCESS"

definition bpf_load :: "nat \<Rightarrow> seccomp_data \<Rightarrow> 32 word option" where
  "bpf_load off d = (if off = syscall_nr then Some (nr d) else if off = arch_nr then Some (arch d) else None)"

function bpf_run :: "sock_filter list \<Rightarrow> 32 word \<Rightarrow> seccomp_data \<Rightarrow> 32 word option" where
  "bpf_run [] A d = None"
| "bpf_run (LD_W_ABS off # is) A d = (case bpf_load off d of None \<Rightarrow> None | Some w \<Rightarrow> bpf_run is w d)"
| "bpf_run (JEQ_K k jt jf # is) A d = bpf_run (drop (if A = k then jt else jf) is) A d"
| "bpf_run (RET_K k # is) A d = Some k"
  by pat_completeness auto

termination
  by (relation "measure (\<lambda>(is, A, d). length is)") auto

lemma bpf_run_allow:
  "bpf_run (concat (map ALLOW_SYSCALL ns) @ is) A d
    = (if A \<in> set ns then Some SECCOMP_RET_ALLOW else bpf_run is A d)"
  by (induction ns) (simp_all add: ALLOW_SYSCALL_def)

text \<open>C37: a system call of the judged program is allowed exactly if it is made through the x86-64
  table and its number is one of the 27 listed; every other call of any architecture is killed. So
  open, openat, socket, connect, clone, fork, vfork, kill and ptrace are killed, while execve is
  allowed (the README says it is dropped).\<close>

theorem sandbox_filter_correct:
  "bpf_run filter_program A d
    = Some (if arch d = ARCH_NR \<and> nr d \<in> set allowed_syscalls then SECCOMP_RET_ALLOW else SECCOMP_RET_KILL)
   \<and> (\<forall>n \<in> {2, 257, 41, 42, 56, 57, 58, 62, 101}. n \<notin> set allowed_syscalls)
   \<and> 59 \<in> set allowed_syscalls \<and> SECCOMP_RET_ALLOW \<noteq> SECCOMP_RET_KILL"
proof (intro conjI)
  show "bpf_run filter_program A d
    = Some (if arch d = ARCH_NR \<and> nr d \<in> set allowed_syscalls then SECCOMP_RET_ALLOW else SECCOMP_RET_KILL)"
    by (simp add: filter_program_def VALIDATE_ARCHITECTURE_def EXAMINE_SYSCALL_def KILL_PROCESS_def
        bpf_load_def bpf_run_allow)
qed (simp_all add: allowed_syscalls_def SECCOMP_RET_ALLOW_def SECCOMP_RET_KILL_def)

theorem sandbox_filter_correct_witness:
  "bpf_run filter_program 0 \<lparr>nr = 1, arch = ARCH_NR\<rparr> = Some SECCOMP_RET_ALLOW
   \<and> bpf_run filter_program 0 \<lparr>nr = 41, arch = ARCH_NR\<rparr> = Some SECCOMP_RET_KILL"
  using sandbox_filter_correct [of 0 "\<lparr>nr = 1, arch = ARCH_NR\<rparr>"]
    sandbox_filter_correct [of 0 "\<lparr>nr = 41, arch = ARCH_NR\<rparr>"]
  by (simp add: allowed_syscalls_def)

end
