(* ===== verification/Registry.thy ===== *)
theory Registry
  imports Prelude "HOL-Library.Multiset"
begin

text \<open>
  The server keeps its active users and its pending challenges in the same shape: a fixed array
  of pointers of which the first \<open>n\<close> are in use, searched by name, where an entry is removed by
  moving the last one into its place. \<open>slots_ok\<close> is the array invariant, \<open>slot_items\<close> the
  entries in use, \<open>slot_find\<close>, \<open>slot_remove\<close> and the two lemmas on them the common part of the
  code. The locale \<open>registry\<close> is the interface: what a removal by key promises to the handlers.
\<close>

definition slots_ok :: "nat \<Rightarrow> nat \<Rightarrow> 'x option list \<Rightarrow> bool" where
  "slots_ok cap n xs \<longleftrightarrow> length xs = cap \<and> n \<le> cap \<and> (\<forall>i < cap. (xs ! i \<noteq> None) = (i < n))"

definition slot_items :: "nat \<Rightarrow> 'x option list \<Rightarrow> 'x list" where
  "slot_items n xs = map the (take n xs)"

text \<open>\<open>for(int i = 0; i < n; i++) if(xs[i] != NULL && P(xs[i]))\<close>: the index of the first hit.\<close>

fun slot_find :: "('x \<Rightarrow> bool) \<Rightarrow> 'x option list \<Rightarrow> nat \<Rightarrow> nat \<Rightarrow> nat option" where
  "slot_find P xs i 0 = None"
| "slot_find P xs i (Suc n) =
     (case xs ! i of
        Some x \<Rightarrow> if P x then Some i else slot_find P xs (Suc i) n
      | None \<Rightarrow> slot_find P xs (Suc i) n)"

text \<open>\<open>xs[i] = xs[n - 1]; xs[n - 1] = NULL\<close>.\<close>

definition slot_remove :: "nat \<Rightarrow> nat \<Rightarrow> 'x option list \<Rightarrow> 'x option list" where
  "slot_remove i n xs = (xs[i := xs ! (n - 1)])[n - 1 := None]"

lemma slots_okD:
  assumes "slots_ok cap n xs"
  shows "length xs = cap" "n \<le> cap" "i < n \<Longrightarrow> xs ! i = Some (slot_items n xs ! i)"
    "n \<le> i \<Longrightarrow> i < cap \<Longrightarrow> xs ! i = None" "length (slot_items n xs) = n"
  using assms by (auto simp: slots_ok_def slot_items_def)

lemma slot_find_items_aux:
  assumes "slots_ok cap n xs" "i + m = n"
  shows "slot_find P xs i m = map_option ((+) i) (find_index P (drop i (slot_items n xs)))"
  using assms
proof (induction m arbitrary: i)
  case 0
  then have "drop i (slot_items n xs) = []" using slots_okD(5) by fastforce
  then show ?case by simp
next
  case (Suc m)
  have i: "i < n" using Suc.prems by simp
  then have x: "xs ! i = Some (slot_items n xs ! i)" by (rule slots_okD(3) [OF Suc.prems(1)])
  have d: "drop i (slot_items n xs) = slot_items n xs ! i # drop (Suc i) (slot_items n xs)"
    using i slots_okD(5) [OF Suc.prems(1)] by (simp add: Cons_nth_drop_Suc)
  have "slot_find P xs (Suc i) m = map_option ((+) (Suc i)) (find_index P (drop (Suc i) (slot_items n xs)))"
    using Suc.prems by (intro Suc.IH) simp_all
  then show ?case unfolding d using x
    by (cases "find_index P (drop (Suc i) (slot_items n xs))") simp_all
qed

lemma slot_find_items: "slots_ok cap n xs \<Longrightarrow> slot_find P xs 0 n = find_index P (slot_items n xs)"
  using slot_find_items_aux [of cap n xs 0 n P] by (cases "find_index P (slot_items n xs)") (simp_all del: find_index_None)

lemma slot_remove_items:
  assumes "slots_ok cap n xs" "i < n"
  shows "slots_ok cap (n - 1) (slot_remove i n xs)"
    and "slot_items (n - 1) (slot_remove i n xs) = swap_remove i (slot_items n xs)"
proof -
  note ok = slots_okD [OF assms(1)]
  have n: "n - 1 < cap" "0 < n" using assms(2) ok(2) by simp_all
  show "slots_ok cap (n - 1) (slot_remove i n xs)"
    using assms n by (auto simp: slots_ok_def slot_remove_def nth_list_update)
  show "slot_items (n - 1) (slot_remove i n xs) = swap_remove i (slot_items n xs)"
  proof (rule nth_equalityI)
    show "length (slot_items (n - 1) (slot_remove i n xs)) = length (swap_remove i (slot_items n xs))"
      using ok(1,2,5) by (simp add: slot_items_def slot_remove_def)
  next
    fix j
    assume "j < length (slot_items (n - 1) (slot_remove i n xs))"
    then have j: "j < n - 1" using ok(1,2) by (simp add: slot_items_def slot_remove_def)
    have ne: "slot_items n xs \<noteq> []" using n ok(5) by auto
    have "last (slot_items n xs) = slot_items n xs ! (n - 1)"
      using ne ok(5) by (simp add: last_conv_nth)
    then have "swap_remove i (slot_items n xs) ! j
        = (if j = i then slot_items n xs ! (n - 1) else slot_items n xs ! j)"
      using j ok(5) assms(2) by (auto simp: swap_remove_def nth_butlast nth_list_update)
    moreover have "slot_remove i n xs ! j = (if j = i then xs ! (n - 1) else xs ! j)"
      using j ok(1,2) assms(2) n by (auto simp: slot_remove_def nth_list_update)
    then have "slot_items (n - 1) (slot_remove i n xs) ! j
        = the (if j = i then xs ! (n - 1) else xs ! j)"
      using j ok(1,2) by (simp add: slot_items_def slot_remove_def)
    ultimately show "slot_items (n - 1) (slot_remove i n xs) ! j = swap_remove i (slot_items n xs) ! j"
      using ok(3) [of j] ok(3) [of "n - 1"] j n by auto
  qed
qed

lemma slot_add_items:
  assumes "slots_ok cap n xs" "n < cap"
  shows "slots_ok cap (Suc n) (xs[n := Some x])"
    and "slot_items (Suc n) (xs[n := Some x]) = slot_items n xs @ [x]"
  using assms by (auto simp: slots_ok_def slot_items_def nth_list_update take_Suc_conv_app_nth)

lemma mset_swap_remove:
  assumes "i < length xs"
  shows "mset (swap_remove i xs) = mset xs - {#xs ! i#}"
proof -
  let ?ys = "xs[i := last xs]"
  have ne: "?ys \<noteq> []" using assms by auto
  have "last ?ys = last xs"
    using assms ne by (simp add: last_conv_nth nth_list_update)
  then have "?ys = swap_remove i xs @ [last xs]"
    using append_butlast_last_id [OF ne] by (simp add: swap_remove_def)
  then have "mset ?ys = add_mset (last xs) (mset (swap_remove i xs))" by simp
  moreover have "mset ?ys = add_mset (last xs) (mset xs - {#xs ! i#})"
    using assms by (rule mset_update)
  ultimately show ?thesis by simp
qed

locale registry =
  fixes ok :: "'s \<Rightarrow> bool"
    and items :: "'s \<Rightarrow> 'x list"
    and cap :: nat
    and hit :: "'k \<Rightarrow> 'x \<Rightarrow> bool"
    and rm :: "'k \<Rightarrow> 's \<Rightarrow> (int \<times> 's) option"
  assumes cap: "ok s \<Longrightarrow> length (items s) \<le> cap"
    and rm_missing: "ok s \<Longrightarrow> find_index (hit k) (items s) = None \<Longrightarrow> \<exists>r. rm k s = Some (r, s) \<and> r \<noteq> 0"
    and rm_found: "ok s \<Longrightarrow> find_index (hit k) (items s) = Some i \<Longrightarrow>
      \<exists>s'. rm k s = Some (0, s') \<and> ok s' \<and> items s' = swap_remove i (items s)"
begin

lemma rm_defined: "ok s \<Longrightarrow> \<exists>r s'. rm k s = Some (r, s') \<and> ok s'"
  using rm_missing [of s k] rm_found [of s k] by (cases "find_index (hit k) (items s)") blast+

lemma rm_result: "ok s \<Longrightarrow> rm k s = Some (r, s') \<Longrightarrow> r = 0 \<longleftrightarrow> (\<exists>x \<in> set (items s). hit k x)"
proof (cases "find_index (hit k) (items s)")
  case None
  assume "ok s" "rm k s = Some (r, s')"
  then show ?thesis using rm_missing [OF _ None] None by auto
next
  case (Some i)
  assume "ok s" "rm k s = Some (r, s')"
  then show ?thesis using rm_found [OF _ Some] find_index_Some [OF Some] nth_mem by fastforce
qed

lemma rm_subset: "ok s \<Longrightarrow> rm k s = Some (r, s') \<Longrightarrow> set (items s') \<subseteq> set (items s)"
proof (cases "find_index (hit k) (items s)")
  case None
  assume "ok s" "rm k s = Some (r, s')"
  then show ?thesis using rm_missing [OF _ None] by auto
next
  case (Some i)
  assume h: "ok s" "rm k s = Some (r, s')"
  have "i < length (items s)" using find_index_Some [OF Some] by simp
  from set_swap_remove_subset [OF this] show ?thesis using rm_found [OF h(1) Some] h(2) by auto
qed

lemma rm_length: "ok s \<Longrightarrow> rm k s = Some (0, s') \<Longrightarrow> length (items s') = length (items s) - 1"
proof (cases "find_index (hit k) (items s)")
  case None
  assume "ok s" "rm k s = Some (0, s')"
  then show ?thesis using rm_missing [OF _ None] by auto
next
  case (Some i)
  assume "ok s" "rm k s = Some (0, s')"
  then show ?thesis using rm_found [OF _ Some] by auto
qed

text \<open>When the entries have distinct names and a key hits by name, the hit is gone and the others
  stay.\<close>

lemma rm_unique:
  assumes "ok s" "\<And>x. hit k x \<longleftrightarrow> name x = nm" "distinct (map name (items s))" "rm k s = Some (r, s')"
  shows "set (items s') = {x \<in> set (items s). name x \<noteq> nm} \<and> distinct (map name (items s'))"
proof (cases "find_index (hit k) (items s)")
  case None
  then show ?thesis using rm_missing [OF assms(1) None] assms by auto
next
  case (Some i)
  have i: "i < length (items s)" "name (items s ! i) = nm"
    using find_index_Some [OF Some] assms(2) by simp_all
  have "items s' = swap_remove i (items s)" using rm_found [OF assms(1) Some] assms(4) by auto
  then show ?thesis using set_swap_remove_distinct [OF i(1) assms(3)] i(2) by simp
qed

end

end
