(* ===== verification/Judge.thy ===== *)
theory Judge
  imports FileTransfer QueryDatabase
begin

text \<open>
  \<open>submitProblem\<close> of \<open>Server/server.c\<close>: compile a solution, run it in the sandbox on the problem's
  input, compare the outputs and leave the verdict in the caller's buffer. What the program cannot
  decide is the record \<open>judge_env\<close>: the compiler, the behaviour of a compiled program, the pipes,
  the clock, \<open>rand\<close> and the thread's id. A child process is one step: \<open>run_child\<close> does what the
  forked code does before and by \<open>exec\<close>. The semaphore \<open>job_queue\<close> is taken and released on every
  path, so a call is modelled as holding it throughout.
\<close>

datatype wait_status = Exited int | Signaled int

definition WIFEXITED :: "wait_status \<Rightarrow> bool" where
  "WIFEXITED st = (case st of Exited _ \<Rightarrow> True | Signaled _ \<Rightarrow> False)"

definition WEXITSTATUS :: "wait_status \<Rightarrow> int" where
  "WEXITSTATUS st = (case st of Exited n \<Rightarrow> n | Signaled _ \<Rightarrow> 0)"

text \<open>\<open>gcc src\<close>: what the compiler writes to its standard error, how it ends, and the executable it
  leaves, if any. \<open>exec exe input\<close>: the standard output, the standard error and the end of a run in
  the sandbox.\<close>

record judge_env =
  pipe1_ok :: bool
  pipe2_ok :: bool
  now :: int
  rand_value :: int
  thread_id :: int
  gcc :: "bytes option \<Rightarrow> event list \<times> wait_status \<times> bytes option"
  exec :: "bytes \<Rightarrow> bytes \<Rightarrow> bytes \<times> event list \<times> wait_status"

definition executable_path :: "judge_env \<Rightarrow> int \<Rightarrow> bytes" where
  "executable_path env problemID = ''./tempSolutions/'' @ show_int problemID @ ''_''
     @ show_int (rand_value env) @ ''_'' @ show_int (wrap32 (now env)) @ ''_''
     @ show_int (thread_id env) @ ''_executable''"

definition problem_path :: "int \<Rightarrow> bytes \<Rightarrow> bytes" where
  "problem_path problemID suffix = ''./problems/'' @ show_int problemID @ suffix"

definition temp_problem_path :: "int \<Rightarrow> bytes \<Rightarrow> bytes" where
  "temp_problem_path problemID suffix = ''./tempProblems/'' @ show_int problemID @ suffix"

text \<open>The compiler's step: it reads the source and may leave an executable.\<close>

definition run_gcc :: "judge_env \<Rightarrow> bytes \<Rightarrow> bytes \<Rightarrow> 'a os_scheme \<Rightarrow> event list \<times> wait_status \<times> 'a os_scheme" where
  "run_gcc env exePath srcPath s =
     (let (err, st, exe) = gcc env (files s srcPath)
      in (err, st, case exe of None \<Rightarrow> s | Some e \<Rightarrow> put_file exePath e s))"

text \<open>The second child: it opens the input and creates the output; if one fails it exits with 1
  (its message goes to the server's own standard error). A missing executable makes \<open>execlp\<close>
  return and the child exit with \<open>-1\<close>, that is 255.\<close>

definition run_child :: "judge_env \<Rightarrow> bytes \<Rightarrow> bytes \<Rightarrow> bytes \<Rightarrow> 'a os_scheme
    \<Rightarrow> event list \<times> wait_status \<times> 'a os_scheme" where
  "run_child env exePath inPath outPath s =
     (let s1 = (if creatable s outPath then put_file outPath [] s else s)
      in (case files s inPath of
            None \<Rightarrow> ([], Exited 1, s1)
          | Some input \<Rightarrow>
              if \<not> creatable s outPath then ([], Exited 1, s1)
              else (case files s1 exePath of
                      None \<Rightarrow> ([], Exited 255, s1)
                    | Some exe \<Rightarrow>
                        let (out, err, st) = exec env exe input
                        in (err, st, put_file outPath out s1))))"

text \<open>The x86-64 Linux signal numbers of the \<open>switch\<close>.\<close>

definition signal_message :: "int \<Rightarrow> bytes" where
  "signal_message sig =
     (if sig = 11 then ''Runtime Error: Segmentation Fault (Invalid memory access)''
      else if sig = 8 then ''Runtime Error: Floating Point Exception (Division by zero)''
      else if sig = 31 then ''Runtime Error: Bad System Call (Sandbox Violation)''
      else if sig = 24 then ''Time Limit Exceeded (CPU Limit)''
      else if sig = 25 then ''Output Limit Exceeded (Printed too much data)''
      else if sig = 6 then ''Runtime Error: Aborted (Assertion failed)''
      else if sig = 4 then ''Runtime Error: Illegal Instruction''
      else if sig = 7 then ''Runtime Error: Bus Error (Memory alignment issue)''
      else if sig = 9 then ''Runtime Error: Process Killed (Out of Memory or Timeout)''
      else ''Runtime Error: Killed by OS fatal signal '' @ show_int sig)"

text \<open>The end of a run that did not exit with 0, and of one that did.\<close>

definition run_failure :: "wait_status \<Rightarrow> int \<Rightarrow> bytes \<Rightarrow> bytes" where
  "run_failure status bytesRead buffer2 = (case status of
     Signaled sig \<Rightarrow> signal_message sig
   | Exited n \<Rightarrow>
       if 15 < bytesRead then c_str buffer2
       else ''Runtime Error: Exited with non-zero code '' @ show_int n)"

definition judge_verdict :: "int \<Rightarrow> bytes" where
  "judge_verdict judgeResult = (if judgeResult = SUCCESS then ''Accepted''
     else if judgeResult = FAILURE then ''Wrong Answer'' else ''Error in judging'')"

definition submitProblem :: "judge_env \<Rightarrow> int \<Rightarrow> bytes \<Rightarrow> bytes \<Rightarrow> 'a os_scheme
    \<Rightarrow> (int \<times> bytes \<times> 'a os_scheme) option" where
  "submitProblem env problemID buffer tempSolutionPath s =
     (if \<not> pipe1_ok env then Some (FAILURE, buffer, snd (deleteMultipleFiles [tempSolutionPath] s))
      else do {
        let tempExecutablePath = executable_path env problemID;
        let (err, status, s1) = run_gcc env tempExecutablePath tempSolutionPath s;
        let (bytesRead, buffer2) = readPipe err (malloc s 1000) 1000 ''Compilation error: '';
        if \<not> WIFEXITED status \<or> WEXITSTATUS status \<noteq> 0 then do {
          b \<leftarrow> (if 0 < bytesRead then strcpy buffer (c_str buffer2)
               else strcpy buffer ''Compilation error: Unknown problem'');
          Some (FAILURE, b, snd (deleteMultipleFiles [tempExecutablePath, tempSolutionPath] s1))
        } else do {
          let problemInputPath = problem_path problemID ''_input.in'';
          let problemOutputPath = problem_path problemID ''_output.out'';
          let tempOutputPath = tempExecutablePath @ ''_output.out'';
          let temps = [tempExecutablePath, tempOutputPath, tempSolutionPath];
          if getProblem problemID s1 = None then do {
            b \<leftarrow> strcpy buffer ''Problem not found'';
            Some (FAILURE, b, snd (deleteMultipleFiles temps s1))
          } else if \<not> pipe2_ok env then Some (FAILURE, buffer, snd (deleteMultipleFiles temps s1))
          else do {
            let (err2, status2, s2) = run_child env tempExecutablePath problemInputPath tempOutputPath s1;
            let (bytesRead2, buffer3) = readPipe err2 buffer2 1000 ''Runtime error: '';
            if \<not> WIFEXITED status2 \<or> WEXITSTATUS status2 \<noteq> 0 then do {
              b \<leftarrow> strcpy buffer (run_failure status2 bytesRead2 buffer3);
              Some (FAILURE, b, snd (deleteMultipleFiles temps s2))
            } else do {
              let judgeResult = compareFiles tempOutputPath problemOutputPath s2;
              b \<leftarrow> strcpy buffer (judge_verdict judgeResult);
              Some (SUCCESS, b, snd (deleteMultipleFiles temps s2))
            }
          }
        }
      })"

section \<open>What the judge leaves behind\<close>

lemma path_distinct [simp]:
  "executable_path env k \<noteq> problem_path k' suf" "executable_path env k @ t \<noteq> problem_path k' suf"
  "problem_path k' suf \<noteq> executable_path env k" "problem_path k' suf \<noteq> executable_path env k @ t"
  "executable_path env k \<noteq> db_path fn" "executable_path env k @ t \<noteq> db_path fn"
  "db_path fn \<noteq> executable_path env k" "db_path fn \<noteq> executable_path env k @ t"
  by (simp_all add: executable_path_def problem_path_def db_path_def DATABASE_PATH_def)

lemma scanRecords_put [simp]: "scanRecords (put_file p c s) sz mf n i fd = scanRecords s sz mf n i fd"
  by (induction n arbitrary: i fd) (simp_all add: getRecordUnlocked_def case_prod_beta Let_def)

lemma getProblem_put [simp]:
  "p \<noteq> db_path ''problems.dat'' \<Longrightarrow> getProblem k (put_file p c s) = getProblem k s"
  by (simp add: getProblem_def getRecord_def readCount_def split: option.split)

lemma creatable_put [simp]: "creatable (put_file p c s) = creatable s"
  by (simp add: put_file_def)

lemma c_str_prefix_no_nul: "no_nul p \<Longrightarrow> c_str (p @ x) = p @ c_str x"
  unfolding c_str_def no_nul_def by (induction p) auto

lemma readPipe_verdict:
  assumes "readPipe es buffer 1000 prefix = (k, b)" "0 < k" "length buffer = 1000" "no_nul prefix"
  shows "\<exists>t. c_str b = prefix @ t \<and> length (c_str b) < 1000"
proof -
  obtain bs rest where b: "b = prefix @ bs @ CHR 0x00 # rest" "length b = 1000"
    using readPipe_positive [OF assms(1,2)] assms(3) by auto
  have "terminated 1000 b" using b by (simp add: terminated_def)
  then have "length (c_str b) < 1000" by (rule length_c_str_terminated)
  then show ?thesis using b c_str_prefix_no_nul [OF assms(4)] by auto
qed

lemma length_readPipe:
  assumes "readPipe es buffer 1000 prefix = (k, b)" "length buffer = 1000" "length prefix < 999"
  shows "length b = 1000"
proof -
  define sp where "sp = 999 - length prefix"
  obtain fine bs where loop: "pipeLoop sp [] es = (fine, bs)" by (metis surj_pair)
  have len: "length bs \<le> sp" using pipeLoop_length [of sp "[]" es] loop by simp
  show ?thesis
    using assms loop len by (auto simp: readPipe_def Let_def sp_def overwrite_def split: if_splits)
qed


text \<open>What \<open>waitpid\<close> reports: exit codes are one byte, signal numbers below 128.\<close>

definition wait_ok :: "wait_status \<Rightarrow> bool" where
  "wait_ok st = (case st of Exited n \<Rightarrow> 0 \<le> n \<and> n < 256 | Signaled n \<Rightarrow> 0 < n \<and> n < 128)"

declare deleteMultipleFiles.simps [simp del]

lemma not_exited_zero: "(\<not> WIFEXITED st \<or> WEXITSTATUS st \<noteq> 0) = (st \<noteq> Exited 0)"
  by (cases st) (simp_all add: WIFEXITED_def WEXITSTATUS_def)

lemma length_show_int_small: "0 \<le> n \<Longrightarrow> n < 1000 \<Longrightarrow> length (show_int n) \<le> 3"
proof -
  assume "0 \<le> n" "n < 1000"
  then have k: "nat n < 1000" by simp
  have one: "length (show_nat k) \<le> 1" if "k < 10" for k
    using that by (simp add: show_nat.simps [of k])
  have two: "length (show_nat k) \<le> 2" if "k < 100" for k
    using that one [of "k div 10"] by (simp add: show_nat.simps [of k])
  have "length (show_nat k) \<le> 3" if "k < 1000" for k
    using that two [of "k div 10"] by (simp add: show_nat.simps [of k])
  then show ?thesis using k \<open>0 \<le> n\<close> by (simp add: show_int_def)
qed

lemma no_nul_show_int [simp]: "no_nul (show_int n)"
proof -
  have "CHR 0x00 \<notin> set (show_nat k)" for k using show_nat_not [of "CHR 0x00" k] by auto
  then show ?thesis by (auto simp: no_nul_def show_int_def)
qed

text \<open>A message other than ``Accepted'' that fits the buffer.\<close>

definition other_verdict :: "bytes \<Rightarrow> bool" where
  "other_verdict t \<longleftrightarrow> no_nul t \<and> length t < 1000 \<and> t \<noteq> ''Accepted''"

lemma verdict_copied:
  assumes "length buffer = 1000" "no_nul t" "length t < 1000"
  shows "\<exists>b. strcpy buffer t = Some b \<and> c_str b = t"
proof -
  obtain b where b: "strcpy buffer t = Some b" using strcpy_fits assms(1,3) by metis
  then show ?thesis using strcpy_c_str [OF b assms(2), of "[]"] by simp
qed

lemma signal_verdict: "wait_ok (Signaled sig) \<Longrightarrow> other_verdict (signal_message sig)"
proof -
  assume "wait_ok (Signaled sig)"
  then have "length (show_int sig) \<le> 3" by (intro length_show_int_small) (simp_all add: wait_ok_def)
  then show ?thesis
    using no_nul_show_int [of sig] by (auto simp: other_verdict_def signal_message_def no_nul_def)
qed

lemma exit_verdict:
  assumes "wait_ok (Exited n)"
  shows "other_verdict (''Runtime Error: Exited with non-zero code '' @ show_int n)"
proof -
  have "length (show_int n) \<le> 3" using assms by (intro length_show_int_small) (simp_all add: wait_ok_def)
  then show ?thesis using no_nul_show_int [of n] by (auto simp: other_verdict_def no_nul_def)
qed

lemma pipe_verdict:
  assumes "readPipe es buffer 1000 prefix = (k, b)" "0 < k" "length buffer = 1000" "no_nul prefix"
    "prefix \<noteq> []" "hd prefix \<noteq> CHR ''A''"
  shows "other_verdict (c_str b)"
  using readPipe_verdict [OF assms(1-4)] assms(5,6) no_nul_c_str [of b]
  by (cases prefix) (auto simp: other_verdict_def)

text \<open>What a call leaves: the executable and the solution are gone, and so is the output of the program once
  the compiler has succeeded; before that there was none. No other file has changed.\<close>

definition temps_removed :: "judge_env \<Rightarrow> int \<Rightarrow> bytes \<Rightarrow> bool \<Rightarrow> 'a os_scheme \<Rightarrow> 'b os_scheme \<Rightarrow> bool" where
  "temps_removed env k src compiled s s' \<longleftrightarrow> files s' = (\<lambda>p.
     if p \<in> {executable_path env k, src} \<or> compiled \<and> p = executable_path env k @ ''_output.out'' then None else files s p)"

lemma temps_removed_delete:
  assumes "set ps = {executable_path env k, src} \<union> (if compiled then {executable_path env k @ ''_output.out''} else {})"
    and "\<And>p. p \<notin> set ps \<Longrightarrow> files t p = files s p"
  shows "temps_removed env k src compiled s (snd (deleteMultipleFiles ps t))"
  using assms by (auto simp: temps_removed_def deleteMultipleFiles_files fun_eq_iff)

lemma run_gcc_files: "run_gcc env exe src s = (err, st, s1) \<Longrightarrow> p \<noteq> exe \<Longrightarrow> files s1 p = files s p"
  by (auto simp: run_gcc_def put_file_def split: prod.splits option.splits)

lemma run_child_files: "run_child env exe i out s = (err, st, s1) \<Longrightarrow> p \<noteq> out \<Longrightarrow> files s1 p = files s p"
  by (auto simp: run_child_def put_file_def Let_def split: prod.splits option.splits if_splits)

text \<open>The ways a call ends once its pipes exist: an early failure, a run that fails, and a
  comparison.\<close>

lemma submit_compile_error:
  assumes "length buffer = 1000" "pipe1_ok env" "gcc env (files s src) = (err, st, exe)" "st \<noteq> Exited 0"
  shows "\<exists>b s'. submitProblem env k buffer src s = Some (FAILURE, b, s') \<and> c_str b \<noteq> ''Accepted''
    \<and> temps_removed env k src False s s'"
proof -
  define s1 where "s1 = (case exe of None \<Rightarrow> s | Some e \<Rightarrow> put_file (executable_path env k) e s)"
  have g: "run_gcc env (executable_path env k) src s = (err, st, s1)"
    using assms(3) by (simp add: run_gcc_def s1_def)
  obtain n b2 where rp: "readPipe err (malloc s 1000) 1000 ''Compilation error: '' = (n, b2)" by (metis surj_pair)
  define t where "t = (if 0 < n then c_str b2 else ''Compilation error: Unknown problem'')"
  have "other_verdict t"
    using pipe_verdict [OF rp] by (auto simp: t_def other_verdict_def no_nul_def)
  then obtain b where b: "strcpy buffer t = Some b" "c_str b = t" "t \<noteq> ''Accepted''"
    using verdict_copied [OF assms(1), of t] by (auto simp: other_verdict_def)
  define s' where "s' = snd (deleteMultipleFiles [executable_path env k, src] s1)"
  have "submitProblem env k buffer src s = Some (FAILURE, b, s')"
    using assms(2,4) b(1) unfolding submitProblem_def g Let_def prod.case rp not_exited_zero
    by (simp add: t_def s'_def split: if_splits)
  moreover have "temps_removed env k src False s s'"
    unfolding s'_def by (rule temps_removed_delete) (use run_gcc_files [OF g] in auto)
  ultimately show ?thesis using b(2,3) by auto
qed

lemma submit_no_problem:
  assumes "length buffer = 1000" "pipe1_ok env" "run_gcc env (executable_path env k) src s = (err, Exited 0, s1)"
    "getProblem k s1 = None"
  shows "\<exists>b s'. submitProblem env k buffer src s = Some (FAILURE, b, s') \<and> c_str b \<noteq> ''Accepted''
    \<and> temps_removed env k src True s s'"
proof -
  obtain n b2 where rp: "readPipe err (malloc s 1000) 1000 ''Compilation error: '' = (n, b2)" by (metis surj_pair)
  obtain b where b: "strcpy buffer ''Problem not found'' = Some b" "c_str b = ''Problem not found''"
    using verdict_copied [OF assms(1), of "''Problem not found''"] by (auto simp: no_nul_def)
  have "submitProblem env k buffer src s = Some (FAILURE, b, snd (deleteMultipleFiles
      [executable_path env k, executable_path env k @ ''_output.out'', src] s1))"
    using assms(2,4) b(1) unfolding submitProblem_def assms(3) Let_def prod.case rp not_exited_zero by simp
  moreover have "temps_removed env k src True s (snd (deleteMultipleFiles
      [executable_path env k, executable_path env k @ ''_output.out'', src] s1))"
    by (rule temps_removed_delete) (use run_gcc_files [OF assms(3)] in auto)
  ultimately show ?thesis using b(2) by simp
qed

lemma submit_run_fails:
  assumes "length buffer = 1000" "pipe1_ok env" "pipe2_ok env"
    "run_gcc env (executable_path env k) src s = (err, Exited 0, s1)" "getProblem k s1 \<noteq> None"
    "run_child env (executable_path env k) (problem_path k ''_input.in'')
       (executable_path env k @ ''_output.out'') s1 = (err2, st2, s2)" "st2 \<noteq> Exited 0" "wait_ok st2"
  shows "\<exists>b s'. submitProblem env k buffer src s = Some (FAILURE, b, s') \<and> c_str b \<noteq> ''Accepted''
    \<and> temps_removed env k src True s s'"
proof -
  obtain n b2 where rp: "readPipe err (malloc s 1000) 1000 ''Compilation error: '' = (n, b2)" by (metis surj_pair)
  have lb2: "length b2 = 1000" using length_readPipe [OF rp] by simp
  obtain m b3 where rp2: "readPipe err2 b2 1000 ''Runtime error: '' = (m, b3)" by (metis surj_pair)
  define t where "t = run_failure st2 m b3"
  have "other_verdict t"
  proof (cases st2)
    case (Exited x)
    then show ?thesis using pipe_verdict [OF rp2 _ lb2] exit_verdict assms(8)
      by (auto simp: t_def run_failure_def no_nul_def)
  next
    case (Signaled x)
    then show ?thesis using signal_verdict assms(8) by (simp add: t_def run_failure_def)
  qed
  then obtain b where b: "strcpy buffer t = Some b" "c_str b = t" "t \<noteq> ''Accepted''"
    using verdict_copied [OF assms(1), of t] by (auto simp: other_verdict_def)
  have "submitProblem env k buffer src s = Some (FAILURE, b, snd (deleteMultipleFiles
      [executable_path env k, executable_path env k @ ''_output.out'', src] s2))"
    using assms(2,3,5,7) b(1)
    unfolding submitProblem_def assms(4,6) Let_def prod.case rp rp2 not_exited_zero
    by (cases st2) (auto simp: t_def split: if_splits)
  moreover have "temps_removed env k src True s (snd (deleteMultipleFiles
      [executable_path env k, executable_path env k @ ''_output.out'', src] s2))"
    by (rule temps_removed_delete) (use run_gcc_files [OF assms(4)] run_child_files [OF assms(6)] in auto)
  ultimately show ?thesis using b(2,3) by simp
qed

lemma submit_compared:
  assumes "length buffer = 1000" "pipe1_ok env" "pipe2_ok env"
    "run_gcc env (executable_path env k) src s = (err, Exited 0, s1)" "getProblem k s1 \<noteq> None"
    "run_child env (executable_path env k) (problem_path k ''_input.in'')
       (executable_path env k @ ''_output.out'') s1 = (err2, Exited 0, s2)"
  shows "\<exists>b s'. submitProblem env k buffer src s = Some (SUCCESS, b, s')
    \<and> (c_str b = ''Accepted'' \<longleftrightarrow> compareFiles (executable_path env k @ ''_output.out'')
          (problem_path k ''_output.out'') s2 = SUCCESS)
    \<and> temps_removed env k src True s s'"
proof -
  obtain n b2 where rp: "readPipe err (malloc s 1000) 1000 ''Compilation error: '' = (n, b2)" by (metis surj_pair)
  obtain m b3 where rp2: "readPipe err2 b2 1000 ''Runtime error: '' = (m, b3)" by (metis surj_pair)
  let ?j = "compareFiles (executable_path env k @ ''_output.out'') (problem_path k ''_output.out'') s2"
  define t where "t = judge_verdict ?j"
  obtain b where b: "strcpy buffer t = Some b" "c_str b = t"
  proof -
    have "no_nul t" "length t < 1000" by (simp_all add: t_def judge_verdict_def no_nul_def)
    with that show ?thesis using verdict_copied [OF assms(1), of t] by blast
  qed
  have "submitProblem env k buffer src s = Some (SUCCESS, b, snd (deleteMultipleFiles
      [executable_path env k, executable_path env k @ ''_output.out'', src] s2))"
    using assms(2,3,5) b(1)
    unfolding submitProblem_def assms(4,6) Let_def prod.case rp rp2 not_exited_zero t_def [symmetric]
    by auto
  moreover have "temps_removed env k src True s (snd (deleteMultipleFiles
      [executable_path env k, executable_path env k @ ''_output.out'', src] s2))"
    by (rule temps_removed_delete) (use run_gcc_files [OF assms(4)] run_child_files [OF assms(6)] in auto)
  ultimately show ?thesis using b(2) by (simp add: t_def judge_verdict_def)
qed

lemma submit_not_run:
  assumes "length buffer = 1000" "pipe1_ok env" "gcc env (files s src) = (err, st, exe)"
    and "\<not> (st = Exited 0 \<and> getProblem k s \<noteq> None)"
  shows "\<exists>b s'. submitProblem env k buffer src s = Some (FAILURE, b, s') \<and> c_str b \<noteq> ''Accepted''
    \<and> temps_removed env k src (st = Exited 0) s s'"
proof (cases "st = Exited 0")
  case True
  define s1 where "s1 = (case exe of None \<Rightarrow> s | Some e \<Rightarrow> put_file (executable_path env k) e s)"
  have "run_gcc env (executable_path env k) src s = (err, Exited 0, s1)"
    using assms(3) True by (simp add: run_gcc_def s1_def)
  moreover have "getProblem k s1 = None" using True assms(4) by (simp add: s1_def split: option.split)
  ultimately show ?thesis using submit_no_problem [OF assms(1,2), of k src s err s1] True by simp
next
  case False
  then show ?thesis using submit_compile_error [OF assms(1-3)] by simp
qed

text \<open>The program that is run: what the compiler has left, or what was there under its name.\<close>

definition compiled_program :: "judge_env \<Rightarrow> int \<Rightarrow> bytes option \<Rightarrow> 'a os_scheme \<Rightarrow> bytes option" where
  "compiled_program env k exe s = (case exe of None \<Rightarrow> files s (executable_path env k) | Some e \<Rightarrow> Some e)"

text \<open>The run of a solution that was compiled, for a problem that exists.\<close>

lemma submit_run:
  assumes "length buffer = 1000" "pipe1_ok env" "pipe2_ok env" "\<forall>p. creatable s p"
    and "gcc env (files s src) = (err, Exited 0, exe)" "getProblem k s \<noteq> None"
    and "\<forall>e i. wait_ok (snd (snd (exec env e i)))"
  shows "\<exists>ret b s'. submitProblem env k buffer src s = Some (ret, b, s') \<and> 0 \<le> ret
    \<and> (c_str b = ''Accepted'' \<longleftrightarrow> (\<exists>input program out err2 expected. files s (problem_path k ''_input.in'') = Some input
            \<and> compiled_program env k exe s = Some program \<and> exec env program input = (out, err2, Exited 0)
            \<and> files s (problem_path k ''_output.out'') = Some expected
            \<and> filter (\<lambda>c. \<not> isspace c) out = filter (\<lambda>c. \<not> isspace c) expected))
    \<and> temps_removed env k src True s s'"
proof -
  let ?exe = "executable_path env k" and ?in = "problem_path k ''_input.in''"
  define s1 where "s1 = (case exe of None \<Rightarrow> s | Some e \<Rightarrow> put_file ?exe e s)"
  have g: "run_gcc env ?exe src s = (err, Exited 0, s1)"
    using assms(5) by (simp add: run_gcc_def s1_def)
  have keep: "getProblem k s1 = getProblem k s" by (simp add: s1_def split: option.split)
  have s1: "creatable s1 = creatable s" "files s1 ?exe = compiled_program env k exe s"
    "files s1 (problem_path k f) = files s (problem_path k f)" for f
    by (simp_all add: s1_def compiled_program_def put_file_def split: option.split)
  have gp: "getProblem k s1 \<noteq> None" using assms(6) keep by simp
  obtain err2 st2 s2 where c: "run_child env ?exe ?in (?exe @ ''_output.out'') s1 = (err2, st2, s2)"
    by (metis prod_cases3)
  note fails = submit_run_fails [OF assms(1-3) g gp c]
  show ?thesis
  proof (cases "files s ?in = None \<or> compiled_program env k exe s = None")
    case True
    then have "st2 = Exited 1 \<or> st2 = Exited 255"
      using c assms(4) s1(2) s1(3) [of "''_input.in''"] by (auto simp: run_child_def Let_def s1(1) put_file_def split: option.splits)
    then have "\<exists>b s'. submitProblem env k buffer src s = Some (FAILURE, b, s') \<and> c_str b \<noteq> ''Accepted''
        \<and> temps_removed env k src True s s'"
      using fails by (auto simp: wait_ok_def)
    then show ?thesis using True by fastforce
  next
    case False
    then obtain input program where io: "files s ?in = Some input" "compiled_program env k exe s = Some program" by auto
    obtain out e3 st3 where ex: "exec env program input = (out, e3, st3)" by (metis prod_cases3)
    have ran: "st2 = st3" "s2 = put_file (?exe @ ''_output.out'') out (put_file (?exe @ ''_output.out'') [] s1)"
      using c io assms(4) ex s1(2) s1(3) [of "''_input.in''"] by (auto simp: run_child_def Let_def s1(1) put_file_def)
    show ?thesis
    proof (cases "st3 = Exited 0")
      case False
      have "wait_ok st2" using assms(7) ex ran(1) by (metis snd_conv)
      then have "\<exists>b s'. submitProblem env k buffer src s = Some (FAILURE, b, s') \<and> c_str b \<noteq> ''Accepted''
          \<and> temps_removed env k src True s s'"
        using fails False ran(1) by blast
      then show ?thesis using io ex False by fastforce
    next
      case True
      have "compareFiles (?exe @ ''_output.out'') (problem_path k ''_output.out'') s2 = SUCCESS
          \<longleftrightarrow> (\<exists>expected. files s (problem_path k ''_output.out'') = Some expected
            \<and> filter (\<lambda>c. \<not> isspace c) out = filter (\<lambda>c. \<not> isspace c) expected)"
        using s1(3) [of "''_output.out''"]
        by (auto simp: ran(2) put_file_def compareFiles_def compareLoop_filter split: option.splits)
      then show ?thesis
        using submit_compared [OF assms(1-3) g gp c [unfolded ran(1) True]] io ex True by fastforce
    qed
  qed
qed

text \<open>C9: a solution is accepted exactly if it compiles to a program, the problem exists with its input and
  expected output, the run ends with exit code 0 and its output equals the expected one up to white
  space. This holds for every outcome of the compiler, a compile error that leaves no program among them, when the
  pipes and the files can be created. Whatever happens, the call neither overflows the verdict buffer nor returns a negative
  number (so the callers' test \<open>submitProblem(...) < 0\<close> never fires); the executable, the
  solution and the output of the program, which exists once the solution has compiled, are removed,
  and every other file is as it was.\<close>

theorem judge_accepts_iff:
  assumes "length buffer = 1000" "pipe1_ok env" "pipe2_ok env" "\<forall>p. creatable s p"
    and "gcc env (files s src) = (err, st, exe)"
    and "\<forall>e i. wait_ok (snd (snd (exec env e i)))"
  shows "\<exists>ret b s'. submitProblem env k buffer src s = Some (ret, b, s') \<and> 0 \<le> ret
    \<and> (c_str b = ''Accepted'' \<longleftrightarrow> st = Exited 0 \<and> getProblem k s \<noteq> None
        \<and> (\<exists>input program out err2 expected. files s (problem_path k ''_input.in'') = Some input
            \<and> compiled_program env k exe s = Some program \<and> exec env program input = (out, err2, Exited 0)
            \<and> files s (problem_path k ''_output.out'') = Some expected
            \<and> filter (\<lambda>c. \<not> isspace c) out = filter (\<lambda>c. \<not> isspace c) expected))
    \<and> files s' = (\<lambda>p. if p \<in> {executable_path env k, src}
        \<or> st = Exited 0 \<and> p = executable_path env k @ ''_output.out'' then None else files s p)"
proof (cases "st = Exited 0 \<and> getProblem k s \<noteq> None")
  case False
  then show ?thesis using submit_not_run [OF assms(1,2,5)] unfolding temps_removed_def by fastforce
next
  case True
  then show ?thesis using submit_run [OF assms(1-4) _ _ assms(6)] assms(5) by (simp add: temps_removed_def)
qed

text \<open>A judge whose compiled programs copy their input to their output.\<close>

definition echo_env :: judge_env where
  "echo_env = \<lparr>pipe1_ok = True, pipe2_ok = True, now = 7, rand_value = 3, thread_id = 9,
     gcc = (\<lambda>_. ([], Exited 0, Some ''elf'')), exec = (\<lambda>_ input. (input, [], Exited 0))\<rparr>"

theorem judge_accepts_iff_witness:
  "let p = \<lparr>pr_id = 1, pr_title = char_array ''Echo'', pr_difficulty = 0, pr_visibility = 1\<rparr>;
       s = put_file ''./problems/1_input.in'' ''1 2'' (put_file ''./problems/1_output.out'' ''12''
         (table_at ''problems.dat'' (map enc_Problem [p])))
   in \<exists>ret b s'. submitProblem echo_env 1 (replicate 1000 (CHR ''?'')) ''./a.c'' s = Some (ret, b, s')
      \<and> c_str b = ''Accepted''"
proof -
  define p where "p = \<lparr>pr_id = 1, pr_title = char_array ''Echo'', pr_difficulty = 0, pr_visibility = 1\<rparr>"
  define s0 where "s0 = table_at ''problems.dat'' (map enc_Problem [p])"
  define s where "s = put_file ''./problems/1_input.in'' ''1 2'' (put_file ''./problems/1_output.out'' ''12'' s0)"
  have paths: "problem_path 1 ''_input.in'' = ''./problems/1_input.in''"
    "problem_path 1 ''_output.out'' = ''./problems/1_output.out''"
    by code_simp+
  have "problems_ok s0" "problem_rows s0 = [p]"
    using problem_file.table_at_ok [of "[p]"]
    by (simp_all add: problems_defs s0_def p_def wf_Problem_def no_nul_def int_range_def)
  then have "getProblem 1 s0 = Some p" using problems.get_find [of s0 1] by (simp add: p_def)
  then have gp: "getProblem 1 s \<noteq> None" by (simp add: s_def db_path_def DATABASE_PATH_def)
  have cr: "\<forall>q. creatable s q" by (simp add: s_def s0_def table_at_def)
  have g: "gcc echo_env (files s ''./a.c'') = ([], Exited 0, Some ''elf'')" by (simp add: echo_env_def)
  have w: "\<forall>e i. wait_ok (snd (snd (exec echo_env e i)))" by (simp add: echo_env_def wait_ok_def)
  have "\<exists>ret b s'. submitProblem echo_env 1 (replicate 1000 (CHR ''?'')) ''./a.c'' s = Some (ret, b, s')
      \<and> c_str b = ''Accepted''"
    using judge_accepts_iff [OF _ _ _ cr g w, of "replicate 1000 (CHR ''?'')" 1] gp
    by (auto simp: paths echo_env_def s_def isspace_def compiled_program_def simp del: replicate.simps)
  then show ?thesis by (simp add: Let_def s_def s0_def p_def del: replicate.simps)
qed

end
