(* ===== verification/ServerState.thy ===== *)
theory ServerState
  imports Registry Elo CJson Judge
begin

text \<open>
  The state of \<open>Server/server.c\<close> and its small operations: the active users, the pending
  challenges, the sockets, start-up and the acceptance of a connection. A \<open>User*\<close> is a number,
  \<open>users_heap\<close> says which are allocated; following a pointer that is not is undefined behaviour and
  makes an operation \<open>None\<close>. Pending challenges are owned by their array, so the array holds the
  structs themselves. \<open>outs\<close> and \<open>ins\<close> are the two sides of every socket. An operation that locks
  a mutex for its whole body is one step.
\<close>

record User =
  us_username :: bytes
  us_loggedIn :: int
  us_socket :: int
  us_privilege :: int
  us_duelRequest :: int

record Challenge =
  ch_challenger :: bytes
  ch_target :: bytes

record Duel =
  du_socket1 :: int
  du_socket2 :: int
  du_player1 :: bytes
  du_player2 :: bytes

definition MAX_USERS :: nat where "MAX_USERS = 5"
definition MAX_CHALLENGES :: nat where "MAX_CHALLENGES = 5"
definition DEFAULT_ELO :: int where "DEFAULT_ELO = 1000"

record server = os +
  activeUsers :: nat
  activeUserList :: "nat option list"
  activeChallenges :: nat
  activeChallengesList :: "Challenge option list"
  users_heap :: "nat \<rightharpoonup> User"
  outs :: "int \<Rightarrow> ostream"
  ins :: "int \<Rightarrow> event list"
  duels :: "Duel list"

section \<open>Sockets\<close>

text \<open>\<open>write(socket, buf, n)\<close>, its result ignored; a bad descriptor has no effect.\<close>

definition send_bytes :: "int \<Rightarrow> bytes \<Rightarrow> server \<Rightarrow> server" where
  "send_bytes socket bs s =
     (if socket < 0 then s else s\<lparr>outs := (outs s)(socket := snd (sock_write bs (outs s socket)))\<rparr>)"

text \<open>Printing a response and writing it: \<open>json_str = cJSON_PrintUnformatted(response);
  write(socket, json_str, strlen(json_str))\<close>.\<close>

definition sendJson :: "int \<Rightarrow> cJSON \<Rightarrow> server \<Rightarrow> server option" where
  "sendJson socket response s = do {
     json_str \<leftarrow> cJSON_PrintUnformatted response;
     Some (send_bytes socket (c_str json_str) s)
   }"

definition sendJsonStatus :: "int \<Rightarrow> int \<Rightarrow> bytes option \<Rightarrow> server \<Rightarrow> server option" where
  "sendJsonStatus socket status message s =
     (let response = cJSON_AddNumberToObject cJSON_CreateObject ''status'' status;
          response = (case message of None \<Rightarrow> response
            | Some m \<Rightarrow> cJSON_AddStringToObject response ''message'' m)
      in sendJson socket response s)"

text \<open>\<open>read(socket, buffer, n)\<close>: the bytes overwrite the front of the buffer.\<close>

definition server_read :: "nat \<Rightarrow> int \<Rightarrow> bytes \<Rightarrow> server \<Rightarrow> int \<times> bytes \<times> server" where
  "server_read n socket buffer s =
     (let (k, bs, es) = sock_read n (ins s socket)
      in (k, overwrite 0 bs buffer, s\<lparr>ins := (ins s)(socket := es)\<rparr>))"

definition server_receiveFile :: "int \<Rightarrow> bytes \<Rightarrow> server \<Rightarrow> int \<times> server" where
  "server_receiveFile socket path s =
     (let (r, s', es) = receiveFile path s (ins s socket)
      in (r, s'\<lparr>ins := (ins s')(socket := es)\<rparr>))"

definition server_sendFile :: "int \<Rightarrow> bytes \<Rightarrow> server \<Rightarrow> int \<times> server" where
  "server_sendFile socket path s =
     (let (r, w) = sendFile path (getFileSize path s) s (outs s socket)
      in (r, s\<lparr>outs := (outs s)(socket := w)\<rparr>))"

section \<open>Active users\<close>

text \<open>The loop that the four searches share; \<open>None\<close> is the dereference of a dangling pointer.\<close>

fun user_loop :: "server \<Rightarrow> bytes \<Rightarrow> nat \<Rightarrow> nat \<Rightarrow> (nat \<times> nat) option option" where
  "user_loop s username i 0 = Some None"
| "user_loop s username i (Suc n) =
     (case activeUserList s ! i of
        None \<Rightarrow> user_loop s username (Suc i) n
      | Some p \<Rightarrow> (case users_heap s p of None \<Rightarrow> None
          | Some u \<Rightarrow> if c_str (us_username u) = username then Some (Some (i, p))
                     else user_loop s username (Suc i) n))"

definition getActiveUserByUsername :: "bytes \<Rightarrow> server \<Rightarrow> nat option option" where
  "getActiveUserByUsername username s =
     map_option (map_option snd) (user_loop s username 0 (activeUsers s))"

definition getUserSocket :: "bytes \<Rightarrow> server \<Rightarrow> int option" where
  "getUserSocket username s = do {
     hit \<leftarrow> user_loop s username 0 (activeUsers s);
     case hit of None \<Rightarrow> Some (-1) | Some (i, p) \<Rightarrow> map_option us_socket (users_heap s p)
   }"

definition findActiveUserIndex :: "bytes \<Rightarrow> server \<Rightarrow> int option" where
  "findActiveUserIndex username s = do {
     hit \<leftarrow> user_loop s username 0 (activeUsers s);
     Some (case hit of None \<Rightarrow> -1 | Some (i, p) \<Rightarrow> int i)
   }"

definition removeActiveUser :: "bytes \<Rightarrow> server \<Rightarrow> (int \<times> server) option" where
  "removeActiveUser username s = do {
     hit \<leftarrow> user_loop s username 0 (activeUsers s);
     Some (case hit of
        None \<Rightarrow> (-1, s)
      | Some (i, p) \<Rightarrow> (0, s\<lparr>activeUserList := slot_remove i (activeUsers s) (activeUserList s),
          activeUsers := activeUsers s - 1\<rparr>))
   }"

definition addActiveUser :: "nat \<Rightarrow> server \<Rightarrow> int \<times> server" where
  "addActiveUser user s =
     (if MAX_USERS \<le> activeUsers s then (-1, s)
      else (0, s\<lparr>activeUserList := (activeUserList s)[activeUsers s := Some user],
             activeUsers := activeUsers s + 1\<rparr>))"

definition update_user :: "nat \<Rightarrow> (User \<Rightarrow> User) \<Rightarrow> server \<Rightarrow> server option" where
  "update_user p f s = map_option (\<lambda>u. s\<lparr>users_heap := (users_heap s)(p \<mapsto> f u)\<rparr>) (users_heap s p)"

text \<open>\<open>setDuelState(NULL, _)\<close> does nothing.\<close>

definition setDuelState :: "nat option \<Rightarrow> int \<Rightarrow> server \<Rightarrow> server option" where
  "setDuelState user state s = (case user of None \<Rightarrow> Some s
     | Some p \<Rightarrow> update_user p (\<lambda>u. u\<lparr>us_duelRequest := state\<rparr>) s)"

section \<open>Pending challenges\<close>

definition challenge_between :: "bytes \<Rightarrow> bytes \<Rightarrow> Challenge \<Rightarrow> bool" where
  "challenge_between a b ch \<longleftrightarrow> c_str (ch_challenger ch) = a \<and> c_str (ch_target ch) = b"

definition drop_challenge :: "nat \<Rightarrow> server \<Rightarrow> server" where
  "drop_challenge i s = s\<lparr>activeChallengesList := slot_remove i (activeChallenges s) (activeChallengesList s),
     activeChallenges := activeChallenges s - 1\<rparr>"

text \<open>The new challenge is freshly allocated: \<open>malloc\<close>'s content stays behind the copied names.\<close>

definition processDuelRequest :: "bytes \<Rightarrow> bytes \<Rightarrow> server \<Rightarrow> (int \<times> server) option" where
  "processDuelRequest challenger target s =
     (case slot_find (challenge_between target challenger) (activeChallengesList s) 0 (activeChallenges s) of
        Some i \<Rightarrow> Some (MATCH_FOUND, drop_challenge i s)
      | None \<Rightarrow>
          if MAX_CHALLENGES \<le> activeChallenges s then Some (FAILURE, s)
          else do {
            c \<leftarrow> strcpy (malloc s 100) challenger;
            t \<leftarrow> strcpy (malloc s 100) target;
            Some (ADDED_TO_CHALLENGE_QUEUE,
              s\<lparr>activeChallengesList := (activeChallengesList s)[activeChallenges s :=
                   Some \<lparr>ch_challenger = c, ch_target = t\<rparr>],
                activeChallenges := activeChallenges s + 1\<rparr>)
          })"

definition removeDuelRequest :: "bytes \<Rightarrow> server \<Rightarrow> int \<times> server" where
  "removeDuelRequest challenger s =
     (case slot_find (\<lambda>ch. c_str (ch_challenger ch) = challenger) (activeChallengesList s) 0 (activeChallenges s) of
        Some i \<Rightarrow> (SUCCESS, drop_challenge i s)
      | None \<Rightarrow> (FAILURE, s))"

section \<open>Start-up and new connections\<close>

definition create_if_missing :: "bytes \<Rightarrow> bytes \<Rightarrow> 'a os_scheme \<Rightarrow> 'a os_scheme option" where
  "create_if_missing path content s =
     (if files s path \<noteq> None then Some s
      else if creatable s path then Some (put_file path content s) else None)"

text \<open>\<open>serverInit\<close>; \<open>None\<close> is the exit of the process when a file cannot be created.\<close>

definition serverInit :: "'a os_scheme \<Rightarrow> 'a os_scheme option" where
  "serverInit s = do {
     s1 \<leftarrow> create_if_missing ''./database/users.dat''
       (enc_int 1 @ enc_UserRecord \<lparr>ur_username = char_array ''admin'', ur_password = char_array ''admin'',
          ur_privilege = ADMIN_USER\<rparr>) s;
     s2 \<leftarrow> create_if_missing ''./database/problems.dat'' (enc_int 0) s1;
     create_if_missing ''./database/leaderboard.dat'' (enc_int 0) s2
   }"

text \<open>What \<open>main\<close> does with an accepted connection: \<open>malloc(sizeof(User))\<close> (208 bytes: the members at
  offsets 0, 100, 104, 108 and, behind the mutex and the condition, 200), of which only the socket
  and \<open>loggedIn\<close> are set.\<close>

definition accept_user :: "int \<Rightarrow> nat \<Rightarrow> server \<Rightarrow> server" where
  "accept_user new_socket p s =
     (let m = malloc s 208
      in s\<lparr>users_heap := (users_heap s)(p \<mapsto> \<lparr>us_username = take 100 m, us_loggedIn = 0,
             us_socket = new_socket, us_privilege = dec_int (drop 108 m),
             us_duelRequest = dec_int (drop 200 m)\<rparr>)\<rparr>)"

section \<open>The invariant of the two arrays\<close>

definition active :: "server \<Rightarrow> nat list" where
  "active s = slot_items (activeUsers s) (activeUserList s)"

definition name_of :: "server \<Rightarrow> nat \<Rightarrow> bytes" where
  "name_of s p = c_str (us_username (the (users_heap s p)))"

definition sessions :: "server \<Rightarrow> (bytes \<times> nat) list" where
  "sessions s = map (\<lambda>p. (name_of s p, p)) (active s)"

definition pending :: "server \<Rightarrow> Challenge list" where
  "pending s = slot_items (activeChallenges s) (activeChallengesList s)"

definition session_ok :: "User option \<Rightarrow> bool" where
  "session_ok ou = (case ou of None \<Rightarrow> False
     | Some u \<Rightarrow> us_loggedIn u \<noteq> 0 \<and> terminated 100 (us_username u))"

definition users_inv :: "server \<Rightarrow> bool" where
  "users_inv s \<longleftrightarrow> slots_ok MAX_USERS (activeUsers s) (activeUserList s)
     \<and> list_all (\<lambda>p. session_ok (users_heap s p)) (active s)
     \<and> distinct (map fst (sessions s))"

definition challenges_inv :: "server \<Rightarrow> bool" where
  "challenges_inv s \<longleftrightarrow> slots_ok MAX_CHALLENGES (activeChallenges s) (activeChallengesList s)"

definition server_inv :: "server \<Rightarrow> bool" where
  "server_inv s \<longleftrightarrow> users_inv s \<and> challenges_inv s"

lemma users_invD:
  assumes "users_inv s"
  shows "slots_ok MAX_USERS (activeUsers s) (activeUserList s)"
    "p \<in> set (active s) \<Longrightarrow> session_ok (users_heap s p)"
    "distinct (map fst (sessions s))" "length (active s) = activeUsers s" "activeUsers s \<le> MAX_USERS"
  using assms slots_okD(2,5) by (auto simp: users_inv_def list_all_iff active_def)

lemma distinct_active: "users_inv s \<Longrightarrow> distinct (active s)"
  using users_invD(3) [of s] by (simp add: sessions_def o_def distinct_map)

lemma swap_remove_mapped: "xs \<noteq> [] \<Longrightarrow> swap_remove i (map f xs) = map f (swap_remove i xs)"
  by (simp add: swap_remove_def last_map map_butlast map_update)

lemma user_loop_slots:
  assumes "\<forall>j < i + m. \<forall>p. activeUserList s ! j = Some p \<longrightarrow> users_heap s p \<noteq> None"
  shows "user_loop s nm i m = Some (map_option (\<lambda>j. (j, the (activeUserList s ! j)))
    (slot_find (\<lambda>p. name_of s p = nm) (activeUserList s) i m))"
  using assms
proof (induction m arbitrary: i)
  case (Suc m)
  have IH: "user_loop s nm (Suc i) m = Some (map_option (\<lambda>j. (j, the (activeUserList s ! j)))
    (slot_find (\<lambda>p. name_of s p = nm) (activeUserList s) (Suc i) m))"
    by (rule Suc.IH) (use Suc.prems in simp)
  show ?case
  proof (cases "activeUserList s ! i")
    case (Some p)
    moreover have "i < i + Suc m" by simp
    ultimately have "users_heap s p \<noteq> None" using Suc.prems by blast
    then obtain u where "users_heap s p = Some u" by blast
    with \<open>activeUserList s ! i = Some p\<close> show ?thesis using IH by (simp add: name_of_def)
  qed (simp add: IH)
qed simp

lemma find_index_map: "find_index P (map f xs) = find_index (\<lambda>x. P (f x)) xs"
  by (induction xs) simp_all

lemma user_loop_sessions:
  assumes "users_inv s"
  shows "user_loop s nm 0 (activeUsers s) = Some (map_option (\<lambda>j. (j, active s ! j))
    (find_index (\<lambda>x. fst x = nm) (sessions s)))"
proof -
  note ok = users_invD(1) [OF assms]
  have nth: "activeUserList s ! j = Some (active s ! j)" if "j < activeUsers s" for j
    using slots_okD(3) [OF ok that] by (simp add: active_def)
  have "user_loop s nm 0 (activeUsers s) = Some (map_option (\<lambda>j. (j, the (activeUserList s ! j)))
    (slot_find (\<lambda>p. name_of s p = nm) (activeUserList s) 0 (activeUsers s)))"
  proof (rule user_loop_slots, intro allI impI)
    fix j p
    assume j: "j < 0 + activeUsers s" and p: "activeUserList s ! j = Some p"
    then have "p \<in> set (active s)" using nth [of j] users_invD(4) [OF assms] by fastforce
    then have "session_ok (users_heap s p)" by (rule users_invD(2) [OF assms])
    then show "users_heap s p \<noteq> None" by (auto simp: session_ok_def split: option.splits)
  qed
  also have "slot_find (\<lambda>p. name_of s p = nm) (activeUserList s) 0 (activeUsers s)
      = find_index (\<lambda>p. name_of s p = nm) (active s)"
    using slot_find_items [OF ok] by (simp add: active_def)
  also have "find_index (\<lambda>p. name_of s p = nm) (active s) = find_index (\<lambda>x. fst x = nm) (sessions s)"
    unfolding sessions_def by (simp add: find_index_map)
  finally have loop: "user_loop s nm 0 (activeUsers s) = Some (map_option (\<lambda>j. (j, the (activeUserList s ! j)))
    (find_index (\<lambda>x. fst x = nm) (sessions s)))" .
  show ?thesis
  proof (cases "find_index (\<lambda>x. fst x = nm) (sessions s)")
    case None
    show ?thesis unfolding loop None by simp
  next
    case (Some j)
    have "j < activeUsers s"
      using find_index_Some [OF Some] users_invD(4) [OF assms] by (simp add: sessions_def)
    then show ?thesis unfolding loop Some using nth by simp
  qed
qed

text \<open>The searches and the removal in terms of the sessions.\<close>

lemma session_live: "users_inv s \<Longrightarrow> p \<in> set (active s) \<Longrightarrow>
    \<exists>u. users_heap s p = Some u \<and> us_loggedIn u \<noteq> 0 \<and> terminated 100 (us_username u)"
  using users_invD(2) [of s p] by (auto simp: session_ok_def split: option.splits)

lemma find_session:
  assumes "find_index (\<lambda>x. fst x = nm) (sessions s) = Some j"
  shows "j < length (active s)" "active s ! j \<in> set (active s)" "name_of s (active s ! j) = nm"
proof -
  note f = find_index_Some [OF assms]
  show j: "j < length (active s)" using f by (simp add: sessions_def)
  then show "active s ! j \<in> set (active s)" by simp
  show "name_of s (active s ! j) = nm" using f j by (simp add: sessions_def)
qed

lemma findActiveUserIndex_missing:
  "users_inv s \<Longrightarrow> findActiveUserIndex nm s = Some (-1) \<longleftrightarrow> nm \<notin> fst ` set (sessions s)"
  using user_loop_sessions [of s nm]
  by (cases "find_index (\<lambda>x. fst x = nm) (sessions s)")
    (auto simp: findActiveUserIndex_def dest: find_index_Some nth_mem)

lemma findActiveUserIndex_defined: "users_inv s \<Longrightarrow> \<exists>i. findActiveUserIndex nm s = Some i"
  using user_loop_sessions [of s nm] by (simp add: findActiveUserIndex_def)

lemma slots_sessions:
  assumes "activeUserList s' = slot_remove i (activeUsers s) (activeUserList s)"
    "activeUsers s' = activeUsers s - 1" "users_heap s' = users_heap s" "users_inv s" "i < activeUsers s"
  shows "sessions s' = swap_remove i (sessions s)" "users_inv s'"
proof -
  note r = slot_remove_items [OF users_invD(1) [OF assms(4)] assms(5)]
  have act: "active s' = swap_remove i (active s)"
    using r(2) assms(1,2) by (simp add: active_def)
  have i: "i < length (active s)" using assms(4,5) by (simp add: users_invD(4))
  have "name_of s' = name_of s" using assms(3) by (simp add: name_of_def fun_eq_iff)
  then show sess: "sessions s' = swap_remove i (sessions s)"
    using act i swap_remove_mapped [of "active s" i "\<lambda>p. (name_of s p, p)"] by (fastforce simp: sessions_def)
  have "distinct (map fst (swap_remove i (sessions s)))"
    using set_swap_remove_distinct [of i "sessions s" fst] i users_invD(3) [OF assms(4)]
    by (simp add: sessions_def)
  moreover have "list_all (\<lambda>p. session_ok (users_heap s' p)) (active s')"
    using act set_swap_remove_subset [OF i] assms(3,4) by (auto simp: users_inv_def list_all_iff)
  ultimately show "users_inv s'" using r(1) assms(1,2) sess by (simp add: users_inv_def)
qed

interpretation active_users: registry users_inv sessions MAX_USERS "\<lambda>nm x. fst x = nm" removeActiveUser
proof unfold_locales
  fix s :: server and nm :: bytes and i :: nat
  assume inv: "users_inv s"
  note loop = user_loop_sessions [OF inv, of nm]
  show "length (sessions s) \<le> MAX_USERS" using users_invD(4,5) [OF inv] by (simp add: sessions_def)
  show "\<exists>r. removeActiveUser nm s = Some (r, s) \<and> r \<noteq> 0"
    if "find_index (\<lambda>x. fst x = nm) (sessions s) = None"
    using loop that by (simp add: removeActiveUser_def del: find_index_None)
  show "\<exists>s'. removeActiveUser nm s = Some (0, s') \<and> users_inv s' \<and> sessions s' = swap_remove i (sessions s)"
    if f: "find_index (\<lambda>x. fst x = nm) (sessions s) = Some i"
  proof -
    define s' where "s' = s\<lparr>activeUserList := slot_remove i (activeUsers s) (activeUserList s),
          activeUsers := activeUsers s - 1\<rparr>"
    have "removeActiveUser nm s = Some (0, s')" using loop f by (simp add: removeActiveUser_def s'_def)
    moreover have "i < activeUsers s" using find_session(1) [OF f] users_invD(4) [OF inv] by simp
    then have "sessions s' = swap_remove i (sessions s)" "users_inv s'"
      using slots_sessions [of s' i s] inv by (simp_all add: s'_def)
    ultimately show ?thesis by blast
  qed
qed

lemma pending_find: "challenges_inv s \<Longrightarrow>
    slot_find P (activeChallengesList s) 0 (activeChallenges s) = find_index P (pending s)"
  unfolding challenges_inv_def pending_def by (rule slot_find_items)

lemma drop_challenge_pending:
  assumes "challenges_inv s" "i < length (pending s)"
  shows "challenges_inv (drop_challenge i s)" "pending (drop_challenge i s) = swap_remove i (pending s)"
proof -
  have "i < activeChallenges s"
    using assms(2) slots_okD(5) [OF assms(1) [unfolded challenges_inv_def]]
    by (simp add: pending_def)
  from slot_remove_items [OF assms(1) [unfolded challenges_inv_def] this]
  show "challenges_inv (drop_challenge i s)" "pending (drop_challenge i s) = swap_remove i (pending s)"
    by (simp_all add: challenges_inv_def pending_def drop_challenge_def)
qed

interpretation challenges: registry challenges_inv pending MAX_CHALLENGES
    "\<lambda>nm ch. c_str (ch_challenger ch) = nm" "\<lambda>nm s. Some (removeDuelRequest nm s)"
proof unfold_locales
  fix s :: server and nm :: bytes and i :: nat
  assume inv: "challenges_inv s"
  show "length (pending s) \<le> MAX_CHALLENGES"
    using inv slots_okD(2,5) by (fastforce simp: challenges_inv_def pending_def)
  show "\<exists>r. Some (removeDuelRequest nm s) = Some (r, s) \<and> r \<noteq> 0"
    if "find_index (\<lambda>ch. c_str (ch_challenger ch) = nm) (pending s) = None"
    using pending_find [OF inv] that by (simp add: removeDuelRequest_def del: find_index_None)
  show "\<exists>s'. Some (removeDuelRequest nm s) = Some (0, s') \<and> challenges_inv s' \<and> pending s' = swap_remove i (pending s)"
    if f: "find_index (\<lambda>ch. c_str (ch_challenger ch) = nm) (pending s) = Some i"
    using pending_find [OF inv] f drop_challenge_pending [OF inv] find_index_Some [OF f]
    by (simp add: removeDuelRequest_def)
qed

section \<open>The queue of challenges\<close>

text \<open>A challenge as the pair of its two names.\<close>

definition names_of :: "Challenge \<Rightarrow> bytes \<times> bytes" where
  "names_of ch = (c_str (ch_challenger ch), c_str (ch_target ch))"

definition queue :: "server \<Rightarrow> (bytes \<times> bytes) list" where
  "queue s = map names_of (pending s)"

lemma challenge_between_names: "challenge_between a b = (\<lambda>ch. names_of ch = (a, b))"
  by (auto simp: challenge_between_def names_of_def fun_eq_iff)

lemma queue_length: "challenges_inv s \<Longrightarrow> length (queue s) = activeChallenges s"
  using slots_okD(5) [of MAX_CHALLENGES "activeChallenges s" "activeChallengesList s"]
  by (simp add: challenges_inv_def queue_def pending_def)

lemma drop_challenge_other [simp]:
  "users_inv (drop_challenge i s) = users_inv s" "sessions (drop_challenge i s) = sessions s"
  by (simp_all add: drop_challenge_def users_inv_def sessions_def active_def name_of_def)

lemma challenge_match:
  assumes inv: "challenges_inv s" and f: "find_index (challenge_between b a) (pending s) = Some i"
  shows "processDuelRequest a b s = Some (MATCH_FOUND, drop_challenge i s)"
    "challenges_inv (drop_challenge i s)"
    "mset (queue (drop_challenge i s)) = mset (queue s) - {#(b, a)#}" "(b, a) \<in> set (queue s)"
proof -
  have i: "i < length (pending s)" "names_of (pending s ! i) = (b, a)"
    using find_index_Some [OF f] by (simp_all add: challenge_between_names)
  show "processDuelRequest a b s = Some (MATCH_FOUND, drop_challenge i s)"
    using pending_find [OF inv, of "challenge_between b a"] f by (simp add: processDuelRequest_def)
  show "challenges_inv (drop_challenge i s)" by (rule drop_challenge_pending(1) [OF inv i(1)])
  have "mset (queue (drop_challenge i s)) = image_mset names_of (mset (pending s) - {#pending s ! i#})"
    using drop_challenge_pending(2) [OF inv i(1)] mset_swap_remove [OF i(1)] by (simp add: queue_def)
  also have "\<dots> = mset (queue s) - {#(b, a)#}"
    using i by (subst image_mset_Diff) (simp_all add: queue_def)
  finally show "mset (queue (drop_challenge i s)) = mset (queue s) - {#(b, a)#}" .
  show "(b, a) \<in> set (queue s)" 
    unfolding queue_def set_map using i(2) nth_mem [OF i(1)] by (rule image_eqI [OF sym])
qed

lemma challenge_add:
  assumes inv: "challenges_inv s" and room: "activeChallenges s < MAX_CHALLENGES"
    and new: "find_index (challenge_between b a) (pending s) = None"
    and fits: "no_nul a" "length a < 100" "no_nul b" "length b < 100"
  shows "\<exists>s'. processDuelRequest a b s = Some (ADDED_TO_CHALLENGE_QUEUE, s') \<and> challenges_inv s'
    \<and> queue s' = queue s @ [(a, b)] \<and> sessions s' = sessions s \<and> (users_inv s' \<longleftrightarrow> users_inv s)"
proof -
  obtain c t where c: "strcpy (malloc s 100) a = Some c" and t: "strcpy (malloc s 100) b = Some t"
    using strcpy_fits [of a "malloc s 100"] strcpy_fits [of b "malloc s 100"] fits by auto
  define ch where "ch = \<lparr>ch_challenger = c, ch_target = t\<rparr>"
  define s' where "s' = s\<lparr>activeChallengesList := (activeChallengesList s)[activeChallenges s := Some ch],
    activeChallenges := activeChallenges s + 1\<rparr>"
  have "names_of ch = (a, b)"
    using strcpy_c_str [OF c fits(1), of "[]"] strcpy_c_str [OF t fits(3), of "[]"]
    by (simp add: names_of_def ch_def)
  moreover note slot_add_items [OF inv [unfolded challenges_inv_def] room, of ch]
  ultimately have "challenges_inv s'" "queue s' = queue s @ [(a, b)]"
    by (simp_all add: challenges_inv_def queue_def pending_def s'_def)
  moreover have "processDuelRequest a b s = Some (ADDED_TO_CHALLENGE_QUEUE, s')"
    using pending_find [OF inv, of "challenge_between b a"] new room c t
    by (simp add: processDuelRequest_def s'_def ch_def del: find_index_None)
  moreover have "sessions s' = sessions s" "users_inv s' = users_inv s"
    by (simp_all add: s'_def sessions_def active_def name_of_def users_inv_def)
  ultimately show ?thesis by blast
qed

lemma queue_member: "find_index (challenge_between b a) (pending s) = None \<longleftrightarrow> (b, a) \<notin> set (queue s)"
  unfolding find_index_None challenge_between_names queue_def set_map by (auto simp: rev_image_eqI)

text \<open>C36: a duel request. The queue of pending challenges behaves as a multiset of pairs of names:
  if the opponent's challenge to this user is pending, it is consumed (one occurrence) and the
  answer is \<open>MATCH_FOUND\<close>; otherwise a full queue refuses and stays as it is, and a queue with room
  gets the new challenge. The array keeps its invariant and no session is touched.\<close>

theorem duel_request_correct:
  assumes "challenges_inv s" "no_nul challenger" "length challenger < 100" "no_nul target" "length target < 100"
  shows "\<exists>r s'. processDuelRequest challenger target s = Some (r, s') \<and> challenges_inv s'
    \<and> sessions s' = sessions s \<and> (users_inv s' \<longleftrightarrow> users_inv s)
    \<and> (if (target, challenger) \<in> set (queue s)
       then r = MATCH_FOUND \<and> mset (queue s') = mset (queue s) - {#(target, challenger)#}
       else if length (queue s) = MAX_CHALLENGES then r = FAILURE \<and> s' = s
       else r = ADDED_TO_CHALLENGE_QUEUE \<and> queue s' = queue s @ [(challenger, target)])"
proof (cases "find_index (challenge_between target challenger) (pending s)")
  case None
  then have new: "(target, challenger) \<notin> set (queue s)" using queue_member by blast
  have n: "length (queue s) = activeChallenges s" "activeChallenges s \<le> MAX_CHALLENGES"
    using assms(1) slots_okD(2) by (auto simp: queue_length challenges_inv_def)
  show ?thesis
  proof (cases "activeChallenges s = MAX_CHALLENGES")
    case True
    then have "processDuelRequest challenger target s = Some (FAILURE, s)"
      using pending_find [OF assms(1), of "challenge_between target challenger"] None
      by (simp add: processDuelRequest_def del: find_index_None)
    then show ?thesis using assms(1) new n True by simp
  next
    case False
    with n have "activeChallenges s < MAX_CHALLENGES" by simp
    from challenge_add [OF assms(1) this None assms(2-5)] show ?thesis using new n False by auto
  qed
next
  case (Some i)
  then show ?thesis using challenge_match [OF assms(1) Some] by simp
qed

definition idle :: server where
  "idle = \<lparr>files = Map.empty, junk = (\<lambda>_. CHR ''?''), setlkw_ok = True, setlk_ok = True,
     creatable = (\<lambda>_. True), activeUsers = 0, activeUserList = replicate MAX_USERS None,
     activeChallenges = 0, activeChallengesList = replicate MAX_CHALLENGES None,
     users_heap = Map.empty, outs = (\<lambda>_. \<lparr>odata = [], ocaps = []\<rparr>), ins = (\<lambda>_. []), duels = []\<rparr>"

lemma idle_inv: "users_inv idle" "challenges_inv idle" "queue idle = []" "sessions idle = []"
  by (simp_all add: users_inv_def challenges_inv_def slots_ok_def idle_def active_def slot_items_def
      sessions_def queue_def pending_def)

theorem duel_request_correct_witness:
  "\<exists>s1 s2. processDuelRequest ''ann'' ''bob'' idle = Some (ADDED_TO_CHALLENGE_QUEUE, s1)
     \<and> processDuelRequest ''bob'' ''ann'' s1 = Some (MATCH_FOUND, s2) \<and> queue s2 = []"
proof -
  have fits: "no_nul ''ann''" "length ''ann'' < 100" "no_nul ''bob''" "length ''bob'' < 100"
    by (simp_all add: no_nul_def)
  obtain s1 where s1: "processDuelRequest ''ann'' ''bob'' idle = Some (ADDED_TO_CHALLENGE_QUEUE, s1)"
    "challenges_inv s1" "queue s1 = [(''ann'', ''bob'')]"
    using duel_request_correct [OF idle_inv(2) fits(1-4)] idle_inv by (auto simp: MAX_CHALLENGES_def)
  obtain s2 where s2: "processDuelRequest ''bob'' ''ann'' s1 = Some (MATCH_FOUND, s2)"
    "mset (queue s2) = {#}"
    using duel_request_correct [OF s1(2) fits(3,4,1,2)] s1(3) by auto
  then show ?thesis using s1(1) by auto
qed

section \<open>Leaving, starting and accepting\<close>

lemma removeActiveUser_queue: "removeActiveUser nm s = Some (r, s') \<Longrightarrow>
    queue s' = queue s \<and> (challenges_inv s' \<longleftrightarrow> challenges_inv s) \<and> users_heap s' = users_heap s"
  by (auto simp: removeActiveUser_def queue_def pending_def challenges_inv_def split: bind_splits option.splits)

text \<open>a user leaves. \<open>removeActiveUser\<close> always ends without following a dangling pointer; exactly
  the session of that name disappears, every other session stays (though the last one moves into
  the hole), the result is 0 iff there was one, and afterwards \<open>getUserSocket\<close> does not find the
  name any more. Pending challenges of the user are not touched.\<close>

theorem remove_active_user_correct:
  assumes "users_inv s"
  shows "\<exists>r s'. removeActiveUser nm s = Some (r, s') \<and> users_inv s'
    \<and> set (sessions s') = {x \<in> set (sessions s). fst x \<noteq> nm}
    \<and> (r = 0 \<longleftrightarrow> nm \<in> fst ` set (sessions s))
    \<and> getUserSocket nm s' = Some (-1) \<and> queue s' = queue s"
proof -
  obtain r s' where rm: "removeActiveUser nm s = Some (r, s')" and inv: "users_inv s'"
    using active_users.rm_defined [OF assms, of nm] by blast
  have sess: "set (sessions s') = {x \<in> set (sessions s). fst x \<noteq> nm}"
    using active_users.rm_unique [OF assms _ users_invD(3) [OF assms] rm, of nm] by simp
  have "find_index (\<lambda>x. fst x = nm) (sessions s') = None" using sess by simp
  then have "getUserSocket nm s' = Some (-1)"
    using user_loop_sessions [OF inv, of nm] by (simp add: getUserSocket_def del: find_index_None)
  moreover have "r = 0 \<longleftrightarrow> nm \<in> fst ` set (sessions s)"
    using active_users.rm_result [OF assms rm] by (auto simp: rev_image_eqI)
  ultimately show ?thesis using rm inv sess removeActiveUser_queue [OF rm] by blast
qed

text \<open>The administrator's record that a first start creates.\<close>

definition admin_record :: UserRecord where
  "admin_record = \<lparr>ur_username = char_array ''admin'', ur_password = char_array ''admin'', ur_privilege = ADMIN_USER\<rparr>"

lemma create_if_missing_files:
  assumes "create_if_missing path content s = Some s'"
  shows "files s' = (files s)(path \<mapsto> (case files s path of None \<Rightarrow> content | Some c \<Rightarrow> c))"
    "creatable s' = creatable s" "files s path \<noteq> None \<Longrightarrow> s' = s"
  using assms by (auto simp: create_if_missing_def put_file_def split: if_splits)

lemma create_if_missing_ok: "creatable s path \<Longrightarrow> \<exists>s'. create_if_missing path content s = Some s'"
  by (simp add: create_if_missing_def)

lemma admin_image: "db_fits 204 [enc_UserRecord admin_record]"
  "enc_int 1 @ enc_UserRecord admin_record = db_image [enc_UserRecord admin_record] []"
proof -
  have "length (enc_UserRecord admin_record) = 204"
    by (rule UserRecord_codec) (simp add: wf_UserRecord_def admin_record_def no_nul_def int_range_def)
  then show "db_fits 204 [enc_UserRecord admin_record]" by (simp add: db_fits_def all_len_def)
qed (simp add: db_image_def)

lemma create_if_missing_frame:
  assumes "create_if_missing (db_path fn) content s = Some s'"
  shows "fcntl_ok s' = fcntl_ok s" "creatable s' = creatable s"
    "fn' \<noteq> fn \<Longrightarrow> files s' (db_path fn') = files s (db_path fn')"
    "fn' \<noteq> fn \<Longrightarrow> typed_ok fn' sz dec valid s' = typed_ok fn' sz dec valid s"
    "fn' \<noteq> fn \<Longrightarrow> typed_rows fn' sz dec s' = typed_rows fn' sz dec s"
  using assms create_if_missing_files [OF assms]
  by (auto simp: create_if_missing_def typed_ok_def typed_rows_def table_ok_def table_rows_def fcntl_ok_def
      split: if_splits)

lemma create_table:
  assumes c: "create_if_missing (db_path fn) (db_image rows []) s = Some s'"
    and "fcntl_ok s" "db_fits sz rows" "list_all valid (map dec rows)"
    and "files s (db_path fn) = None \<or> typed_ok fn sz dec valid s"
  shows "typed_ok fn sz dec valid s'"
    "typed_rows fn sz dec s' = (if files s (db_path fn) = None then map dec rows else typed_rows fn sz dec s)"
    "files s' (db_path fn) \<noteq> None"
proof -
  have "typed_ok fn sz dec valid s' \<and> typed_rows fn sz dec s'
      = (if files s (db_path fn) = None then map dec rows else typed_rows fn sz dec s)
      \<and> files s' (db_path fn) \<noteq> None"
  proof (cases "files s (db_path fn) = None")
    case True
    then have "s' = put_file (db_path fn) (db_image rows []) s"
      using c by (simp add: create_if_missing_def split: if_splits)
    then show ?thesis
      using True assms(2-4) writes_rowsD [OF writes_rows_image [OF assms(3), of fn s "[]"]]
      by (simp add: typed_ok_def typed_rows_def)
  next
    case False
    then show ?thesis using create_if_missing_files(3) [OF c] assms(5) by auto
  qed
  then show "typed_ok fn sz dec valid s'"
    "typed_rows fn sz dec s' = (if files s (db_path fn) = None then map dec rows else typed_rows fn sz dec s)"
    "files s' (db_path fn) \<noteq> None" by simp_all
qed

lemma database_names: "''./database/users.dat'' = db_path ''users.dat''"
  "''./database/problems.dat'' = db_path ''problems.dat''"
  "''./database/leaderboard.dat'' = db_path ''leaderboard.dat''"
  by (simp_all add: db_path_def DATABASE_PATH_def)

lemma empty_image: "enc_int 0 = db_image [] []" "db_fits 112 []" "db_fits 104 []"
  by (simp_all add: db_image_def db_fits_def all_len_def)

text \<open>start-up. When each of the three tables is missing or well formed and files can be created,
  \<open>serverInit\<close> succeeds and leaves three well-formed tables: a table that was there keeps its rows, a
  new users table holds exactly the administrator (name and password ``admin''), the other two start
  empty. Starting again changes nothing.\<close>

theorem server_init_tables:
  fixes s :: "'a os_scheme"
  assumes "fcntl_ok s" "\<forall>p. creatable s p"
    and "files s (db_path ''users.dat'') = None \<or> users_ok s"
    and "files s (db_path ''problems.dat'') = None \<or> problems_ok s"
    and "files s (db_path ''leaderboard.dat'') = None \<or> leaderboard_ok s"
  shows "\<exists>s'. serverInit s = Some s' \<and> users_ok s' \<and> problems_ok s' \<and> leaderboard_ok s'
    \<and> user_rows s' = (if files s (db_path ''users.dat'') = None then [admin_record] else user_rows s)
    \<and> problem_rows s' = (if files s (db_path ''problems.dat'') = None then [] else problem_rows s)
    \<and> leaderboard_rows s' = (if files s (db_path ''leaderboard.dat'') = None then [] else leaderboard_rows s)
    \<and> serverInit s' = Some s'"
proof -
  note [simp] = users_ok_def problems_ok_def leaderboard_ok_def user_rows_def problem_rows_def leaderboard_rows_def
  let ?adm = "[enc_UserRecord admin_record]"
  obtain s1 where c1: "create_if_missing (db_path ''users.dat'') (db_image ?adm []) s = Some s1"
    using create_if_missing_ok assms(2) by blast
  obtain s2 where c2: "create_if_missing (db_path ''problems.dat'') (db_image [] []) s1 = Some s2"
    using create_if_missing_ok create_if_missing_frame(2) [OF c1] assms(2) by metis
  obtain s3 where c3: "create_if_missing (db_path ''leaderboard.dat'') (db_image [] []) s2 = Some s3"
    using create_if_missing_ok create_if_missing_frame(2) [OF c1] create_if_missing_frame(2) [OF c2] assms(2) by metis
  note f = create_if_missing_frame [OF c1] create_if_missing_frame [OF c2] create_if_missing_frame [OF c3]
  have init: "serverInit t = do { t1 \<leftarrow> create_if_missing (db_path ''users.dat'') (db_image ?adm []) t;
       t2 \<leftarrow> create_if_missing (db_path ''problems.dat'') (db_image [] []) t1;
       create_if_missing (db_path ''leaderboard.dat'') (db_image [] []) t2 }" for t :: "'a os_scheme"
    unfolding serverInit_def database_names admin_record_def [symmetric] empty_image(1) [symmetric]
      admin_image(2) [symmetric] by simp
  have wf: "wf_UserRecord admin_record"
    by (simp add: wf_UserRecord_def admin_record_def no_nul_def int_range_def)
  have "users_ok s1 \<and> user_rows s1
      = (if files s (db_path ''users.dat'') = None then [admin_record] else user_rows s)
      \<and> files s1 (db_path ''users.dat'') \<noteq> None"
    using create_table [OF c1 assms(1) admin_image(1), of wf_UserRecord dec_UserRecord] assms(3) wf UserRecord_codec(2) [OF wf]
    by simp
  moreover have p: "files s1 (db_path ''problems.dat'') = None \<or> problem_file.ok s1"
    using assms(4) by (simp add: f(3,4) [of "''problems.dat''"])
  have "problems_ok s2 \<and> problem_rows s2
      = (if files s (db_path ''problems.dat'') = None then [] else problem_rows s)
      \<and> files s2 (db_path ''problems.dat'') \<noteq> None"
    using create_table [OF c2 _ empty_image(2) _ p] assms(1)
    by (simp add: f(1) f(3-5) [of "''problems.dat''"])
  moreover have l: "files s2 (db_path ''leaderboard.dat'') = None \<or> leaderboard_file.ok s2"
    using assms(5) by (simp add: f(3,4,8,9) [of "''leaderboard.dat''"])
  have "leaderboard_ok s3 \<and> leaderboard_rows s3
      = (if files s (db_path ''leaderboard.dat'') = None then [] else leaderboard_rows s)
      \<and> files s3 (db_path ''leaderboard.dat'') \<noteq> None"
    using create_table [OF c3 _ empty_image(3) _ l] assms(1)
    by (simp add: f(1,6) f(3-5) [of "''leaderboard.dat''"] f(8-10) [of "''leaderboard.dat''"])
  ultimately have "users_ok s3 \<and> problems_ok s3 \<and> leaderboard_ok s3
      \<and> user_rows s3 = (if files s (db_path ''users.dat'') = None then [admin_record] else user_rows s)
      \<and> problem_rows s3 = (if files s (db_path ''problems.dat'') = None then [] else problem_rows s)
      \<and> leaderboard_rows s3 = (if files s (db_path ''leaderboard.dat'') = None then [] else leaderboard_rows s)
      \<and> files s3 (db_path ''users.dat'') \<noteq> None \<and> files s3 (db_path ''problems.dat'') \<noteq> None
      \<and> files s3 (db_path ''leaderboard.dat'') \<noteq> None"
    by (simp add: f)
  moreover from this have "serverInit s3 = Some s3" by (simp add: init create_if_missing_def)
  moreover have "serverInit s = Some s3" using c1 c2 c3 by (simp add: init)
  ultimately show ?thesis by blast
qed

theorem server_init_tables_witness:
  "\<exists>s'. serverInit idle = Some s' \<and> user_rows s' = [admin_record] \<and> problem_rows s' = []
     \<and> leaderboard_rows s' = [] \<and> serverInit s' = Some s'"
  using server_init_tables [of idle] by (force simp: idle_def fcntl_ok_def)

text \<open>A state in which the given users are logged in, at the addresses 0, 1, ...\<close>

definition with_users :: "User list \<Rightarrow> server \<Rightarrow> server" where
  "with_users us s = s\<lparr>activeUsers := length us,
     activeUserList := map Some [0..<length us] @ replicate (MAX_USERS - length us) None,
     users_heap := (\<lambda>p. if p < length us then Some (us ! p) else None)\<rparr>"

definition online_user :: "bytes \<Rightarrow> int \<Rightarrow> User" where
  "online_user nm sock = \<lparr>us_username = char_array nm, us_loggedIn = 1, us_socket = sock,
     us_privilege = REGULAR_USER, us_duelRequest = 0\<rparr>"

lemma with_users_inv:
  assumes "length us \<le> MAX_USERS" "\<forall>u \<in> set us. session_ok (Some u)"
    "distinct (map (\<lambda>u. c_str (us_username u)) us)"
  shows "users_inv (with_users us s)"
    "sessions (with_users us s) = zip (map (\<lambda>u. c_str (us_username u)) us) [0..<length us]"
    "queue (with_users us s) = queue s" "challenges_inv (with_users us s) = challenges_inv s"
proof -
  have act: "active (with_users us s) = [0..<length us]"
    by (simp add: active_def slot_items_def with_users_def comp_def)
  show sess: "sessions (with_users us s) = zip (map (\<lambda>u. c_str (us_username u)) us) [0..<length us]"
    unfolding sessions_def act name_of_def
    by (rule nth_equalityI) (simp_all add: with_users_def)
  have "slots_ok MAX_USERS (activeUsers (with_users us s)) (activeUserList (with_users us s))"
    using assms(1) by (auto simp: slots_ok_def with_users_def nth_append)
  then show "users_inv (with_users us s)"
    using assms(2,3) by (simp add: users_inv_def act sess list_all_iff) (simp add: with_users_def)
qed (simp_all add: queue_def pending_def challenges_inv_def with_users_def)

lemma online_user_ok: "no_nul nm \<Longrightarrow> length nm < 100 \<Longrightarrow>
    session_ok (Some (online_user nm k)) \<and> c_str (us_username (online_user nm k)) = nm"
  by (simp add: session_ok_def online_user_def)

theorem remove_active_user_correct_witness:
  "\<exists>s'. removeActiveUser ''ann'' (with_users [online_user ''ann'' 4, online_user ''bob'' 5] idle) = Some (0, s')
     \<and> getUserSocket ''ann'' s' = Some (-1) \<and> set (sessions s') = {(''bob'', 1)}"
proof -
  let ?us = "[online_user ''ann'' 4, online_user ''bob'' 5]"
  have u: "session_ok (Some (online_user ''ann'' 4)) \<and> c_str (us_username (online_user ''ann'' 4)) = ''ann''"
    "session_ok (Some (online_user ''bob'' 5)) \<and> c_str (us_username (online_user ''bob'' 5)) = ''bob''"
    by (intro online_user_ok; simp add: no_nul_def)+
  have inv: "users_inv (with_users ?us idle)" "sessions (with_users ?us idle) = [(''ann'', 0), (''bob'', 1)]"
    using u with_users_inv(1,2) [of ?us idle] by (simp_all add: MAX_USERS_def)
  from remove_active_user_correct [OF inv(1), of "''ann''"] inv(2) show ?thesis by force
qed

end
