(* ===== verification/Handlers.thy ===== *)
theory Handlers
  imports ServerState
begin

text \<open>
  \<open>handleClient\<close> of \<open>Server/server.c\<close>: one definition per operation of the protocol and the loop
  that reads a request and dispatches it. \<open>conn\<close> holds the locals of a connection's thread: the
  \<open>User*\<close>, the socket and the buffers, which keep their content from one request to the next. One
  request is one step; what other threads do in between is another step. \<open>None\<close> is undefined
  behaviour: a \<open>strcpy\<close> of a JSON string that is longer than its array, a read past the end of
  the receive buffer, a dangling \<open>User*\<close>.
\<close>

record conn =
  c_user :: nat
  c_socket :: int
  c_username :: bytes
  c_password :: bytes
  c_buffer :: bytes
  c_result :: bytes

text \<open>\<open>continue\<close> or the end of the body, \<open>break\<close> or \<open>return\<close>, and the wait for the end of a duel.\<close>

datatype flow = Again | Leave | Blocked

definition status_json :: "int \<Rightarrow> cJSON" where
  "status_json status = cJSON_AddNumberToObject cJSON_CreateObject ''status'' status"

definition message_json :: "int \<Rightarrow> bytes \<Rightarrow> cJSON" where
  "message_json status message = cJSON_AddStringToObject (status_json status) ''message'' message"

definition login_json :: "int \<Rightarrow> int \<Rightarrow> bytes \<Rightarrow> cJSON" where
  "login_json status level message = cJSON_AddStringToObject
     (cJSON_AddNumberToObject (status_json status) ''userLevel'' level) ''message'' message"

definition sendStatus :: "int \<Rightarrow> int \<Rightarrow> server \<Rightarrow> server option" where
  "sendStatus socket status s = sendJson socket (status_json status) s"

section \<open>Sessions: login, signup, logout\<close>

definition zeroed_user :: User where
  "zeroed_user = \<lparr>us_username = replicate 100 (CHR 0x00), us_loggedIn = 0, us_socket = 0,
     us_privilege = 0, us_duelRequest = 0\<rparr>"

text \<open>The part of login behind the checks: the user is marked as logged in first and registered
  then; a full server wipes the whole \<open>User\<close>, its socket included.\<close>

definition login_user :: "nat \<Rightarrow> bytes \<Rightarrow> int \<Rightarrow> server \<Rightarrow> (int \<times> bytes \<times> server) option" where
  "login_user p name privilege s = do {
     user \<leftarrow> users_heap s p;
     nm \<leftarrow> strcpy (us_username user) name;
     s1 \<leftarrow> update_user p (\<lambda>u. u\<lparr>us_loggedIn := 1, us_username := nm, us_privilege := privilege\<rparr>) s;
     let (ret, s2) = addActiveUser p s1;
     if ret < 0 then do {
       s3 \<leftarrow> update_user p (\<lambda>_. zeroed_user) s2;
       Some (FAILURE, ''Server full. Try again later.'', s3)
     } else Some (SUCCESS, ''Login successful'', s2)
   }"

text \<open>What a login does to the state, without its answer: the checks in their order.\<close>

definition login_outcome :: "bytes \<Rightarrow> bytes \<Rightarrow> nat \<Rightarrow> server \<Rightarrow> (int \<times> bytes \<times> server) option" where
  "login_outcome name pass p s = do {
     user \<leftarrow> users_heap s p;
     index \<leftarrow> (if us_loggedIn user \<noteq> 0 then Some 0 else findActiveUserIndex name s);
     if us_loggedIn user \<noteq> 0 \<or> index \<noteq> -1 then Some (FAILURE, ''User already logged in'', s)
     else case getUserRecord name s of
       None \<Rightarrow> Some (FAILURE, ''Invalid username or password'', s)
     | Some r \<Rightarrow>
         if c_str (ur_password r) \<noteq> pass then Some (FAILURE, ''Invalid username or password'', s)
         else login_user p name (ur_privilege r) s
   }"

definition handle_login :: "cJSON option \<Rightarrow> conn \<Rightarrow> server \<Rightarrow> (flow \<times> conn \<times> server) option" where
  "handle_login json c s = do {
     username \<leftarrow> strcpy (c_username c) (json_get_string json ''username'');
     password \<leftarrow> strcpy (c_password c) (json_get_string json ''password'');
     (status, message, s1) \<leftarrow> login_outcome (c_str username) (c_str password) (c_user c) s;
     user \<leftarrow> users_heap s1 (c_user c);
     s2 \<leftarrow> sendJson (c_socket c) (login_json status (us_privilege user) message) s1;
     Some (Again, c\<lparr>c_username := username, c_password := password\<rparr>, s2)
   }"

text \<open>The new record and the new leaderboard entry are freshly allocated.\<close>

definition signup_user :: "bytes \<Rightarrow> bytes \<Rightarrow> server \<Rightarrow> (int \<times> bytes \<times> server) option" where
  "signup_user name pass s = do {
     nm \<leftarrow> strcpy (take 100 (malloc s 204)) name;
     pw \<leftarrow> strcpy (take 100 (drop 100 (malloc s 204))) pass;
     let (ret, s1) = addUserRecord \<lparr>ur_username = nm, ur_password = pw, ur_privilege = 0\<rparr> s;
     if ret < 0 then Some (FAILURE, ''Failed to create user account'', s1)
     else do {
       en \<leftarrow> strcpy (take 100 (malloc s1 104)) name;
       let (_, s2) = addLeaderboardEntry \<lparr>le_username = en, le_elo = DEFAULT_ELO\<rparr> s1;
       Some (SUCCESS, ''Signup successful'', s2)
     }
   }"

definition signup_outcome :: "bytes \<Rightarrow> bytes \<Rightarrow> nat \<Rightarrow> server \<Rightarrow> (int \<times> bytes \<times> server) option" where
  "signup_outcome name pass p s = do {
     user \<leftarrow> users_heap s p;
     if us_loggedIn user \<noteq> 0 then Some (FAILURE, ''User already logged in, cant sign up for new account'', s)
     else if getUserRecord name s \<noteq> None then Some (FAILURE, ''Username already exists'', s)
     else signup_user name pass s
   }"

definition handle_signup :: "cJSON option \<Rightarrow> conn \<Rightarrow> server \<Rightarrow> (flow \<times> conn \<times> server) option" where
  "handle_signup json c s = do {
     username \<leftarrow> strcpy (c_username c) (json_get_string json ''username'');
     password \<leftarrow> strcpy (c_password c) (json_get_string json ''password'');
     (status, message, s1) \<leftarrow> signup_outcome (c_str username) (c_str password) (c_user c) s;
     s2 \<leftarrow> sendJson (c_socket c) (message_json status message) s1;
     Some (Again, c\<lparr>c_username := username, c_password := password\<rparr>, s2)
   }"

text \<open>A \<open>User\<close>'s name: behind the array lies \<open>loggedIn\<close>, which is 0 whenever the array was never
  written, so the string ends there at the latest.\<close>

definition user_string :: "User \<Rightarrow> bytes" where
  "user_string u = c_str (us_username u)"

text \<open>\<open>free(user)\<close>.\<close>

definition free_user :: "nat \<Rightarrow> server \<Rightarrow> server" where
  "free_user p s = s\<lparr>users_heap := (users_heap s)(p := None)\<rparr>"

definition handle_logout :: "conn \<Rightarrow> server \<Rightarrow> (flow \<times> conn \<times> server) option" where
  "handle_logout c s = do {
     user \<leftarrow> users_heap s (c_user c);
     if us_loggedIn user \<noteq> 0 then do {
       let (_, s1) = removeDuelRequest (user_string user) s;
       (_, s2) \<leftarrow> removeActiveUser (user_string user) s1;
       s3 \<leftarrow> update_user (c_user c) (\<lambda>u. u\<lparr>us_loggedIn := 0\<rparr>) s2;
       s4 \<leftarrow> sendJson (c_socket c) (message_json SUCCESS ''Logout successful'') s3;
       Some (Leave, c, free_user (c_user c) s4)
     } else do {
       s1 \<leftarrow> sendJson (c_socket c) (message_json FAILURE ''User not logged in'') s;
       Some (Again, c, s1)
     }
   }"

text \<open>\<open>read\<close> returned 0 or an error.\<close>

definition handle_disconnect :: "conn \<Rightarrow> server \<Rightarrow> (flow \<times> conn \<times> server) option" where
  "handle_disconnect c s = do {
     user \<leftarrow> users_heap s (c_user c);
     (_, s1) \<leftarrow> removeActiveUser (user_string user) s;
     Some (Leave, c, free_user (c_user c) s1)
   }"

section \<open>Problems\<close>

text \<open>Receiving files one after the other, up to the first failure; sending them the same way.\<close>

fun receive_files :: "int \<Rightarrow> bytes list \<Rightarrow> server \<Rightarrow> int \<times> server" where
  "receive_files socket [] s = (0, s)"
| "receive_files socket (p # ps) s =
     (let (r, s1) = server_receiveFile socket p s
      in if r < 0 then (-1, s1) else receive_files socket ps s1)"

fun send_files :: "int \<Rightarrow> bytes list \<Rightarrow> server \<Rightarrow> server" where
  "send_files socket [] s = s"
| "send_files socket (p # ps) s =
     (let (r, s1) = server_sendFile socket p s in if r < 0 then s1 else send_files socket ps s1)"

text \<open>The three file names of a problem.\<close>

definition problem_files :: "bytes list" where
  "problem_files = [''_statement.txt'', ''_input.in'', ''_output.out'']"

text \<open>The three calls of \<open>rename\<close>, from the temporary to the final names.\<close>

definition install_problem :: "int \<Rightarrow> server \<Rightarrow> server" where
  "install_problem problemID s =
     fold (\<lambda>f. rename_file (temp_problem_path problemID f) (problem_path problemID f)) problem_files s"

definition handle_add_problem :: "cJSON option \<Rightarrow> conn \<Rightarrow> server \<Rightarrow> (flow \<times> conn \<times> server) option" where
  "handle_add_problem json c s = do {
     let problemID = json_get_int json ''id'';
     title \<leftarrow> strcpy (take 100 (drop 4 (malloc s 112))) (json_get_string json ''title'');
     let problem = \<lparr>pr_id = problemID, pr_title = title, pr_difficulty = json_get_int json ''difficulty'',
       pr_visibility = PROBLEM_HIDDEN\<rparr>;
     let (ret, s1) = addProblem problem s;
     let status = (if ret < 0 then FAILURE else SUCCESS);
     s2 \<leftarrow> sendStatus (c_socket c) status s1;
     if status = FAILURE then Some (Again, c, s2)
     else do {
       let (r, s3) = receive_files (c_socket c) (map (temp_problem_path problemID) problem_files) s2;
       if r < 0 then Some (Again, c, snd (deleteProblem problemID s3))
       else Some (Again, c, snd (updateProblem (problem\<lparr>pr_visibility := PROBLEM_VISIBLE\<rparr>)
              (install_problem problemID s3)))
     }
   }"

text \<open>The update of the record under the file lock: index, new image, status. The lock is kept until the
  end of the transfer, but it does not exclude the threads of the same process.\<close>

definition update_problem_row :: "int \<Rightarrow> bytes \<Rightarrow> int \<Rightarrow> int \<Rightarrow> server \<Rightarrow> (int \<times> server) option" where
  "update_problem_row problemID title difficulty problemVisibility s =
     (case files s (db_path ''problems.dat'') of
        None \<Rightarrow> Some (FAILURE, s)
      | Some content \<Rightarrow>
          let (index, lock, fd) = lockRecord s (open_file content) sizeof_Problem
                (\<lambda>r. matchProblem r problemID) F_WRLCK
          in if index < 0 then Some (FAILURE, s)
             else let (record, fd1) = getRecordUnlocked s fd sizeof_Problem index; p = dec_Problem record
                  in do {
                    t \<leftarrow> strcpy (pr_title p) title;
                    let (ret, fd2) = updateRecordUnlocked fd1
                      (enc_Problem (p\<lparr>pr_title := t, pr_difficulty := difficulty, pr_visibility := problemVisibility\<rparr>))
                      sizeof_Problem index;
                    Some (if ret < 0 then FAILURE else SUCCESS,
                      put_file (db_path ''problems.dat'') (fdata fd2) s)
                  })"

definition handle_update_problem :: "cJSON option \<Rightarrow> conn \<Rightarrow> server \<Rightarrow> (flow \<times> conn \<times> server) option" where
  "handle_update_problem json c s = do {
     let problemID = json_get_int json ''id'';
     (status, s1) \<leftarrow> update_problem_row problemID (json_get_string json ''title'')
       (json_get_int json ''difficulty'') (json_get_int json ''visibility'') s;
     s2 \<leftarrow> sendStatus (c_socket c) status s1;
     if status = FAILURE then Some (Again, c, s2)
     else do {
       let changed = filter (\<lambda>(flag, f). json_get_int json flag \<noteq> 0)
         (zip [''changeStatement'', ''changeInput'', ''changeOutput''] problem_files);
       let (r, s3) = receive_files (c_socket c) (map (temp_problem_path problemID \<circ> snd) changed) s2;
       Some (Again, c, if r < 0 then s3 else install_problem problemID s3)
     }
   }"

text \<open>The reply that \<open>GET_PROBLEM\<close> and \<open>VIEW_A_PROBLEM\<close> share, with its status. The title is read from the
  record's memory.\<close>

definition problem_reply :: "User \<Rightarrow> Problem option \<Rightarrow> (int \<times> cJSON) option" where
  "problem_reply user problem =
     (case problem of
        None \<Rightarrow> Some (FAILURE, status_json FAILURE)
      | Some p \<Rightarrow>
          if us_privilege user = REGULAR_USER \<and> pr_visibility p = PROBLEM_HIDDEN
          then Some (FAILURE, status_json FAILURE)
          else do {
            title \<leftarrow> str_at (drop 4 (enc_Problem p));
            Some (SUCCESS, cJSON_AddNumberToObject
              (cJSON_AddStringToObject (status_json SUCCESS) ''title'' title) ''difficulty'' (pr_difficulty p))
          })"

definition show_problem :: "bytes list \<Rightarrow> cJSON option \<Rightarrow> conn \<Rightarrow> server \<Rightarrow> (flow \<times> conn \<times> server) option" where
  "show_problem fs json c s = do {
     let problemID = json_get_int json ''id'';
     user \<leftarrow> users_heap s (c_user c);
     (status, response) \<leftarrow> problem_reply user (getProblem problemID s);
     s1 \<leftarrow> sendJson (c_socket c) response s;
     Some (Again, c, if status = FAILURE then s1
       else send_files (c_socket c) (map (problem_path problemID) fs) s1)
   }"

definition handle_get_problem :: "cJSON option \<Rightarrow> conn \<Rightarrow> server \<Rightarrow> (flow \<times> conn \<times> server) option" where
  "handle_get_problem = show_problem problem_files"

definition handle_view_problem :: "cJSON option \<Rightarrow> conn \<Rightarrow> server \<Rightarrow> (flow \<times> conn \<times> server) option" where
  "handle_view_problem = show_problem [''_statement.txt'']"

definition handle_delete_problem :: "cJSON option \<Rightarrow> conn \<Rightarrow> server \<Rightarrow> (flow \<times> conn \<times> server) option" where
  "handle_delete_problem json c s = do {
     let problemID = json_get_int json ''id'';
     let (ret, s1) = deleteProblem problemID s;
     let status = (if ret < 0 then FAILURE else SUCCESS);
     s2 \<leftarrow> sendStatus (c_socket c) status s1;
     Some (Again, c, if status = FAILURE then s2
       else fold (\<lambda>f t. snd (deleteFile (problem_path problemID f) t)) problem_files s2)
   }"

text \<open>One element of a page and the whole page, as the loops build them.\<close>

definition problem_json :: "Problem \<Rightarrow> cJSON option" where
  "problem_json p = do {
     title \<leftarrow> str_at (drop 4 (enc_Problem p));
     Some (cJSON_AddNumberToObject (cJSON_AddStringToObject
       (cJSON_AddNumberToObject cJSON_CreateObject ''id'' (pr_id p)) ''title'' title)
       ''difficulty'' (pr_difficulty p))
   }"

definition entry_json :: "LeaderboardEntry \<Rightarrow> cJSON option" where
  "entry_json e = do {
     name \<leftarrow> str_at (enc_LeaderboardEntry e);
     Some (cJSON_AddNumberToObject (cJSON_AddStringToObject cJSON_CreateObject ''username'' name)
       ''elo'' (le_elo e))
   }"

fun json_array :: "('r \<Rightarrow> cJSON option) \<Rightarrow> cJSON \<Rightarrow> 'r list \<Rightarrow> cJSON option" where
  "json_array f array [] = Some array"
| "json_array f array (r # rs) = do { j \<leftarrow> f r; json_array f (cJSON_AddItemToArray array j) rs }"

definition page_reply :: "bytes \<Rightarrow> ('r \<Rightarrow> cJSON option) \<Rightarrow> 'r list option \<Rightarrow> cJSON option" where
  "page_reply name f page =
     (case page of
        None \<Rightarrow> Some (status_json FAILURE)
      | Some rs \<Rightarrow> do {
          array \<leftarrow> json_array f cJSON_CreateArray rs;
          Some (cJSON_AddItemToObject
            (cJSON_AddNumberToObject (status_json SUCCESS) ''count'' (int (length rs))) name array)
        })"

definition handle_view_all :: "cJSON option \<Rightarrow> conn \<Rightarrow> server \<Rightarrow> (flow \<times> conn \<times> server) option" where
  "handle_view_all json c s = do {
     response \<leftarrow> page_reply ''problems'' problem_json (map_option (map dec_Problem)
       (getRecordPage ''problems.dat'' sizeof_Problem (json_get_int json ''page'') 3
          (Some (\<lambda>r. matchProblemVisibility r PROBLEM_VISIBLE)) s));
     s1 \<leftarrow> sendJson (c_socket c) response s;
     Some (Again, c, s1)
   }"

section \<open>Leaderboard\<close>

definition handle_leaderboard :: "cJSON option \<Rightarrow> conn \<Rightarrow> server \<Rightarrow> (flow \<times> conn \<times> server) option" where
  "handle_leaderboard json c s = do {
     response \<leftarrow> page_reply ''entries'' entry_json (map_option (map dec_LeaderboardEntry)
       (getRecordPage ''leaderboard.dat'' sizeof_LeaderboardEntry (json_get_int json ''page'') 5 None s));
     s1 \<leftarrow> sendJson (c_socket c) response s;
     Some (Again, c, s1)
   }"

definition handle_specific_elo :: "cJSON option \<Rightarrow> conn \<Rightarrow> server \<Rightarrow> (flow \<times> conn \<times> server) option" where
  "handle_specific_elo json c s = do {
     response \<leftarrow> (case getLeaderboardEntry (json_get_string json ''username'') s of
        None \<Rightarrow> Some (status_json FAILURE)
      | Some e \<Rightarrow> do {
          name \<leftarrow> str_at (enc_LeaderboardEntry e);
          Some (cJSON_AddNumberToObject (cJSON_AddStringToObject (status_json SUCCESS) ''username'' name)
            ''elo'' (le_elo e))
        });
     s1 \<leftarrow> sendJson (c_socket c) response s;
     Some (Again, c, s1)
   }"

section \<open>Submissions\<close>

text \<open>The first answer is \<open>SUCCESS\<close> even when the problem does not exist. \<open>resultBuffer\<close> keeps the verdict
  of the previous submission.\<close>

definition handle_submit :: "judge_env \<Rightarrow> cJSON option \<Rightarrow> conn \<Rightarrow> server \<Rightarrow> (flow \<times> conn \<times> server) option" where
  "handle_submit env json c s = do {
     let problemID = json_get_int json ''id'';
     user \<leftarrow> users_heap s (c_user c);
     let tempSolutionPath = ''./tempSolutions/'' @ show_int problemID @ ''_'' @ user_string user @ ''_solution.c'';
     s1 \<leftarrow> sendStatus (c_socket c) SUCCESS s;
     if getProblem problemID s = None then Some (Again, c, s1)
     else do {
       let (r, s2) = server_receiveFile (c_socket c) tempSolutionPath s1;
       if r < 0 then Some (Again, c, s2)
       else do {
         (res, result, s3) \<leftarrow> submitProblem env problemID (c_result c) tempSolutionPath s2;
         message \<leftarrow> str_at result;
         s4 \<leftarrow> sendJson (c_socket c) (message_json (if res < 0 then FAILURE else SUCCESS) message) s3;
         Some (Again, c\<lparr>c_result := result\<rparr>, s4)
       }
     }
   }"

section \<open>Challenges\<close>

text \<open>A matched challenge starts a duel: the thread of \<open>startDuel\<close> is what \<open>duels\<close> records.\<close>

definition handle_duel :: "cJSON option \<Rightarrow> conn \<Rightarrow> server \<Rightarrow> (flow \<times> conn \<times> server) option" where
  "handle_duel json c s = do {
     let opponentUsername = json_get_string json ''opponent'';
     user \<leftarrow> users_heap s (c_user c);
     (ret, s1) \<leftarrow> processDuelRequest (user_string user) opponentUsername s;
     let status = (if ret = MATCH_FOUND then GO_TO_DUEL_MENU
       else if ret = ADDED_TO_CHALLENGE_QUEUE then GO_TO_DUEL_WAITING_MENU else FAILURE);
     s2 \<leftarrow> sendStatus (c_socket c) status s1;
     if status \<noteq> GO_TO_DUEL_MENU then Some (Again, c, s2)
     else do {
       opponentSocket \<leftarrow> getUserSocket opponentUsername s2;
       p1 \<leftarrow> strcpy (take 100 (drop 8 (malloc s2 208))) (user_string user);
       p2 \<leftarrow> strcpy (take 100 (drop 108 (malloc s2 208))) opponentUsername;
       s3 \<leftarrow> update_user (c_user c) (\<lambda>u. u\<lparr>us_duelRequest := 1\<rparr>) s2;
       s4 \<leftarrow> sendStatus opponentSocket GO_TO_DUEL_MENU s3;
       Some (Again, c, s4\<lparr>duels := duels s4 @ [\<lparr>du_socket1 = c_socket c, du_socket2 = opponentSocket,
         du_player1 = p1, du_player2 = p2\<rparr>]\<rparr>)
     }
   }"

definition handle_withdraw :: "conn \<Rightarrow> server \<Rightarrow> (flow \<times> conn \<times> server) option" where
  "handle_withdraw c s = do {
     user \<leftarrow> users_heap s (c_user c);
     Some (Again, c, snd (removeDuelRequest (user_string user) s))
   }"

definition handle_accepted :: "conn \<Rightarrow> server \<Rightarrow> (flow \<times> conn \<times> server) option" where
  "handle_accepted c s = do {
     s1 \<leftarrow> update_user (c_user c) (\<lambda>u. u\<lparr>us_duelRequest := 1\<rparr>) s;
     Some (Again, c, s1)
   }"

section \<open>The loop of a connection\<close>

definition dispatch :: "judge_env \<Rightarrow> cJSON option \<Rightarrow> conn \<Rightarrow> server \<Rightarrow> (flow \<times> conn \<times> server) option" where
  "dispatch env json c s =
     (let operationCode = json_get_int json ''op''
      in if operationCode = LOGIN_ATTEMPT then handle_login json c s
         else if operationCode = SIGNUP_ATTEMPT then handle_signup json c s
         else if operationCode = LOGOUT_ATTEMPT then handle_logout c s
         else if operationCode = ADD_PROBLEM then handle_add_problem json c s
         else if operationCode = UPDATE_PROBLEM then handle_update_problem json c s
         else if operationCode = GET_PROBLEM then handle_get_problem json c s
         else if operationCode = DELETE_PROBLEM then handle_delete_problem json c s
         else if operationCode = VIEW_ALL_PROBLEMS then handle_view_all json c s
         else if operationCode = VIEW_A_PROBLEM then handle_view_problem json c s
         else if operationCode = SUBMIT_SOLUTION then handle_submit env json c s
         else if operationCode = DUEL_USER then handle_duel json c s
         else if operationCode = WITHDRAW_CHALLENGE then handle_withdraw c s
         else if operationCode = DUEL_ACCEPTED then handle_accepted c s
         else if operationCode = VIEW_FULL_LEADERBOARD then handle_leaderboard json c s
         else if operationCode = VIEW_SPECIFIC_ELO then handle_specific_elo json c s
         else Some (Again, c, s))"

text \<open>One round of the loop of \<open>handleClient\<close>: the wait for the end of a duel, then the blocking \<open>read\<close> and
  the request it delivers.\<close>

definition serve_request :: "judge_env \<Rightarrow> conn \<Rightarrow> server \<Rightarrow> (flow \<times> conn \<times> server) option" where
  "serve_request env c s = do {
     let (bytesRead, buffer, s1) = server_read 1000 (c_socket c) (c_buffer c) s;
     let c1 = c\<lparr>c_buffer := buffer\<rparr>;
     if bytesRead \<le> 0 then handle_disconnect c1 s1
     else do {
       text \<leftarrow> str_at buffer;
       dispatch env (cJSON_Parse text) c1 s1
     }
   }"

definition handle_request :: "judge_env \<Rightarrow> conn \<Rightarrow> server \<Rightarrow> (flow \<times> conn \<times> server) option" where
  "handle_request env c s = do {
     user \<leftarrow> users_heap s (c_user c);
     if us_duelRequest user = 1 then Some (Blocked, c, s) else serve_request env c s
   }"

end
