(* ===== verification/Frames.thy ===== *)
theory Frames
  imports Handlers
begin

text \<open>
  What each operation of the server leaves alone. \<open>keeps P s s'\<close>: from \<open>s\<close> to \<open>s'\<close> only files whose
  path satisfies \<open>P\<close> change, and nothing of the server's own state. \<open>core\<close> is the state that the
  invariant of the arrays reads, \<open>tables_inv\<close> the invariant of the three database files. The lemmas
  are collected in \<open>frames\<close>.
\<close>

named_theorems frames \<open>what an operation leaves unchanged\<close>

section \<open>Operations on files\<close>

definition keeps :: "(bytes \<Rightarrow> bool) \<Rightarrow> 'a os_scheme \<Rightarrow> 'a os_scheme \<Rightarrow> bool" where
  "keeps P s s' \<longleftrightarrow> (\<forall>p. \<not> P p \<longrightarrow> files s' p = files s p) \<and> junk s' = junk s
     \<and> setlkw_ok s' = setlkw_ok s \<and> setlk_ok s' = setlk_ok s \<and> creatable s' = creatable s
     \<and> os.more s' = os.more s"

lemma keeps_refl [simp, intro]: "keeps P s s"
  by (simp add: keeps_def)

lemma keeps_trans [trans]: "keeps P s s1 \<Longrightarrow> keeps P s1 s2 \<Longrightarrow> keeps P s s2"
  by (simp add: keeps_def)

lemma keeps_mono: "keeps P s s' \<Longrightarrow> (\<And>p. P p \<Longrightarrow> Q p) \<Longrightarrow> keeps Q s s'"
  by (auto simp: keeps_def)

lemma keeps_files [frames]:
  "P p \<Longrightarrow> keeps P s (put_file p c s)"
  "P p \<Longrightarrow> keeps P s (snd (remove_file p s))"
  "P p \<Longrightarrow> P q \<Longrightarrow> keeps P s (rename_file p q s)"
  by (auto simp: keeps_def put_file_def remove_file_def rename_file_def split: option.split)

lemma keeps_insertUniqueRecord [frames]:
  "P (db_path fn) \<Longrightarrow> keeps P s (snd (insertUniqueRecord fn r sz mf s))"
  by (auto simp: insertUniqueRecord_def Let_def case_prod_beta intro: keeps_files split: option.split)

lemma keeps_updateRecord [frames]:
  "P (db_path fn) \<Longrightarrow> keeps P s (snd (updateRecord fn r sz mf s))"
  by (auto simp: updateRecord_def Let_def case_prod_beta intro: keeps_files split: option.split)

lemma keeps_deleteRecord [frames]:
  "P (db_path fn) \<Longrightarrow> keeps P s (snd (deleteRecord fn sz mf s))"
  by (auto simp: deleteRecord_def Let_def case_prod_beta intro: keeps_files split: option.split)

lemma keeps_sort [frames]:
  "P (db_path fn) \<Longrightarrow> keeps P s (snd (diskBubbleSortRecords fn sz cmp s))"
  by (auto simp: diskBubbleSortRecords_def Let_def case_prod_beta intro: keeps_files split: option.split)

lemma keeps_tables [frames]:
  "P (db_path ''users.dat'') \<Longrightarrow> keeps P s (snd (addUserRecord u s))"
  "P (db_path ''problems.dat'') \<Longrightarrow> keeps P s (snd (addProblem pr s))"
  "P (db_path ''problems.dat'') \<Longrightarrow> keeps P s (snd (updateProblem pr s))"
  "P (db_path ''problems.dat'') \<Longrightarrow> keeps P s (snd (deleteProblem k s))"
  by (simp_all add: addUserRecord_def addProblem_def updateProblem_def deleteProblem_def frames)

lemma keeps_leaderboard [frames]:
  assumes "P (db_path ''leaderboard.dat'')"
  shows "keeps P s (snd (addLeaderboardEntry e s))" "keeps P s (snd (updateLeaderboardEntry e s))"
  using assms
  by (auto simp: addLeaderboardEntry_def updateLeaderboardEntry_def sortLeaderboard_def Let_def
      case_prod_beta intro: keeps_trans frames)

lemma keeps_deleteMultipleFiles [frames]:
  "list_all P ps \<Longrightarrow> keeps P s (snd (deleteMultipleFiles ps s))"
proof (induction ps arbitrary: s)
  case (Cons p ps)
  have "keeps P s (snd (deleteFile p s))" using Cons.prems by (simp add: deleteFile_def frames)
  moreover have "keeps P (snd (deleteFile p s)) (snd (deleteMultipleFiles ps (snd (deleteFile p s))))"
    using Cons by simp
  ultimately show ?case
    by (auto simp: deleteMultipleFiles.simps Let_def case_prod_beta intro: keeps_trans)
qed (simp add: deleteMultipleFiles.simps)

lemma keeps_receiveFile [frames]: "P path \<Longrightarrow> keeps P s (fst (snd (receiveFile path s es)))"
  by (simp add: receiveFile_def Let_def case_prod_beta frames)

lemma keeps_updateDuelElos:
  "updateDuelElos pow w l s = Some (r, s') \<Longrightarrow> P (db_path ''leaderboard.dat'') \<Longrightarrow> keeps P s s'"
  by (auto simp: updateDuelElos_def Let_def intro: keeps_trans keeps_leaderboard
      split: option.splits bind_splits)

lemma keeps_run:
  "P exe \<Longrightarrow> keeps P s (snd (snd (run_gcc env exe src s)))"
  "P out \<Longrightarrow> keeps P s (snd (snd (run_child env exe i out s)))"
  by (auto simp: run_gcc_def run_child_def Let_def case_prod_beta intro: keeps_trans keeps_files
      split: option.split)

text \<open>The files that a submission writes and removes.\<close>

definition judge_path :: "judge_env \<Rightarrow> int \<Rightarrow> bytes \<Rightarrow> bytes \<Rightarrow> bool" where
  "judge_path env k src p \<longleftrightarrow> p \<in> {executable_path env k, executable_path env k @ ''_output.out'', src}"

lemma keeps_submitProblem:
  assumes "submitProblem env k buffer src s = Some (r, b, s')"
  shows "keeps (judge_path env k src) s s'"
proof -
  let ?P = "judge_path env k src" and ?exe = "executable_path env k"
  have P: "?P ?exe" "?P (?exe @ ''_output.out'')" "?P src" by (simp_all add: judge_path_def)
  obtain err st s1 where g: "run_gcc env ?exe src s = (err, st, s1)" by (metis prod_cases3)
  have s1: "keeps ?P s s1" using keeps_run(1) [of ?P ?exe s env src] P g by simp
  obtain err2 st2 s2 where c: "run_child env ?exe (problem_path k ''_input.in'') (?exe @ ''_output.out'') s1 = (err2, st2, s2)"
    by (metis prod_cases3)
  have s2: "keeps ?P s1 s2"
    using keeps_run(2) [of ?P "?exe @ ''_output.out''" s1 env ?exe "problem_path k ''_input.in''"] P c by simp
  have del: "keeps ?P t (snd (deleteMultipleFiles ps t))"
    if "set ps \<subseteq> {?exe, ?exe @ ''_output.out'', src}" for ps t
    using that P by (intro frames) (auto simp: list_all_iff)
  show ?thesis
    using assms g c s1 s2 keeps_trans [OF s1 s2] keeps_trans [OF s1 del] keeps_trans [OF keeps_trans [OF s1 s2] del]
    by (auto simp: submitProblem_def Let_def case_prod_beta intro!: del split: if_splits bind_splits)
qed

section \<open>The database invariant\<close>

definition users_part :: "'a os_scheme \<Rightarrow> bool" where
  "users_part s \<longleftrightarrow> users_ok s \<and> distinct (map user_name (user_rows s))"

definition problems_part :: "'a os_scheme \<Rightarrow> bool" where
  "problems_part s \<longleftrightarrow> problems_ok s \<and> distinct (map pr_id (problem_rows s))"

definition board_part :: "'a os_scheme \<Rightarrow> bool" where
  "board_part s \<longleftrightarrow> leaderboard_ok s \<and> distinct (map entry_name (leaderboard_rows s))"

definition tables_inv :: "'a os_scheme \<Rightarrow> bool" where
  "tables_inv s \<longleftrightarrow> users_part s \<and> problems_part s \<and> board_part s"

definition tables_room :: "'a os_scheme \<Rightarrow> bool" where
  "tables_room s \<longleftrightarrow> users_room s \<and> problems_room s \<and> leaderboard_room s"

definition same_table :: "bytes \<Rightarrow> 'a os_scheme \<Rightarrow> 'b os_scheme \<Rightarrow> bool" where
  "same_table fn s s' \<longleftrightarrow> files s' (db_path fn) = files s (db_path fn)
     \<and> setlkw_ok s' = setlkw_ok s \<and> setlk_ok s' = setlk_ok s"

lemma same_typed:
  assumes "same_table fn s s'"
  shows "typed_ok fn sz dec valid s' = typed_ok fn sz dec valid s" "typed_rows fn sz dec s' = typed_rows fn sz dec s"
    "table_room fn sz s' = table_room fn sz s"
  using assms by (simp_all add: same_table_def typed_ok_def typed_rows_def table_ok_def table_rows_def
      fcntl_ok_def table_room_def)

lemma same_parts:
  "same_table ''users.dat'' s s' \<Longrightarrow> users_part s' = users_part s \<and> users_room s' = users_room s"
  "same_table ''problems.dat'' s s' \<Longrightarrow> problems_part s' = problems_part s \<and> problems_room s' = problems_room s"
  "same_table ''leaderboard.dat'' s s' \<Longrightarrow> board_part s' = board_part s \<and> leaderboard_room s' = leaderboard_room s"
  by (simp_all add: users_part_def problems_part_def board_part_def users_defs problems_defs leaderboard_defs same_typed)

lemma keeps_same_table: "keeps P s s' \<Longrightarrow> \<not> P (db_path fn) \<Longrightarrow> same_table fn s s'"
  by (simp add: keeps_def same_table_def)

lemma same_tables_inv:
  "keeps P s s' \<Longrightarrow> (\<And>fn. \<not> P (db_path fn)) \<Longrightarrow> tables_inv s' = tables_inv s \<and> tables_room s' = tables_room s"
  by (simp add: tables_inv_def tables_room_def same_parts [OF keeps_same_table])

lemma scanRecords_junk:
  "junk s' = junk s \<Longrightarrow> scanRecords s' sz mf n i fd = scanRecords s sz mf n i fd"
  by (induction n arbitrary: i fd) (simp_all add: getRecordUnlocked_def malloc_def case_prod_beta Let_def)

lemma keeps_getRecord:
  assumes "keeps P s s'" "\<not> P (db_path fn)"
  shows "getRecord fn sz mf s' = getRecord fn sz mf s"
  using assms scanRecords_junk [of s' s]
  by (simp add: keeps_def getRecord_def readCount_def malloc_def split: option.split)

lemma keeps_lookup:
  "keeps P s s' \<Longrightarrow> \<not> P (db_path ''users.dat'') \<Longrightarrow> getUserRecord k s' = getUserRecord k s"
  "keeps P s s' \<Longrightarrow> \<not> P (db_path ''problems.dat'') \<Longrightarrow> getProblem n s' = getProblem n s"
  "keeps P s s' \<Longrightarrow> \<not> P (db_path ''leaderboard.dat'') \<Longrightarrow> getLeaderboardEntry k s' = getLeaderboardEntry k s"
  by (simp_all add: getUserRecord_def getProblem_def getLeaderboardEntry_def keeps_getRecord)

lemma addUserRecord_inv:
  assumes "tables_inv s" "wf_UserRecord r" "users_room s"
  shows "tables_inv (snd (addUserRecord r s))"
    "leaderboard_room (snd (addUserRecord r s)) = leaderboard_room s"
proof -
  have k: "keeps ((=) (db_path ''users.dat'')) s (snd (addUserRecord r s))" by (rule frames) simp
  have "users_part (snd (addUserRecord r s))"
    using assms users.add_ok [of s r] users.add_unique [of s r] by (simp add: tables_inv_def users_part_def)
  then show "tables_inv (snd (addUserRecord r s))"
    "leaderboard_room (snd (addUserRecord r s)) = leaderboard_room s"
    using assms(1) same_parts(2,3) [OF keeps_same_table [OF k]] by (simp_all add: tables_inv_def)
qed

lemma addLeaderboardEntry_inv:
  assumes "tables_inv s" "wf_entry e" "leaderboard_room s"
  shows "tables_inv (snd (addLeaderboardEntry e s))"
proof -
  have k: "keeps ((=) (db_path ''leaderboard.dat'')) s (snd (addLeaderboardEntry e s))" by (rule frames) simp
  have "board_part (snd (addLeaderboardEntry e s))"
    using assms leaderboard.add_ok [of s e] leaderboard.add_unique [of s e] by (simp add: tables_inv_def board_part_def)
  then show ?thesis using assms(1) same_parts(1,2) [OF keeps_same_table [OF k]] by (simp add: tables_inv_def)
qed

lemma problems_inv:
  assumes "tables_inv s"
  shows "wf_Problem p \<Longrightarrow> problems_room s \<Longrightarrow> tables_inv (snd (addProblem p s))"
    "wf_Problem p \<Longrightarrow> tables_inv (snd (updateProblem p s))"
    "tables_inv (snd (deleteProblem k s))"
proof -
  have ok: "problems_ok s" "distinct (map pr_id (problem_rows s))"
    using assms by (simp_all add: tables_inv_def problems_part_def)
  have lift: "tables_inv s'" if "keeps ((=) (db_path ''problems.dat'')) s s'" "problems_part s'" for s' :: "'a os_scheme"
    using assms that(2) same_parts(1,3) [OF keeps_same_table [OF that(1)]] by (simp add: tables_inv_def)
  show "tables_inv (snd (addProblem p s))" if "wf_Problem p" "problems_room s"
    by (rule lift [OF keeps_tables(2)]) (use ok that problems.add_ok problems.add_unique in \<open>auto simp: problems_part_def\<close>)
  show "tables_inv (snd (updateProblem p s))" if "wf_Problem p"
    by (rule lift [OF keeps_tables(3)]) (use ok that problems.upd_ok problems.upd_unique in \<open>auto simp: problems_part_def\<close>)
  show "tables_inv (snd (deleteProblem k s))"
    by (rule lift [OF keeps_tables(4)]) (use ok problems.del_inv in \<open>auto simp: problems_part_def\<close>)
qed

section \<open>Operations of the server\<close>

definition core :: "server \<Rightarrow> nat \<times> nat option list \<times> nat \<times> Challenge option list \<times> (nat \<rightharpoonup> User)" where
  "core s = (activeUsers s, activeUserList s, activeChallenges s, activeChallengesList s, users_heap s)"

definition quiet :: "(bytes \<Rightarrow> bool) \<Rightarrow> server \<Rightarrow> server \<Rightarrow> bool" where
  "quiet P s s' \<longleftrightarrow> core s' = core s \<and> keeps P (os.truncate s) (os.truncate s')"

lemma quiet_refl [simp, intro]: "quiet P s s"
  by (simp add: quiet_def)

lemma quiet_trans [trans]: "quiet P s s1 \<Longrightarrow> quiet P s1 s2 \<Longrightarrow> quiet P s s2"
  by (auto simp: quiet_def intro: keeps_trans)

lemma quiet_mono: "quiet P s s' \<Longrightarrow> (\<And>p. P p \<Longrightarrow> Q p) \<Longrightarrow> quiet Q s s'"
  by (auto simp: quiet_def intro: keeps_mono)

lemma keeps_quiet: "keeps P s s' \<Longrightarrow> quiet P s s'"
  by (cases s, cases s') (auto simp: quiet_def keeps_def core_def os.defs)

lemma quiet_core: "quiet P s s' \<Longrightarrow> core s' = core s"
  by (simp add: quiet_def)

lemma quiet_same_table: "quiet P s s' \<Longrightarrow> \<not> P (db_path fn) \<Longrightarrow> same_table fn s s'"
  by (auto simp: quiet_def keeps_def same_table_def os.defs)

lemma quiet_tables:
  "quiet P s s' \<Longrightarrow> (\<And>fn. \<not> P (db_path fn)) \<Longrightarrow> tables_inv s' = tables_inv s \<and> tables_room s' = tables_room s"
  by (simp add: tables_inv_def tables_room_def same_parts [OF quiet_same_table])

lemma core_inv: "core s' = core s \<Longrightarrow> users_inv s' = users_inv s \<and> challenges_inv s' = challenges_inv s
    \<and> sessions s' = sessions s \<and> queue s' = queue s \<and> users_heap s' = users_heap s"
  by (simp add: core_def users_inv_def challenges_inv_def sessions_def active_def name_of_def queue_def pending_def)

lemma quiet_talk:
  "quiet P s (send_bytes k bs s)"
  "sendJson k j s = Some s' \<Longrightarrow> quiet P s s'"
  "sendStatus k st s = Some s' \<Longrightarrow> quiet P s s'"
  "server_read n k buf s = (r, buf', s') \<Longrightarrow> quiet P s s'"
proof -
  show send: "quiet P s (send_bytes k bs s)" for bs
    by (simp add: quiet_def keeps_def core_def send_bytes_def os.defs)
  show "sendJson k j s = Some s' \<Longrightarrow> quiet P s s'" "sendStatus k st s = Some s' \<Longrightarrow> quiet P s s'"
    using send by (auto simp: sendJson_def sendStatus_def split: bind_splits)
  show "server_read n k buf s = (r, buf', s') \<Longrightarrow> quiet P s s'"
    by (auto simp: quiet_def keeps_def core_def server_read_def os.defs Let_def split: prod.splits)
qed

lemma quiet_receive: "server_receiveFile k path s = (r, s') \<Longrightarrow> P path \<Longrightarrow> quiet P s s'"
proof -
  assume r: "server_receiveFile k path s = (r, s')" "P path"
  obtain q s1 es where e: "receiveFile path s (ins s k) = (q, s1, es)" by (metis prod_cases3)
  have "quiet P s s1" using keeps_quiet [OF keeps_receiveFile [of P path s "ins s k"]] r(2) e by simp
  also have "quiet P s1 s'" using r(1) e by (auto simp: server_receiveFile_def quiet_def keeps_def core_def os.defs)
  finally show ?thesis .
qed

lemma quiet_receive_files: "receive_files k ps s = (r, s') \<Longrightarrow> list_all P ps \<Longrightarrow> quiet P s s'"
proof (induction ps arbitrary: s)
  case (Cons p ps)
  obtain q s1 where e: "server_receiveFile k p s = (q, s1)" by (metis surj_pair)
  have "quiet P s s1" using quiet_receive [OF e] Cons.prems(2) by simp
  then show ?case using Cons e by (auto split: if_splits intro: quiet_trans)
qed simp

lemma quiet_send_files: "quiet P s (send_files k ps s)"
proof (induction ps arbitrary: s)
  case (Cons p ps)
  have "quiet P s (snd (server_sendFile k p s))"
    by (simp add: server_sendFile_def quiet_def keeps_def core_def os.defs case_prod_beta Let_def)
  then show ?case using Cons by (auto simp: Let_def case_prod_beta intro: quiet_trans)
qed simp

end
