(* ===== verification/Sessions.thy ===== *)
theory Sessions
  imports Frames CJsonRoundtrip
begin

text \<open>
  What the handlers of a connection guarantee: each of them keeps the invariants of the arrays, the
  heap of \<open>User\<close>s and the database, touches no other connection's \<open>User\<close>, and frees its own only
  after its session is gone. The functional behaviour of login and signup rests on the contracts of
  \<open>Registry\<close> and \<open>Tables\<close>.
\<close>

definition user_ok :: "User \<Rightarrow> bool" where
  "user_ok u \<longleftrightarrow> length (us_username u) = 100 \<and> int_range (us_privilege u)"

definition heap_inv :: "server \<Rightarrow> bool" where
  "heap_inv s \<longleftrightarrow> (\<forall>p u. users_heap s p = Some u \<longrightarrow> user_ok u)"

definition system_inv :: "server \<Rightarrow> bool" where
  "system_inv s \<longleftrightarrow> users_inv s \<and> challenges_inv s \<and> heap_inv s \<and> tables_inv s"

definition conn_ok :: "conn \<Rightarrow> bool" where
  "conn_ok c \<longleftrightarrow> length (c_username c) = 100 \<and> length (c_password c) = 100
     \<and> length (c_buffer c) = 1000 \<and> length (c_result c) = 1000"

text \<open>A path outside the database directory, and a step that touches such files only.\<close>

definition nondb :: "bytes \<Rightarrow> bool" where
  "nondb p \<longleftrightarrow> take 11 p \<noteq> ''./database/''"

abbreviation silent :: "server \<Rightarrow> server \<Rightarrow> bool" where
  "silent \<equiv> quiet nondb"

lemma nondb_db_path [simp]: "\<not> nondb (db_path fn)"
  by (simp add: nondb_def db_path_def DATABASE_PATH_def)

lemma nondb_paths [simp]:
  "nondb (temp_problem_path k f)" "nondb (problem_path k f)" "nondb (''./tempSolutions/'' @ x)"
  "nondb (executable_path env k)" "nondb (executable_path env k @ y)"
  by (simp_all add: nondb_def temp_problem_path_def problem_path_def executable_path_def numeral_eq_Suc)

lemmas nondb_solution [simp] = nondb_paths(3) [simplified]

lemma silent_inv:
  assumes "silent s s'"
  shows "users_heap s' = users_heap s" "system_inv s' = system_inv s" "tables_room s' = tables_room s"
    "sessions s' = sessions s" "queue s' = queue s" "tables_inv s' = tables_inv s"
    "users_inv s' = users_inv s" "challenges_inv s' = challenges_inv s" "active s' = active s"
  using core_inv [OF quiet_core [OF assms]] quiet_tables [OF assms] quiet_core [OF assms]
  by (simp_all add: system_inv_def heap_inv_def active_def core_def)

section \<open>Changing one \<open>User\<close>\<close>

lemma heap_inactive:
  assumes "p \<notin> set (active s)"
  shows "users_inv (s\<lparr>users_heap := (users_heap s)(p := x)\<rparr>) = users_inv s"
    "sessions (s\<lparr>users_heap := (users_heap s)(p := x)\<rparr>) = sessions s"
proof -
  let ?s = "s\<lparr>users_heap := (users_heap s)(p := x)\<rparr>"
  have act: "active ?s = active s" by (simp add: active_def)
  have ne: "q \<noteq> p" if "q \<in> set (active s)" for q using that assms by blast
  show sess: "sessions ?s = sessions s"
    unfolding sessions_def act by (rule map_cong) (use ne in \<open>simp_all add: name_of_def\<close>)
  show "users_inv ?s = users_inv s"
    using ne by (auto simp: users_inv_def sess act list_all_iff)
qed

lemma heap_rename:
  assumes "users_heap s p = Some u" "us_username u' = us_username u" "us_loggedIn u' = us_loggedIn u"
  shows "users_inv (s\<lparr>users_heap := (users_heap s)(p \<mapsto> u')\<rparr>) = users_inv s"
    "sessions (s\<lparr>users_heap := (users_heap s)(p \<mapsto> u')\<rparr>) = sessions s"
proof -
  let ?s = "s\<lparr>users_heap := (users_heap s)(p \<mapsto> u')\<rparr>"
  have act: "active ?s = active s" by (simp add: active_def)
  show sess: "sessions ?s = sessions s"
    unfolding sessions_def act by (rule map_cong) (use assms in \<open>simp_all add: name_of_def\<close>)
  have "session_ok (users_heap ?s q) = session_ok (users_heap s q)" for q
    using assms by (simp add: session_ok_def)
  then show "users_inv ?s = users_inv s" by (simp add: users_inv_def sess act)
qed

lemma heap_other [simp]:
  "challenges_inv (s\<lparr>users_heap := h\<rparr>) = challenges_inv s" "queue (s\<lparr>users_heap := h\<rparr>) = queue s"
  "tables_inv (s\<lparr>users_heap := h\<rparr>) = tables_inv s" "tables_room (s\<lparr>users_heap := h\<rparr>) = tables_room s"
  "active (s\<lparr>users_heap := h\<rparr>) = active s"
proof -
  have "same_table fn s (s\<lparr>users_heap := h\<rparr>)" for fn by (simp add: same_table_def)
  note same_parts [OF this]
  then show "tables_inv (s\<lparr>users_heap := h\<rparr>) = tables_inv s" "tables_room (s\<lparr>users_heap := h\<rparr>) = tables_room s"
    by (simp_all add: tables_inv_def tables_room_def)
qed (simp_all add: challenges_inv_def queue_def pending_def active_def)

lemma not_logged_in_inactive:
  "users_inv s \<Longrightarrow> users_heap s p = Some u \<Longrightarrow> us_loggedIn u = 0 \<Longrightarrow> p \<notin> set (active s)"
  using session_live by fastforce

section \<open>Login\<close>

lemma login_user_room:
  assumes inv: "users_inv s" and u: "users_heap s p = Some u" "us_loggedIn u = 0" "length (us_username u) = 100"
    and nm: "no_nul name" "length name < 100" "name \<notin> fst ` set (sessions s)"
    and room: "activeUsers s < MAX_USERS"
  shows "\<exists>s'. login_user p name pr s = Some (SUCCESS, ''Login successful'', s') \<and> users_inv s'
    \<and> sessions s' = sessions s @ [(name, p)] \<and> same_table fn s s' \<and> (challenges_inv s' \<longleftrightarrow> challenges_inv s)
    \<and> queue s' = queue s
    \<and> (\<exists>m. users_heap s' = (users_heap s)(p \<mapsto> u\<lparr>us_loggedIn := 1, us_username := m, us_privilege := pr\<rparr>)
         \<and> terminated 100 m)"
proof -
  obtain m where m: "strcpy (us_username u) name = Some m" using strcpy_fits nm(2) u(3) by metis
  then have t: "terminated 100 m" "c_str m = name"
    using strcpy_terminated [OF m] strcpy_c_str [OF m nm(1), of "[]"] u(3) by simp_all
  define u' where "u' = u\<lparr>us_loggedIn := 1, us_username := m, us_privilege := pr\<rparr>"
  define s1 where "s1 = s\<lparr>users_heap := (users_heap s)(p \<mapsto> u')\<rparr>"
  define s' where "s' = s1\<lparr>activeUserList := (activeUserList s1)[activeUsers s1 := Some p],
    activeUsers := activeUsers s1 + 1\<rparr>"
  have out: "p \<notin> set (active s)" by (rule not_logged_in_inactive [OF inv u(1,2)])
  have s1: "users_inv s1" "sessions s1 = sessions s" "active s1 = active s"
    using heap_inactive [OF out] inv by (simp_all add: s1_def)
  have add: "addActiveUser p s1 = (0, s')" using room by (simp add: addActiveUser_def s'_def s1_def)
  have login: "login_user p name pr s = Some (SUCCESS, ''Login successful'', s')"
    using u(1) m add by (simp add: login_user_def update_user_def u'_def s1_def)
  have slots: "slots_ok MAX_USERS (activeUsers s') (activeUserList s')" "active s' = active s @ [p]"
    using slot_add_items [OF users_invD(1) [OF s1(1)], of p] room s1(3)
    by (simp_all add: s'_def s1_def active_def)
  have heap: "users_heap s' = (users_heap s)(p \<mapsto> u')" by (simp add: s'_def s1_def)
  have sess: "sessions s' = sessions s @ [(name, p)]"
    using s1(2,3) t(2) slots(2) by (simp add: sessions_def s'_def s1_def name_of_def u'_def)
  have "list_all (\<lambda>q. session_ok (users_heap s' q)) (active s')"
    using s1(1,3) slots(2) t(1) heap
    by (simp add: users_inv_def s'_def s1_def u'_def session_ok_def)
  then have "users_inv s'" using slots(1) sess users_invD(3) [OF inv] nm(3) by (simp add: users_inv_def)
  moreover have "same_table fn s s'" "challenges_inv s' = challenges_inv s" "queue s' = queue s"
    by (simp_all add: same_table_def challenges_inv_def queue_def pending_def s'_def s1_def)
  ultimately show ?thesis using login sess heap t(1) by (auto simp: u'_def)
qed

lemma login_user_full:
  assumes inv: "users_inv s" and u: "users_heap s p = Some u" "us_loggedIn u = 0" "length (us_username u) = 100"
    and nm: "length name < 100" and full: "activeUsers s = MAX_USERS"
  shows "login_user p name pr s = Some (FAILURE, ''Server full. Try again later.'',
      s\<lparr>users_heap := (users_heap s)(p \<mapsto> zeroed_user)\<rparr>)"
    "users_inv (s\<lparr>users_heap := (users_heap s)(p \<mapsto> zeroed_user)\<rparr>)"
    "sessions (s\<lparr>users_heap := (users_heap s)(p \<mapsto> zeroed_user)\<rparr>) = sessions s"
proof -
  obtain m where m: "strcpy (us_username u) name = Some m" using strcpy_fits nm u(3) by metis
  then show "login_user p name pr s = Some (FAILURE, ''Server full. Try again later.'',
      s\<lparr>users_heap := (users_heap s)(p \<mapsto> zeroed_user)\<rparr>)"
    using u(1) full by (simp add: login_user_def update_user_def addActiveUser_def)
  have out: "p \<notin> set (active s)" by (rule not_logged_in_inactive [OF inv u(1,2)])
  show "users_inv (s\<lparr>users_heap := (users_heap s)(p \<mapsto> zeroed_user)\<rparr>)"
    "sessions (s\<lparr>users_heap := (users_heap s)(p \<mapsto> zeroed_user)\<rparr>) = sessions s"
    using heap_inactive [OF out, of "Some zeroed_user"] inv by simp_all
qed

lemma heap_inv_update: "heap_inv s \<Longrightarrow> user_ok u \<Longrightarrow> users_heap s' = (users_heap s)(p \<mapsto> u) \<Longrightarrow> heap_inv s'"
  by (auto simp: heap_inv_def)

lemma heap_invD: "heap_inv s \<Longrightarrow> users_heap s p = Some u \<Longrightarrow> length (us_username u) = 100 \<and> int_range (us_privilege u)"
  by (auto simp: heap_inv_def user_ok_def)

lemma sendJson_total: "wf_json j \<Longrightarrow> \<exists>s'. sendJson k j s = Some s'"
  using print_value_total [OF wf_double, of j] by (auto simp: sendJson_def cJSON_PrintUnformatted_def)

lemmas json_build = status_json_def message_json_def login_json_def cJSON_AddNumberToObject_def cJSON_AddStringToObject_def
  cJSON_AddItemToObject_def cJSON_CreateObject_def cJSON_CreateNumber_def

lemma wf_status: "int_range st \<Longrightarrow> wf_json (status_json st)"
  by (auto simp: json_build no_nul_def)

lemma wf_replies:
  "int_range st \<Longrightarrow> no_nul msg \<Longrightarrow> wf_json (message_json st msg)"
  "int_range st \<Longrightarrow> int_range lvl \<Longrightarrow> no_nul msg \<Longrightarrow> wf_json (login_json st lvl msg)"
  by (auto simp: json_build no_nul_def)

lemma user_privilege_range: "tables_inv s \<Longrightarrow> getUserRecord nm s = Some r \<Longrightarrow> int_range (ur_privilege r)"
  using users.get_Some_iff [of s nm r] user_file.okD(3) [of s r]
  by (auto simp: tables_inv_def users_part_def users_defs wf_UserRecord_def)

definition login_granted :: "bytes \<Rightarrow> bytes \<Rightarrow> nat \<Rightarrow> server \<Rightarrow> bool" where
  "login_granted name pass p s \<longleftrightarrow> (case users_heap s p of None \<Rightarrow> False | Some u \<Rightarrow> us_loggedIn u = 0)
     \<and> name \<notin> fst ` set (sessions s)
     \<and> (case getUserRecord name s of None \<Rightarrow> False | Some r \<Rightarrow> c_str (ur_password r) = pass)
     \<and> length (sessions s) < MAX_USERS"

lemma login_outcome_cases:
  assumes "system_inv s" "users_heap s p = Some u" "no_nul name" "length name < 100"
  shows "\<exists>st msg s1. login_outcome name pass p s = Some (st, msg, s1) \<and> system_inv s1 \<and> no_nul msg
    \<and> st = (if login_granted name pass p s then SUCCESS else FAILURE)
    \<and> sessions s1 = (if login_granted name pass p s then sessions s @ [(name, p)] else sessions s)
    \<and> queue s1 = queue s \<and> (\<forall>q. q \<noteq> p \<longrightarrow> users_heap s1 q = users_heap s q)
    \<and> (\<exists>u1. users_heap s1 p = Some u1 \<and> (login_granted name pass p s \<longrightarrow>
        (\<exists>r. getUserRecord name s = Some r \<and> us_privilege u1 = ur_privilege r)))"
proof -
  have inv: "users_inv s" "heap_inv s" "challenges_inv s" "tables_inv s" using assms(1) by (simp_all add: system_inv_def)
  have n: "length (sessions s) = activeUsers s" "activeUsers s \<le> MAX_USERS"
    using users_invD(4,5) [OF inv(1)] by (simp_all add: sessions_def)
  obtain i where i: "findActiveUserIndex name s = Some i" "i = -1 \<longleftrightarrow> name \<notin> fst ` set (sessions s)"
    using findActiveUserIndex_defined [OF inv(1), of name] findActiveUserIndex_missing [OF inv(1), of name] by auto
  show ?thesis
  proof (cases "us_loggedIn u = 0 \<and> name \<notin> fst ` set (sessions s)
      \<and> (case getUserRecord name s of None \<Rightarrow> False | Some r \<Rightarrow> c_str (ur_password r) = pass)")
    case False
    then have "\<not> login_granted name pass p s" using assms(2) by (auto simp: login_granted_def)
    moreover have "\<exists>msg. login_outcome name pass p s = Some (FAILURE, msg, s) \<and> no_nul msg"
      using False assms(2) i by (auto simp: login_outcome_def no_nul_def split: option.split)
    ultimately show ?thesis using assms by auto
  next
    case True
    then obtain r where r: "getUserRecord name s = Some r" "c_str (ur_password r) = pass"
      by (auto split: option.splits)
    have ul: "us_loggedIn u = 0" "length (us_username u) = 100" "name \<notin> fst ` set (sessions s)"
      using True heap_invD [OF inv(2) assms(2)] by simp_all
    have out: "login_outcome name pass p s = login_user p name (ur_privilege r) s"
      using r i ul assms(2) by (simp add: login_outcome_def)
    have range: "int_range (ur_privilege r)" by (rule user_privilege_range [OF inv(4) r(1)])
    show ?thesis
    proof (cases "activeUsers s < MAX_USERS")
      case room: True
      then have g: "login_granted name pass p s" using assms(2) r ul n by (simp add: login_granted_def)
      note room' = login_user_room [OF inv(1) assms(2) ul(1,2) assms(3,4) ul(3) room, of "ur_privilege r"]
      obtain s1 m where s1: "login_user p name (ur_privilege r) s = Some (SUCCESS, ''Login successful'', s1)"
        "users_inv s1" "sessions s1 = sessions s @ [(name, p)]" "challenges_inv s1" "queue s1 = queue s"
        "users_heap s1 = (users_heap s)(p \<mapsto> u\<lparr>us_loggedIn := 1, us_username := m, us_privilege := ur_privilege r\<rparr>)"
        "terminated 100 m"
        using room' [of undefined] inv(3) by blast
      have "same_table fn s s1" for fn using room' [of fn] s1(1) by auto
      then have "tables_inv s1" using inv(4) same_parts [of s s1] by (simp add: tables_inv_def)
      moreover have "heap_inv s1"
        by (rule heap_inv_update [OF inv(2) _ s1(6)]) (use s1(7) range in \<open>simp add: user_ok_def terminated_def\<close>)
      ultimately have "system_inv s1" using s1 by (simp add: system_inv_def)
      then show ?thesis using out s1 g r by (auto simp: no_nul_def)
    next
      case False
      then have full: "activeUsers s = MAX_USERS" using n by simp
      define s1 where "s1 = s\<lparr>users_heap := (users_heap s)(p \<mapsto> zeroed_user)\<rparr>"
      note f = login_user_full [OF inv(1) assms(2) ul(1,2) assms(4) full, folded s1_def]
      have "heap_inv s1"
        by (rule heap_inv_update [OF inv(2), of zeroed_user]) (simp_all add: s1_def zeroed_user_def user_ok_def int_range_def)
      then have "system_inv s1" using f inv by (simp add: system_inv_def s1_def)
      moreover have "\<not> login_granted name pass p s" using full n by (simp add: login_granted_def)
      moreover have "queue s1 = queue s" "users_heap s1 = (users_heap s)(p \<mapsto> zeroed_user)" by (simp_all add: s1_def)
      ultimately show ?thesis using out f by (auto simp: no_nul_def)
    qed
  qed
qed

section \<open>Signup\<close>

lemma strcpy_string:
  assumes "no_nul s" "length s < 100" "length dst = 100"
  shows "\<exists>m. strcpy dst s = Some m \<and> terminated 100 m \<and> c_str m = s"
proof -
  obtain m where m: "strcpy dst s = Some m" using strcpy_fits assms(2,3) by metis
  then show ?thesis
    using strcpy_terminated [OF m] strcpy_c_str [OF m assms(1), of "[]"] assms(3) by simp
qed

text \<open>The two rows that a successful signup adds.\<close>

lemma signup_user_new:
  assumes "tables_inv s" "tables_room s" "getUserRecord name s = None"
    and "no_nul name" "length name < 100" "no_nul pass" "length pass < 100"
  shows "\<exists>s' nm pw. signup_user name pass s = Some (SUCCESS, ''Signup successful'', s') \<and> tables_inv s'
    \<and> terminated 100 nm \<and> terminated 100 pw \<and> c_str nm = name \<and> c_str pw = pass
    \<and> getUserRecord name s' = Some \<lparr>ur_username = nm, ur_password = pw, ur_privilege = 0\<rparr>
    \<and> (\<forall>k. k \<noteq> name \<longrightarrow> getUserRecord k s' = getUserRecord k s)
    \<and> (getLeaderboardEntry name s = None \<longrightarrow> map_option le_elo (getLeaderboardEntry name s') = Some DEFAULT_ELO)
    \<and> (\<forall>k. k \<noteq> name \<or> getLeaderboardEntry name s \<noteq> None \<longrightarrow> getLeaderboardEntry k s' = getLeaderboardEntry k s)
    \<and> core s' = core s"
proof -
  obtain nm where nm: "strcpy (take 100 (malloc s 204)) name = Some nm" "terminated 100 nm" "c_str nm = name"
    using strcpy_string [OF assms(4,5), of "take 100 (malloc s 204)"] by auto
  obtain pw where pw: "strcpy (take 100 (drop 100 (malloc s 204))) pass = Some pw" "terminated 100 pw" "c_str pw = pass"
    using strcpy_string [OF assms(6,7), of "take 100 (drop 100 (malloc s 204))"] by auto
  define r where "r = \<lparr>ur_username = nm, ur_password = pw, ur_privilege = 0\<rparr>"
  have r: "wf_UserRecord r" "user_name r = name" using nm pw by (simp_all add: r_def wf_UserRecord_def user_name_def int_range_def)
  have u: "users_ok s" "distinct (map user_name (user_rows s))" "users_room s"
    using assms(1,2) by (simp_all add: tables_inv_def users_part_def tables_room_def)
  obtain ret s1 where a: "addUserRecord r s = (ret, s1)" by (metis surj_pair)
  note um = users.add_map [OF u(1) r(1) u(3,2) a]
  have ret: "ret = 0" using um(1) r(2) assms(3) by simp
  have t1: "tables_inv s1" "leaderboard_room s1"
    using addUserRecord_inv [OF assms(1) r(1) u(3)] a assms(2) by (simp_all add: tables_room_def)
  obtain en where en: "strcpy (take 100 (malloc s1 104)) name = Some en" "terminated 100 en" "c_str en = name"
    using strcpy_string [OF assms(4,5), of "take 100 (malloc s1 104)"] by auto
  define e where "e = \<lparr>le_username = en, le_elo = DEFAULT_ELO\<rparr>"
  have e: "wf_entry e" "entry_name e = name"
    using en by (simp_all add: e_def wf_entry_def wf_LeaderboardEntry_def entry_name_def elo_sane_def DEFAULT_ELO_def int_range_def)
  obtain q s' where b: "addLeaderboardEntry e s1 = (q, s')" by (metis surj_pair)
  have l: "leaderboard_ok s1" "distinct (map entry_name (leaderboard_rows s1))"
    using t1(1) by (simp_all add: tables_inv_def board_part_def)
  note bm = leaderboard.add_map [OF l(1) e(1) t1(2) l(2) b]
  have k1: "keeps ((=) (db_path ''users.dat'')) s s1" using keeps_tables(1) [of "(=) (db_path ''users.dat'')" s r] a by simp
  have k2: "keeps ((=) (db_path ''leaderboard.dat'')) s1 s'" using keeps_leaderboard(1) [of "(=) (db_path ''leaderboard.dat'')" s1 e] b by simp
  have lb: "getLeaderboardEntry k s1 = getLeaderboardEntry k s" for k
    by (rule keeps_lookup(3) [OF k1]) simp
  have usr: "getUserRecord k s' = getUserRecord k s1" for k
    by (rule keeps_lookup(1) [OF k2]) simp
  have "signup_user name pass s = Some (SUCCESS, ''Signup successful'', s')"
    using nm(1) pw(1) en(1) a b ret by (simp add: signup_user_def r_def e_def)
  moreover have "tables_inv s'" using addLeaderboardEntry_inv [OF t1(1) e(1) t1(2)] b by simp
  moreover have "getUserRecord name s' = Some r" using um(2) ret r(2) usr by simp
  moreover have "\<forall>k. k \<noteq> name \<longrightarrow> getUserRecord k s' = getUserRecord k s" using um(3) r(2) usr by simp
  moreover have "getLeaderboardEntry name s = None \<longrightarrow> map_option le_elo (getLeaderboardEntry name s') = Some DEFAULT_ELO"
    using bm(1,2) e lb by (auto simp: e_def)
  moreover have "\<forall>k. k \<noteq> name \<or> getLeaderboardEntry name s \<noteq> None \<longrightarrow> getLeaderboardEntry k s' = getLeaderboardEntry k s"
  proof (intro allI impI)
    fix k
    assume k: "k \<noteq> name \<or> getLeaderboardEntry name s \<noteq> None"
    show "getLeaderboardEntry k s' = getLeaderboardEntry k s"
      using bm(1,2,3) e(2) lb k by (cases "k = name") auto
  qed
  moreover have "core s' = core s"
    using quiet_core [OF keeps_quiet [OF k1]] quiet_core [OF keeps_quiet [OF k2]] by simp
  ultimately show ?thesis unfolding r_def
    by (intro exI [of _ s'] exI [of _ nm] exI [of _ pw] conjI) (rule nm pw | assumption)+
qed

lemma core_system:
  assumes "core s' = core s" "tables_inv s'" "system_inv s"
  shows "system_inv s'" "users_heap s' = users_heap s" "sessions s' = sessions s" "queue s' = queue s"
  using core_inv [OF assms(1)] assms(2,3) by (simp_all add: system_inv_def heap_inv_def)

lemma signup_outcome_cases:
  assumes "system_inv s" "tables_room s" "users_heap s p = Some u"
    and "no_nul name" "length name < 100" "no_nul pass" "length pass < 100"
  shows "\<exists>st msg s1. signup_outcome name pass p s = Some (st, msg, s1) \<and> system_inv s1 \<and> core s1 = core s
    \<and> no_nul msg
    \<and> (if us_loggedIn u = 0 \<and> getUserRecord name s = None
       then st = SUCCESS
        \<and> (\<exists>r. getUserRecord name s1 = Some r \<and> c_str (ur_password r) = pass \<and> ur_privilege r = REGULAR_USER)
        \<and> (\<forall>k. k \<noteq> name \<longrightarrow> getUserRecord k s1 = getUserRecord k s)
        \<and> (getLeaderboardEntry name s = None \<longrightarrow> map_option le_elo (getLeaderboardEntry name s1) = Some DEFAULT_ELO)
        \<and> (\<forall>k. k \<noteq> name \<or> getLeaderboardEntry name s \<noteq> None \<longrightarrow> getLeaderboardEntry k s1 = getLeaderboardEntry k s)
       else st = FAILURE \<and> s1 = s)"
proof (cases "us_loggedIn u = 0 \<and> getUserRecord name s = None")
  case True
  have "tables_inv s" using assms(1) by (simp add: system_inv_def)
  from signup_user_new [OF this assms(2) conjunct2 [OF True] assms(4-7)]
  obtain s' nm pw where s': "signup_user name pass s = Some (SUCCESS, ''Signup successful'', s')" "tables_inv s'"
    "c_str pw = pass" "getUserRecord name s' = Some \<lparr>ur_username = nm, ur_password = pw, ur_privilege = 0\<rparr>"
    "\<forall>k. k \<noteq> name \<longrightarrow> getUserRecord k s' = getUserRecord k s"
    "getLeaderboardEntry name s = None \<longrightarrow> map_option le_elo (getLeaderboardEntry name s') = Some DEFAULT_ELO"
    "\<forall>k. k \<noteq> name \<or> getLeaderboardEntry name s \<noteq> None \<longrightarrow> getLeaderboardEntry k s' = getLeaderboardEntry k s"
    "core s' = core s" by (elim exE conjE) (rule that)
  moreover have "signup_outcome name pass p s = Some (SUCCESS, ''Signup successful'', s')"
    using assms(3) True s'(1) by (simp add: signup_outcome_def)
  ultimately show ?thesis using True core_system(1) [OF s'(8,2) assms(1)] by (auto simp: no_nul_def)
next
  case False
  then have "\<exists>msg. signup_outcome name pass p s = Some (FAILURE, msg, s) \<and> no_nul msg"
    using assms(3) by (auto simp: signup_outcome_def no_nul_def)
  then show ?thesis using False assms(1) by auto
qed

end
