(* ===== verification/Memory.thy ===== *)
theory Memory
  imports Sessions
begin

text \<open>
  What a request does to the shared memory: the arrays and the heap of \<open>User\<close>s. Nothing here depends on the
  content of the files, so it holds whatever the database calls of other threads have done to them. A request
  other than a login registers nobody: \<open>mem_good c s (f, c', s')\<close> says that it keeps the invariants of the
  memory, touches no other connection's \<open>User\<close>, frees the own one exactly when it leaves, and only takes sessions away.
\<close>

section \<open>The memory and what a request owes to it\<close>

definition mem_inv :: "server \<Rightarrow> bool" where
  "mem_inv s \<longleftrightarrow> users_inv s \<and> challenges_inv s \<and> heap_inv s"

definition mem_ready :: "conn \<Rightarrow> server \<Rightarrow> bool" where
  "mem_ready c s \<longleftrightarrow> mem_inv s \<and> conn_ok c \<and> users_heap s (c_user c) \<noteq> None"

definition mem_good :: "conn \<Rightarrow> server \<Rightarrow> flow \<times> conn \<times> server \<Rightarrow> bool" where
  "mem_good c s = (\<lambda>(f, c', s'). mem_inv s' \<and> conn_ok c' \<and> c_user c' = c_user c \<and> c_socket c' = c_socket c
     \<and> (\<forall>q. q \<noteq> c_user c \<longrightarrow> users_heap s' q = users_heap s q)
     \<and> (if f = Leave then users_heap s' (c_user c) = None else users_heap s' (c_user c) \<noteq> None)
     \<and> set (sessions s') \<subseteq> set (sessions s))"

lemma system_mem: "system_inv s \<longleftrightarrow> mem_inv s \<and> tables_inv s"
  by (auto simp: system_inv_def mem_inv_def)

lemma core_mem: "core s' = core s \<Longrightarrow> mem_inv s' = mem_inv s \<and> users_heap s' = users_heap s \<and> sessions s' = sessions s
    \<and> active s' = active s"
  using core_inv [of s' s] by (auto simp: mem_inv_def heap_inv_def active_def core_def)

section \<open>What the calls of a request keep\<close>

lemma string_of_buffer:
  assumes "strcpy dst x = Some m" "length dst = 100"
  shows "no_nul (c_str m)" "length (c_str m) < 100" "length m = 100"
  using strcpy_terminated [OF assms(1)] assms(2) length_c_str_terminated [of 100 m] by (simp_all add: terminated_def)

lemma submit_buffer_length:
  assumes "submitProblem env k buffer src s = Some (r, b, s')"
  shows "length b = length buffer"
  using assms by (auto simp: submitProblem_def Let_def case_prod_beta split: if_splits bind_splits wait_status.splits
      dest: strcpy_length)

text \<open>After the removal of its name a \<open>User\<close> is not registered.\<close>

lemma removal_inactive:
  assumes "users_inv s" "users_heap s p = Some u" "removeActiveUser (user_string u) s = Some (r, s')"
  shows "users_inv s'" "p \<notin> set (active s')" "users_heap s' = users_heap s" "queue s' = queue s"
    "challenges_inv s' = challenges_inv s" "same_table fn s s'"
proof -
  show "users_inv s'" using active_users.rm_defined [OF assms(1), of "user_string u"] assms(3) by auto
  show heap: "users_heap s' = users_heap s" and "queue s' = queue s" "challenges_inv s' = challenges_inv s"
    using removeActiveUser_queue [OF assms(3)] by simp_all
  have sess: "set (sessions s') = {x \<in> set (sessions s). fst x \<noteq> user_string u}"
    using active_users.rm_unique [OF assms(1) _ users_invD(3) [OF assms(1)] assms(3), of "user_string u"] by simp
  show "p \<notin> set (active s')"
  proof
    assume "p \<in> set (active s')"
    then have "(name_of s' p, p) \<in> set (sessions s')" by (auto simp: sessions_def)
    moreover have "name_of s' p = user_string u" using heap assms(2) by (simp add: name_of_def user_string_def)
    ultimately show False using sess by auto
  qed
  show "same_table fn s s'"
    using assms(3) by (auto simp: removeActiveUser_def same_table_def split: bind_splits option.splits)
qed

lemma removeDuelRequest_frame:
  assumes "removeDuelRequest nm s = (r, s')" "challenges_inv s"
  shows "challenges_inv s'" "users_inv s' = users_inv s" "users_heap s' = users_heap s" "same_table fn s s'"
    "sessions s' = sessions s" "active s' = active s"
proof -
  show "challenges_inv s'" using challenges.rm_defined [OF assms(2), of nm] assms(1) by auto
  have "s' = s \<or> (\<exists>i. s' = drop_challenge i s)"
    using assms(1) by (auto simp: removeDuelRequest_def split: option.splits)
  then show "users_inv s' = users_inv s" "users_heap s' = users_heap s" "same_table fn s s'"
    "sessions s' = sessions s" "active s' = active s"
    by (auto simp: same_table_def) (simp_all add: drop_challenge_def active_def)
qed

lemma quiet_fold: "(\<And>x s. quiet P s (g x s)) \<Longrightarrow> quiet P s (fold g xs s)"
  by (induction xs arbitrary: s) (auto intro: quiet_trans)

lemma silent_install: "silent s (install_problem k s)"
  unfolding install_problem_def by (intro quiet_fold keeps_quiet frames) simp_all

lemma silent_delete_files: "silent s (fold (\<lambda>f t. snd (deleteFile (problem_path k f) t)) fs s)"
  unfolding deleteFile_def by (intro quiet_fold keeps_quiet frames) simp

lemma processDuelRequest_frame:
  assumes "processDuelRequest a b s = Some (r, s')" "challenges_inv s"
  shows "challenges_inv s'" "users_inv s' = users_inv s" "users_heap s' = users_heap s" "same_table fn s s'"
    "sessions s' = sessions s" "active s' = active s"
proof -
  have "(\<exists>i < length (pending s). s' = drop_challenge i s) \<or> s' = s
      \<or> (activeChallenges s < MAX_CHALLENGES \<and> (\<exists>ch. s' = s\<lparr>activeChallengesList := (activeChallengesList s)[activeChallenges s := Some ch],
           activeChallenges := activeChallenges s + 1\<rparr>))"
    using assms(1) pending_find [OF assms(2), of "challenge_between b a"]
    by (auto simp: processDuelRequest_def Let_def dest: find_index_Some split: option.splits if_splits bind_splits)
  then consider (drop) i where "i < length (pending s)" "s' = drop_challenge i s" | (same) "s' = s"
    | (add) ch where "activeChallenges s < MAX_CHALLENGES" "s' = s\<lparr>activeChallengesList := (activeChallengesList s)[activeChallenges s := Some ch],
           activeChallenges := activeChallenges s + 1\<rparr>" by blast
  then have "challenges_inv s' \<and> users_inv s' = users_inv s \<and> users_heap s' = users_heap s \<and> same_table fn s s'
      \<and> sessions s' = sessions s \<and> active s' = active s"
  proof cases
    case drop
    then show ?thesis using drop_challenge_pending(1) [OF assms(2)] by (simp add: same_table_def) (simp add: drop_challenge_def active_def)
  next
    case add
    then show ?thesis using slot_add_items(1) [OF assms(2) [unfolded challenges_inv_def]]
      by (simp add: challenges_inv_def users_inv_def sessions_def active_def name_of_def same_table_def)
  qed (use assms(2) in \<open>simp add: same_table_def\<close>)
  then show "challenges_inv s'" "users_inv s' = users_inv s" "users_heap s' = users_heap s" "same_table fn s s'"
    "sessions s' = sessions s" "active s' = active s" by simp_all
qed

section \<open>Requests that leave the memory alone\<close>

definition stays :: "conn \<Rightarrow> server \<Rightarrow> flow \<times> conn \<times> server \<Rightarrow> bool" where
  "stays c s = (\<lambda>(f, c', s'). core s' = core s \<and> f = Again \<and> conn_ok c' \<and> c_user c' = c_user c \<and> c_socket c' = c_socket c)"

lemma stays_good: "mem_ready c s \<Longrightarrow> stays c s r \<Longrightarrow> mem_good c s r"
  by (cases r) (auto simp: stays_def mem_good_def mem_ready_def dest!: core_mem)

abbreviation (input) any :: "bytes \<Rightarrow> bool" where "any \<equiv> \<lambda>_. True"

lemma core_talk:
  "sendJson k j s = Some s' \<Longrightarrow> core s' = core s" "sendStatus k st s = Some s' \<Longrightarrow> core s' = core s"
  by (fact quiet_core [OF quiet_talk(2) [where P = any]] quiet_core [OF quiet_talk(3) [where P = any]])+

lemma core_receive: "receive_files k ps s = (r, s') \<Longrightarrow> core s' = core s" "server_receiveFile k p s = (r, s') \<Longrightarrow> core s' = core s"
  by (rule quiet_core [where P = any], erule quiet_receive_files quiet_receive, simp add: list_all_iff)+

lemma core_send: "core (send_files k ps s) = core s"
  by (rule quiet_core [OF quiet_send_files])

lemma core_database:
  "core (snd (addUserRecord u s)) = core s" "core (snd (addLeaderboardEntry e s)) = core s"
  "core (snd (addProblem p s)) = core s" "core (snd (updateProblem p s)) = core s" "core (snd (deleteProblem k s)) = core s"
  "core (put_file q x s) = core s"
  by (rule quiet_core [OF keeps_quiet], rule frames [of any], simp)+

lemma core_files: "core (install_problem k s) = core s"
  "core (fold (\<lambda>f t. snd (deleteFile (problem_path k f) t)) fs s) = core s"
  by (rule quiet_core [OF silent_install] quiet_core [OF silent_delete_files])+

lemma core_signup: "signup_outcome name pass p s = Some (st, msg, s') \<Longrightarrow> core s' = core s"
  using core_database(1) [of _ s] core_database(2)
  by (auto simp: signup_outcome_def signup_user_def case_prod_beta split: if_splits bind_splits)

lemma core_update_row: "update_problem_row k t d v s = Some (st, s') \<Longrightarrow> core s' = core s"
  by (auto simp: update_problem_row_def case_prod_beta Let_def core_database(6) split: option.splits if_splits bind_splits)

lemma core_submit: "submitProblem env k b src s = Some (r, b', s') \<Longrightarrow> core s' = core s"
  by (rule quiet_core [OF keeps_quiet [OF keeps_submitProblem]])

lemma stays_signup:
  assumes "conn_ok c" "handle_signup json c s = Some r"
  shows "stays c s r"
proof -
  obtain un pw st msg s1 s2 where h: "strcpy (c_username c) (json_get_string json ''username'') = Some un"
    "strcpy (c_password c) (json_get_string json ''password'') = Some pw"
    "signup_outcome (c_str un) (c_str pw) (c_user c) s = Some (st, msg, s1)"
    "sendJson (c_socket c) (message_json st msg) s1 = Some s2"
    "r = (Again, c\<lparr>c_username := un, c_password := pw\<rparr>, s2)"
    using assms(2) by (auto simp: handle_signup_def split: bind_splits)
  have "length un = 100" "length pw = 100"
    using string_of_buffer(3) [OF h(1)] string_of_buffer(3) [OF h(2)] assms(1) by (simp_all add: conn_ok_def)
  then show ?thesis using core_signup [OF h(3)] core_talk(1) [OF h(4)] assms(1) by (simp add: stays_def conn_ok_def h(5))
qed

lemma stays_submit:
  assumes "conn_ok c" "handle_submit env json c s = Some r"
  shows "stays c s r"
proof -
  let ?k = "json_get_int json ''id''"
  obtain u s1 where u: "users_heap s (c_user c) = Some u" and s1: "sendStatus (c_socket c) SUCCESS s = Some s1"
    using assms(2) by (auto simp: handle_submit_def Let_def split: bind_splits)
  define x where "x = ''./tempSolutions/'' @ show_int ?k @ ''_'' @ user_string u @ ''_solution.c''"
  obtain q s2 where rf: "server_receiveFile (c_socket c) x s1 = (q, s2)" by (metis surj_pair)
  have c2: "core s1 = core s" "core s2 = core s" using core_talk(2) [OF s1] core_receive(2) [OF rf] by simp_all
  show ?thesis
  proof (cases "getProblem ?k s = None \<or> q < 0")
    case True
    then have "r = (Again, c, s1) \<or> r = (Again, c, s2)"
      using assms(2) u s1 rf by (auto simp: handle_submit_def Let_def x_def split: if_splits)
    then show ?thesis using c2 assms(1) by (auto simp: stays_def)
  next
    case False
    then obtain res result s3 msg s4 where h: "submitProblem env ?k (c_result c) x s2 = Some (res, result, s3)"
      "sendJson (c_socket c) (message_json (if res < 0 then FAILURE else SUCCESS) msg) s3 = Some s4"
      "r = (Again, c\<lparr>c_result := result\<rparr>, s4)"
      using assms(2) u s1 rf by (auto simp: handle_submit_def Let_def x_def split: bind_splits)
    then show ?thesis using c2 core_submit [OF h(1)] core_talk(1) [OF h(2)] submit_buffer_length [OF h(1)] assms(1)
      by (simp add: stays_def conn_ok_def)
  qed
qed

lemma stays_add_problem:
  assumes "conn_ok c" "handle_add_problem json c s = Some r"
  shows "stays c s r"
proof -
  let ?k = "json_get_int json ''id''"
  obtain p st s2 where h: "sendStatus (c_socket c) st (snd (addProblem p s)) = Some s2"
    "r = (if st = FAILURE then (Again, c, s2)
      else let (q, s3) = receive_files (c_socket c) (map (temp_problem_path ?k) problem_files) s2
        in if q < 0 then (Again, c, snd (deleteProblem ?k s3))
           else (Again, c, snd (updateProblem (p\<lparr>pr_visibility := PROBLEM_VISIBLE\<rparr>) (install_problem ?k s3))))"
    using assms(2) by (auto simp: handle_add_problem_def case_prod_beta Let_def split: bind_splits if_splits)
  obtain q s3 where rf: "receive_files (c_socket c) (map (temp_problem_path ?k) problem_files) s2 = (q, s3)" by (metis surj_pair)
  have "core s2 = core s" "core s3 = core s"
    using core_talk(2) [OF h(1)] core_receive(1) [OF rf] core_database(3) by simp_all
  then show ?thesis using assms(1) h(2) rf by (simp add: stays_def core_database core_files)
qed

lemma stays_update_problem:
  assumes "conn_ok c" "handle_update_problem json c s = Some r"
  shows "stays c s r"
proof -
  let ?k = "json_get_int json ''id''"
  obtain st s1 s2 where u: "update_problem_row ?k (json_get_string json ''title'') (json_get_int json ''difficulty'')
      (json_get_int json ''visibility'') s = Some (st, s1)" "sendStatus (c_socket c) st s1 = Some s2"
    using assms(2) by (auto simp: handle_update_problem_def Let_def split: bind_splits)
  define fs where "fs = filter (\<lambda>(flag, f). json_get_int json flag \<noteq> 0)
    (zip [''changeStatement'', ''changeInput'', ''changeOutput''] problem_files)"
  obtain q s3 where rf: "receive_files (c_socket c) (map (temp_problem_path ?k \<circ> snd) fs) s2 = (q, s3)" by (metis surj_pair)
  have "r = (Again, c, if st = FAILURE then s2 else if q < 0 then s3 else install_problem ?k s3)"
    using assms(2) u rf by (simp add: handle_update_problem_def Let_def fs_def split: if_splits)
  moreover have "core s2 = core s" "core s3 = core s"
    using core_update_row [OF u(1)] core_talk(2) [OF u(2)] core_receive(1) [OF rf] by simp_all
  ultimately show ?thesis using assms(1) by (simp add: stays_def core_files)
qed

lemma stays_others:
  assumes "conn_ok c"
  shows "show_problem fs json c s = Some r \<Longrightarrow> stays c s r" "handle_delete_problem json c s = Some r \<Longrightarrow> stays c s r"
    "handle_view_all json c s = Some r \<Longrightarrow> stays c s r" "handle_leaderboard json c s = Some r \<Longrightarrow> stays c s r"
    "handle_specific_elo json c s = Some r \<Longrightarrow> stays c s r"
proof -
  show "stays c s r" if h: "handle_delete_problem json c s = Some r"
  proof -
    obtain st s2 where "sendStatus (c_socket c) st (snd (deleteProblem (json_get_int json ''id'') s)) = Some s2"
      "r = (Again, c, if st = FAILURE then s2
        else fold (\<lambda>f t. snd (deleteFile (problem_path (json_get_int json ''id'') f) t)) problem_files s2)"
      using h by (auto simp: handle_delete_problem_def case_prod_beta Let_def split: bind_splits)
    then show ?thesis using assms core_talk(2) core_database(5) by (simp add: stays_def core_files)
  qed
qed (use assms core_talk(1) in \<open>auto simp: show_problem_def handle_view_all_def handle_leaderboard_def handle_specific_elo_def
    Let_def stays_def core_send split: bind_splits\<close>)

section \<open>Leaving\<close>

lemma same_table_trans: "same_table fn s s1 \<Longrightarrow> same_table fn s1 s2 \<Longrightarrow> same_table fn s s2"
  by (simp add: same_table_def)

lemma same_table_silent: "silent s s' \<Longrightarrow> same_table fn s s'"
  by (erule quiet_same_table) simp

lemma free_user_mem:
  assumes "mem_inv s" "p \<notin> set (active s)"
  shows "mem_inv (free_user p s)" "sessions (free_user p s) = sessions s" "same_table fn s (free_user p s)"
  using assms heap_inactive [OF assms(2), of None]
  by (auto simp: free_user_def mem_inv_def heap_inv_def same_table_def)

text \<open>The own session, whatever it is called, is gone, and no other has come.\<close>

lemma removal_sessions:
  assumes "users_inv s" "removeActiveUser nm s = Some (r, s')"
  shows "set (sessions s') \<subseteq> set (sessions s)"
  using active_users.rm_unique [OF assms(1) _ users_invD(3) [OF assms(1)] assms(2), of nm] by auto

lemma mem_disconnect:
  assumes "mem_ready c s" "handle_disconnect c s = Some r"
  shows "mem_good c s r" "same_table fn s (snd (snd r))"
proof -
  have pre: "users_inv s" "challenges_inv s" "heap_inv s" "conn_ok c"
    using assms(1) by (simp_all add: mem_ready_def mem_inv_def)
  obtain u q s1 where h: "users_heap s (c_user c) = Some u" "removeActiveUser (user_string u) s = Some (q, s1)"
    "r = (Leave, c, free_user (c_user c) s1)"
    using assms(2) by (auto simp: handle_disconnect_def split: bind_splits)
  note rm = removal_inactive [OF pre(1) h(1,2)]
  have "mem_inv s1" using rm(1,3,5) pre by (simp add: mem_inv_def heap_inv_def)
  note f = free_user_mem [OF this rm(2)]
  show "mem_good c s r" using f(1,2) pre(4) rm(3) h(3) removal_sessions [OF pre(1) h(2)] by (simp add: mem_good_def) (simp add: free_user_def)
  show "same_table fn s (snd (snd r))" using same_table_trans [OF rm(6) f(3)] h(3) by simp
qed

lemma mem_logout:
  assumes "mem_ready c s" "handle_logout c s = Some r"
  shows "mem_good c s r" "same_table fn s (snd (snd r))"
proof -
  have pre: "users_inv s" "challenges_inv s" "heap_inv s" "conn_ok c"
    using assms(1) by (simp_all add: mem_ready_def mem_inv_def)
  obtain u where u: "users_heap s (c_user c) = Some u" using assms(1) by (auto simp: mem_ready_def)
  have "mem_good c s r \<and> same_table fn s (snd (snd r))"
  proof (cases "us_loggedIn u = 0")
    case True
    then obtain s1 where s1: "sendJson (c_socket c) (message_json FAILURE ''User not logged in'') s = Some s1" "r = (Again, c, s1)"
      using assms(2) u by (auto simp: handle_logout_def split: bind_splits)
    then have "stays c s r" using core_talk(1) [OF s1(1)] pre(4) by (simp add: stays_def)
    then show ?thesis using stays_good [OF assms(1)] same_table_silent [OF quiet_talk(2) [OF s1(1)]] s1(2) by simp
  next
    case False
    obtain q1 s1 where d: "removeDuelRequest (user_string u) s = (q1, s1)" by (metis surj_pair)
    note df = removeDuelRequest_frame [OF d pre(2)]
    let ?off = "\<lambda>u. u\<lparr>us_loggedIn := 0\<rparr>"
    obtain q2 s2 s3 s4 where h: "removeActiveUser (user_string u) s1 = Some (q2, s2)"
      "update_user (c_user c) ?off s2 = Some s3"
      "sendJson (c_socket c) (message_json SUCCESS ''Logout successful'') s3 = Some s4"
      "r = (Leave, c, free_user (c_user c) s4)"
      using assms(2) u d False by (auto simp: handle_logout_def split: bind_splits)
    have i1: "users_inv s1" "users_heap s1 (c_user c) = Some u" using df(2,3) pre(1) u by simp_all
    note rm = removal_inactive [OF i1 h(1)]
    have s3: "s3 = s2\<lparr>users_heap := (users_heap s2)(c_user c \<mapsto> ?off u)\<rparr>"
      using h(2) rm(3) df(3) u by (simp add: update_user_def)
    have "heap_inv s3"
      using pre(3) heap_invD [OF pre(3) u] rm(3) df(3)
      by (intro heap_inv_update [OF pre(3), of "?off u"]) (simp_all add: s3 user_ok_def)
    then have m3: "mem_inv s3" "sessions s3 = sessions s2"
      using heap_inactive [OF rm(2)] rm(1,5) df(1) by (simp_all add: mem_inv_def s3)
    note c4 = core_mem [OF core_talk(1) [OF h(3)]]
    have "c_user c \<notin> set (active s3)" using rm(2) by (simp add: s3)
    then have f: "mem_inv (free_user (c_user c) s4)" "sessions (free_user (c_user c) s4) = sessions s4"
      "same_table fn s4 (free_user (c_user c) s4)"
      using free_user_mem [of s4 "c_user c"] c4 m3(1) by simp_all
    have "set (sessions s4) \<subseteq> set (sessions s)" using c4 m3(2) removal_sessions [OF i1(1) h(1)] df(5) by simp
    then have "mem_good c s r" using f(1,2) pre(4) rm(3) df(3) h(4) c4 by (simp add: mem_good_def) (simp add: free_user_def s3)
    moreover have "same_table fn s2 s3" by (simp add: s3 same_table_def)
    moreover note same_table_silent [OF quiet_talk(2) [OF h(3)], of fn]
    ultimately show ?thesis using f(3) rm(6) df(4) h(4) by (simp add: same_table_def)
  qed
  then show "mem_good c s r" "same_table fn s (snd (snd r))" by simp_all
qed

section \<open>Challenges\<close>

lemma mem_own_user:
  assumes "mem_good c s (Again, c, s1)" "update_user (c_user c) f s1 = Some s2"
    "\<And>u. us_username (f u) = us_username u \<and> us_loggedIn (f u) = us_loggedIn u \<and> us_privilege (f u) = us_privilege u"
  shows "mem_good c s (Again, c, s2)" "same_table fn s1 s2"
proof -
  obtain u where u: "users_heap s1 (c_user c) = Some u" "s2 = s1\<lparr>users_heap := (users_heap s1)(c_user c \<mapsto> f u)\<rparr>"
    using assms(2) by (auto simp: update_user_def)
  have inv: "mem_inv s1" "heap_inv s1" using assms(1) by (simp_all add: mem_good_def mem_inv_def)
  have "user_ok (f u)" using heap_invD [OF inv(2) u(1)] assms(3) [of u] by (simp add: user_ok_def)
  from heap_inv_update [OF inv(2) this, of s2 "c_user c"] have "heap_inv s2" by (simp add: u(2))
  then have "mem_inv s2" "sessions s2 = sessions s1" using inv heap_rename [OF u(1), of "f u"] assms(3) u(2) by (simp_all add: mem_inv_def)
  then show "mem_good c s (Again, c, s2)" using assms(1) by (simp add: mem_good_def) (simp add: u(2))
  show "same_table fn s1 s2" by (simp add: u(2) same_table_def)
qed

lemma mem_then_core:
  assumes "mem_good c s (f, c1, s1)" "core s' = core s1"
  shows "mem_good c s (f, c1, s')"
  using assms core_mem [OF assms(2)] by (simp add: mem_good_def)

lemma mem_duel:
  assumes "mem_ready c s" "handle_duel json c s = Some r"
  shows "mem_good c s r" "same_table fn s (snd (snd r))"
proof -
  have pre: "mem_inv s" "challenges_inv s" "conn_ok c" using assms(1) by (simp_all add: mem_ready_def mem_inv_def)
  obtain u where u: "users_heap s (c_user c) = Some u" using assms(1) by (auto simp: mem_ready_def)
  obtain q s1 st s2 where h: "processDuelRequest (user_string u) (json_get_string json ''opponent'') s = Some (q, s1)"
    "sendStatus (c_socket c) st s1 = Some s2"
    "st = (if q = MATCH_FOUND then GO_TO_DUEL_MENU
       else if q = ADDED_TO_CHALLENGE_QUEUE then GO_TO_DUEL_WAITING_MENU else FAILURE)"
    using assms(2) u by (auto simp: handle_duel_def Let_def split: bind_splits)
  note fr = processDuelRequest_frame [OF h(1) pre(2)]
  have "mem_inv s1" using fr(1-3) pre(1) by (simp add: mem_inv_def heap_inv_def)
  then have "mem_good c s (Again, c, s1)" using fr(3,5) u pre(3) by (simp add: mem_good_def)
  from mem_then_core [OF this core_talk(2) [OF h(2)]] have g2: "mem_good c s (Again, c, s2)" .
  have t2: "same_table fn s s2" by (rule same_table_trans [OF fr(4) same_table_silent [OF quiet_talk(3) [OF h(2)]]])
  have "mem_good c s r \<and> same_table fn s (snd (snd r))"
  proof (cases "st = GO_TO_DUEL_MENU")
    case False
    then have "r = (Again, c, s2)" using assms(2) u h by (simp add: handle_duel_def Let_def)
    then show ?thesis using g2 t2 by simp
  next
    case True
    obtain k d s3 s4 where e: "update_user (c_user c) (\<lambda>u. u\<lparr>us_duelRequest := 1\<rparr>) s2 = Some s3"
      "sendStatus k GO_TO_DUEL_MENU s3 = Some s4" "r = (Again, c, s4\<lparr>duels := d\<rparr>)"
      using assms(2) u h True by (auto simp: handle_duel_def Let_def split: bind_splits)
    have g3: "mem_good c s (Again, c, s3)" "same_table fn s2 s3" by (rule mem_own_user [OF g2 e(1)], simp)+
    have "core (s4\<lparr>duels := d\<rparr>) = core s3" using core_talk(2) [OF e(2)] by (simp add: core_def)
    from mem_then_core [OF g3(1) this] show ?thesis
      using t2 g3(2) same_table_silent [OF quiet_talk(3) [OF e(2)], of fn] by (simp add: e(3) same_table_def)
  qed
  then show "mem_good c s r" "same_table fn s (snd (snd r))" by simp_all
qed

lemma mem_small:
  assumes "mem_ready c s"
  shows "handle_withdraw c s = Some r \<Longrightarrow> mem_good c s r \<and> same_table fn s (snd (snd r))"
    "handle_accepted c s = Some r \<Longrightarrow> mem_good c s r \<and> same_table fn s (snd (snd r))"
proof -
  have pre: "mem_inv s" "challenges_inv s" "conn_ok c" using assms by (simp_all add: mem_ready_def mem_inv_def)
  assume "handle_withdraw c s = Some r"
  then obtain u where u: "users_heap s (c_user c) = Some u" "r = (Again, c, snd (removeDuelRequest (user_string u) s))"
    by (auto simp: handle_withdraw_def split: bind_splits)
  obtain q s1 where d: "removeDuelRequest (user_string u) s = (q, s1)" by (metis surj_pair)
  note df = removeDuelRequest_frame [OF d pre(2)]
  have "mem_inv s1" using df(1-3) pre(1) by (simp add: mem_inv_def heap_inv_def)
  then show "mem_good c s r \<and> same_table fn s (snd (snd r))" using df(3,4,5) u d pre(3) by (simp add: mem_good_def)
next
  have "stays c s (Again, c, s)" using assms by (simp add: stays_def mem_ready_def)
  then have g: "mem_good c s (Again, c, s)" by (rule stays_good [OF assms])
  assume "handle_accepted c s = Some r"
  then obtain s1 where s1: "update_user (c_user c) (\<lambda>u. u\<lparr>us_duelRequest := 1\<rparr>) s = Some s1" "r = (Again, c, s1)"
    by (auto simp: handle_accepted_def split: bind_splits)
  have "mem_good c s (Again, c, s1) \<and> same_table fn s s1"
    by (rule conjI, (rule mem_own_user [OF g s1(1)], simp)+)
  then show "mem_good c s r \<and> same_table fn s (snd (snd r))" using s1(2) by simp
qed

section \<open>Every request but a login\<close>

lemma mem_dispatch:
  assumes "mem_ready c s" "json_get_int json ''op'' \<noteq> LOGIN_ATTEMPT" "dispatch env json c s = Some r"
  shows "mem_good c s r"
proof -
  have c: "conn_ok c" using assms(1) by (simp add: mem_ready_def)
  have "handle_signup json c s = Some r \<or> handle_logout c s = Some r
    \<or> handle_add_problem json c s = Some r \<or> handle_update_problem json c s = Some r
    \<or> (\<exists>fs. show_problem fs json c s = Some r) \<or> handle_delete_problem json c s = Some r
    \<or> handle_view_all json c s = Some r \<or> handle_submit env json c s = Some r
    \<or> handle_duel json c s = Some r \<or> handle_withdraw c s = Some r \<or> handle_accepted c s = Some r
    \<or> handle_leaderboard json c s = Some r \<or> handle_specific_elo json c s = Some r \<or> r = (Again, c, s)"
    using assms(2,3) unfolding dispatch_def Let_def handle_get_problem_def handle_view_problem_def
    by (simp split: if_split_asm) blast+
  moreover have "mem_good c s (Again, c, s)" by (rule stays_good [OF assms(1)]) (use c in \<open>simp add: stays_def\<close>)
  note noop = this
  note small = mem_small [OF assms(1), THEN conjunct1]
  note stay = stays_good [OF assms(1)]
  ultimately show ?thesis
    by (elim disjE exE)
      (rule mem_logout(1) [OF assms(1)] mem_duel(1) [OF assms(1)] small stay [OF stays_signup [OF c]] stay [OF stays_submit [OF c]]
        stay [OF stays_add_problem [OF c]] stay [OF stays_update_problem [OF c]] stay [OF stays_others(1) [OF c]]
        stay [OF stays_others(2) [OF c]] stay [OF stays_others(3) [OF c]] stay [OF stays_others(4) [OF c]]
        stay [OF stays_others(5) [OF c]], assumption | simp add: noop)+
qed

end
