(* ===== verification/Requests.thy ===== *)
theory Requests
  imports Memory
begin

text \<open>
  Every request keeps the invariants of the server. \<open>good c s (f, c', s')\<close> is what one round of a
  connection's loop owes to the others: the invariants hold afterwards, no other connection's \<open>User\<close>
  has changed, the own one is allocated unless the connection leaves, and then it is free and not
  registered. One lemma per operation, and one for the round.
\<close>

definition good :: "conn \<Rightarrow> server \<Rightarrow> flow \<times> conn \<times> server \<Rightarrow> bool" where
  "good c s = (\<lambda>(f, c', s'). system_inv s' \<and> conn_ok c' \<and> c_user c' = c_user c \<and> c_socket c' = c_socket c
     \<and> (\<forall>q. q \<noteq> c_user c \<longrightarrow> users_heap s' q = users_heap s q)
     \<and> (if f = Leave then users_heap s' (c_user c) = None else users_heap s' (c_user c) \<noteq> None))"

definition ready :: "conn \<Rightarrow> server \<Rightarrow> bool" where
  "ready c s \<longleftrightarrow> system_inv s \<and> conn_ok c \<and> users_heap s (c_user c) \<noteq> None"

lemma good_silent:
  assumes "ready c s" "silent s s'" "conn_ok c'" "c_user c' = c_user c" "c_socket c' = c_socket c" "f \<noteq> Leave"
  shows "good c s (f, c', s')"
  using assms silent_inv [OF assms(2)] by (simp add: good_def ready_def)

lemma good_core:
  assumes "ready c s" "core s' = core s" "tables_inv s'"
  shows "good c s (Again, c, s')"
  using assms core_system [OF assms(2,3)] by (simp add: good_def ready_def)

lemma good_then_silent:
  assumes "good c s (f, c1, s1)" "silent s1 s'" "conn_ok c'" "c_user c' = c_user c1" "c_socket c' = c_socket c1"
  shows "good c s (f, c', s')"
  using assms(1,3-5) silent_inv [OF assms(2)] by (simp add: good_def)

lemma good_login:
  assumes "ready c s" "handle_login json c s = Some r"
  shows "good c s r"
proof -
  have pre: "system_inv s" "conn_ok c" using assms(1) by (simp_all add: ready_def)
  obtain u where u: "users_heap s (c_user c) = Some u" using assms(1) by (auto simp: ready_def)
  obtain un pw st msg s1 u1 s2 where h: "strcpy (c_username c) (json_get_string json ''username'') = Some un"
    "strcpy (c_password c) (json_get_string json ''password'') = Some pw"
    "login_outcome (c_str un) (c_str pw) (c_user c) s = Some (st, msg, s1)"
    "sendJson (c_socket c) (login_json st (us_privilege u1) msg) s1 = Some s2"
    "r = (Again, c\<lparr>c_username := un, c_password := pw\<rparr>, s2)" "users_heap s1 (c_user c) = Some u1"
    using assms(2) by (auto simp: handle_login_def split: bind_splits)
  have lens: "length un = 100" "length pw = 100" "no_nul (c_str un)" "length (c_str un) < 100"
    using string_of_buffer [OF h(1)] string_of_buffer [OF h(2)] pre(2) by (simp_all add: conn_ok_def)
  have "system_inv s1 \<and> (\<forall>q. q \<noteq> c_user c \<longrightarrow> users_heap s1 q = users_heap s q)"
    using login_outcome_cases [OF pre(1) u lens(3,4), of "c_str pw"] h(3) by auto
  then have "good c s (Again, c, s1)" using h(6) pre(2) by (simp add: good_def)
  then show ?thesis
    unfolding h(5) by (rule good_then_silent [OF _ quiet_talk(2) [OF h(4)]])
      (use pre(2) lens in \<open>simp_all add: conn_ok_def\<close>)
qed

lemma good_signup:
  assumes "ready c s" "tables_room s" "handle_signup json c s = Some r"
  shows "good c s r"
proof -
  have pre: "system_inv s" "conn_ok c" using assms(1) by (simp_all add: ready_def)
  obtain u where u: "users_heap s (c_user c) = Some u" using assms(1) by (auto simp: ready_def)
  obtain un pw st msg s1 s2 where h: "strcpy (c_username c) (json_get_string json ''username'') = Some un"
    "strcpy (c_password c) (json_get_string json ''password'') = Some pw"
    "signup_outcome (c_str un) (c_str pw) (c_user c) s = Some (st, msg, s1)"
    "sendJson (c_socket c) (message_json st msg) s1 = Some s2"
    "r = (Again, c\<lparr>c_username := un, c_password := pw\<rparr>, s2)"
    using assms(3) by (auto simp: handle_signup_def split: bind_splits)
  have lens: "length un = 100" "length pw = 100" "no_nul (c_str un)" "length (c_str un) < 100"
    "no_nul (c_str pw)" "length (c_str pw) < 100"
    using string_of_buffer [OF h(1)] string_of_buffer [OF h(2)] pre(2) by (simp_all add: conn_ok_def)
  have "system_inv s1 \<and> core s1 = core s"
    using signup_outcome_cases [OF pre(1) assms(2) u lens(3-6)] h(3) by auto
  then have "good c s (Again, c, s1)" using good_core [OF assms(1)] by (simp add: system_inv_def)
  then show ?thesis
    unfolding h(5) by (rule good_then_silent [OF _ quiet_talk(2) [OF h(4)]])
      (use pre(2) lens in \<open>simp_all add: conn_ok_def\<close>)
qed

lemma same_table_inv: "(\<And>fn. same_table fn s s') \<Longrightarrow> tables_inv s' = tables_inv s"
  using same_parts(1) [of s s'] same_parts(2) [of s s'] same_parts(3) [of s s'] by (simp add: tables_inv_def)

lemma good_same:
  assumes "ready c s" "mem_good c s r" "\<And>fn. same_table fn s (snd (snd r))"
  shows "good c s r"
proof -
  obtain f c' s' where r: "r = (f, c', s')" by (metis prod_cases3)
  have "tables_inv s'" using assms(1) same_table_inv [of s s'] assms(3) by (simp add: r ready_def system_inv_def)
  then show ?thesis using assms(2) by (auto simp: r good_def mem_good_def system_mem)
qed

lemma ready_mem: "ready c s \<Longrightarrow> mem_ready c s"
  by (simp add: ready_def mem_ready_def system_mem)

lemma good_disconnect: "ready c s \<Longrightarrow> handle_disconnect c s = Some r \<Longrightarrow> good c s r"
  using good_same mem_disconnect ready_mem by metis

lemma good_logout: "ready c s \<Longrightarrow> handle_logout c s = Some r \<Longrightarrow> good c s r"
  using good_same mem_logout ready_mem by metis

section \<open>The other operations\<close>

lemma good_reply:
  assumes "ready c s" "sendJson (c_socket c) j s1 = Some s2" "silent s s1" "r = (Again, c, s2)"
  shows "good c s r"
  unfolding assms(4) using assms(1) quiet_trans [OF assms(3) quiet_talk(2) [OF assms(2)]]
  by (intro good_silent) (simp_all add: ready_def)

lemma good_show:
  assumes "ready c s" "show_problem fs json c s = Some r"
  shows "good c s r"
proof -
  obtain st rp s1 where h: "sendJson (c_socket c) rp s = Some s1"
    "r = (Again, c, if st = FAILURE then s1
      else send_files (c_socket c) (map (problem_path (json_get_int json ''id'')) fs) s1)"
    using assms(2) by (auto simp: show_problem_def Let_def split: bind_splits)
  note quiet_talk(2) [OF h(1)]
  moreover note quiet_trans [OF this quiet_send_files]
  ultimately show ?thesis unfolding h(2) using assms(1) by (intro good_silent) (auto simp: ready_def)
qed

lemma good_pages:
  assumes "ready c s"
  shows "handle_view_all json c s = Some r \<Longrightarrow> good c s r" "handle_leaderboard json c s = Some r \<Longrightarrow> good c s r"
    "handle_specific_elo json c s = Some r \<Longrightarrow> good c s r"
  using good_reply [OF assms _ quiet_refl]
  by (auto simp: handle_view_all_def handle_leaderboard_def handle_specific_elo_def split: bind_splits)

lemma core_problems:
  "core (snd (addProblem p s)) = core s" "core (snd (updateProblem p s)) = core s" "core (snd (deleteProblem k s)) = core s"
  by (rule quiet_core [OF keeps_quiet], rule keeps_tables [of "\<lambda>_. True"], simp)+

lemma good_delete_problem:
  assumes "ready c s" "handle_delete_problem json c s = Some r"
  shows "good c s r"
proof -
  define s1 where "s1 = snd (deleteProblem (json_get_int json ''id'') s)"
  have "tables_inv s1" using assms(1) problems_inv(3) [of s] by (simp add: s1_def ready_def system_inv_def)
  then have g: "good c s (Again, c, s1)" using assms(1) core_problems(3) by (intro good_core) (simp_all add: s1_def)
  obtain st s2 where h: "sendStatus (c_socket c) st s1 = Some s2"
    "r = (Again, c, if st = FAILURE then s2
      else fold (\<lambda>f t. snd (deleteFile (problem_path (json_get_int json ''id'') f) t)) problem_files s2)"
    using assms(2) by (auto simp: handle_delete_problem_def s1_def case_prod_beta Let_def split: bind_splits)
  note quiet_talk(3) [OF h(1)]
  moreover note quiet_trans [OF this silent_delete_files]
  ultimately show ?thesis unfolding h(2) using assms(1) by (intro good_then_silent [OF g]) (auto simp: ready_def)
qed

lemma range_valueint: "int_range (valueint d)"
proof (cases "of_int INT_MAX \<le> d \<or> d \<le> of_int INT_MIN")
  case True
  then show ?thesis by (auto simp: valueint_def int_range_def INT_MAX_def INT_MIN_def)
next
  case False
  then have d: "of_int INT_MIN < d" "d < of_int INT_MAX" by simp_all
  have f: "\<lfloor>d\<rfloor> \<le> INT_MAX" "INT_MIN \<le> \<lceil>d\<rceil>" "INT_MIN \<le> \<lfloor>d\<rfloor>" "\<lceil>d\<rceil> \<le> INT_MAX"
    using d by (simp_all add: floor_le_iff le_ceiling_iff le_floor_iff ceiling_le_iff)
  then show ?thesis using False
    by (auto simp: valueint_def c_trunc_def int_range_def INT_MAX_def INT_MIN_def)
qed

lemma json_int_range [simp]: "int_range (json_get_int json key)"
  using range_valueint
  by (auto simp: json_get_int_def split: option.split cJSON.split) (simp_all add: int_range_def)

lemma good_add_problem:
  assumes "ready c s" "tables_room s" "handle_add_problem json c s = Some r"
  shows "good c s r"
proof -
  let ?k = "json_get_int json ''id''"
  have pre: "tables_inv s" "problems_room s" "conn_ok c"
    using assms(1,2) by (simp_all add: ready_def system_inv_def tables_room_def)
  obtain t where t: "strcpy (take 100 (drop 4 (malloc s 112))) (json_get_string json ''title'') = Some t"
    using assms(3) by (auto simp: handle_add_problem_def Let_def split: bind_splits)
  define p where "p = \<lparr>pr_id = ?k, pr_title = t, pr_difficulty = json_get_int json ''difficulty'',
       pr_visibility = PROBLEM_HIDDEN\<rparr>"
  have wf: "wf_Problem p" "wf_Problem (p\<lparr>pr_visibility := PROBLEM_VISIBLE\<rparr>)"
    using strcpy_terminated [OF t] by (simp_all add: p_def wf_Problem_def int_range_def [of 0] int_range_def [of 1])
  define s1 where "s1 = snd (addProblem p s)"
  have "tables_inv s1" using problems_inv(1) [OF pre(1) wf(1) pre(2)] by (simp add: s1_def)
  then have g: "good c s (Again, c, s1)" using assms(1) core_problems(1) by (intro good_core) (simp_all add: s1_def)
  obtain st s2 where h: "sendStatus (c_socket c) st s1 = Some s2"
    "r = (if st = FAILURE then (Again, c, s2)
      else let (q, s3) = receive_files (c_socket c) (map (temp_problem_path ?k) problem_files) s2
        in if q < 0 then (Again, c, snd (deleteProblem ?k s3))
           else (Again, c, snd (updateProblem (p\<lparr>pr_visibility := PROBLEM_VISIBLE\<rparr>) (install_problem ?k s3))))"
    using assms(3) t by (auto simp: handle_add_problem_def s1_def p_def case_prod_beta Let_def split: bind_splits if_splits)
  have g2: "good c s (Again, c, s2)"
    by (rule good_then_silent [OF g quiet_talk(3) [OF h(1)]]) (use pre in simp_all)
  obtain q s3 where rf: "receive_files (c_socket c) (map (temp_problem_path ?k) problem_files) s2 = (q, s3)"
    by (metis surj_pair)
  have "silent s2 s3" by (rule quiet_receive_files [OF rf]) (simp add: problem_files_def)
  then have g3: "good c s (Again, c, s3)" "good c s (Again, c, install_problem ?k s3)"
    using good_then_silent [OF g2] quiet_trans [OF _ silent_install] pre(3) by blast+
  have more: "good c s (Again, c, s5)" if "good c s (Again, c, s4)" "core s5 = core s4" "tables_inv s5" for s4 s5
    using that core_system [OF that(2,3)] by (simp add: good_def)
  have "good c s (Again, c, snd (deleteProblem ?k s3))"
    using g3(1) problems_inv(3) [of s3] core_problems(3) by (intro more [OF g3(1)]) (auto simp: good_def system_inv_def)
  moreover have "good c s (Again, c, snd (updateProblem (p\<lparr>pr_visibility := PROBLEM_VISIBLE\<rparr>) (install_problem ?k s3)))"
    using g3(2) problems_inv(2) [OF _ wf(2), of "install_problem ?k s3"] core_problems(2) by (intro more [OF g3(2)]) (auto simp: good_def system_inv_def)
  ultimately show ?thesis using g2 h(2) rf by (simp split: if_splits)
qed

text \<open>The update under the explicit lock does what \<open>updateProblem\<close> would do.\<close>

lemma update_problem_row_eq:
  assumes "problems_ok s"
  shows "update_problem_row k title d v s = (case getProblem k s of None \<Rightarrow> Some (FAILURE, s)
    | Some p \<Rightarrow> map_option (\<lambda>t. (SUCCESS, snd (updateProblem (p\<lparr>pr_title := t, pr_difficulty := d, pr_visibility := v\<rparr>) s)))
        (strcpy (pr_title p) title))"
proof -
  let ?mf = "\<lambda>r. matchProblem r k" and ?sz = "112 :: nat"
  have ok: "table_ok ''problems.dat'' ?sz s" "setlkw_ok s" "setlk_ok s"
    using problem_file.okD(1,2) [of s] assms(1) by (simp_all add: problems_ok_def fcntl_ok_def)
  define rows where "rows = table_rows ''problems.dat'' ?sz s"
  obtain tl where f: "files s (db_path ''problems.dat'') = Some (db_image rows tl)" "db_fits ?sz rows"
    using table_okE [OF ok(1)] rows_def by metis
  define fd where "fd = \<lparr>fdata = db_image rows tl, fpos = 4\<rparr>"
  have rc: "readCount s (open_file (db_image rows tl)) = (int (length rows), fd)"
    using readCount_image [OF f(2), of s tl] by (simp add: fd_def)
  obtain found fd2 where sc: "scanRecords s ?sz ?mf (length rows) 0 fd = (found, fd2)" by (metis surj_pair)
  have found: "found = map_option (\<lambda>i. (int i, rows ! i)) (find_index (\<lambda>r. ?mf r = 1) rows)"
    and fd2: "fdata fd2 = db_image rows tl"
    using scanRecords_image [OF f(2), of fd tl 0 "length rows" s ?mf] sc by (simp_all add: fd_def)
  have get: "getProblem k s = map_option dec_Problem (map_option snd found)"
    using ok f(1) rc sc by (simp add: getProblem_def getRecord_def)
  show ?thesis
  proof (cases "find_index (\<lambda>r. ?mf r = 1) rows")
    case None
    then have "found = None" by (simp add: found)
    then show ?thesis
      using f(1) ok rc sc get by (simp add: update_problem_row_def lockRecord_def Let_def)
  next
    case (Some i)
    then have fo: "found = Some (int i, rows ! i)" by (simp add: found)
    have i: "i < length rows" "matchProblem (rows ! i) k = 1" using find_index_Some [OF Some] by simp_all
    then have id: "pr_id (dec_Problem (rows ! i)) = k" by (simp add: matchProblem_def dec_Problem_def split: if_splits)
    obtain rec fd3 where g: "getRecordUnlocked s fd2 ?sz (int i) = (rec, fd3)" by (metis surj_pair)
    have rec: "rec = rows ! i" "fdata fd3 = fdata fd2"
      using getRecordUnlocked_image [OF f(2) fd2 i(1), of s] g by simp_all
    define p where "p = dec_Problem (rows ! i)"
    have upd: "snd (updateProblem (p\<lparr>pr_title := t, pr_difficulty := d, pr_visibility := v\<rparr>) s)
      = put_file (db_path ''problems.dat'') (fdata (snd (updateRecordUnlocked fd3
        (enc_Problem (p\<lparr>pr_title := t, pr_difficulty := d, pr_visibility := v\<rparr>)) ?sz (int i)))) s" for t
      using f(1) ok rc sc fo rec(2) id db_fits_offset [OF f(2), of i] i(1)
      by (simp add: updateProblem_def updateRecord_def Let_def updateRecordUnlocked_def p_def fdata_write fd_lseek_def)
    show ?thesis
      using f(1) ok rc sc fo g rec(1) get upd
      by (cases "strcpy (pr_title p) title")
        (simp_all add: update_problem_row_def lockRecord_def Let_def updateRecordUnlocked_def p_def)
  qed
qed

lemma good_update_problem:
  assumes "ready c s" "handle_update_problem json c s = Some r"
  shows "good c s r"
proof -
  let ?k = "json_get_int json ''id''"
  have pre: "tables_inv s" "problems_ok s" "conn_ok c"
    using assms(1) by (simp_all add: ready_def system_inv_def tables_inv_def problems_part_def)
  obtain st s1 where u: "update_problem_row ?k (json_get_string json ''title'') (json_get_int json ''difficulty'')
      (json_get_int json ''visibility'') s = Some (st, s1)"
    using assms(2) by (auto simp: handle_update_problem_def Let_def split: bind_splits)
  have "core s1 = core s \<and> tables_inv s1"
  proof (cases "getProblem ?k s")
    case None
    then show ?thesis using update_problem_row_eq [OF pre(2)] u pre(1) by simp
  next
    case (Some p)
    then obtain t where t: "strcpy (pr_title p) (json_get_string json ''title'') = Some t"
      "s1 = snd (updateProblem (p\<lparr>pr_title := t, pr_difficulty := json_get_int json ''difficulty'',
         pr_visibility := json_get_int json ''visibility''\<rparr>) s)"
      using update_problem_row_eq [OF pre(2)] u by auto
    have "wf_Problem p"
      using Some pre(1,2) problems.get_Some_iff [OF pre(2)] problem_file.okD(3) [of s p]
      by (simp add: tables_inv_def problems_part_def problem_rows_def problems_ok_def)
    then have "wf_Problem (p\<lparr>pr_title := t, pr_difficulty := json_get_int json ''difficulty'',
         pr_visibility := json_get_int json ''visibility''\<rparr>)"
      using strcpy_terminated [OF t(1)] by (simp add: wf_Problem_def terminated_def)
    from problems_inv(2) [OF pre(1) this] show ?thesis unfolding t(2) by (simp add: core_problems)
  qed
  then have g: "good c s (Again, c, s1)" using assms(1) by (intro good_core) simp_all
  define fs where "fs = filter (\<lambda>(flag, f). json_get_int json flag \<noteq> 0)
    (zip [''changeStatement'', ''changeInput'', ''changeOutput''] problem_files)"
  obtain s2 where s2: "sendStatus (c_socket c) st s1 = Some s2"
    using assms(2) u by (auto simp: handle_update_problem_def Let_def split: bind_splits)
  obtain q s3 where rf: "receive_files (c_socket c) (map (temp_problem_path ?k \<circ> snd) fs) s2 = (q, s3)"
    by (metis surj_pair)
  have "r = (Again, c, if st = FAILURE then s2 else if q < 0 then s3 else install_problem ?k s3)"
    using assms(2) u s2 rf by (simp add: handle_update_problem_def Let_def fs_def split: if_splits)
  note h = s2 rf this
  have q: "silent s1 s2" "silent s2 s3"
    using quiet_talk(3) [OF h(1)] quiet_receive_files [OF h(2), of nondb] by (simp_all add: list_all_iff)
  then have "silent s1 (if st = FAILURE then s2 else if q < 0 then s3 else install_problem ?k s3)"
    using quiet_trans [OF q] quiet_trans [OF quiet_trans [OF q] silent_install] by simp
  then show ?thesis unfolding h(3) using pre(3) by (intro good_then_silent [OF g]) simp_all
qed

lemma judge_path_nondb: "judge_path env k (''./tempSolutions/'' @ x) p \<Longrightarrow> nondb p"
  by (auto simp: judge_path_def)

lemma good_submit:
  assumes "ready c s" "handle_submit env json c s = Some r"
  shows "good c s r"
proof -
  let ?k = "json_get_int json ''id''"
  have pre: "conn_ok c" using assms(1) by (simp add: ready_def)
  obtain u s1 where u: "users_heap s (c_user c) = Some u" and s1: "sendStatus (c_socket c) SUCCESS s = Some s1"
    using assms(2) by (auto simp: handle_submit_def Let_def split: bind_splits)
  define x where "x = show_int ?k @ ''_'' @ user_string u @ ''_solution.c''"
  obtain q s2 where rf: "server_receiveFile (c_socket c) (''./tempSolutions/'' @ x) s1 = (q, s2)" by (metis surj_pair)
  note q1 = quiet_talk(3) [OF s1, of nondb]
  have q2: "silent s s2" using quiet_trans [OF q1 quiet_receive [OF rf]] by simp
  show ?thesis
  proof (cases "getProblem ?k s = None \<or> q < 0")
    case True
    then have "r = (Again, c, s1) \<or> r = (Again, c, s2)"
      using assms(2) u s1 rf by (auto simp: handle_submit_def Let_def x_def split: if_splits)
    then show ?thesis using good_silent [OF assms(1) q1 pre] good_silent [OF assms(1) q2 pre] by auto
  next
    case False
    then obtain res result s3 msg s4 where h:
      "submitProblem env ?k (c_result c) (''./tempSolutions/'' @ x) s2 = Some (res, result, s3)"
      "sendJson (c_socket c) (message_json (if res < 0 then FAILURE else SUCCESS) msg) s3 = Some s4"
      "r = (Again, c\<lparr>c_result := result\<rparr>, s4)"
      using assms(2) u s1 rf by (auto simp: handle_submit_def Let_def x_def split: bind_splits)
    have "silent s2 s3"
      by (rule quiet_mono [OF keeps_quiet [OF keeps_submitProblem [OF h(1)]]]) (rule judge_path_nondb)
    from quiet_trans [OF quiet_trans [OF q2 this] quiet_talk(2) [OF h(2)]]
    show ?thesis unfolding h(3)
      using pre submit_buffer_length [OF h(1)] by (intro good_silent [OF assms(1)]) (simp_all add: conn_ok_def)
  qed
qed

section \<open>Challenges and the round of the loop\<close>

lemma good_duel: "ready c s \<Longrightarrow> handle_duel json c s = Some r \<Longrightarrow> good c s r"
  using good_same mem_duel ready_mem by metis

lemma good_small:
  assumes "ready c s"
  shows "handle_withdraw c s = Some r \<Longrightarrow> good c s r" "handle_accepted c s = Some r \<Longrightarrow> good c s r"
  using good_same [OF assms] mem_small [OF ready_mem [OF assms]] by metis+

lemma good_dispatch:
  assumes "ready c s" "tables_room s" "dispatch env json c s = Some r"
  shows "good c s r"
proof -
  have noop: "good c s (Again, c, s)" using assms(1) by (intro good_silent) (auto simp: ready_def)
  have "handle_login json c s = Some r \<or> handle_signup json c s = Some r \<or> handle_logout c s = Some r
    \<or> handle_add_problem json c s = Some r \<or> handle_update_problem json c s = Some r
    \<or> (\<exists>fs. show_problem fs json c s = Some r) \<or> handle_delete_problem json c s = Some r
    \<or> handle_view_all json c s = Some r \<or> handle_submit env json c s = Some r
    \<or> handle_duel json c s = Some r \<or> handle_withdraw c s = Some r \<or> handle_accepted c s = Some r
    \<or> handle_leaderboard json c s = Some r \<or> handle_specific_elo json c s = Some r \<or> r = (Again, c, s)"
    using assms(3) unfolding dispatch_def Let_def handle_get_problem_def handle_view_problem_def
    by (simp split: if_split_asm) blast+
  then show ?thesis
    by (elim disjE exE)
      (rule good_login [OF assms(1)] good_signup [OF assms(1,2)] good_logout [OF assms(1)]
        good_add_problem [OF assms(1,2)] good_update_problem [OF assms(1)] good_show [OF assms(1)]
        good_delete_problem [OF assms(1)] good_pages [OF assms(1)] good_submit [OF assms(1)]
        good_duel [OF assms(1)] good_small [OF assms(1)], assumption | simp add: noop)+
qed

lemma ready_read:
  assumes "ready c s" "server_read 1000 (c_socket c) (c_buffer c) s = (n, buf, s1)"
  shows "ready (c\<lparr>c_buffer := buf\<rparr>) s1"
proof -
  note si = silent_inv [OF quiet_talk(4) [OF assms(2)]]
  obtain k bs es where sr: "sock_read 1000 (ins s (c_socket c)) = (k, bs, es)" by (metis prod_cases3)
  have "length buf = 1000"
    using sock_read_le [OF sr] assms sr by (auto simp: server_read_def ready_def conn_ok_def overwrite_def Let_def)
  then show ?thesis using assms(1) si by (simp add: ready_def conn_ok_def)
qed

lemma good_serve:
  assumes "ready c s" "tables_room s" "serve_request env c s = Some r"
  shows "good c s r"
proof -
  obtain n buf s1 where rd: "server_read 1000 (c_socket c) (c_buffer c) s = (n, buf, s1)" by (metis prod_cases3)
  define c1 where "c1 = c\<lparr>c_buffer := buf\<rparr>"
  note si = silent_inv [OF quiet_talk(4) [OF rd]]
  have c1: "ready c1 s1" using ready_read [OF assms(1) rd] by (simp add: c1_def)
  have lift: "good c s r" if "good c1 s1 r"
    using that si(1) by (cases r) (auto simp: good_def c1_def split: if_splits)
  have "handle_disconnect c1 s1 = Some r \<or> (\<exists>json. dispatch env json c1 s1 = Some r)"
    using assms(3) rd by (auto simp: serve_request_def c1_def Let_def split: if_splits bind_splits)
  then show ?thesis
  proof (elim disjE exE)
    assume "handle_disconnect c1 s1 = Some r"
    then show ?thesis by (rule lift [OF good_disconnect [OF c1]])
  next
    fix json
    assume d: "dispatch env json c1 s1 = Some r"
    have "tables_room s1" using assms(2) si(3) by simp
    then show ?thesis by (rule lift [OF good_dispatch [OF c1 _ d]])
  qed
qed

lemma good_request:
  assumes "ready c s" "tables_room s" "handle_request env c s = Some r"
  shows "good c s r"
proof -
  have pre: "conn_ok c" using assms(1) by (simp add: ready_def)
  obtain u where u: "users_heap s (c_user c) = Some u" using assms(1) by (auto simp: ready_def)
  show ?thesis
  proof (cases "us_duelRequest u = 1")
    case True
    then have "r = (Blocked, c, s)" using assms(3) u by (simp add: handle_request_def)
    then show ?thesis using good_silent [OF assms(1) quiet_refl pre] by simp
  next
    case False
    then show ?thesis using good_serve [OF assms(1,2)] assms(3) u by (simp add: handle_request_def)
  qed
qed

end
