(* ===== verification/Duels.thy ===== *)
theory Duels
  imports Requests
begin

text \<open>
  A duel: \<open>handleDuelSocketMessage\<close> and the thread \<open>startDuel\<close> of \<open>Server/server.c\<close>. The state of the
  thread is \<open>arena\<close>: the \<open>Duel\<close>, the problem, the two \<open>User*\<close> as they were found at the start, who is
  still in the duel, the winner and the buffer. A round is one iteration of the loop, driven by
  what \<open>select\<close> returns; between two rounds the connections' threads run, which is why the
  pointers may dangle by then. \<open>None\<close> is undefined behaviour: a dangling \<open>User*\<close>, or \<open>FD_SET\<close> of a
  descriptor that is negative or at least \<open>FD_SETSIZE\<close>.
\<close>

record arena =
  ar_duel :: Duel
  ar_problem :: Problem
  ar_player1 :: "nat option"
  ar_player2 :: "nat option"
  p1InDuel :: bool
  p2InDuel :: bool
  duelWinner :: int
  ar_buffer :: bytes

text \<open>What is outside the program: the judge's environment, \<open>pow\<close> and \<open>rand\<close>.\<close>

record duel_env =
  du_judge :: judge_env
  du_pow :: "rat \<Rightarrow> rat \<Rightarrow> rat"
  du_rand :: "nat \<Rightarrow> nat"

definition duel_solution_path :: "duel_env \<Rightarrow> Problem \<Rightarrow> bytes \<Rightarrow> bytes" where
  "duel_solution_path env problem playerName = ''./tempSolutions/'' @ ''duel_'' @ show_int (pr_id problem)
     @ ''_'' @ playerName @ ''_'' @ show_int (thread_id (du_judge env)) @ ''.c''"

text \<open>A solution: 1 keeps the player in the duel, 0 ends it.\<close>

definition submit_duel_solution :: "duel_env \<Rightarrow> Problem \<Rightarrow> int \<Rightarrow> bytes \<Rightarrow> bytes \<Rightarrow> server \<Rightarrow> (int \<times> server) option" where
  "submit_duel_solution env problem socket playerName opponentName s = do {
     let tempSolutionPath = duel_solution_path env problem playerName;
     s1 \<leftarrow> sendJsonStatus socket SUCCESS (Some ''Ready to receive solution'') s;
     let (r, s2) = server_receiveFile socket tempSolutionPath s1;
     if r < 0 then do {
       s3 \<leftarrow> sendJsonStatus socket FAILURE (Some ''Failed to receive solution'') s2;
       Some (1, snd (deleteFile tempSolutionPath s3))
     } else do {
       (res, result, s3) \<leftarrow> submitProblem (du_judge env) (pr_id problem) (malloc s2 1000) tempSolutionPath s2;
       if res < 0 then do {
         s4 \<leftarrow> sendJsonStatus socket FAILURE (Some ''Error judging solution'') s3;
         Some (1, s4)
       } else do {
         verdict \<leftarrow> str_at result;
         if verdict = ''Accepted'' then do {
           (_, s4) \<leftarrow> updateDuelElos (du_pow env) playerName opponentName s3;
           s5 \<leftarrow> sendJsonStatus socket GO_TO_USER_MENU (Some ''Accepted. You won the duel.'') s4;
           Some (0, s5)
         } else do {
           s4 \<leftarrow> sendJsonStatus socket SUCCESS (Some verdict) s3;
           Some (1, s4)
         }
       }
     }
   }"

definition view_duel_statement :: "Problem \<Rightarrow> int \<Rightarrow> server \<Rightarrow> (int \<times> server) option" where
  "view_duel_statement problem socket s = do {
     title \<leftarrow> str_at (drop 4 (enc_Problem problem));
     s1 \<leftarrow> sendJson socket (cJSON_AddNumberToObject
       (cJSON_AddStringToObject (status_json SUCCESS) ''title'' title) ''difficulty'' (pr_difficulty problem)) s;
     Some (1, snd (server_sendFile socket (problem_path (pr_id problem) ''_statement.txt'') s1))
   }"

definition forfeit_duel :: "duel_env \<Rightarrow> int \<Rightarrow> bytes \<Rightarrow> bytes \<Rightarrow> server \<Rightarrow> (int \<times> server) option" where
  "forfeit_duel env socket playerName opponentName s = do {
     (_, s1) \<leftarrow> updateDuelElos (du_pow env) opponentName playerName s;
     s2 \<leftarrow> sendJsonStatus socket GO_TO_USER_MENU (Some ''You forfeited the duel.'') s1;
     Some (0, s2)
   }"

text \<open>The result of the C function with the buffer it leaves: \<open>buffer[bytesRead]\<close> is in range because
  one byte of the 1024 is kept free.\<close>

definition handleDuelSocketMessage :: "duel_env \<Rightarrow> Problem \<Rightarrow> int \<Rightarrow> bytes \<Rightarrow> bytes \<Rightarrow> bytes \<Rightarrow> server
    \<Rightarrow> (int \<times> bytes \<times> server) option" where
  "handleDuelSocketMessage env problem socket playerName opponentName buffer s =
     (let (bytesRead, buffer1, s1) = server_read (length buffer - 1) socket buffer s
      in if bytesRead \<le> 0 then Some (0, buffer1, s1)
         else let buffer2 = buffer1[nat bytesRead := CHR 0x00]
              in map_option (\<lambda>(r, t). (r, buffer2, t))
                (case cJSON_Parse (c_str buffer2) of
                   None \<Rightarrow> map_option (Pair 1) (sendJsonStatus socket FAILURE (Some ''Invalid duel request'') s1)
                 | Some json \<Rightarrow>
                     let operationCode = json_get_int (Some json) ''op''
                     in if operationCode = VIEW_DUEL_PROBLEM_STATEMENT then view_duel_statement problem socket s1
                        else if operationCode = SUBMIT_DUEL_SOLUTION then
                          submit_duel_solution env problem socket playerName opponentName s1
                        else if operationCode = FORFEIT_DUEL then forfeit_duel env socket playerName opponentName s1
                        else map_option (Pair 1) (sendJsonStatus socket FAILURE (Some ''Unknown duel operation'') s1)))"

section \<open>The thread\<close>

definition duel_names :: "Duel \<Rightarrow> bytes \<times> bytes" where
  "duel_names d = (c_str (du_player1 d), c_str (du_player2 d))"

text \<open>The thread up to its loop: \<open>Inr\<close> is the state at the head of the loop, \<open>Inl ()\<close> the early exit
  when there is no visible problem.\<close>

definition duel_begin :: "duel_env \<Rightarrow> Duel \<Rightarrow> bytes \<Rightarrow> server \<Rightarrow> ((unit + arena) \<times> server) option" where
  "duel_begin env d buffer s = do {
     let problem = getRandomVisibleProblem (du_rand env) s;
     player1 \<leftarrow> getActiveUserByUsername (fst (duel_names d)) s;
     player2 \<leftarrow> getActiveUserByUsername (snd (duel_names d)) s;
     s1 \<leftarrow> setDuelState player1 1 s;
     s2 \<leftarrow> setDuelState player2 1 s1;
     case problem of
       None \<Rightarrow> do {
         s3 \<leftarrow> sendJsonStatus (du_socket1 d) GO_TO_USER_MENU (Some ''No visible problems are available for the duel.'') s2;
         s4 \<leftarrow> sendJsonStatus (du_socket2 d) GO_TO_USER_MENU (Some ''No visible problems are available for the duel.'') s3;
         s5 \<leftarrow> setDuelState player1 0 s4;
         s6 \<leftarrow> setDuelState player2 0 s5;
         Some (Inl (), s6)
       }
     | Some pr \<Rightarrow> Some (Inr \<lparr>ar_duel = d, ar_problem = pr, ar_player1 = player1, ar_player2 = player2,
         p1InDuel = True, p2InDuel = True, duelWinner = 0, ar_buffer = buffer\<rparr>, s2)
   }"

text \<open>\<open>select\<close>: which of the two sockets are readable, an interruption, or another error.\<close>

datatype select_result = Ready bool bool | Interrupted | SelectFailed

abbreviation (input) FD_SETSIZE :: int where "FD_SETSIZE \<equiv> 1024"

definition fd_ok :: "int \<Rightarrow> bool" where
  "fd_ok fd \<longleftrightarrow> 0 \<le> fd \<and> fd < FD_SETSIZE"

definition LOST :: bytes where
  "LOST = ''The duel has ended. Your opponent already solved the problem or forfeited. You lost the duel.''"

text \<open>The two halves of an iteration: a readable socket of a player who is in the duel. When there is
  a winner, whatever the player sends is answered with \<open>LOST\<close> and ends his part; otherwise the
  message is handled, and a result of 0 makes this player the ``winner'' - also after a forfeit or
  a disconnect.\<close>

definition duel_half :: "duel_env \<Rightarrow> arena \<Rightarrow> int \<Rightarrow> nat option \<Rightarrow> bytes \<Rightarrow> bytes \<Rightarrow> server \<Rightarrow> (bool \<times> bytes \<times> server) option" where
  "duel_half env a socket player name opponent s =
     (if duelWinner a \<noteq> 0 then do {
        let (bytesRead, buffer, s1) = server_read (length (ar_buffer a) - 1) socket (ar_buffer a) s;
        s2 \<leftarrow> (if 0 < bytesRead then sendJsonStatus socket GO_TO_USER_MENU (Some LOST) s1 else Some s1);
        s3 \<leftarrow> setDuelState player 0 s2;
        Some (True, buffer, s3)
      } else do {
        (res, buffer, s1) \<leftarrow> handleDuelSocketMessage env (ar_problem a) socket name opponent (ar_buffer a) s;
        s2 \<leftarrow> (if res = 0 then setDuelState player 0 s1 else Some s1);
        Some (res = 0, buffer, s2)
      })"

text \<open>\<open>duelWinner\<close> is set by the first player whose part ends.\<close>

definition duel_half1 :: "duel_env \<Rightarrow> arena \<Rightarrow> server \<Rightarrow> (arena \<times> server) option" where
  "duel_half1 env a s = do {
     (over, buffer, s1) \<leftarrow> duel_half env a (du_socket1 (ar_duel a)) (ar_player1 a)
       (fst (duel_names (ar_duel a))) (snd (duel_names (ar_duel a))) s;
     Some (if over then a\<lparr>p1InDuel := False, duelWinner := (if duelWinner a = 0 then 1 else duelWinner a), ar_buffer := buffer\<rparr>
           else a\<lparr>ar_buffer := buffer\<rparr>, s1)
   }"

definition duel_half2 :: "duel_env \<Rightarrow> arena \<Rightarrow> server \<Rightarrow> (arena \<times> server) option" where
  "duel_half2 env a s = do {
     (over, buffer, s1) \<leftarrow> duel_half env a (du_socket2 (ar_duel a)) (ar_player2 a)
       (snd (duel_names (ar_duel a))) (fst (duel_names (ar_duel a))) s;
     Some (if over then a\<lparr>p2InDuel := False, duelWinner := (if duelWinner a = 0 then 2 else duelWinner a), ar_buffer := buffer\<rparr>
           else a\<lparr>ar_buffer := buffer\<rparr>, s1)
   }"

text \<open>One iteration: the thread's next state, or \<open>None\<close> inside when the loop is left.\<close>

definition duel_round :: "duel_env \<Rightarrow> select_result \<Rightarrow> arena \<Rightarrow> server \<Rightarrow> (arena option \<times> server) option" where
  "duel_round env sel a s =
     (if \<not> (p1InDuel a \<or> p2InDuel a) then Some (None, s)
      else if (p1InDuel a \<and> \<not> fd_ok (du_socket1 (ar_duel a))) \<or> (p2InDuel a \<and> \<not> fd_ok (du_socket2 (ar_duel a))) then None
      else case sel of
        Interrupted \<Rightarrow> Some (Some a, s)
      | SelectFailed \<Rightarrow> Some (None, s)
      | Ready r1 r2 \<Rightarrow> do {
          (a1, s1) \<leftarrow> (if p1InDuel a \<and> r1 then duel_half1 env a s else Some (a, s));
          (a2, s2) \<leftarrow> (if p2InDuel a1 \<and> r2 then duel_half2 env a1 s1 else Some (a1, s1));
          Some (Some a2, s2)
        })"

text \<open>The loop on a list of results of \<open>select\<close>; at the end of the list the thread waits in \<open>select\<close>.\<close>

fun duel_loop :: "duel_env \<Rightarrow> select_result list \<Rightarrow> arena \<Rightarrow> server \<Rightarrow> (arena option \<times> server) option" where
  "duel_loop env [] a s = Some (if p1InDuel a \<or> p2InDuel a then Some a else None, s)"
| "duel_loop env (sel # sels) a s = do {
     (next, s1) \<leftarrow> duel_round env sel a s;
     case next of None \<Rightarrow> Some (None, s1) | Some a1 \<Rightarrow> duel_loop env sels a1 s1
   }"

section \<open>What a message of a duel changes\<close>

text \<open>\<open>calm\<close>: no database file changes. \<open>exchanged\<close>: the leaderboard changes by one \<open>updateDuelElos\<close>
  between the two players, and nothing else of the database.\<close>

definition calm :: "server \<Rightarrow> server \<Rightarrow> bool" where
  "calm s s' \<longleftrightarrow> keeps nondb (os.truncate s) (os.truncate s')"

definition exchanged :: "(rat \<Rightarrow> rat \<Rightarrow> rat) \<Rightarrow> bytes \<Rightarrow> bytes \<Rightarrow> server \<Rightarrow> server \<Rightarrow> bool" where
  "exchanged pow a b s s' \<longleftrightarrow> (\<exists>t q t' w l. ((w, l) = (a, b) \<or> (w, l) = (b, a)) \<and> calm s t
     \<and> updateDuelElos pow w l t = Some (q, t') \<and> calm t' s')"

lemma calm_refl [simp, intro]: "calm s s"
  by (simp add: calm_def)

lemma calm_trans [trans]: "calm s s1 \<Longrightarrow> calm s1 s2 \<Longrightarrow> calm s s2"
  by (auto simp: calm_def intro: keeps_trans)

lemma silent_calm: "silent s s' \<Longrightarrow> calm s s'"
  by (simp add: calm_def quiet_def)

lemma calm_exchanged: "calm s s1 \<Longrightarrow> exchanged pow a b s1 s2 \<Longrightarrow> exchanged pow a b s s2"
  "exchanged pow a b s s1 \<Longrightarrow> calm s1 s2 \<Longrightarrow> exchanged pow a b s s2"
  unfolding exchanged_def by (blast intro: calm_trans)+

lemma exchanged_swap: "exchanged pow a b = exchanged pow b a"
  unfolding exchanged_def fun_eq_iff by (simp add: disj_commute)

lemma calm_setDuelState: "setDuelState p d s = Some s' \<Longrightarrow> calm s s'"
  by (auto simp: setDuelState_def update_user_def calm_def os.defs keeps_def split: option.splits)

lemma silent_status: "sendJsonStatus k st m s = Some s' \<Longrightarrow> silent s s'"
  unfolding sendJsonStatus_def Let_def by (rule quiet_talk(2))

lemma nondb_duel [simp]: "nondb (duel_solution_path env p n)"
  unfolding duel_solution_path_def by (rule nondb_paths(3))

lemma silent_delete: "nondb p \<Longrightarrow> silent s (snd (deleteFile p s))"
  by (intro keeps_quiet) (simp add: deleteFile_def frames)

lemma silent_judge: "submitProblem env k b (duel_solution_path denv p n) s = Some (r, b', s') \<Longrightarrow> silent s s'"
  unfolding duel_solution_path_def
proof -
  assume j: "submitProblem env k b (''./tempSolutions/'' @ ''duel_'' @ show_int (pr_id p) @ ''_'' @ n @ ''_''
    @ show_int (thread_id (du_judge denv)) @ ''.c'') s = Some (r, b', s')"
  show "silent s s'"
    by (rule quiet_mono [OF keeps_quiet [OF keeps_submitProblem [OF j]]]) (rule judge_path_nondb)
qed

lemma core_updateDuelElos: "updateDuelElos pow w l s = Some (r, s') \<Longrightarrow> core s' = core s"
  by (rule quiet_core [OF keeps_quiet [OF keeps_updateDuelElos [where P = "\<lambda>_. True"]]]) simp_all

definition duel_step :: "(rat \<Rightarrow> rat \<Rightarrow> rat) \<Rightarrow> bytes \<Rightarrow> bytes \<Rightarrow> int \<Rightarrow> server \<Rightarrow> server \<Rightarrow> bool" where
  "duel_step pow a b r s s' \<longleftrightarrow> core s' = core s \<and> (calm s s' \<or> r = 0 \<and> exchanged pow a b s s')"

lemma duel_step_silent: "silent s s' \<Longrightarrow> duel_step pow a b r s s'"
  by (simp add: duel_step_def silent_calm quiet_core)

lemma duel_step_exchange:
  assumes "silent s t" "updateDuelElos pow w l t = Some (q, t')" "silent t' s'" "(w, l) = (a, b) \<or> (w, l) = (b, a)"
  shows "duel_step pow a b 0 s s'"
proof -
  have "exchanged pow a b s s'" unfolding exchanged_def using assms silent_calm by blast
  then show ?thesis
    using quiet_core [OF assms(1)] core_updateDuelElos [OF assms(2)] quiet_core [OF assms(3)] by (simp add: duel_step_def)
qed

lemma submit_duel_step:
  assumes "submit_duel_solution env problem k pn opn s = Some (r, s')"
  shows "duel_step (du_pow env) pn opn r s s'"
proof -
  let ?path = "duel_solution_path env problem pn"
  obtain s1 where s1: "sendJsonStatus k SUCCESS (Some ''Ready to receive solution'') s = Some s1"
    using assms by (auto simp: submit_duel_solution_def Let_def split: bind_splits)
  obtain q s2 where s2: "server_receiveFile k ?path s1 = (q, s2)" by (metis surj_pair)
  have si: "silent s s2"
    using quiet_trans [OF silent_status [OF s1] quiet_receive [OF s2]] by simp
  show ?thesis
  proof (cases "q < 0")
    case True
    then obtain s3 where "sendJsonStatus k FAILURE (Some ''Failed to receive solution'') s2 = Some s3"
      "s' = snd (deleteFile ?path s3)"
      using assms s1 s2 by (auto simp: submit_duel_solution_def Let_def split: bind_splits)
    then show ?thesis
      using quiet_trans [OF quiet_trans [OF si silent_status] silent_delete [OF nondb_duel]] by (auto intro: duel_step_silent)
  next
    case False
    then obtain res result s3 where j: "submitProblem (du_judge env) (pr_id problem) (malloc s2 1000) ?path s2 = Some (res, result, s3)"
      using assms s1 s2 by (auto simp: submit_duel_solution_def Let_def split: bind_splits)
    have s3: "silent s s3" by (rule quiet_trans [OF si silent_judge [OF j]])
    consider (talk) st m where "sendJsonStatus k st m s3 = Some s'"
      | (won) q s4 where "updateDuelElos (du_pow env) pn opn s3 = Some (q, s4)" "r = 0"
          "sendJsonStatus k GO_TO_USER_MENU (Some ''Accepted. You won the duel.'') s4 = Some s'"
      using assms s1 s2 False j by (auto simp: submit_duel_solution_def Let_def split: bind_splits if_splits)
    then show ?thesis
    proof cases
      case talk
      then show ?thesis using quiet_trans [OF s3 silent_status] by (auto intro: duel_step_silent)
    next
      case won
      then show ?thesis using duel_step_exchange [OF s3 won(1) silent_status [OF won(3)]] by simp
    qed
  qed
qed

lemma duel_message_step:
  assumes "handleDuelSocketMessage env problem k pn opn buf s = Some (r, buf', s')"
  shows "duel_step (du_pow env) pn opn r s s'"
proof -
  obtain n b1 s1 where rd: "server_read (length buf - 1) k buf s = (n, b1, s1)" by (metis prod_cases3)
  note q = quiet_talk(4) [OF rd, of nondb]
  have after: "duel_step (du_pow env) pn opn r s s'" if st: "duel_step (du_pow env) pn opn r s1 s'"
  proof -
    have "exchanged (du_pow env) pn opn s s'" if "exchanged (du_pow env) pn opn s1 s'"
      using calm_exchanged(1) [OF silent_calm [OF q] that] .
    moreover have "calm s s'" if "calm s1 s'" using calm_trans [OF silent_calm [OF q] that] .
    ultimately show ?thesis using st quiet_core [OF q] unfolding duel_step_def by auto
  qed
  show ?thesis
  proof (cases "n \<le> 0")
    case True
    then have "s' = s1" using assms rd by (simp add: handleDuelSocketMessage_def)
    then show ?thesis using duel_step_silent [OF q] by simp
  next
    case False
    then consider (talk) st m where "sendJsonStatus k st m s1 = Some s'"
      | (view) "view_duel_statement problem k s1 = Some (r, s')"
      | (submit) "submit_duel_solution env problem k pn opn s1 = Some (r, s')"
      | (forfeit) "forfeit_duel env k pn opn s1 = Some (r, s')"
      using assms rd
      by (auto simp: handleDuelSocketMessage_def Let_def split: option.splits if_splits)
    then show ?thesis
    proof cases
      case talk
      then show ?thesis by (intro after duel_step_silent silent_status)
    next
      case view
      then obtain j s2 where v: "sendJson k j s1 = Some s2"
        "s' = snd (server_sendFile k (problem_path (pr_id problem) ''_statement.txt'') s2)"
        by (auto simp: view_duel_statement_def split: bind_splits)
      have "silent s2 s'" using quiet_send_files [of nondb s2 k "[problem_path (pr_id problem) ''_statement.txt'']"] v(2)
        by (simp add: Let_def case_prod_beta split: if_splits)
      then show ?thesis using quiet_trans [OF quiet_talk(2) [OF v(1)]] by (auto intro: after duel_step_silent)
    next
      case submit
      then show ?thesis by (intro after submit_duel_step)
    next
      case forfeit
      then obtain q2 s2 where f: "updateDuelElos (du_pow env) opn pn s1 = Some (q2, s2)" "r = 0"
        "sendJsonStatus k GO_TO_USER_MENU (Some ''You forfeited the duel.'') s2 = Some s'"
        by (auto simp: forfeit_duel_def split: bind_splits)
      show ?thesis using after duel_step_exchange [OF quiet_refl f(1) silent_status [OF f(3)], of pn opn] f(2) by simp
    qed
  qed
qed

section \<open>What a duel changes\<close>

text \<open>\<open>duel_progress\<close>: what holds between two points of the thread's loop. The arena stays the same duel;
  as long as nobody has won the database is as before, and once somebody has it differs by at most
  one exchange.\<close>

definition duel_progress :: "(rat \<Rightarrow> rat \<Rightarrow> rat) \<Rightarrow> arena \<Rightarrow> server \<Rightarrow> arena \<Rightarrow> server \<Rightarrow> bool" where
  "duel_progress pow a s a' s' \<longleftrightarrow> ar_duel a' = ar_duel a \<and> ar_problem a' = ar_problem a
     \<and> ar_player1 a' = ar_player1 a \<and> ar_player2 a' = ar_player2 a
     \<and> (duelWinner a \<noteq> 0 \<longrightarrow> duelWinner a' \<noteq> 0 \<and> calm s s')
     \<and> (duelWinner a' = 0 \<longrightarrow> calm s s')
     \<and> (calm s s' \<or> exchanged pow (fst (duel_names (ar_duel a))) (snd (duel_names (ar_duel a))) s s')"

lemma duel_progress_refl: "duel_progress pow a s a s"
  by (simp add: duel_progress_def)

lemma duel_progress_trans:
  assumes "duel_progress pow a s a1 s1" "duel_progress pow a1 s1 a2 s2"
  shows "duel_progress pow a s a2 s2"
proof (cases "duelWinner a1 = 0")
  case True
  then have c: "calm s s1" using assms(1) by (simp add: duel_progress_def)
  show ?thesis
    using assms True calm_trans [OF c] calm_exchanged(1) [OF c] by (auto simp: duel_progress_def)
next
  case False
  then have c: "calm s1 s2" using assms(2) by (simp add: duel_progress_def)
  show ?thesis
    using assms False calm_trans [OF _ c] calm_exchanged(2) [OF _ c] by (auto simp: duel_progress_def)
qed

lemma duel_half_calm:
  assumes "duel_half env a k p pn opn s = Some (over, buf, s')"
  shows "calm s s' \<or> duelWinner a = 0 \<and> over \<and> exchanged (du_pow env) pn opn s s'"
proof (cases "duelWinner a = 0")
  case True
  then obtain res b s1 where m: "handleDuelSocketMessage env (ar_problem a) k pn opn (ar_buffer a) s = Some (res, b, s1)"
    "(if res = 0 then setDuelState p 0 s1 else Some s1) = Some s'" "over \<longleftrightarrow> res = 0"
    using assms by (auto simp: duel_half_def split: bind_splits)
  have c: "calm s1 s'" using m(2) calm_setDuelState by (auto split: if_splits)
  show ?thesis
    using duel_message_step [OF m(1)] calm_trans [OF _ c] calm_exchanged(2) [OF _ c] m(3) True
    by (auto simp: duel_step_def)
next
  case False
  obtain n b s1 where rd: "server_read (length (ar_buffer a) - 1) k (ar_buffer a) s = (n, b, s1)" by (metis prod_cases3)
  then obtain s2 where s2: "(if 0 < n then sendJsonStatus k GO_TO_USER_MENU (Some LOST) s1 else Some s1) = Some s2"
    "setDuelState p 0 s2 = Some s'"
    using assms False by (auto simp: duel_half_def Let_def split: bind_splits)
  have "silent s1 s2" using s2(1) silent_status by (auto split: if_splits)
  from calm_trans [OF silent_calm [OF quiet_trans [OF quiet_talk(4) [OF rd] this]] calm_setDuelState [OF s2(2)]]
  show ?thesis ..
qed

lemma duel_half_progress:
  "duel_half1 env a s = Some (a', s') \<Longrightarrow> duel_progress (du_pow env) a s a' s'"
  "duel_half2 env a s = Some (a', s') \<Longrightarrow> duel_progress (du_pow env) a s a' s'"
proof -
  show "duel_progress (du_pow env) a s a' s'" if h: "duel_half1 env a s = Some (a', s')"
    using h by (auto simp: duel_half1_def duel_progress_def dest!: duel_half_calm split: bind_splits if_splits)
  show "duel_progress (du_pow env) a s a' s'" if h: "duel_half2 env a s = Some (a', s')"
    using h exchanged_swap [of "du_pow env" "snd (duel_names (ar_duel a))" "fst (duel_names (ar_duel a))"]
    by (auto simp: duel_half2_def duel_progress_def dest!: duel_half_calm split: bind_splits if_splits)
qed

lemma duel_round_progress:
  assumes "duel_round env sel a s = Some (next_a, s')"
  shows "case next_a of None \<Rightarrow> s' = s | Some a' \<Rightarrow> duel_progress (du_pow env) a s a' s'"
proof (cases sel)
  case (Ready r1 r2)
  show ?thesis
  proof (cases "p1InDuel a \<or> p2InDuel a")
    case True
    then obtain a1 s1 a2 s2 where h: "(if p1InDuel a \<and> r1 then duel_half1 env a s else Some (a, s)) = Some (a1, s1)"
      "(if p2InDuel a1 \<and> r2 then duel_half2 env a1 s1 else Some (a1, s1)) = Some (a2, s2)"
      "next_a = Some a2" "s' = s2"
      using assms Ready by (auto simp: duel_round_def split: if_split_asm bind_splits)
    have "duel_progress (du_pow env) a s a1 s1" "duel_progress (du_pow env) a1 s1 a2 s2"
      using h(1,2) by (auto intro: duel_half_progress duel_progress_refl split: if_splits)
    then show ?thesis using h(3,4) duel_progress_trans by simp
  qed (use assms in \<open>simp add: duel_round_def\<close>)
qed (use assms in \<open>auto simp: duel_round_def duel_progress_refl split: if_splits\<close>)

lemma duel_loop_progress:
  "duel_loop env sels a s = Some (next_a, s') \<Longrightarrow> \<exists>a'. duel_progress (du_pow env) a s a' s'"
proof (induction sels arbitrary: a s)
  case Nil
  then show ?case using duel_progress_refl by auto
next
  case (Cons sel sels)
  then obtain n s1 where rd: "duel_round env sel a s = Some (n, s1)"
    "(case n of None \<Rightarrow> Some (None, s1) | Some a1 \<Rightarrow> duel_loop env sels a1 s1) = Some (next_a, s')"
    by (auto split: bind_splits)
  show ?case
  proof (cases n)
    case None
    then show ?thesis using duel_round_progress [OF rd(1)] rd(2) duel_progress_refl by auto
  next
    case (Some a1)
    then have p: "duel_progress (du_pow env) a s a1 s1" using duel_round_progress [OF rd(1)] by simp
    obtain a' where "duel_progress (du_pow env) a1 s1 a' s'" using Cons.IH rd(2) Some by auto
    then show ?thesis using duel_progress_trans [OF p] by blast
  qed
qed

lemma duel_loop_calm: "duel_loop env sels a s = Some (next_a, s') \<Longrightarrow> duelWinner a \<noteq> 0 \<Longrightarrow> calm s s'"
  using duel_loop_progress by (fastforce simp: duel_progress_def)

text \<open>C3: a duel moves rating points at most once. Whatever the players send and in whatever order
  their sockets become readable, after any number of rounds the database files are as they were when
  the duel began, or they differ by exactly one \<open>updateDuelElos\<close> between the two players (in one of the
  two directions); once there is a winner nothing more changes.\<close>

theorem duel_one_exchange:
  assumes "duel_loop env sels a s = Some (next_a, s')"
  shows "(calm s s' \<or> exchanged (du_pow env) (fst (duel_names (ar_duel a))) (snd (duel_names (ar_duel a))) s s')
    \<and> (duelWinner a \<noteq> 0 \<longrightarrow> calm s s')"
  using duel_loop_progress [OF assms] by (auto simp: duel_progress_def)

end
