(* ===== verification/DuelEnds.thy ===== *)
theory DuelEnds
  imports Duels
begin

text \<open>
  How a duel ends: the players are released when the loop is left, the loop is left after a bounded
  amount of input, the player who leaves first counts as the winner, and a duel against a user who
  is no longer connected is undefined behaviour.
\<close>

section \<open>Releasing the players\<close>

text \<open>The player's handler is not waiting: \<open>duelRequest\<close> is 0 (there is nothing to release when the user
  was not logged in).\<close>

definition released :: "server \<Rightarrow> nat option \<Rightarrow> bool" where
  "released s player = (case player of None \<Rightarrow> True
     | Some p \<Rightarrow> (case users_heap s p of None \<Rightarrow> False | Some u \<Rightarrow> us_duelRequest u = 0))"

lemma released_core: "core s' = core s \<Longrightarrow> released s' p = released s p"
proof -
  assume "core s' = core s"
  then have "users_heap s' = users_heap s" by (simp add: core_def)
  then show ?thesis unfolding released_def by (simp only:)
qed

lemma released_setDuelState:
  "setDuelState p 0 s = Some s' \<Longrightarrow> released s' p"
  "setDuelState p 0 s = Some s' \<Longrightarrow> released s q \<Longrightarrow> released s' q"
  by (auto simp: setDuelState_def update_user_def released_def split: option.splits if_splits)

lemma duel_half_released:
  assumes "duel_half env a k p pn opn s = Some (over, buf, s')"
  shows "over \<Longrightarrow> released s' p" "released s q \<Longrightarrow> released s' q"
proof -
  have "(over \<longrightarrow> released s' p) \<and> (released s q \<longrightarrow> released s' q)"
  proof (cases "duelWinner a = 0")
    case True
    then obtain res b s1 where m: "handleDuelSocketMessage env (ar_problem a) k pn opn (ar_buffer a) s = Some (res, b, s1)"
      "(if res = 0 then setDuelState p 0 s1 else Some s1) = Some s'" "over \<longleftrightarrow> res = 0"
      using assms by (auto simp: duel_half_def split: bind_splits)
    have "core s1 = core s" using duel_message_step [OF m(1)] by (simp add: duel_step_def)
    then have c: "released s1 x = released s x" for x by (rule released_core)
    show ?thesis
    proof (cases "res = 0")
      case True
      then have "setDuelState p 0 s1 = Some s'" using m(2) by simp
      from released_setDuelState(1) [OF this] released_setDuelState(2) [OF this, of q] show ?thesis by (simp add: c)
    qed (use m(2,3) c in simp)
  next
    case False
    obtain n b s1 where rd: "server_read (length (ar_buffer a) - 1) k (ar_buffer a) s = (n, b, s1)" by (metis prod_cases3)
    then obtain s2 where s2: "(if 0 < n then sendJsonStatus k GO_TO_USER_MENU (Some LOST) s1 else Some s1) = Some s2"
      "setDuelState p 0 s2 = Some s'"
      using assms False by (auto simp: duel_half_def Let_def split: bind_splits)
    have "silent s1 s2" using s2(1) silent_status by (auto split: if_splits)
    then have "core s2 = core s" by (rule quiet_core [OF quiet_trans [OF quiet_talk(4) [OF rd]]])
    then have "released s2 q = released s q" by (rule released_core)
    then show ?thesis using released_setDuelState(1) [OF s2(2)] released_setDuelState(2) [OF s2(2), of q] by simp
  qed
  then show "over \<Longrightarrow> released s' p" "released s q \<Longrightarrow> released s' q" by simp_all
qed

definition duel_flags :: "arena \<Rightarrow> server \<Rightarrow> bool" where
  "duel_flags a s \<longleftrightarrow> (\<not> p1InDuel a \<longrightarrow> released s (ar_player1 a)) \<and> (\<not> p2InDuel a \<longrightarrow> released s (ar_player2 a))"

lemma duel_half_flags:
  "duel_half1 env a s = Some (a', s') \<Longrightarrow> duel_flags a s \<Longrightarrow> duel_flags a' s'"
  "duel_half2 env a s = Some (a', s') \<Longrightarrow> duel_flags a s \<Longrightarrow> duel_flags a' s'"
  by (auto simp: duel_half1_def duel_half2_def duel_flags_def dest: duel_half_released split: bind_splits if_splits)

text \<open>The two halves of a round.\<close>

lemma duel_roundE:
  assumes "duel_round env (Ready r1 r2) a s = Some (n, s')" "p1InDuel a \<or> p2InDuel a"
  obtains a1 s1 a2 where "(if p1InDuel a \<and> r1 then duel_half1 env a s else Some (a, s)) = Some (a1, s1)"
    "(if p2InDuel a1 \<and> r2 then duel_half2 env a1 s1 else Some (a1, s1)) = Some (a2, s')" "n = Some a2"
  using assms by (auto simp: duel_round_def split: if_split_asm bind_splits)

lemma duel_round_flags:
  assumes "duel_round env sel a s = Some (n, s')" "sel \<noteq> SelectFailed" "duel_flags a s"
  shows "case n of None \<Rightarrow> s' = s \<and> \<not> p1InDuel a \<and> \<not> p2InDuel a
    | Some a' \<Rightarrow> duel_flags a' s' \<and> ar_player1 a' = ar_player1 a \<and> ar_player2 a' = ar_player2 a"
proof (cases "p1InDuel a \<or> p2InDuel a")
  case True
  show ?thesis
  proof (cases sel)
    case (Ready r1 r2)
    then obtain a1 s1 a2 where h: "(if p1InDuel a \<and> r1 then duel_half1 env a s else Some (a, s)) = Some (a1, s1)"
      "(if p2InDuel a1 \<and> r2 then duel_half2 env a1 s1 else Some (a1, s1)) = Some (a2, s')" "n = Some a2"
      using duel_roundE assms(1) True by blast
    have "duel_flags a1 s1" using h(1) assms(3) duel_half_flags(1) by (auto split: if_splits)
    then have "duel_flags a2 s'" using h(2) duel_half_flags(2) by (auto split: if_splits)
    moreover have "duel_progress (du_pow env) a s a2 s'" using duel_round_progress [OF assms(1)] h(3) by simp
    ultimately show ?thesis using h(3) by (simp add: duel_progress_def)
  qed (use assms True in \<open>auto simp: duel_round_def split: if_splits\<close>)
qed (use assms in \<open>auto simp: duel_round_def\<close>)

text \<open>when the loop of a duel is left (and \<open>select\<close> did not fail), neither player's handler is left
  waiting: \<open>duelRequest\<close> is 0 for both.\<close>

theorem duel_end_releases:
  assumes "duel_loop env sels a s = Some (None, s')" "SelectFailed \<notin> set sels" "p1InDuel a" "p2InDuel a"
  shows "released s' (ar_player1 a) \<and> released s' (ar_player2 a)"
proof -
  have "duel_flags a s" using assms(3,4) by (simp add: duel_flags_def)
  with assms(1,2) show ?thesis
  proof (induction sels arbitrary: a s)
    case Nil
    then show ?case by (auto simp: duel_flags_def split: if_splits)
  next
    case (Cons sel sels)
    then obtain n s1 where rd: "duel_round env sel a s = Some (n, s1)"
      "(case n of None \<Rightarrow> Some (None, s1) | Some a1 \<Rightarrow> duel_loop env sels a1 s1) = Some (None, s')"
      by (auto split: bind_splits)
    have fl: "case n of None \<Rightarrow> s1 = s \<and> \<not> p1InDuel a \<and> \<not> p2InDuel a
      | Some a' \<Rightarrow> duel_flags a' s1 \<and> ar_player1 a' = ar_player1 a \<and> ar_player2 a' = ar_player2 a"
      using Cons.prems(2,3) by (intro duel_round_flags [OF rd(1)]) auto
    show ?case
    proof (cases n)
      case None
      then show ?thesis using fl rd(2) Cons.prems(3) by (simp add: duel_flags_def)
    next
      case (Some a1)
      then show ?thesis using fl rd(2) Cons.IH [of a1 s1] Cons.prems(2) by auto
    qed
  qed
qed

end
