(* ===== verification/DuelLive.thy ===== *)
theory DuelLive
  imports DuelEnds
begin

text \<open>
  A duel always ends. The measure is the input that is still to be read on the two sockets
  (\<open>weight\<close>) plus the players still in the duel: every round in which \<open>select\<close> reports a readable
  socket consumes some of it. Under the conditions in which the thread is started
  (\<open>duel_ready\<close>) and an environment that behaves as documented (\<open>judge_ok\<close>), no step of the
  thread is undefined either.
\<close>

section \<open>The input that is left\<close>

fun event_weight :: "event \<Rightarrow> nat" where
  "event_weight (Data c) = Suc (length c)"
| "event_weight _ = 1"

definition weight :: "event list \<Rightarrow> nat" where
  "weight es = sum_list (map event_weight es)"

lemma sock_read_weight:
  assumes "sock_read n es = (k, bs, es')"
  shows "weight es' \<le> weight es" "0 < k \<Longrightarrow> weight es' < weight es"
  using assms by (cases "(n, es)" rule: sock_read.cases; auto simp: weight_def split: if_splits)+

lemma receiveLoop_weight: "receiveLoop n acc es = (r, c, es') \<Longrightarrow> weight es' \<le> weight es"
proof (induction n acc es rule: receiveLoop.induct)
  case (1 n acc es)
  define m where "m = (if n - int (length acc) < 1024 then nat (n - int (length acc)) else 1024)"
  obtain k bs es1 where rd: "sock_read m es = (k, bs, es1)" by (metis surj_pair)
  show ?case
  proof (cases "int (length acc) < n")
    case False
    then show ?thesis using "1.prems" by (simp add: receiveLoop.simps)
  next
    case True
    note step = receiveLoop_step [OF True rd [unfolded m_def]]
    show ?thesis
    proof (cases "k \<le> 0")
      case True
      then show ?thesis using "1.prems" step sock_read_weight(1) [OF rd] by simp
    next
      case False
      then have "weight es' \<le> weight es1"
        using "1.IH" [OF True refl refl rd [unfolded m_def, symmetric] refl] "1.prems" step by simp
      then show ?thesis using sock_read_weight(1) [OF rd] by simp
    qed
  qed
qed

definition shrinks :: "server \<Rightarrow> server \<Rightarrow> bool" where
  "shrinks s s' \<longleftrightarrow> (\<forall>k. weight (ins s' k) \<le> weight (ins s k))"

lemma shrinks_refl [simp, intro]: "shrinks s s"
  by (simp add: shrinks_def)

lemma shrinks_trans [trans]: "shrinks s s1 \<Longrightarrow> shrinks s1 s2 \<Longrightarrow> shrinks s s2"
  unfolding shrinks_def using le_trans by blast

lemma shrinks_same: "ins s' = ins s \<Longrightarrow> shrinks s s'"
  by (simp add: shrinks_def)

lemma keeps_ins:
  fixes s s' :: server
  shows "keeps P s s' \<Longrightarrow> ins s' = ins s"
  by (cases s, cases s') (simp add: keeps_def)

lemma send_ins:
  "sendJson k j s = Some s' \<Longrightarrow> ins s' = ins s"
  "sendJsonStatus k st m s = Some s' \<Longrightarrow> ins s' = ins s"
  "ins (snd (server_sendFile k p s)) = ins s"
  by (auto simp: sendJson_def sendJsonStatus_def send_bytes_def server_sendFile_def Let_def case_prod_beta split: bind_splits)

lemma server_read_shrinks:
  assumes "server_read n k buf s = (r, b, s')"
  shows "shrinks s s'" "0 < r \<Longrightarrow> weight (ins s' k) < weight (ins s k)"
proof -
  obtain bs es where sr: "sock_read n (ins s k) = (r, bs, es)" "s' = s\<lparr>ins := (ins s)(k := es)\<rparr>"
    using assms by (auto simp: server_read_def Let_def split: prod.splits)
  show "shrinks s s'" using sock_read_weight(1) [OF sr(1)] by (simp add: sr(2) shrinks_def)
  show "0 < r \<Longrightarrow> weight (ins s' k) < weight (ins s k)" using sock_read_weight(2) [OF sr(1)] by (simp add: sr(2))
qed

lemma receive_shrinks:
  assumes "server_receiveFile k p s = (r, s')"
  shows "shrinks s s'"
proof -
  obtain t es where r: "receiveFile p s (ins s k) = (r, t, es)" "s' = t\<lparr>ins := (ins t)(k := es)\<rparr>"
    using assms by (auto simp: server_receiveFile_def Let_def split: prod.splits)
  obtain q h es1 where h: "sock_read 8 (ins s k) = (q, h, es1)" by (metis surj_pair)
  have "weight es \<le> weight es1 \<and> ins t = ins s"
    using r(1) h by (auto simp: receiveFile_def Let_def put_file_def os.defs dest: receiveLoop_weight split: if_splits prod.splits)
  then show ?thesis using sock_read_weight(1) [OF h] by (simp add: shrinks_def r(2))
qed

lemma setDuelState_ins: "setDuelState p d s = Some s' \<Longrightarrow> ins s' = ins s"
  by (auto simp: setDuelState_def update_user_def split: option.splits)

lemma delete_ins: "ins (snd (deleteFile p s)) = ins (s :: server)"
  by (rule keeps_ins [where P = "\<lambda>_. True"]) (simp add: deleteFile_def frames)

lemma elo_ins: "updateDuelElos pow w l s = Some (r, s') \<Longrightarrow> ins s' = ins (s :: server)"
  by (rule keeps_ins [OF keeps_updateDuelElos [where P = "\<lambda>_. True"]]) simp_all

lemma submit_shrinks:
  assumes "submit_duel_solution env problem k pn opn s = Some (r, s')"
  shows "shrinks s s'"
proof -
  let ?path = "duel_solution_path env problem pn"
  obtain s1 where s1: "sendJsonStatus k SUCCESS (Some ''Ready to receive solution'') s = Some s1"
    using assms by (auto simp: submit_duel_solution_def Let_def split: bind_splits)
  obtain q s2 where s2: "server_receiveFile k ?path s1 = (q, s2)" by (metis surj_pair)
  have "ins s' = ins s2"
  proof (cases "q < 0")
    case True
    then obtain s3 where "sendJsonStatus k FAILURE (Some ''Failed to receive solution'') s2 = Some s3"
      "s' = snd (deleteFile ?path s3)"
      using assms s1 s2 by (auto simp: submit_duel_solution_def Let_def split: bind_splits)
    then show ?thesis by (simp add: delete_ins send_ins(2))
  next
    case False
    then obtain res result s3 where j: "submitProblem (du_judge env) (pr_id problem) (malloc s2 1000) ?path s2 = Some (res, result, s3)"
      using assms s1 s2 by (auto simp: submit_duel_solution_def Let_def split: bind_splits)
    have s3: "ins s3 = ins s2" by (rule keeps_ins [OF keeps_submitProblem [OF j]])
    consider (talk) st m where "sendJsonStatus k st m s3 = Some s'"
      | (won) q s4 where "updateDuelElos (du_pow env) pn opn s3 = Some (q, s4)"
          "sendJsonStatus k GO_TO_USER_MENU (Some ''Accepted. You won the duel.'') s4 = Some s'"
      using assms s1 s2 False j by (auto simp: submit_duel_solution_def Let_def split: bind_splits if_splits)
    then show ?thesis by cases (simp_all add: s3 send_ins(2) elo_ins)
  qed
  then show ?thesis
    using receive_shrinks [OF s2] send_ins(2) [OF s1] by (simp add: shrinks_def)
qed

lemma duel_message_shrinks:
  assumes "handleDuelSocketMessage env problem k pn opn buf s = Some (r, buf', s')"
  shows "shrinks s s'" "r \<noteq> 0 \<Longrightarrow> weight (ins s' k) < weight (ins s k)"
proof -
  obtain n b1 s1 where rd: "server_read (length buf - 1) k buf s = (n, b1, s1)" by (metis prod_cases3)
  note q = server_read_shrinks [OF rd]
  have "shrinks s1 s' \<and> (r \<noteq> 0 \<longrightarrow> 0 < n)"
  proof (cases "n \<le> 0")
    case True
    then show ?thesis using assms rd by (simp add: handleDuelSocketMessage_def)
  next
    case False
    then consider (talk) st m where "sendJsonStatus k st m s1 = Some s'"
      | (view) "view_duel_statement problem k s1 = Some (r, s')"
      | (submit) "submit_duel_solution env problem k pn opn s1 = Some (r, s')"
      | (forfeit) "forfeit_duel env k pn opn s1 = Some (r, s')"
      using assms rd
      by (auto simp: handleDuelSocketMessage_def Let_def split: option.splits if_splits)
    then have "shrinks s1 s'"
    proof cases
      case talk
      then show ?thesis by (intro shrinks_same send_ins(2))
    next
      case view
      then have "ins s' = ins s1"
        by (auto simp: view_duel_statement_def send_ins(3) dest!: send_ins(1) split: bind_splits)
      then show ?thesis by (rule shrinks_same)
    next
      case submit
      then show ?thesis by (rule submit_shrinks)
    next
      case forfeit
      then have "ins s' = ins s1" by (auto simp: forfeit_duel_def dest!: send_ins(2) elo_ins split: bind_splits)
      then show ?thesis by (rule shrinks_same)
    qed
    then show ?thesis using False by simp
  qed
  then show "shrinks s s'" "r \<noteq> 0 \<Longrightarrow> weight (ins s' k) < weight (ins s k)"
    using q shrinks_trans by (auto simp: shrinks_def intro: le_less_trans)
qed

section \<open>A round consumes input\<close>

definition duel_pending :: "arena \<Rightarrow> server \<Rightarrow> nat" where
  "duel_pending a s = weight (ins s (du_socket1 (ar_duel a))) + weight (ins s (du_socket2 (ar_duel a)))
     + of_bool (p1InDuel a) + of_bool (p2InDuel a)"

lemma duel_half_shrinks:
  assumes "duel_half env a k p pn opn s = Some (over, buf, s')"
  shows "shrinks s s'" "over \<or> weight (ins s' k) < weight (ins s k)"
proof -
  have "shrinks s s' \<and> (over \<or> weight (ins s' k) < weight (ins s k))"
  proof (cases "duelWinner a = 0")
    case True
    then obtain res b s1 where m: "handleDuelSocketMessage env (ar_problem a) k pn opn (ar_buffer a) s = Some (res, b, s1)"
      "(if res = 0 then setDuelState p 0 s1 else Some s1) = Some s'" "over \<longleftrightarrow> res = 0"
      using assms by (auto simp: duel_half_def split: bind_splits)
    have "ins s' = ins s1" using m(2) setDuelState_ins by (auto split: if_splits)
    then show ?thesis using duel_message_shrinks [OF m(1)] m(3) by (auto simp: shrinks_def)
  next
    case False
    obtain n b s1 where rd: "server_read (length (ar_buffer a) - 1) k (ar_buffer a) s = (n, b, s1)" by (metis prod_cases3)
    then obtain s2 where s2: "(if 0 < n then sendJsonStatus k GO_TO_USER_MENU (Some LOST) s1 else Some s1) = Some s2"
      "setDuelState p 0 s2 = Some s'" "over"
      using assms False by (auto simp: duel_half_def Let_def split: bind_splits)
    have "ins s' = ins s1" using s2(1) setDuelState_ins [OF s2(2)] send_ins(2) by (auto split: if_splits)
    then show ?thesis using server_read_shrinks(1) [OF rd] s2(3) by (simp add: shrinks_def)
  qed
  then show "shrinks s s'" "over \<or> weight (ins s' k) < weight (ins s k)" by simp_all
qed

lemma duel_half_pending:
  "duel_half1 env a s = Some (a', s') \<Longrightarrow> p1InDuel a \<Longrightarrow> duel_pending a' s' < duel_pending a s"
  "duel_half2 env a s = Some (a', s') \<Longrightarrow> p2InDuel a \<Longrightarrow> duel_pending a' s' < duel_pending a s"
proof -
  let ?k1 = "du_socket1 (ar_duel a)" and ?k2 = "du_socket2 (ar_duel a)"
  show "duel_pending a' s' < duel_pending a s" if h: "duel_half1 env a s = Some (a', s')" "p1InDuel a"
  proof -
    obtain over b where "duel_half env a ?k1 (ar_player1 a) (fst (duel_names (ar_duel a))) (snd (duel_names (ar_duel a))) s
        = Some (over, b, s')"
      and a': "ar_duel a' = ar_duel a" "p2InDuel a' = p2InDuel a" "p1InDuel a' \<longleftrightarrow> \<not> over"
      using h by (auto simp: duel_half1_def split: bind_splits if_splits)
    note w = duel_half_shrinks [OF this(1)]
    have "weight (ins s' ?k1) \<le> weight (ins s ?k1)" "weight (ins s' ?k2) \<le> weight (ins s ?k2)"
      using w(1) by (simp_all add: shrinks_def)
    then show ?thesis using w(2) a' h(2) by (auto simp: duel_pending_def)
  qed
  show "duel_pending a' s' < duel_pending a s" if h: "duel_half2 env a s = Some (a', s')" "p2InDuel a"
  proof -
    obtain over b where "duel_half env a ?k2 (ar_player2 a) (snd (duel_names (ar_duel a))) (fst (duel_names (ar_duel a))) s
        = Some (over, b, s')"
      and a': "ar_duel a' = ar_duel a" "p1InDuel a' = p1InDuel a" "p2InDuel a' \<longleftrightarrow> \<not> over"
      using h by (auto simp: duel_half2_def split: bind_splits if_splits)
    note w = duel_half_shrinks [OF this(1)]
    have "weight (ins s' ?k1) \<le> weight (ins s ?k1)" "weight (ins s' ?k2) \<le> weight (ins s ?k2)"
      using w(1) by (simp_all add: shrinks_def)
    then show ?thesis using w(2) a' h(2) by (auto simp: duel_pending_def)
  qed
qed

text \<open>What \<open>select\<close> promises when it returns a positive number: one of the sockets in the set is
  readable.\<close>

definition productive :: "select_result \<Rightarrow> arena \<Rightarrow> bool" where
  "productive sel a \<longleftrightarrow> (case sel of Ready r1 r2 \<Rightarrow> p1InDuel a \<and> r1 \<or> p2InDuel a \<and> r2 | _ \<Rightarrow> False)"

lemma duel_round_pending:
  assumes "duel_round env sel a s = Some (Some a', s')" "productive sel a"
  shows "duel_pending a' s' < duel_pending a s"
proof -
  obtain r1 r2 where sel: "sel = Ready r1 r2" "p1InDuel a \<and> r1 \<or> p2InDuel a \<and> r2"
    using assms(2) by (auto simp: productive_def split: select_result.splits)
  then have "p1InDuel a \<or> p2InDuel a" by auto
  then obtain a1 s1 where h: "(if p1InDuel a \<and> r1 then duel_half1 env a s else Some (a, s)) = Some (a1, s1)"
    "(if p2InDuel a1 \<and> r2 then duel_half2 env a1 s1 else Some (a1, s1)) = Some (a', s')"
    using duel_roundE assms(1) sel(1) by blast
  have le: "duel_pending a' s' \<le> duel_pending a1 s1" using h(2) duel_half_pending(2) by (fastforce split: if_splits)
  show ?thesis
  proof (cases "p1InDuel a \<and> r1")
    case True
    then show ?thesis using h(1) le duel_half_pending(1) by fastforce
  next
    case False
    then show ?thesis using h sel(2) duel_half_pending(2) by auto
  qed
qed

section \<open>No step is undefined\<close>

text \<open>What the judge relies on: the two pipes are created and \<open>waitpid\<close> reports a proper status.\<close>

definition judge_ok :: "judge_env \<Rightarrow> bool" where
  "judge_ok env \<longleftrightarrow> pipe1_ok env \<and> pipe2_ok env \<and> (\<forall>exe input. wait_ok (snd (snd (exec env exe input))))"

lemma submit_total:
  assumes "judge_ok env" "length buffer = 1000"
  shows "\<exists>r b s'. submitProblem env k buffer src s = Some (r, b, s') \<and> CHR 0x00 \<in> set b"
proof -
  have p: "pipe1_ok env" "pipe2_ok env" using assms(1) by (simp_all add: judge_ok_def)
  obtain err st exe where g: "gcc env (files s src) = (err, st, exe)" by (metis prod_cases3)
  define s1 where "s1 = (case exe of None \<Rightarrow> s | Some e \<Rightarrow> put_file (executable_path env k) e s)"
  have rg: "run_gcc env (executable_path env k) src s = (err, st, s1)"
    using g by (simp add: run_gcc_def s1_def)
  have "\<exists>r b s'. submitProblem env k buffer src s = Some (r, b, s')"
  proof (cases "st = Exited 0 \<and> getProblem k s1 \<noteq> None")
    case True
    obtain err2 st2 s2 where rc: "run_child env (executable_path env k) (problem_path k ''_input.in'')
       (executable_path env k @ ''_output.out'') s1 = (err2, st2, s2)" by (metis prod_cases3)
    have "wait_ok x" if "exec env e i = (out, err, x)" for e i out err x
      using assms(1) that unfolding judge_ok_def by (metis snd_conv)
    moreover have "wait_ok (Exited 1)" "wait_ok (Exited 255)" by (simp_all add: wait_ok_def)
    ultimately have w: "wait_ok st2"
      using rc by (auto simp: run_child_def Let_def split: option.splits if_splits prod.splits)
    show ?thesis
    proof (cases "st2 = Exited 0")
      case True
      then show ?thesis using submit_compared [OF assms(2) p] rg rc \<open>st = Exited 0 \<and> getProblem k s1 \<noteq> None\<close> by blast
    next
      case False
      then show ?thesis using submit_run_fails [OF assms(2) p _ _ rc _ w] rg True by blast
    qed
  next
    case False
    show ?thesis
    proof (cases "st = Exited 0")
      case True
      then show ?thesis using False submit_no_problem [OF assms(2) p(1)] rg by blast
    next
      case False
      then show ?thesis using submit_compile_error [OF assms(2) p(1) g] by blast
    qed
  qed
  then obtain r b s' where j: "submitProblem env k buffer src s = Some (r, b, s')" by blast
  obtain err2 st2 s2 where rc: "run_child env (executable_path env k) (problem_path k ''_input.in'')
       (executable_path env k @ ''_output.out'') s1 = (err2, st2, s2)" by (metis prod_cases3)
  obtain n b2 where rp: "readPipe err (malloc s 1000) 1000 ''Compilation error: '' = (n, b2)" by (metis surj_pair)
  obtain m b3 where rp2: "readPipe err2 b2 1000 ''Runtime error: '' = (m, b3)" by (metis surj_pair)
  have "\<exists>t. strcpy buffer t = Some b"
    using j p unfolding submitProblem_def rg Let_def prod.case rp rc rp2
    by (cases st2) (auto simp: Option.bind_eq_Some_conv split: if_split_asm)
  then obtain t where "strcpy buffer t = Some b" ..
  then have "CHR 0x00 \<in> set b" using strcpy_terminated by (fastforce simp: terminated_def)
  then show ?thesis using j by blast
qed

lemma status_total: "int_range st \<Longrightarrow> no_nul m \<Longrightarrow> \<exists>s'. sendJsonStatus k st (Some m) s = Some s'"
  using sendJson_total [OF wf_replies(1)] by (simp add: sendJsonStatus_def message_json_def status_json_def)

lemma elo_total: "length w < 100 \<Longrightarrow> length l < 100 \<Longrightarrow> \<exists>r s'. updateDuelElos pow w l s = Some (r, s')"
proof -
  assume len: "length w < 100" "length l < 100"
  obtain wn where w: "strcpy (malloc s 100) w = Some wn" using strcpy_fits [of w "malloc s 100"] len by auto
  have l: "\<exists>ln. strcpy (malloc t 100) l = Some ln" for t :: "'a os_scheme"
    using strcpy_fits [of l "malloc t 100"] len by auto
  show ?thesis
  proof (cases "getLeaderboardEntry w s"; cases "getLeaderboardEntry l s")
    fix we le
    assume e: "getLeaderboardEntry w s = Some we" "getLeaderboardEntry l s = Some le"
    define s1 where "s1 = snd (updateLeaderboardEntry \<lparr>le_username = wn,
      le_elo = wrap32 (le_elo we + calculateEloChange pow (le_elo we) (le_elo le) 1 50)\<rparr> s)"
    obtain ln where "strcpy (malloc s1 100) l = Some ln" using l by blast
    then show ?thesis using e w by (simp add: updateDuelElos_def Let_def s1_def)
  qed (simp_all add: updateDuelElos_def)
qed

lemma setDuelState_total: "(\<forall>q. p = Some q \<longrightarrow> users_heap s q \<noteq> None) \<Longrightarrow> \<exists>s'. setDuelState p d s = Some s'"
  by (auto simp: setDuelState_def update_user_def split: option.split)

lemma setDuelState_alive: "setDuelState p d s = Some s' \<Longrightarrow> (users_heap s' q = None) = (users_heap s q = None)"
  by (auto simp: setDuelState_def update_user_def split: option.splits if_splits)

text \<open>The problem of a duel is a record of the table: its title ends in the 100 bytes.\<close>

definition problem_ok :: "Problem \<Rightarrow> bool" where
  "problem_ok pr \<longleftrightarrow> CHR 0x00 \<in> set (pr_title pr) \<and> int_range (pr_difficulty pr)"

lemma reply_total: "st \<in> {SUCCESS, FAILURE, GO_TO_USER_MENU} \<Longrightarrow> no_nul m \<Longrightarrow> \<exists>s'. sendJsonStatus k st (Some m) s = Some s'"
  by (intro status_total) (auto simp: int_range_def)

lemma view_duel_total:
  assumes "problem_ok pr"
  shows "\<exists>r s'. view_duel_statement pr k s = Some (r, s')"
proof -
  have t: "str_at (drop 4 (enc_Problem pr)) = Some (c_str (drop 4 (enc_Problem pr)))"
    using assms by (simp add: str_at_def enc_Problem_def problem_ok_def)
  have "wf_json (cJSON_AddNumberToObject (cJSON_AddStringToObject (status_json SUCCESS) ''title''
      (c_str (drop 4 (enc_Problem pr)))) ''difficulty'' (pr_difficulty pr))"
    using assms no_nul_c_str [of "drop 4 (enc_Problem pr)"]
    by (auto simp: json_build problem_ok_def int_range_def no_nul_def)
  from sendJson_total [OF this, of k s] show ?thesis by (auto simp: view_duel_statement_def t)
qed

lemma forfeit_duel_total:
  assumes "length pn < 100" "length opn < 100"
  shows "\<exists>r s'. forfeit_duel env k pn opn s = Some (r, s')"
proof -
  obtain q s1 where "updateDuelElos (du_pow env) opn pn s = Some (q, s1)" using elo_total assms by metis
  moreover obtain s2 where "sendJsonStatus k GO_TO_USER_MENU (Some ''You forfeited the duel.'') s1 = Some s2"
    using reply_total by (force simp: no_nul_def)
  ultimately show ?thesis by (simp add: forfeit_duel_def)
qed

lemma submit_duel_total:
  assumes "judge_ok (du_judge env)" "length pn < 100" "length opn < 100"
  shows "\<exists>r s'. submit_duel_solution env pr k pn opn s = Some (r, s')"
proof -
  let ?path = "duel_solution_path env pr pn"
  obtain s1 where s1: "sendJsonStatus k SUCCESS (Some ''Ready to receive solution'') s = Some s1"
    using reply_total by (force simp: no_nul_def)
  obtain q s2 where s2: "server_receiveFile k ?path s1 = (q, s2)" by (metis surj_pair)
  obtain s3 where s3: "sendJsonStatus k FAILURE (Some ''Failed to receive solution'') s2 = Some s3"
    using reply_total by (force simp: no_nul_def)
  obtain res b s4 where j: "submitProblem (du_judge env) (pr_id pr) (malloc s2 1000) ?path s2 = Some (res, b, s4)"
    "CHR 0x00 \<in> set b"
    using submit_total [OF assms(1), of "malloc s2 1000" "pr_id pr" ?path s2] by auto
  obtain s5 where s5: "sendJsonStatus k FAILURE (Some ''Error judging solution'') s4 = Some s5"
    using reply_total by (force simp: no_nul_def)
  obtain s6 where s6: "sendJsonStatus k SUCCESS (Some (c_str b)) s4 = Some s6" using reply_total by force
  obtain q2 s7 where s7: "updateDuelElos (du_pow env) pn opn s4 = Some (q2, s7)" using elo_total assms(2,3) by metis
  obtain s8 where s8: "sendJsonStatus k GO_TO_USER_MENU (Some ''Accepted. You won the duel.'') s7 = Some s8"
    using reply_total by (force simp: no_nul_def)
  show ?thesis using s1 s2 s3 j s5 s6 s7 s8 by (simp add: submit_duel_solution_def Let_def str_at_def)
qed

lemma duel_message_total:
  assumes "judge_ok (du_judge env)" "problem_ok pr" "length pn < 100" "length opn < 100"
  shows "\<exists>r b s'. handleDuelSocketMessage env pr k pn opn buf s = Some (r, b, s')"
proof -
  obtain n b1 s1 where rd: "server_read (length buf - 1) k buf s = (n, b1, s1)" by (metis prod_cases3)
  have talk: "\<exists>s'. sendJsonStatus k FAILURE (Some ''Invalid duel request'') s1 = Some s'"
    "\<exists>s'. sendJsonStatus k FAILURE (Some ''Unknown duel operation'') s1 = Some s'"
    by (intro reply_total; simp add: no_nul_def)+
  note ops = view_duel_total [OF assms(2), of k s1] submit_duel_total [OF assms(1,3,4), of pr k s1]
    forfeit_duel_total [OF assms(3,4), of env k s1]
  show ?thesis
  proof (cases "n \<le> 0")
    case False
    show ?thesis
    proof (cases "cJSON_Parse (c_str (b1[nat n := CHR 0x00]))")
      case None
      then show ?thesis using rd talk(1) False by (auto simp: handleDuelSocketMessage_def Let_def)
    next
      case (Some json)
      then show ?thesis using rd talk(2) ops False by (auto simp: handleDuelSocketMessage_def Let_def)
    qed
  qed (use rd in \<open>simp add: handleDuelSocketMessage_def\<close>)
qed

section \<open>The end of a duel\<close>

text \<open>What the thread relies on at the head of its loop: valid descriptors, names that end in their
  arrays, a problem of the table, and players whose \<open>User\<close>s are still allocated.\<close>

definition alive :: "nat option \<Rightarrow> server \<Rightarrow> bool" where
  "alive player s \<longleftrightarrow> (\<forall>p. player = Some p \<longrightarrow> users_heap s p \<noteq> None)"

definition duel_ready :: "arena \<Rightarrow> server \<Rightarrow> bool" where
  "duel_ready a s \<longleftrightarrow> fd_ok (du_socket1 (ar_duel a)) \<and> fd_ok (du_socket2 (ar_duel a))
     \<and> problem_ok (ar_problem a) \<and> length (fst (duel_names (ar_duel a))) < 100 \<and> length (snd (duel_names (ar_duel a))) < 100
     \<and> alive (ar_player1 a) s \<and> alive (ar_player2 a) s"

lemma alive_core: "core s' = core s \<Longrightarrow> alive p s' = alive p s"
proof -
  assume "core s' = core s"
  then have "users_heap s' = users_heap s" by (simp add: core_def)
  then show ?thesis unfolding alive_def by (simp only:)
qed

lemma alive_setDuelState: "setDuelState p d s = Some s' \<Longrightarrow> alive q s' = alive q s"
  by (simp add: alive_def setDuelState_alive)

lemma duel_half_total:
  assumes "judge_ok (du_judge env)" "problem_ok (ar_problem a)" "length pn < 100" "length opn < 100" "alive p s"
  shows "\<exists>over buf s'. duel_half env a k p pn opn s = Some (over, buf, s') \<and> (\<forall>q. alive q s' = alive q s)"
proof (cases "duelWinner a = 0")
  case True
  obtain r b s1 where m: "handleDuelSocketMessage env (ar_problem a) k pn opn (ar_buffer a) s = Some (r, b, s1)"
    using duel_message_total [OF assms(1-4)] by blast
  then have "core s1 = core s" using duel_message_step by (simp add: duel_step_def)
  then have al: "alive q s1 = alive q s" for q by (rule alive_core)
  then obtain s2 where "setDuelState p 0 s1 = Some s2" using setDuelState_total [of p s1 0] assms(5) by (auto simp: alive_def)
  then show ?thesis using m True al alive_setDuelState [of p 0 s1 s2] by (cases "r = 0") (auto simp: duel_half_def)
next
  case False
  obtain n b s1 where rd: "server_read (length (ar_buffer a) - 1) k (ar_buffer a) s = (n, b, s1)" by (metis prod_cases3)
  obtain s2 where s2: "sendJsonStatus k GO_TO_USER_MENU (Some LOST) s1 = Some s2"
    using reply_total [of GO_TO_USER_MENU LOST k s1] by (auto simp: LOST_def no_nul_def)
  define s3 where "s3 = (if 0 < n then s2 else s1)"
  have "silent s1 s3" using silent_status [OF s2] by (simp add: s3_def)
  then have "core s3 = core s" by (rule quiet_core [OF quiet_trans [OF quiet_talk(4) [OF rd]]])
  then have al: "alive q s3 = alive q s" for q by (rule alive_core)
  then obtain s4 where s4: "setDuelState p 0 s3 = Some s4" using setDuelState_total [of p s3 0] assms(5) by (auto simp: alive_def)
  then have "duel_half env a k p pn opn s = Some (True, b, s4)"
    using False rd s2 by (simp add: duel_half_def Let_def s3_def split: if_splits)
  then show ?thesis using al alive_setDuelState [OF s4] by auto
qed

lemma duel_halves_total:
  assumes "judge_ok (du_judge env)" "duel_ready a s"
  shows "\<exists>a' s'. duel_half1 env a s = Some (a', s') \<and> duel_ready a' s'"
    "\<exists>a' s'. duel_half2 env a s = Some (a', s') \<and> duel_ready a' s'"
proof -
  let ?n1 = "fst (duel_names (ar_duel a))" and ?n2 = "snd (duel_names (ar_duel a))"
  have pre: "problem_ok (ar_problem a)" "length ?n1 < 100" "length ?n2 < 100" "alive (ar_player1 a) s" "alive (ar_player2 a) s"
    using assms(2) by (simp_all add: duel_ready_def)
  from duel_half_total [OF assms(1) pre(1,2,3,4), of "du_socket1 (ar_duel a)"]
  show "\<exists>a' s'. duel_half1 env a s = Some (a', s') \<and> duel_ready a' s'"
    using assms(2) by (auto simp: duel_half1_def duel_ready_def)
  from duel_half_total [OF assms(1) pre(1,3,2,5), of "du_socket2 (ar_duel a)"]
  show "\<exists>a' s'. duel_half2 env a s = Some (a', s') \<and> duel_ready a' s'"
    using assms(2) by (auto simp: duel_half2_def duel_ready_def)
qed

lemma duel_round_total:
  assumes "judge_ok (du_judge env)" "duel_ready a s"
  shows "\<exists>n s'. duel_round env sel a s = Some (n, s') \<and> (\<forall>a'. n = Some a' \<longrightarrow> duel_ready a' s')"
proof -
  have fd: "fd_ok (du_socket1 (ar_duel a))" "fd_ok (du_socket2 (ar_duel a))" using assms(2) by (simp_all add: duel_ready_def)
  show ?thesis
  proof (cases sel)
    case (Ready r1 r2)
    obtain a1 s1 where h1: "(if p1InDuel a \<and> r1 then duel_half1 env a s else Some (a, s)) = Some (a1, s1)" "duel_ready a1 s1"
      using duel_halves_total(1) [OF assms] assms(2) by (metis (full_types))
    obtain a2 s2 where h2: "(if p2InDuel a1 \<and> r2 then duel_half2 env a1 s1 else Some (a1, s1)) = Some (a2, s2)" "duel_ready a2 s2"
      using duel_halves_total(2) [OF assms(1) h1(2)] h1(2) by (metis (full_types))
    show ?thesis using Ready fd h1(1) h2 by (simp add: duel_round_def)
  qed (use fd assms(2) in \<open>auto simp: duel_round_def\<close>)
qed

text \<open>The results of \<open>select\<close> along a run: each is an interruption or productive.\<close>

fun selects :: "duel_env \<Rightarrow> select_result list \<Rightarrow> arena \<Rightarrow> server \<Rightarrow> bool" where
  "selects env [] a s = True"
| "selects env (sel # sels) a s = ((sel = Interrupted \<or> productive sel a)
     \<and> (case duel_round env sel a s of Some (Some a1, s1) \<Rightarrow> (p1InDuel a1 \<or> p2InDuel a1 \<longrightarrow> selects env sels a1 s1)
        | _ \<Rightarrow> True))"

text \<open>C10: every duel ends. With a working judge, valid descriptors and both \<open>User\<close>s allocated, the loop
  is left - with defined behaviour - after at most as many productive rounds as there is input left
  on the two sockets plus two; interruptions of \<open>select\<close> do not count.\<close>

theorem duel_ends:
  assumes "judge_ok (du_judge env)" "duel_ready a s" "selects env sels a s"
    and "duel_pending a s \<le> length (filter (\<lambda>sel. sel \<noteq> Interrupted) sels)"
  shows "\<exists>s'. duel_loop env sels a s = Some (None, s')"
  using assms(2-4)
proof (induction sels arbitrary: a s)
  case Nil
  then show ?case by (auto simp: duel_pending_def)
next
  case (Cons sel sels)
  obtain n s1 where rd: "duel_round env sel a s = Some (n, s1)" "\<And>a'. n = Some a' \<Longrightarrow> duel_ready a' s1"
    using duel_round_total [OF assms(1) Cons.prems(1)] by blast
  show ?case
  proof (cases n)
    case None
    then show ?thesis using rd(1) by simp
  next
    case (Some a1)
    show ?thesis
    proof (cases "p1InDuel a1 \<or> p2InDuel a1")
      case True
      then have sel: "selects env sels a1 s1" using Cons.prems(2) rd(1) Some by simp
      have "duel_pending a1 s1 \<le> length (filter (\<lambda>sel. sel \<noteq> Interrupted) sels)"
      proof (cases "sel = Interrupted")
        case True
        then have "a1 = a" "s1 = s" using rd(1) Some by (auto simp: duel_round_def split: if_splits)
        then show ?thesis using Cons.prems(3) True by simp
      next
        case False
        then have "productive sel a" using Cons.prems(2) by simp
        then show ?thesis using duel_round_pending rd(1) Some Cons.prems(3) False by fastforce
      qed
      then show ?thesis using Cons.IH [OF rd(2) [OF Some] sel] rd(1) Some by simp
    next
      case False
      then have "duel_loop env sels a1 s1 = Some (None, s1)" by (cases sels) (auto simp: duel_round_def)
      then show ?thesis using rd(1) Some by simp
    qed
  qed
qed

end
