(* ===== verification/DuelFaults.thy ===== *)
theory DuelFaults
  imports DuelLive
begin

text \<open>
  Two behaviours of a duel that its users would not expect, and concrete duels: the first player
  who leaves counts as the winner, and a challenge whose author has gone starts a duel on
  descriptor \<open>-1\<close>.
\<close>

section \<open>Leaving a duel\<close>

lemma read_closed: "ins s k = [] \<Longrightarrow> server_read n k buf s = (0, buf, s)"
  by (simp add: server_read_def overwrite_def fun_upd_idem)

lemma read_data: "ins s k = Data bs # es \<Longrightarrow> bs \<noteq> [] \<Longrightarrow> 0 < n \<Longrightarrow>
    \<exists>m b s'. server_read n k buf s = (m, b, s') \<and> 0 < m \<and> users_heap s' = users_heap s \<and> outs s' = outs s"
  by (cases n) (auto simp: server_read_def)

text \<open>The part of the player at \<open>k\<close>, whose \<open>read\<close> finds the end or fails while nobody has won.\<close>

lemma half_leaves:
  assumes "duelWinner a = 0" "fst (server_read (length (ar_buffer a) - 1) k (ar_buffer a) s) \<le> 0" "alive pl s"
  obtains b s1 where "duel_half env a k pl nm opp s = Some (True, b, s1)" "calm s s1" "length b = length (ar_buffer a)"
    "\<And>j. j \<noteq> k \<Longrightarrow> ins s1 j = ins s j" "\<And>q. alive q s \<Longrightarrow> alive q s1"
proof -
  obtain n b s0 where rd: "server_read (length (ar_buffer a) - 1) k (ar_buffer a) s = (n, b, s0)" by (metis prod_cases3)
  have q: "silent s s0" by (rule quiet_talk(4) [OF rd])
  have len: "length b = length (ar_buffer a)"
    using rd sock_read_le [of "length (ar_buffer a) - 1" "ins s k"] by (auto simp: server_read_def overwrite_def Let_def split: prod.splits)
  have "alive p s0" if "alive p s" for p using that quiet_core [OF q] alive_core by metis
  moreover from this assms(3) have "alive pl s0" by blast
  then obtain s1 where s1: "setDuelState pl 0 s0 = Some s1" using setDuelState_total by (force simp: alive_def)
  moreover have "ins s0 j = ins s j" if "j \<noteq> k" for j
    using rd that by (auto simp: server_read_def Let_def split: prod.splits)
  ultimately show thesis
    using that [of b s1] assms(1,2) rd len calm_trans [OF silent_calm [OF q] calm_setDuelState [OF s1]]
      setDuelState_ins [OF s1] alive_setDuelState [OF s1]
    by (simp add: duel_half_def handleDuelSocketMessage_def)
qed

text \<open>The part of the other one, who sends something when there is a winner.\<close>

lemma half_lost:
  assumes "duelWinner a \<noteq> 0" "2 \<le> length (ar_buffer a)" "ins s k = Data bs # es" "bs \<noteq> []" "alive pl s"
  obtains b s2 t where "duel_half env a k pl nm opp s = Some (True, b, s2)"
    "sendJsonStatus k GO_TO_USER_MENU (Some LOST) s = Some t" "outs s2 = outs t"
proof -
  obtain n b s1 where rd: "server_read (length (ar_buffer a) - 1) k (ar_buffer a) s = (n, b, s1)" "0 < n"
    "users_heap s1 = users_heap s" "outs s1 = outs s"
    using read_data [of s k bs es "length (ar_buffer a) - 1"] assms(2-4) by force
  have "\<exists>s'. sendJsonStatus k GO_TO_USER_MENU (Some LOST) r = Some s'" for r
    using reply_total [of GO_TO_USER_MENU LOST k r] by (auto simp: LOST_def no_nul_def)
  then obtain s3 t where st: "sendJsonStatus k GO_TO_USER_MENU (Some LOST) s1 = Some s3"
    "sendJsonStatus k GO_TO_USER_MENU (Some LOST) s = Some t" by meson
  have out: "outs s3 = outs t"
    using st rd(4) by (auto simp: sendJsonStatus_def sendJson_def send_bytes_def Let_def split: bind_splits)
  have "core s3 = core s1" by (rule quiet_core [OF silent_status [OF st(1)]])
  then have "alive pl s3" using assms(5) rd(3) alive_core by (metis alive_def)
  then obtain s4 where s4: "setDuelState pl 0 s3 = Some s4" using setDuelState_total by (force simp: alive_def)
  have "outs s4 = outs t" using s4 out by (auto simp: setDuelState_def update_user_def split: option.splits)
  then show thesis using that [of b s4 t] rd(1,2) st s4 assms(1) by (simp add: duel_half_def)
qed

text \<open>C38: whoever leaves first is taken for the winner, the first player (\<open>one\<close>) as well as the second. In a duel that
  nobody has won, a player whose \<open>read\<close> finds the connection closed or fails is recorded as the winner
  (\<open>duelWinner\<close> is his number); the opponent, who is still playing, gets the answer \<open>LOST\<close> to the next thing he
  sends, and the duel is over for him too. No rating moves: not in that round, nor in any that follows, whatever
  the opponent sends.\<close>

theorem duel_leaver_declared_winner:
  assumes "duel_ready a s" "p1InDuel a" "p2InDuel a" "duelWinner a = 0" "2 \<le> length (ar_buffer a)"
    and "k = (if one then du_socket1 (ar_duel a) else du_socket2 (ar_duel a))"
    and "k' = (if one then du_socket2 (ar_duel a) else du_socket1 (ar_duel a))" "k' \<noteq> k"
    and "fst (server_read (length (ar_buffer a) - 1) k (ar_buffer a) s) \<le> 0"
    and "ins s k' = Data bs # es" "bs \<noteq> []"
  shows "\<exists>a1 s1. duel_round env (Ready one (\<not> one)) a s = Some (Some a1, s1) \<and> duelWinner a1 = (if one then 1 else 2)
    \<and> p1InDuel a1 = (\<not> one) \<and> p2InDuel a1 = one \<and> calm s s1
    \<and> (\<exists>a2 s2 t. duel_round env (Ready (\<not> one) one) a1 s1 = Some (Some a2, s2)
         \<and> \<not> p1InDuel a2 \<and> \<not> p2InDuel a2 \<and> duelWinner a2 = duelWinner a1
         \<and> sendJsonStatus k' GO_TO_USER_MENU (Some LOST) s1 = Some t \<and> outs s2 = outs t)
    \<and> (\<forall>sels n s'. duel_loop env sels a1 s1 = Some (n, s') \<longrightarrow> calm s s')"
proof -
  have fd: "fd_ok (du_socket1 (ar_duel a))" "fd_ok (du_socket2 (ar_duel a))"
    and al: "alive (ar_player1 a) s" "alive (ar_player2 a) s"
    using assms(1) by (simp_all add: duel_ready_def)
  define pl where "pl = (if one then ar_player1 a else ar_player2 a)"
  define pl' where "pl' = (if one then ar_player2 a else ar_player1 a)"
  let ?n1 = "fst (duel_names (ar_duel a))" and ?n2 = "snd (duel_names (ar_duel a))"
  have "alive pl s" using al by (simp add: pl_def)
  then obtain b s1 where h: "duel_half env a k pl (if one then ?n1 else ?n2) (if one then ?n2 else ?n1) s = Some (True, b, s1)"
    "calm s s1" "length b = length (ar_buffer a)" "\<And>j. j \<noteq> k \<Longrightarrow> ins s1 j = ins s j" "\<And>q. alive q s \<Longrightarrow> alive q s1"
    by (rule half_leaves [OF assms(4,9)]) (rule that)
  define a1 where "a1 = a\<lparr>p1InDuel := \<not> one, p2InDuel := one, duelWinner := (if one then 1 else 2), ar_buffer := b\<rparr>"
  have r1: "duel_round env (Ready one (\<not> one)) a s = Some (Some a1, s1)"
    using assms(2-4,6) fd h(1) by (cases one) (simp_all add: duel_round_def duel_half1_def duel_half2_def a1_def pl_def)
  have w: "duelWinner a1 \<noteq> 0" "2 \<le> length (ar_buffer a1)" "alive pl' s1" "ins s1 k' = Data bs # es"
    using assms(5,8,10) h(3,4,5) al by (simp_all add: a1_def pl'_def)
  obtain b2 s2 t where l: "duel_half env a1 k' pl' (if one then ?n2 else ?n1) (if one then ?n1 else ?n2) s1 = Some (True, b2, s2)"
    "sendJsonStatus k' GO_TO_USER_MENU (Some LOST) s1 = Some t" "outs s2 = outs t"
    by (rule half_lost [OF w(1,2,4) assms(11) w(3)]) (rule that)
  define a2 where "a2 = a1\<lparr>p1InDuel := False, p2InDuel := False, ar_buffer := b2\<rparr>"
  have "duel_round env (Ready (\<not> one) one) a1 s1 = Some (Some a2, s2)"
    using assms(2,3,7) fd l(1) by (cases one) (simp_all add: duel_round_def duel_half1_def duel_half2_def a1_def a2_def pl'_def)
  moreover have "\<not> p1InDuel a2 \<and> \<not> p2InDuel a2 \<and> duelWinner a2 = duelWinner a1" by (simp add: a2_def)
  moreover have "duelWinner a1 = (if one then 1 else 2) \<and> p1InDuel a1 = (\<not> one) \<and> p2InDuel a1 = one" by (simp add: a1_def)
  moreover have "\<forall>sels n s'. duel_loop env sels a1 s1 = Some (n, s') \<longrightarrow> calm s s'"
    using calm_trans [OF h(2) duel_loop_calm [OF _ w(1)]] by blast
  ultimately show ?thesis using r1 l(2,3) h(2) by blast
qed

section \<open>A challenge that outlives its author\<close>

lemma sendStatus_total: "int_range st \<Longrightarrow> \<exists>s'. sendStatus k st s = Some s' \<and> duels s' = duels s"
  using sendJson_total [OF wf_status, of st k s]
  by (auto simp: sendStatus_def sendJson_def send_bytes_def split: bind_splits)

lemma getUserSocket_absent: "users_inv s \<Longrightarrow> nm \<notin> fst ` set (sessions s) \<Longrightarrow> getUserSocket nm s = Some (-1)"
proof -
  assume a: "users_inv s" "nm \<notin> fst ` set (sessions s)"
  then have "find_index (\<lambda>x. fst x = nm) (sessions s) = None" by auto
  then show ?thesis using user_loop_sessions [OF a(1), of nm] by (simp add: getUserSocket_def del: find_index_None)
qed

text \<open>C39: a challenge that outlives its author leads to undefined behaviour. When the author of a
  pending challenge has gone (leaving without \<open>LOGOUT\<close> does not remove it), a request of the
  challenged user to duel him is still a match: a duel is created on descriptor -1, and the first
  iteration of its thread, if it gets there, calls \<open>FD_SET(-1, ...)\<close>.\<close>

theorem stale_challenge_undefined:
  assumes "users_inv s" "challenges_inv s" "users_heap s (c_user c) = Some u" "terminated 100 (us_username u)"
    and "opp = json_get_string json ''opponent''" "no_nul opp" "length opp < 100"
    and "(opp, user_string u) \<in> set (queue s)" "opp \<notin> fst ` set (sessions s)"
  shows "\<exists>s' d. handle_duel json c s = Some (Again, c, s') \<and> duels s' = duels s @ [d] \<and> du_socket2 d = -1
    \<and> (\<forall>env buf sel a s2. duel_begin env d buf s' = Some (Inr a, s2) \<longrightarrow> duel_round env sel a s2 = None)"
proof -
  let ?me = "user_string u"
  have me: "length ?me < 100" using assms(4) by (simp add: user_string_def length_c_str_terminated)
  obtain i where "find_index (challenge_between opp ?me) (pending s) = Some i"
    using queue_member assms(8) by (metis option.exhaust)
  note m = challenge_match [OF assms(2) this]
  define s1 where "s1 = drop_challenge i s"
  obtain s2 where s2: "sendStatus (c_socket c) GO_TO_DUEL_MENU s1 = Some s2" "duels s2 = duels s1"
    using sendStatus_total [of GO_TO_DUEL_MENU] by (auto simp: int_range_def)
  note si = silent_inv [OF quiet_talk(3) [OF s2(1)]]
  have gs: "getUserSocket opp s2 = Some (-1)"
    using assms(1,9) si by (intro getUserSocket_absent) (simp_all add: s1_def)
  obtain p1 where p1: "strcpy (take 100 (drop 8 (malloc s2 208))) ?me = Some p1"
    using strcpy_fits [of ?me "take 100 (drop 8 (malloc s2 208))"] me by auto
  obtain p2 where p2: "strcpy (take 100 (drop 108 (malloc s2 208))) opp = Some p2"
    using strcpy_fits [of opp "take 100 (drop 108 (malloc s2 208))"] assms(7) by auto
  have "users_heap s2 (c_user c) = Some u" using si(1) assms(3) by (simp add: s1_def drop_challenge_def)
  then obtain s3 where s3: "update_user (c_user c) (\<lambda>u. u\<lparr>us_duelRequest := 1\<rparr>) s2 = Some s3" "duels s3 = duels s2"
    by (simp add: update_user_def)
  obtain s4 where s4: "sendStatus (-1) GO_TO_DUEL_MENU s3 = Some s4" "duels s4 = duels s3"
    using sendStatus_total [of GO_TO_DUEL_MENU] by (auto simp: int_range_def)
  define d where "d = \<lparr>du_socket1 = c_socket c, du_socket2 = -1, du_player1 = p1, du_player2 = p2\<rparr>"
  have hd: "handle_duel json c s = Some (Again, c, s4\<lparr>duels := duels s4 @ [d]\<rparr>)"
    using assms(3) m(1) s2(1) gs p1 p2 s3(1) s4(1) by (simp add: handle_duel_def Let_def assms(5) [symmetric] s1_def d_def)
  have "duel_round env sel a t' = None" if b: "duel_begin env d buf t = Some (Inr a, t')" for env buf sel a t t'
  proof -
    have "ar_duel a = d" "p2InDuel a" using b by (auto simp: duel_begin_def split: bind_splits option.splits)
    then show ?thesis by (simp add: duel_round_def d_def fd_ok_def)
  qed
  moreover have "duels s4 = duels s" using s2(2) s3(2) s4(2) by (simp add: s1_def drop_challenge_def)
  ultimately show ?thesis using hd by (intro exI [of _ "s4\<lparr>duels := duels s4 @ [d]\<rparr>"] exI [of _ d]) (simp add: d_def)
qed

section \<open>Concrete duels\<close>

text \<open>Ann and Bob are logged in on the descriptors 4 and 5 and duel.\<close>

definition demo_state :: "(int \<Rightarrow> event list) \<Rightarrow> server" where
  "demo_state input = (with_users [online_user ''ann'' 4, online_user ''bob'' 5] idle)\<lparr>ins := input\<rparr>"

definition demo_arena :: arena where
  "demo_arena = \<lparr>ar_duel = \<lparr>du_socket1 = 4, du_socket2 = 5, du_player1 = char_array ''ann'', du_player2 = char_array ''bob''\<rparr>,
     ar_problem = \<lparr>pr_id = 1, pr_title = char_array ''Echo'', pr_difficulty = 0, pr_visibility = 1\<rparr>,
     ar_player1 = Some 0, ar_player2 = Some 1, p1InDuel = True, p2InDuel = True, duelWinner = 0,
     ar_buffer = replicate 1024 (CHR ''?'')\<rparr>"

definition demo_env :: duel_env where
  "demo_env = \<lparr>du_judge = echo_env, du_pow = (\<lambda>x y. if y = 0 then 1 else x), du_rand = (\<lambda>_. 0)\<rparr>"

lemma demo_ready: "judge_ok (du_judge demo_env)" "duel_ready demo_arena (demo_state i)"
    "duel_names (ar_duel demo_arena) = (''ann'', ''bob'')" "p1InDuel demo_arena" "p2InDuel demo_arena"
    "duelWinner demo_arena = 0" "du_socket1 (ar_duel demo_arena) = 4" "du_socket2 (ar_duel demo_arena) = 5"
    "ins (demo_state i) = i"
proof -
  have "CHR 0x00 \<in> set (char_array ''Echo'')" by (simp add: char_array_def)
  then show "judge_ok (du_judge demo_env)" "duel_ready demo_arena (demo_state i)"
    "duel_names (ar_duel demo_arena) = (''ann'', ''bob'')" "p1InDuel demo_arena" "p2InDuel demo_arena"
    "duelWinner demo_arena = 0" "du_socket1 (ar_duel demo_arena) = 4" "du_socket2 (ar_duel demo_arena) = 5"
    "ins (demo_state i) = i"
    by (simp_all add: demo_env_def echo_env_def judge_ok_def wait_ok_def duel_ready_def demo_arena_def fd_ok_def
        problem_ok_def duel_names_def alive_def demo_state_def with_users_def no_nul_def int_range_def)
qed

lemma demo_round: "\<exists>n s'. duel_loop demo_env [sel] demo_arena (demo_state i) = Some (n, s')"
proof -
  obtain n s' where "duel_round demo_env sel demo_arena (demo_state i) = Some (n, s')"
    using duel_round_total [OF demo_ready(1,2)] by blast
  then show ?thesis by (cases n) simp_all
qed

theorem duel_one_exchange_witness:
  "\<exists>n s'. duel_loop demo_env [Ready True True] demo_arena (demo_state (\<lambda>_. [Data ''{\"op\":14}''])) = Some (n, s')
     \<and> (calm (demo_state (\<lambda>_. [Data ''{\"op\":14}''])) s'
        \<or> exchanged (du_pow demo_env) ''ann'' ''bob'' (demo_state (\<lambda>_. [Data ''{\"op\":14}''])) s')"
proof -
  obtain n s' where l: "duel_loop demo_env [Ready True True] demo_arena (demo_state (\<lambda>_. [Data ''{\"op\":14}''])) = Some (n, s')"
    using demo_round by blast
  then show ?thesis using duel_one_exchange [OF l] by (simp add: demo_ready(3))
qed

theorem duel_end_releases_witness:
  "\<exists>s'. duel_loop demo_env [Ready True True, Ready True True] demo_arena (demo_state (\<lambda>_. [])) = Some (None, s')
     \<and> released s' (Some 0) \<and> released s' (Some 1)"
proof -
  obtain s' where l: "duel_loop demo_env [Ready True True, Ready True True] demo_arena (demo_state (\<lambda>_. [])) = Some (None, s')"
  proof -
    obtain s1 where s1: "setDuelState (Some 0) 0 (demo_state (\<lambda>_. [])) = Some s1" "ins s1 = (\<lambda>_. [])"
      by (simp add: setDuelState_def update_user_def demo_state_def with_users_def)
    then obtain s2 where s2: "setDuelState (Some (Suc 0)) 0 s1 = Some s2"
      by (auto simp: setDuelState_def update_user_def demo_state_def with_users_def)
    show ?thesis
      by (rule that [of s2]) (simp add: duel_round_def duel_half1_def duel_half2_def duel_half_def
          handleDuelSocketMessage_def read_closed demo_ready s1 s2, simp add: demo_arena_def s2 fd_ok_def s1 read_closed duel_round_def)
  qed
  have "ar_player1 demo_arena = Some 0" "ar_player2 demo_arena = Some 1" by (simp_all add: demo_arena_def)
  then show ?thesis using l duel_end_releases [OF l] demo_ready(4,5) by auto
qed

theorem duel_ends_witness:
  "\<exists>s'. duel_loop demo_env [Interrupted, Ready True True, Ready True True] demo_arena (demo_state (\<lambda>_. [])) = Some (None, s')"
proof (rule duel_ends [OF demo_ready(1,2)])
  show "selects demo_env [Interrupted, Ready True True, Ready True True] demo_arena (demo_state (\<lambda>_. []))"
    using demo_ready(4) by (auto simp: productive_def split: option.split)
qed (simp add: duel_pending_def demo_ready weight_def)

theorem duel_leaver_declared_winner_witness:
  "\<exists>a1 s1. duel_round demo_env (Ready False True) demo_arena (demo_state ((\<lambda>_. [])(4 := [Data ''{\"op\":12}'']))) = Some (Some a1, s1)
     \<and> duelWinner a1 = 2 \<and> p1InDuel a1
     \<and> (\<exists>a2 s2. duel_round demo_env (Ready True False) a1 s1 = Some (Some a2, s2) \<and> \<not> p1InDuel a2)"
proof -
  let ?s = "demo_state ((\<lambda>_. [])(4 := [Data ''{\"op\":12}'']))"
  have "2 \<le> length (ar_buffer demo_arena)" "5 = (if False then du_socket1 (ar_duel demo_arena) else du_socket2 (ar_duel demo_arena))"
    "4 = (if False then du_socket2 (ar_duel demo_arena) else du_socket1 (ar_duel demo_arena))" "(4 :: int) \<noteq> 5"
    "fst (server_read (length (ar_buffer demo_arena) - 1) 5 (ar_buffer demo_arena) ?s) \<le> 0"
    "ins ?s 4 = [Data ''{\"op\":12}'']"
    by (simp_all add: demo_ready read_closed) (simp add: demo_arena_def)
  from duel_leaver_declared_winner [OF demo_ready(2,4,5,6) this] show ?thesis by fastforce
qed

definition demo_conn :: "bytes \<Rightarrow> int \<Rightarrow> nat \<Rightarrow> conn" where
  "demo_conn nm k p = \<lparr>c_user = p, c_socket = k, c_username = char_array nm, c_password = char_array [],
     c_buffer = replicate 1000 (CHR 0x00), c_result = replicate 1000 (CHR ''?'')\<rparr>"

text \<open>Ann has challenged Bob and gone; Bob accepts.\<close>

definition stale_state :: server where
  "stale_state = (with_users [online_user ''bob'' 5] idle)\<lparr>activeChallenges := 1, activeChallengesList :=
     Some \<lparr>ch_challenger = char_array ''ann'', ch_target = char_array ''bob''\<rparr> # replicate (MAX_CHALLENGES - 1) None\<rparr>"

theorem stale_challenge_undefined_witness:
  "\<exists>s' d. handle_duel (Some (cJSON_Object [(''op'', cJSON_Number 10), (''opponent'', cJSON_String ''ann'')]))
       (demo_conn ''bob'' 5 0)
       stale_state = Some (Again, demo_conn ''bob'' 5 0, s')
     \<and> duels s' = [d] \<and> du_socket2 d = -1"
proof -
  let ?json = "Some (cJSON_Object [(''op'', cJSON_Number 10), (''opponent'', cJSON_String ''ann'')])"
  let ?c = "(demo_conn ''bob'' 5 0)"
  let ?us = "[online_user ''bob'' 5]"
  have u: "session_ok (Some (online_user ''bob'' 5)) \<and> c_str (us_username (online_user ''bob'' 5)) = ''bob''"
    by (intro online_user_ok; simp add: no_nul_def)
  have wu: "users_inv (with_users ?us idle)" "sessions (with_users ?us idle) = [(''bob'', 0)]"
    using u with_users_inv(1,2) [of ?us idle] by (simp_all add: MAX_USERS_def)
  have inv: "users_inv stale_state" "sessions stale_state = [(''bob'', 0)]"
    using wu by (simp_all add: stale_state_def users_inv_def sessions_def active_def name_of_def)
  have ch: "challenges_inv stale_state" "queue stale_state = [(''ann'', ''bob'')]"
    by (simp_all add: stale_state_def challenges_inv_def slots_ok_def queue_def pending_def slot_items_def
        names_of_def MAX_CHALLENGES_def no_nul_def nth_Cons')
  have heap: "users_heap stale_state (c_user ?c) = Some (online_user ''bob'' 5)"
    by (simp add: stale_state_def with_users_def demo_conn_def)
  have opp: "''ann'' = json_get_string ?json ''opponent''" by code_simp
  have t: "terminated 100 (us_username (online_user ''bob'' 5))" using u by (simp add: session_ok_def)
  have "\<exists>s' d. handle_duel ?json ?c stale_state = Some (Again, ?c, s') \<and> duels s' = duels stale_state @ [d]
      \<and> du_socket2 d = -1 \<and> (\<forall>env buf sel a s2. duel_begin env d buf s' = Some (Inr a, s2) \<longrightarrow> duel_round env sel a s2 = None)"
    by (rule stale_challenge_undefined [OF inv(1) ch(1) heap t opp])
      (use u ch(2) inv(2) in \<open>simp_all add: user_string_def no_nul_def\<close>)
  then show ?thesis by (auto simp: stale_state_def with_users_def idle_def)
qed

end
