(* ===== verification/Progress.thy ===== *)
theory Progress
  imports DuelFaults
begin

text \<open>
  A request whose strings fit the arrays they are copied to has defined behaviour: no handler
  follows a dangling pointer, overflows an array or reads past the end of one. Together with
  \<open>good_request\<close> this makes the invariants of the server hold along every run of such requests.
\<close>

section \<open>What a request has to satisfy\<close>

text \<open>The four strings that are copied into arrays of 100 bytes, the page number that the two page
  requests turn into a file offset, and, for a duel, the name of the user: it is only written by a
  login.\<close>

definition request_fits :: "cJSON option \<Rightarrow> User \<Rightarrow> bool" where
  "request_fits json u \<longleftrightarrow>
     (\<forall>key \<in> {''username'', ''password'', ''title'', ''opponent''}. length (json_get_string json key) < 100)
     \<and> (json_get_int json ''op'' \<in> {VIEW_ALL_PROBLEMS, VIEW_FULL_LEADERBOARD} \<longrightarrow>
          1 \<le> json_get_int json ''page'' \<and> json_get_int json ''page'' < 2 ^ 28)
     \<and> (json_get_int json ''op'' = DUEL_USER \<longrightarrow> terminated 100 (us_username u))"

lemma request_fitsD:
  assumes "request_fits json u"
  shows "length (json_get_string json ''username'') < 100" "length (json_get_string json ''password'') < 100"
    "length (json_get_string json ''title'') < 100" "length (json_get_string json ''opponent'') < 100"
  using assms by (simp_all add: request_fits_def)

section \<open>The rows that the replies print\<close>

lemma problem_row_ok: "problems_ok s \<Longrightarrow> p \<in> set (problem_rows s) \<Longrightarrow> wf_Problem p"
  using problem_file.okD(3) [of s p] by (simp add: problems_ok_def problem_rows_def)

lemma entry_row_ok: "leaderboard_ok s \<Longrightarrow> e \<in> set (leaderboard_rows s) \<Longrightarrow> wf_LeaderboardEntry e"
  using leaderboard_file.okD(3) [of s e] by (simp add: leaderboard_ok_def leaderboard_rows_def wf_entry_def)

lemma problem_found: "tables_inv s \<Longrightarrow> getProblem k s = Some p \<Longrightarrow> wf_Problem p"
  using problems.get_Some_iff [of s k p] problem_row_ok by (auto simp: tables_inv_def problems_part_def)

lemma entry_found: "tables_inv s \<Longrightarrow> getLeaderboardEntry k s = Some e \<Longrightarrow> wf_LeaderboardEntry e"
  using leaderboard.get_Some_iff [of s k e] entry_row_ok by (auto simp: tables_inv_def board_part_def)

lemma title_read: "wf_Problem p \<Longrightarrow> str_at (drop 4 (enc_Problem p)) = Some (c_str (drop 4 (enc_Problem p)))"
  by (auto simp: str_at_def enc_Problem_def wf_Problem_def terminated_def)

lemma name_read: "wf_LeaderboardEntry e \<Longrightarrow> str_at (enc_LeaderboardEntry e) = Some (c_str (enc_LeaderboardEntry e))"
  by (auto simp: str_at_def enc_LeaderboardEntry_def wf_LeaderboardEntry_def terminated_def)

lemma no_nul_read: "CHR 0x00 \<notin> set (c_str m)"
  using no_nul_c_str [of m] by (simp add: no_nul_def)

lemma problem_json_ok: "wf_Problem p \<Longrightarrow> \<exists>j. problem_json p = Some j \<and> wf_json j"
  by (auto simp: problem_json_def title_read json_build no_nul_read wf_Problem_def no_nul_def)

lemma entry_json_ok: "wf_LeaderboardEntry e \<Longrightarrow> \<exists>j. entry_json e = Some j \<and> wf_json j"
  by (auto simp: entry_json_def name_read json_build no_nul_read wf_LeaderboardEntry_def no_nul_def)

lemma json_array_ok:
  assumes "\<forall>r \<in> set rs. \<exists>j. f r = Some j \<and> wf_json j" "wf_json (cJSON_Array js)"
  shows "\<exists>js'. json_array f (cJSON_Array js) rs = Some (cJSON_Array js') \<and> wf_json (cJSON_Array js')"
  using assms
proof (induction rs arbitrary: js)
  case (Cons r rs)
  obtain j where j: "f r = Some j" "wf_json j" using Cons.prems(1) by auto
  then have "wf_json (cJSON_Array (js @ [j]))" using Cons.prems(2) by auto
  then show ?case using Cons.IH [of "js @ [j]"] Cons.prems(1) j by (auto simp: cJSON_AddItemToArray_def)
qed simp

lemma page_reply_ok:
  assumes "\<forall>r \<in> set rs. \<exists>j. f r = Some j \<and> wf_json j" "length rs < 2 ^ 31" "no_nul name"
  shows "\<exists>j. page_reply name f (Some rs) = Some j \<and> wf_json j"
proof -
  obtain js where "json_array f cJSON_CreateArray rs = Some (cJSON_Array js)" "wf_json (cJSON_Array js)"
    using json_array_ok [OF assms(1), of "[]"] by (auto simp: cJSON_CreateArray_def)
  moreover have "int_range (int (length rs))" using assms(2) by (simp add: int_range_def)
  ultimately show ?thesis using assms(3)
    by (auto simp: page_reply_def json_build int_range_def no_nul_def intro: exI [of _ "int (length rs)"])
qed

section \<open>Every handler\<close>

lemma sendJson_Some: "wf_json j \<Longrightarrow> (\<And>s'. sendJson k j s = Some s' \<Longrightarrow> \<exists>r. f s' = Some r) \<Longrightarrow> \<exists>r. sendJson k j s \<bind> f = Some r"
  using sendJson_total [of j k s] by auto

lemma sendStatus_Some: "int_range st \<Longrightarrow> (\<And>s'. sendStatus k st s = Some s' \<Longrightarrow> \<exists>r. f s' = Some r) \<Longrightarrow> \<exists>r. sendStatus k st s \<bind> f = Some r"
  using sendStatus_total [of st k s] by auto

lemma small_codes [simp]: "int_range SUCCESS" "int_range FAILURE" "int_range GO_TO_DUEL_MENU" "int_range GO_TO_DUEL_WAITING_MENU"
  by (simp_all add: int_range_def)

lemma pages_total:
  assumes "tables_inv s" "request_fits json u"
  shows "json_get_int json ''op'' = VIEW_ALL_PROBLEMS \<Longrightarrow> \<exists>r. handle_view_all json c s = Some r"
    "json_get_int json ''op'' = VIEW_FULL_LEADERBOARD \<Longrightarrow> \<exists>r. handle_leaderboard json c s = Some r"
    "\<exists>r. handle_specific_elo json c s = Some r"
proof -
  let ?page = "json_get_int json ''page''" and ?mf = "Some (\<lambda>r. matchProblemVisibility r PROBLEM_VISIBLE)"
  have ok: "problems_ok s" "leaderboard_ok s"
    using assms(1) by (simp_all add: tables_inv_def problems_part_def board_part_def)
  have page: "1 \<le> ?page" "?page < 2 ^ 28"
    if "json_get_int json ''op'' = VIEW_ALL_PROBLEMS \<or> json_get_int json ''op'' = VIEW_FULL_LEADERBOARD"
    using assms(2) that by (auto simp: request_fits_def)
  show "\<exists>r. handle_view_all json c s = Some r" if op: "json_get_int json ''op'' = VIEW_ALL_PROBLEMS"
  proof -
    define rows where "rows = take 3 (filter (page_match ?mf) (drop (nat (?page - 1) * 3) (table_rows ''problems.dat'' 112 s)))"
    have pg: "getRecordPage ''problems.dat'' 112 ?page 3 ?mf s = Some rows"
      using getRecordPage_spec [of "''problems.dat''" 112 s ?page 3 ?mf] page op problem_file.okD(1,2) [of s] ok(1)
      by (simp add: rows_def problems_ok_def)
    have "\<forall>p \<in> set (map dec_Problem rows). wf_Problem p"
      using problem_row_ok [OF ok(1)]
      by (auto simp: rows_def problem_rows_def typed_rows_def dest!: in_set_takeD in_set_dropD)
    moreover have "length rows \<le> 3" by (simp add: rows_def)
    ultimately obtain j where "page_reply ''problems'' problem_json (Some (map dec_Problem rows)) = Some j" "wf_json j"
      using page_reply_ok [of "map dec_Problem rows" problem_json "''problems''"] problem_json_ok by (auto simp: no_nul_def)
    then show ?thesis using sendJson_total [of j "c_socket c" s] pg by (auto simp: handle_view_all_def)
  qed
  show "\<exists>r. handle_leaderboard json c s = Some r" if op: "json_get_int json ''op'' = VIEW_FULL_LEADERBOARD"
  proof -
    define rows where "rows = take 5 (filter (page_match None) (drop (nat (?page - 1) * 5) (table_rows ''leaderboard.dat'' 104 s)))"
    have pg: "getRecordPage ''leaderboard.dat'' 104 ?page 5 None s = Some rows"
      using getRecordPage_spec [of "''leaderboard.dat''" 104 s ?page 5 None] page op leaderboard_file.okD(1,2) [of s] ok(2)
      by (simp add: rows_def leaderboard_ok_def)
    have "\<forall>p \<in> set (map dec_LeaderboardEntry rows). wf_LeaderboardEntry p"
      using entry_row_ok [OF ok(2)]
      by (auto simp: rows_def leaderboard_rows_def typed_rows_def dest!: in_set_takeD in_set_dropD)
    moreover have "length rows \<le> 5" by (simp add: rows_def)
    ultimately obtain j where "page_reply ''entries'' entry_json (Some (map dec_LeaderboardEntry rows)) = Some j" "wf_json j"
      using page_reply_ok [of "map dec_LeaderboardEntry rows" entry_json "''entries''"] entry_json_ok by (auto simp: no_nul_def)
    then show ?thesis using sendJson_total [of j "c_socket c" s] pg by (auto simp: handle_leaderboard_def)
  qed
  show "\<exists>r. handle_specific_elo json c s = Some r"
  proof (cases "getLeaderboardEntry (json_get_string json ''username'') s")
    case None
    then show ?thesis using sendJson_total [OF wf_status, of FAILURE "c_socket c" s] by (auto simp: handle_specific_elo_def)
  next
    case (Some e)
    note w = entry_found [OF assms(1) Some]
    define j where "j = cJSON_AddNumberToObject (cJSON_AddStringToObject (status_json SUCCESS) ''username'' (c_str (enc_LeaderboardEntry e)))
            ''elo'' (le_elo e)"
    have "wf_json j" using w by (auto simp: j_def json_build no_nul_read wf_LeaderboardEntry_def no_nul_def int_range_def)
    then show ?thesis using sendJson_total [of j "c_socket c" s] Some name_read [OF w]
      by (auto simp: handle_specific_elo_def j_def)
  qed
qed

lemma credentials:
  assumes "conn_ok c" "request_fits json u"
  shows "\<exists>un pw. strcpy (c_username c) (json_get_string json ''username'') = Some un
    \<and> strcpy (c_password c) (json_get_string json ''password'') = Some pw
    \<and> no_nul (c_str un) \<and> length (c_str un) < 100 \<and> no_nul (c_str pw) \<and> length (c_str pw) < 100"
proof -
  have len: "length (c_username c) = 100" "length (c_password c) = 100" using assms(1) by (simp_all add: conn_ok_def)
  obtain un pw where s: "strcpy (c_username c) (json_get_string json ''username'') = Some un"
    "strcpy (c_password c) (json_get_string json ''password'') = Some pw"
    using strcpy_fits [of "json_get_string json ''username''" "c_username c"]
      strcpy_fits [of "json_get_string json ''password''" "c_password c"] len request_fitsD(1,2) [OF assms(2)] by auto
  then show ?thesis using string_of_buffer(1,2) [OF s(1) len(1)] string_of_buffer(1,2) [OF s(2) len(2)] by auto
qed

lemma login_total:
  assumes "ready c s" "request_fits json u"
  shows "\<exists>r. handle_login json c s = Some r"
proof -
  have pre: "system_inv s" "conn_ok c" using assms(1) by (simp_all add: ready_def)
  obtain v where v: "users_heap s (c_user c) = Some v" using assms(1) by (auto simp: ready_def)
  obtain un pw where cr: "strcpy (c_username c) (json_get_string json ''username'') = Some un"
    "strcpy (c_password c) (json_get_string json ''password'') = Some pw"
    "no_nul (c_str un)" "length (c_str un) < 100" "no_nul (c_str pw)" "length (c_str pw) < 100"
    using credentials [OF pre(2) assms(2)] by blast
  obtain st msg s1 u1 where o: "login_outcome (c_str un) (c_str pw) (c_user c) s = Some (st, msg, s1)" "system_inv s1"
    "no_nul msg" "st = SUCCESS \<or> st = FAILURE" "users_heap s1 (c_user c) = Some u1"
    using login_outcome_cases [OF pre(1) v cr(3,4), of "c_str pw"] by (auto split: if_splits)
  have "int_range (us_privilege u1)" using heap_invD [of s1 "c_user c" u1] o(2,5) by (simp add: system_inv_def)
  then have "wf_json (login_json st (us_privilege u1) msg)" using o(3,4) by (intro wf_replies(2)) auto
  then show ?thesis using sendJson_total [of "login_json st (us_privilege u1) msg" "c_socket c" s1] cr(1,2) o(1,5)
    by (auto simp: handle_login_def)
qed

lemma signup_total:
  assumes "ready c s" "tables_room s" "request_fits json u"
  shows "\<exists>r. handle_signup json c s = Some r"
proof -
  have pre: "system_inv s" "conn_ok c" using assms(1) by (simp_all add: ready_def)
  obtain v where v: "users_heap s (c_user c) = Some v" using assms(1) by (auto simp: ready_def)
  obtain un pw where cr: "strcpy (c_username c) (json_get_string json ''username'') = Some un"
    "strcpy (c_password c) (json_get_string json ''password'') = Some pw"
    "no_nul (c_str un)" "length (c_str un) < 100" "no_nul (c_str pw)" "length (c_str pw) < 100"
    using credentials [OF pre(2) assms(3)] by blast
  obtain st msg s1 where o: "signup_outcome (c_str un) (c_str pw) (c_user c) s = Some (st, msg, s1)"
    "no_nul msg" "st = SUCCESS \<or> st = FAILURE"
    using signup_outcome_cases [OF pre(1) assms(2) v cr(3-6)] by (auto split: if_splits)
  then have "wf_json (message_json st msg)" by (intro wf_replies(1)) auto
  then show ?thesis using sendJson_total [of "message_json st msg" "c_socket c" s1] cr(1,2) o(1)
    by (auto simp: handle_signup_def)
qed

lemma leave_total:
  assumes "ready c s"
  shows "\<exists>r. handle_logout c s = Some r" "\<exists>r. handle_disconnect c s = Some r"
proof -
  have pre: "users_inv s" "challenges_inv s" using assms by (simp_all add: ready_def system_inv_def)
  obtain v where v: "users_heap s (c_user c) = Some v" using assms by (auto simp: ready_def)
  obtain q s1 where d: "removeDuelRequest (user_string v) s = (q, s1)" by (metis surj_pair)
  note df = removeDuelRequest_frame [OF d pre(2)]
  have reply: "\<exists>s'. sendJson k (message_json st m) t = Some s'" if "int_range st" "no_nul m" for k st m t
    by (rule sendJson_total [OF wf_replies(1) [OF that]])
  obtain q2 s2 where s2: "removeActiveUser (user_string v) s1 = Some (q2, s2)"
    using active_users.rm_defined [of s1 "user_string v"] df(2) pre(1) by blast
  have "users_heap s2 (c_user c) = Some v" using removeActiveUser_queue [OF s2] df(3) v by simp
  then obtain s3 where s3: "update_user (c_user c) (\<lambda>u. u\<lparr>us_loggedIn := 0\<rparr>) s2 = Some s3" by (simp add: update_user_def)
  obtain s4 where s4: "sendJson (c_socket c) (message_json SUCCESS ''Logout successful'') s3 = Some s4"
    using reply by (force simp: no_nul_def)
  obtain s5 where s5: "sendJson (c_socket c) (message_json FAILURE ''User not logged in'') s = Some s5"
    using reply by (force simp: no_nul_def)
  show "\<exists>r. handle_logout c s = Some r" using v d s2 s3 s4 s5 by (simp add: handle_logout_def)
  obtain q6 s6 where "removeActiveUser (user_string v) s = Some (q6, s6)"
    using active_users.rm_defined [OF pre(1), of "user_string v"] by blast
  then show "\<exists>r. handle_disconnect c s = Some r" using v by (simp add: handle_disconnect_def)
qed

lemma show_problem_total:
  assumes "ready c s"
  shows "\<exists>r. show_problem fs json c s = Some r"
proof -
  have inv: "tables_inv s" using assms by (simp add: ready_def system_inv_def)
  obtain v where v: "users_heap s (c_user c) = Some v" using assms by (auto simp: ready_def)
  have "\<exists>st j. problem_reply v (getProblem (json_get_int json ''id'') s) = Some (st, j) \<and> wf_json j"
  proof (cases "getProblem (json_get_int json ''id'') s")
    case (Some p)
    note w = problem_found [OF inv Some]
    show ?thesis
      using w title_read [OF w]
      by (auto simp: problem_reply_def Some json_build no_nul_read wf_Problem_def no_nul_def int_range_def)
  qed (simp add: problem_reply_def wf_status)
  then obtain st j where j: "problem_reply v (getProblem (json_get_int json ''id'') s) = Some (st, j)" "wf_json j" by blast
  then show ?thesis using v sendJson_total [of j "c_socket c" s] by (auto simp: show_problem_def Let_def)
qed

lemma problem_changes_total:
  assumes "ready c s" "request_fits json u"
  shows "\<exists>r. handle_add_problem json c s = Some r" "\<exists>r. handle_delete_problem json c s = Some r"
    "\<exists>r. handle_update_problem json c s = Some r"
proof -
  let ?k = "json_get_int json ''id''"
  have inv: "tables_inv s" "problems_ok s" using assms(1) by (simp_all add: ready_def system_inv_def tables_inv_def problems_part_def)
  have status: "\<exists>s'. sendStatus (c_socket c) (if b then FAILURE else SUCCESS) t = Some s'" for b t
    using sendStatus_total [of "if b then FAILURE else SUCCESS" "c_socket c" t] by auto
  show "\<exists>r. handle_add_problem json c s = Some r"
  proof -
    obtain t where t: "strcpy (take 100 (drop 4 (malloc s 112))) (json_get_string json ''title'') = Some t"
      using strcpy_fits [of "json_get_string json ''title''" "take 100 (drop 4 (malloc s 112))"] request_fitsD(3) [OF assms(2)] by auto
    obtain ret s1 where a: "addProblem \<lparr>pr_id = ?k, pr_title = t, pr_difficulty = json_get_int json ''difficulty'',
       pr_visibility = PROBLEM_HIDDEN\<rparr> s = (ret, s1)" by (metis surj_pair)
    obtain s2 where s2: "sendStatus (c_socket c) (if ret < 0 then FAILURE else SUCCESS) s1 = Some s2" using status by blast
    then show ?thesis using t a by (auto simp: handle_add_problem_def Let_def split: prod.split)
  qed
  show "\<exists>r. handle_delete_problem json c s = Some r"
  proof -
    obtain ret s1 where a: "deleteProblem ?k s = (ret, s1)" by (metis surj_pair)
    obtain s2 where "sendStatus (c_socket c) (if ret < 0 then FAILURE else SUCCESS) s1 = Some s2" using status by blast
    then show ?thesis using a by (auto simp: handle_delete_problem_def Let_def)
  qed
  show "\<exists>r. handle_update_problem json c s = Some r"
  proof -
    have "\<exists>st s1. update_problem_row ?k (json_get_string json ''title'') (json_get_int json ''difficulty'')
       (json_get_int json ''visibility'') s = Some (st, s1) \<and> (st = SUCCESS \<or> st = FAILURE)"
    proof (cases "getProblem ?k s")
      case (Some p)
      then have "length (pr_title p) = 100" using problem_found [OF inv(1)] by (simp add: wf_Problem_def terminated_def)
      then obtain t where "strcpy (pr_title p) (json_get_string json ''title'') = Some t"
        using strcpy_fits [of "json_get_string json ''title''" "pr_title p"] request_fitsD(3) [OF assms(2)] by auto
      then show ?thesis using Some update_problem_row_eq [OF inv(2)] by simp
    qed (simp add: update_problem_row_eq [OF inv(2)])
    then obtain st s1 where u: "update_problem_row ?k (json_get_string json ''title'') (json_get_int json ''difficulty'')
       (json_get_int json ''visibility'') s = Some (st, s1)" "st = SUCCESS \<or> st = FAILURE" by blast
    obtain s2 where "sendStatus (c_socket c) st s1 = Some s2"
      using sendStatus_total [of st "c_socket c" s1] u(2) by auto
    then show ?thesis using u(1) by (auto simp: handle_update_problem_def Let_def split: prod.split)
  qed
qed

lemma handle_submit_total:
  assumes "ready c s" "judge_ok env"
  shows "\<exists>r. handle_submit env json c s = Some r"
proof -
  let ?k = "json_get_int json ''id''"
  obtain v where v: "users_heap s (c_user c) = Some v" using assms by (auto simp: ready_def)
  define path where "path = ''./tempSolutions/'' @ show_int ?k @ ''_'' @ user_string v @ ''_solution.c''"
  obtain s1 where s1: "sendStatus (c_socket c) SUCCESS s = Some s1" using sendStatus_total [of SUCCESS] by force
  obtain q s2 where s2: "server_receiveFile (c_socket c) path s1 = (q, s2)" by (metis surj_pair)
  obtain res b s3 where j: "submitProblem env ?k (c_result c) path s2 = Some (res, b, s3)" "CHR 0x00 \<in> set b"
    using submit_total [OF assms(2), of "c_result c" ?k path s2] assms(1) by (auto simp: ready_def conn_ok_def)
  obtain s4 where "sendJson (c_socket c) (message_json (if res < 0 then FAILURE else SUCCESS) (c_str b)) s3 = Some s4"
    using sendJson_total [OF wf_replies(1), of "if res < 0 then FAILURE else SUCCESS" "c_str b"] by force
  then show ?thesis
    using v s1 s2 [unfolded path_def] j [unfolded path_def]
    by (simp add: handle_submit_def Let_def str_at_def path_def)
qed

lemma duel_total:
  assumes "ready c s" "users_heap s (c_user c) = Some v" "terminated 100 (us_username v)" "request_fits json u"
  shows "\<exists>r. handle_duel json c s = Some r"
proof -
  let ?me = "user_string v" and ?opp = "json_get_string json ''opponent''"
  have inv: "users_inv s" "challenges_inv s" using assms(1) by (simp_all add: ready_def system_inv_def)
  have len: "length ?me < 100" "length ?opp < 100"
    using assms(3) request_fitsD(4) [OF assms(4)] by (simp_all add: user_string_def length_c_str_terminated)
  have copy: "\<exists>m. strcpy dst x = Some m" if "length dst = 100" "length x < 100" for dst x
    using strcpy_fits [of x dst] that by auto
  have "\<exists>q s1. processDuelRequest ?me ?opp s = Some (q, s1)"
    using copy [of "malloc s 100" ?me] copy [of "malloc s 100" ?opp] len
    by (auto simp: processDuelRequest_def split: option.split)
  then obtain q s1 where q: "processDuelRequest ?me ?opp s = Some (q, s1)" by blast
  note fr = processDuelRequest_frame [OF q inv(2)]
  define st where "st = (if q = MATCH_FOUND then GO_TO_DUEL_MENU
    else if q = ADDED_TO_CHALLENGE_QUEUE then GO_TO_DUEL_WAITING_MENU else FAILURE)"
  have "int_range st" by (simp add: st_def)
  then obtain s2 where s2: "sendStatus (c_socket c) st s1 = Some s2"
    using sendStatus_total [of st "c_socket c" s1] by auto
  note si = silent_inv [OF quiet_talk(3) [OF s2]]
  have inv2: "users_inv s2" using si fr(2) inv(1) by simp
  have "\<exists>k. getUserSocket ?opp s2 = Some k"
  proof (cases "find_index (\<lambda>x. fst x = ?opp) (sessions s2)")
    case None
    then show ?thesis using user_loop_sessions [OF inv2, of ?opp] by (simp add: getUserSocket_def del: find_index_None)
  next
    case (Some i)
    obtain w where "users_heap s2 (active s2 ! i) = Some w"
      using session_live [OF inv2 find_session(2) [OF Some]] by blast
    then show ?thesis using user_loop_sessions [OF inv2, of ?opp] Some by (simp add: getUserSocket_def)
  qed
  then obtain k where k: "getUserSocket ?opp s2 = Some k" by blast
  obtain p1 where p1: "strcpy (take 100 (drop 8 (malloc s2 208))) ?me = Some p1"
    using copy [of "take 100 (drop 8 (malloc s2 208))"] len by force
  obtain p2 where p2: "strcpy (take 100 (drop 108 (malloc s2 208))) ?opp = Some p2"
    using copy [of "take 100 (drop 108 (malloc s2 208))"] len by force
  obtain s3 where s3: "update_user (c_user c) (\<lambda>u. u\<lparr>us_duelRequest := 1\<rparr>) s2 = Some s3"
    using si(1) fr(3) assms(2) by (simp add: update_user_def)
  obtain s4 where "sendStatus k GO_TO_DUEL_MENU s3 = Some s4" using sendStatus_total [of GO_TO_DUEL_MENU] by force
  then show ?thesis
    using assms(2) q s2 k p1 p2 s3 by (simp add: handle_duel_def Let_def st_def [symmetric])
qed

lemma small_total:
  assumes "ready c s"
  shows "\<exists>r. handle_withdraw c s = Some r" "\<exists>r. handle_accepted c s = Some r"
  using assms by (auto simp: ready_def handle_withdraw_def handle_accepted_def update_user_def)

section \<open>Every request\<close>

lemma dispatch_total:
  assumes "ready c s" "tables_room s" "judge_ok env" "users_heap s (c_user c) = Some u" "request_fits json u"
  shows "\<exists>r. dispatch env json c s = Some r"
proof -
  have inv: "tables_inv s" using assms(1) by (simp add: ready_def system_inv_def)
  have duel: "json_get_int json ''op'' = DUEL_USER \<Longrightarrow> \<exists>r. handle_duel json c s = Some r"
    using duel_total [OF assms(1,4) _ assms(5)] assms(5) by (simp add: request_fits_def)
  note total = login_total [OF assms(1,5)] signup_total [OF assms(1,2,5)] leave_total(1) [OF assms(1)]
    problem_changes_total [OF assms(1,5)] show_problem_total [OF assms(1)] pages_total [OF inv assms(5)]
    handle_submit_total [OF assms(1,3)] duel small_total [OF assms(1)]
  show ?thesis
    unfolding dispatch_def Let_def handle_get_problem_def handle_view_problem_def
    by (split if_split, (intro conjI impI)?, (rule total, assumption?)?)+ simp
qed

text \<open>What arrives fits: the bytes leave room for a NUL in the buffer, and the request they parse to
  satisfies \<open>request_fits\<close>.\<close>

definition message_fits :: "conn \<Rightarrow> server \<Rightarrow> bool" where
  "message_fits c s \<longleftrightarrow> (case server_read 1000 (c_socket c) (c_buffer c) s of (n, buf, s1) \<Rightarrow>
     0 < n \<longrightarrow> CHR 0x00 \<in> set buf \<and> (\<forall>u. users_heap s (c_user c) = Some u \<longrightarrow> request_fits (cJSON_Parse (c_str buf)) u))"

lemma serve_total:
  assumes "ready c s" "tables_room s" "judge_ok env" "message_fits c s"
  shows "\<exists>r. serve_request env c s = Some r"
proof -
  obtain u where u: "users_heap s (c_user c) = Some u" using assms(1) by (auto simp: ready_def)
  obtain n buf s1 where rd: "server_read 1000 (c_socket c) (c_buffer c) s = (n, buf, s1)" by (metis prod_cases3)
  define c1 where "c1 = c\<lparr>c_buffer := buf\<rparr>"
  have c1: "ready c1 s1" using ready_read [OF assms(1) rd] by (simp add: c1_def)
  note si = silent_inv [OF quiet_talk(4) [OF rd]]
  have u1: "users_heap s1 (c_user c1) = Some u" using si(1) u by (simp add: c1_def)
  show ?thesis
  proof (cases "n \<le> 0")
    case True
    then show ?thesis using rd leave_total(2) [OF c1] by (simp add: serve_request_def c1_def)
  next
    case False
    then have "CHR 0x00 \<in> set buf" "request_fits (cJSON_Parse (c_str buf)) u"
      using assms(4) u rd by (auto simp: message_fits_def)
    then show ?thesis
      using False rd dispatch_total [OF c1 _ assms(3) u1] assms(2) si(3)
      by (simp add: serve_request_def str_at_def c1_def)
  qed
qed

text \<open>C2: no undefined behaviour, and the invariants are kept. In a state with well-formed arrays, heap and tables, whose tables
  have room (\<open>tables_room\<close>), one round of the loop of a connection is defined, if what the client sends fits
  (\<open>message_fits\<close>): the message ends within the buffer, its four strings are shorter than 100 bytes, the page of a
  request for a page is between 1 and \<open>2 ^ 28 - 1\<close>, the own user name is terminated when the request is a duel; and if the judge
  can create its pipes and wait for its programs (\<open>judge_ok\<close>). No dangling
  \<open>User*\<close> or challenge is followed, no array overflows, no string is read past its end. Afterwards
  the arrays, the heap and the three tables satisfy their invariants, no other connection's \<open>User\<close> has
  changed, and the own one is freed exactly when the connection leaves.\<close>

theorem request_safe:
  assumes "ready c s" "tables_room s" "judge_ok env" "message_fits c s"
  shows "\<exists>f c' s'. handle_request env c s = Some (f, c', s') \<and> system_inv s' \<and> conn_ok c'
    \<and> (\<forall>q. q \<noteq> c_user c \<longrightarrow> users_heap s' q = users_heap s q)
    \<and> (f = Leave \<longleftrightarrow> users_heap s' (c_user c) = None)"
proof -
  obtain u where u: "users_heap s (c_user c) = Some u" using assms(1) by (auto simp: ready_def)
  have "\<exists>r. handle_request env c s = Some r"
    using serve_total [OF assms] u by (cases "us_duelRequest u = 1") (simp_all add: handle_request_def)
  then obtain f c' s' where r: "handle_request env c s = Some (f, c', s')" by (metis prod_cases3)
  then show ?thesis using good_request [OF assms(1,2) r] by (auto simp: good_def split: if_splits)
qed

end
