(* ===== verification/Demo.thy ===== *)
theory Demo
  imports Progress
begin

text \<open>
  A family of concrete servers, with which the properties of requests are applied: some users logged in,
  three tables with given rows, and the input that waits on the sockets.
\<close>

section \<open>A concrete server\<close>

text \<open>Three tables with the given rows, on top of any state.\<close>

definition demo_tables :: "UserRecord list \<Rightarrow> Problem list \<Rightarrow> LeaderboardEntry list \<Rightarrow> 'a os_scheme \<Rightarrow> 'a os_scheme" where
  "demo_tables us ps es s = put_file (db_path ''users.dat'') (db_image (map enc_UserRecord us) [])
     (put_file (db_path ''problems.dat'') (db_image (map enc_Problem ps) [])
       (put_file (db_path ''leaderboard.dat'') (db_image (map enc_LeaderboardEntry es) []) s))"

lemma demo_tables_ok:
  fixes s :: "'a os_scheme"
  assumes "setlkw_ok s" "setlk_ok s" "list_all wf_UserRecord us" "list_all wf_Problem ps" "list_all wf_entry es"
    "distinct (map user_name us)" "distinct (map pr_id ps)" "distinct (map entry_name es)"
    "length us < 1000" "length ps < 1000" "length es < 1000"
  defines "t \<equiv> demo_tables us ps es s"
  shows "tables_inv t" "tables_room t" "user_rows t = us" "problem_rows t = ps" "leaderboard_rows t = es"
proof -
  let ?u = "table_at ''users.dat'' (map enc_UserRecord us)" and ?p = "table_at ''problems.dat'' (map enc_Problem ps)"
    and ?l = "table_at ''leaderboard.dat'' (map enc_LeaderboardEntry es)"
  have same: "same_table ''users.dat'' ?u t" "same_table ''problems.dat'' ?p t" "same_table ''leaderboard.dat'' ?l t"
    using assms(1,2) by (simp_all add: same_table_def t_def demo_tables_def table_at_def db_path_def)
  note u = user_file.table_at_ok [of us] and p = problem_file.table_at_ok [of ps] and l = leaderboard_file.table_at_ok [of es]
  show rows: "user_rows t = us" "problem_rows t = ps" "leaderboard_rows t = es"
    using u(2) p(2) l(2) assms(3-5,9-11)
    by (simp_all add: user_rows_def problem_rows_def leaderboard_rows_def same_typed(2) [OF same(1)]
        same_typed(2) [OF same(2)] same_typed(2) [OF same(3)])
  show "tables_inv t"
    using u(1) p(1) l(1) assms(3-11) rows
    by (simp add: tables_inv_def users_part_def problems_part_def board_part_def users_ok_def problems_ok_def
        leaderboard_ok_def same_typed(1) [OF same(1)] same_typed(1) [OF same(2)] same_typed(1) [OF same(3)])
  show "tables_room t"
    unfolding tables_room_def users_room_def problems_room_def leaderboard_room_def
      same_typed(3) [OF same(1)] same_typed(3) [OF same(2)] same_typed(3) [OF same(3)]
    using u(3) p(3) l(3) assms(3-5,9-11) by (simp add: table_room_def)
qed

definition demo_server :: "User list \<Rightarrow> UserRecord list \<Rightarrow> Problem list \<Rightarrow> LeaderboardEntry list \<Rightarrow> (int \<Rightarrow> event list) \<Rightarrow> server" where
  "demo_server online us ps es input = demo_tables us ps es ((with_users online idle)\<lparr>ins := input\<rparr>)"

lemma demo_server_simps:
  "users_heap (demo_server online us ps es i) = (\<lambda>p. if p < length online then Some (online ! p) else None)"
  "ins (demo_server online us ps es i) = i"
  "core (demo_server online us ps es i) = core (with_users online idle)"
  by (simp_all add: demo_server_def demo_tables_def put_file_def with_users_def core_def idle_def)

lemma demo_server_ok:
  fixes i :: "int \<Rightarrow> event list"
  assumes "length online \<le> MAX_USERS" "\<forall>u \<in> set online. session_ok (Some u) \<and> user_ok u"
    "distinct (map (\<lambda>u. c_str (us_username u)) online)"
    and "list_all wf_UserRecord us" "list_all wf_Problem ps" "list_all wf_entry es"
    "distinct (map user_name us)" "distinct (map pr_id ps)" "distinct (map entry_name es)"
    "length us < 1000" "length ps < 1000" "length es < 1000"
  defines "t \<equiv> demo_server online us ps es i"
  shows "system_inv t" "tables_room t" "user_rows t = us" "problem_rows t = ps" "leaderboard_rows t = es"
    "sessions t = zip (map (\<lambda>u. c_str (us_username u)) online) [0..<length online]" "queue t = []"
proof -
  have tables: "tables_inv t" "tables_room t" "user_rows t = us" "problem_rows t = ps" "leaderboard_rows t = es"
    unfolding t_def demo_server_def
    by (rule demo_tables_ok; use assms(4-12) in \<open>simp add: with_users_def idle_def\<close>)+
  then show "tables_room t" "user_rows t = us" "problem_rows t = ps" "leaderboard_rows t = es" by simp_all
  have "users_inv (with_users online idle)"
    and w: "sessions (with_users online idle) = zip (map (\<lambda>u. c_str (us_username u)) online) [0..<length online]"
      "queue (with_users online idle) = []" "challenges_inv (with_users online idle)"
    using with_users_inv [OF assms(1) _ assms(3), of idle] assms(2) idle_inv by auto
  then have c: "users_inv t" "challenges_inv t" "sessions t = zip (map (\<lambda>u. c_str (us_username u)) online) [0..<length online]"
    "queue t = []"
    using core_inv [of t "with_users online idle"] by (simp_all add: t_def demo_server_simps)
  then show "sessions t = zip (map (\<lambda>u. c_str (us_username u)) online) [0..<length online]" "queue t = []" by simp_all
  have "heap_inv t" using assms(2) nth_mem [of _ online] by (auto simp: t_def demo_server_simps heap_inv_def split: if_splits)
  then show "system_inv t" using c(1,2) tables(1) by (simp add: system_inv_def)
qed

lemma online_user_user_ok: "no_nul nm \<Longrightarrow> length nm < 100 \<Longrightarrow> user_ok (online_user nm k)"
  using online_user_ok [of nm k] by (simp add: user_ok_def session_ok_def terminated_def online_user_def int_range_def)

lemma demo_request_fits: "request_fits (cJSON_Parse ''{\"op\":7,\"page\":1}'') u"
proof -
  let ?j = "cJSON_Parse ''{\"op\":7,\"page\":1}''"
  let ?o = "Some (cJSON_Object [(''op'', cJSON_Number 7), (''page'', cJSON_Number 1)])"
  have parse: "?j = ?o" by code_simp
  have "json_get_int ?o ''op'' = 7" "json_get_int ?o ''page'' = 1" "json_get_string ?o ''username'' = []"
    "json_get_string ?o ''password'' = []" "json_get_string ?o ''title'' = []" "json_get_string ?o ''opponent'' = []"
    by code_simp+
  then show ?thesis by (simp add: request_fits_def parse)
qed

theorem request_safe_witness:
  "\<exists>f c' s'. handle_request echo_env (demo_conn ''bob'' 5 0)
     (demo_server [online_user ''bob'' 5] [] [] [] (\<lambda>_. [Data ''{\"op\":7,\"page\":1}''])) = Some (f, c', s')
   \<and> system_inv s' \<and> conn_ok c'"
proof -
  let ?s = "demo_server [online_user ''bob'' 5] [] [] [] (\<lambda>_. [Data ''{\"op\":7,\"page\":1}''])"
    and ?c = "demo_conn ''bob'' 5 0"
  have bob: "session_ok (Some (online_user ''bob'' 5)) \<and> c_str (us_username (online_user ''bob'' 5)) = ''bob''"
    "user_ok (online_user ''bob'' 5)"
    by (intro online_user_ok online_user_user_ok; simp add: no_nul_def)+
  have inv: "system_inv ?s" "tables_room ?s"
    by (rule demo_server_ok; use bob in \<open>simp add: MAX_USERS_def\<close>)+
  have "conn_ok ?c" by (simp add: conn_ok_def demo_conn_def char_array_def)
  then have "ready ?c ?s" using inv(1) by (simp add: ready_def demo_server_simps demo_conn_def)
  moreover have "message_fits ?c ?s"
  proof -
    note demo_request_fits
    then show ?thesis
      by (simp add: message_fits_def server_read_def demo_server_simps demo_conn_def overwrite_def c_str_def)
  qed
  ultimately show ?thesis using request_safe [of ?c ?s echo_env] inv(2) by (auto simp: judge_ok_def echo_env_def wait_ok_def)
qed

end
