(* ===== verification/Services.thy ===== *)
theory Services
  imports Demo
begin

text \<open>
  What the requests of a connection achieve: logging in, signing up, leaving, and what a regular user
  gets to see of the problems.
\<close>

section \<open>Login and signup\<close>

lemma getRecord_same:
  assumes "files s' (db_path fn) = files s (db_path fn)" "junk s' = junk s" "setlkw_ok s' = setlkw_ok s" "setlk_ok s' = setlk_ok s"
  shows "getRecord fn sz mf s' = getRecord fn sz mf s"
  using assms scanRecords_junk [of s' s] by (simp add: getRecord_def readCount_def malloc_def split: option.split)

lemma quiet_lookup:
  assumes "silent s s'"
  shows "getUserRecord k s' = getUserRecord k s" "getProblem n s' = getProblem n s" "getLeaderboardEntry k s' = getLeaderboardEntry k s"
proof -
  have "getRecord fn sz mf s' = getRecord fn sz mf s" for fn sz mf
    by (rule getRecord_same) (use assms in \<open>simp_all add: quiet_def keeps_def os.defs\<close>)
  then show "getUserRecord k s' = getUserRecord k s" "getProblem n s' = getProblem n s" "getLeaderboardEntry k s' = getLeaderboardEntry k s"
    by (simp_all add: getUserRecord_def getProblem_def getLeaderboardEntry_def)
qed

lemma strcpy_exact:
  assumes "no_nul x" "length x < length dst"
  shows "\<exists>m. strcpy dst x = Some m \<and> c_str m = x"
proof -
  obtain m where m: "strcpy dst x = Some m" using strcpy_fits assms(2) by metis
  then show ?thesis using strcpy_c_str [OF m assms(1), of "[]"] by simp
qed

text \<open>The answer of a login is one of four short messages, and it is written to nobody else.\<close>

lemma login_outcome_answer:
  "login_outcome name pass p s = Some (st, msg, s1) \<Longrightarrow> outs s1 = outs s \<and> length msg < 50"
  by (auto simp: login_outcome_def login_user_def update_user_def addActiveUser_def Let_def
    split: bind_splits if_splits option.splits)

lemma login_reply:
  assumes "ready c s" "name = json_get_string json ''username''" "pass = json_get_string json ''password''"
    and "no_nul name" "length name < 100" "no_nul pass" "length pass < 100"
  shows "\<exists>c' s' t lvl msg. handle_login json c s = Some (Again, c', s') \<and> ready c' s' \<and> c_user c' = c_user c
    \<and> sendJson (c_socket c) (login_json (if login_granted name pass (c_user c) s then SUCCESS else FAILURE) lvl msg) t = Some s'
    \<and> sessions s' = (if login_granted name pass (c_user c) s then sessions s @ [(name, c_user c)] else sessions s)
    \<and> queue s' = queue s
    \<and> (login_granted name pass (c_user c) s \<longrightarrow> (\<exists>r. getUserRecord name s = Some r \<and> lvl = ur_privilege r))
    \<and> outs t = outs s \<and> no_nul msg \<and> length msg < 50 \<and> int_range lvl"
proof -
  have pre: "system_inv s" "conn_ok c" using assms(1) by (simp_all add: ready_def)
  obtain v where v: "users_heap s (c_user c) = Some v" using assms(1) by (auto simp: ready_def)
  have len: "length (c_username c) = 100" "length (c_password c) = 100" using pre(2) by (simp_all add: conn_ok_def)
  obtain un where un: "strcpy (c_username c) name = Some un" "c_str un = name"
    using strcpy_exact [OF assms(4), of "c_username c"] assms(5) len by auto
  obtain pw where pw: "strcpy (c_password c) pass = Some pw" "c_str pw = pass"
    using strcpy_exact [OF assms(6), of "c_password c"] assms(7) len by auto
  obtain st msg s1 u1 where o: "login_outcome name pass (c_user c) s = Some (st, msg, s1)" "system_inv s1"
    "no_nul msg" "st = (if login_granted name pass (c_user c) s then SUCCESS else FAILURE)"
    "sessions s1 = (if login_granted name pass (c_user c) s then sessions s @ [(name, c_user c)] else sessions s)"
    "queue s1 = queue s" "users_heap s1 (c_user c) = Some u1"
    "login_granted name pass (c_user c) s \<longrightarrow> (\<exists>r. getUserRecord name s = Some r \<and> us_privilege u1 = ur_privilege r)"
    using login_outcome_cases [OF pre(1) v assms(4,5), of pass] by auto
  have "int_range (us_privilege u1)" using heap_invD [of s1 "c_user c" u1] o(2,7) by (simp add: system_inv_def)
  note range = this
  then have "wf_json (login_json st (us_privilege u1) msg)" using o(3,4) by (intro wf_replies(2)) auto
  then obtain s2 where s2: "sendJson (c_socket c) (login_json st (us_privilege u1) msg) s1 = Some s2"
    using sendJson_total by blast
  have h: "handle_login json c s = Some (Again, c\<lparr>c_username := un, c_password := pw\<rparr>, s2)"
    using un pw o(1,7) s2 by (simp add: handle_login_def assms(2,3) [symmetric])
  have si: "silent s1 s2" by (rule quiet_talk(2) [OF s2])
  note qi = silent_inv [OF si]
  define c' where "c' = c\<lparr>c_username := un, c_password := pw\<rparr>"
  have "ready c' s2" using good_login [OF assms(1) h] by (auto simp: good_def ready_def c'_def)
  moreover have "sessions s2 = (if login_granted name pass (c_user c) s then sessions s @ [(name, c_user c)] else sessions s)"
    "queue s2 = queue s" using qi(4,5) o(5,6) by simp_all
  moreover have "c_user c' = c_user c" by (simp add: c'_def)
  ultimately show ?thesis using h [folded c'_def] s2 [unfolded o(4)] o(3,8) range login_outcome_answer [OF o(1)] by blast
qed

text \<open>C6: login. The answer is \<open>SUCCESS\<close> exactly if this connection is not logged in, no session has the
  name, the users table holds the name with this password and the server is not full; then the
  session is added at the end, and the answer carries the privilege of the record. Otherwise the
  answer is \<open>FAILURE\<close> and the sessions stay as they are.\<close>

theorem login_correct:
  assumes "ready c s" "name = json_get_string json ''username''" "pass = json_get_string json ''password''"
    and "no_nul name" "length name < 100" "no_nul pass" "length pass < 100"
  shows "\<exists>c' s' t lvl msg. handle_login json c s = Some (Again, c', s') \<and> ready c' s' \<and> c_user c' = c_user c
    \<and> sendJson (c_socket c) (login_json (if login_granted name pass (c_user c) s then SUCCESS else FAILURE) lvl msg) t = Some s'
    \<and> sessions s' = (if login_granted name pass (c_user c) s then sessions s @ [(name, c_user c)] else sessions s)
    \<and> queue s' = queue s
    \<and> (login_granted name pass (c_user c) s \<longrightarrow> (\<exists>r. getUserRecord name s = Some r \<and> lvl = ur_privilege r))
    \<and> outs t = outs s"
  using login_reply [OF assms] by blast

text \<open>C12: whoever signs up can log in. In a server with room, a signup with a free name succeeds and makes
  a leaderboard entry with the default rating (when there was none), and a login of the same
  connection with the same name and password then opens the session, as a regular user; a login
  with any other password does not.\<close>

theorem signup_then_login:
  assumes "ready c s" "tables_room s" "name = json_get_string json ''username''" "pass = json_get_string json ''password''"
    and "no_nul name" "length name < 100" "no_nul pass" "length pass < 100"
    and "users_heap s (c_user c) = Some u" "us_loggedIn u = 0" "getUserRecord name s = None"
    and "name \<notin> fst ` set (sessions s)" "length (sessions s) < MAX_USERS"
  shows "\<exists>c1 s1 c2 s2. handle_signup json c s = Some (Again, c1, s1) \<and> handle_login json c1 s1 = Some (Again, c2, s2)
    \<and> sessions s1 = sessions s \<and> sessions s2 = sessions s @ [(name, c_user c)]
    \<and> (getLeaderboardEntry name s = None \<longrightarrow> map_option le_elo (getLeaderboardEntry name s1) = Some DEFAULT_ELO)
    \<and> (\<forall>k. k \<noteq> name \<longrightarrow> getUserRecord k s1 = getUserRecord k s)
    \<and> (\<forall>other. other \<noteq> pass \<longrightarrow> \<not> login_granted name other (c_user c) s1)"
proof -
  have pre: "system_inv s" "conn_ok c" using assms(1) by (simp_all add: ready_def)
  have len: "length (c_username c) = 100" "length (c_password c) = 100" using pre(2) by (simp_all add: conn_ok_def)
  obtain un where un: "strcpy (c_username c) name = Some un" "c_str un = name"
    using strcpy_exact [OF assms(5), of "c_username c"] assms(6) len by auto
  obtain pw where pw: "strcpy (c_password c) pass = Some pw" "c_str pw = pass"
    using strcpy_exact [OF assms(7), of "c_password c"] assms(8) len by auto
  obtain msg t r where o: "signup_outcome name pass (c_user c) s = Some (SUCCESS, msg, t)" "core t = core s" "no_nul msg"
    "getUserRecord name t = Some r" "c_str (ur_password r) = pass"
    "\<forall>k. k \<noteq> name \<longrightarrow> getUserRecord k t = getUserRecord k s"
    "getLeaderboardEntry name s = None \<longrightarrow> map_option le_elo (getLeaderboardEntry name t) = Some DEFAULT_ELO"
    using signup_outcome_cases [OF pre(1) assms(2,9,5,6,7,8)] assms(10,11) by auto
  obtain s1 where s1: "sendJson (c_socket c) (message_json SUCCESS msg) t = Some s1"
    using sendJson_total [OF wf_replies(1) [of SUCCESS msg]] o(3) by auto
  define c1 where "c1 = c\<lparr>c_username := un, c_password := pw\<rparr>"
  have h: "handle_signup json c s = Some (Again, c1, s1)"
    using un pw o(1) s1 by (simp add: handle_signup_def assms(3,4) [symmetric] c1_def)
  have q: "silent t s1" by (rule quiet_talk(2) [OF s1])
  have look: "getUserRecord k s1 = getUserRecord k t" "getLeaderboardEntry k s1 = getLeaderboardEntry k t" for k
    using quiet_lookup [OF q] by simp_all
  have sess: "sessions s1 = sessions s" "users_heap s1 = users_heap s"
    using core_inv [OF o(2)] silent_inv [OF q] by simp_all
  have r1: "ready c1 s1" "c_user c1 = c_user c" using good_signup [OF assms(1,2) h] by (auto simp: good_def ready_def c1_def)
  have g: "login_granted name other (c_user c) s1 \<longleftrightarrow> other = pass" for other
    using assms(9,10,12,13) sess look(1) o(4,5) by (auto simp: login_granted_def)
  obtain c2 s2 where "handle_login json c1 s1 = Some (Again, c2, s2)" "sessions s2 = sessions s @ [(name, c_user c)]"
    using login_reply [OF r1(1) assms(3-8)] g [of pass] r1(2) sess(1) by auto
  then show ?thesis using h sess(1) look o(6,7) g by (intro exI [of _ c1] exI [of _ s1] exI [of _ c2] exI [of _ s2]) auto
qed

section \<open>Leaving\<close>

lemma sessions_free: "p \<notin> set (active s) \<Longrightarrow> sessions (free_user p s) = sessions s"
  using heap_inactive(2) [of p s None] by (simp add: free_user_def)

lemma removed_session:
  assumes "users_inv s" "users_heap s p = Some u" "removeActiveUser (user_string u) s = Some (q, t)"
  shows "set (sessions t) = {x \<in> set (sessions s). fst x \<noteq> user_string u}"
    "p \<notin> set (active t)" "users_heap t = users_heap s" "queue t = queue s"
  using active_users.rm_unique [OF assms(1) _ users_invD(3) [OF assms(1)] assms(3), of "user_string u"]
    removal_inactive(2-4) [OF assms] by simp_all

text \<open>C13: leaving. However a logged-in client leaves - by a logout or by closing its connection - exactly its
  own session disappears, its \<open>User\<close> is freed and no longer registered (the invariants still hold),
  and no other \<open>User\<close> changes. Closing the connection leaves the pending challenges as they are.\<close>

theorem leave_ends_session:
  assumes "ready c s" "(name, c_user c) \<in> set (sessions s)"
  shows "\<exists>s1 s2. handle_disconnect c s = Some (Leave, c, s1) \<and> handle_logout c s = Some (Leave, c, s2)
    \<and> set (sessions s1) = {x \<in> set (sessions s). fst x \<noteq> name} \<and> set (sessions s2) = set (sessions s1)
    \<and> system_inv s1 \<and> system_inv s2 \<and> users_heap s1 = (users_heap s)(c_user c := None)
    \<and> users_heap s2 = (users_heap s)(c_user c := None) \<and> queue s1 = queue s"
proof -
  let ?p = "c_user c" and ?off = "\<lambda>u. u\<lparr>us_loggedIn := 0\<rparr>"
  have pre: "users_inv s" "challenges_inv s" using assms(1) by (simp_all add: ready_def system_inv_def)
  have act: "?p \<in> set (active s)" "name = name_of s ?p" using assms(2) by (auto simp: sessions_def)
  obtain u where u: "users_heap s ?p = Some u" "us_loggedIn u \<noteq> 0" using session_live [OF pre(1) act(1)] by blast
  have name: "name = user_string u" using act(2) u(1) by (simp add: name_of_def user_string_def)
  obtain r1 r2 where r: "handle_disconnect c s = Some r1" "handle_logout c s = Some r2"
    using leave_total [OF assms(1)] by blast
  note g = good_disconnect [OF assms(1) r(1)] good_logout [OF assms(1) r(2)]
  obtain q t1 where d: "removeActiveUser (user_string u) s = Some (q, t1)" "r1 = (Leave, c, free_user ?p t1)"
    using r(1) u(1) by (auto simp: handle_disconnect_def split: bind_splits)
  note rm1 = removed_session [OF pre(1) u(1) d(1)]
  obtain q0 t0 where l0: "removeDuelRequest (user_string u) s = (q0, t0)" by (metis surj_pair)
  note f0 = removeDuelRequest_frame [OF l0 pre(2)]
  obtain q2 t2 t3 t4 where l: "removeActiveUser (user_string u) t0 = Some (q2, t2)" "update_user ?p ?off t2 = Some t3"
    "sendJson (c_socket c) (message_json SUCCESS ''Logout successful'') t3 = Some t4" "r2 = (Leave, c, free_user ?p t4)"
    using r(2) u l0 by (auto simp: handle_logout_def split: bind_splits)
  have t0: "users_inv t0" "users_heap t0 ?p = Some u" using f0(2,3) pre(1) u(1) by simp_all
  note rm2 = removed_session [OF t0 l(1)]
  have t3: "t3 = t2\<lparr>users_heap := (users_heap t2)(?p := Some (?off u))\<rparr>"
    using l(2) rm2(3) t0(2) by (simp add: update_user_def)
  note si = silent_inv [OF quiet_talk(2) [OF l(3)]]
  have "?p \<notin> set (active t3)" "sessions t3 = sessions t2" using rm2(2) heap_inactive(2) [OF rm2(2)] by (simp_all add: t3)
  then have "sessions (free_user ?p t4) = sessions t2" using si(4,9) sessions_free [of ?p t4] by simp
  moreover have "users_heap (free_user ?p t4) = (users_heap s)(?p := None)"
    using si(1) rm2(3) f0(3) by (simp add: free_user_def t3)
  moreover have "sessions (free_user ?p t1) = sessions t1" "users_heap (free_user ?p t1) = (users_heap s)(?p := None)"
    "queue (free_user ?p t1) = queue s"
    using sessions_free [OF rm1(2)] rm1(3,4) by (simp_all add: free_user_def queue_def pending_def)
  moreover have "system_inv (free_user ?p t1)" "system_inv (free_user ?p t4)" using g by (simp_all add: good_def d(2) l(4))
  ultimately show ?thesis using r rm1(1) rm2(1) f0(5) by (auto simp: d(2) l(4) name)
qed

section \<open>Problems\<close>

text \<open>C16: a hidden problem is not shown to a regular user. Asking for it, by either request, is answered
  with \<open>FAILURE\<close> and nothing else: no title and no file is sent, and no state changes.\<close>

theorem hidden_problem_not_shown:
  assumes "users_heap s (c_user c) = Some u" "us_privilege u = REGULAR_USER"
    and "getProblem (json_get_int json ''id'') s = Some p" "pr_visibility p = PROBLEM_HIDDEN"
  shows "\<exists>s'. sendJson (c_socket c) (status_json FAILURE) s = Some s' \<and> core s' = core s
    \<and> handle_view_problem json c s = Some (Again, c, s') \<and> handle_get_problem json c s = Some (Again, c, s')"
proof -
  obtain s' where s': "sendJson (c_socket c) (status_json FAILURE) s = Some s'"
    using sendJson_total [OF wf_status] by force
  have "show_problem fs json c s = Some (Again, c, s')" for fs
    using assms s' by (simp add: show_problem_def problem_reply_def Let_def)
  then show ?thesis
    using s' quiet_core [OF quiet_talk(2) [OF s']] by (simp add: handle_view_problem_def handle_get_problem_def)
qed

text \<open>the list of problems shows visible problems only, whoever asks. Page \<open>p\<close> (from 1) answers with at
  most three rows, all of them visible rows of the table from index \<open>3 (p - 1)\<close> on, in the order of
  the table.\<close>

theorem problem_list_visible:
  assumes "tables_inv s" "page = json_get_int json ''page''" "1 \<le> page" "page < 2 ^ 28"
  shows "\<exists>ps j s'. ps = take 3 (filter (\<lambda>p. pr_visibility p = PROBLEM_VISIBLE) (drop (nat (page - 1) * 3) (problem_rows s)))
    \<and> page_reply ''problems'' problem_json (Some ps) = Some j
    \<and> sendJson (c_socket c) j s = Some s' \<and> handle_view_all json c s = Some (Again, c, s')"
proof -
  let ?mf = "Some (\<lambda>r. matchProblemVisibility r PROBLEM_VISIBLE)" and ?rows = "table_rows ''problems.dat'' 112 s"
  have ok: "problems_ok s" using assms(1) by (simp add: tables_inv_def problems_part_def)
  define bs where "bs = take 3 (filter (page_match ?mf) (drop (nat (page - 1) * 3) ?rows))"
  define ps where "ps = take 3 (filter (\<lambda>p. pr_visibility p = PROBLEM_VISIBLE) (drop (nat (page - 1) * 3) (problem_rows s)))"
  have "getRecordPage ''problems.dat'' 112 page 3 ?mf s = Some bs"
    using getRecordPage_spec [of "''problems.dat''" 112 s page 3 ?mf] assms(3,4) problem_file.okD(1,2) [of s] ok
    by (simp add: bs_def problems_ok_def)
  moreover have "map dec_Problem bs = ps"
  proof -
    have "page_match ?mf = (\<lambda>p. pr_visibility p = PROBLEM_VISIBLE) \<circ> dec_Problem"
      by (auto simp: page_match_def matchProblemVisibility_def dec_Problem_def fun_eq_iff)
    then show ?thesis
      by (simp add: bs_def ps_def problem_rows_def typed_rows_def filter_map drop_map take_map)
  qed
  moreover obtain j where "page_reply ''problems'' problem_json (Some ps) = Some j" "wf_json j"
  proof -
    have "\<forall>p \<in> set ps. wf_Problem p"
      using problem_row_ok [OF ok] by (auto simp: ps_def dest!: in_set_takeD in_set_dropD)
    moreover have "length ps \<le> 3" by (simp add: ps_def)
    ultimately show ?thesis
      using page_reply_ok [of ps problem_json "''problems''"] problem_json_ok that by (auto simp: no_nul_def)
  qed
  moreover from this obtain s' where "sendJson (c_socket c) j s = Some s'" using sendJson_total by blast
  ultimately show ?thesis by (auto simp: handle_view_all_def assms(2) ps_def)
qed

text \<open>updating a problem under the explicit record lock is the same as the unlocked \<open>updateProblem\<close> of
  the query layer: the row of that id gets the new title, difficulty and visibility, and a missing
  row is refused without a change.\<close>

theorem update_problem_equivalent:
  assumes "problems_ok s"
  shows "update_problem_row k title d v s = (case getProblem k s of None \<Rightarrow> Some (FAILURE, s)
    | Some p \<Rightarrow> map_option (\<lambda>t. (SUCCESS, snd (updateProblem (p\<lparr>pr_title := t, pr_difficulty := d, pr_visibility := v\<rparr>) s)))
        (strcpy (pr_title p) title))"
  by (rule update_problem_row_eq [OF assms])

section \<open>Concrete requests\<close>

lemma accept_inv:
  assumes "system_inv s" "users_heap s p = None"
  shows "system_inv (accept_user k p s)" "sessions (accept_user k p s) = sessions s" "queue (accept_user k p s) = queue s"
    "tables_room (accept_user k p s) = tables_room s" "active (accept_user k p s) = active s"
proof -
  obtain x where x: "accept_user k p s = s\<lparr>users_heap := (users_heap s)(p := Some x)\<rparr>" "user_ok x"
    by (simp add: accept_user_def Let_def user_ok_def)
  have act: "p \<notin> set (active s)" using session_live [of s p] assms by (auto simp: system_inv_def)
  have same: "same_table fn s (accept_user k p s)" for fn by (simp add: x(1) same_table_def)
  show "sessions (accept_user k p s) = sessions s" using heap_inactive(2) [OF act] by (simp add: x(1))
  show "queue (accept_user k p s) = queue s" "active (accept_user k p s) = active s"
    by (simp_all add: x(1) queue_def pending_def active_def)
  show "tables_room (accept_user k p s) = tables_room s" using same_parts [OF same] by (simp add: tables_room_def)
  have "heap_inv s" using assms(1) by (simp add: system_inv_def)
  then have "heap_inv (accept_user k p s)" by (rule heap_inv_update [OF _ x(2), where p = p]) (simp add: x(1))
  then show "system_inv (accept_user k p s)"
    using assms(1) heap_inactive(1) [OF act] same_parts [OF same]
    by (simp add: system_inv_def tables_inv_def x(1) challenges_inv_def)
qed

text \<open>Bob is logged in; a second client has just connected. The tables know Ann, a visible and a hidden
  problem.\<close>

definition demo_ann :: UserRecord where
  "demo_ann = \<lparr>ur_username = char_array ''ann'', ur_password = char_array ''secret'', ur_privilege = 0\<rparr>"

definition demo_problem :: "int \<Rightarrow> bytes \<Rightarrow> int \<Rightarrow> Problem" where
  "demo_problem k title v = \<lparr>pr_id = k, pr_title = char_array title, pr_difficulty = EASY_PROBLEM, pr_visibility = v\<rparr>"

definition demo_base :: server where
  "demo_base = demo_server [online_user ''bob'' 5] [demo_ann]
     [demo_problem 1 ''Echo'' PROBLEM_VISIBLE, demo_problem 2 ''Sort'' PROBLEM_HIDDEN] [] (\<lambda>_. [])"

definition demo_guest :: server where
  "demo_guest = accept_user 6 9 demo_base"

definition demo_login :: "bytes \<Rightarrow> bytes \<Rightarrow> cJSON option" where
  "demo_login nm pw = Some (cJSON_Object [(''username'', cJSON_String nm), (''password'', cJSON_String pw)])"

lemma demo_login_strings:
  "json_get_string (demo_login nm pw) ''username'' = nm" "json_get_string (demo_login nm pw) ''password'' = pw"
proof -
  have "case_insensitive_eq ''username'' ''username''" "\<not> case_insensitive_eq ''username'' ''password''"
    "\<not> case_insensitive_eq ''password'' ''username''" "case_insensitive_eq ''password'' ''password''" by code_simp+
  then show "json_get_string (demo_login nm pw) ''username'' = nm" "json_get_string (demo_login nm pw) ''password'' = pw"
    by (simp_all add: demo_login_def json_get_string_def cJSON_GetObjectItem_def)
qed

lemma demo_base_facts:
  "system_inv demo_base" "tables_room demo_base" "sessions demo_base = [(''bob'', 0)]" "queue demo_base = []"
  "user_rows demo_base = [demo_ann]"
  "problem_rows demo_base = [demo_problem 1 ''Echo'' PROBLEM_VISIBLE, demo_problem 2 ''Sort'' PROBLEM_HIDDEN]"
  "leaderboard_rows demo_base = []" "users_heap demo_base 0 = Some (online_user ''bob'' 5)" "users_heap demo_base 9 = None"
proof -
  have bob: "session_ok (Some (online_user ''bob'' 5)) \<and> c_str (us_username (online_user ''bob'' 5)) = ''bob''"
    "user_ok (online_user ''bob'' 5)"
    by (intro online_user_ok online_user_user_ok; simp add: no_nul_def)+
  have wf: "wf_UserRecord demo_ann" "wf_Problem (demo_problem 1 ''Echo'' PROBLEM_VISIBLE)" "wf_Problem (demo_problem 2 ''Sort'' PROBLEM_HIDDEN)"
    by (simp_all add: demo_ann_def demo_problem_def wf_UserRecord_def wf_Problem_def no_nul_def int_range_def)
  have k: "pr_id (demo_problem k t v) = k" for k t v by (simp add: demo_problem_def)
  show "system_inv demo_base" "tables_room demo_base" "user_rows demo_base = [demo_ann]"
    "problem_rows demo_base = [demo_problem 1 ''Echo'' PROBLEM_VISIBLE, demo_problem 2 ''Sort'' PROBLEM_HIDDEN]"
    "leaderboard_rows demo_base = []"
    unfolding demo_base_def by (rule demo_server_ok; use bob wf in \<open>simp add: MAX_USERS_def k\<close>)+
  have "sessions demo_base = zip (map (\<lambda>u. c_str (us_username u)) [online_user ''bob'' 5]) [0..<length [online_user ''bob'' 5]]"
    unfolding demo_base_def by (rule demo_server_ok; use bob wf in \<open>simp add: MAX_USERS_def k\<close>)
  then show "sessions demo_base = [(''bob'', 0)]" using bob by simp
  show "queue demo_base = []" unfolding demo_base_def by (rule demo_server_ok; use bob wf in \<open>simp add: MAX_USERS_def k\<close>)
  show "users_heap demo_base 0 = Some (online_user ''bob'' 5)" "users_heap demo_base 9 = None"
    by (simp_all add: demo_base_def demo_server_simps)
qed

lemma demo_guest_facts:
  "ready (demo_conn [] 6 9) demo_guest" "tables_room demo_guest" "sessions demo_guest = [(''bob'', 0)]"
  "\<exists>u. users_heap demo_guest 9 = Some u \<and> us_loggedIn u = 0"
  "getUserRecord nm demo_guest = (if nm = ''ann'' then Some demo_ann else None)" "getLeaderboardEntry nm demo_guest = None"
proof -
  note a = accept_inv [OF demo_base_facts(1,9), of 6]
  have h: "\<exists>u. users_heap demo_guest 9 = Some u \<and> us_loggedIn u = 0" by (simp add: demo_guest_def accept_user_def Let_def)
  have "conn_ok (demo_conn [] 6 9)" by (simp add: conn_ok_def demo_conn_def char_array_def)
  then show "ready (demo_conn [] 6 9) demo_guest"
    using a(1) h by (auto simp: ready_def demo_conn_def demo_guest_def)
  show "tables_room demo_guest" "sessions demo_guest = [(''bob'', 0)]" "\<exists>u. users_heap demo_guest 9 = Some u \<and> us_loggedIn u = 0"
    using a(2,4) demo_base_facts(2,3) h by (simp_all add: demo_guest_def)
  have "getRecord fn sz mf demo_guest = getRecord fn sz mf demo_base" for fn sz mf
    by (rule getRecord_same) (simp_all add: demo_guest_def accept_user_def Let_def)
  then have g: "getUserRecord nm demo_guest = getUserRecord nm demo_base" "getLeaderboardEntry nm demo_guest = getLeaderboardEntry nm demo_base"
    by (simp_all add: getUserRecord_def getLeaderboardEntry_def)
  have ok: "users_ok demo_base" "leaderboard_ok demo_base"
    using demo_base_facts(1) by (simp_all add: system_inv_def tables_inv_def users_part_def board_part_def)
  have "user_name demo_ann = ''ann''" by (simp add: user_name_def demo_ann_def no_nul_def)
  then show "getUserRecord nm demo_guest = (if nm = ''ann'' then Some demo_ann else None)" "getLeaderboardEntry nm demo_guest = None"
    using users.get_find [OF ok(1), of nm] leaderboard.get_find [OF ok(2), of nm] demo_base_facts(5,7) by (auto simp: g)
qed

theorem login_correct_witness:
  "\<exists>c' s'. handle_login (demo_login ''ann'' ''secret'') (demo_conn [] 6 9) demo_guest = Some (Again, c', s')
     \<and> sessions s' = [(''bob'', 0), (''ann'', 9)]"
proof -
  have "login_granted ''ann'' ''secret'' 9 demo_guest"
    using demo_guest_facts(3,4) demo_guest_facts(5) [of "''ann''"]
    by (auto simp: login_granted_def demo_ann_def no_nul_def MAX_USERS_def)
  then show ?thesis
    using login_correct [OF demo_guest_facts(1) demo_login_strings [symmetric], of "''ann''" "''secret''"] demo_guest_facts(3)
    by (auto simp: no_nul_def demo_conn_def)
qed

theorem signup_then_login_witness:
  "\<exists>c1 s1 c2 s2. handle_signup (demo_login ''eve'' ''pw'') (demo_conn [] 6 9) demo_guest = Some (Again, c1, s1)
     \<and> handle_login (demo_login ''eve'' ''pw'') c1 s1 = Some (Again, c2, s2) \<and> sessions s2 = [(''bob'', 0), (''eve'', 9)]
     \<and> map_option le_elo (getLeaderboardEntry ''eve'' s1) = Some DEFAULT_ELO"
proof -
  obtain u where "users_heap demo_guest (c_user (demo_conn [] 6 9)) = Some u" "us_loggedIn u = 0"
    using demo_guest_facts(4) by (auto simp: demo_conn_def)
  note s = signup_then_login [OF demo_guest_facts(1,2) demo_login_strings [symmetric], of "''eve''" "''pw''", OF _ _ _ _ this]
  show ?thesis using s demo_guest_facts(3,5,6) by (force simp: no_nul_def MAX_USERS_def demo_conn_def)
qed

theorem leave_ends_session_witness:
  "\<exists>s1 s2. handle_disconnect (demo_conn ''bob'' 5 0) demo_base = Some (Leave, demo_conn ''bob'' 5 0, s1)
     \<and> handle_logout (demo_conn ''bob'' 5 0) demo_base = Some (Leave, demo_conn ''bob'' 5 0, s2)
     \<and> sessions s1 = [] \<and> sessions s2 = []"
proof -
  have "conn_ok (demo_conn ''bob'' 5 0)" by (simp add: conn_ok_def demo_conn_def char_array_def)
  then have "ready (demo_conn ''bob'' 5 0) demo_base"
    using demo_base_facts(1,8) by (simp add: ready_def demo_conn_def)
  note leave = leave_ends_session [OF this, of "''bob''"]
  show ?thesis
  proof -
    have none: "{x \<in> set (sessions demo_base). fst x \<noteq> ''bob''} = {}" using demo_base_facts(3) by simp
    have user: "(''bob'', c_user (demo_conn ''bob'' 5 0)) \<in> set (sessions demo_base)"
      using demo_base_facts(3) by (simp add: demo_conn_def)
    show ?thesis using leave [OF user] unfolding none by auto
  qed
qed

lemma demo_get_problem: "getProblem 2 demo_base = Some (demo_problem 2 ''Sort'' PROBLEM_HIDDEN)" "problems_ok demo_base"
proof -
  show ok: "problems_ok demo_base" using demo_base_facts(1) by (simp add: system_inv_def tables_inv_def problems_part_def)
  show "getProblem 2 demo_base = Some (demo_problem 2 ''Sort'' PROBLEM_HIDDEN)"
    using problems.get_find [OF ok, of 2] demo_base_facts(6) by (simp add: demo_problem_def)
qed

theorem hidden_problem_not_shown_witness:
  "\<exists>s'. sendJson 5 (status_json FAILURE) demo_base = Some s'
     \<and> handle_view_problem (Some (cJSON_Object [(''id'', cJSON_Number 2)])) (demo_conn ''bob'' 5 0) demo_base
       = Some (Again, demo_conn ''bob'' 5 0, s')"
proof -
  have "json_get_int (Some (cJSON_Object [(''id'', cJSON_Number 2)])) ''id'' = 2" by code_simp
  then show ?thesis
    using hidden_problem_not_shown [of demo_base "demo_conn ''bob'' 5 0" "online_user ''bob'' 5"
        "Some (cJSON_Object [(''id'', cJSON_Number 2)])" "demo_problem 2 ''Sort'' PROBLEM_HIDDEN"]
      demo_get_problem demo_base_facts(8)
    by (auto simp: demo_conn_def online_user_def demo_problem_def)
qed

theorem problem_list_visible_witness:
  "\<exists>j s'. page_reply ''problems'' problem_json (Some [demo_problem 1 ''Echo'' PROBLEM_VISIBLE]) = Some j
     \<and> sendJson 5 j demo_base = Some s'
     \<and> handle_view_all (Some (cJSON_Object [(''page'', cJSON_Number 1)])) (demo_conn ''bob'' 5 0) demo_base
       = Some (Again, demo_conn ''bob'' 5 0, s')"
proof -
  have p: "1 = json_get_int (Some (cJSON_Object [(''page'', cJSON_Number 1)])) ''page''" by code_simp
  have "tables_inv demo_base" using demo_base_facts(1) by (simp add: system_inv_def)
  from problem_list_visible [OF this p, of "demo_conn ''bob'' 5 0"] show ?thesis
    using demo_base_facts(6) by (auto simp: demo_conn_def demo_problem_def)
qed

theorem update_problem_equivalent_witness:
  "update_problem_row 3 ''x'' 0 1 demo_base = Some (FAILURE, demo_base)
   \<and> (\<exists>s'. update_problem_row 2 ''x'' 0 1 demo_base = Some (SUCCESS, s'))"
proof -
  have "getProblem 3 demo_base = None"
    using problems.get_find [OF demo_get_problem(2), of 3] demo_base_facts(6) by (simp add: demo_problem_def)
  moreover obtain t where "strcpy (pr_title (demo_problem 2 ''Sort'' PROBLEM_HIDDEN)) ''x'' = Some t"
    using strcpy_fits [of "''x''" "char_array ''Sort''"] by (auto simp: demo_problem_def char_array_def)
  ultimately show ?thesis
    using update_problem_equivalent [OF demo_get_problem(2), of 3 "''x''" 0 1]
      update_problem_equivalent [OF demo_get_problem(2), of 2 "''x''" 0 1] demo_get_problem(1) by simp
qed

end
