(* ===== verification/System.thy ===== *)
theory System
  imports Services
begin

text \<open>
  What the steps of the other threads leave alone: of the shared memory a duel changes only \<open>duelRequest\<close>,
  and a new connection only its own \<open>User\<close>. \<open>World\<close> interleaves the threads on these facts.
\<close>

section \<open>What a duel leaves alone\<close>

text \<open>\<open>same_users\<close>: the arrays and the \<open>User\<close>s are the same up to \<open>duelRequest\<close>.\<close>

definition same_users :: "server \<Rightarrow> server \<Rightarrow> bool" where
  "same_users s s' \<longleftrightarrow> activeUsers s' = activeUsers s \<and> activeUserList s' = activeUserList s
     \<and> activeChallenges s' = activeChallenges s \<and> activeChallengesList s' = activeChallengesList s
     \<and> (\<forall>p. map_option (us_duelRequest_update (\<lambda>_. 0)) (users_heap s' p)
          = map_option (us_duelRequest_update (\<lambda>_. 0)) (users_heap s p))"

lemma same_users_refl [simp, intro]: "same_users s s"
  by (simp add: same_users_def)

lemma same_users_trans [trans]: "same_users s s1 \<Longrightarrow> same_users s1 s2 \<Longrightarrow> same_users s s2"
  by (simp add: same_users_def)

lemma same_users_core: "core s' = core s \<Longrightarrow> same_users s s'"
  by (simp add: core_def same_users_def)

lemma same_users_setDuelState: "setDuelState p d s = Some s' \<Longrightarrow> same_users s s'"
  by (auto simp: setDuelState_def update_user_def same_users_def split: option.splits)

lemma same_users_field:
  assumes "same_users s s'"
  shows "(users_heap s' p = None) = (users_heap s p = None)" "name_of s' p = name_of s p"
    "users_heap s' p = Some u' \<Longrightarrow> \<exists>u. users_heap s p = Some u \<and> us_username u = us_username u'
       \<and> us_loggedIn u = us_loggedIn u' \<and> us_privilege u = us_privilege u' \<and> us_socket u = us_socket u'"
proof -
  have h: "map_option (us_duelRequest_update (\<lambda>_. 0)) (users_heap s' p) = map_option (us_duelRequest_update (\<lambda>_. 0)) (users_heap s p)"
    using assms by (simp add: same_users_def)
  show "(users_heap s' p = None) = (users_heap s p = None)" using h by (metis map_option_is_None)
  show *: "\<exists>u. users_heap s p = Some u \<and> us_username u = us_username u'
       \<and> us_loggedIn u = us_loggedIn u' \<and> us_privilege u = us_privilege u' \<and> us_socket u = us_socket u'"
    if v: "users_heap s' p = Some u'" for u'
  proof -
    obtain u where u: "users_heap s p = Some u" using h v by (cases "users_heap s p") auto
    then have "us_duelRequest_update (\<lambda>_. 0) u' = us_duelRequest_update (\<lambda>_. 0) u" using h v by simp
    then show ?thesis using u by (cases u, cases u') simp
  qed
  show "name_of s' p = name_of s p"
  proof (cases "users_heap s' p")
    case None
    then show ?thesis using h by (simp add: name_of_def)
  next
    case (Some u')
    then show ?thesis using * [OF Some] by (auto simp: name_of_def)
  qed
qed

lemma same_users_inv:
  assumes "same_users s s'"
  shows "users_inv s \<Longrightarrow> users_inv s'" "challenges_inv s \<Longrightarrow> challenges_inv s'" "heap_inv s \<Longrightarrow> heap_inv s'"
    "sessions s' = sessions s" "active s' = active s"
proof -
  show act: "active s' = active s" using assms by (simp add: same_users_def active_def)
  then show sess: "sessions s' = sessions s" using same_users_field(2) [OF assms] by (simp add: sessions_def)
  show "challenges_inv s'" if "challenges_inv s" using that assms by (simp add: challenges_inv_def same_users_def)
  show "heap_inv s'" if "heap_inv s"
    using that same_users_field(3) [OF assms] by (fastforce simp: heap_inv_def user_ok_def)
  have "session_ok (users_heap s' p)" if "session_ok (users_heap s p)" for p
    using that same_users_field(1) [OF assms, of p] same_users_field(3) [OF assms, of p]
    by (auto simp: session_ok_def split: option.splits)
  then show "users_inv s'" if "users_inv s"
    using that assms act sess by (auto simp: users_inv_def same_users_def list_all_iff)
qed

lemma duel_half_users: "duel_half env a k p pn opn s = Some (over, buf, s') \<Longrightarrow> same_users s s'"
proof (cases "duelWinner a = 0")
  case True
  assume h: "duel_half env a k p pn opn s = Some (over, buf, s')"
  then obtain res b s1 where m: "handleDuelSocketMessage env (ar_problem a) k pn opn (ar_buffer a) s = Some (res, b, s1)"
    "(if res = 0 then setDuelState p 0 s1 else Some s1) = Some s'"
    using True by (auto simp: duel_half_def split: bind_splits)
  have "core s1 = core s" using duel_message_step [OF m(1)] by (simp add: duel_step_def)
  moreover have "same_users s1 s'" using m(2) same_users_setDuelState by (auto split: if_splits)
  ultimately show ?thesis using same_users_trans same_users_core by blast
next
  case False
  assume h: "duel_half env a k p pn opn s = Some (over, buf, s')"
  obtain n b s1 where rd: "server_read (length (ar_buffer a) - 1) k (ar_buffer a) s = (n, b, s1)" by (metis prod_cases3)
  then obtain s2 where s2: "(if 0 < n then sendJsonStatus k GO_TO_USER_MENU (Some LOST) s1 else Some s1) = Some s2"
    "setDuelState p 0 s2 = Some s'"
    using h False by (auto simp: duel_half_def Let_def split: bind_splits)
  have "silent s1 s2" using s2(1) silent_status by (auto split: if_splits)
  then have "core s2 = core s" by (rule quiet_core [OF quiet_trans [OF quiet_talk(4) [OF rd]]])
  then show ?thesis using same_users_trans [OF same_users_core same_users_setDuelState [OF s2(2)]] by simp
qed

lemma duel_halves_users:
  "duel_half1 env a s = Some (a', s') \<Longrightarrow> same_users s s'" "duel_half2 env a s = Some (a', s') \<Longrightarrow> same_users s s'"
  by (auto simp: duel_half1_def duel_half2_def dest: duel_half_users split: bind_splits)

lemma duel_round_users:
  assumes "duel_round env sel a s = Some (n, s')"
  shows "same_users s s'"
proof (cases "p1InDuel a \<or> p2InDuel a")
  case True
  show ?thesis
  proof (cases sel)
    case (Ready r1 r2)
    then obtain a1 s1 a2 where h: "(if p1InDuel a \<and> r1 then duel_half1 env a s else Some (a, s)) = Some (a1, s1)"
      "(if p2InDuel a1 \<and> r2 then duel_half2 env a1 s1 else Some (a1, s1)) = Some (a2, s')"
      using duel_roundE assms(1) True by blast
    have "same_users s s1" using h(1) duel_halves_users(1) by (auto split: if_splits)
    moreover have "same_users s1 s'" using h(2) duel_halves_users(2) by (auto split: if_splits)
    ultimately show ?thesis by (rule same_users_trans)
  qed (use assms True in \<open>auto simp: duel_round_def split: if_splits\<close>)
qed (use assms in \<open>auto simp: duel_round_def\<close>)

text \<open>The ratings are far enough from the bounds that the leaderboard's comparison relies on.\<close>

definition ratings_room :: "'a os_scheme \<Rightarrow> bool" where
  "ratings_room s \<longleftrightarrow> (\<forall>e \<in> set (leaderboard_rows s). \<bar>le_elo e\<bar> < 2 ^ 30 - 50)"

lemma updateLeaderboardEntry_inv:
  assumes "tables_inv s" "wf_entry e"
  shows "tables_inv (snd (updateLeaderboardEntry e s))"
proof -
  have l: "leaderboard_ok s" "distinct (map entry_name (leaderboard_rows s))"
    using assms(1) by (simp_all add: tables_inv_def board_part_def)
  have k: "keeps ((=) (db_path ''leaderboard.dat'')) s (snd (updateLeaderboardEntry e s))"
    by (rule keeps_leaderboard(2)) simp
  show ?thesis
    using assms(1) leaderboard.upd_ok [OF l(1) assms(2) l(2)] leaderboard.upd_unique [OF l(1) assms(2) l(2)]
      same_parts(1,2) [OF keeps_same_table [OF k]] by (simp add: tables_inv_def board_part_def)
qed

lemma updateDuelElos_inv:
  assumes "tables_inv s" "ratings_room s" "\<And>x. 0 \<le> pow 10 x" "updateDuelElos pow w l s = Some (r, s')"
  shows "tables_inv s'"
proof (cases "getLeaderboardEntry w s \<noteq> None \<and> getLeaderboardEntry l s \<noteq> None")
  case True
  then obtain ew el where e: "getLeaderboardEntry w s = Some ew" "getLeaderboardEntry l s = Some el" by blast
  define d where "d = calculateEloChange pow (le_elo ew) (le_elo el) 1 50"
  have d: "0 \<le> d" "d \<le> 50"
    using calculateEloChange_bounds [of pow 50 "le_elo ew" "le_elo el", OF assms(3)] by (simp_all add: d_def)
  have ok: "leaderboard_ok s" "distinct (map entry_name (leaderboard_rows s))"
    using assms(1) by (simp_all add: tables_inv_def board_part_def)
  have bounds: "\<bar>le_elo ew\<bar> < 2 ^ 30 - 50" "\<bar>le_elo el\<bar> < 2 ^ 30 - 50"
    using e leaderboard.get_Some_iff [OF ok] assms(2) by (auto simp: ratings_room_def)
  have entry: "wf_entry \<lparr>le_username = m, le_elo = wrap32 x\<rparr>" if "strcpy (malloc t 100) nm = Some m" "\<bar>x\<bar> < 2 ^ 30" for t :: "'a os_scheme" and nm m x
  proof -
    have "wrap32 x = x" using that(2) by (intro wrap32_id) (auto simp: int_range_def)
    then show ?thesis
      using strcpy_terminated [OF that(1)] that(2) by (auto simp: wf_entry_def wf_LeaderboardEntry_def elo_sane_def int_range_def)
  qed
  obtain wn ln s1 where h: "strcpy (malloc s 100) w = Some wn"
    "s1 = snd (updateLeaderboardEntry \<lparr>le_username = wn, le_elo = wrap32 (le_elo ew + d)\<rparr> s)"
    "strcpy (malloc s1 100) l = Some ln"
    "s' = snd (updateLeaderboardEntry \<lparr>le_username = ln, le_elo = wrap32 (le_elo el - d)\<rparr> s1)"
    using assms(4) e by (auto simp: updateDuelElos_def Let_def d_def [symmetric] split: bind_splits)
  have "tables_inv s1" unfolding h(2)
    by (rule updateLeaderboardEntry_inv [OF assms(1) entry [OF h(1)]]) (use bounds d in linarith)
  then show ?thesis unfolding h(4)
    by (rule updateLeaderboardEntry_inv [OF _ entry [OF h(3)]]) (use bounds d in linarith)
next
  case False
  then have "s' = s" using assms(4) by (auto simp: updateDuelElos_def split: option.splits)
  then show ?thesis using assms(1) by simp
qed

lemma calm_tables:
  assumes "calm s s'"
  shows "tables_inv s' = tables_inv s" "tables_room s' = tables_room s" "ratings_room s' = ratings_room s"
proof -
  have same: "same_table fn s s'" for fn
    using assms by (auto simp: calm_def keeps_def same_table_def os.defs)
  then show "tables_inv s' = tables_inv s" "tables_room s' = tables_room s"
    using same_parts [OF same] by (simp_all add: tables_inv_def tables_room_def)
  show "ratings_room s' = ratings_room s"
    by (simp add: ratings_room_def leaderboard_rows_def same_typed(2) [OF same])
qed

lemma duel_progress_tables:
  assumes "duel_progress pow a s a' s'" "tables_inv s" "ratings_room s" "\<And>x. 0 \<le> pow 10 x"
  shows "tables_inv s'"
proof -
  consider "calm s s'" | t q t' w l where "calm s t" "updateDuelElos pow w l t = Some (q, t')" "calm t' s'"
    using assms(1) by (auto simp: duel_progress_def exchanged_def)
  then show ?thesis
  proof cases
    case 1
    then show ?thesis using calm_tables(1) assms(2) by simp
  next
    case 2
    have "tables_inv t'" by (rule updateDuelElos_inv [OF _ _ assms(4) 2(2)]) (use assms(2,3) calm_tables [OF 2(1)] in simp_all)
    then show ?thesis using calm_tables(1) [OF 2(3)] by simp
  qed
qed

lemma same_users_system: "same_users s s' \<Longrightarrow> system_inv s \<Longrightarrow> tables_inv s' \<Longrightarrow> system_inv s'"
  using same_users_inv by (simp add: system_inv_def)

lemma duel_round_system:
  assumes "duel_round env sel a s = Some (n, s')" "system_inv s" "ratings_room s" "\<And>x. 0 \<le> du_pow env 10 x"
  shows "system_inv s'" "same_users s s'"
proof -
  show u: "same_users s s'" by (rule duel_round_users [OF assms(1)])
  have "tables_inv s" using assms(2) by (simp add: system_inv_def)
  then have "tables_inv s'"
    using duel_round_progress [OF assms(1)] duel_progress_tables [of "du_pow env" a s _ s'] assms(3,4) by (cases n) auto
  then show "system_inv s'" by (rule same_users_system [OF u assms(2)])
qed

lemma duel_begin_system:
  assumes "duel_begin env d buf s = Some (r, s')" "system_inv s"
  shows "system_inv s'" "same_users s s'"
proof -
  obtain p1 p2 s1 s2 where b: "setDuelState p1 1 s = Some s1" "setDuelState p2 1 s1 = Some s2"
    "s' = s2 \<or> (\<exists>k1 k2 st m s3 s4 s5. sendJsonStatus k1 st m s2 = Some s3 \<and> sendJsonStatus k2 st m s3 = Some s4
       \<and> setDuelState p1 0 s4 = Some s5 \<and> setDuelState p2 0 s5 = Some s')"
    using assms(1) by (auto simp: duel_begin_def Let_def split: bind_splits option.splits) blast+
  have two: "same_users s s2" "calm s s2"
    using same_users_trans [OF same_users_setDuelState [OF b(1)] same_users_setDuelState [OF b(2)]]
      calm_trans [OF calm_setDuelState [OF b(1)] calm_setDuelState [OF b(2)]] .
  have "same_users s2 s' \<and> calm s2 s'"
    using b(3)
  proof (elim disjE exE conjE)
    fix k1 k2 st m s3 s4 s5
    assume q: "sendJsonStatus k1 st m s2 = Some s3" "sendJsonStatus k2 st m s3 = Some s4"
       "setDuelState p1 0 s4 = Some s5" "setDuelState p2 0 s5 = Some s'"
    have si: "silent s2 s4" by (rule quiet_trans [OF silent_status [OF q(1)] silent_status [OF q(2)]])
    have "same_users s4 s'" by (rule same_users_trans [OF same_users_setDuelState [OF q(3)] same_users_setDuelState [OF q(4)]])
    moreover have "calm s4 s'" by (rule calm_trans [OF calm_setDuelState [OF q(3)] calm_setDuelState [OF q(4)]])
    ultimately show ?thesis
      using same_users_trans [OF same_users_core [OF quiet_core [OF si]]] calm_trans [OF silent_calm [OF si]] by blast
  qed simp
  then have "same_users s s'" "calm s s'" using same_users_trans [OF two(1)] calm_trans [OF two(2)] by simp_all
  then show "same_users s s'" "system_inv s'"
    using same_users_system assms(2) calm_tables(1) by (simp_all add: system_inv_def)
qed

end
