(* ===== verification/LoginRace.thy ===== *)
theory LoginRace
  imports Services
begin

text \<open>
  The login of \<open>handleClient\<close> at the granularity of its locked sections. The handlers' model takes a
  request as one step; here the lookup of the record, the check against the active users, the change of
  the own \<open>User\<close> and the registration are separate steps, and the steps of several connections
  interleave. Run without interleaving they are the login of the handlers' model. What the arrays keep under
  every interleaving is an invariant; that a name has only one session is not part of it.
\<close>

section \<open>The steps of a login\<close>

text \<open>Where a login stands: before \<open>getUserRecord\<close>, with its result, past all checks, with the \<open>User\<close>
  marked as logged in, and answered.\<close>

datatype login_pc = Begin | Looked "UserRecord option" | Granted UserRecord | Marked | Answered int bytes

definition login_step :: "bytes \<Rightarrow> bytes \<Rightarrow> nat \<Rightarrow> login_pc \<Rightarrow> server \<Rightarrow> (login_pc \<times> server) option" where
  "login_step name pass p pc s = (case pc of
     Begin \<Rightarrow> Some (Looked (getUserRecord name s), s)
   | Looked record \<Rightarrow> do {
       user \<leftarrow> users_heap s p;
       index \<leftarrow> (if us_loggedIn user \<noteq> 0 then Some 0 else findActiveUserIndex name s);
       Some (if us_loggedIn user \<noteq> 0 \<or> index \<noteq> -1 then Answered FAILURE ''User already logged in''
         else (case record of
             None \<Rightarrow> Answered FAILURE ''Invalid username or password''
           | Some r \<Rightarrow> if c_str (ur_password r) \<noteq> pass then Answered FAILURE ''Invalid username or password'' else Granted r), s)
     }
   | Granted r \<Rightarrow> do {
       user \<leftarrow> users_heap s p;
       nm \<leftarrow> strcpy (us_username user) name;
       s1 \<leftarrow> update_user p (\<lambda>u. u\<lparr>us_loggedIn := 1, us_username := nm, us_privilege := ur_privilege r\<rparr>) s;
       Some (Marked, s1)
     }
   | Marked \<Rightarrow>
       let (ret, s1) = addActiveUser p s
       in if ret < 0 then do {
            s2 \<leftarrow> update_user p (\<lambda>_. zeroed_user) s1;
            Some (Answered FAILURE ''Server full. Try again later.'', s2)
          } else Some (Answered SUCCESS ''Login successful'', s1)
   | Answered status message \<Rightarrow> Some (pc, s))"

primrec login_steps :: "nat \<Rightarrow> bytes \<Rightarrow> bytes \<Rightarrow> nat \<Rightarrow> login_pc \<Rightarrow> server \<Rightarrow> (login_pc \<times> server) option" where
  "login_steps 0 name pass p pc s = Some (pc, s)"
| "login_steps (Suc n) name pass p pc s = do {
     (pc1, s1) \<leftarrow> login_step name pass p pc s; login_steps n name pass p pc1 s1 }"

lemma login_step_simps [simp]:
  "login_step name pass p Begin s = Some (Looked (getUserRecord name s), s)"
  "login_step name pass p (Answered st msg) s = Some (Answered st msg, s)"
  by (simp_all add: login_step_def)

text \<open>the login of the handlers' model is the composition of these steps: a login that nobody interrupts
  ends after four steps with the answer, the state and the undefined cases of \<open>login_outcome\<close>.\<close>

theorem login_sequential:
  "login_steps 4 name pass p Begin s
    = map_option (\<lambda>(status, message, s'). (Answered status message, s')) (login_outcome name pass p s)"
proof (cases "users_heap s p")
  case (Some user)
  show ?thesis
  proof (cases "us_loggedIn user = 0 \<and> findActiveUserIndex name s = Some (-1)
      \<and> (\<exists>r. getUserRecord name s = Some r \<and> c_str (ur_password r) = pass)")
    case True
    then obtain r where r: "getUserRecord name s = Some r" "c_str (ur_password r) = pass" by blast
    have checked: "login_steps 4 name pass p Begin s = login_steps 2 name pass p (Granted r) s"
      using Some True r by (simp add: numeral_eq_Suc login_step_def)
    have out: "login_outcome name pass p s = login_user p name (ur_privilege r) s"
      using Some True r by (simp add: login_outcome_def)
    show ?thesis
    proof (cases "strcpy (us_username user) name")
      case nm: (Some nm)
      define s1 where "s1 = s\<lparr>users_heap := (users_heap s)(p \<mapsto> user\<lparr>us_loggedIn := 1, us_username := nm, us_privilege := ur_privilege r\<rparr>)\<rparr>"
      have up: "update_user p (\<lambda>u. u\<lparr>us_loggedIn := 1, us_username := nm, us_privilege := ur_privilege r\<rparr>) s = Some s1"
        using Some by (simp add: update_user_def s1_def)
      obtain ret s2 where add: "addActiveUser p s1 = (ret, s2)" by (metis surj_pair)
      show ?thesis unfolding checked out
        using Some nm up add
        by (cases "update_user p (\<lambda>_. zeroed_user) s2") (simp_all add: numeral_eq_Suc login_step_def login_user_def)
    next
      case None
      then show ?thesis unfolding checked out using Some by (simp add: numeral_eq_Suc login_step_def login_user_def)
    qed
  next
    case False
    then show ?thesis using Some
      by (auto simp: numeral_eq_Suc login_step_def login_outcome_def split: option.split bind_split)
  qed
qed (simp add: numeral_eq_Suc login_step_def login_outcome_def)

section \<open>Interleaved logins\<close>

text \<open>A connection in the middle of a login, found by its \<open>User\<close>; one of them makes a step.\<close>

record login =
  lg_name :: bytes
  lg_pass :: bytes
  lg_pc :: login_pc

inductive race_step :: "(nat \<rightharpoonup> login) \<times> server \<Rightarrow> (nat \<rightharpoonup> login) \<times> server \<Rightarrow> bool" where
  "th p = Some l \<Longrightarrow> login_step (lg_name l) (lg_pass l) p (lg_pc l) s = Some (pc', s') \<Longrightarrow>
     race_step (th, s) (th(p \<mapsto> l\<lparr>lg_pc := pc'\<rparr>), s')"

inductive_cases race_stepE: "race_step (th, s) t"

text \<open>What holds of a connection's \<open>User\<close> where its login stands.\<close>

definition login_ok :: "server \<Rightarrow> nat \<Rightarrow> login \<Rightarrow> bool" where
  "login_ok s p l \<longleftrightarrow> no_nul (lg_name l) \<and> length (lg_name l) < 100
     \<and> (case users_heap s p of None \<Rightarrow> False | Some u \<Rightarrow> length (us_username u) = 100
          \<and> (case lg_pc l of
               Granted r \<Rightarrow> us_loggedIn u = 0
             | Marked \<Rightarrow> session_ok (Some u) \<and> c_str (us_username u) = lg_name l \<and> p \<notin> set (active s)
             | _ \<Rightarrow> True))"

definition race_inv :: "(nat \<rightharpoonup> login) \<times> server \<Rightarrow> bool" where
  "race_inv = (\<lambda>(th, s). slots_ok MAX_USERS (activeUsers s) (activeUserList s)
     \<and> (\<forall>p \<in> set (active s). session_ok (users_heap s p)) \<and> distinct (active s)
     \<and> (\<forall>p l. th p = Some l \<longrightarrow> login_ok s p l))"

lemma search_defined:
  assumes "slots_ok MAX_USERS (activeUsers s) (activeUserList s)" "\<forall>p \<in> set (active s). session_ok (users_heap s p)"
  shows "\<exists>i. findActiveUserIndex nm s = Some i"
proof -
  have "\<forall>j < 0 + activeUsers s. \<forall>p. activeUserList s ! j = Some p \<longrightarrow> users_heap s p \<noteq> None"
  proof (intro allI impI)
    fix j p
    assume j: "j < 0 + activeUsers s" and p: "activeUserList s ! j = Some p"
    then have "p \<in> set (active s)"
      using slots_okD(3,5) [OF assms(1)] nth_mem [of j "active s"] by (simp add: active_def)
    then have "session_ok (users_heap s p)" using assms(2) by blast
    then show "users_heap s p \<noteq> None" by (auto simp: session_ok_def split: option.splits)
  qed
  from user_loop_slots [OF this, of nm] show ?thesis by (simp add: findActiveUserIndex_def)
qed

lemma zeroed_length [simp]: "length (us_username zeroed_user) = 100"
  by (simp add: zeroed_user_def)

text \<open>One step, seen from its own connection: it is defined, and only its own \<open>User\<close> and its own registration change.\<close>

lemma login_step_ok:
  assumes slots: "slots_ok MAX_USERS (activeUsers s) (activeUserList s)" and live: "\<forall>q \<in> set (active s). session_ok (users_heap s q)"
    and l: "login_ok s p \<lparr>lg_name = name, lg_pass = pass, lg_pc = pc\<rparr>"
  shows "\<exists>pc' s'. login_step name pass p pc s = Some (pc', s')
    \<and> slots_ok MAX_USERS (activeUsers s') (activeUserList s')
    \<and> (active s' = active s \<or> p \<notin> set (active s) \<and> active s' = active s @ [p])
    \<and> (\<forall>q. q \<noteq> p \<longrightarrow> users_heap s' q = users_heap s q) \<and> (\<forall>q \<in> set (active s'). session_ok (users_heap s' q))
    \<and> login_ok s' p \<lparr>lg_name = name, lg_pass = pass, lg_pc = pc'\<rparr>"
proof -
  obtain u where u: "users_heap s p = Some u" "length (us_username u) = 100" "no_nul name" "length name < 100"
    using l by (auto simp: login_ok_def split: option.splits)
  have out: "p \<notin> set (active s)" if "us_loggedIn u = 0"
    using live u(1) that by (auto simp: session_ok_def)
  show ?thesis
  proof (cases pc)
    case Begin
    then show ?thesis using slots live l u by (simp add: login_ok_def)
  next
    case (Looked r)
    obtain i where "findActiveUserIndex name s = Some i" using search_defined [OF slots live] by blast
    then show ?thesis using slots live l u Looked
      by (auto simp: login_step_def login_ok_def split: option.splits)
  next
    case (Granted r)
    obtain m where m: "strcpy (us_username u) name = Some m" using strcpy_fits u(2,4) by metis
    then have t: "terminated 100 m" "c_str m = name" "length m = 100"
      using strcpy_terminated [OF m] strcpy_c_str [OF m u(3), of "[]"] u(2) by simp_all
    have off: "us_loggedIn u = 0" using l u(1) Granted by (simp add: login_ok_def)
    define s1 where "s1 = s\<lparr>users_heap := (users_heap s)(p \<mapsto> u\<lparr>us_loggedIn := 1, us_username := m, us_privilege := ur_privilege r\<rparr>)\<rparr>"
    have "login_step name pass p pc s = Some (Marked, s1)"
      using u(1) m Granted by (simp add: login_step_def update_user_def s1_def)
    moreover have act: "active s1 = active s" by (simp add: s1_def active_def)
    moreover have "login_ok s1 p \<lparr>lg_name = name, lg_pass = pass, lg_pc = Marked\<rparr>"
      using u(3,4) t out [OF off] act by (simp add: login_ok_def s1_def session_ok_def)
    moreover have "\<forall>q \<in> set (active s1). session_ok (users_heap s1 q)" using live out [OF off] act by (auto simp: s1_def)
    ultimately show ?thesis using slots by (auto simp: s1_def)
  next
    case Marked
    have mark: "session_ok (Some u)" "p \<notin> set (active s)" using l u(1) Marked by (simp_all add: login_ok_def)
    show ?thesis
    proof (cases "activeUsers s < MAX_USERS")
      case True
      define s1 where "s1 = s\<lparr>activeUserList := (activeUserList s)[activeUsers s := Some p], activeUsers := activeUsers s + 1\<rparr>"
      have "login_step name pass p pc s = Some (Answered SUCCESS ''Login successful'', s1)"
        using True Marked by (simp add: login_step_def addActiveUser_def s1_def)
      moreover have "slots_ok MAX_USERS (activeUsers s1) (activeUserList s1)" "active s1 = active s @ [p]"
        using slot_add_items [OF slots True, of p] by (simp_all add: s1_def active_def)
      moreover have "users_heap s1 = users_heap s" by (simp add: s1_def)
      ultimately show ?thesis using live mark u by (auto simp: login_ok_def)
    next
      case False
      define s1 where "s1 = s\<lparr>users_heap := (users_heap s)(p \<mapsto> zeroed_user)\<rparr>"
      have "login_step name pass p pc s = Some (Answered FAILURE ''Server full. Try again later.'', s1)"
        using False Marked u(1) by (simp add: login_step_def addActiveUser_def update_user_def s1_def)
      moreover have "active s1 = active s" by (simp add: s1_def active_def)
      moreover have "\<forall>q \<in> set (active s1). session_ok (users_heap s1 q)" using live mark by (auto simp: s1_def active_def)
      ultimately show ?thesis using slots u by (auto simp: login_ok_def s1_def)
    qed
  next
    case Answered
    then show ?thesis using slots live l by simp
  qed
qed

lemma race_step_inv:
  assumes "race_inv st" "race_step st st'"
  shows "race_inv st'"
proof -
  obtain th s where st: "st = (th, s)" by (metis surj_pair)
  from assms(2) [unfolded st] obtain p l pc' s' where l: "th p = Some l"
    "login_step (lg_name l) (lg_pass l) p (lg_pc l) s = Some (pc', s')" "st' = (th(p \<mapsto> l\<lparr>lg_pc := pc'\<rparr>), s')"
    by (elim race_stepE) auto
  have inv: "slots_ok MAX_USERS (activeUsers s) (activeUserList s)" "\<forall>q \<in> set (active s). session_ok (users_heap s q)"
    "distinct (active s)" "\<And>q k. th q = Some k \<Longrightarrow> login_ok s q k"
    using assms(1) by (simp_all add: st race_inv_def)
  have eta: "l = \<lparr>lg_name = lg_name l, lg_pass = lg_pass l, lg_pc = lg_pc l\<rparr>"
    "\<lparr>lg_name = lg_name l, lg_pass = lg_pass l, lg_pc = pc'\<rparr> = l\<lparr>lg_pc := pc'\<rparr>" by simp_all
  have s': "slots_ok MAX_USERS (activeUsers s') (activeUserList s')" "\<forall>q \<in> set (active s'). session_ok (users_heap s' q)"
    "active s' = active s \<or> p \<notin> set (active s) \<and> active s' = active s @ [p]"
    "\<And>q. q \<noteq> p \<Longrightarrow> users_heap s' q = users_heap s q" "login_ok s' p (l\<lparr>lg_pc := pc'\<rparr>)"
    using login_step_ok [OF inv(1,2), of p "lg_name l" "lg_pass l" "lg_pc l"] inv(4) [OF l(1)] l(2) eta by auto
  have "login_ok s' q k" if "th q = Some k" "q \<noteq> p" for q k
    using inv(4) [OF that(1)] s'(3,4) that(2) by (auto simp: login_ok_def split: option.splits login_pc.splits)
  then show ?thesis using s' inv(3) by (auto simp: race_inv_def l(3))
qed

text \<open>C7: what the locks give. However the steps of any number of logins interleave, the array of active users
  stays well-formed and within its capacity, its pointers are distinct and each of them points to an
  allocated, logged-in \<open>User\<close>, and no login is stuck: its next step is defined.\<close>

theorem login_race_invariant:
  assumes "race_step\<^sup>*\<^sup>* (th, s) (th', s')" "race_inv (th, s)"
  shows "slots_ok MAX_USERS (activeUsers s') (activeUserList s') \<and> distinct (active s') \<and> length (active s') \<le> MAX_USERS
    \<and> (\<forall>p \<in> set (active s'). session_ok (users_heap s' p))
    \<and> (\<forall>p l. th' p = Some l \<longrightarrow> (\<exists>pc1 s1. login_step (lg_name l) (lg_pass l) p (lg_pc l) s' = Some (pc1, s1)))"
proof -
  have "race_inv (th', s')"
    using assms by (induction rule: rtranclp_induct) (auto intro: race_step_inv)
  then have inv: "slots_ok MAX_USERS (activeUsers s') (activeUserList s')" "\<forall>q \<in> set (active s'). session_ok (users_heap s' q)"
    "distinct (active s')" "\<And>q k. th' q = Some k \<Longrightarrow> login_ok s' q k"
    by (simp_all add: race_inv_def)
  have "\<exists>pc1 s1. login_step (lg_name l) (lg_pass l) p (lg_pc l) s' = Some (pc1, s1)" if "th' p = Some l" for p l
    using login_step_ok [OF inv(1,2), of p "lg_name l" "lg_pass l" "lg_pc l"] inv(4) [OF that] by (cases l) auto
  moreover have "length (active s') \<le> MAX_USERS" using slots_okD(2,5) [OF inv(1)] by (simp add: active_def)
  ultimately show ?thesis using inv by blast
qed

section \<open>Two sessions of one name\<close>

lemma race_login_step:
  assumes "th p = Some l" "login_step (lg_name l) (lg_pass l) p (lg_pc l) s = Some (pc', s')"
  shows "race_step\<^sup>*\<^sup>* (th, s) (th(p \<mapsto> l\<lparr>lg_pc := pc'\<rparr>), s')"
  by (rule r_into_rtranclp) (use assms in \<open>auto intro: race_step.intros\<close>)

text \<open>The last two steps of a login whose checks are done.\<close>

lemma granted_steps:
  assumes "slots_ok MAX_USERS (activeUsers s) (activeUserList s)" "activeUsers s < MAX_USERS"
    and "users_heap s p = Some u" "length (us_username u) = 100" "no_nul name" "length name < 100" "p \<notin> set (active s)"
    and "th p = Some \<lparr>lg_name = name, lg_pass = pass, lg_pc = Granted r\<rparr>"
  shows "\<exists>s' u'. race_step\<^sup>*\<^sup>* (th, s) (th(p \<mapsto> \<lparr>lg_name = name, lg_pass = pass, lg_pc = Answered SUCCESS ''Login successful''\<rparr>), s')
    \<and> slots_ok MAX_USERS (activeUsers s') (activeUserList s') \<and> activeUsers s' = activeUsers s + 1 \<and> active s' = active s @ [p]
    \<and> users_heap s' = (users_heap s)(p \<mapsto> u') \<and> session_ok (Some u') \<and> c_str (us_username u') = name"
proof -
  obtain m where m: "strcpy (us_username u) name = Some m" using strcpy_fits assms(4,6) by metis
  then have t: "terminated 100 m" "c_str m = name"
    using strcpy_terminated [OF m] strcpy_c_str [OF m assms(5), of "[]"] assms(4) by simp_all
  define u' where "u' = u\<lparr>us_loggedIn := 1, us_username := m, us_privilege := ur_privilege r\<rparr>"
  define s1 where "s1 = s\<lparr>users_heap := (users_heap s)(p \<mapsto> u')\<rparr>"
  define s2 where "s2 = s1\<lparr>activeUserList := (activeUserList s)[activeUsers s := Some p], activeUsers := activeUsers s + 1\<rparr>"
  define th1 where "th1 = th(p \<mapsto> \<lparr>lg_name = name, lg_pass = pass, lg_pc = Marked\<rparr>)"
  have "login_step name pass p (Granted r) s = Some (Marked, s1)"
    using assms(3) m by (simp add: login_step_def update_user_def s1_def u'_def)
  then have "race_step\<^sup>*\<^sup>* (th, s) (th1, s1)"
    using race_login_step [of th p, OF assms(8)] by (simp add: th1_def)
  moreover have "login_step name pass p Marked s1 = Some (Answered SUCCESS ''Login successful'', s2)"
    using assms(2) by (simp add: login_step_def addActiveUser_def s1_def s2_def)
  then have "race_step\<^sup>*\<^sup>* (th1, s1) (th1(p \<mapsto> \<lparr>lg_name = name, lg_pass = pass, lg_pc = Answered SUCCESS ''Login successful''\<rparr>), s2)"
    using race_login_step [of th1 p "\<lparr>lg_name = name, lg_pass = pass, lg_pc = Marked\<rparr>" s1] by (simp add: th1_def)
  ultimately have run: "race_step\<^sup>*\<^sup>* (th, s) (th(p \<mapsto> \<lparr>lg_name = name, lg_pass = pass, lg_pc = Answered SUCCESS ''Login successful''\<rparr>), s2)"
    by (simp add: th1_def)
  have "slots_ok MAX_USERS (activeUsers s2) (activeUserList s2)" "active s2 = active s @ [p]"
    using slot_add_items [OF assms(1,2), of p] by (simp_all add: s1_def s2_def active_def)
  moreover have "users_heap s2 = (users_heap s)(p \<mapsto> u')" by (simp add: s1_def s2_def)
  moreover have "session_ok (Some u')" "c_str (us_username u') = name" using t by (simp_all add: u'_def session_ok_def)
  ultimately show ?thesis using run by (intro exI [of _ s2] exI [of _ u']) (simp add: s1_def s2_def)
qed

text \<open>The first two steps of a login that would be granted change nothing but its own position.\<close>

lemma granting_steps:
  assumes "users_inv s" "login_granted name pass p s" "th p = Some \<lparr>lg_name = name, lg_pass = pass, lg_pc = Begin\<rparr>"
    and "getUserRecord name s = Some r"
  shows "race_step\<^sup>*\<^sup>* (th, s) (th(p \<mapsto> \<lparr>lg_name = name, lg_pass = pass, lg_pc = Granted r\<rparr>), s)"
proof -
  obtain u where u: "users_heap s p = Some u" "us_loggedIn u = 0" "name \<notin> fst ` set (sessions s)" "c_str (ur_password r) = pass"
    using assms(2,4) by (auto simp: login_granted_def split: option.splits)
  have free: "findActiveUserIndex name s = Some (-1)" using findActiveUserIndex_missing [OF assms(1)] u(3) by simp
  define th1 where "th1 = th(p \<mapsto> \<lparr>lg_name = name, lg_pass = pass, lg_pc = Looked (Some r)\<rparr>)"
  have "race_step\<^sup>*\<^sup>* (th, s) (th1, s)"
    using race_login_step [of th p, OF assms(3), of s "Looked (Some r)" s] assms(4) by (simp add: th1_def)
  moreover have "race_step\<^sup>*\<^sup>* (th1, s) (th1(p \<mapsto> \<lparr>lg_name = name, lg_pass = pass, lg_pc = Granted r\<rparr>), s)"
    using race_login_step [of th1 p "\<lparr>lg_name = name, lg_pass = pass, lg_pc = Looked (Some r)\<rparr>" s "Granted r" s] u free
    by (simp add: th1_def login_step_def)
  ultimately show ?thesis by (simp add: th1_def)
qed

text \<open>A search that reaches a pointer to a freed \<open>User\<close> is undefined.\<close>

lemma search_undefined:
  assumes "slots_ok MAX_USERS (activeUsers s) (activeUserList s)" "i < activeUsers s" "users_heap s (active s ! i) = None"
    and "\<forall>p. users_heap s p \<noteq> None \<longrightarrow> p \<in> set (active s) \<longrightarrow> name_of s p \<noteq> nm"
  shows "findActiveUserIndex nm s = None"
proof -
  have "user_loop s nm j m = None" if "j + m = activeUsers s" "j \<le> i" for j m
    using that
  proof (induction m arbitrary: j)
    case 0
    then show ?case using assms(2) by simp
  next
    case (Suc m)
    have j: "j < activeUsers s" using Suc.prems by simp
    have slot: "activeUserList s ! j = Some (active s ! j)" using slots_okD(3) [OF assms(1) j] by (simp add: active_def)
    have mem: "active s ! j \<in> set (active s)" using j slots_okD(5) [OF assms(1)] by (simp add: active_def)
    show ?case
    proof (cases "users_heap s (active s ! j)")
      case (Some u)
      then have "j \<noteq> i" using assms(3) by auto
      then have "user_loop s nm (Suc j) m = None" using Suc by simp
      moreover have "c_str (us_username u) \<noteq> nm" using assms(4) mem Some by (auto simp: name_of_def)
      ultimately show ?thesis using slot Some by simp
    qed (simp add: slot)
  qed
  from this [of 0 "activeUsers s"] show ?thesis using assms(2) by (simp add: findActiveUserIndex_def)
qed

text \<open>With two sessions of one name at the end, the removal by name hits the first of them.\<close>

lemma remove_first_of_two:
  assumes slots: "slots_ok MAX_USERS (activeUsers s) (activeUserList s)" "activeUsers s = length xs + 2" "active s = xs @ [p, q]"
    and "\<forall>x \<in> set (active s). users_heap s x \<noteq> None" "\<forall>x \<in> set xs. name_of s x \<noteq> nm" "name_of s p = nm"
  shows "\<exists>s'. removeActiveUser nm s = Some (0, s') \<and> slots_ok MAX_USERS (activeUsers s') (activeUserList s')
    \<and> activeUsers s' = length xs + 1 \<and> active s' = xs @ [q] \<and> users_heap s' = users_heap s"
proof -
  have "\<forall>j < 0 + activeUsers s. \<forall>x. activeUserList s ! j = Some x \<longrightarrow> users_heap s x \<noteq> None"
  proof (intro allI impI)
    fix j x assume "j < 0 + activeUsers s" "activeUserList s ! j = Some x"
    then have "x \<in> set (active s)" using slots_okD(3,5) [OF slots(1)] nth_mem [of j "active s"] by (simp add: active_def)
    then show "users_heap s x \<noteq> None" using assms(4) by blast
  qed
  from user_loop_slots [OF this, of nm] slot_find_items [OF slots(1)]
  have loop: "user_loop s nm 0 (activeUsers s) = Some (map_option (\<lambda>j. (j, the (activeUserList s ! j)))
      (find_index (\<lambda>x. name_of s x = nm) (active s)))" by (simp add: active_def)
  have "find_index (\<lambda>x. name_of s x = nm) (xs @ [p, q]) = Some (length xs)"
    using assms(5,6) by (induction xs) auto
  then have hit: "removeActiveUser nm s = Some (0, s\<lparr>activeUserList := slot_remove (length xs) (activeUsers s) (activeUserList s),
      activeUsers := activeUsers s - 1\<rparr>)"
    using loop slots(3) by (simp add: removeActiveUser_def)
  have "length xs < activeUsers s" using slots(2) by simp
  note rm = slot_remove_items [OF slots(1) this]
  have "swap_remove (length xs) (active s) = xs @ [q]" by (simp add: slots(3) swap_remove_def list_update_append butlast_append)
  then show ?thesis using hit rm slots(2) by (simp add: active_def)
qed

text \<open>Two such logins, interleaved so that both pass the check, are both entered.\<close>

lemma both_logged_in:
  assumes "users_inv s" "heap_inv s" "p \<noteq> q" "login_granted name pass p s" "login_granted name pass q s"
    and "length (sessions s) + 2 \<le> MAX_USERS" "no_nul name" "length name < 100"
    and "th p = Some \<lparr>lg_name = name, lg_pass = pass, lg_pc = Begin\<rparr>" "th q = Some \<lparr>lg_name = name, lg_pass = pass, lg_pc = Begin\<rparr>"
  obtains th' s' u' v' where "race_step\<^sup>*\<^sup>* (th, s) (th', s')"
    "\<forall>x \<in> {p, q}. \<exists>l. th' x = Some l \<and> lg_pc l = Answered SUCCESS ''Login successful''"
    "slots_ok MAX_USERS (activeUsers s') (activeUserList s')" "activeUsers s' = activeUsers s + 2" "active s' = active s @ [p, q]"
    "users_heap s' = (users_heap s)(p \<mapsto> u', q \<mapsto> v')" "c_str (us_username u') = name" "c_str (us_username v') = name"
    "p \<notin> set (active s)" "q \<notin> set (active s)"
proof -
  obtain r where r: "getUserRecord name s = Some r" using assms(4) by (auto simp: login_granted_def split: option.splits)
  obtain u v where uv: "users_heap s p = Some u" "us_loggedIn u = 0" "users_heap s q = Some v" "us_loggedIn v = 0"
    using assms(4,5) by (auto simp: login_granted_def split: option.splits)
  have len: "length (us_username u) = 100" "length (us_username v) = 100" using heap_invD [OF assms(2)] uv by blast+
  have out: "p \<notin> set (active s)" "q \<notin> set (active s)"
    using not_logged_in_inactive [OF assms(1)] uv by blast+
  note slots = users_invD(1) [OF assms(1)]
  have room: "activeUsers s + 2 \<le> MAX_USERS" using assms(6) users_invD(4) [OF assms(1)] by (simp add: sessions_def)
  define thp where "thp = th(p \<mapsto> \<lparr>lg_name = name, lg_pass = pass, lg_pc = Granted r\<rparr>)"
  define thq where "thq = thp(q \<mapsto> \<lparr>lg_name = name, lg_pass = pass, lg_pc = Granted r\<rparr>)"
  have "race_step\<^sup>*\<^sup>* (th, s) (thp, s)" unfolding thp_def by (rule granting_steps [where th = th, OF assms(1,4,9) r])
  moreover have "race_step\<^sup>*\<^sup>* (thp, s) (thq, s)" unfolding thq_def
    by (rule granting_steps [OF assms(1,5) _ r]) (use assms(3,10) in \<open>simp add: thp_def\<close>)
  ultimately have run0: "race_step\<^sup>*\<^sup>* (th, s) (thq, s)" by (rule rtranclp_trans)
  define ok where "ok = \<lparr>lg_name = name, lg_pass = pass, lg_pc = Answered SUCCESS ''Login successful''\<rparr>"
  obtain t u' where t: "race_step\<^sup>*\<^sup>* (thq, s) (thq(p \<mapsto> ok), t)"
    "slots_ok MAX_USERS (activeUsers t) (activeUserList t)" "activeUsers t = activeUsers s + 1" "active t = active s @ [p]"
    "users_heap t = (users_heap s)(p \<mapsto> u')" "session_ok (Some u')" "c_str (us_username u') = name"
    using granted_steps [OF slots _ uv(1) len(1) assms(7,8) out(1), of thq pass r] room assms(3)
    by (auto simp: thq_def thp_def ok_def)
  have q_t: "users_heap t q = Some v" "q \<notin> set (active t)" using t(4,5) uv(3) out(2) assms(3) by auto
  obtain s' v' where s': "race_step\<^sup>*\<^sup>* (thq(p \<mapsto> ok), t) (thq(p \<mapsto> ok, q \<mapsto> ok), s')"
    "slots_ok MAX_USERS (activeUsers s') (activeUserList s')" "activeUsers s' = activeUsers s + 2" "active s' = active s @ [p, q]"
    "users_heap s' = (users_heap s)(p \<mapsto> u', q \<mapsto> v')" "session_ok (Some v')" "c_str (us_username v') = name"
    using granted_steps [OF t(2) _ q_t(1) len(2) assms(7,8) q_t(2), of "thq(p \<mapsto> ok)" pass r] room assms(3) t(3-5)
    by (auto simp: thq_def ok_def)
  have run: "race_step\<^sup>*\<^sup>* (th, s) (thq(p \<mapsto> ok, q \<mapsto> ok), s')"
    using run0 t(1) s'(1) by (meson rtranclp_trans)
  show ?thesis by (rule that [OF run _ s'(2-5) t(7) s'(7) out]) (use assms(3) in \<open>auto simp: ok_def\<close>)
qed

text \<open>When the second \<open>User\<close> is freed and still registered, no new name can be looked up.\<close>

lemma freed_entry:
  assumes "users_inv s" "slots_ok MAX_USERS (activeUsers s2) (activeUserList s2)" "activeUsers s2 = activeUsers s + 1"
    and "active s2 = active s @ [q]" "users_heap s2 = (users_heap s)(p \<mapsto> u', q \<mapsto> v')"
    and out: "p \<notin> set (active s)" "q \<notin> set (active s)" and other: "other \<notin> fst ` set (sessions s)"
  shows "findActiveUserIndex other (free_user q s2) = None"
proof (rule search_undefined [where i = "activeUsers s"])
  show "slots_ok MAX_USERS (activeUsers (free_user q s2)) (activeUserList (free_user q s2))"
    "activeUsers s < activeUsers (free_user q s2)" using assms(2,3) by (simp_all add: free_user_def)
  have act: "active (free_user q s2) = active s @ [q]" using assms(4) by (simp add: free_user_def active_def)
  then show "users_heap (free_user q s2) (active (free_user q s2) ! activeUsers s) = None"
    using users_invD(4) [OF assms(1)] by (simp add: nth_append free_user_def)
  have "name_of (free_user q s2) x = name_of s x" if "x \<in> set (active s)" for x
    using that out assms(5) by (auto simp: name_of_def free_user_def)
  moreover have "name_of s x \<noteq> other" if "x \<in> set (active s)" for x using that other by (force simp: sessions_def)
  ultimately have "name_of (free_user q s2) x \<noteq> other" if "x \<in> set (active s)" for x using that by simp
  then show "\<forall>x. users_heap (free_user q s2) x \<noteq> None \<longrightarrow> x \<in> set (active (free_user q s2)) \<longrightarrow> name_of (free_user q s2) x \<noteq> other"
    using act by (auto simp: free_user_def)
qed

text \<open>C21: the check and the registration of a login are not one locked section. Two connections that log in with the
  same name and password at the same time can both pass the check and both be answered \<open>SUCCESS\<close>: the
  name then has two sessions. When the second of them leaves, \<open>removeActiveUser\<close> takes the first
  one's entry out of the array - he is no longer registered - and the second one's \<open>User\<close> is freed although its
  entry is still there: every later search for a name that is not found before it follows the dangling pointer.\<close>

theorem login_race_use_after_free:
  assumes "users_inv s" "heap_inv s" "p \<noteq> q" "login_granted name pass p s" "login_granted name pass q s"
    and "length (sessions s) + 2 \<le> MAX_USERS" "no_nul name" "length name < 100"
    and "th p = Some \<lparr>lg_name = name, lg_pass = pass, lg_pc = Begin\<rparr>" "th q = Some \<lparr>lg_name = name, lg_pass = pass, lg_pc = Begin\<rparr>"
    and "c_user c = q"
  shows "\<exists>th' s' s1. race_step\<^sup>*\<^sup>* (th, s) (th', s') \<and> sessions s' = sessions s @ [(name, p), (name, q)]
    \<and> (\<forall>x \<in> {p, q}. \<exists>l. th' x = Some l \<and> lg_pc l = Answered SUCCESS ''Login successful'')
    \<and> handle_disconnect c s' = Some (Leave, c, s1)
    \<and> active s' = active s @ [p, q] \<and> active s1 = active s @ [q] \<and> p \<notin> set (active s1) \<and> users_heap s1 q = None
    \<and> (\<forall>other. other \<notin> insert name (fst ` set (sessions s)) \<longrightarrow> findActiveUserIndex other s1 = None)"
proof -
  obtain th' s' u' v' where run: "race_step\<^sup>*\<^sup>* (th, s) (th', s')"
    "\<forall>x \<in> {p, q}. \<exists>l. th' x = Some l \<and> lg_pc l = Answered SUCCESS ''Login successful''"
    and s': "slots_ok MAX_USERS (activeUsers s') (activeUserList s')" "activeUsers s' = activeUsers s + 2" "active s' = active s @ [p, q]"
      "users_heap s' = (users_heap s)(p \<mapsto> u', q \<mapsto> v')" "c_str (us_username u') = name" "c_str (us_username v') = name"
    and out: "p \<notin> set (active s)" "q \<notin> set (active s)"
    by (rule both_logged_in [OF assms(1-10)]) (rule that)
  have new: "name \<notin> fst ` set (sessions s)" using assms(4) by (simp add: login_granted_def)
  have old: "name_of s' x = name_of s x" if "x \<in> set (active s)" for x
    using that out s'(4) by (auto simp: name_of_def)
  have sess: "sessions s' = sessions s @ [(name, p), (name, q)]"
    using old s'(3-6) assms(3) by (simp add: sessions_def name_of_def)
  have "users_heap s' x \<noteq> None" if "x \<in> set (active s)" for x
    using that session_live [OF assms(1)] s'(4) by fastforce
  then have live: "\<forall>x \<in> set (active s'). users_heap s' x \<noteq> None" using s'(3,4) by auto
  have "name_of s x \<noteq> name" if "x \<in> set (active s)" for x using that new by (force simp: sessions_def)
  then have names: "\<forall>x \<in> set (active s). name_of s' x \<noteq> name" "name_of s' p = name"
    using old s'(4,5) assms(3) by (simp_all add: name_of_def)
  obtain s2 where s2: "removeActiveUser name s' = Some (0, s2)" "slots_ok MAX_USERS (activeUsers s2) (activeUserList s2)"
    "activeUsers s2 = activeUsers s + 1" "active s2 = active s @ [q]" "users_heap s2 = users_heap s'"
    using remove_first_of_two [OF s'(1) _ s'(3), of name] s'(2) live names users_invD(4) [OF assms(1)] by auto
  have "handle_disconnect c s' = Some (Leave, c, free_user q s2)"
    using s'(4,6) s2(1) assms(11) by (simp add: handle_disconnect_def user_string_def)
  moreover have "findActiveUserIndex other (free_user q s2) = None" if "other \<notin> fst ` set (sessions s)" for other
    by (rule freed_entry [OF assms(1) s2(2-4) _ out that]) (simp add: s2(5) s'(4))
  moreover have "active (free_user q s2) = active s @ [q]" "users_heap (free_user q s2) q = None"
    using s2(4) by (simp_all add: free_user_def active_def)
  moreover have "p \<notin> set (active s @ [q])" using out(1) assms(3) by simp
  ultimately show ?thesis using run sess s'(3) by (intro exI [of _ th'] exI [of _ s'] exI [of _ "free_user q s2"]) simp
qed

section \<open>Two connections of Ann\<close>

definition demo_two :: server where
  "demo_two = accept_user 7 10 demo_guest"

definition ann_logins :: "nat \<rightharpoonup> login" where
  "ann_logins = (\<lambda>p. if p \<in> {9, 10} then Some \<lparr>lg_name = ''ann'', lg_pass = ''secret'', lg_pc = Begin\<rparr> else None)"

lemma demo_two_facts:
  "users_inv demo_two" "heap_inv demo_two" "sessions demo_two = [(''bob'', 0)]"
  "login_granted ''ann'' ''secret'' 9 demo_two" "login_granted ''ann'' ''secret'' 10 demo_two"
  "getUserRecord ''ann'' demo_two = Some demo_ann"
proof -
  have free: "users_heap demo_guest 10 = None"
    by (simp add: demo_guest_def accept_user_def Let_def demo_base_def demo_server_simps)
  have inv: "system_inv demo_guest" using demo_guest_facts(1) by (simp add: ready_def)
  note a = accept_inv [OF inv free, of 7]
  show "users_inv demo_two" "heap_inv demo_two" using a(1) by (simp_all add: demo_two_def system_inv_def)
  show sess: "sessions demo_two = [(''bob'', 0)]" using a(2) demo_guest_facts(3) by (simp add: demo_two_def)
  have rec: "getUserRecord ''ann'' demo_two = Some demo_ann"
    using getRecord_same [of demo_two "''users.dat''" demo_guest] demo_guest_facts(5) [of "''ann''"]
    by (simp add: getUserRecord_def demo_two_def accept_user_def Let_def)
  have off: "\<exists>u. users_heap demo_two 9 = Some u \<and> us_loggedIn u = 0" "\<exists>u. users_heap demo_two 10 = Some u \<and> us_loggedIn u = 0"
    using demo_guest_facts(4) by (simp_all add: demo_two_def accept_user_def Let_def)
  show "getUserRecord ''ann'' demo_two = Some demo_ann" by (rule rec)
  show "login_granted ''ann'' ''secret'' 9 demo_two" "login_granted ''ann'' ''secret'' 10 demo_two"
    using off sess rec by (auto simp: login_granted_def demo_ann_def no_nul_def MAX_USERS_def)
qed

theorem login_race_use_after_free_witness:
  "\<exists>th' s' s1. race_step\<^sup>*\<^sup>* (ann_logins, demo_two) (th', s')
    \<and> sessions s' = [(''bob'', 0), (''ann'', 9), (''ann'', 10)]
    \<and> handle_disconnect (demo_conn ''ann'' 7 10) s' = Some (Leave, demo_conn ''ann'' 7 10, s1)
    \<and> 9 \<notin> set (active s1) \<and> users_heap s1 10 = None
    \<and> findActiveUserIndex ''eve'' s1 = None"
proof -
  have side: "(9 :: nat) \<noteq> 10" "length (sessions demo_two) + 2 \<le> MAX_USERS" "no_nul ''ann''" "length ''ann'' < 100"
    "ann_logins 9 = Some \<lparr>lg_name = ''ann'', lg_pass = ''secret'', lg_pc = Begin\<rparr>"
    "ann_logins 10 = Some \<lparr>lg_name = ''ann'', lg_pass = ''secret'', lg_pc = Begin\<rparr>" "c_user (demo_conn ''ann'' 7 10) = 10"
    by (simp_all add: demo_two_facts(3) MAX_USERS_def no_nul_def ann_logins_def demo_conn_def)
  obtain th' s' s1 where "race_step\<^sup>*\<^sup>* (ann_logins, demo_two) (th', s')"
    "sessions s' = sessions demo_two @ [(''ann'', 9), (''ann'', 10)]"
    "handle_disconnect (demo_conn ''ann'' 7 10) s' = Some (Leave, demo_conn ''ann'' 7 10, s1)"
    "9 \<notin> set (active s1)" "users_heap s1 10 = None" "\<forall>other. other \<notin> insert ''ann'' (fst ` set (sessions demo_two)) \<longrightarrow> findActiveUserIndex other s1 = None"
    using login_race_use_after_free [where th = ann_logins, OF demo_two_facts(1,2) side(1) demo_two_facts(4,5) side(2-7)] by blast
  moreover from this(6) have "findActiveUserIndex ''eve'' s1 = None" using demo_two_facts(3) by simp
  ultimately show ?thesis using demo_two_facts(3) by (intro exI [of _ th'] exI [of _ s'] exI [of _ s1]) simp
qed

theorem login_race_invariant_witness:
  "race_step\<^sup>*\<^sup>* (ann_logins, demo_two) (ann_logins(9 \<mapsto> \<lparr>lg_name = ''ann'', lg_pass = ''secret'', lg_pc = Granted demo_ann\<rparr>), demo_two)
    \<and> distinct (active demo_two)"
proof -
  have run: "race_step\<^sup>*\<^sup>* (ann_logins, demo_two) (ann_logins(9 \<mapsto> \<lparr>lg_name = ''ann'', lg_pass = ''secret'', lg_pc = Granted demo_ann\<rparr>), demo_two)"
    by (rule granting_steps [OF demo_two_facts(1,4) _ demo_two_facts(6)]) (simp add: ann_logins_def)
  have "login_ok demo_two p l" if "ann_logins p = Some l" for p l
    using that demo_two_facts(2,4,5) heap_invD [of demo_two p]
    by (auto simp: ann_logins_def login_ok_def login_granted_def no_nul_def split: option.splits if_splits)
  then have "race_inv (ann_logins, demo_two)"
    using users_invD(1,2) [OF demo_two_facts(1)] distinct_active [OF demo_two_facts(1)] by (simp add: race_inv_def)
  from login_race_invariant [OF run this] run show ?thesis by blast
qed

end
