(* ===== verification/World.thy ===== *)
theory World
  imports System LoginRace
begin

text \<open>
  The server's steps. \<open>conns\<close> maps the address of a connection's \<open>User\<close> to the connection and to where its
  thread is: before the check of \<open>duelRequest\<close>, behind it and blocked in \<open>read\<close>, or in the middle of a login. A login
  is cut where \<open>LoginRace\<close> cuts it, at the lookup of the record, the locked search, the change of the own
  \<open>User\<close> and the locked registration; every other request and every round of a duel is one step. The steps of all
  threads interleave in any order. The files may change at any time: the locks on them do not keep the threads
  apart (\<open>DatabaseRace\<close>), so nothing here relies on what a request finds in them.
\<close>

section \<open>The threads\<close>

datatype phase = Checking | Reading | LoggingIn bytes bytes login_pc

record world =
  srv :: server
  conns :: "nat \<rightharpoonup> conn \<times> phase"
  arenas :: "arena list"

text \<open>What waits on the socket is a login; its two strings are read into the buffers of the thread; its answer is sent.\<close>

definition login_next :: "conn \<Rightarrow> server \<Rightarrow> bool" where
  "login_next c s = (case server_read 1000 (c_socket c) (c_buffer c) s of (n, buffer, s1) \<Rightarrow>
     0 < n \<and> (case str_at buffer of None \<Rightarrow> False | Some text \<Rightarrow> json_get_int (cJSON_Parse text) ''op'' = LOGIN_ATTEMPT))"

definition login_read :: "conn \<Rightarrow> server \<Rightarrow> (conn \<times> bytes \<times> bytes \<times> server) option" where
  "login_read c s = do {
     let (n, buffer, s1) = server_read 1000 (c_socket c) (c_buffer c) s;
     text \<leftarrow> str_at buffer;
     let json = cJSON_Parse text;
     username \<leftarrow> strcpy (c_username c) (json_get_string json ''username'');
     password \<leftarrow> strcpy (c_password c) (json_get_string json ''password'');
     Some (c\<lparr>c_buffer := buffer, c_username := username, c_password := password\<rparr>, c_str username, c_str password, s1)
   }"

definition login_reply :: "conn \<Rightarrow> int \<Rightarrow> bytes \<Rightarrow> server \<Rightarrow> server option" where
  "login_reply c status message s = do {
     user \<leftarrow> users_heap s (c_user c);
     sendJson (c_socket c) (login_json status (us_privilege user) message) s
   }"

text \<open>A login that nobody interrupts is the request of the handlers' model.\<close>

lemma login_whole:
  assumes "login_next c s"
  shows "serve_request env c s = do {
    (c1, name, pass, s1) \<leftarrow> login_read c s;
    (pc, s2) \<leftarrow> login_steps 4 name pass (c_user c) Begin s1;
    case pc of Answered status message \<Rightarrow> map_option (\<lambda>s3. (Again, c1, s3)) (login_reply c1 status message s2) | _ \<Rightarrow> None }"
proof -
  obtain n buffer s1 where rd: "server_read 1000 (c_socket c) (c_buffer c) s = (n, buffer, s1)" by (metis prod_cases3)
  obtain t where t: "0 < n" "str_at buffer = Some t" "json_get_int (cJSON_Parse t) ''op'' = LOGIN_ATTEMPT"
    using assms rd by (auto simp: login_next_def split: option.splits)
  have seq: "login_steps 4 name pass (c_user c) Begin s1
    = map_option (\<lambda>(status, message, s'). (Answered status message, s')) (login_outcome name pass (c_user c) s1)" for name pass
    by (rule login_sequential)
  let ?j = "cJSON_Parse t"
  show ?thesis
  proof (cases "strcpy (c_username c) (json_get_string ?j ''username'')")
    case None
    then show ?thesis using rd t by (simp add: serve_request_def login_read_def dispatch_def handle_login_def)
  next
    case un: (Some un)
    show ?thesis
    proof (cases "strcpy (c_password c) (json_get_string ?j ''password'')")
      case None
      then show ?thesis using rd t un by (simp add: serve_request_def login_read_def dispatch_def handle_login_def)
    next
      case pw: (Some pw)
      let ?out = "login_outcome (c_str un) (c_str pw) (c_user c) s1"
      show ?thesis
      proof (cases ?out)
        case None
        then show ?thesis using rd t un pw seq
          by (simp add: serve_request_def login_read_def dispatch_def handle_login_def)
      next
        case (Some r)
        then obtain st msg s2 where r: "?out = Some (st, msg, s2)" by (metis prod_cases3)
        have "serve_request env c s = do { user \<leftarrow> users_heap s2 (c_user c);
            s3 \<leftarrow> sendJson (c_socket c) (login_json st (us_privilege user) msg) s2;
            Some (Again, c\<lparr>c_buffer := buffer, c_username := un, c_password := pw\<rparr>, s3) }"
          using rd t un pw r by (simp add: serve_request_def dispatch_def handle_login_def)
        moreover have "login_read c s = Some (c\<lparr>c_buffer := buffer, c_username := un, c_password := pw\<rparr>, c_str un, c_str pw, s1)"
          using rd t un pw by (simp add: login_read_def)
        ultimately show ?thesis using r seq
          by (cases "users_heap s2 (c_user c)") (simp_all add: login_reply_def map_conv_bind_option comp_def)
      qed
    qed
  qed
qed

section \<open>The steps\<close>

text \<open>A connection is accepted; its thread passes the check and then serves one request, after which it
  is back at the check or gone. A duel that a request has created starts; a duel plays a round. The
  clients send (\<open>arrive\<close>), the files change (\<open>disk\<close>).\<close>

inductive step :: "world \<Rightarrow> world \<Rightarrow> bool" where
  connect: "users_heap (srv w) (c_user c) = None \<Longrightarrow> conn_ok c \<Longrightarrow>
    step w (w\<lparr>srv := accept_user (c_socket c) (c_user c) (srv w), conns := (conns w)(c_user c \<mapsto> (c, Checking))\<rparr>)"
| arrive: "step w (w\<lparr>srv := (srv w)\<lparr>ins := input\<rparr>\<rparr>)"
| disk: "step w (w\<lparr>srv := (srv w)\<lparr>files := content\<rparr>\<rparr>)"
| check: "conns w p = Some (c, Checking) \<Longrightarrow> users_heap (srv w) p = Some u \<Longrightarrow> us_duelRequest u \<noteq> 1 \<Longrightarrow>
    step w (w\<lparr>conns := (conns w)(p \<mapsto> (c, Reading))\<rparr>)"
| serve: "conns w p = Some (c, Reading) \<Longrightarrow> \<not> login_next c (srv w) \<Longrightarrow> serve_request env c (srv w) = Some (f, c', s') \<Longrightarrow>
    step w (w\<lparr>srv := s', conns := (conns w)(p := if f = Leave then None else Some (c', Checking))\<rparr>)"
| begin_login: "conns w p = Some (c, Reading) \<Longrightarrow> login_next c (srv w) \<Longrightarrow> login_read c (srv w) = Some (c', name, pass, s') \<Longrightarrow>
    step w (w\<lparr>srv := s', conns := (conns w)(p \<mapsto> (c', LoggingIn name pass Begin))\<rparr>)"
| login: "conns w p = Some (c, LoggingIn name pass pc) \<Longrightarrow> login_step name pass p pc (srv w) = Some (pc', s') \<Longrightarrow>
    step w (w\<lparr>srv := s', conns := (conns w)(p \<mapsto> (c, LoggingIn name pass pc'))\<rparr>)"
| answer: "conns w p = Some (c, LoggingIn name pass (Answered status message)) \<Longrightarrow> login_reply c status message (srv w) = Some s' \<Longrightarrow>
    step w (w\<lparr>srv := s', conns := (conns w)(p \<mapsto> (c, Checking))\<rparr>)"
| start: "duels (srv w) = d # ds \<Longrightarrow> duel_begin env d buf ((srv w)\<lparr>duels := ds\<rparr>) = Some (r, s') \<Longrightarrow>
    step w (w\<lparr>srv := s', arenas := (case r of Inl _ \<Rightarrow> arenas w | Inr a \<Rightarrow> arenas w @ [a])\<rparr>)"
| play: "i < length (arenas w) \<Longrightarrow> duel_round env sel (arenas w ! i) (srv w) = Some (n, s') \<Longrightarrow>
    step w (w\<lparr>srv := s', arenas := (case n of None \<Rightarrow> take i (arenas w) @ drop (Suc i) (arenas w) | Some a \<Rightarrow> (arenas w)[i := a])\<rparr>)"

inductive_cases stepE: "step w w'"

text \<open>The name under which a thread has passed the search for a session, and will register. \<open>crossing\<close>: two threads have
  passed it under one name at the same time.\<close>

definition past_check :: "phase \<Rightarrow> bytes option" where
  "past_check ph = (case ph of LoggingIn name pass (Granted r) \<Rightarrow> Some name | LoggingIn name pass Marked \<Rightarrow> Some name | _ \<Rightarrow> None)"

definition crossing :: "world \<Rightarrow> bool" where
  "crossing w \<longleftrightarrow> (\<exists>p q c d ph ps name. p \<noteq> q \<and> conns w p = Some (c, ph) \<and> conns w q = Some (d, ps)
     \<and> past_check ph = Some name \<and> past_check ps = Some name)"

abbreviation orderly_step :: "world \<Rightarrow> world \<Rightarrow> bool" where
  "orderly_step w w' \<equiv> step w w' \<and> \<not> crossing w'"

text \<open>The state in which \<open>main\<close> enters its loop.\<close>

definition started :: "world \<Rightarrow> bool" where
  "started w \<longleftrightarrow> activeUsers (srv w) = 0 \<and> activeUserList (srv w) = replicate MAX_USERS None
     \<and> activeChallenges (srv w) = 0 \<and> activeChallengesList (srv w) = replicate MAX_CHALLENGES None
     \<and> users_heap (srv w) = Map.empty \<and> duels (srv w) = [] \<and> conns w = Map.empty \<and> arenas w = []"

section \<open>The invariant\<close>

text \<open>What holds of a connection where its thread is: in a login, what \<open>LoginRace\<close> says, a privilege that is an
  \<open>int\<close>, and past the search no session has the name.\<close>

definition phase_ok :: "server \<Rightarrow> nat \<Rightarrow> phase \<Rightarrow> bool" where
  "phase_ok s p ph \<longleftrightarrow> (case ph of
       LoggingIn name pass pc \<Rightarrow> login_ok s p \<lparr>lg_name = name, lg_pass = pass, lg_pc = pc\<rparr>
         \<and> (case pc of Looked (Some r) \<Rightarrow> int_range (ur_privilege r) | Granted r \<Rightarrow> int_range (ur_privilege r) | _ \<Rightarrow> True)
     | _ \<Rightarrow> True)
   \<and> (\<forall>name. past_check ph = Some name \<longrightarrow> name \<notin> fst ` set (sessions s))"

definition world_inv :: "world \<Rightarrow> bool" where
  "world_inv w \<longleftrightarrow> mem_inv (srv w) \<and> dom (conns w) = dom (users_heap (srv w))
     \<and> (\<forall>p c ph. conns w p = Some (c, ph) \<longrightarrow> c_user c = p \<and> conn_ok c \<and> phase_ok (srv w) p ph)"

lemma phase_ok_simps [simp]: "phase_ok s p Checking" "phase_ok s p Reading"
  by (simp_all add: phase_ok_def past_check_def)

lemma world_ready: "world_inv w \<Longrightarrow> conns w p = Some (c, ph) \<Longrightarrow> mem_ready c (srv w) \<and> c_user c = p"
  by (auto simp: world_inv_def mem_ready_def)

lemma started_inv: "started w \<Longrightarrow> world_inv w \<and> \<not> crossing w"
proof -
  assume "started w"
  then have s: "activeUsers (srv w) = 0" "activeUserList (srv w) = replicate MAX_USERS None"
    "activeChallenges (srv w) = 0" "activeChallengesList (srv w) = replicate MAX_CHALLENGES None"
    "users_heap (srv w) = Map.empty" "conns w = Map.empty" by (simp_all add: started_def)
  have "users_inv (srv w)" "challenges_inv (srv w)" "heap_inv (srv w)"
    using s(1-5) by (simp_all add: users_inv_def challenges_inv_def slots_ok_def active_def slot_items_def sessions_def heap_inv_def)
  then show ?thesis using s by (simp add: world_inv_def mem_inv_def crossing_def)
qed

text \<open>What a thread relies on: the others leave its \<open>User\<close> alone, up to \<open>duelRequest\<close>, and register neither it nor the name it
  is about to register.\<close>

lemma phase_frame:
  assumes "phase_ok s q ph"
    and "map_option (us_duelRequest_update (\<lambda>_. 0)) (users_heap s' q) = map_option (us_duelRequest_update (\<lambda>_. 0)) (users_heap s q)"
    and new: "\<And>nm p. (nm, p) \<in> set (sessions s') \<Longrightarrow> (nm, p) \<in> set (sessions s) \<or> p \<noteq> q \<and> past_check ph \<noteq> Some nm"
  shows "phase_ok s' q ph"
proof -
  have same: "\<exists>v. users_heap s q = Some v \<and> us_username v = us_username u \<and> us_loggedIn v = us_loggedIn u"
    if u: "users_heap s' q = Some u" for u
  proof -
    obtain v where v: "users_heap s q = Some v" using assms(2) u by (cases "users_heap s q") auto
    then have "us_duelRequest_update (\<lambda>_. 0) u = us_duelRequest_update (\<lambda>_. 0) v" using assms(2) u by simp
    then show ?thesis using v by (cases u, cases v) simp
  qed
  have none: "users_heap s' q = None \<longleftrightarrow> users_heap s q = None" using assms(2) by (metis map_option_is_None)
  have out: "q \<notin> set (active s')" if "q \<notin> set (active s)"
  proof
    assume "q \<in> set (active s')"
    then have "(name_of s' q, q) \<in> set (sessions s')" by (auto simp: sessions_def)
    then have "(name_of s' q, q) \<in> set (sessions s)" using new by blast
    then show False using that by (auto simp: sessions_def)
  qed
  have names: "name \<notin> fst ` set (sessions s')" if "past_check ph = Some name" for name
    using new that assms(1) by (force simp: phase_ok_def)
  show ?thesis
    using assms(1) same none out names
    by (auto simp: phase_ok_def login_ok_def session_ok_def split: phase.splits login_pc.splits option.splits)
qed

section \<open>One step keeps the invariant\<close>

lemma level_range [simp]: "getUserRecord nm s = Some r \<Longrightarrow> int_range (ur_privilege r)"
  by (auto simp: getUserRecord_def dec_UserRecord_def)

text \<open>A step of a login: past the search the name is free, and stays so until the thread itself registers it.\<close>

lemma login_step_mem:
  assumes inv: "mem_inv s" and ph: "phase_ok s p (LoggingIn name pass pc)" and st: "login_step name pass p pc s = Some (pc', s')"
  shows "mem_inv s' \<and> phase_ok s' p (LoggingIn name pass pc') \<and> (\<forall>q. q \<noteq> p \<longrightarrow> users_heap s' q = users_heap s q)
    \<and> (users_heap s' p = None \<longleftrightarrow> users_heap s p = None)
    \<and> (sessions s' = sessions s \<or> past_check (LoggingIn name pass pc) = Some name \<and> sessions s' = sessions s @ [(name, p)])"
proof -
  have ui: "users_inv s" "heap_inv s" "challenges_inv s" using inv by (simp_all add: mem_inv_def)
  have lo: "login_ok s p \<lparr>lg_name = name, lg_pass = pass, lg_pc = pc\<rparr>" using ph by (simp add: phase_ok_def)
  obtain u where u: "users_heap s p = Some u" using lo by (auto simp: login_ok_def split: option.splits)
  have step: "slots_ok MAX_USERS (activeUsers s') (activeUserList s')" "active s' = active s \<or> p \<notin> set (active s) \<and> active s' = active s @ [p]"
    "\<forall>q. q \<noteq> p \<longrightarrow> users_heap s' q = users_heap s q" "\<forall>q \<in> set (active s'). session_ok (users_heap s' q)"
    "login_ok s' p \<lparr>lg_name = name, lg_pass = pass, lg_pc = pc'\<rparr>"
    using login_step_ok [OF users_invD(1) [OF ui(1)] _ lo] users_invD(2) [OF ui(1)] st by auto
  have own: "users_heap s' p \<noteq> None" using step(5) by (auto simp: login_ok_def split: option.splits)
  show ?thesis
  proof (cases pc)
    case Begin
    then have r: "s' = s" "pc' = Looked (getUserRecord name s)" using st Begin by auto
    then show ?thesis using inv step(5) by (auto simp: phase_ok_def past_check_def split: option.split)
  next
    case (Looked r)
    then have same: "s' = s" using st by (auto simp: login_step_def split: bind_splits)
    have free: "name \<notin> fst ` set (sessions s)" if "pc' = Granted x" for x
    proof -
      have "findActiveUserIndex name s = Some (-1)"
        using st that Looked by (auto simp: login_step_def split: bind_splits if_splits option.splits)
      then show ?thesis using findActiveUserIndex_missing [OF ui(1), of name] by simp
    qed
    have "pc' = Granted (the r) \<and> r \<noteq> None \<or> (\<exists>a b. pc' = Answered a b)"
      using st Looked by (auto simp: login_step_def split: bind_splits if_splits option.splits)
    then show ?thesis using same inv step(5) free ph Looked by (elim disjE exE conjE) (simp_all add: phase_ok_def past_check_def, auto)
  next
    case (Granted r)
    then obtain m where m: "strcpy (us_username u) name = Some m" "pc' = Marked"
      "s' = s\<lparr>users_heap := (users_heap s)(p \<mapsto> u\<lparr>us_loggedIn := 1, us_username := m, us_privilege := ur_privilege r\<rparr>)\<rparr>"
      using st u by (auto simp: login_step_def update_user_def split: bind_splits)
    have off: "us_loggedIn u = 0" "name \<notin> fst ` set (sessions s)" "int_range (ur_privilege r)"
      using ph Granted u by (simp_all add: phase_ok_def login_ok_def past_check_def)
    have out: "p \<notin> set (active s)" by (rule not_logged_in_inactive [OF ui(1) u off(1)])
    have "length m = 100" using strcpy_length [OF m(1)] heap_invD [OF ui(2) u] by simp
    then have "heap_inv s'" using off(3) m(3) by (intro heap_inv_update [OF ui(2)]) (simp_all add: user_ok_def)
    then show ?thesis using heap_inactive [OF out] m(2,3) inv step(3,5) off(2) u
      by (simp add: mem_inv_def phase_ok_def past_check_def)
  next
    case Marked
    have mark: "session_ok (Some u)" "c_str (us_username u) = name" "p \<notin> set (active s)" "name \<notin> fst ` set (sessions s)"
      using ph Marked u by (simp_all add: phase_ok_def login_ok_def past_check_def)
    obtain ret s1 where add: "addActiveUser p s = (ret, s1)" by (metis surj_pair)
    show ?thesis
    proof (cases "ret < 0")
      case True
      then have "s1 = s" using add by (auto simp: addActiveUser_def split: if_splits)
      then have r: "s' = s\<lparr>users_heap := (users_heap s)(p \<mapsto> zeroed_user)\<rparr>" "\<exists>a b. pc' = Answered a b"
        using st Marked add True u by (auto simp: login_step_def update_user_def)
      have "heap_inv s'" using r(1) by (intro heap_inv_update [OF ui(2), of zeroed_user]) (simp_all add: zeroed_user_def user_ok_def int_range_def)
      then show ?thesis using heap_inactive [OF mark(3)] r inv step(3,5) u
        by (auto simp: mem_inv_def phase_ok_def past_check_def)
    next
      case False
      then have r: "s' = s\<lparr>activeUserList := (activeUserList s)[activeUsers s := Some p], activeUsers := activeUsers s + 1\<rparr>"
        "activeUsers s < MAX_USERS" "\<exists>a b. pc' = Answered a b"
        using st Marked add by (auto simp: login_step_def addActiveUser_def split: if_splits)
      have act: "active s' = active s @ [p]"
        using slot_add_items(2) [OF users_invD(1) [OF ui(1)] r(2), of p] by (simp add: r(1) active_def)
      have "name_of s' = name_of s" by (simp add: r(1) name_of_def fun_eq_iff)
      then have sess: "sessions s' = sessions s @ [(name, p)]"
        using act mark(2) u by (simp add: sessions_def name_of_def)
      have "users_inv s'" using step(1,4) sess users_invD(3) [OF ui(1)] mark(4) by (simp add: users_inv_def list_all_iff)
      moreover have "heap_inv s'" "challenges_inv s'" using ui(2,3) by (simp_all add: r(1) heap_inv_def challenges_inv_def)
      ultimately show ?thesis using sess r(3) step(3,5) own u Marked
        by (auto simp: mem_inv_def phase_ok_def past_check_def)
    qed
  next
    case (Answered a b)
    then show ?thesis using st inv ph by simp
  qed
qed

lemma mem_serve:
  assumes "mem_ready c s" "\<not> login_next c s" "serve_request env c s = Some r"
  shows "mem_good c s r"
proof -
  obtain n buf s1 where rd: "server_read 1000 (c_socket c) (c_buffer c) s = (n, buf, s1)" by (metis prod_cases3)
  define c1 where "c1 = c\<lparr>c_buffer := buf\<rparr>"
  obtain k bs es where sr: "sock_read 1000 (ins s (c_socket c)) = (k, bs, es)" by (metis prod_cases3)
  have "length buf = 1000"
    using sock_read_le [OF sr] assms(1) rd sr by (auto simp: server_read_def mem_ready_def conn_ok_def overwrite_def Let_def)
  moreover note co = core_mem [OF quiet_core [OF quiet_talk(4) [OF rd]]]
  ultimately have c1: "mem_ready c1 s1" using assms(1) by (simp add: mem_ready_def conn_ok_def c1_def)
  have lift: "mem_good c s r" if "mem_good c1 s1 r"
    using that co by (cases r) (auto simp: mem_good_def c1_def split: if_splits)
  have "handle_disconnect c1 s1 = Some r \<or> (\<exists>json. json_get_int json ''op'' \<noteq> LOGIN_ATTEMPT \<and> dispatch env json c1 s1 = Some r)"
    using assms(2,3) rd by (auto simp: serve_request_def login_next_def c1_def Let_def split: if_splits bind_splits)
  then show ?thesis using lift mem_disconnect(1) [OF c1] mem_dispatch [OF c1] by blast
qed

lemma mem_login_read:
  assumes "mem_ready c s" "login_read c s = Some (c', name, pass, s')"
  shows "core s' = core s" "conn_ok c'" "c_user c' = c_user c" "no_nul name" "length name < 100"
proof -
  obtain n buf s1 t un pw where h: "server_read 1000 (c_socket c) (c_buffer c) s = (n, buf, s1)"
    "strcpy (c_username c) (json_get_string (cJSON_Parse t) ''username'') = Some un"
    "strcpy (c_password c) (json_get_string (cJSON_Parse t) ''password'') = Some pw"
    "c' = c\<lparr>c_buffer := buf, c_username := un, c_password := pw\<rparr>" "name = c_str un" "s' = s1"
    using assms(2) by (auto simp: login_read_def Let_def split: bind_splits prod.splits)
  have ok: "conn_ok c" using assms(1) by (simp add: mem_ready_def)
  obtain k bs es where sr: "sock_read 1000 (ins s (c_socket c)) = (k, bs, es)" by (metis prod_cases3)
  have "length buf = 1000"
    using sock_read_le [OF sr] ok h(1) sr by (auto simp: server_read_def conn_ok_def overwrite_def Let_def)
  moreover have b: "length un = 100" "length pw = 100" "no_nul (c_str un)" "length (c_str un) < 100"
    using string_of_buffer [OF h(2)] string_of_buffer [OF h(3)] ok by (simp_all add: conn_ok_def)
  ultimately show "core s' = core s" "conn_ok c'" "c_user c' = c_user c" "no_nul name" "length name < 100"
    using quiet_core [OF quiet_talk(4) [OF h(1)]] ok h(4-6) by (simp_all add: conn_ok_def)
qed

lemma accept_mem:
  assumes "mem_inv s" "users_heap s p = None"
  shows "mem_inv (accept_user k p s)" "sessions (accept_user k p s) = sessions s"
    "dom (users_heap (accept_user k p s)) = insert p (dom (users_heap s))" "q \<noteq> p \<Longrightarrow> users_heap (accept_user k p s) q = users_heap s q"
proof -
  obtain x where x: "accept_user k p s = s\<lparr>users_heap := (users_heap s)(p := Some x)\<rparr>" "user_ok x"
    by (simp add: accept_user_def Let_def user_ok_def)
  have act: "p \<notin> set (active s)" using session_live [of s p] assms by (auto simp: mem_inv_def)
  show "sessions (accept_user k p s) = sessions s" using heap_inactive(2) [OF act] by (simp add: x(1))
  have "heap_inv s" using assms(1) by (simp add: mem_inv_def)
  then have "heap_inv (accept_user k p s)" by (rule heap_inv_update [OF _ x(2), where p = p]) (simp add: x(1))
  then show "mem_inv (accept_user k p s)" using assms(1) heap_inactive(1) [OF act] by (simp add: mem_inv_def x(1))
  show "dom (users_heap (accept_user k p s)) = insert p (dom (users_heap s))" "q \<noteq> p \<Longrightarrow> users_heap (accept_user k p s) q = users_heap s q"
    by (auto simp: x(1))
qed

text \<open>A thread's step, seen from the whole: it keeps the memory, changes its own \<open>User\<close> only and is in order itself.\<close>

lemma own_step:
  assumes w: "world_inv w" "\<not> crossing w" "conns w p = Some (c, ph)"
    and s': "mem_inv s'" "\<And>q. q \<noteq> p \<Longrightarrow> users_heap s' q = users_heap (srv w) q"
    and new: "\<And>nm q. (nm, q) \<in> set (sessions s') \<Longrightarrow> (nm, q) \<in> set (sessions (srv w)) \<or> q = p \<and> past_check ph = Some nm"
    and own: "case x of None \<Rightarrow> users_heap s' p = None | Some (c', ph') \<Rightarrow> users_heap s' p \<noteq> None \<and> c_user c' = p \<and> conn_ok c' \<and> phase_ok s' p ph'"
  shows "world_inv (w\<lparr>srv := s', conns := (conns w)(p := x)\<rparr>)"
proof -
  have dom: "dom (conns w) = dom (users_heap (srv w))" using w(1) by (simp add: world_inv_def)
  have "q \<in> dom ((conns w)(p := x)) \<longleftrightarrow> q \<in> dom (users_heap s')" for q
    using dom own s'(2) [of q] by (cases "q = p") (auto simp: domIff split: option.splits)
  then have "dom ((conns w)(p := x)) = dom (users_heap s')" by blast
  moreover have "c_user d = q \<and> conn_ok d \<and> phase_ok s' q ps" if "((conns w)(p := x)) q = Some (d, ps)" for q d ps
  proof (cases "q = p")
    case True
    then show ?thesis using that own by auto
  next
    case False
    then have q: "conns w q = Some (d, ps)" using that by simp
    then have old: "c_user d = q" "conn_ok d" "phase_ok (srv w) q ps" using w(1) by (auto simp: world_inv_def)
    have "past_check ps \<noteq> Some nm" if "past_check ph = Some nm" for nm
      using w(2,3) q False that unfolding crossing_def by blast
    then have "phase_ok s' q ps"
      using new False by (intro phase_frame [OF old(3)]) (auto simp: s'(2))
    then show ?thesis using old by simp
  qed
  ultimately show ?thesis using s'(1) by (auto simp: world_inv_def)
qed

lemma same_users_world:
  assumes "world_inv w" "same_users (srv w) s'"
  shows "world_inv (w\<lparr>srv := s', arenas := as\<rparr>)"
proof -
  note s = same_users_inv [OF assms(2)]
  have "dom (users_heap s') = dom (users_heap (srv w))"
    using same_users_field(1) [OF assms(2)] by (auto simp: dom_def)
  moreover have "phase_ok s' q ph" if "phase_ok (srv w) q ph" for q ph
    using that assms(2) by (rule_tac phase_frame) (auto simp: s(4) same_users_def)
  ultimately show ?thesis using assms(1) s(1-3) by (auto simp: world_inv_def mem_inv_def)
qed

lemma core_world: "core s' = core (srv w) \<Longrightarrow> world_inv w \<Longrightarrow> world_inv (w\<lparr>srv := s'\<rparr>)"
  using same_users_world [OF _ same_users_core, of w s' "arenas w"] by simp

lemma duel_begin_users:
  assumes "duel_begin env d buf s = Some (r, s')"
  shows "same_users s s'"
proof -
  obtain p1 p2 s1 s2 where b: "setDuelState p1 1 s = Some s1" "setDuelState p2 1 s1 = Some s2"
    "s' = s2 \<or> (\<exists>k1 k2 st m s3 s4 s5. sendJsonStatus k1 st m s2 = Some s3 \<and> sendJsonStatus k2 st m s3 = Some s4
       \<and> setDuelState p1 0 s4 = Some s5 \<and> setDuelState p2 0 s5 = Some s')"
    using assms by (auto simp: duel_begin_def Let_def split: bind_splits option.splits) blast+
  have two: "same_users s s2" by (rule same_users_trans [OF same_users_setDuelState [OF b(1)] same_users_setDuelState [OF b(2)]])
  show ?thesis
    using b(3)
  proof (elim disjE exE conjE)
    fix k1 k2 st m s3 s4 s5
    assume q: "sendJsonStatus k1 st m s2 = Some s3" "sendJsonStatus k2 st m s3 = Some s4"
       "setDuelState p1 0 s4 = Some s5" "setDuelState p2 0 s5 = Some s'"
    have "same_users s2 s4" by (rule same_users_core [OF quiet_core [OF quiet_trans [OF silent_status [OF q(1)] silent_status [OF q(2)]]]])
    moreover have "same_users s4 s'" by (rule same_users_trans [OF same_users_setDuelState [OF q(3)] same_users_setDuelState [OF q(4)]])
    ultimately show ?thesis using two same_users_trans by blast
  qed (use two in simp)
qed

lemma step_inv: "step w w' \<Longrightarrow> world_inv w \<Longrightarrow> \<not> crossing w \<Longrightarrow> world_inv w'"
proof (induction rule: step.induct)
  case (connect w c)
  have m: "mem_inv (srv w)" using connect(3) by (simp add: world_inv_def)
  note a = accept_mem [OF m connect(1), where k = "c_socket c"]
  have "conns w (c_user c) = None" using connect(1,3) by (auto simp: world_inv_def domIff)
  then have old: "c_user d = q \<and> conn_ok d \<and> phase_ok (accept_user (c_socket c) (c_user c) (srv w)) q ph"
    if q: "conns w q = Some (d, ph)" for q d ph
  proof -
    have d: "c_user d = q" "conn_ok d" "phase_ok (srv w) q ph" "q \<noteq> c_user c"
      using q connect(3) \<open>conns w (c_user c) = None\<close> by (auto simp: world_inv_def)
    have "phase_ok (accept_user (c_socket c) (c_user c) (srv w)) q ph"
      by (rule phase_frame [OF d(3)]) (simp_all add: a(2) a(4) [OF d(4)])
    then show ?thesis using d by simp
  qed
  have "dom (conns w) = dom (users_heap (srv w))" using connect(3) by (simp add: world_inv_def)
  then show ?case using connect(2) a(1,3) old by (simp add: world_inv_def)
next
  case (arrive w input)
  then show ?case by (intro core_world) (simp_all add: core_def)
next
  case (disk w content)
  then show ?case by (intro core_world) (simp_all add: core_def)
next
  case (check w p c u)
  have c: "mem_inv (srv w)" "c_user c = p" "conn_ok c" using check(1,4) by (auto simp: world_inv_def)
  have "world_inv (w\<lparr>srv := srv w, conns := (conns w)(p := Some (c, Reading))\<rparr>)"
    by (rule own_step [OF check(4,5,1)]) (use c check(2) in simp_all)
  then show ?case by simp
next
  case (serve w p c env f c' s')
  have r: "mem_ready c (srv w)" "c_user c = p" using world_ready [OF serve(4,1)] by simp_all
  have g: "mem_good c (srv w) (f, c', s')" by (rule mem_serve [OF r(1) serve(2,3)])
  show ?case
    by (rule own_step [OF serve(4,5,1)]) (use g r(2) in \<open>auto simp: mem_good_def split: if_splits\<close>)
next
  case (begin_login w p c c' name pass s')
  have r: "mem_ready c (srv w)" "c_user c = p" using world_ready [OF begin_login(4,1)] by simp_all
  note l = mem_login_read [OF r(1) begin_login(3)]
  note m = core_mem [OF l(1)]
  obtain u where u: "users_heap (srv w) p = Some u" using r by (auto simp: mem_ready_def)
  have "length (us_username u) = 100" using heap_invD [OF _ u] begin_login(4) by (simp add: world_inv_def mem_inv_def)
  then have "phase_ok s' p (LoggingIn name pass Begin)" using l(4,5) m u by (simp add: phase_ok_def login_ok_def past_check_def)
  then show ?case
    using l(2,3) m r u begin_login(4) by (intro own_step [OF begin_login(4,5,1)]) (auto simp: world_inv_def)
next
  case (login w p c name pass pc pc' s')
  have r: "mem_ready c (srv w)" "c_user c = p" using world_ready [OF login(3,1)] by simp_all
  have "mem_inv (srv w)" "phase_ok (srv w) p (LoggingIn name pass pc)" "conn_ok c" using login(1,3) by (auto simp: world_inv_def)
  from login_step_mem [OF this(1,2) login(2)] this(3) show ?case
    using r by (intro own_step [OF login(3,4,1)]) (auto simp: mem_ready_def)
next
  case (answer w p c name pass status message s')
  have r: "mem_ready c (srv w)" "c_user c = p" using world_ready [OF answer(3,1)] by simp_all
  have "core s' = core (srv w)" using answer(2) core_talk(1) by (auto simp: login_reply_def split: bind_splits)
  from core_mem [OF this] show ?case
    using r answer(3) by (intro own_step [OF answer(3,4,1)]) (auto simp: mem_ready_def)
next
  case (start w d ds env buf r s')
  have "same_users (srv w) ((srv w)\<lparr>duels := ds\<rparr>)" by (simp add: same_users_def)
  then show ?case using same_users_world [OF start(3)] same_users_trans duel_begin_users [OF start(2)] by blast
next
  case (play i w env sel n s')
  show ?case by (rule same_users_world [OF play(3) duel_round_users [OF play(2)]])
qed

lemma run_inv: "orderly_step\<^sup>*\<^sup>* w w' \<Longrightarrow> world_inv w \<and> \<not> crossing w \<Longrightarrow> world_inv w' \<and> \<not> crossing w'"
  by (induction rule: rtranclp_induct) (use step_inv in auto)

section \<open>What always holds\<close>

text \<open>C1: the invariants of the shared memory. In every state that is reached from the start of the server by any
  interleaving of connections, logins cut at their locks, other requests and rounds of duels (one step each), with
  files that change at any time in any way, the two arrays and the heap of \<open>User\<close>s are well formed, no two sessions have the same name, there are
  at most \<open>MAX_USERS\<close> of them, and each belongs to an open connection whose \<open>User\<close> is logged in under that
  name - as long as no two threads are between the search and the registration of a login with the same name
  at the same time (\<open>crossing\<close>). Nothing in the code rules that out, and the steps of \<open>login_race_use_after_free\<close>,
  which are steps of this world (\<open>race_in_world\<close>), show what happens then.\<close>

theorem server_invariant:
  assumes "started w" "(\<lambda>a b. step a b \<and> \<not> crossing b)\<^sup>*\<^sup>* w w'"
  shows "world_inv w' \<and> distinct (map fst (sessions (srv w'))) \<and> length (sessions (srv w')) \<le> MAX_USERS
    \<and> (\<forall>(name, p) \<in> set (sessions (srv w')). \<exists>c ph u. conns w' p = Some (c, ph) \<and> c_user c = p
         \<and> users_heap (srv w') p = Some u \<and> us_loggedIn u \<noteq> 0 \<and> user_string u = name)"
proof -
  have inv: "world_inv w'" using run_inv [OF assms(2)] started_inv [OF assms(1)] by blast
  then have u: "users_inv (srv w')" by (simp add: world_inv_def mem_inv_def)
  have "\<exists>c ph u. conns w' p = Some (c, ph) \<and> c_user c = p
         \<and> users_heap (srv w') p = Some u \<and> us_loggedIn u \<noteq> 0 \<and> user_string u = name" if s: "(name, p) \<in> set (sessions (srv w'))" for name p
  proof -
    have p: "p \<in> set (active (srv w'))" "name = name_of (srv w') p" using s by (auto simp: sessions_def)
    obtain v where v: "users_heap (srv w') p = Some v" "us_loggedIn v \<noteq> 0" using session_live [OF u p(1)] by blast
    then have "p \<in> dom (conns w')" using inv by (auto simp: world_inv_def)
    then obtain c ph where c: "conns w' p = Some (c, ph)" by auto
    then show ?thesis using v p(2) world_ready [OF inv c] by (simp add: name_of_def user_string_def)
  qed
  moreover have "length (sessions (srv w')) \<le> MAX_USERS" using users_invD(4,5) [OF u] by (simp add: sessions_def)
  ultimately show ?thesis using inv users_invD(3) [OF u] by auto
qed

text \<open>The steps of \<open>LoginRace\<close> are steps of this world.\<close>

definition logins_of :: "world \<Rightarrow> nat \<rightharpoonup> login" where
  "logins_of w p = (case conns w p of Some (c, LoggingIn name pass pc) \<Rightarrow> Some \<lparr>lg_name = name, lg_pass = pass, lg_pc = pc\<rparr> | _ \<Rightarrow> None)"

lemma race_in_world:
  "race_step\<^sup>*\<^sup>* (logins_of w, srv w) (th', s') \<Longrightarrow> \<exists>w'. step\<^sup>*\<^sup>* w w' \<and> logins_of w' = th' \<and> srv w' = s'"
proof (induction "(th', s')" arbitrary: th' s' rule: rtranclp_induct)
  case base
  then show ?case by blast
next
  case (step y)
  obtain th s where y: "y = (th, s)" by (cases y)
  obtain w1 where w1: "step\<^sup>*\<^sup>* w w1" "logins_of w1 = th" "srv w1 = s" using step(3) [OF y] by blast
  obtain p l pc' where l: "th p = Some l" "login_step (lg_name l) (lg_pass l) p (lg_pc l) s = Some (pc', s')" "th' = th(p \<mapsto> l\<lparr>lg_pc := pc'\<rparr>)"
    using step(2) by (auto simp: y elim!: race_stepE)
  obtain c where c: "conns w1 p = Some (c, LoggingIn (lg_name l) (lg_pass l) (lg_pc l))"
    using l(1) w1(2) by (auto simp: logins_of_def split: option.splits prod.splits phase.splits)
  define w2 where "w2 = w1\<lparr>srv := s', conns := (conns w1)(p \<mapsto> (c, LoggingIn (lg_name l) (lg_pass l) pc'))\<rparr>"
  have "step w1 w2" unfolding w2_def by (rule step.login [OF c]) (simp add: w1(3) l(2))
  moreover have "logins_of w2 q = th' q" for q
    using w1(2) l(3) by (cases l) (auto simp: w2_def logins_of_def)
  then have "logins_of w2 = th'" by (rule ext)
  ultimately show ?case using w1(1) by (intro exI [of _ w2]) (auto simp: w2_def)
qed

text \<open>Requests do not get stuck. In every reachable state whose tables are in order, whatever a client whose thread is waiting
  in \<open>read\<close> sends, if it fits (\<open>message_fits\<close>), its service is defined: the thread does not follow a
  dangling pointer, whatever the other threads have done in the meantime.\<close>

theorem reachable_request_defined:
  assumes "started w" "(\<lambda>a b. step a b \<and> \<not> crossing b)\<^sup>*\<^sup>* w w'" "conns w' p = Some (c, Reading)"
    and "tables_inv (srv w')" "tables_room (srv w')" "judge_ok env" "message_fits c (srv w')"
  shows "\<exists>r. serve_request env c (srv w') = Some r"
proof -
  have inv: "world_inv w'" using run_inv [OF assms(2)] started_inv [OF assms(1)] by blast
  have "ready c (srv w')" using world_ready [OF inv assms(3)] assms(4) by (auto simp: ready_def mem_ready_def system_mem)
  then show ?thesis by (rule serve_total [OF _ assms(5-7)])
qed

text \<open>C40: a duel can use a freed \<open>User\<close>. When the thread of a duel's second player is already behind its check
  and blocked in \<open>read\<close>, and his client disconnects, that thread frees the \<open>User\<close> - its step is
  possible - and the duel's next round that reads the closed socket writes \<open>duelRequest\<close> through the
  dangling pointer: undefined behaviour.\<close>

theorem duel_use_after_free:
  assumes "world_inv w" "conns w p = Some (c, Reading)" "ins (srv w) (c_socket c) = []"
    and "i < length (arenas w)" "a = arenas w ! i" "ar_player2 a = Some p" "p2InDuel a" "duelWinner a = 0"
    and "du_socket2 (ar_duel a) = c_socket c"
  shows "\<exists>w'. step w w' \<and> users_heap (srv w') p = None \<and> arenas w' ! i = a
    \<and> duel_round env (Ready False True) a (srv w') = None"
proof -
  have r: "mem_ready c (srv w)" "c_user c = p" using world_ready [OF assms(1,2)] by simp_all
  obtain u where u: "users_heap (srv w) p = Some u" using r by (auto simp: mem_ready_def)
  have "users_inv (srv w)" using assms(1) by (simp add: world_inv_def mem_inv_def)
  then obtain q s1 where "removeActiveUser (user_string u) (srv w) = Some (q, s1)"
    using active_users.rm_defined [of "srv w" "user_string u"] by blast
  then obtain s' where d: "handle_disconnect c (srv w) = Some (Leave, c, s')" "ins s' = ins (srv w)"
    using u r(2) by (auto simp: handle_disconnect_def free_user_def removeActiveUser_def split: bind_splits option.splits)
  have rd: "server_read 1000 (c_socket c) (c_buffer c) (srv w) = (0, c_buffer c, srv w)" by (rule read_closed [OF assms(3)])
  have srv: "serve_request je c (srv w) = Some (Leave, c, s')" for je
    using rd d(1) by (simp add: serve_request_def Let_def)
  have nl: "\<not> login_next c (srv w)" using rd by (simp add: login_next_def)
  define w' where "w' = w\<lparr>srv := s', conns := (conns w)(p := if Leave = Leave then None else Some (c, Checking))\<rparr>"
  have st: "step w w'" unfolding w'_def by (rule step.serve [OF assms(2) nl srv])
  have freed: "users_heap s' p = None" using mem_disconnect(1) [OF r(1) d(1)] by (simp add: mem_good_def r(2))
  have "ins s' (c_socket c) = []" using d(2) assms(3) by simp
  then have "duel_half env a (c_socket c) (Some p) nm opp s' = None" for nm opp
    using assms(8) freed read_closed [of s' "c_socket c"]
    by (simp add: duel_half_def handleDuelSocketMessage_def setDuelState_def update_user_def)
  then have "duel_half2 env a s' = None" by (simp add: duel_half2_def assms(6,9))
  then have "duel_round env (Ready False True) a s' = None" using assms(7) by (simp add: duel_round_def)
  then show ?thesis using st freed assms(5) by (auto simp: w'_def)
qed

section \<open>Concrete runs\<close>

definition fresh_world :: "UserRecord list \<Rightarrow> (int \<Rightarrow> event list) \<Rightarrow> world" where
  "fresh_world us input = \<lparr>srv = demo_server [] us [] [] input, conns = Map.empty, arenas = []\<rparr>"

definition guest_world :: "UserRecord list \<Rightarrow> (int \<Rightarrow> event list) \<Rightarrow> phase \<Rightarrow> world" where
  "guest_world us input ph = (fresh_world us input)\<lparr>srv := accept_user 6 9 (srv (fresh_world us input)), conns := [9 \<mapsto> (demo_conn [] 6 9, ph)]\<rparr>"

lemma fresh_world_started: "started (fresh_world us input)"
  by (simp add: started_def fresh_world_def demo_server_def demo_tables_def put_file_def with_users_def idle_def)

lemma guest_world_steps:
  assumes "ph = Checking \<or> ph = Reading"
  shows "(\<lambda>a b. step a b \<and> \<not> crossing b)\<^sup>*\<^sup>* (fresh_world us input) (guest_world us input ph)"
proof -
  have ok: "conn_ok (demo_conn [] 6 9)" by (simp add: conn_ok_def demo_conn_def char_array_def)
  have c: "c_user (demo_conn [] 6 9) = 9" "c_socket (demo_conn [] 6 9) = 6" by (simp_all add: demo_conn_def)
  have "users_heap (srv (fresh_world us input)) (c_user (demo_conn [] 6 9)) = None"
    by (simp add: fresh_world_def demo_server_simps)
  from step.connect [OF this ok] have one: "step (fresh_world us input) (guest_world us input Checking)"
    by (simp add: guest_world_def c fresh_world_def)
  have two: "step (guest_world us input Checking) (guest_world us input Reading)"
  proof -
    have h: "conns (guest_world us input Checking) 9 = Some (demo_conn [] 6 9, Checking)" by (simp add: guest_world_def)
    have "\<exists>u. users_heap (srv (guest_world us input Checking)) 9 = Some u \<and> us_duelRequest u \<noteq> 1"
    proof -
      have "malloc (srv (fresh_world us input)) 208 = replicate 208 (CHR ''?'')"
        by (simp add: malloc_def fresh_world_def demo_server_def demo_tables_def put_file_def with_users_def idle_def map_replicate_const)
      then show ?thesis by (simp add: guest_world_def accept_user_def Let_def) code_simp
    qed
    then obtain u where "users_heap (srv (guest_world us input Checking)) 9 = Some u" "us_duelRequest u \<noteq> 1" by blast
    from step.check [OF h this] show ?thesis by (simp add: guest_world_def)
  qed
  have alone: "\<not> crossing (guest_world us input ps)" for ps by (simp add: crossing_def guest_world_def)
  from assms show ?thesis
  proof
    assume "ph = Checking"
    then show ?thesis using one alone by auto
  next
    assume "ph = Reading"
    then show ?thesis using one two alone
      by (auto intro: rtranclp.rtrancl_into_rtrancl [where b = "guest_world us input Checking"])
  qed
qed

text \<open>The login of the only connection runs step by step.\<close>

lemma login_alone:
  assumes "login_steps n name pass p pc s = Some (pc', s')"
  shows "(\<lambda>a b. step a b \<and> \<not> crossing b)\<^sup>*\<^sup>* \<lparr>srv = s, conns = [p \<mapsto> (c, LoggingIn name pass pc)], arenas = as\<rparr>
    \<lparr>srv = s', conns = [p \<mapsto> (c, LoggingIn name pass pc')], arenas = as\<rparr>"
  using assms
proof (induction n arbitrary: pc s)
  case (Suc n)
  obtain pc1 s1 where s1: "login_step name pass p pc s = Some (pc1, s1)" "login_steps n name pass p pc1 s1 = Some (pc', s')"
    using Suc(2) by (auto split: bind_splits)
  let ?w = "\<lparr>srv = s, conns = [p \<mapsto> (c, LoggingIn name pass pc)], arenas = as\<rparr>"
    and ?w1 = "\<lparr>srv = s1, conns = [p \<mapsto> (c, LoggingIn name pass pc1)], arenas = as\<rparr>"
  have "step ?w ?w1" using step.login [of ?w p c name pass pc pc1 s1] s1(1) by simp
  moreover have "\<not> crossing ?w1" by (simp add: crossing_def)
  ultimately show ?case using converse_rtranclp_into_rtranclp [OF _ Suc(1) [OF s1(2)], of ?w] by blast
qed simp

definition ann_login :: bytes where
  "ann_login = ''{\"op\":0,\"username\":\"ann\",\"password\":\"secret\"}''"

lemma ann_login_fields:
  "no_nul ann_login" "length ann_login \<le> 1000" "json_get_int (cJSON_Parse ann_login) ''op'' = LOGIN_ATTEMPT"
  "json_get_string (cJSON_Parse ann_login) ''username'' = ''ann''" "json_get_string (cJSON_Parse ann_login) ''password'' = ''secret''"
proof -
  let ?o = "Some (cJSON_Object [(''op'', cJSON_Number 0), (''username'', cJSON_String ''ann''), (''password'', cJSON_String ''secret'')])"
  have parse: "cJSON_Parse ann_login = ?o" by code_simp
  have "json_get_int ?o ''op'' = LOGIN_ATTEMPT" "json_get_string ?o ''username'' = ''ann''" "json_get_string ?o ''password'' = ''secret''" by code_simp+
  then show "json_get_int (cJSON_Parse ann_login) ''op'' = LOGIN_ATTEMPT"
    "json_get_string (cJSON_Parse ann_login) ''username'' = ''ann''" "json_get_string (cJSON_Parse ann_login) ''password'' = ''secret''"
    by (simp_all add: parse)
qed (simp_all add: ann_login_def no_nul_def)

text \<open>Ann logs in: her connection ends up with the only session.\<close>

lemma ann_logs_in:
  "\<exists>w. orderly_step\<^sup>*\<^sup>* (fresh_world [demo_ann] (\<lambda>_. [Data ann_login])) w \<and> sessions (srv w) = [(''ann'', 9)]"
proof -
  let ?i = "\<lambda>_ :: int. [Data ann_login]" and ?c = "demo_conn [] 6 9"
  let ?d = "demo_server [] [demo_ann] [] [] ?i"
  let ?s = "accept_user 6 9 ?d"
  have wf: "list_all wf_UserRecord [demo_ann]" by (simp add: demo_ann_def wf_UserRecord_def no_nul_def int_range_def)
  have base: "system_inv ?d" "user_rows ?d = [demo_ann]" "sessions ?d = []"
    using demo_server_ok(1,3,6) [of "[]" "[demo_ann]" "[]" "[]" ?i] wf by (simp_all add: MAX_USERS_def)
  have free: "users_heap ?d 9 = None" by (simp add: demo_server_simps)
  note a = accept_inv [OF base(1) free, of 6]
  let ?b = "ann_login @ drop (length ann_login) (c_buffer ?c)"
  define s1 where "s1 = ?s\<lparr>ins := (ins ?s)(6 := [])\<rparr>"
  have k: "c_user ?c = 9" "c_socket ?c = 6" "c_buffer ?c = replicate 1000 (CHR 0x00)" by (simp_all add: demo_conn_def)
  have "ins ?s 6 = [Data ann_login]" by (simp add: accept_user_def Let_def demo_server_simps)
  then have rd: "server_read 1000 (c_socket ?c) (c_buffer ?c) ?s = (int (length ann_login), ?b, s1)"
    using ann_login_fields(2) by (simp add: server_read_def k s1_def overwrite_def)
  have str: "str_at ?b = Some ann_login"
    using ann_login_fields(1) by (simp add: str_at_def k c_str_def no_nul_def ann_login_def)
  have nxt: "login_next ?c ?s" using rd str ann_login_fields(3) by (simp add: login_next_def ann_login_def)
  obtain un pw where st: "strcpy (c_username ?c) ''ann'' = Some un" "c_str un = ''ann''" "strcpy (c_password ?c) ''secret'' = Some pw" "c_str pw = ''secret''"
    using strcpy_exact [of "''ann''" "c_username ?c"] strcpy_exact [of "''secret''" "c_password ?c"] by (auto simp: demo_conn_def char_array_def no_nul_def)
  define c1 where "c1 = ?c\<lparr>c_buffer := ?b, c_username := un, c_password := pw\<rparr>"
  have read: "login_read ?c ?s = Some (c1, ''ann'', ''secret'', s1)"
    using rd str ann_login_fields(4,5) st by (simp add: login_read_def c1_def)
  have si: "silent ?s s1" by (simp add: quiet_def core_def os.defs s1_def)
  have inv: "system_inv s1" "sessions s1 = []" using silent_inv [OF si] a(1,2) base(3) by simp_all
  have "getUserRecord ''ann'' s1 = getUserRecord ''ann'' ?d"
    unfolding getUserRecord_def by (rule getRecord_same [THEN arg_cong]) (simp_all add: s1_def accept_user_def Let_def)
  also have "\<dots> = Some demo_ann"
    using users.get_find [of ?d "''ann''"] base(1,2) by (simp add: system_inv_def tables_inv_def users_part_def user_name_def demo_ann_def no_nul_def)
  finally have rec: "getUserRecord ''ann'' s1 = Some demo_ann" .
  obtain u where u: "users_heap s1 9 = Some u" "us_loggedIn u = 0" by (simp add: s1_def accept_user_def Let_def)
  then have "login_granted ''ann'' ''secret'' 9 s1"
    using inv(2) rec by (simp add: login_granted_def demo_ann_def no_nul_def MAX_USERS_def)
  then obtain msg s2 where out: "login_outcome ''ann'' ''secret'' 9 s1 = Some (SUCCESS, msg, s2)" "sessions s2 = [(''ann'', 9)]"
    using login_outcome_cases [OF inv(1) u(1), of "''ann''" "''secret''"] inv(2) by (auto simp: no_nul_def)
  then have steps: "login_steps 4 ''ann'' ''secret'' 9 Begin s1 = Some (Answered SUCCESS msg, s2)" by (simp add: login_sequential)
  let ?w = "guest_world [demo_ann] ?i Reading" and ?w1 = "\<lparr>srv = s1, conns = [9 \<mapsto> (c1, LoggingIn ''ann'' ''secret'' Begin)], arenas = []\<rparr>"
  have gw: "?w = \<lparr>srv = ?s, conns = [9 \<mapsto> (?c, Reading)], arenas = []\<rparr>" by (simp add: guest_world_def fresh_world_def)
  have bgn: "step \<lparr>srv = t, conns = [9 \<mapsto> (d, Reading)], arenas = []\<rparr> \<lparr>srv = t', conns = [9 \<mapsto> (d', LoggingIn nm pw Begin)], arenas = []\<rparr>"
    if "login_next d t" "login_read d t = Some (d', nm, pw, t')" for d d' t t' nm pw
    using step.begin_login [of "\<lparr>srv = t, conns = [9 \<mapsto> (d, Reading)], arenas = []\<rparr>" 9 d d' nm pw t'] that by simp
  have st: "step ?w ?w1 \<and> \<not> crossing ?w1" unfolding gw using bgn [OF nxt read] by (simp add: crossing_def)
  have "orderly_step\<^sup>*\<^sup>* (fresh_world [demo_ann] ?i) ?w1"
    by (rule rtranclp.rtrancl_into_rtrancl [where r = orderly_step, OF guest_world_steps [OF disjI2 [OF refl]] st])
  from rtranclp_trans [OF this login_alone [OF steps]] out(2)
  show ?thesis by (intro exI [of _ "\<lparr>srv = s2, conns = [9 \<mapsto> (c1, LoggingIn ''ann'' ''secret'' (Answered SUCCESS msg))], arenas = []\<rparr>"] conjI) simp_all
qed
theorem server_invariant_witness:
  "\<exists>w c ph u. orderly_step\<^sup>*\<^sup>* (fresh_world [demo_ann] (\<lambda>_. [Data ann_login])) w \<and> sessions (srv w) = [(''ann'', 9)] \<and> world_inv w
    \<and> conns w 9 = Some (c, ph) \<and> c_user c = 9 \<and> users_heap (srv w) 9 = Some u \<and> us_loggedIn u \<noteq> 0 \<and> user_string u = ''ann''"
proof -
  obtain w where w: "orderly_step\<^sup>*\<^sup>* (fresh_world [demo_ann] (\<lambda>_. [Data ann_login])) w" "sessions (srv w) = [(''ann'', 9)]"
    using ann_logs_in by blast
  from server_invariant [OF fresh_world_started this(1)] w show ?thesis by fastforce
qed

theorem reachable_request_defined_witness:
  "\<exists>r. serve_request echo_env (demo_conn [] 6 9) (srv (guest_world [] (\<lambda>_. [Data ''{\"op\":7,\"page\":1}'']) Reading)) = Some r"
proof -
  let ?w = "guest_world [] (\<lambda>_. [Data ''{\"op\":7,\"page\":1}'']) Reading"
  have c: "conns ?w 9 = Some (demo_conn [] 6 9, Reading)" by (simp add: guest_world_def)
  have srv: "srv ?w = accept_user 6 9 (demo_server [] [] [] [] (\<lambda>_. [Data ''{\"op\":7,\"page\":1}'']))"
    by (simp add: guest_world_def fresh_world_def)
  have base: "system_inv (demo_server [] [] [] [] (\<lambda>_. [Data ''{\"op\":7,\"page\":1}'']))"
    "tables_room (demo_server [] [] [] [] (\<lambda>_. [Data ''{\"op\":7,\"page\":1}'']))"
    by (rule demo_server_ok; simp add: MAX_USERS_def)+
  have tabs: "tables_inv (srv ?w)" "tables_room (srv ?w)"
    unfolding srv using accept_inv(1,4) [OF base(1)] base(2) by (simp_all add: demo_server_simps system_inv_def)
  have fits: "message_fits (demo_conn [] 6 9) (srv ?w)"
    using demo_request_fits
    by (simp add: message_fits_def server_read_def srv accept_user_def Let_def demo_server_simps demo_conn_def overwrite_def c_str_def)
  have "judge_ok echo_env" by (simp add: judge_ok_def echo_env_def wait_ok_def)
  from reachable_request_defined [OF fresh_world_started guest_world_steps c tabs this fits] show ?thesis by simp
qed

definition duel_world :: world where
  "duel_world = \<lparr>srv = demo_server [online_user ''ann'' 4, online_user ''bob'' 5] [] [] [] (\<lambda>_. []),
     conns = [0 \<mapsto> (demo_conn ''ann'' 4 0, Reading), 1 \<mapsto> (demo_conn ''bob'' 5 1, Reading)], arenas = [demo_arena]\<rparr>"

theorem duel_use_after_free_witness:
  "\<exists>w'. step duel_world w' \<and> duel_round demo_env (Ready False True) demo_arena (srv w') = None"
proof -
  have u: "session_ok (Some (online_user ''ann'' 4)) \<and> c_str (us_username (online_user ''ann'' 4)) = ''ann''"
    "session_ok (Some (online_user ''bob'' 5)) \<and> c_str (us_username (online_user ''bob'' 5)) = ''bob''"
    "user_ok (online_user ''ann'' 4)" "user_ok (online_user ''bob'' 5)"
    by (intro online_user_ok online_user_user_ok; simp add: no_nul_def)+
  have "system_inv (srv duel_world)"
    unfolding duel_world_def world.simps by (rule demo_server_ok; use u in \<open>simp add: MAX_USERS_def\<close>)
  then have inv: "mem_inv (srv duel_world)" by (simp add: system_mem)
  have "dom (users_heap (srv duel_world)) = {0, 1}"
    by (auto simp: duel_world_def demo_server_simps split: if_splits)
  moreover have "conn_ok (demo_conn nm k q)" if "length nm < 100" for nm k q
    using that by (simp add: conn_ok_def demo_conn_def char_array_def)
  ultimately have w: "world_inv duel_world"
    using inv by (auto simp: world_inv_def duel_world_def demo_conn_def split: if_splits)
  have c: "conns duel_world 1 = Some (demo_conn ''bob'' 5 1, Reading)" by (simp add: duel_world_def)
  have rest: "ins (srv duel_world) (c_socket (demo_conn ''bob'' 5 1)) = []" "0 < length (arenas duel_world)"
    "demo_arena = arenas duel_world ! 0" "du_socket2 (ar_duel demo_arena) = c_socket (demo_conn ''bob'' 5 1)"
    "ar_player2 demo_arena = Some 1"
    by (simp_all add: duel_world_def demo_server_simps demo_conn_def) (simp_all add: demo_arena_def)
  from duel_use_after_free [OF w c rest(1-3,5) demo_ready(5,6) rest(4)] show ?thesis by blast
qed

end
