(* ===== verification/StartUp.thy ===== *)
theory StartUp
  imports World
begin

text \<open>
  \<open>main\<close> of \<open>Server/server.c\<close>: the tables are created, the socket is set up, and every connection that is
  accepted gets a \<open>User\<close> and a thread, while the threads of the other connections and of the duels run. The
  \<open>connect\<close> steps of \<open>World\<close> are what this loop does.
\<close>

section \<open>The main thread\<close>

text \<open>The results of \<open>socket\<close>, \<open>setsockopt\<close> and \<open>bind\<close>; that of \<open>listen\<close> is ignored.\<close>

record set_up_calls =
  su_socket :: int
  su_setsockopt :: int
  su_bind :: int

text \<open>A round of the loop: the results of \<open>accept\<close> and of \<open>pthread_create\<close>, which is 0 or an error number, and the
  stack of the new thread, whose \<open>c_user\<close> is the address that \<open>malloc\<close> returns.\<close>

record arrival =
  av_accept :: int
  av_thread :: int
  av_conn :: conn

text \<open>\<open>main\<close> is in its loop or has ended the process.\<close>

datatype main_pc = Accepting | Ended int

definition main_start :: "set_up_calls \<Rightarrow> 'a os_scheme \<Rightarrow> main_pc \<times> 'a os_scheme" where
  "main_start su s = (case serverInit s of None \<Rightarrow> (Ended (-1), s)
     | Some s1 \<Rightarrow>
         if su_socket su < 0 then (Ended (-1), s1)
         else if su_setsockopt su < 0 then (Ended (-1), s1)
         else if su_bind su < 0 then (Ended (-1), s1)
         else (Accepting, s1))"

text \<open>After an error of \<open>pthread_create\<close> the thread to detach is not known: undefined.\<close>

definition main_round :: "arrival \<Rightarrow> world \<Rightarrow> (main_pc \<times> world) option" where
  "main_round a w =
     (if av_accept a < 0 then Some (Ended (-1), w)
      else let c = (av_conn a)\<lparr>c_socket := av_accept a\<rparr>; s1 = accept_user (av_accept a) (c_user c) (srv w) in
        if av_thread a < 0 then Some (Ended (-1), w\<lparr>srv := free_user (c_user c) s1\<rparr>)
        else if av_thread a = 0 then Some (Accepting, w\<lparr>srv := s1, conns := (conns w)(c_user c \<mapsto> (c, Checking))\<rparr>)
        else None)"

text \<open>The process: \<open>main\<close> takes a round, with a fresh block from \<open>malloc\<close>, or another thread does a step. When \<open>main\<close>
  has returned there are no threads.\<close>

inductive server_step :: "main_pc \<times> world \<Rightarrow> main_pc \<times> world \<Rightarrow> bool" where
  round: "main_round a w = Some (pc, w') \<Longrightarrow> users_heap (srv w) (c_user (av_conn a)) = None \<Longrightarrow> conn_ok (av_conn a) \<Longrightarrow>
    server_step (Accepting, w) (pc, w')"
| thread: "step w w' \<Longrightarrow> dom (conns w') \<subseteq> dom (conns w) \<Longrightarrow> server_step (Accepting, w) (Accepting, w')"

inductive_cases server_stepE: "server_step (pc, w) x"

section \<open>What they do\<close>

lemma ended_final: "\<not> server_step (Ended r, w) x"
  by (auto elim: server_stepE)

lemma accept_failure: "av_accept a < 0 \<Longrightarrow> main_round a w = Some (Ended (-1), w)"
  by (simp add: main_round_def)

lemma thread_failure: "0 \<le> av_accept a \<Longrightarrow> 0 < av_thread a \<Longrightarrow> main_round a w = None"
  by (simp add: main_round_def Let_def)

lemma round_connects:
  assumes "main_round a w = Some (Accepting, w')" "users_heap (srv w) (c_user (av_conn a)) = None" "conn_ok (av_conn a)"
  shows "step w w'"
proof -
  let ?c = "(av_conn a)\<lparr>c_socket := av_accept a\<rparr>"
  have "w' = w\<lparr>srv := accept_user (c_socket ?c) (c_user ?c) (srv w), conns := (conns w)(c_user ?c \<mapsto> (?c, Checking))\<rparr>"
    using assms(1) by (simp add: main_round_def Let_def split: if_splits)
  moreover have "users_heap (srv w) (c_user ?c) = None" "conn_ok ?c" using assms(2,3) by (simp_all add: conn_ok_def)
  ultimately show ?thesis by (metis step.connect)
qed

lemma server_step_world: "server_step (pc, w) (Accepting, w') \<Longrightarrow> step w w'"
  by (auto elim!: server_stepE intro: round_connects)

text \<open>The runs of the process in which no two logins cross keep the invariant of \<open>World\<close>, and end only when \<open>accept\<close>
  fails.\<close>

lemma server_run:
  assumes "(\<lambda>a b. server_step a b \<and> \<not> crossing (snd b))\<^sup>*\<^sup>* (Accepting, w0) (pc, w)" "started w0"
  shows "pc = Accepting \<longrightarrow> (\<lambda>a b. step a b \<and> \<not> crossing b)\<^sup>*\<^sup>* w0 w \<and> world_inv w"
proof -
  have "pc = Accepting \<longrightarrow> (\<lambda>a b. step a b \<and> \<not> crossing b)\<^sup>*\<^sup>* w0 w"
    using assms(1)
  proof (induction "(pc, w)" arbitrary: pc w rule: rtranclp_induct)
    case (step y)
    obtain pc1 w1 where y: "y = (pc1, w1)" by (cases y)
    have "pc1 = Accepting" using step(2) by (cases pc1) (auto simp: y ended_final)
    then have run: "(\<lambda>a b. step a b \<and> \<not> crossing b)\<^sup>*\<^sup>* w0 w1" using step(3) y by simp
    show ?case
    proof
      assume "pc = Accepting"
      then have "step w1 w \<and> \<not> crossing w" using server_step_world [of pc1 w1 w] step(2) \<open>pc1 = Accepting\<close> by (auto simp: y)
      then show "(\<lambda>a b. step a b \<and> \<not> crossing b)\<^sup>*\<^sup>* w0 w" using run by (auto intro: rtranclp.rtrancl_into_rtrancl)
    qed
  qed simp
  then show ?thesis using run_inv started_inv [OF assms(2)] by blast
qed

section \<open>The first state\<close>

text \<open>The globals before \<open>main\<close> runs.\<close>

definition static_globals :: "server \<Rightarrow> bool" where
  "static_globals s \<longleftrightarrow> activeUsers s = 0 \<and> activeUserList s = replicate MAX_USERS None
     \<and> activeChallenges s = 0 \<and> activeChallengesList s = replicate MAX_CHALLENGES None
     \<and> users_heap s = Map.empty \<and> duels s = []"

lemma create_if_missing_keeps:
  assumes "create_if_missing path content s = Some s'"
  obtains f where "s' = s\<lparr>files := f\<rparr>"
  using assms by (auto simp: create_if_missing_def put_file_def split: if_splits intro: that [of "files s"])

lemma serverInit_frame:
  assumes "serverInit s = Some (s' :: server)"
  shows "static_globals s' = static_globals s"
proof -
  obtain p1 c1 p2 c2 p3 c3 s1 s2 where steps: "create_if_missing p1 c1 s = Some s1" "create_if_missing p2 c2 s1 = Some s2"
    "create_if_missing p3 c3 s2 = Some s'"
    using assms unfolding serverInit_def by (auto split: bind_splits)
  obtain f g h where "s1 = s\<lparr>files := f\<rparr>" "s2 = s1\<lparr>files := g\<rparr>" "s' = s2\<lparr>files := h\<rparr>"
    using steps create_if_missing_keeps by metis
  then show ?thesis by (simp add: static_globals_def)
qed

lemma serverInit_files:
  assumes "serverInit s = Some s'" "p \<notin> db_path ` {''users.dat'', ''problems.dat'', ''leaderboard.dat''}"
  shows "files s' p = files s p"
proof -
  obtain c1 c2 c3 s1 s2 where steps: "create_if_missing (db_path ''users.dat'') c1 s = Some s1"
    "create_if_missing (db_path ''problems.dat'') c2 s1 = Some s2" "create_if_missing (db_path ''leaderboard.dat'') c3 s2 = Some s'"
    using assms(1) unfolding serverInit_def database_names by (auto split: bind_splits)
  show ?thesis
    using create_if_missing_files(1) [OF steps(1)] create_if_missing_files(1) [OF steps(2)] create_if_missing_files(1) [OF steps(3)] assms(2)
    by auto
qed

text \<open>The administrator's record lets him log in from any new connection.\<close>

lemma admin_granted:
  assumes "static_globals s" "tables_inv s" "user_rows s = [admin_record]"
  shows "login_granted ''admin'' ''admin'' p (accept_user k p s)"
proof -
  have "users_ok s" using assms(2) by (simp add: tables_inv_def users_part_def)
  moreover have n: "user_name admin_record = ''admin''" "c_str (ur_password admin_record) = ''admin''"
    by (simp_all add: user_name_def admin_record_def no_nul_def)
  ultimately have "getUserRecord ''admin'' s = Some admin_record" using users.get_find [of s "''admin''"] assms(3) by simp
  moreover have "getUserRecord nm (accept_user k p s) = getUserRecord nm s" for nm
    using getRecord_same [of "accept_user k p s" "''users.dat''" s] by (simp add: getUserRecord_def accept_user_def Let_def)
  moreover have "sessions (accept_user k p s) = []"
    using assms(1) by (simp add: static_globals_def sessions_def active_def slot_items_def accept_user_def Let_def)
  ultimately show ?thesis using n(2) by (simp add: login_granted_def accept_user_def Let_def MAX_USERS_def)
qed

text \<open>C11: the start of the server. If each table is missing or in order and files can be created, \<open>main\<close> reaches its loop
  exactly if \<open>socket\<close>, \<open>setsockopt\<close> and \<open>bind\<close> succeed, and returns -1 otherwise. Either way all three tables are in order
  afterwards: one that was there keeps its rows, a missing one is created, the users with the administrator - who can
  log in from any new connection - and the others empty. No other file changes, a restart changes nothing, and
  the state is one from which the runs of \<open>server_invariant\<close> start.\<close>

theorem main_start_correct:
  fixes s :: server
  assumes "static_globals s" "fcntl_ok s" "\<forall>p. creatable s p"
    and "files s (db_path ''users.dat'') = None \<or> users_part s"
    and "files s (db_path ''problems.dat'') = None \<or> problems_part s"
    and "files s (db_path ''leaderboard.dat'') = None \<or> board_part s"
  shows "\<exists>s'. main_start su s = (if 0 \<le> su_socket su \<and> 0 \<le> su_setsockopt su \<and> 0 \<le> su_bind su then Accepting else Ended (-1), s')
    \<and> tables_inv s' \<and> started \<lparr>srv = s', conns = Map.empty, arenas = []\<rparr>
    \<and> user_rows s' = (if files s (db_path ''users.dat'') = None then [admin_record] else user_rows s)
    \<and> problem_rows s' = (if files s (db_path ''problems.dat'') = None then [] else problem_rows s)
    \<and> leaderboard_rows s' = (if files s (db_path ''leaderboard.dat'') = None then [] else leaderboard_rows s)
    \<and> (files s (db_path ''users.dat'') = None \<longrightarrow> (\<forall>k p. login_granted ''admin'' ''admin'' p (accept_user k p s')))
    \<and> (\<forall>p. p \<notin> db_path ` {''users.dat'', ''problems.dat'', ''leaderboard.dat''} \<longrightarrow> files s' p = files s p)
    \<and> (\<forall>su2. snd (main_start su2 s') = s')"
proof -
  have parts: "files s (db_path ''users.dat'') = None \<or> users_ok s" "files s (db_path ''problems.dat'') = None \<or> problems_ok s"
    "files s (db_path ''leaderboard.dat'') = None \<or> leaderboard_ok s"
    using assms(4-6) by (auto simp: users_part_def problems_part_def board_part_def)
  obtain s' where s': "serverInit s = Some s'" "users_ok s'" "problems_ok s'" "leaderboard_ok s'"
    "user_rows s' = (if files s (db_path ''users.dat'') = None then [admin_record] else user_rows s)"
    "problem_rows s' = (if files s (db_path ''problems.dat'') = None then [] else problem_rows s)"
    "leaderboard_rows s' = (if files s (db_path ''leaderboard.dat'') = None then [] else leaderboard_rows s)"
    "serverInit s' = Some s'"
    using server_init_tables [OF assms(2,3) parts] by blast
  have tabs: "tables_inv s'" using s'(2-7) assms(4-6)
    by (auto simp: tables_inv_def users_part_def problems_part_def board_part_def)
  have glob: "static_globals s'" using serverInit_frame [OF s'(1)] assms(1) by simp
  have "main_start su s = (if 0 \<le> su_socket su \<and> 0 \<le> su_setsockopt su \<and> 0 \<le> su_bind su then Accepting else Ended (-1), s')"
    using s'(1) by (simp add: main_start_def)
  moreover have "started \<lparr>srv = s', conns = Map.empty, arenas = []\<rparr>" using glob by (simp add: started_def static_globals_def)
  moreover have "\<forall>k p. login_granted ''admin'' ''admin'' p (accept_user k p s')" if "files s (db_path ''users.dat'') = None"
    using admin_granted [OF glob tabs] s'(5) that by simp
  moreover have "\<forall>su2. snd (main_start su2 s') = s'" using s'(8) by (simp add: main_start_def)
  ultimately show ?thesis using tabs s'(5-7) serverInit_files [OF s'(1)] by (intro exI [of _ s']) blast
qed

section \<open>A first start\<close>

theorem main_start_correct_witness:
  "\<exists>s1. main_start \<lparr>su_socket = 3, su_setsockopt = 0, su_bind = 0\<rparr> idle = (Accepting, s1) \<and> user_rows s1 = [admin_record]
    \<and> login_granted ''admin'' ''admin'' 9 (accept_user 6 9 s1)"
proof -
  have idle: "static_globals idle" "fcntl_ok idle" "\<forall>p. creatable idle p" "files idle (db_path fn) = None" for fn
    by (simp_all add: idle_def fcntl_ok_def static_globals_def)
  show ?thesis
    using main_start_correct [of idle "\<lparr>su_socket = 3, su_setsockopt = 0, su_bind = 0\<rparr>", OF idle(1-3) disjI1 [OF idle(4)] disjI1 [OF idle(4)]
      disjI1 [OF idle(4)]] idle(4) by auto
qed

end
