(* ===== verification/Client.thy ===== *)
theory Client
  imports FileTransfer CJson
begin

text \<open>
  \<open>Client/client.c\<close>: the menus, the exchange of one request with the server and the loop of
  \<open>main\<close>. The record \<open>client\<close> holds the process's side of the world - its files, the standard
  input and output, the two directions of the socket, what the calls of \<open>select\<close> will report - and
  the variables that live from one round to the next: \<open>currentMenu\<close>, the receive buffer and
  \<open>permanentUsername\<close>. \<open>None\<close> is undefined behaviour: a word longer than its array, an \<open>int\<close> that
  \<open>scanf\<close> did not assign, an index outside a menu, a string without its NUL. What the functions of
  \<open>fileTransfer.c\<close> print about their errors is left out of \<open>stdout\<close>.
\<close>

record client = os +
  stdin :: bytes
  stdout :: bytes
  cl_in :: "event list"
  cl_out :: ostream
  cl_ready :: "(bool \<times> bool) option list"
  cl_menu :: int
  cl_buffer :: bytes
  cl_name :: bytes

text \<open>The \<open>break\<close> or \<open>continue\<close> that leads to the next round, \<open>return\<close>, and a \<open>select\<close> that does not
  return.\<close>

datatype cflow = Next | Quit | Waiting

section \<open>Menus\<close>

text \<open>An item without a label ends a menu.\<close>

record MenuItem =
  label :: "bytes option"
  operation :: int

abbreviation (input) menu_item :: "bytes \<Rightarrow> int \<Rightarrow> MenuItem" where
  "menu_item l oper \<equiv> \<lparr>label = Some l, operation = oper\<rparr>"

abbreviation (input) menu_end :: MenuItem where
  "menu_end \<equiv> \<lparr>label = None, operation = -1\<rparr>"

definition loginMenu :: "MenuItem list" where
  "loginMenu = [menu_item ''Login'' LOGIN_ATTEMPT, menu_item ''Signup'' SIGNUP_ATTEMPT,
     menu_item ''Logout'' LOGOUT_ATTEMPT, menu_end]"

definition adminMenu :: "MenuItem list" where
  "adminMenu = [menu_item ''Modify problems'' GO_TO_MODIFY_PROBLEMS_MENU,
     menu_item ''Go back'' GO_TO_LOGIN_MENU, menu_end]"

definition userMenu :: "MenuItem list" where
  "userMenu = [menu_item ''View all problems'' VIEW_ALL_PROBLEMS, menu_item ''View a Problem'' VIEW_A_PROBLEM,
     menu_item ''Submit Solution'' SUBMIT_SOLUTION, menu_item ''Fight a user'' DUEL_USER,
     menu_item ''Go back'' GO_TO_LOGIN_MENU, menu_item ''View full leaderboard'' VIEW_FULL_LEADERBOARD,
     menu_item ''View specific ELO'' VIEW_SPECIFIC_ELO, menu_end]"

definition modifyProblemsMenu :: "MenuItem list" where
  "modifyProblemsMenu = [menu_item ''Add problem'' ADD_PROBLEM, menu_item ''Update problem'' UPDATE_PROBLEM,
     menu_item ''Get problem'' GET_PROBLEM, menu_item ''Delete problem'' DELETE_PROBLEM,
     menu_item ''Go back'' GO_TO_ADMIN_MENU, menu_end]"

definition duelMenu :: "MenuItem list" where
  "duelMenu = [menu_item ''View problem statement'' VIEW_DUEL_PROBLEM_STATEMENT,
     menu_item ''Submit solution'' SUBMIT_DUEL_SOLUTION, menu_item ''Forfeit'' FORFEIT_DUEL, menu_end]"

text \<open>\<open>while(currentItems[count].label != NULL)\<close>.\<close>

definition shown_items :: "MenuItem list \<Rightarrow> MenuItem list" where
  "shown_items items = takeWhile (\<lambda>i. label i \<noteq> None) items"

section \<open>Standard input and output\<close>

definition say :: "bytes list \<Rightarrow> client \<Rightarrow> client" where
  "say parts c = c\<lparr>stdout := stdout c @ concat parts\<rparr>"

text \<open>\<open>scanf("%d", &v)\<close> on what is left of the input: white space, a sign, digits. The inner option is
  the matching failure, which assigns nothing; the outer one a number that is no \<open>int\<close>.\<close>

definition scan_int :: "bytes \<Rightarrow> (int option \<times> bytes) option" where
  "scan_int inp =
     (let (sg, t) = take_sign (dropWhile isspace inp);
          digits = takeWhile isdigit t;
          v = sg * int (read_digits digits)
      in if digits = [] then Some (None, t)
         else if int_range v then Some (Some v, dropWhile isdigit t)
         else None)"

text \<open>\<open>scanf("%s", array)\<close> into an array of \<open>n\<close> bytes that is used as a string afterwards.\<close>

definition scan_word :: "nat \<Rightarrow> bytes \<Rightarrow> (bytes \<times> bytes) option" where
  "scan_word n inp =
     (let t = dropWhile isspace inp; w = takeWhile (\<lambda>ch. \<not> isspace ch) t
      in if w = [] \<or> n \<le> length w then None else Some (c_str w, drop (length w) t))"

text \<open>\<open>fgets(buffer, n, stdin)\<close>: at most \<open>n - 1\<close> bytes, up to and with the newline.\<close>

definition fgets_line :: "nat \<Rightarrow> bytes \<Rightarrow> bytes" where
  "fgets_line n inp =
     (let t = take (n - 1) inp; w = takeWhile (\<lambda>ch. ch \<noteq> CHR 0x0A) t
      in take (Suc (length w)) t)"

definition read_word :: "nat \<Rightarrow> client \<Rightarrow> (bytes \<times> client) option" where
  "read_word n c = do { (w, rest) \<leftarrow> scan_word n (stdin c); Some (w, c\<lparr>stdin := rest\<rparr>) }"

text \<open>A variable that was initialised keeps its value when nothing matches; the value of one that was
  not is undefined.\<close>

definition read_int_or :: "int \<Rightarrow> client \<Rightarrow> (int \<times> client) option" where
  "read_int_or d c = do {
     (v, rest) \<leftarrow> scan_int (stdin c);
     Some (case v of None \<Rightarrow> d | Some n \<Rightarrow> n, c\<lparr>stdin := rest\<rparr>)
   }"

definition read_int :: "client \<Rightarrow> (int \<times> client) option" where
  "read_int c = do { (v, rest) \<leftarrow> scan_int (stdin c); n \<leftarrow> v; Some (n, c\<lparr>stdin := rest\<rparr>) }"

text \<open>\<open>fgets(buffer, sizeof(buffer), stdin)\<close>; at the end of the input the buffer stays as it is.\<close>

definition read_line :: "client \<Rightarrow> client" where
  "read_line c = (if stdin c = [] then c
     else let line = fgets_line 1000 (stdin c)
          in c\<lparr>cl_buffer := overwrite 0 (line @ [CHR 0x00]) (cl_buffer c),
               stdin := drop (length line) (stdin c)\<rparr>)"

section \<open>The socket\<close>

text \<open>\<open>json_str = cJSON_PrintUnformatted(request); write(fd, json_str, strlen(json_str))\<close>, the result of
  \<open>write\<close> ignored.\<close>

definition send_request :: "cJSON \<Rightarrow> client \<Rightarrow> client option" where
  "send_request request c = do {
     json_str \<leftarrow> cJSON_PrintUnformatted request;
     Some (c\<lparr>cl_out := snd (sock_write (c_str json_str) (cl_out c))\<rparr>)
   }"

definition cl_read :: "nat \<Rightarrow> client \<Rightarrow> int \<times> client" where
  "cl_read n c = (let (bytesRead, bs, es) = sock_read n (cl_in c)
     in (bytesRead, c\<lparr>cl_buffer := overwrite 0 bs (cl_buffer c), cl_in := es\<rparr>))"

definition clear_buffer :: "client \<Rightarrow> client" where
  "clear_buffer c = c\<lparr>cl_buffer := replicate 1000 (CHR 0x00)\<rparr>"

text \<open>Sending a request and \<open>bytesRead = read(fd, buffer, sizeof(buffer))\<close>; \<open>cJSON_Parse(buffer)\<close>.\<close>

definition ask :: "cJSON \<Rightarrow> client \<Rightarrow> (int \<times> client) option" where
  "ask request c = do { c1 \<leftarrow> send_request request c; Some (cl_read 1000 c1) }"

definition parse_reply :: "client \<Rightarrow> cJSON option option" where
  "parse_reply c = do { text \<leftarrow> str_at (cl_buffer c); Some (cJSON_Parse text) }"

definition cl_receiveFile :: "bytes \<Rightarrow> client \<Rightarrow> int \<times> client" where
  "cl_receiveFile path c = (let (r, c1, es) = receiveFile path c (cl_in c) in (r, c1\<lparr>cl_in := es\<rparr>))"

definition cl_sendFile :: "bytes \<Rightarrow> int \<Rightarrow> client \<Rightarrow> int \<times> client" where
  "cl_sendFile path fileSize c = (let (r, w) = sendFile path fileSize c (cl_out c) in (r, c\<lparr>cl_out := w\<rparr>))"

text \<open>Sending, or receiving, files one after the other up to the first failure.\<close>

fun cl_sendFiles :: "(bytes \<times> int) list \<Rightarrow> client \<Rightarrow> int \<times> client" where
  "cl_sendFiles [] c = (0, c)"
| "cl_sendFiles ((path, fileSize) # fs) c =
     (let (r, c1) = cl_sendFile path fileSize c in if r < 0 then (-1, c1) else cl_sendFiles fs c1)"

fun cl_receiveFiles :: "bytes list \<Rightarrow> client \<Rightarrow> int \<times> client" where
  "cl_receiveFiles [] c = (0, c)"
| "cl_receiveFiles (path # ps) c =
     (let (r, c1) = cl_receiveFile path c in if r < 0 then (-1, c1) else cl_receiveFiles ps c1)"

section \<open>Requests\<close>

definition op_request :: "int \<Rightarrow> cJSON" where
  "op_request oper = cJSON_AddNumberToObject cJSON_CreateObject ''op'' oper"

definition id_request :: "int \<Rightarrow> int \<Rightarrow> cJSON" where
  "id_request oper problemID = cJSON_AddNumberToObject (op_request oper) ''id'' problemID"

definition page_request :: "int \<Rightarrow> int \<Rightarrow> cJSON" where
  "page_request oper pageNumber = cJSON_AddNumberToObject (op_request oper) ''page'' pageNumber"

definition credentials_request :: "int \<Rightarrow> bytes \<Rightarrow> bytes \<Rightarrow> cJSON" where
  "credentials_request oper username password =
     cJSON_AddStringToObject (cJSON_AddStringToObject (op_request oper) ''username'' username) ''password'' password"

definition problem_request :: "int \<Rightarrow> bytes \<Rightarrow> int \<Rightarrow> int \<Rightarrow> cJSON" where
  "problem_request oper title problemID problemDifficulty =
     cJSON_AddNumberToObject
       (cJSON_AddNumberToObject (cJSON_AddStringToObject (op_request oper) ''title'' title) ''id'' problemID)
       ''difficulty'' problemDifficulty"

definition update_request :: "bytes \<Rightarrow> int \<Rightarrow> int \<Rightarrow> int \<Rightarrow> int \<Rightarrow> int \<Rightarrow> int \<Rightarrow> cJSON" where
  "update_request title problemID problemDifficulty changeStatement changeInput changeOutput problemVisibility =
     cJSON_AddNumberToObject (cJSON_AddNumberToObject (cJSON_AddNumberToObject (cJSON_AddNumberToObject
       (problem_request UPDATE_PROBLEM title problemID problemDifficulty)
       ''changeStatement'' changeStatement) ''changeInput'' changeInput) ''changeOutput'' changeOutput)
       ''visibility'' problemVisibility"

definition no_response :: "client \<Rightarrow> client" where
  "no_response c = say [''No response from server\<newline>''] c"

section \<open>The cases of \<open>main\<close>: sessions\<close>

definition client_login :: "client \<Rightarrow> (cflow \<times> client) option" where
  "client_login c = do {
     (username, c1) \<leftarrow> read_word 100 (say [''Enter username: ''] c);
     (password, c2) \<leftarrow> read_word 100 (say [''Enter password: ''] c1);
     (bytesRead, c3) \<leftarrow> ask (credentials_request LOGIN_ATTEMPT username password) c2;
     if 0 < bytesRead then do {
       json \<leftarrow> parse_reply c3;
       let status = json_get_int json ''status'';
       let user_level = json_get_int json ''userLevel'';
       let c4 = say [''Status: '', show_int status, '', User Level: '', show_int user_level,
         '', Message: '', json_get_string json ''message'', ''\<newline>''] c3;
       if status = SUCCESS then do {
         let menu = (if user_level = ADMIN_USER then ADMIN_MENU
           else if user_level = REGULAR_USER then USER_MENU else cl_menu c4);
         permanentUsername \<leftarrow> strcpy (cl_name c4) username;
         Some (Next, c4\<lparr>cl_menu := menu, cl_name := permanentUsername\<rparr>)
       } else Some (Next, c4)
     } else Some (Next, no_response c3)
   }"

definition client_signup :: "client \<Rightarrow> (cflow \<times> client) option" where
  "client_signup c = do {
     (username, c1) \<leftarrow> read_word 100 (say [''Enter username: ''] c);
     (password, c2) \<leftarrow> read_word 100 (say [''Enter password: ''] c1);
     (bytesRead, c3) \<leftarrow> ask (credentials_request SIGNUP_ATTEMPT username password) c2;
     if 0 < bytesRead then do {
       json \<leftarrow> parse_reply c3;
       Some (Next, say [''Status: '', show_int (json_get_int json ''status''),
         '', Message: '', json_get_string json ''message'', ''\<newline>''] c3)
     } else Some (Next, no_response c3)
   }"

definition client_logout :: "client \<Rightarrow> (cflow \<times> client) option" where
  "client_logout c = do {
     (bytesRead, c1) \<leftarrow> ask (op_request LOGOUT_ATTEMPT) c;
     if 0 < bytesRead then do {
       json \<leftarrow> parse_reply c1;
       let status = json_get_int json ''status'';
       Some (if status = SUCCESS then Quit else Next, say [''Status: '', show_int status,
         '', Message: '', json_get_string json ''message'', ''\<newline>''] c1)
     } else Some (Next, no_response c1)
   }"

section \<open>Problems\<close>

text \<open>The prompt for a difficulty prints the three codes.\<close>

definition difficulty_codes :: bytes where
  "difficulty_codes = ''('' @ show_int EASY_PROBLEM @ '' = easy, '' @ show_int MEDIUM_PROBLEM
     @ '' = medium, '' @ show_int HARD_PROBLEM @ '' = hard): ''"

text \<open>What follows the request of ADD_PROBLEM and UPDATE_PROBLEM: the status, then the files.\<close>

definition client_upload :: "bytes \<Rightarrow> bytes \<Rightarrow> cJSON \<Rightarrow> (bytes \<times> int) list \<Rightarrow> client \<Rightarrow> (cflow \<times> client) option" where
  "client_upload failed fine request fs c = do {
     (bytesRead, c1) \<leftarrow> ask request c;
     if 0 < bytesRead then do {
       json \<leftarrow> parse_reply c1;
       if json_get_int json ''status'' \<noteq> SUCCESS then Some (Next, say [failed] c1)
       else do {
         let (r, c2) = cl_sendFiles fs c1;
         Some (Next, if r < 0 then c2 else say [fine] c2)
       }
     } else Some (Next, no_response c1)
   }"

definition client_add_problem :: "client \<Rightarrow> (cflow \<times> client) option" where
  "client_add_problem c = do {
     (title, c1) \<leftarrow> read_word 100 (say [''Enter problem title(No spaces): ''] c);
     (problemID, c2) \<leftarrow> read_int (say [''Enter problem ID: ''] c1);
     (problemDifficulty, c3) \<leftarrow> read_int (say [''Enter problem difficulty '', difficulty_codes] c2);
     (problemStatementPath, c4) \<leftarrow> read_word 200 (say [''Give absolute path to the problem statement file: ''] c3);
     (problemInputPath, c5) \<leftarrow> read_word 200 (say [''Give absolute path to the problem input file: ''] c4);
     (problemOutputPath, c6) \<leftarrow> read_word 200 (say [''Give absolute path to the problem output file: ''] c5);
     let files = map (\<lambda>path. (path, getFileSize path c6)) [problemStatementPath, problemInputPath, problemOutputPath];
     if \<exists>(path, fileSize) \<in> set files. fileSize < 0 then Some (Next, c6)
     else client_upload ''Failed to add problem\<newline>'' ''Problem added successfully!\<newline>''
       (problem_request ADD_PROBLEM title problemID problemDifficulty) files c6
   }"

text \<open>\<open>if(change){ printf(...); scanf("%s", path); }\<close>: a path that is not asked for is not used.\<close>

definition read_path :: "int \<Rightarrow> bytes \<Rightarrow> client \<Rightarrow> (bytes list \<times> client) option" where
  "read_path change prompt c = (if change = 0 then Some ([], c)
     else do { (path, c1) \<leftarrow> read_word 200 (say [prompt] c); Some ([path], c1) })"

definition client_update_problem :: "client \<Rightarrow> (cflow \<times> client) option" where
  "client_update_problem c = do {
     (problemID, c1) \<leftarrow> read_int (say [''Enter problem ID: ''] c);
     (title, c2) \<leftarrow> read_word 100 (say [''Enter new problem title(No spaces): ''] c1);
     (problemDifficulty, c3) \<leftarrow> read_int (say [''Enter new problem difficulty '', difficulty_codes] c2);
     (problemVisibility, c4) \<leftarrow> read_int (say [''Is the problem visible to users? ('', show_int PROBLEM_VISIBLE,
       '' for yes, '', show_int PROBLEM_HIDDEN, '' for no): ''] c3);
     (changeStatement, c5) \<leftarrow> read_int_or 0 (say [''Do you want to change the problem statement? (1 for yes, 0 for no): ''] c4);
     (changeInput, c6) \<leftarrow> read_int_or 0 (say [''Do you want to change the problem input? (1 for yes, 0 for no): ''] c5);
     (changeOutput, c7) \<leftarrow> read_int_or 0 (say [''Do you want to change the problem output? (1 for yes, 0 for no): ''] c6);
     (statement, c8) \<leftarrow> read_path changeStatement ''Give absolute path to the new problem statement file: '' c7;
     (input, c9) \<leftarrow> read_path changeInput ''Give absolute path to the new problem input file: '' c8;
     (outp, c10) \<leftarrow> read_path changeOutput ''Give absolute path to the new problem output file: '' c9;
     let files = map (\<lambda>path. (path, getFileSize path c10)) (statement @ input @ outp);
     if \<exists>(path, fileSize) \<in> set files. fileSize < 0 then Some (Next, c10)
     else client_upload ''Failed to update problem\<newline>'' ''Problem updated successfully!\<newline>''
       (update_request title problemID problemDifficulty changeStatement changeInput changeOutput problemVisibility)
       files c10
   }"

definition title_line :: "cJSON option \<Rightarrow> bytes list" where
  "title_line json = [''Title: '', json_get_string json ''title'',
     '', Difficulty: '', show_int (json_get_int json ''difficulty''), ''\<newline>'']"

definition client_get_problem :: "client \<Rightarrow> (cflow \<times> client) option" where
  "client_get_problem c = do {
     (problemID, c1) \<leftarrow> read_int (say [''Enter problem ID: ''] c);
     (bytesRead, c2) \<leftarrow> ask (id_request GET_PROBLEM problemID) c1;
     if bytesRead \<le> 0 then Some (Next, no_response c2)
     else do {
       json \<leftarrow> parse_reply c2;
       if json_get_int json ''status'' \<noteq> SUCCESS then Some (Next, say [''Failed to get problem\<newline>''] c2)
       else do {
         let (r, c3) = cl_receiveFiles [''./tempProblemStatement.txt'', ''./tempProblemInput.in'', ''./tempProblemOutput.out'']
           (say (title_line json) c2);
         Some (Next, if r < 0 then c3 else say [''Problem files received successfully!\<newline>'',
           ''Problem Statement saved at: ./tempProblemStatement.txt\<newline>'',
           ''Problem Input saved at: ./tempProblemInput.in\<newline>'',
           ''Problem Output saved at: ./tempProblemOutput.out\<newline>''] c3)
       }
     }
   }"

definition client_delete_problem :: "client \<Rightarrow> (cflow \<times> client) option" where
  "client_delete_problem c = do {
     (problemID, c1) \<leftarrow> read_int (say [''Enter problem ID: ''] c);
     (bytesRead, c2) \<leftarrow> ask (id_request DELETE_PROBLEM problemID) c1;
     if 0 < bytesRead then do {
       json \<leftarrow> parse_reply c2;
       Some (Next, say [if json_get_int json ''status'' = SUCCESS then ''Problem deleted successfully!\<newline>''
         else ''Failed to delete problem\<newline>''] c2)
     } else Some (Next, no_response c2)
   }"

text \<open>One line of a page of problems, the loop over the page and the operation. \<open>cJSON_GetArrayItem\<close> of a
  missing array or index is \<open>NULL\<close>, of which every field is missing.\<close>

definition problem_line :: "cJSON option \<Rightarrow> bytes" where
  "problem_line problemJSON = concat (''ID: '' # show_int (json_get_int problemJSON ''id'') # '', ''
     # title_line problemJSON)"

definition client_view_all :: "client \<Rightarrow> (cflow \<times> client) option" where
  "client_view_all c = do {
     (pageNumber, c1) \<leftarrow> read_int (say [''Enter page number: ''] c);
     (bytesRead, c2) \<leftarrow> ask (page_request VIEW_ALL_PROBLEMS pageNumber) c1;
     if bytesRead \<le> 0 then Some (Next, no_response c2)
     else do {
       response \<leftarrow> parse_reply c2;
       if json_get_int response ''status'' \<noteq> SUCCESS then Some (Next, say [''Failed to retrieve problems\<newline>''] c2)
       else do {
         let count = json_get_int response ''count'';
         let problemsArray = cJSON_GetObjectItem response ''problems'';
         Some (Next, say (map (\<lambda>i. problem_line (cJSON_GetArrayItem problemsArray i)) [0..count - 1])
           (say [''Problems on page '', show_int pageNumber, '':\<newline>''] c2))
       }
     }
   }"

definition client_view_problem :: "client \<Rightarrow> (cflow \<times> client) option" where
  "client_view_problem c = do {
     (problemID, c1) \<leftarrow> read_int (say [''Enter problem ID: ''] c);
     (bytesRead, c2) \<leftarrow> ask (id_request VIEW_A_PROBLEM problemID) c1;
     if bytesRead \<le> 0 then Some (Next, no_response c2)
     else do {
       json \<leftarrow> parse_reply c2;
       if json_get_int json ''status'' \<noteq> SUCCESS then Some (Next, say [''Failed to get problem\<newline>''] c2)
       else do {
         permanentUsername \<leftarrow> str_at (cl_name c2);
         let probStatementPath = ''./tempProblemStatement'' @ show_int problemID @ ''-'' @ permanentUsername @ ''.txt'';
         let (r, c3) = cl_receiveFile probStatementPath (say (title_line json) c2);
         Some (Next, if r < 0 then c3
           else snd (deleteFile probStatementPath
             (say [''Problem Statement:\<newline>'', snd (readFile probStatementPath c3)] c3)))
       }
     }
   }"

text \<open>Neither of the two reads is checked: when there is none, the buffer is parsed as it is.\<close>

definition client_submit :: "client \<Rightarrow> (cflow \<times> client) option" where
  "client_submit c = do {
     (problemID, c1) \<leftarrow> read_int (say [''Enter problem ID: ''] c);
     (path, c2) \<leftarrow> read_word 200 (say [''Give absolute path to your solution file(should be C code): ''] c1);
     let fileSize = getFileSize path c2;
     if fileSize < 0 then Some (Next, c2)
     else do {
       (_, c3) \<leftarrow> ask (id_request SUBMIT_SOLUTION problemID) c2;
       json \<leftarrow> parse_reply c3;
       if json_get_int json ''status'' \<noteq> SUCCESS then Some (Next, say [''Failed to submit solution\<newline>''] c3)
       else do {
         let (r, c4) = cl_sendFile path fileSize c3;
         if r < 0 then Some (Next, c4)
         else do {
           let (_, c5) = cl_read 1000 c4;
           verdict \<leftarrow> parse_reply c5;
           Some (Next, say [''Submission status: '', json_get_string verdict ''message'', ''\<newline>''] c5)
         }
       }
     }
   }"

section \<open>Leaderboard\<close>

definition entry_line :: "cJSON option \<Rightarrow> bytes" where
  "entry_line entryJSON = (if entryJSON = None then []
     else concat [''Username: '', json_get_string entryJSON ''username'', '', ELO: '',
       show_int (json_get_int entryJSON ''elo''), ''\<newline>''])"

definition client_leaderboard :: "client \<Rightarrow> (cflow \<times> client) option" where
  "client_leaderboard c = do {
     (pageNumber, c1) \<leftarrow> read_int (say [''Enter page number: ''] c);
     (bytesRead, c2) \<leftarrow> ask (page_request VIEW_FULL_LEADERBOARD pageNumber) c1;
     if bytesRead \<le> 0 then Some (Next, no_response c2)
     else do {
       response \<leftarrow> parse_reply c2;
       if json_get_int response ''status'' \<noteq> SUCCESS then Some (Next, say [''Failed to retrieve leaderboard\<newline>''] c2)
       else do {
         let count = json_get_int response ''count'';
         let entriesArray = cJSON_GetObjectItem response ''entries'';
         let c3 = say [''Leaderboard - Page '', show_int pageNumber, '':\<newline>''] c2;
         Some (Next, if entriesArray = None then c3
           else say (map (\<lambda>i. entry_line (cJSON_GetArrayItem entriesArray i)) [0..count - 1]) c3)
       }
     }
   }"

definition client_specific_elo :: "client \<Rightarrow> (cflow \<times> client) option" where
  "client_specific_elo c = do {
     (queryUsername, c1) \<leftarrow> read_word 100 (say [''Enter username to query ELO: ''] c);
     (_, c2) \<leftarrow> ask (cJSON_AddStringToObject (op_request VIEW_SPECIFIC_ELO) ''username'' queryUsername) c1;
     eloResponse \<leftarrow> parse_reply c2;
     if json_get_int eloResponse ''status'' \<noteq> SUCCESS then Some (Next, say [''Failed to retrieve ELO\<newline>''] c2)
     else Some (Next, say [''User '', queryUsername, '' has ELO: '', show_int (json_get_int eloResponse ''elo''), ''\<newline>''] c2)
   }"

section \<open>Duels\<close>

text \<open>The loop of DUEL_USER that waits for standard input or the socket. A result of \<open>select\<close> is an error or
  which of the two descriptors are ready; behind the last one \<open>select\<close> does not return.\<close>

fun wait_loop :: "(bool \<times> bool) option list \<Rightarrow> client \<Rightarrow> (cflow \<times> client) option" where
  "wait_loop [] c = Some (Waiting, c\<lparr>cl_ready := []\<rparr>)"
| "wait_loop (None # rs) c = Some (Next, c\<lparr>cl_ready := rs\<rparr>)"
| "wait_loop (Some (from_stdin, from_server) # rs) c = (
     let c1 = (if from_stdin then read_line c else c)
     in if from_stdin \<and> cl_buffer c1 ! 0 = CHR ''2'' then do {
          c2 \<leftarrow> send_request (op_request WITHDRAW_CHALLENGE) c1;
          Some (Next, say [''Duel request withdrawn. Returning to user menu.\<newline>''] (c2\<lparr>cl_ready := rs\<rparr>))
        } else if from_server then do {
          let (_, c2) = cl_read 999 c1;
          json \<leftarrow> parse_reply c2;
          if json_get_int json ''status'' = GO_TO_DUEL_MENU then do {
            c3 \<leftarrow> send_request (op_request DUEL_ACCEPTED)
              (say [''Duel request accepted! Starting duel...\<newline>''] (c2\<lparr>cl_menu := DUEL_MENU\<rparr>));
            Some (Next, c3\<lparr>cl_ready := rs\<rparr>)
          } else wait_loop rs c2
        } else wait_loop rs c1)"

definition client_duel_user :: "client \<Rightarrow> (cflow \<times> client) option" where
  "client_duel_user c = do {
     (opponentUsername, c1) \<leftarrow> read_word 100 (say [''Enter opponent'', [CHR 0x27], ''s username: ''] c);
     permanentUsername \<leftarrow> str_at (cl_name c1);
     if opponentUsername = permanentUsername then Some (Next, say [''You cannot duel yourself!\<newline>''] c1)
     else do {
       (_, c2) \<leftarrow> ask (cJSON_AddStringToObject (op_request DUEL_USER) ''opponent'' opponentUsername) c1;
       json \<leftarrow> parse_reply c2;
       let status = json_get_int json ''status'';
       if status = FAILURE then Some (Next, say [''Failed to start duel\<newline>''] c2)
       else if status = GO_TO_DUEL_WAITING_MENU
       then wait_loop (cl_ready c2) (say [''Duel request sent. Waiting for opponent to accept...\<newline>'',
         ''Either press 2 to exit or wait for the duel to start automatically when the opponent accepts the request.\<newline>''] c2)
       else Some (Next, c2\<lparr>cl_menu := DUEL_MENU\<rparr>)
     }
   }"

text \<open>One exchange of \<open>handleDuelMenu\<close>, which reads into a buffer of its own that is cleared before each
  read. \<open>n\<close> is the size given to \<open>read\<close>.\<close>

definition duel_read :: "nat \<Rightarrow> client \<Rightarrow> (cJSON option \<times> client) option" where
  "duel_read n c = do {
     let (_, bs, es) = sock_read n (cl_in c);
     text \<leftarrow> str_at (overwrite 0 bs (replicate 1000 (CHR 0x00)));
     Some (cJSON_Parse text, c\<lparr>cl_in := es\<rparr>)
   }"

definition duel_ask :: "int \<Rightarrow> client \<Rightarrow> (cJSON option \<times> client) option" where
  "duel_ask oper c = do { c1 \<leftarrow> send_request (op_request oper) c; duel_read 1000 c1 }"

definition message_line :: "cJSON option \<Rightarrow> bytes list" where
  "message_line json = [json_get_string json ''message'', ''\<newline>'']"

text \<open>The three operations and the branch for anything else; the flag says that \<open>handleDuelMenu\<close> is left.\<close>

definition duel_view :: "client \<Rightarrow> (bool \<times> client) option" where
  "duel_view c = do {
     (response, c1) \<leftarrow> duel_ask VIEW_DUEL_PROBLEM_STATEMENT c;
     let status = json_get_int response ''status'';
     if status = GO_TO_USER_MENU then Some (True, (say (''\<newline>'' # message_line response) c1)\<lparr>cl_menu := USER_MENU\<rparr>)
     else if status \<noteq> SUCCESS then Some (False, say (message_line response) c1)
     else do {
       let path = ''./tempDuelProblemStatement.txt'';
       let (r, c2) = cl_receiveFile path (say (title_line response) c1);
       if r < 0 then Some (True, say [''Failed to receive duel problem statement.\<newline>''] c2)
       else Some (False, snd (deleteFile path (say [''Problem Statement:\<newline>'', snd (readFile path c2)] c2)))
     }
   }"

definition duel_submit :: "client \<Rightarrow> (bool \<times> client) option" where
  "duel_submit c = do {
     (solutionPath, c1) \<leftarrow> read_word 200 (say [''Give absolute path to your solution file(should be C code): ''] c);
     let fileSize = getFileSize solutionPath c1;
     if fileSize < 0 then Some (False, c1)
     else do {
       (response, c2) \<leftarrow> duel_ask SUBMIT_DUEL_SOLUTION c1;
       let status = json_get_int response ''status'';
       let c3 = say (message_line response) c2;
       if status = GO_TO_USER_MENU then Some (True, c3\<lparr>cl_menu := USER_MENU\<rparr>)
       else if status \<noteq> SUCCESS then Some (False, c3)
       else do {
         let (r, c4) = cl_sendFile solutionPath fileSize c3;
         if r < 0 then Some (False, say [''Failed to send duel solution.\<newline>''] c4)
         else do {
           (verdict, c5) \<leftarrow> duel_read 999 c4;
           let c6 = say (message_line verdict) c5;
           if json_get_int verdict ''status'' = GO_TO_USER_MENU then Some (True, c6\<lparr>cl_menu := USER_MENU\<rparr>)
           else Some (False, c6)
         }
       }
     }
   }"

definition duel_forfeit :: "client \<Rightarrow> (bool \<times> client) option" where
  "duel_forfeit c = do {
     (response, c1) \<leftarrow> duel_ask FORFEIT_DUEL c;
     let c2 = say (message_line response) c1;
     if json_get_int response ''status'' = GO_TO_USER_MENU then Some (True, c2\<lparr>cl_menu := USER_MENU\<rparr>)
     else Some (False, c2)
   }"

definition duel_operation :: "int \<Rightarrow> client \<Rightarrow> (bool \<times> client) option" where
  "duel_operation choice c =
     (if choice = VIEW_DUEL_PROBLEM_STATEMENT then duel_view c
      else if choice = SUBMIT_DUEL_SOLUTION then duel_submit c
      else if choice = FORFEIT_DUEL then duel_forfeit c
      else Some (False, say [''Invalid choice, please try again.\<newline>''] c))"

text \<open>The menu as it is printed, and \<open>duelMenu[userChoice - 1]\<close>, which nothing bounds.\<close>

definition show_menu :: "MenuItem list \<Rightarrow> client \<Rightarrow> client" where
  "show_menu items c = say (concat (map (\<lambda>(i, item).
     [show_int (int i), ''. '', the (label item), ''\<newline>'']) (List.enumerate 1 (shown_items items)))
     @ [''\<newline>Enter your choice: '']) c"

definition duel_item :: "int \<Rightarrow> MenuItem option" where
  "duel_item userChoice = (if 1 \<le> userChoice \<and> userChoice \<le> int (length duelMenu)
     then Some (duelMenu ! nat (userChoice - 1)) else None)"

text \<open>One pass of \<open>while(*currentMenu == DUEL_MENU)\<close>.\<close>

definition duel_menu_round :: "client \<Rightarrow> (bool \<times> client) option" where
  "duel_menu_round c = do {
     (userChoice, c1) \<leftarrow> read_int (show_menu duelMenu c);
     item \<leftarrow> duel_item userChoice;
     duel_operation (operation item) c1
   }"

end
