(* ===== verification/ClientLoop.thy ===== *)
theory ClientLoop
  imports Client
begin

text \<open>
  The loops of the client, \<open>handleDuelMenu\<close> and \<open>main\<close>, with the rules that carry facts through its
  operations. \<open>yields P m\<close> says that the result of \<open>m\<close>, if it has one, satisfies \<open>P\<close>; the rules in \<open>wp\<close>
  reduce it, statement by statement, to what holds of the state behind each primitive.
\<close>

named_theorems wp \<open>a fact about the state carried through a primitive of the client\<close>

section \<open>Carrying facts through an operation\<close>

definition yields :: "('a \<Rightarrow> bool) \<Rightarrow> 'a option \<Rightarrow> bool" where
  "yields P m \<longleftrightarrow> (\<forall>x. m = Some x \<longrightarrow> P x)"

lemma yields_simps [simp]:
  "yields P None" "yields P (Some x) = P x"
  "yields P (Option.bind m f) = yields (\<lambda>x. yields P (f x)) m"
  by (auto simp: yields_def split: bind_splits)

lemma yieldsD: "yields P m \<Longrightarrow> m = Some x \<Longrightarrow> P x"
  by (simp add: yields_def)

lemma yields_mono: "yields P m \<Longrightarrow> (\<And>x. P x \<Longrightarrow> Q x) \<Longrightarrow> yields Q m"
  by (simp add: yields_def)

text \<open>What every operation does to the rest of the state: it reads on in the input, the buffer and the
  name stay as long as they are, and the menu is the old one or one of \<open>M\<close>.\<close>

definition stays :: "int set \<Rightarrow> client \<Rightarrow> client \<Rightarrow> bool" where
  "stays M c c' \<longleftrightarrow> length (stdin c') \<le> length (stdin c) \<and> cl_menu c' \<in> insert (cl_menu c) M
     \<and> length (cl_name c') = length (cl_name c)
     \<and> (length (cl_buffer c) = 1000 \<longrightarrow> length (cl_buffer c') = 1000)"

lemma stays_refl [simp]: "stays M c c"
  by (simp add: stays_def)

lemma stays_trans: "stays M a b \<Longrightarrow> stays M b c \<Longrightarrow> stays M a c"
  by (auto simp: stays_def)

lemma stays_from_say [simp]: "stays M (say parts c) c' = stays M c c'"
  by (simp add: stays_def say_def)

lemma stays_fields [simp]:
  "stays M c (say parts c') = stays M c c'" "stays M c (no_response c') = stays M c c'"
  "stays M c (c'\<lparr>cl_out := w\<rparr>) = stays M c c'" "stays M c (c'\<lparr>cl_in := es\<rparr>) = stays M c c'"
  "stays M c (c'\<lparr>cl_ready := rs\<rparr>) = stays M c c'" "stays M c (c'\<lparr>files := fs\<rparr>) = stays M c c'"
  by (simp_all add: stays_def say_def no_response_def)

lemma say_fields [simp]:
  "stdin (say parts c) = stdin c" "cl_in (say parts c) = cl_in c" "cl_out (say parts c) = cl_out c"
  "cl_menu (say parts c) = cl_menu c" "cl_buffer (say parts c) = cl_buffer c" "cl_name (say parts c) = cl_name c"
  "cl_ready (say parts c) = cl_ready c" "files (say parts c) = files c"
  by (simp_all add: say_def)

lemma scan_int_length: "scan_int inp = Some (v, rest) \<Longrightarrow> length rest \<le> length inp \<and> (v \<noteq> None \<longrightarrow> length rest < length inp)"
proof -
  assume scan: "scan_int inp = Some (v, rest)"
  obtain sg t where t: "take_sign (dropWhile isspace inp) = (sg, t)" by (metis surj_pair)
  have "length (snd (take_sign u)) \<le> length u" for u
    by (cases u) (simp_all add: take_sign_def)
  from this [of "dropWhile isspace inp"] have "length t \<le> length (dropWhile isspace inp)" using t by simp
  then have len: "length t \<le> length inp" using length_dropWhile_le order_trans by blast
  have split: "length (takeWhile isdigit t) + length (dropWhile isdigit t) = length t"
    by (metis length_append takeWhile_dropWhile_id)
  show ?thesis
  proof (cases "takeWhile isdigit t")
    case Nil
    then show ?thesis using scan t len by (simp add: scan_int_def)
  next
    case (Cons d ds)
    then have "length (dropWhile isdigit t) < length t" using split by simp
    then show ?thesis using scan t len Cons by (auto simp: scan_int_def Let_def split: if_splits)
  qed
qed

lemma scan_word_length: "scan_word n inp = Some (w, rest) \<Longrightarrow> length rest < length inp"
proof -
  assume scan: "scan_word n inp = Some (w, rest)"
  define t where "t = dropWhile isspace inp"
  define u where "u = takeWhile (\<lambda>ch. \<not> isspace ch) t"
  have "u \<noteq> []" "rest = drop (length u) t"
    using scan by (auto simp: scan_word_def Let_def t_def u_def split: if_splits)
  moreover have "length u \<le> length t" "length t \<le> length inp"
    by (simp_all add: t_def u_def length_takeWhile_le length_dropWhile_le)
  ultimately show ?thesis by (cases u) auto
qed

lemma stays_stdin: "stays M a c \<Longrightarrow> length rest \<le> length (stdin c) \<Longrightarrow> stays M a (c\<lparr>stdin := rest\<rparr>)"
  by (auto simp: stays_def)

lemma stays_buffer: "stays M a c \<Longrightarrow> length bs \<le> 1000 \<Longrightarrow> stays M a (c\<lparr>cl_buffer := overwrite 0 bs (cl_buffer c)\<rparr>)"
  by (auto simp: stays_def overwrite_def)

lemma stays_read_word [wp]:
  assumes "stays M a c" "\<And>w c'. stays M a c' \<Longrightarrow> P (w, c')"
  shows "yields P (read_word n c)"
  by (auto simp: yields_def read_word_def split: bind_splits dest!: scan_word_length intro!: assms(2) stays_stdin [OF assms(1)])

lemma stays_read_int_or [wp]:
  assumes "stays M a c" "\<And>v c'. stays M a c' \<Longrightarrow> P (v, c')"
  shows "yields P (read_int_or d c)"
  by (auto simp: yields_def read_int_or_def split: bind_splits dest!: scan_int_length intro!: assms(2) stays_stdin [OF assms(1)])

lemma stays_read_int [wp]:
  assumes "stays M a c" "\<And>v c'. stays M a c' \<Longrightarrow> P (v, c')"
  shows "yields P (read_int c)"
  by (auto simp: yields_def read_int_def split: bind_splits dest!: scan_int_length intro!: assms(2) stays_stdin [OF assms(1)])

lemma stays_send_request [wp]:
  assumes "stays M a c" "\<And>c'. stays M a c' \<Longrightarrow> P c'"
  shows "yields P (send_request request c)"
  using assms by (auto simp: yields_def send_request_def split: bind_splits)

lemma stays_cl_read: "stays M a c \<Longrightarrow> n \<le> 1000 \<Longrightarrow> stays M a (snd (cl_read n c))"
proof -
  assume c: "stays M a c" and n: "n \<le> 1000"
  obtain k bs es where rd: "sock_read n (cl_in c) = (k, bs, es)" by (metis prod_cases3)
  then show ?thesis using stays_buffer [OF c, of bs] sock_read_le [OF rd] n by (simp add: cl_read_def)
qed

lemma stays_ask [wp]:
  assumes "stays M a c" "\<And>n c'. stays M a c' \<Longrightarrow> P (n, c')"
  shows "yields P (ask request c)"
proof -
  have "yields (\<lambda>c1. P (cl_read 1000 c1)) (send_request request c)"
    by (rule stays_send_request [OF assms(1)]) (metis assms(2) stays_cl_read order_refl surjective_pairing)
  then show ?thesis by (simp add: ask_def)
qed

lemma stays_read_line: "stays M a c \<Longrightarrow> stays M a (read_line c)"
proof -
  assume c: "stays M a c"
  have "length (fgets_line 1000 (stdin c)) \<le> 999" by (simp add: fgets_line_def Let_def)
  then show ?thesis using stays_stdin [OF stays_buffer [OF c]] c by (simp add: read_line_def Let_def)
qed

lemma stays_receiveFile:
  assumes "stays M a c"
  shows "stays M a (snd (cl_receiveFile path c))"
proof -
  obtain r c1 es where r: "receiveFile path c (cl_in c) = (r, c1, es)" by (metis prod_cases3)
  have "c1 = c \<or> (\<exists>d. c1 = put_file path d c)"
    using r by (auto simp: receiveFile_def Let_def split: prod.splits if_splits)
  then show ?thesis using assms r by (auto simp: cl_receiveFile_def put_file_def)
qed

lemma stays_sendFile: "stays M a c \<Longrightarrow> stays M a (snd (cl_sendFile path m c))"
  by (simp add: cl_sendFile_def case_prod_beta)

lemma stays_receiveFiles: "stays M a c \<Longrightarrow> stays M a (snd (cl_receiveFiles paths c))"
proof (induction paths arbitrary: c)
  case (Cons p ps)
  then show ?case using stays_receiveFile [OF Cons.prems, of p] by (auto simp: case_prod_beta Let_def)
qed simp

lemma stays_sendFiles: "stays M a c \<Longrightarrow> stays M a (snd (cl_sendFiles fs c))"
proof (induction fs c rule: cl_sendFiles.induct)
  case (2 path fileSize fs c)
  obtain r c1 where r: "cl_sendFile path fileSize c = (r, c1)" by (metis surj_pair)
  then show ?case using stays_sendFile [OF 2(2), of path fileSize] 2(1) [OF r [symmetric] refl] by simp
qed simp

lemma stays_deleteFile: "stays M a c \<Longrightarrow> stays M a (snd (deleteFile path c))"
  by (auto simp: deleteFile_def remove_file_def)

lemma stays_duel_ask [wp]:
  assumes "stays M a c" "\<And>j c'. stays M a c' \<Longrightarrow> P (j, c')"
  shows "yields P (duel_ask oper c)"
proof -
  have "yields P (duel_read 1000 c1)" if "stays M a c1" for c1
    using that assms(2) by (auto simp: yields_def duel_read_def Let_def split: bind_splits prod.splits)
  then show ?thesis unfolding duel_ask_def yields_simps by (intro stays_send_request [OF assms(1)])
qed

lemma stays_duel_read [wp]:
  assumes "stays M a c" "\<And>j c'. stays M a c' \<Longrightarrow> P (j, c')"
  shows "yields P (duel_read n c)"
  using assms by (auto simp: yields_def duel_read_def Let_def split: bind_splits prod.splits)

lemma stays_read_path [wp]:
  assumes "stays M a c" "\<And>ps c'. stays M a c' \<Longrightarrow> P (ps, c')"
  shows "yields P (read_path change prompt c)"
  using assms by (auto simp: read_path_def intro!: stays_read_word [of M a])

lemma yields_any: "(\<And>x. P x) \<Longrightarrow> yields P m"
  by (simp add: yields_def)

lemmas wp_pure = yields_any [where m = "parse_reply c" for c] yields_any [where m = "str_at s" for s]

lemmas stays_transfer = stays_receiveFile stays_sendFile stays_receiveFiles stays_sendFiles stays_deleteFile stays_cl_read

section \<open>The operations keep the rest\<close>

definition steady :: "(client \<Rightarrow> (cflow \<times> client) option) \<Rightarrow> bool" where
  "steady f \<longleftrightarrow> (\<forall>M a c. stays M a c \<longrightarrow> yields (\<lambda>(flow, c'). flow = Next \<and> stays M a c') (f c))"

lemma steadyI: "(\<And>M a c. stays M a c \<Longrightarrow> yields (\<lambda>(flow, c'). flow = Next \<and> stays M a c') (f c)) \<Longrightarrow> steady f"
  by (simp add: steady_def)

lemma stays_upload:
  "stays M a c \<Longrightarrow> yields (\<lambda>(flow, c'). flow = Next \<and> stays M a c') (client_upload failed fine request fs c)"
  by (auto simp: client_upload_def Let_def case_prod_beta intro!: wp [of M a] wp_pure stays_transfer)

lemma steady_signup: "steady client_signup"
  by (rule steadyI) (auto simp: client_signup_def Let_def case_prod_beta intro!: wp [of M a for M a] wp_pure stays_transfer stays_upload)

lemma steady_add_problem: "steady client_add_problem"
  by (rule steadyI) (auto simp: client_add_problem_def Let_def case_prod_beta intro!: wp [of M a for M a] wp_pure stays_transfer stays_upload)

lemma steady_update_problem: "steady client_update_problem"
  by (rule steadyI) (auto simp: client_update_problem_def Let_def case_prod_beta intro!: wp [of M a for M a] wp_pure stays_transfer stays_upload)

lemma steady_get_problem: "steady client_get_problem"
  by (rule steadyI) (auto simp: client_get_problem_def Let_def case_prod_beta intro!: wp [of M a for M a] wp_pure stays_transfer stays_upload)

lemma steady_delete_problem: "steady client_delete_problem"
  by (rule steadyI) (auto simp: client_delete_problem_def Let_def case_prod_beta intro!: wp [of M a for M a] wp_pure stays_transfer stays_upload)

lemma steady_view_all: "steady client_view_all"
  by (rule steadyI) (auto simp: client_view_all_def Let_def case_prod_beta intro!: wp [of M a for M a] wp_pure stays_transfer stays_upload)

lemma steady_view_problem: "steady client_view_problem"
  by (rule steadyI) (auto simp: client_view_problem_def Let_def case_prod_beta intro!: wp [of M a for M a] wp_pure stays_transfer stays_upload)

lemma steady_submit: "steady client_submit"
  by (rule steadyI) (auto simp: client_submit_def Let_def case_prod_beta intro!: wp [of M a for M a] wp_pure stays_transfer stays_upload)

lemma steady_leaderboard: "steady client_leaderboard"
  by (rule steadyI) (auto simp: client_leaderboard_def Let_def case_prod_beta intro!: wp [of M a for M a] wp_pure stays_transfer stays_upload)

lemma steady_specific_elo: "steady client_specific_elo"
  by (rule steadyI) (auto simp: client_specific_elo_def Let_def case_prod_beta intro!: wp [of M a for M a] wp_pure stays_transfer stays_upload)


lemmas steady_ops = steady_signup steady_add_problem steady_update_problem steady_get_problem steady_delete_problem
  steady_view_all steady_view_problem steady_submit steady_leaderboard steady_specific_elo

lemma stays_menu: "stays M a c \<Longrightarrow> m \<in> M \<Longrightarrow> stays M a (c\<lparr>cl_menu := m\<rparr>)"
  by (simp add: stays_def)

lemma stays_name: "stays M a c \<Longrightarrow> strcpy (cl_name c) s = Some nm \<Longrightarrow> stays M a (c\<lparr>cl_name := nm\<rparr>)"
  by (simp add: stays_def)

lemma stays_login: "yields (\<lambda>(flow, c'). flow = Next \<and> stays {ADMIN_MENU, USER_MENU} c c') (client_login c)"
proof -
  let ?M = "{ADMIN_MENU, USER_MENU}"
  have granted: "yields (\<lambda>nm. stays ?M c (say ps c1\<lparr>cl_menu := m, cl_name := nm\<rparr>)) (strcpy (cl_name c1) un)"
    if "stays ?M c c1" "m = cl_menu c1 \<or> m \<in> ?M" for c1 m un ps
    using that strcpy_length by (auto simp: yields_def stays_def)
  show ?thesis
    by (simp add: client_login_def) (auto intro!: wp [of ?M c] wp_pure granted simp: Let_def)
qed

lemma stays_logout: "yields (\<lambda>(flow, c'). flow \<in> {Next, Quit} \<and> stays {} c c') (client_logout c)"
  by (auto simp: client_logout_def Let_def intro!: wp [of _ c] wp_pure)

lemma stays_wait_loop:
  "stays {DUEL_MENU} a c \<Longrightarrow> yields (\<lambda>(flow, c'). flow \<noteq> Quit \<and> stays {DUEL_MENU} a c') (wait_loop rs c)" (is "_ \<Longrightarrow> yields ?P _")
proof (induction rs arbitrary: c)
  case (Cons r rs)
  show ?case
  proof (cases r)
    case (Some ready)
    obtain from_stdin from_server where ready: "ready = (from_stdin, from_server)" by (metis surj_pair)
    define c1 where "c1 = (if from_stdin then read_line c else c)"
    have c1: "stays {DUEL_MENU} a c1" using Cons.prems stays_read_line by (simp add: c1_def)
    obtain k c2 where c2: "cl_read 999 c1 = (k, c2)" by (metis surj_pair)
    have c2': "stays {DUEL_MENU} a c2" using stays_cl_read [OF c1, of 999] c2 by simp
    have "yields (\<lambda>x. yields ?P
        (if json_get_int x ''status'' = GO_TO_DUEL_MENU then do {
            c3 \<leftarrow> send_request (op_request DUEL_ACCEPTED)
              (say [''Duel request accepted! Starting duel...\<newline>''] (c2\<lparr>cl_menu := DUEL_MENU\<rparr>));
            Some (Next, c3\<lparr>cl_ready := rs\<rparr>)
          } else wait_loop rs c2)) (parse_reply c2)"
      using c2' Cons.IH [OF c2'] by (auto intro!: wp [of _ a] wp_pure stays_menu)
    moreover have "yields (\<lambda>c2. ?P (Next, say [''Duel request withdrawn. Returning to user menu.\<newline>''] (c2\<lparr>cl_ready := rs\<rparr>)))
        (send_request (op_request WITHDRAW_CHALLENGE) c1)"
      using c1 by (auto intro!: wp [of _ a])
    ultimately show ?thesis using Cons.IH [OF c1] unfolding Some ready
      by (simp add: c1_def [symmetric] c2)
  qed (use Cons.prems in simp)
qed simp


lemma stays_duel_user: "yields (\<lambda>(flow, c'). flow \<noteq> Quit \<and> stays {DUEL_MENU} c c') (client_duel_user c)"
  by (auto simp: client_duel_user_def Let_def intro!: wp [of _ c] wp_pure stays_menu stays_wait_loop)

lemma stays_duel_operation: "yields (\<lambda>(leave, c'). stays {USER_MENU} c c') (duel_operation choice c)"
proof -
  have "yields (\<lambda>(leave, c'). stays {USER_MENU} c c') (duel_view c)"
    by (auto simp: duel_view_def Let_def case_prod_beta intro!: wp [of _ c] stays_menu stays_transfer)
  moreover have "yields (\<lambda>(leave, c'). stays {USER_MENU} c c') (duel_submit c)"
    by (auto simp: duel_submit_def Let_def case_prod_beta intro!: wp [of _ c] stays_menu stays_transfer)
  moreover have "yields (\<lambda>(leave, c'). stays {USER_MENU} c c') (duel_forfeit c)"
    by (auto simp: duel_forfeit_def Let_def intro!: wp [of _ c] stays_menu)
  ultimately show ?thesis by (simp add: duel_operation_def)
qed

text \<open>A choice that is read uses up input, so each round of a menu does.\<close>

lemma read_int_strict: "yields (\<lambda>(v, c'). stays M c c' \<and> length (stdin c') < length (stdin c)) (read_int c)"
  by (auto simp: yields_def read_int_def split: bind_splits dest!: scan_int_length intro!: stays_stdin)

lemma stays_duel_menu_round:
  "yields (\<lambda>(leave, c'). stays {USER_MENU} c c' \<and> length (stdin c') < length (stdin c)) (duel_menu_round c)"
proof -
  have after: "stays {USER_MENU} c c' \<and> length (stdin c') < length (stdin c)"
    if "stays {USER_MENU} c c1" "length (stdin c1) < length (stdin c)" "stays {USER_MENU} c1 c'" for c1 c'
    using that stays_trans [OF that(1,3)] by (auto simp: stays_def)
  have "yields (\<lambda>(leave, c'). stays {USER_MENU} c c' \<and> length (stdin c') < length (stdin c)) (duel_operation choice c1)"
    if "stays {USER_MENU} c c1" "length (stdin c1) < length (stdin c)" for choice c1
    by (rule yields_mono [OF stays_duel_operation]) (use after [OF that] in auto)
  then have "yields (\<lambda>(v, c1). yields (\<lambda>item. yields (\<lambda>(leave, c'). stays {USER_MENU} c c' \<and> length (stdin c') < length (stdin c))
      (duel_operation (operation item) c1)) (duel_item v)) (read_int (show_menu duelMenu c))"
    by (intro yields_mono [OF read_int_strict [of "{USER_MENU}"]]) (auto simp: show_menu_def yields_def)
  then show ?thesis by (simp add: duel_menu_round_def split_beta')
qed

section \<open>The loops\<close>

text \<open>\<open>while(*currentMenu == DUEL_MENU)\<close>.\<close>

function handleDuelMenu :: "client \<Rightarrow> client option" where
  "handleDuelMenu c =
     (if cl_menu c = DUEL_MENU then do {
        (leave, c1) \<leftarrow> duel_menu_round c;
        if leave then Some c1 else handleDuelMenu c1
      } else Some c)"
  by auto

termination
  by (relation "measure (\<lambda>c. length (stdin c))") (auto dest!: yieldsD [OF stays_duel_menu_round])

text \<open>\<open>switch (operationCode)\<close>.\<close>

definition client_operation :: "int \<Rightarrow> client \<Rightarrow> (cflow \<times> client) option" where
  "client_operation operationCode c =
     (if operationCode = LOGIN_ATTEMPT then client_login c
      else if operationCode = SIGNUP_ATTEMPT then client_signup c
      else if operationCode = LOGOUT_ATTEMPT then client_logout c
      else if operationCode = ADD_PROBLEM then client_add_problem c
      else if operationCode = UPDATE_PROBLEM then client_update_problem c
      else if operationCode = GET_PROBLEM then client_get_problem c
      else if operationCode = DELETE_PROBLEM then client_delete_problem c
      else if operationCode = VIEW_ALL_PROBLEMS then client_view_all c
      else if operationCode = VIEW_A_PROBLEM then client_view_problem c
      else if operationCode = SUBMIT_SOLUTION then client_submit c
      else if operationCode = DUEL_USER then client_duel_user c
      else if operationCode = VIEW_FULL_LEADERBOARD then client_leaderboard c
      else if operationCode = VIEW_SPECIFIC_ELO then client_specific_elo c
      else if operationCode = GO_TO_MODIFY_PROBLEMS_MENU then Some (Next, c\<lparr>cl_menu := MODIFY_PROBLEMS_MENU\<rparr>)
      else if operationCode = GO_TO_LOGIN_MENU then Some (Next, c\<lparr>cl_menu := LOGIN_MENU\<rparr>)
      else if operationCode = GO_TO_ADMIN_MENU then Some (Next, c\<lparr>cl_menu := ADMIN_MENU\<rparr>)
      else if operationCode = GO_TO_USER_MENU then Some (Next, c\<lparr>cl_menu := USER_MENU\<rparr>)
      else Some (Next, c))"

definition currentItems :: "int \<Rightarrow> MenuItem list option" where
  "currentItems currentMenu =
     (if currentMenu = LOGIN_MENU then Some loginMenu
      else if currentMenu = ADMIN_MENU then Some adminMenu
      else if currentMenu = USER_MENU then Some userMenu
      else if currentMenu = MODIFY_PROBLEMS_MENU then Some modifyProblemsMenu
      else if currentMenu = DUEL_MENU then Some duelMenu
      else None)"

text \<open>The choice from a menu that \<open>main\<close> serves itself; the buffer is cleared behind the \<open>switch\<close>, not by the
  \<open>continue\<close> of an invalid choice.\<close>

definition menu_round :: "MenuItem list \<Rightarrow> client \<Rightarrow> (cflow \<times> client) option" where
  "menu_round items c = do {
     (userChoice, c1) \<leftarrow> read_int (show_menu items c);
     if userChoice < 1 \<or> int (length (shown_items items)) < userChoice
     then Some (Next, say [''Invalid choice, please try again.\<newline>''] c1)
     else do {
       (flow, c2) \<leftarrow> client_operation (operation (items ! nat (userChoice - 1))) c1;
       Some (flow, if flow = Next then clear_buffer c2 else c2)
     }
   }"

definition client_round :: "client \<Rightarrow> (cflow \<times> client) option" where
  "client_round c = (case currentItems (cl_menu c) of
     None \<Rightarrow> Some (Quit, say [''Invalid menu state\<newline>''] c)
   | Some items \<Rightarrow>
       if cl_menu c = DUEL_MENU then do { c1 \<leftarrow> handleDuelMenu c; Some (Next, clear_buffer c1) }
       else menu_round items c)"

lemma steadyD: "steady f \<Longrightarrow> yields (\<lambda>(flow, c'). flow = Next \<and> stays M c c') (f c)"
  by (simp add: steady_def)

lemma stays_clear: "stays M a c \<Longrightarrow> stays M a (clear_buffer c)"
  by (simp add: stays_def clear_buffer_def)

text \<open>A choice from a menu has the effects that all of its operations have.\<close>

lemma stays_menu_round:
  assumes "\<And>k c1. k \<in> set (map operation (shown_items items)) \<Longrightarrow> yields (\<lambda>(flow, c'). flow \<in> F \<and> stays M c1 c') (client_operation k c1)"
    and "Next \<in> F"
  shows "yields (\<lambda>(flow, c'). flow \<in> F \<and> stays M c c' \<and> length (stdin c') < length (stdin c)) (menu_round items c)"
proof -
  let ?Q = "\<lambda>(flow, c'). flow \<in> F \<and> stays M c c' \<and> length (stdin c') < length (stdin c)"
  have after: "stays M c c' \<and> length (stdin c') < length (stdin c)"
    if "stays M c c1 \<and> length (stdin c1) < length (stdin c)" "stays M c1 c'" for c1 c'
    using that stays_trans [of M c c1 c'] by (auto simp: stays_def)
  have item: "operation (items ! nat (v - 1)) \<in> set (map operation (shown_items items))"
    if "\<not> (v < 1 \<or> int (length (shown_items items)) < v)" for v
  proof -
    have "nat (v - 1) < length (shown_items items)" using that by linarith
    then have "items ! nat (v - 1) \<in> set (shown_items items)"
      by (metis nth_mem shown_items_def takeWhile_nth)
    then show ?thesis by simp
  qed
  have clear: "stays M c (if b then clear_buffer c2 else c2) \<and> length (stdin (if b then clear_buffer c2 else c2)) < length (stdin c)"
    if "stays M c c2 \<and> length (stdin c2) < length (stdin c)" for b c2
    using that stays_clear by (auto simp: clear_buffer_def)
  have run: "yields ?Q (client_operation k c1 \<bind> (\<lambda>(flow, c2). Some (flow, if flow = Next then clear_buffer c2 else c2)))"
    if "stays M c c1 \<and> length (stdin c1) < length (stdin c)" "k \<in> set (map operation (shown_items items))" for k c1
    unfolding yields_simps
    by (rule yields_mono [OF assms(1) [OF that(2)]]) (use after [OF that(1)] clear in auto)
  have "yields (\<lambda>(v, c1). yields ?Q (if v < 1 \<or> int (length (shown_items items)) < v
      then Some (Next, say [''Invalid choice, please try again.\<newline>''] c1)
      else client_operation (operation (items ! nat (v - 1))) c1 \<bind> (\<lambda>(flow, c2). Some (flow, if flow = Next then clear_buffer c2 else c2))))
      (read_int (show_menu items c))"
    by (rule yields_mono [OF read_int_strict [of M]]) (use run item assms(2) in \<open>auto simp: show_menu_def\<close>)
  then show ?thesis unfolding menu_round_def yields_simps by (simp only: split_beta')
qed

lemmas menu_defs = loginMenu_def adminMenu_def userMenu_def modifyProblemsMenu_def shown_items_def

lemma stays_weaken:
  assumes "yields (\<lambda>(flow, c'). flow \<in> G \<and> stays N c c') m" "N \<subseteq> M" "G \<subseteq> F"
  shows "yields (\<lambda>(flow, c'). flow \<in> F \<and> stays M c c') m"
  by (rule yields_mono [OF assms(1)]) (use assms(2,3) in \<open>auto simp: stays_def\<close>)

lemma stays_steady: "steady f \<Longrightarrow> Next \<in> F \<Longrightarrow> yields (\<lambda>(flow, c'). flow \<in> F \<and> stays M c c') (f c)"
  by (rule yields_mono [OF steadyD [of f M c]]) auto

text \<open>The rounds of the four menus that \<open>main\<close> serves itself.\<close>

lemma login_round:
  "yields (\<lambda>(flow, c'). flow \<in> {Next, Quit} \<and> stays {ADMIN_MENU, USER_MENU} c c' \<and> length (stdin c') < length (stdin c)) (menu_round loginMenu c)"
proof (rule stays_menu_round)
  let ?P = "\<lambda>c (flow, c'). flow \<in> {Next, Quit} \<and> stays {ADMIN_MENU, USER_MENU} c c'"
  have "yields (?P c) (client_login c)" for c by (rule yields_mono [OF stays_login]) auto
  moreover have "yields (?P c) (client_signup c)" for c by (rule stays_steady [OF steady_signup]) simp
  moreover have "yields (?P c) (client_logout c)" for c by (rule stays_weaken [OF stays_logout]) auto
  ultimately show "yields (?P c1) (client_operation k c1)" if "k \<in> set (map operation (shown_items loginMenu))" for k c1
    using that by (auto simp: menu_defs client_operation_def)
qed simp

lemma admin_round:
  "yields (\<lambda>(flow, c'). flow \<in> {Next} \<and> stays {LOGIN_MENU, MODIFY_PROBLEMS_MENU} c c' \<and> length (stdin c') < length (stdin c)) (menu_round adminMenu c)"
  by (rule stays_menu_round) (auto simp: menu_defs client_operation_def stays_def)

lemma user_round:
  "yields (\<lambda>(flow, c'). flow \<in> {Next, Waiting} \<and> stays {LOGIN_MENU, DUEL_MENU} c c' \<and> length (stdin c') < length (stdin c)) (menu_round userMenu c)"
proof (rule stays_menu_round)
  let ?P = "\<lambda>c (flow, c'). flow \<in> {Next, Waiting} \<and> stays {LOGIN_MENU, DUEL_MENU} c c'"
  have duel: "yields (?P c) (client_duel_user c)" for c
    by (rule yields_mono [OF stays_duel_user]) (auto simp: stays_def intro: cflow.exhaust)
  have st: "yields (?P c) (f c)" if "steady f" for f c by (rule stays_steady [OF that]) simp
  note kinds = st [OF steady_view_all] st [OF steady_view_problem] st [OF steady_submit]
    st [OF steady_leaderboard] st [OF steady_specific_elo]
  show "yields (?P c1) (client_operation k c1)" if "k \<in> set (map operation (shown_items userMenu))" for k c1
  proof -
    have leave: "?P c1 (Next, c1\<lparr>cl_menu := LOGIN_MENU\<rparr>)" by (simp add: stays_def)
    show ?thesis using that duel [of c1] kinds [of c1] leave by (auto simp: menu_defs client_operation_def)
  qed
qed simp

lemma modify_round:
  "yields (\<lambda>(flow, c'). flow \<in> {Next} \<and> stays {ADMIN_MENU} c c' \<and> length (stdin c') < length (stdin c)) (menu_round modifyProblemsMenu c)"
proof (rule stays_menu_round)
  let ?P = "\<lambda>c (flow, c'). flow \<in> {Next} \<and> stays {ADMIN_MENU} c c'"
  have st: "yields (?P c) (f c)" if "steady f" for f c by (rule stays_steady [OF that]) simp
  note kinds = st [OF steady_add_problem] st [OF steady_update_problem] st [OF steady_get_problem] st [OF steady_delete_problem]
  show "yields (?P c1) (client_operation k c1)" if "k \<in> set (map operation (shown_items modifyProblemsMenu))" for k c1
  proof -
    have leave: "?P c1 (Next, c1\<lparr>cl_menu := ADMIN_MENU\<rparr>)" by (simp add: stays_def)
    show ?thesis using that kinds [of c1] leave by (auto simp: menu_defs client_operation_def)
  qed
qed simp

lemma stays_handleDuelMenu:
  "cl_menu c = DUEL_MENU \<Longrightarrow> yields (\<lambda>c'. stays {USER_MENU} c c' \<and> length (stdin c') < length (stdin c)) (handleDuelMenu c)"
proof (induction c rule: handleDuelMenu.induct)
  case (1 c)
  let ?P = "\<lambda>a c'. stays {USER_MENU} a c' \<and> length (stdin c') < length (stdin a)"
  have rest: "yields (?P c) (if leave then Some c1 else handleDuelMenu c1)"
    if r: "duel_menu_round c = Some (leave, c1)" for leave c1
  proof -
    have c1: "?P c c1" using yieldsD [OF stays_duel_menu_round r] by simp
    show ?thesis
    proof (cases "leave \<or> cl_menu c1 \<noteq> DUEL_MENU")
      case True
      then show ?thesis using c1 by (cases leave) (simp_all add: handleDuelMenu.simps [of c1])
    next
      case False
      then have "yields (?P c1) (handleDuelMenu c1)" using "1.IH" [OF "1.prems" r refl] by blast
      then show ?thesis using False c1 stays_trans [of "{USER_MENU}" c c1] by (auto simp: yields_def intro: less_trans)
    qed
  qed
  have "yields (\<lambda>(leave, c1). yields (?P c) (if leave then Some c1 else handleDuelMenu c1)) (duel_menu_round c)"
    using rest by (auto simp: yields_def)
  then show ?case using "1.prems" unfolding handleDuelMenu.simps [of c] by (simp add: split_beta')
qed

text \<open>The menus as a state machine: where a round can lead from each, besides staying.\<close>

definition menu_edges :: "int \<Rightarrow> int set" where
  "menu_edges menu =
     (if menu = LOGIN_MENU then {ADMIN_MENU, USER_MENU}
      else if menu = ADMIN_MENU then {LOGIN_MENU, MODIFY_PROBLEMS_MENU}
      else if menu = USER_MENU then {LOGIN_MENU, DUEL_MENU}
      else if menu = MODIFY_PROBLEMS_MENU then {ADMIN_MENU}
      else if menu = DUEL_MENU then {USER_MENU}
      else {})"

definition menus :: "int set" where
  "menus = {LOGIN_MENU, ADMIN_MENU, USER_MENU, MODIFY_PROBLEMS_MENU, DUEL_MENU}"

lemma client_round_fact:
  "yields (\<lambda>(flow, c'). stays (menu_edges (cl_menu c)) c c' \<and> (flow = Next \<longrightarrow> length (stdin c') < length (stdin c))
    \<and> (flow = Quit \<longrightarrow> cl_menu c \<in> insert LOGIN_MENU (- menus)) \<and> (flow = Waiting \<longrightarrow> cl_menu c = USER_MENU)) (client_round c)"
    (is "yields ?P _")
proof -
  consider "cl_menu c = LOGIN_MENU" | "cl_menu c = ADMIN_MENU" | "cl_menu c = USER_MENU" | "cl_menu c = MODIFY_PROBLEMS_MENU"
    | "cl_menu c = DUEL_MENU" | "cl_menu c \<notin> menus"
    by (auto simp: menus_def)
  then show ?thesis
  proof cases
    case 1
    have "yields ?P (menu_round loginMenu c)"
      by (rule yields_mono [OF login_round]) (use 1 in \<open>auto simp: menu_edges_def\<close>)
    then show ?thesis using 1 by (simp add: client_round_def currentItems_def)
  next
    case 2
    have "yields ?P (menu_round adminMenu c)"
      by (rule yields_mono [OF admin_round]) (use 2 in \<open>auto simp: menu_edges_def\<close>)
    then show ?thesis using 2 by (simp add: client_round_def currentItems_def)
  next
    case 3
    have "yields ?P (menu_round userMenu c)"
      by (rule yields_mono [OF user_round]) (use 3 in \<open>auto simp: menu_edges_def\<close>)
    then show ?thesis using 3 by (simp add: client_round_def currentItems_def)
  next
    case 4
    have "yields ?P (menu_round modifyProblemsMenu c)"
      by (rule yields_mono [OF modify_round]) (use 4 in \<open>auto simp: menu_edges_def\<close>)
    then show ?thesis using 4 by (simp add: client_round_def currentItems_def)
  next
    case 5
    have "yields (\<lambda>c1. ?P (Next, clear_buffer c1)) (handleDuelMenu c)"
      by (rule yields_mono [OF stays_handleDuelMenu [OF 5]])
        (use 5 stays_clear in \<open>auto simp: menu_edges_def clear_buffer_def stays_def\<close>)
    then show ?thesis using 5 by (simp add: client_round_def currentItems_def)
  next
    case 6
    then show ?thesis by (auto simp: client_round_def currentItems_def menus_def stays_def)
  qed
qed

text \<open>\<open>while(1)\<close> of \<open>main\<close>: every round reads a number, so the input bounds the loop.\<close>

function client_main :: "client \<Rightarrow> (cflow \<times> client) option" where
  "client_main c = do {
     (flow, c1) \<leftarrow> client_round c;
     if flow = Next then client_main c1 else Some (flow, c1)
   }"
  by auto

termination
  by (relation "measure (\<lambda>c. length (stdin c))") (auto dest!: yieldsD [OF client_round_fact])

declare handleDuelMenu.simps [simp del] client_main.simps [simp del]

text \<open>The whole program: \<open>socket\<close> and \<open>connect\<close>, then the loop from the login menu, with the value that
  \<open>main\<close> returns, if it does.\<close>

definition client_program :: "bool \<Rightarrow> bool \<Rightarrow> client \<Rightarrow> (int option \<times> client) option" where
  "client_program socket_ok connect_ok c =
     (if \<not> socket_ok then Some (Some (-1), say [''Socket creation error\<newline>''] c)
      else if \<not> connect_ok then Some (Some (-1), say [''Connection Failed\<newline>''] c)
      else do {
        (flow, c1) \<leftarrow> client_main (say [''Successfully connected to the server!\<newline>''] (c\<lparr>cl_menu := LOGIN_MENU\<rparr>));
        Some (if flow = Waiting then None else Some 0, c1)
      })"

end
