(* ===== verification/ClientSafety.thy ===== *)
theory ClientSafety
  imports ClientLoop
begin

text \<open>
  What the client's state machine guarantees, whatever the server answers: the menus follow each other
  as they should, the administrator's menus need an administrator's login, and what the duel menu does
  with a choice it does not offer.
\<close>

section \<open>The menus\<close>

text \<open>the menus are a state machine. In one of the five menus a round with defined behaviour stays or follows
  an edge of \<open>menu_edges\<close> and so ends in one of the five menus again: the branch for an invalid menu is
  never taken. The program ends in the login menu only, it waits for an opponent in the user
  menu only, and every other round uses up input, so no run of \<open>main\<close> is endless.\<close>

theorem client_menu_machine:
  assumes "client_round c = Some (flow, c')" "cl_menu c \<in> menus"
  shows "cl_menu c' \<in> insert (cl_menu c) (menu_edges (cl_menu c)) \<and> cl_menu c' \<in> menus
    \<and> (flow = Quit \<longrightarrow> cl_menu c = LOGIN_MENU) \<and> (flow = Waiting \<longrightarrow> cl_menu c = USER_MENU)
    \<and> (flow = Next \<longrightarrow> length (stdin c') < length (stdin c))"
proof -
  note f = yieldsD [OF client_round_fact assms(1)]
  have edge: "cl_menu c' \<in> insert (cl_menu c) (menu_edges (cl_menu c))" using f by (simp add: stays_def)
  moreover have "cl_menu c' \<in> menus" using edge assms(2) by (auto simp: menu_edges_def menus_def split: if_splits)
  ultimately show ?thesis using f assms(2) by auto
qed

section \<open>The administrator's menus\<close>

text \<open>The answer a round of the login menu reads, and the level a successful one grants.\<close>

definition login_answer :: "client \<Rightarrow> cJSON option" where
  "login_answer c = cJSON_Parse (c_str (overwrite 0 (fst (snd (sock_read 1000 (cl_in c)))) (cl_buffer c)))"

definition grants :: "int \<Rightarrow> client \<Rightarrow> bool" where
  "grants level c \<longleftrightarrow> 0 < fst (sock_read 1000 (cl_in c)) \<and> json_get_int (login_answer c) ''status'' = SUCCESS
     \<and> json_get_int (login_answer c) ''userLevel'' = level"

definition menu_level :: "int \<Rightarrow> int" where
  "menu_level menu = (if menu \<in> {ADMIN_MENU, MODIFY_PROBLEMS_MENU} then ADMIN_USER else REGULAR_USER)"

definition same_socket :: "client \<Rightarrow> client \<Rightarrow> bool" where
  "same_socket a c \<longleftrightarrow> cl_in c = cl_in a \<and> cl_buffer c = cl_buffer a \<and> cl_menu c = cl_menu a"

lemma same_socket_simps [simp]:
  "same_socket a a" "same_socket a (say ps c) = same_socket a c" "same_socket a (c\<lparr>stdin := t\<rparr>) = same_socket a c"
  "same_socket a (c\<lparr>cl_out := w\<rparr>) = same_socket a c"
  by (simp_all add: same_socket_def say_def)

lemma read_word_socket: "same_socket a c \<Longrightarrow> yields (\<lambda>(w, c1). same_socket a c1) (read_word n c)"
  by (auto simp: yields_def read_word_def split: bind_splits)

lemma read_int_socket: "same_socket a c \<Longrightarrow> yields (\<lambda>(w, c1). same_socket a c1) (read_int c)"
  by (auto simp: yields_def read_int_def split: bind_splits)

lemma ask_socket:
  assumes "same_socket a c"
  shows "yields (\<lambda>(k, c1). k = fst (sock_read 1000 (cl_in a)) \<and> cl_menu c1 = cl_menu a
    \<and> cl_buffer c1 = overwrite 0 (fst (snd (sock_read 1000 (cl_in a)))) (cl_buffer a)) (ask request c)"
  using assms by (auto simp: yields_def ask_def send_request_def cl_read_def same_socket_def case_prod_beta Let_def split: bind_splits)

lemma login_grants:
  assumes "same_socket a c"
  shows "yields (\<lambda>(flow, c'). cl_menu c' = cl_menu a \<or> (\<exists>level \<in> {ADMIN_USER, REGULAR_USER}. grants level a
      \<and> cl_menu c' = (if level = ADMIN_USER then ADMIN_MENU else USER_MENU))) (client_login c)"
    (is "yields ?P _")
proof -
  have "?P r" if r: "client_login c = Some r" for r
  proof -
    obtain un c1 where 1: "read_word 100 (say [''Enter username: ''] c) = Some (un, c1)"
      using r by (auto simp: client_login_def split: bind_splits)
    obtain pw c2 where 2: "read_word 100 (say [''Enter password: ''] c1) = Some (pw, c2)"
      using r 1 by (auto simp: client_login_def split: bind_splits)
    obtain k c3 where 3: "ask (credentials_request LOGIN_ATTEMPT un pw) c2 = Some (k, c3)"
      using r 1 2 by (auto simp: client_login_def split: bind_splits)
    have s1: "same_socket a c1" using yieldsD [OF read_word_socket 1, of a] assms by simp
    have s2: "same_socket a c2" using yieldsD [OF read_word_socket 2, of a] s1 by simp
    have s3: "k = fst (sock_read 1000 (cl_in a))" "cl_menu c3 = cl_menu a"
      "cl_buffer c3 = overwrite 0 (fst (snd (sock_read 1000 (cl_in a)))) (cl_buffer a)"
      using yieldsD [OF ask_socket [OF s2] 3] by simp_all
    have answer: "parse_reply c3 = Some json \<Longrightarrow> json = login_answer a" for json
      by (auto simp: parse_reply_def s3 str_at_def login_answer_def split: bind_splits if_splits)
    show ?thesis
      using r 1 2 3 s3(1,2) answer
      by (auto simp: client_login_def Let_def no_response_def grants_def split: bind_splits if_splits)
  qed
  then show ?thesis by (simp add: yields_def)
qed

lemma login_menu_left:
  assumes r: "client_round c = Some (flow, c')" and menu: "cl_menu c = LOGIN_MENU" "cl_menu c' \<noteq> LOGIN_MENU"
  shows "\<exists>level \<in> {ADMIN_USER, REGULAR_USER}. grants level c \<and> cl_menu c' = (if level = ADMIN_USER then ADMIN_MENU else USER_MENU)"
proof -
  have r': "menu_round loginMenu c = Some (flow, c')"
    using r menu(1) by (simp add: client_round_def currentItems_def)
  obtain v c1 where v: "read_int (show_menu loginMenu c) = Some (v, c1)"
    using r' by (auto simp: menu_round_def split: bind_splits)
  have s1: "same_socket c c1"
    using yieldsD [OF read_int_socket [of c] v] by (simp add: show_menu_def)
  then have "cl_menu c1 = LOGIN_MENU" using menu(1) by (simp add: same_socket_def)
  then have "\<not> (v < 1 \<or> 3 < v)" using r' v menu(2) by (auto simp: menu_round_def menu_defs)
  then consider "v = 1" | "v = 2" | "v = 3" by linarith
  then show ?thesis
  proof cases
    case 1
    then have "\<exists>c2. client_login c1 = Some (flow, c2) \<and> cl_menu c' = cl_menu c2"
      using r' v by (auto simp: menu_round_def menu_defs client_operation_def clear_buffer_def split: bind_splits if_splits)
    then obtain c2 where "client_login c1 = Some (flow, c2)" "cl_menu c' = cl_menu c2" by blast
    then show ?thesis using yieldsD [OF login_grants [OF s1]] menu by fastforce
  next
    case 2
    then obtain c2 where "client_signup c1 = Some (flow, c2)" "cl_menu c' = cl_menu c2"
      using r' v by (auto simp: menu_round_def menu_defs client_operation_def clear_buffer_def split: bind_splits if_splits)
    then show ?thesis using yieldsD [OF steadyD [OF steady_signup, of "{}" c1]] menu(2) \<open>cl_menu c1 = LOGIN_MENU\<close>
      by (fastforce simp: stays_def)
  next
    case 3
    then obtain c2 where "client_logout c1 = Some (flow, c2)" "cl_menu c' = cl_menu c2"
      using r' v by (auto simp: menu_round_def menu_defs client_operation_def clear_buffer_def split: bind_splits if_splits)
    then show ?thesis using yieldsD [OF stays_logout [of c1]] menu(2) \<open>cl_menu c1 = LOGIN_MENU\<close>
      by (fastforce simp: stays_def)
  qed
qed

text \<open>The states of a run of \<open>main\<close>'s loop, in order.\<close>

definition client_trace :: "client list \<Rightarrow> bool" where
  "client_trace ts \<longleftrightarrow> (\<forall>i. Suc i < length ts \<longrightarrow> client_round (ts ! i) = Some (Next, ts ! Suc i))"

text \<open>C15: nobody reaches a menu that his login did not grant. In every run of the client from the login
  menu, a state in the administrator's menus (or in the user's, the duel menu included) was entered
  from a visit to the login menu in which the server answered \<open>SUCCESS\<close> and the level of an
  administrator (or of a regular user), with no other visit to the login menu in between.\<close>

theorem menus_need_grant:
  assumes "client_trace ts" "cl_menu (ts ! 0) = LOGIN_MENU" "i < length ts" "cl_menu (ts ! i) \<noteq> LOGIN_MENU"
  shows "\<exists>j < i. cl_menu (ts ! j) = LOGIN_MENU \<and> grants (menu_level (cl_menu (ts ! i))) (ts ! j)
    \<and> (\<forall>k. j < k \<and> k \<le> i \<longrightarrow> cl_menu (ts ! k) \<noteq> LOGIN_MENU)"
  using assms(3,4)
proof (induction i)
  case (Suc i)
  have r: "client_round (ts ! i) = Some (Next, ts ! Suc i)" using assms(1) Suc.prems(1) by (simp add: client_trace_def)
  show ?case
  proof (cases "cl_menu (ts ! i) = LOGIN_MENU")
    case True
    then have "grants (menu_level (cl_menu (ts ! Suc i))) (ts ! i)"
      using login_menu_left [OF r True Suc.prems(2)] by (auto simp: menu_level_def)
    then show ?thesis using True Suc.prems(2) by (intro exI [of _ i]) (auto simp: le_Suc_eq)
  next
    case False
    obtain j where j: "j < i" "cl_menu (ts ! j) = LOGIN_MENU" "grants (menu_level (cl_menu (ts ! i))) (ts ! j)"
      "\<forall>k. j < k \<and> k \<le> i \<longrightarrow> cl_menu (ts ! k) \<noteq> LOGIN_MENU"
      using Suc.IH False Suc.prems(1) by auto
    have "cl_menu (ts ! Suc i) \<in> insert (cl_menu (ts ! i)) (menu_edges (cl_menu (ts ! i)))"
      using yieldsD [OF client_round_fact r] by (simp add: stays_def)
    then have "menu_level (cl_menu (ts ! Suc i)) = menu_level (cl_menu (ts ! i))"
      using False Suc.prems(2) by (auto simp: menu_edges_def menu_level_def split: if_splits)
    then show ?thesis using j Suc.prems(2) by (intro exI [of _ j]) (auto simp: le_Suc_eq)
  qed
qed (use assms(2) in simp)

section \<open>The duel menu\<close>

text \<open>the choice in the duel menu is not checked against the menu. A number outside 1 to 4 makes
  \<open>duelMenu[userChoice - 1]\<close> an access outside the array, which is undefined; 4 hits the item that ends
  the menu and is reported as invalid; 1 to 3 are the three operations.\<close>

theorem duel_choice_unchecked:
  assumes "cl_menu c = DUEL_MENU" "scan_int (stdin c) = Some (Some v, rest)"
  shows "(v < 1 \<or> 4 < v \<longrightarrow> client_round c = None)
    \<and> (v = 4 \<longrightarrow> duel_menu_round c = Some (False, say [''Invalid choice, please try again.\<newline>'']
      ((show_menu duelMenu c)\<lparr>stdin := rest\<rparr>)))
    \<and> (1 \<le> v \<and> v \<le> 3 \<longrightarrow> duel_menu_round c = ([duel_view, duel_submit, duel_forfeit] ! nat (v - 1)) ((show_menu duelMenu c)\<lparr>stdin := rest\<rparr>))"
proof (intro conjI impI)
  let ?c1 = "(show_menu duelMenu c)\<lparr>stdin := rest\<rparr>"
  have rd: "read_int (show_menu duelMenu c) = Some (v, ?c1)"
    using assms(2) by (simp add: read_int_def show_menu_def)
  have r: "duel_menu_round c = duel_item v \<bind> (\<lambda>item. duel_operation (operation item) ?c1)"
    by (simp add: duel_menu_round_def rd)
  show "client_round c = None" if "v < 1 \<or> 4 < v"
  proof -
    have "duel_item v = None" using that by (auto simp: duel_item_def duelMenu_def)
    then have "duel_menu_round c = None" by (simp add: r)
    then have "handleDuelMenu c = None" using assms(1) by (simp add: handleDuelMenu.simps [of c])
    then show ?thesis using assms(1) by (simp add: client_round_def currentItems_def)
  qed
  show "duel_menu_round c = Some (False, say [''Invalid choice, please try again.\<newline>''] ?c1)" if "v = 4"
    using that by (simp add: r duel_item_def duelMenu_def duel_operation_def)
  show "duel_menu_round c = ([duel_view, duel_submit, duel_forfeit] ! nat (v - 1)) ?c1" if "1 \<le> v \<and> v \<le> 3"
  proof -
    have "v = 1 \<or> v = 2 \<or> v = 3" using that by linarith
    then show ?thesis by (auto simp: r duel_item_def duelMenu_def duel_operation_def)
  qed
qed

section \<open>Concrete runs\<close>

text \<open>A client whose user types \<open>input\<close> and whose server answers with the messages \<open>replies\<close>.\<close>

definition demo_client :: "int \<Rightarrow> bytes \<Rightarrow> bytes list \<Rightarrow> client" where
  "demo_client menu input replies = \<lparr>files = (\<lambda>_. None), junk = (\<lambda>_. CHR 0x00), setlkw_ok = True, setlk_ok = True,
     creatable = (\<lambda>_. True), stdin = input, stdout = [], cl_in = map Data replies,
     cl_out = \<lparr>odata = [], ocaps = []\<rparr>, cl_ready = [], cl_menu = menu,
     cl_buffer = replicate 1000 (CHR 0x00), cl_name = replicate 100 (CHR 0x00)\<rparr>"

lemma demo_client_simps [simp]:
  "cl_menu (demo_client m i rs) = m" "stdin (demo_client m i rs) = i" "cl_in (demo_client m i rs) = map Data rs"
  "cl_buffer (demo_client m i rs) = replicate 1000 (CHR 0x00)"
  by (simp_all add: demo_client_def)

end
