(* ===== verification/EndToEnd.thy ===== *)
theory EndToEnd
  imports ClientSafety Services
begin

text \<open>
  The client and the server together: what one prints the other parses, and a login as one exchange
  between the two models.
\<close>

section \<open>Messages on the wire\<close>

text \<open>A printed tree contains no NUL, so the receiver's buffer holds it as a string, and what was in the
  buffer before does not matter.\<close>

lemma length_if: "length x \<le> n \<Longrightarrow> length y \<le> n \<Longrightarrow> length (if b then x else y) \<le> n"
  by simp

lemma length_escape_char: "length (escape_char ch) \<le> 6"
proof -
  have le: "length xs \<le> 5 \<Longrightarrow> length (x # xs) \<le> 6" for x :: char and xs by simp
  show ?thesis unfolding escape_char_def by (intro length_if le; simp only: list.size append.simps; simp)
qed

lemma length_print_string: "length (print_string_ptr s) \<le> 2 + 6 * length s"
proof -
  have "length (concat (map escape_char s)) \<le> 6 * length s"
  proof (induction s)
    case (Cons ch s)
    have "length (escape_char ch) \<le> 6" by (rule length_escape_char)
    then show ?case using Cons by simp
  qed simp
  then show ?thesis by (simp add: print_string_ptr_def)
qed

lemma received:
  assumes "no_nul p" "length p \<le> length buffer"
  shows "c_str (overwrite 0 p buffer) = p @ c_str (drop (length p) buffer)"
    "str_at (overwrite 0 p buffer) = (if CHR 0x00 \<in> set (drop (length p) buffer) then Some (p @ c_str (drop (length p) buffer)) else None)"
proof -
  have ow: "overwrite 0 p buffer = p @ drop (length p) buffer" by (rule overwrite_in_front [OF assms(2)])
  show c: "c_str (overwrite 0 p buffer) = p @ c_str (drop (length p) buffer)"
    unfolding ow c_str_def by (rule takeWhile_append2) (use assms(1) in \<open>auto simp: no_nul_def\<close>)
  show "str_at (overwrite 0 p buffer) = (if CHR 0x00 \<in> set (drop (length p) buffer) then Some (p @ c_str (drop (length p) buffer)) else None)"
    using assms(1) c ow by (auto simp: str_at_def no_nul_def)
qed

section \<open>A login from the keyboard to the session\<close>

lemma scan_word_ok: "scan_word n inp = Some (w, rest) \<Longrightarrow> no_nul w \<and> length w < n"
proof -
  assume scan: "scan_word n inp = Some (w, rest)"
  define u where "u = takeWhile (\<lambda>ch. \<not> isspace ch) (dropWhile isspace inp)"
  have "w = c_str u" "length u < n" using scan by (auto simp: scan_word_def Let_def u_def split: if_splits)
  then show ?thesis using le_less_trans [OF length_c_str_le [of u]] by simp
qed

lemmas object_defs = cJSON_CreateObject_def cJSON_AddNumberToObject_def cJSON_AddStringToObject_def
  cJSON_AddItemToObject_def cJSON_CreateNumber_def

lemma credentials_object:
  "credentials_request k name pass = cJSON_Object [(''op'', cJSON_Number (of_int k)), (''username'', cJSON_String name), (''password'', cJSON_String pass)]"
  by (simp add: credentials_request_def op_request_def object_defs)

lemma login_object:
  "login_json st lvl msg = cJSON_Object [(''status'', cJSON_Number (of_int st)), (''userLevel'', cJSON_Number (of_int lvl)), (''message'', cJSON_String msg)]"
  by (simp add: login_json_def status_json_def object_defs)

lemma case_names:
  "case_insensitive_eq ''op'' ''op''" "case_insensitive_eq ''username'' ''username''" "case_insensitive_eq ''password'' ''password''"
  "\<not> case_insensitive_eq ''username'' ''op''" "\<not> case_insensitive_eq ''password'' ''op''" "\<not> case_insensitive_eq ''password'' ''username''"
  "case_insensitive_eq ''status'' ''status''" "case_insensitive_eq ''userLevel'' ''userLevel''" "case_insensitive_eq ''message'' ''message''"
  "\<not> case_insensitive_eq ''userLevel'' ''status''" "\<not> case_insensitive_eq ''message'' ''status''" "\<not> case_insensitive_eq ''message'' ''userLevel''"
  by code_simp+

lemma credentials_fields:
  assumes "int_range k"
  shows "json_get_int (Some (credentials_request k name pass)) ''op'' = k"
    "json_get_string (Some (credentials_request k name pass)) ''username'' = name"
    "json_get_string (Some (credentials_request k name pass)) ''password'' = pass"
  using assms by (simp_all add: credentials_object json_get_int_def json_get_string_def cJSON_GetObjectItem_def case_names valueint_of_int)

lemma login_fields:
  assumes "int_range st" "int_range lvl"
  shows "json_get_int (Some (login_json st lvl msg)) ''status'' = st"
    "json_get_int (Some (login_json st lvl msg)) ''userLevel'' = lvl"
    "json_get_string (Some (login_json st lvl msg)) ''message'' = msg"
  using assms by (simp_all add: login_object json_get_int_def json_get_string_def cJSON_GetObjectItem_def case_names valueint_of_int)

text \<open>The answer is short enough for the client's buffer.\<close>

lemma login_reply_text:
  assumes "int_range st" "int_range lvl" "no_nul msg" "length msg < 50"
  shows "\<exists>p. cJSON_PrintUnformatted (login_json st lvl msg) = Some p \<and> no_nul p \<and> p \<noteq> [] \<and> length p < 1000
    \<and> (\<forall>stale. cJSON_Parse (p @ stale) = Some (login_json st lvl msg))"
proof -
  have wf: "wf_json (login_json st lvl msg)" using assms by (intro wf_replies)
  have nest: "nesting (login_json st lvl msg) \<le> CJSON_NESTING_LIMIT" by (simp add: login_object CJSON_NESTING_LIMIT_def)
  obtain p where p: "cJSON_PrintUnformatted (login_json st lvl msg) = Some p"
    "\<forall>stale. cJSON_Parse (p @ stale) = Some (login_json st lvl msg)"
    using print_parse_object wf nest unfolding login_object by blast
  have "length p < 1000"
    using p(1) assms(4) show_int_length [OF assms(1)] show_int_length [OF assms(2)] length_print_string [of msg]
    by (auto simp: cJSON_PrintUnformatted_def login_object print_number_int assms(1,2) print_string_ptr_def [of "''status''"]
      print_string_ptr_def [of "''userLevel''"] print_string_ptr_def [of "''message''"] escape_char_def)
  moreover have "p \<noteq> []" using p(1) by (auto simp: cJSON_PrintUnformatted_def login_object print_number_int assms(1,2))
  ultimately show ?thesis using p print_no_nul(1) wf by (auto simp: cJSON_PrintUnformatted_def)
qed

lemma sock_write_all: "ocaps w = [] \<Longrightarrow> sock_write bs w = (int (length bs), w\<lparr>odata := odata w @ bs\<rparr>)"
  by (simp add: sock_write_def)

lemma client_login_round:
  assumes user: "cl_menu c = LOGIN_MENU" "scan_int (stdin c) = Some (Some 1, r1)" "scan_word 100 r1 = Some (name, r2)"
      "scan_word 100 r2 = Some (pass, r3)"
    and mem: "cl_buffer c = replicate 1000 (CHR 0x00)" "length (cl_name c) = 100" "ocaps (cl_out c) = []"
    and req: "cJSON_PrintUnformatted (credentials_request LOGIN_ATTEMPT name pass) = Some req" "no_nul req"
    and reply: "no_nul p" "p \<noteq> []" "length p < 1000" "cJSON_Parse p = json" "cl_in c = Data p # es"
  shows "\<exists>c'. client_round c = Some (Next, c') \<and> odata (cl_out c') = odata (cl_out c) @ req
    \<and> cl_menu c' = (if json_get_int json ''status'' = SUCCESS
        then (if json_get_int json ''userLevel'' = ADMIN_USER then ADMIN_MENU
              else if json_get_int json ''userLevel'' = REGULAR_USER then USER_MENU else LOGIN_MENU)
        else LOGIN_MENU)"
proof -
  define c1 where "c1 = (show_menu loginMenu c)\<lparr>stdin := r1\<rparr>"
  have c1: "cl_menu c1 = LOGIN_MENU" "cl_buffer c1 = replicate 1000 (CHR 0x00)" "cl_name c1 = cl_name c" "cl_out c1 = cl_out c"
    "cl_in c1 = Data p # es" "stdin c1 = r1"
    using user(1) mem reply(5) by (simp_all add: c1_def show_menu_def)
  have r0: "read_int (show_menu loginMenu c) = Some (1, c1)"
    using user(2) by (simp add: read_int_def show_menu_def c1_def)
  define c2 where "c2 = (say [''Enter username: ''] c1)\<lparr>stdin := r2\<rparr>"
  have r2: "read_word 100 (say [''Enter username: ''] c1) = Some (name, c2)" "stdin c2 = r2"
    using user(3) c1 by (simp_all add: read_word_def c2_def)
  define c3 where "c3 = (say [''Enter password: ''] c2)\<lparr>stdin := r3\<rparr>"
  have r3: "read_word 100 (say [''Enter password: ''] c2) = Some (pass, c3)"
    using user(4) r2 by (simp add: read_word_def c3_def)
  have c3: "cl_menu c3 = LOGIN_MENU" "cl_buffer c3 = replicate 1000 (CHR 0x00)" "cl_name c3 = cl_name c" "cl_out c3 = cl_out c"
    "cl_in c3 = Data p # es"
    using c1 by (simp_all add: c2_def c3_def)
  define c4 where "c4 = c3\<lparr>cl_out := (cl_out c)\<lparr>odata := odata (cl_out c) @ req\<rparr>, cl_buffer := overwrite 0 p (cl_buffer c3), cl_in := es\<rparr>"
  have r4: "ask (credentials_request LOGIN_ATTEMPT name pass) c3 = Some (int (length p), c4)"
    using req c3 reply(3) mem(3)
    by (simp add: ask_def send_request_def cl_read_def c4_def c_str_no_nul sock_write_all)
  have c4: "cl_menu c4 = LOGIN_MENU" "cl_name c4 = cl_name c" "odata (cl_out c4) = odata (cl_out c) @ req"
    using c3 by (simp_all add: c4_def)
  have tail: "CHR 0x00 \<in> set (drop (length p) (cl_buffer c3))" "c_str (drop (length p) (cl_buffer c3)) = []"
    using reply(3) by (simp_all add: c3 c_str_def)
  have r5: "parse_reply c4 = Some json"
    using received [of p "cl_buffer c3"] reply tail c3(2) by (simp add: parse_reply_def c4_def)
  obtain nm where nm: "strcpy (cl_name c) name = Some nm" using strcpy_fits [of name "cl_name c"] scan_word_ok [OF user(3)] mem(2) by auto
  have op: "client_operation (operation (loginMenu ! nat (1 - 1))) c1 = client_login c1"
    by (simp add: client_operation_def loginMenu_def)
  have len: "length (shown_items loginMenu) = 3" by (simp add: menu_defs)
  have "\<exists>c5. client_login c1 = Some (Next, c5) \<and> odata (cl_out c5) = odata (cl_out c) @ req
    \<and> cl_menu c5 = (if json_get_int json ''status'' = SUCCESS
        then (if json_get_int json ''userLevel'' = ADMIN_USER then ADMIN_MENU
              else if json_get_int json ''userLevel'' = REGULAR_USER then USER_MENU else LOGIN_MENU)
        else LOGIN_MENU)"
    by (cases "json_get_int json ''status'' = SUCCESS")
      (use r2 r3 r4 r5 nm c4 reply(2) in \<open>simp_all add: client_login_def\<close>)
  then obtain c5 where c5: "client_login c1 = Some (Next, c5)" "odata (cl_out c5) = odata (cl_out c) @ req"
    "cl_menu c5 = (if json_get_int json ''status'' = SUCCESS
        then (if json_get_int json ''userLevel'' = ADMIN_USER then ADMIN_MENU
              else if json_get_int json ''userLevel'' = REGULAR_USER then USER_MENU else LOGIN_MENU)
        else LOGIN_MENU)" by blast
  have "client_round c = Some (Next, clear_buffer c5)"
    using user(1) r0 op c5(1) len by (simp add: client_round_def currentItems_def menu_round_def)
  then show ?thesis using c5 by (simp add: clear_buffer_def)
qed

lemma serve_login:
  assumes "ready k s" "0 \<le> c_socket k" "ocaps (outs s (c_socket k)) = []" "no_nul name" "length name < 100" "no_nul pass" "length pass < 100"
    and req: "cJSON_PrintUnformatted (credentials_request LOGIN_ATTEMPT name pass) = Some req" "length req \<le> 1000"
      "ins s (c_socket k) = Data req # es" "length (c_buffer k) = 1000" "CHR 0x00 \<in> set (drop (length req) (c_buffer k))"
  shows "\<exists>k' s' lvl msg reply. serve_request env k s = Some (Again, k', s') \<and> ready k' s'
    \<and> cJSON_PrintUnformatted (login_json (if login_granted name pass (c_user k) s then SUCCESS else FAILURE) lvl msg) = Some reply
    \<and> odata (outs s' (c_socket k)) = odata (outs s (c_socket k)) @ reply
    \<and> sessions s' = (if login_granted name pass (c_user k) s then sessions s @ [(name, c_user k)] else sessions s)
    \<and> (login_granted name pass (c_user k) s \<longrightarrow> (\<exists>r. getUserRecord name s = Some r \<and> lvl = ur_privilege r))
    \<and> int_range lvl \<and> no_nul msg \<and> length msg < 50"
proof -
  define s1 where "s1 = s\<lparr>ins := (ins s)(c_socket k := es)\<rparr>"
  define k1 where "k1 = k\<lparr>c_buffer := overwrite 0 req (c_buffer k)\<rparr>"
  let ?json = "Some (credentials_request LOGIN_ATTEMPT name pass)"
  have rd: "server_read 1000 (c_socket k) (c_buffer k) s = (int (length req), overwrite 0 req (c_buffer k), s1)"
    using req(2,3) by (simp add: server_read_def s1_def)
  have k1: "ready k1 s1" "c_user k1 = c_user k" "c_socket k1 = c_socket k"
    using ready_read [OF assms(1) rd] by (simp_all add: k1_def)
  have wf: "wf_json (credentials_request LOGIN_ATTEMPT name pass)"
    using assms(4,6) by (auto simp: credentials_object no_nul_def int_range_def intro!: exI [of _ 0])
  have nest: "nesting (credentials_request LOGIN_ATTEMPT name pass) \<le> CJSON_NESTING_LIMIT"
    by (simp add: credentials_object CJSON_NESTING_LIMIT_def)
  have parse: "cJSON_Parse (req @ stale) = ?json" for stale
    using print_parse_object wf nest req(1) unfolding credentials_object by fastforce
  have nn: "no_nul req" using print_no_nul(1) req(1) wf by (simp add: cJSON_PrintUnformatted_def)
  have "req \<noteq> []" using req(1) by (auto simp: cJSON_PrintUnformatted_def credentials_object split: option.splits)
  have fields: "json_get_int ?json ''op'' = LOGIN_ATTEMPT" "name = json_get_string ?json ''username''" "pass = json_get_string ?json ''password''"
    by (simp_all add: credentials_fields int_range_def)
  have srv: "serve_request env k s = handle_login ?json k1 s1"
    using rd \<open>req \<noteq> []\<close> received(2) [OF nn, of "c_buffer k"] req(2,4,5) parse fields(1)
    by (simp add: serve_request_def k1_def [symmetric] dispatch_def)
  note si = silent_inv [OF quiet_talk(4) [OF rd]]
  have g: "login_granted name pass (c_user k) s1 = login_granted name pass (c_user k) s"
    using si quiet_lookup [OF quiet_talk(4) [OF rd]] k1(2) by (simp add: login_granted_def)
  have same: "sessions s1 = sessions s" "getUserRecord name s1 = getUserRecord name s"
    using si quiet_lookup [OF quiet_talk(4) [OF rd]] by simp_all
  obtain k' s' t lvl msg where h: "handle_login ?json k1 s1 = Some (Again, k', s')" "ready k' s'"
    "sendJson (c_socket k) (login_json (if login_granted name pass (c_user k) s then SUCCESS else FAILURE) lvl msg) t = Some s'"
    "sessions s' = (if login_granted name pass (c_user k) s then sessions s @ [(name, c_user k)] else sessions s)"
    "login_granted name pass (c_user k) s \<longrightarrow> (\<exists>r. getUserRecord name s = Some r \<and> lvl = ur_privilege r)"
    "outs t = outs s1" "no_nul msg" "length msg < 50" "int_range lvl"
    using login_reply [OF k1(1) fields(2,3) assms(4-7)] unfolding k1(2,3) g same by blast
  have st: "int_range (if login_granted name pass (c_user k) s then SUCCESS else FAILURE)" by (simp add: int_range_def)
  obtain reply where reply: "cJSON_PrintUnformatted (login_json (if login_granted name pass (c_user k) s then SUCCESS else FAILURE) lvl msg) = Some reply"
    "no_nul reply"
    using login_reply_text [OF st h(9,7,8)] by blast
  have "odata (outs s' (c_socket k)) = odata (outs s (c_socket k)) @ reply"
    using h(3,6) reply assms(2,3)
    by (auto simp: sendJson_def send_bytes_def sock_write_all c_str_no_nul s1_def)
  then show ?thesis using srv h reply
    by (intro exI [of _ k'] exI [of _ s'] exI [of _ lvl] exI [of _ msg] exI [of _ reply]) auto
qed

text \<open>C4: a login from the keyboard to the session. The user of a client in the login menu chooses 1 and types a
  name and a password; the server's thread for that connection reads what the client writes and the
  client reads what the thread answers. Then the server has the session exactly if the login is
  granted, and the client is in the menu of the user's privilege exactly then; a user with another
  privilege than those two stays in the login menu although his session is open.\<close>

theorem login_end_to_end:
  assumes "cl_menu c = LOGIN_MENU" "scan_int (stdin c) = Some (Some 1, r1)" "scan_word 100 r1 = Some (name, r2)"
      "scan_word 100 r2 = Some (pass, r3)" "cl_buffer c = replicate 1000 (CHR 0x00)" "length (cl_name c) = 100"
      "ocaps (cl_out c) = []"
    and "cJSON_PrintUnformatted (credentials_request LOGIN_ATTEMPT name pass) = Some req" "length req \<le> 1000"
    and "ready k s" "0 \<le> c_socket k" "ocaps (outs s (c_socket k)) = []" "ins s (c_socket k) = Data req # es"
      "length (c_buffer k) = 1000" "CHR 0x00 \<in> set (drop (length req) (c_buffer k))"
  shows "\<exists>k' s' reply c'. serve_request env k s = Some (Again, k', s')
    \<and> odata (outs s' (c_socket k)) = odata (outs s (c_socket k)) @ reply
    \<and> client_round (c\<lparr>cl_in := Data reply # es'\<rparr>) = Some (Next, c') \<and> odata (cl_out c') = odata (cl_out c) @ req
    \<and> sessions s' = (if login_granted name pass (c_user k) s then sessions s @ [(name, c_user k)] else sessions s)
    \<and> cl_menu c' = (case getUserRecord name s of None \<Rightarrow> LOGIN_MENU | Some r \<Rightarrow>
        if login_granted name pass (c_user k) s \<and> ur_privilege r = ADMIN_USER then ADMIN_MENU
        else if login_granted name pass (c_user k) s \<and> ur_privilege r = REGULAR_USER then USER_MENU else LOGIN_MENU)"
proof -
  let ?g = "login_granted name pass (c_user k) s"
  have words: "no_nul name" "length name < 100" "no_nul pass" "length pass < 100"
    using scan_word_ok [OF assms(3)] scan_word_ok [OF assms(4)] by simp_all
  obtain k' s' lvl msg reply where srv: "serve_request env k s = Some (Again, k', s')"
    "cJSON_PrintUnformatted (login_json (if ?g then SUCCESS else FAILURE) lvl msg) = Some reply"
    "odata (outs s' (c_socket k)) = odata (outs s (c_socket k)) @ reply"
    "sessions s' = (if ?g then sessions s @ [(name, c_user k)] else sessions s)"
    "?g \<longrightarrow> (\<exists>r. getUserRecord name s = Some r \<and> lvl = ur_privilege r)" "int_range lvl" "no_nul msg" "length msg < 50"
    using serve_login [OF assms(10-12) words assms(8,9,13-15), of env] by blast
  have st: "int_range (if ?g then SUCCESS else FAILURE)" by (simp add: int_range_def)
  note answer = login_reply_text [OF st srv(6-8)]
  let ?json = "Some (login_json (if ?g then SUCCESS else FAILURE) lvl msg)"
  have reply: "no_nul reply" "reply \<noteq> []" "length reply < 1000" "cJSON_Parse reply = ?json"
    using answer srv(2) by (auto dest: spec [of _ "[]"])
  have "wf_json (credentials_request LOGIN_ATTEMPT name pass)"
    using words by (auto simp: credentials_object no_nul_def int_range_def intro!: exI [of _ 0])
  then have nn: "no_nul req" using print_no_nul(1) assms(8) by (simp add: cJSON_PrintUnformatted_def)
  obtain c' where c': "client_round (c\<lparr>cl_in := Data reply # es'\<rparr>) = Some (Next, c')" "odata (cl_out c') = odata (cl_out c) @ req"
    "cl_menu c' = (if json_get_int ?json ''status'' = SUCCESS
        then (if json_get_int ?json ''userLevel'' = ADMIN_USER then ADMIN_MENU
              else if json_get_int ?json ''userLevel'' = REGULAR_USER then USER_MENU else LOGIN_MENU)
        else LOGIN_MENU)"
    using client_login_round [of "c\<lparr>cl_in := Data reply # es'\<rparr>" r1 name r2 pass r3 req reply ?json es'] assms(1-8) nn reply by auto
  have "cl_menu c' = (case getUserRecord name s of None \<Rightarrow> LOGIN_MENU | Some r \<Rightarrow>
        if ?g \<and> ur_privilege r = ADMIN_USER then ADMIN_MENU
        else if ?g \<and> ur_privilege r = REGULAR_USER then USER_MENU else LOGIN_MENU)"
    unfolding c'(3) login_fields [OF st srv(6)] using srv(5) by (auto split: option.split)
  then show ?thesis using srv(1,3,4) c'(1,2) by blast
qed

section \<open>Concrete runs\<close>

text \<open>Ann types her name and password into a client whose server answers with the given messages.\<close>

definition ann_types :: "int \<Rightarrow> bytes list \<Rightarrow> client" where
  "ann_types menu replies = demo_client menu ''1 ann secret '' replies"

definition ann_request :: bytes where
  "ann_request = ''{\"op\":0,\"username\":\"ann\",\"password\":\"secret\"}''"

definition admin_reply :: bytes where
  "admin_reply = ''{\"status\":0,\"userLevel\":1,\"message\":\"Login successful\"}''"

lemma ann_input:
  "scan_int ''1 ann secret '' = Some (Some 1, '' ann secret '')" "scan_word 100 '' ann secret '' = Some (''ann'', '' secret '')"
  "scan_word 100 '' secret '' = Some (''secret'', '' '')"
  by code_simp+

lemma ann_prints: "cJSON_PrintUnformatted (credentials_request LOGIN_ATTEMPT ''ann'' ''secret'') = Some ann_request"
  by code_simp

lemma admin_replies: "cJSON_Parse admin_reply = Some (login_json SUCCESS ADMIN_USER ''Login successful'')"
  by code_simp

lemma ann_types_fields:
  "cl_menu (ann_types m rs) = m" "stdin (ann_types m rs) = ''1 ann secret ''" "cl_buffer (ann_types m rs) = replicate 1000 (CHR 0x00)"
  "length (cl_name (ann_types m rs)) = 100" "ocaps (cl_out (ann_types m rs)) = []" "cl_in (ann_types m rs) = map Data rs"
  by (simp_all add: ann_types_def demo_client_def)

lemma ann_reading: "(ann_types m rs)\<lparr>cl_in := [Data p]\<rparr> = ann_types m [p]"
  by (simp add: ann_types_def demo_client_def)

theorem client_menu_machine_witness:
  "\<exists>c'. client_round (ann_types ADMIN_MENU []) = Some (Next, c') \<and> cl_menu c' = MODIFY_PROBLEMS_MENU
    \<and> MODIFY_PROBLEMS_MENU \<in> menu_edges ADMIN_MENU"
proof -
  have "read_int (show_menu adminMenu (ann_types ADMIN_MENU []))
      = Some (1, (show_menu adminMenu (ann_types ADMIN_MENU []))\<lparr>stdin := '' ann secret ''\<rparr>)"
    by (simp add: read_int_def show_menu_def ann_types_fields ann_input)
  then obtain c' where c': "client_round (ann_types ADMIN_MENU []) = Some (Next, c')" "cl_menu c' = MODIFY_PROBLEMS_MENU"
    by (simp add: client_round_def currentItems_def menu_round_def menu_defs client_operation_def clear_buffer_def ann_types_fields)
  then show ?thesis using client_menu_machine [OF c'(1)] by (auto simp: ann_types_fields menus_def)
qed

theorem menus_need_grant_witness:
  "\<exists>c'. client_trace [ann_types LOGIN_MENU [admin_reply], c'] \<and> cl_menu c' = ADMIN_MENU
    \<and> grants ADMIN_USER (ann_types LOGIN_MENU [admin_reply])"
proof -
  let ?c = "ann_types LOGIN_MENU [admin_reply]"
  have plain: "no_nul ann_request" "no_nul admin_reply" "admin_reply \<noteq> []" "length admin_reply < 1000"
    by (simp_all add: no_nul_def ann_request_def admin_reply_def)
  have ranges: "int_range SUCCESS" "int_range ADMIN_USER" by (simp_all add: int_range_def)
  obtain c' where c': "client_round ?c = Some (Next, c')" "cl_menu c' = ADMIN_MENU"
    using client_login_round [of ?c, OF _ _ ann_input(2,3) _ _ _ ann_prints plain admin_replies]
    by (auto simp: ann_types_fields ann_input(1) login_fields [OF ranges])
  then have trace: "client_trace [?c, c']" by (simp add: client_trace_def)
  have "grants ADMIN_USER ?c"
    using menus_need_grant [OF trace, of 1] c'(2) by (simp add: ann_types_fields menu_level_def)
  then show ?thesis using trace c'(2) by blast
qed

theorem duel_choice_unchecked_witness:
  "client_round (demo_client DUEL_MENU ''5'' []) = None"
proof -
  have "scan_int (stdin (demo_client DUEL_MENU ''5'' [])) = Some (Some 5, [])" unfolding demo_client_simps by code_simp
  then show ?thesis using duel_choice_unchecked [of "demo_client DUEL_MENU ''5'' []" 5 "[]"] by simp
qed

theorem login_end_to_end_witness:
  "\<exists>k' s' reply c'. serve_request echo_env (demo_conn [] 6 9) (demo_guest\<lparr>ins := \<lambda>_. [Data ann_request]\<rparr>) = Some (Again, k', s')
    \<and> sessions s' = [(''bob'', 0), (''ann'', 9)]
    \<and> client_round (ann_types LOGIN_MENU [reply]) = Some (Next, c') \<and> cl_menu c' = USER_MENU"
proof -
  let ?s = "demo_guest\<lparr>ins := \<lambda>_. [Data ann_request]\<rparr>" and ?k = "demo_conn [] 6 9" and ?c = "ann_types LOGIN_MENU []"
  have si: "silent demo_guest ?s" by (simp add: quiet_def core_def os.defs)
  have k: "c_user ?k = 9" "c_socket ?k = 6" "c_buffer ?k = replicate 1000 (CHR 0x00)" by (simp_all add: demo_conn_def)
  have ready: "ready ?k ?s" using demo_guest_facts(1) silent_inv [OF si] by (simp add: ready_def)
  have out: "ocaps (outs ?s 6) = []" by (simp add: demo_guest_def accept_user_def Let_def demo_base_def demo_server_def
      demo_tables_def put_file_def with_users_def idle_def)
  have look: "sessions ?s = [(''bob'', 0)]" "getUserRecord ''ann'' ?s = Some demo_ann" "\<exists>u. users_heap ?s 9 = Some u \<and> us_loggedIn u = 0"
    using silent_inv [OF si] quiet_lookup [OF si] demo_guest_facts(3,4,5) by simp_all
  have g: "login_granted ''ann'' ''secret'' 9 ?s"
    using look by (auto simp: login_granted_def demo_ann_def no_nul_def MAX_USERS_def)
  have len: "length ann_request \<le> 1000" by (simp add: ann_request_def)
  have nul: "CHR 0x00 \<in> set (drop (length ann_request) (c_buffer ?k))" by (simp add: k ann_request_def)
  have priv: "ur_privilege demo_ann = 0" by (simp add: demo_ann_def)
  show ?thesis
    using login_end_to_end [where env = echo_env and es = "[]" and es' = "[]", of ?c, OF _ _ ann_input(2,3) _ _ _ ann_prints len ready] g out nul look k priv
    by (auto simp: ann_types_fields ann_input(1) ann_reading)
qed

end
