(* ===== verification/Upload.thy ===== *)
theory Upload
  imports EndToEnd
begin

text \<open>
  A problem from the setter's disk to the server's: the client asks for the problem, sends the request,
  reads the answer and sends the three files; the server inserts the record, answers, receives the
  files under temporary names, renames them and makes the problem visible.
\<close>

section \<open>Files on a stream\<close>

text \<open>A file on the wire, and what is left of a stream behind a number of bytes.\<close>

definition wire :: "bytes \<Rightarrow> bytes" where
  "wire d = enc_ll (int (length d)) @ d"

fun behind :: "nat \<Rightarrow> event list \<Rightarrow> event list" where
  "behind 0 es = es"
| "behind (Suc n) [] = []"
| "behind (Suc n) (Data c # es) = (if length c \<le> Suc n then behind (Suc n - length c) es else Data (drop (Suc n) c) # es)"
| "behind (Suc n) (e # es) = behind (Suc n) es"

lemma behind_data: "c \<noteq> [] \<Longrightarrow> behind n (Data c # es) = (if length c \<le> n then behind (n - length c) es else Data (drop n c) # es)"
  by (cases n) simp_all

lemma behind_nil [simp]: "behind n [] = []"
  by (cases n) simp_all

lemma behind_add: "clean es \<Longrightarrow> behind (m + n) es = behind n (behind m es)"
proof (induction es arbitrary: m n)
  case (Cons e es)
  obtain c where e: "e = Data c" "c \<noteq> []" "clean es" using Cons.prems by (cases e) auto
  show ?case
  proof (cases "length c \<le> m")
    case True
    then have "behind (m + n - length c) es = behind n (behind (m - length c) es)"
      using Cons.IH [OF e(3), of "m - length c" n] by simp
    then show ?thesis using True e by (simp add: behind_data)
  next
    case False
    then have "drop m c \<noteq> []" "length c \<le> m + n \<longleftrightarrow> length (drop m c) \<le> n" "m + n - length c = n - length (drop m c)" by auto
    then show ?thesis using False e by (simp add: behind_data add.commute)
  qed
qed simp

lemma sock_read_behind: "clean es \<Longrightarrow> sock_read n es = (k, bs, es') \<Longrightarrow> es' = behind (length bs) es"
  by (cases "(n, es)" rule: sock_read.cases) (auto simp: behind_data)

lemma receiveLoop_behind:
  "clean es \<Longrightarrow> receiveLoop n acc es = (r, acc', es') \<Longrightarrow> length acc \<le> length acc' \<and> es' = behind (length acc' - length acc) es"
proof (induction n acc es rule: receiveLoop.induct)
  case (1 n acc es)
  define m where "m = (if n - int (length acc) < 1024 then nat (n - int (length acc)) else 1024)"
  obtain k bs es1 where rd: "sock_read m es = (k, bs, es1)" by (metis surj_pair)
  show ?case
  proof (cases "int (length acc) < n \<and> 0 < k")
    case True
    have "clean es1" using sock_read_clean [OF "1.prems"(1) rd] True by (simp add: m_def split: if_splits)
    moreover have "receiveLoop n (acc @ bs) es1 = (r, acc', es')"
      using "1.prems"(2) True receiveLoop_step [OF _ rd [unfolded m_def]] by simp
    ultimately have "length (acc @ bs) \<le> length acc' \<and> es' = behind (length acc' - length (acc @ bs)) es1"
      using "1.IH" [OF _ refl m_def refl rd [symmetric] refl] True by simp
    moreover have "es1 = behind (length bs) es" by (rule sock_read_behind [OF "1.prems"(1) rd])
    ultimately show ?thesis using behind_add [OF "1.prems"(1), of "length bs" "length acc' - length (acc @ bs)"] by auto
  next
    case False
    show ?thesis
    proof (cases "int (length acc) < n")
      case True
      then have "receiveLoop n acc es = (-1, acc, es1)" using False receiveLoop_step [OF True rd [unfolded m_def]] by simp
      moreover have "es = []"
      proof (cases es)
        case (Cons e es2)
        then obtain c where c: "e = Data c" "c \<noteq> []" using "1.prems"(1) by (cases e) auto
        have "0 < m" using True by (simp add: m_def)
        then have "0 < k" using rd c Cons by (auto split: if_splits)
        then show ?thesis using False True by simp
      qed
      ultimately show ?thesis using "1.prems"(2) rd by simp
    qed (use "1.prems"(2) in \<open>simp add: receiveLoop.simps\<close>)
  qed
qed

lemma clean_behind: "clean es \<Longrightarrow> clean (behind n es) \<and> stream (behind n es) = drop n (stream es)"
proof (induction es arbitrary: n)
  case (Cons e es)
  obtain c where e: "e = Data c" "c \<noteq> []" "clean es" using Cons.prems by (cases e) auto
  then show ?case using Cons.IH by (auto simp: behind_data)
qed simp

text \<open>The 8-byte length in front of each file arrives in one piece.\<close>

fun heads_whole :: "bytes list \<Rightarrow> event list \<Rightarrow> bool" where
  "heads_whole [] es = True"
| "heads_whole (d # ds) es = (header_whole es \<and> heads_whole ds (behind (8 + length d) es))"

lemma receiveFile_wire:
  assumes "clean es" "header_whole es" "creatable s path" "stream es = wire d @ rest" "length d \<le> 10000000"
  shows "receiveFile path s es = (0, put_file path d s, behind (8 + length d) es)"
proof -
  have fits: "- (2 ^ 63) \<le> int (length d)" "int (length d) < 2 ^ 63" using assms(5) by simp_all
  obtain k hdr es1 where rd: "sock_read 8 es = (k, hdr, es1)" by (metis surj_pair)
  have hdr8: "length hdr = 8"
    using assms(2) rd by (cases "(8 :: nat, es)" rule: sock_read.cases) (auto simp: header_whole_def)
  obtain r c es2 where loop: "receiveLoop (dec_ll (hdr @ drop (length hdr) (malloc s 8))) [] es1 = (r, c, es2)" by (metis prod_cases3)
  obtain es' where all: "receiveFile path s es = (0, put_file path d s, es')"
    using receiveFile_clean [of es s path "int (length d)" "d @ rest"] assms fits by (auto simp: wire_def)
  have "\<not> k < 0" using sock_read_clean [OF assms(1) rd] by simp
  then have res: "es' = es2" "put_file path c s = put_file path d s"
    using all rd loop assms(3) by (simp_all add: receiveFile_def)
  have "files (put_file path c s) path = files (put_file path d s) path" using res(2) by simp
  then have "c = d" by simp
  moreover have "clean es1" using sock_read_clean [OF assms(1) rd] by simp
  ultimately have "es2 = behind (length d) (behind 8 es)"
    using receiveLoop_behind [OF _ loop] sock_read_behind [OF assms(1) rd] hdr8 by simp
  then show ?thesis using all res(1) behind_add [OF assms(1), of 8 "length d"] by simp
qed

lemma receive_files_wire:
  assumes "clean (ins s k)" "heads_whole ds (ins s k)" "\<forall>p \<in> set ps. creatable s p" "stream (ins s k) = concat (map wire ds) @ rest"
    "\<forall>d \<in> set ds. length d \<le> 10000000" "length ps = length ds"
  shows "\<exists>es'. receive_files k ps s = (0, s\<lparr>files := (files s)(ps [\<mapsto>] ds), ins := (ins s)(k := es')\<rparr>) \<and> clean es' \<and> stream es' = rest"
  using assms
proof (induction ps arbitrary: ds s)
  case Nil
  then show ?case by (intro exI [of _ "ins s k"]) simp
next
  case (Cons p ps)
  then obtain d ds' where ds: "ds = d # ds'" "length ps = length ds'" by (cases ds) auto
  let ?es = "behind (8 + length d) (ins s k)"
  let ?s1 = "(put_file p d s)\<lparr>ins := (ins s)(k := ?es)\<rparr>"
  have rf: "receiveFile p s (ins s k) = (0, put_file p d s, ?es)"
    by (rule receiveFile_wire [where rest = "concat (map wire ds') @ rest"]) (use Cons.prems ds in auto)
  have "server_receiveFile k p s = (0, ?s1)" using rf by (simp add: server_receiveFile_def put_file_def)
  moreover have "clean ?es" "stream ?es = concat (map wire ds') @ rest"
    using clean_behind [OF Cons.prems(1), of "8 + length d"] Cons.prems(4) ds by (simp_all add: wire_def [of d])
  then have prem: "clean (ins ?s1 k)" "heads_whole ds' (ins ?s1 k)" "stream (ins ?s1 k) = concat (map wire ds') @ rest"
    using Cons.prems(2) ds by simp_all
  have "\<forall>x \<in> set ps. creatable ?s1 x" "\<forall>x \<in> set ds'. length x \<le> 10000000" using Cons.prems(3,5) ds by (simp_all add: put_file_def)
  from Cons.IH [OF prem(1,2) this(1) prem(3) this(2) ds(2)] obtain es' where
    "receive_files k ps ?s1 = (0, ?s1\<lparr>files := (files ?s1)(ps [\<mapsto>] ds'), ins := (ins ?s1)(k := es')\<rparr>)"
      "clean es'" "stream es' = rest" by blast
  ultimately show ?case using ds by (intro exI [of _ es']) (simp add: put_file_def del: fun_upd_apply)
qed

lemma sendAll_all: "ocaps w = [] \<Longrightarrow> sendAll c w = (0, w\<lparr>odata := odata w @ c\<rparr>)"
  by (cases "c = []") (simp_all add: sendAll.simps sock_write_all)

lemma sendChunks_all: "ocaps w = [] \<Longrightarrow> sendChunks c w = (0, w\<lparr>odata := odata w @ c\<rparr>)"
proof (induction c w rule: sendChunks.induct)
  case (1 c w)
  show ?case
  proof (cases "c = []")
    case False
    then show ?thesis
      using "1.IH" [OF False sendAll_all [OF "1.prems", symmetric] refl] "1.prems" sendAll_all [OF "1.prems"]
      by (subst sendChunks.simps) simp
  qed (simp add: sendChunks.simps)
qed

lemma sendFile_all:
  "files s p = Some d \<Longrightarrow> ocaps w = [] \<Longrightarrow> sendFile p (int (length d)) s w = (0, w\<lparr>odata := odata w @ wire d\<rparr>)"
  by (simp add: sendFile_def sock_write_all sendChunks_all wire_def)

lemma cl_sendFiles_wire:
  assumes "length ps = length ds" "\<forall>(p, d) \<in> set (zip ps ds). files c p = Some d" "ocaps (cl_out c) = []"
  shows "cl_sendFiles (zip ps (map (\<lambda>d. int (length d)) ds)) c
    = (0, c\<lparr>cl_out := (cl_out c)\<lparr>odata := odata (cl_out c) @ concat (map wire ds)\<rparr>\<rparr>)"
  using assms
proof (induction ps ds arbitrary: c rule: list_induct2)
  case (Cons p ps d ds)
  let ?c1 = "c\<lparr>cl_out := (cl_out c)\<lparr>odata := odata (cl_out c) @ wire d\<rparr>\<rparr>"
  have "cl_sendFile p (int (length d)) c = (0, ?c1)"
    using Cons.prems by (simp add: cl_sendFile_def sendFile_all)
  then show ?case using Cons.IH [of ?c1] Cons.prems by simp
qed simp

section \<open>The record and the names\<close>

lemma temp_path_inject [simp]: "temp_problem_path k f = temp_problem_path k g \<longleftrightarrow> f = g"
  "problem_path k f = problem_path k g \<longleftrightarrow> f = g" "temp_problem_path k f \<noteq> problem_path k' g" "problem_path k' g \<noteq> temp_problem_path k f"
  by (simp_all add: temp_problem_path_def problem_path_def)

lemma files_rename:
  "files (rename_file old new s) = (if files s old = None \<or> old = new then files s else (files s)(new := files s old, old := None))"
  by (auto simp: rename_file_def split: option.split)

lemma three_renames:
  assumes "distinct [f1, f2, f3]" "\<forall>f \<in> {f1, f2, f3}. files s (temp_problem_path k f) \<noteq> None" "f \<in> {f1, f2, f3}"
  shows "files (fold (\<lambda>f. rename_file (temp_problem_path k f) (problem_path k f)) [f1, f2, f3] s) (problem_path k f) = files s (temp_problem_path k f)
    \<and> files (fold (\<lambda>f. rename_file (temp_problem_path k f) (problem_path k f)) [f1, f2, f3] s) (temp_problem_path k f) = None"
  using assms by (auto simp: files_rename)

lemma install_files:
  assumes "\<forall>f \<in> set problem_files. files s (temp_problem_path k f) \<noteq> None" "f \<in> set problem_files"
  shows "files (install_problem k s) (problem_path k f) = files s (temp_problem_path k f)
    \<and> files (install_problem k s) (temp_problem_path k f) = None"
  unfolding install_problem_def problem_files_def
  by (rule three_renames) (use assms in \<open>simp_all add: problem_files_def\<close>)

lemma more_fields: "os.more s' = os.more s \<Longrightarrow> outs s' = outs s \<and> ins s' = ins s" for s s' :: server
  by (cases s, cases s') (simp add: os.defs)

lemma install_more: "outs (install_problem k s) = outs s \<and> ins (install_problem k s) = ins s"
proof -
  have "outs (rename_file p q u) = outs u \<and> ins (rename_file p q u) = ins u" for p q and u :: server
    by (auto simp: rename_file_def split: option.split)
  then show ?thesis by (simp add: install_problem_def problem_files_def)
qed

lemma problem_object:
  "problem_request k title i d = cJSON_Object [(''op'', cJSON_Number (of_int k)), (''title'', cJSON_String title),
     (''id'', cJSON_Number (of_int i)), (''difficulty'', cJSON_Number (of_int d))]"
  by (simp add: problem_request_def op_request_def object_defs)

lemma problem_names:
  "case_insensitive_eq ''id'' ''id''" "case_insensitive_eq ''title'' ''title''" "case_insensitive_eq ''difficulty'' ''difficulty''"
  "\<not> case_insensitive_eq ''title'' ''op''" "\<not> case_insensitive_eq ''id'' ''op''" "\<not> case_insensitive_eq ''difficulty'' ''op''"
  "\<not> case_insensitive_eq ''op'' ''title''" "\<not> case_insensitive_eq ''op'' ''id''" "\<not> case_insensitive_eq ''op'' ''difficulty''"
  "\<not> case_insensitive_eq ''title'' ''id''" "\<not> case_insensitive_eq ''title'' ''difficulty''" "\<not> case_insensitive_eq ''id'' ''title''"
  "\<not> case_insensitive_eq ''id'' ''difficulty''" "\<not> case_insensitive_eq ''difficulty'' ''title''" "\<not> case_insensitive_eq ''difficulty'' ''id''"
  by code_simp+

lemma problem_fields:
  assumes "int_range k" "int_range i" "int_range d"
  shows "json_get_int (Some (problem_request k title i d)) ''op'' = k" "json_get_int (Some (problem_request k title i d)) ''id'' = i"
    "json_get_int (Some (problem_request k title i d)) ''difficulty'' = d"
    "json_get_string (Some (problem_request k title i d)) ''title'' = title"
  using assms by (simp_all add: problem_object json_get_int_def json_get_string_def cJSON_GetObjectItem_def case_names problem_names valueint_of_int)

lemma problem_text:
  assumes "int_range k" "int_range i" "int_range d" "no_nul title" "cJSON_PrintUnformatted (problem_request k title i d) = Some req"
  shows "no_nul req" "req \<noteq> []" "cJSON_Parse (req @ stale) = Some (problem_request k title i d)"
proof -
  have wf: "wf_json (problem_request k title i d)" using assms by (auto simp: problem_object no_nul_def)
  have nest: "nesting (problem_request k title i d) \<le> CJSON_NESTING_LIMIT" by (simp add: problem_object CJSON_NESTING_LIMIT_def)
  show "cJSON_Parse (req @ stale) = Some (problem_request k title i d)"
    using print_parse_object wf nest assms(5) unfolding problem_object by fastforce
  show "no_nul req" using print_no_nul(1) assms(5) wf by (simp add: cJSON_PrintUnformatted_def)
  show "req \<noteq> []" using assms(5) by (auto simp: cJSON_PrintUnformatted_def problem_object split: option.splits)
qed

definition success_reply :: bytes where
  "success_reply = ''{\"status\":0}''"

lemma success_replies:
  "cJSON_PrintUnformatted (status_json SUCCESS) = Some success_reply" "cJSON_Parse success_reply = Some (status_json SUCCESS)"
  "json_get_int (Some (status_json SUCCESS)) ''status'' = SUCCESS"
  by code_simp+

lemma success_text: "no_nul success_reply" "success_reply \<noteq> []" "length success_reply < 1000"
  by (simp_all add: success_reply_def no_nul_def)

text \<open>The server's half behind the parsed request.\<close>

lemma add_problem_served:
  assumes "tables_inv s" "problems_room s" "getProblem i s = None" "int_range i" "int_range d" "no_nul title" "length title < 100"
    and "0 \<le> c_socket k" "ocaps (outs s (c_socket k)) = []"
    and "clean (ins s (c_socket k))" "heads_whole ds (ins s (c_socket k))" "stream (ins s (c_socket k)) = concat (map wire ds) @ rest"
      "\<forall>f \<in> set problem_files. creatable s (temp_problem_path i f)" "\<forall>d \<in> set ds. length d \<le> 10000000" "length ds = 3"
  shows "\<exists>s' p. handle_add_problem (Some (problem_request ADD_PROBLEM title i d)) k s = Some (Again, k, s')
    \<and> odata (outs s' (c_socket k)) = odata (outs s (c_socket k)) @ success_reply
    \<and> getProblem i s' = Some p \<and> c_str (pr_title p) = title \<and> pr_difficulty p = d \<and> pr_visibility p = PROBLEM_VISIBLE
    \<and> (\<forall>j < 3. files s' (problem_path i (problem_files ! j)) = Some (ds ! j) \<and> files s' (temp_problem_path i (problem_files ! j)) = None)
    \<and> stream (ins s' (c_socket k)) = rest"
proof -
  have rng: "int_range ADD_PROBLEM" by (simp add: int_range_def)
  note fields = problem_fields [OF rng assms(4,5)]
  obtain t where t: "strcpy (take 100 (drop 4 (malloc s 112))) title = Some t" "c_str t = title"
    using strcpy_exact [OF assms(6), of "take 100 (drop 4 (malloc s 112))"] assms(7) by auto
  define p where "p = \<lparr>pr_id = i, pr_title = t, pr_difficulty = d, pr_visibility = PROBLEM_HIDDEN\<rparr>"
  have wf: "wf_Problem p" "wf_Problem (p\<lparr>pr_visibility := PROBLEM_VISIBLE\<rparr>)"
    using strcpy_terminated [OF t(1)] assms(4,5) by (simp_all add: p_def wf_Problem_def int_range_def [of 0] int_range_def [of 1])
  have ok: "problems_ok s" "distinct (map pr_id (problem_rows s))" using assms(1) by (simp_all add: tables_inv_def problems_part_def)
  obtain ra s1 where add: "addProblem p s = (ra, s1)" by (metis surj_pair)
  note am = problems.add_map [OF ok(1) wf(1) assms(2) ok(2) add]
  have added: "ra = 0" "getProblem i s1 = Some p" "problems_ok s1" "distinct (map pr_id (problem_rows s1))"
    using am assms(3) by (simp_all add: p_def)
  have inv1: "tables_inv s1" using problems_inv(1) [OF assms(1) wf(1) assms(2)] add by simp
  have k1: "keeps ((=) (db_path ''problems.dat'')) s s1" using keeps_tables(2) [of "(=) (db_path ''problems.dat'')" s p] add by simp
  then have s1: "outs s1 = outs s" "ins s1 = ins s" "creatable s1 = creatable s"
    using more_fields [of s1 s] by (simp_all add: keeps_def)
  define s2 where "s2 = send_bytes (c_socket k) success_reply s1"
  have st: "sendStatus (c_socket k) SUCCESS s1 = Some s2"
    using success_replies(1) success_text(1) by (simp add: sendStatus_def sendJson_def s2_def c_str_no_nul)
  have s2: "ins s2 = ins s" "creatable s2 = creatable s" "odata (outs s2 (c_socket k)) = odata (outs s (c_socket k)) @ success_reply"
    using s1 assms(8,9) by (simp_all add: s2_def send_bytes_def sock_write_all)
  obtain d1 d2 d3 where ds: "ds = [d1, d2, d3]" using assms(15) by (auto simp: numeral_3_eq_3 length_Suc_conv)
  let ?temps = "map (temp_problem_path i) problem_files"
  obtain es' where rf: "receive_files (c_socket k) ?temps s2 = (0, s2\<lparr>files := (files s2)(?temps [\<mapsto>] ds), ins := (ins s2)(c_socket k := es')\<rparr>)"
    "stream es' = rest"
    using receive_files_wire [of s2 "c_socket k" ds ?temps rest] s2 assms(10-15) by (auto simp: problem_files_def)
  define s3 where "s3 = s2\<lparr>files := (files s2)(?temps [\<mapsto>] ds), ins := (ins s2)(c_socket k := es')\<rparr>"
  have temp: "files s3 (temp_problem_path i ''_statement.txt'') = Some d1" "files s3 (temp_problem_path i ''_input.in'') = Some d2"
    "files s3 (temp_problem_path i ''_output.out'') = Some d3"
    by (simp_all add: s3_def problem_files_def ds)
  define s4 where "s4 = install_problem i s3"
  have inst: "files s4 (problem_path i f) = files s3 (temp_problem_path i f)" "files s4 (temp_problem_path i f) = None"
    if "f \<in> set problem_files" for f
    using install_files [of s3 i, OF _ that] temp by (simp_all add: s4_def problem_files_def)
  have quiet2: "silent s1 s2" by (rule quiet_talk(3) [OF st])
  have "silent s2 s3" using quiet_receive_files [OF rf(1)] by (simp add: s3_def problem_files_def)
  then have sil: "silent s1 s4" using quiet2 silent_install [of s3 i] unfolding s4_def by (metis quiet_trans)
  have four: "getProblem i s4 = Some p" "problems_ok s4" "distinct (map pr_id (problem_rows s4))"
    using quiet_lookup(2) [OF sil, of i] added(2) silent_inv(6) [OF sil] inv1 by (simp_all add: tables_inv_def problems_part_def)
  obtain ru s5 where upd: "updateProblem (p\<lparr>pr_visibility := PROBLEM_VISIBLE\<rparr>) s4 = (ru, s5)" by (metis surj_pair)
  note um = problems.upd_map [OF four(2) wf(2) four(3) upd]
  have five: "getProblem i s5 = Some (p\<lparr>pr_visibility := PROBLEM_VISIBLE\<rparr>)"
    using um(1,2) four(1) by (simp add: p_def)
  have k5: "keeps ((=) (db_path ''problems.dat'')) s4 s5"
    using keeps_tables(3) [of "(=) (db_path ''problems.dat'')" s4 "p\<lparr>pr_visibility := PROBLEM_VISIBLE\<rparr>"] upd by simp
  then have s5: "outs s5 = outs s2" "ins s5 = (ins s2)(c_socket k := es')" "files s5 (problem_path i f) = files s4 (problem_path i f)"
      "files s5 (temp_problem_path i f) = files s4 (temp_problem_path i f)" for f
    using more_fields [of s5 s4] install_more [of i s3]
    by (auto simp: keeps_def s4_def s3_def db_path_def DATABASE_PATH_def problem_path_def temp_problem_path_def)
  have "handle_add_problem (Some (problem_request ADD_PROBLEM title i d)) k s = Some (Again, k, s5)"
    using t(1) add added(1) st rf(1) upd
    by (simp add: handle_add_problem_def fields p_def [symmetric] s3_def [symmetric] s4_def [symmetric])
  moreover have "\<forall>j < 3. files s5 (problem_path i (problem_files ! j)) = Some (ds ! j) \<and> files s5 (temp_problem_path i (problem_files ! j)) = None"
    using inst temp s5(3,4) by (auto simp: less_Suc_eq numeral_3_eq_3 problem_files_def ds)
  ultimately show ?thesis using five s5(1,2) s2(3) rf(2) t(2)
    by (intro exI [of _ s5] exI [of _ "p\<lparr>pr_visibility := PROBLEM_VISIBLE\<rparr>"]) (simp add: p_def)
qed

text \<open>The client's half: what it writes when the answer is a success.\<close>

lemma client_add_problem_sends:
  assumes typed: "scan_word 100 (stdin c) = Some (title, r1)" "scan_int r1 = Some (Some i, r2)" "scan_int r2 = Some (Some d, r3)"
      "scan_word 200 r3 = Some (p1, r4)" "scan_word 200 r4 = Some (p2, r5)" "scan_word 200 r5 = Some (p3, r6)"
    and disk: "files c p1 = Some d1" "files c p2 = Some d2" "files c p3 = Some d3" "\<forall>x \<in> {d1, d2, d3}. length x \<le> 10000000"
    and mem: "cl_buffer c = replicate 1000 (CHR 0x00)" "ocaps (cl_out c) = []"
    and req: "cJSON_PrintUnformatted (problem_request ADD_PROBLEM title i d) = Some req" "no_nul req"
    and reply: "cl_in c = Data success_reply # es"
  shows "\<exists>c'. client_add_problem c = Some (Next, c') \<and> odata (cl_out c') = odata (cl_out c) @ req @ wire d1 @ wire d2 @ wire d3
    \<and> cl_in c' = es \<and> cl_menu c' = cl_menu c"
proof -
  define c6 where "c6 = (say [''Give absolute path to the problem output file: ''] (say [''Give absolute path to the problem input file: '']
    (say [''Give absolute path to the problem statement file: ''] (say [''Enter problem difficulty '', difficulty_codes]
    (say [''Enter problem ID: ''] (say [''Enter problem title(No spaces): ''] c))))))\<lparr>stdin := r6\<rparr>"
  have c6: "files c6 = files c" "cl_out c6 = cl_out c" "cl_in c6 = cl_in c" "cl_buffer c6 = cl_buffer c" "cl_menu c6 = cl_menu c"
    by (simp_all add: c6_def say_def)
  let ?fs = "zip [p1, p2, p3] (map (\<lambda>d. int (length d)) [d1, d2, d3])"
  have start: "client_add_problem c = client_upload ''Failed to add problem\<newline>'' ''Problem added successfully!\<newline>''
      (problem_request ADD_PROBLEM title i d) ?fs c6"
    using typed disk by (simp add: client_add_problem_def read_word_def read_int_def getFileSize_def MAX_FILE_SIZE_def c6_def say_def)
  define c7 where "c7 = c6\<lparr>cl_out := (cl_out c)\<lparr>odata := odata (cl_out c) @ req\<rparr>,
    cl_buffer := overwrite 0 success_reply (cl_buffer c), cl_in := es\<rparr>"
  have asked: "ask (problem_request ADD_PROBLEM title i d) c6 = Some (int (length success_reply), c7)"
    using req c6 success_text(3) mem(2) reply
    by (simp add: ask_def send_request_def cl_read_def c7_def c_str_no_nul sock_write_all)
  have tail: "CHR 0x00 \<in> set (drop (length success_reply) (cl_buffer c))" "c_str (drop (length success_reply) (cl_buffer c)) = []"
    using success_text(3) by (simp_all add: mem(1) c_str_def)
  have "parse_reply c7 = Some (Some (status_json SUCCESS))"
    using received(2) [OF success_text(1), of "cl_buffer c"] success_text(3) tail success_replies(2)
    by (simp add: parse_reply_def c7_def mem(1))
  moreover have "cl_sendFiles ?fs c7
      = (0, c7\<lparr>cl_out := (cl_out c7)\<lparr>odata := odata (cl_out c7) @ concat (map wire [d1, d2, d3])\<rparr>\<rparr>)"
    by (rule cl_sendFiles_wire) (use disk c6 mem(2) in \<open>simp_all add: c7_def\<close>)
  ultimately have "client_add_problem c = Some (Next, say [''Problem added successfully!\<newline>'']
      (c7\<lparr>cl_out := (cl_out c7)\<lparr>odata := odata (cl_out c7) @ concat (map wire [d1, d2, d3])\<rparr>\<rparr>))"
    using asked success_replies(3) success_text(2) unfolding start by (simp add: client_upload_def)
  then show ?thesis using c6 by (simp add: say_def c7_def)
qed

section \<open>The upload as one exchange\<close>

text \<open>C5: an upload from the keyboard to the table. The setter types a title, a number, a difficulty and three
  paths; the number is free, and the connection's thread finds on its socket the request and, cut in any
  way that leaves the lengths whole, the bytes that the client sends behind it. Then the server answers,
  the client's bytes are the request and the three files, and afterwards the problem is in the table,
  visible and with the typed title and difficulty, its three files are the setter's files, no temporary
  file is left, and the server has taken from the socket what belongs to the upload and no more.\<close>

theorem upload_end_to_end:
  assumes "scan_word 100 (stdin c) = Some (title, r1)" "scan_int r1 = Some (Some i, r2)" "scan_int r2 = Some (Some d, r3)"
      "scan_word 200 r3 = Some (p1, r4)" "scan_word 200 r4 = Some (p2, r5)" "scan_word 200 r5 = Some (p3, r6)"
    and "files c p1 = Some d1" "files c p2 = Some d2" "files c p3 = Some d3" "\<forall>x \<in> {d1, d2, d3}. length x \<le> 10000000"
    and "cl_buffer c = replicate 1000 (CHR 0x00)" "ocaps (cl_out c) = []"
    and "cJSON_PrintUnformatted (problem_request ADD_PROBLEM title i d) = Some req" "length req \<le> 1000" "int_range i" "int_range d"
    and "ready k s" "problems_room s" "getProblem i s = None" "\<forall>f \<in> set problem_files. creatable s (temp_problem_path i f)"
      "0 \<le> c_socket k" "ocaps (outs s (c_socket k)) = []" "CHR 0x00 \<in> set (drop (length req) (c_buffer k))"
    and "ins s (c_socket k) = Data req # es" "clean es" "heads_whole [d1, d2, d3] es" "stream es = wire d1 @ wire d2 @ wire d3 @ rest"
  shows "\<exists>k' s' c' p. serve_request env k s = Some (Again, k', s')
    \<and> odata (outs s' (c_socket k)) = odata (outs s (c_socket k)) @ success_reply
    \<and> client_add_problem (c\<lparr>cl_in := Data success_reply # es'\<rparr>) = Some (Next, c')
    \<and> odata (cl_out c') = odata (cl_out c) @ req @ wire d1 @ wire d2 @ wire d3
    \<and> getProblem i s' = Some p \<and> c_str (pr_title p) = title \<and> pr_difficulty p = d \<and> pr_visibility p = PROBLEM_VISIBLE
    \<and> (\<forall>j < 3. files s' (problem_path i (problem_files ! j)) = Some ([d1, d2, d3] ! j)
        \<and> files s' (temp_problem_path i (problem_files ! j)) = None)
    \<and> stream (ins s' (c_socket k)) = rest"
proof -
  have title: "no_nul title" "length title < 100" using scan_word_ok [OF assms(1)] by simp_all
  have rng: "int_range ADD_PROBLEM" by (simp add: int_range_def)
  note wt = problem_text [OF rng assms(15,16) title(1) assms(13)]
  define s1 where "s1 = s\<lparr>ins := (ins s)(c_socket k := es)\<rparr>"
  define k1 where "k1 = k\<lparr>c_buffer := overwrite 0 req (c_buffer k)\<rparr>"
  let ?json = "Some (problem_request ADD_PROBLEM title i d)"
  have rd: "server_read 1000 (c_socket k) (c_buffer k) s = (int (length req), overwrite 0 req (c_buffer k), s1)"
    using assms(14,24) by (simp add: server_read_def s1_def)
  have buf: "length (c_buffer k) = 1000" using assms(17) by (simp add: ready_def conn_ok_def)
  have srv: "serve_request env k s = handle_add_problem ?json k1 s1"
    using rd wt(2,3) received(2) [OF wt(1), of "c_buffer k"] assms(14,23) buf problem_fields(1) [OF rng assms(15,16)]
    by (simp add: serve_request_def k1_def [symmetric] dispatch_def)
  note quiet = quiet_talk(4) [OF rd]
  have tabs: "tables_inv s1" "problems_room s1" "getProblem i s1 = None"
    using silent_inv(6) [OF quiet] quiet_lookup(2) [OF quiet, of i] assms(17-19)
    by (simp_all add: ready_def system_inv_def s1_def problems_room_def table_room_def table_rows_def)
  have sock: "c_socket k1 = c_socket k" by (simp add: k1_def)
  have s1: "outs s1 = outs s" "ins s1 (c_socket k) = es" "creatable s1 = creatable s" by (simp_all add: s1_def)
  have "\<exists>s' p. handle_add_problem ?json k1 s1 = Some (Again, k1, s')
    \<and> odata (outs s' (c_socket k)) = odata (outs s (c_socket k)) @ success_reply
    \<and> getProblem i s' = Some p \<and> c_str (pr_title p) = title \<and> pr_difficulty p = d \<and> pr_visibility p = PROBLEM_VISIBLE
    \<and> (\<forall>j < 3. files s' (problem_path i (problem_files ! j)) = Some ([d1, d2, d3] ! j) \<and> files s' (temp_problem_path i (problem_files ! j)) = None)
    \<and> stream (ins s' (c_socket k)) = rest"
    using add_problem_served [OF tabs assms(15,16) title, of k1 "[d1, d2, d3]" rest] assms(10,20,21,22,25-27) unfolding sock s1 by simp
  moreover have "\<exists>c'. client_add_problem (c\<lparr>cl_in := Data success_reply # es'\<rparr>) = Some (Next, c')
      \<and> odata (cl_out c') = odata (cl_out c) @ req @ wire d1 @ wire d2 @ wire d3"
    using client_add_problem_sends [where c = "c\<lparr>cl_in := Data success_reply # es'\<rparr>" and title = title and req = req
        and ?d1.0 = d1 and ?d2.0 = d2 and ?d3.0 = d3 and es = es', OF _ assms(2-6)] assms(1,7-13) wt(1) by auto
  ultimately show ?thesis unfolding srv by blast
qed

section \<open>A concrete upload\<close>

definition setter :: client where
  "setter = (demo_client MODIFY_PROBLEMS_MENU ''Sum 3 0 /s /i /o '' [])
     \<lparr>files := [''/s'' \<mapsto> ''Add them.'', ''/i'' \<mapsto> ''1 2'', ''/o'' \<mapsto> ''3'']\<rparr>"

definition sum_request :: bytes where
  "sum_request = ''{\"op\":3,\"title\":\"Sum\",\"id\":3,\"difficulty\":0}''"

definition sum_files :: "event list" where
  "sum_files = [Data (wire ''Add them.'' @ take 9 (wire ''1 2'')), Data (drop 9 (wire ''1 2'') @ wire ''3'' @ ''next'')]"

lemma setter_input:
  "scan_word 100 ''Sum 3 0 /s /i /o '' = Some (''Sum'', '' 3 0 /s /i /o '')"
  "scan_int '' 3 0 /s /i /o '' = Some (Some 3, '' 0 /s /i /o '')" "scan_int '' 0 /s /i /o '' = Some (Some 0, '' /s /i /o '')"
  "scan_word 200 '' /s /i /o '' = Some (''/s'', '' /i /o '')" "scan_word 200 '' /i /o '' = Some (''/i'', '' /o '')"
  "scan_word 200 '' /o '' = Some (''/o'', '' '')" "cJSON_PrintUnformatted (problem_request ADD_PROBLEM ''Sum'' 3 0) = Some sum_request"
  by code_simp+

lemma sum_files_ok:
  "clean sum_files" "heads_whole [''Add them.'', ''1 2'', ''3''] sum_files"
  "stream sum_files = wire ''Add them.'' @ wire ''1 2'' @ wire ''3'' @ ''next''"
proof -
  have len: "length (wire d) = 8 + length d" for d by (simp add: wire_def)
  have ne: "wire d \<noteq> []" for d using len [of d] by (metis add_is_0 list.size(3) zero_neq_numeral)
  show "stream sum_files = wire ''Add them.'' @ wire ''1 2'' @ wire ''3'' @ ''next''" by (simp add: sum_files_def)
  show "clean sum_files" by (simp add: sum_files_def ne)
  have b1: "behind 17 sum_files = [Data (take 9 (wire ''1 2'')), Data (drop 9 (wire ''1 2'') @ wire ''3'' @ ''next'')]"
    unfolding sum_files_def using ne by (subst behind_data) (simp_all add: len)
  have b2: "behind 11 (behind 17 sum_files) = [Data (wire ''3'' @ ''next'')]"
    unfolding b1 using ne by (simp add: behind_data len)
  have "header_whole sum_files" "header_whole (behind 17 sum_files)" "header_whole (behind 11 (behind 17 sum_files))"
    unfolding b1 b2 [unfolded b1] by (simp_all add: header_whole_def len sum_files_def)
  then show "heads_whole [''Add them.'', ''1 2'', ''3''] sum_files" by simp
qed

theorem upload_end_to_end_witness:
  "\<exists>k' s' c' p. serve_request echo_env (demo_conn [] 6 9) (demo_guest\<lparr>ins := \<lambda>_. Data sum_request # sum_files\<rparr>) = Some (Again, k', s')
    \<and> client_add_problem (setter\<lparr>cl_in := [Data success_reply]\<rparr>) = Some (Next, c')
    \<and> odata (cl_out c') = sum_request @ wire ''Add them.'' @ wire ''1 2'' @ wire ''3''
    \<and> getProblem 3 s' = Some p \<and> pr_visibility p = PROBLEM_VISIBLE
    \<and> files s' (problem_path 3 ''_input.in'') = Some ''1 2'' \<and> stream (ins s' 6) = ''next''"
proof -
  let ?s = "demo_guest\<lparr>ins := \<lambda>_. Data sum_request # sum_files\<rparr>" and ?k = "demo_conn [] 6 9"
  have si: "silent demo_guest ?s" by (simp add: quiet_def core_def os.defs)
  have k: "c_user ?k = 9" "c_socket ?k = 6" "c_buffer ?k = replicate 1000 (CHR 0x00)" by (simp_all add: demo_conn_def)
  have ready: "ready ?k ?s" using demo_guest_facts(1) silent_inv [OF si] by (simp add: ready_def)
  have room: "problems_room ?s" using demo_guest_facts(2) silent_inv(3) [OF si] by (simp add: tables_room_def)
  have base: "problems_ok demo_base" using demo_base_facts(1) by (simp add: system_inv_def tables_inv_def problems_part_def)
  have "getProblem 3 demo_base = None" using problems.get_None_iff [OF base, of 3] demo_base_facts(6) by (simp add: demo_problem_def)
  moreover have "getRecord fn sz mf ?s = getRecord fn sz mf demo_base" for fn sz mf
    by (rule getRecord_same) (simp_all add: demo_guest_def accept_user_def Let_def)
  ultimately have free: "getProblem 3 ?s = None" by (simp add: getProblem_def)
  have sock: "ocaps (outs ?s 6) = []" "\<forall>p. creatable ?s p"
    by (simp_all add: demo_guest_def accept_user_def Let_def demo_base_def demo_server_def demo_tables_def put_file_def with_users_def idle_def)
  have nul: "CHR 0x00 \<in> set (drop (length sum_request) (c_buffer ?k))" "length sum_request \<le> 1000" by (simp_all add: k sum_request_def)
  have disk: "files setter ''/s'' = Some ''Add them.''" "files setter ''/i'' = Some ''1 2''" "files setter ''/o'' = Some ''3''"
    "stdin setter = ''Sum 3 0 /s /i /o ''" "cl_buffer setter = replicate 1000 (CHR 0x00)" "ocaps (cl_out setter) = []" "odata (cl_out setter) = []"
    by (simp_all add: setter_def demo_client_def)
  have ranges: "int_range 3" "int_range 0" by (simp_all add: int_range_def)
  obtain k' s' c' p where e: "serve_request echo_env ?k ?s = Some (Again, k', s')"
    "client_add_problem (setter\<lparr>cl_in := [Data success_reply]\<rparr>) = Some (Next, c')"
    "odata (cl_out c') = odata (cl_out setter) @ sum_request @ wire ''Add them.'' @ wire ''1 2'' @ wire ''3''"
    "getProblem 3 s' = Some p" "pr_visibility p = PROBLEM_VISIBLE"
    "\<forall>j < 3. files s' (problem_path 3 (problem_files ! j)) = Some ([''Add them.'', ''1 2'', ''3''] ! j)"
    "stream (ins s' (c_socket ?k)) = ''next''"
    using upload_end_to_end [where c = setter and s = ?s and k = ?k and env = echo_env and es' = "[]" and es = sum_files
        and rest = "''next''", OF _ setter_input(2-6) disk(1-3) _ disk(5,6) setter_input(7) nul(2) ranges ready room free _ _ _ nul(1) _ sum_files_ok]
      disk(4) setter_input(1) sock k by auto
  have "files s' (problem_path 3 ''_input.in'') = Some ''1 2''" using e(6) [rule_format, of 1] by (simp add: problem_files_def)
  then show ?thesis using e k disk(7) by auto
qed

end
