(* ===== verification/Download.thy ===== *)
theory Download
  imports Upload
begin

text \<open>
  A problem from the server's disk to the client's: the answer and the three files behind it. The client
  reads the answer with one \<open>read\<close> of up to 1000 bytes; a download is correct when that read finds the
  answer alone, and goes wrong when the network delivers the answer and the first file together.
\<close>

section \<open>The answer\<close>

definition problem_answer :: "Problem \<Rightarrow> cJSON" where
  "problem_answer p = cJSON_Object [(''status'', cJSON_Number (of_int SUCCESS)), (''title'', cJSON_String (c_str (pr_title p))),
     (''difficulty'', cJSON_Number (of_int (pr_difficulty p)))]"

lemma title_of_row: "wf_Problem p \<Longrightarrow> str_at (drop 4 (enc_Problem p)) = Some (c_str (pr_title p))"
proof -
  assume wf: "wf_Problem p"
  then have "drop 4 (enc_Problem p) = pr_title p @ enc_int (pr_difficulty p) @ enc_int (pr_visibility p)" by (simp add: enc_Problem_def)
  then show ?thesis using wf title_read [OF wf] c_str_prefix [of "pr_title p"] by (simp add: wf_Problem_def terminated_def)
qed

lemma allowed_reply:
  assumes "wf_Problem p" "\<not> (us_privilege u = REGULAR_USER \<and> pr_visibility p = PROBLEM_HIDDEN)"
  shows "problem_reply u (Some p) = Some (SUCCESS, problem_answer p)"
  using assms title_of_row [OF assms(1)]
  by (auto simp: problem_reply_def problem_answer_def status_json_def object_defs)

lemma answer_fields:
  "json_get_int (Some (problem_answer p)) ''status'' = SUCCESS"
  by (simp add: problem_answer_def json_get_int_def cJSON_GetObjectItem_def case_names valueint_of_int [of 0, simplified] int_range_def)

lemma length_c_str_title: "wf_Problem p \<Longrightarrow> length (c_str (pr_title p)) < 100"
  using length_c_str_terminated [of 100 "pr_title p"] by (simp add: wf_Problem_def)

lemma answer_text:
  assumes "wf_Problem p"
  shows "\<exists>reply. cJSON_PrintUnformatted (problem_answer p) = Some reply \<and> no_nul reply \<and> reply \<noteq> [] \<and> length reply < 1000
    \<and> (\<forall>stale. cJSON_Parse (reply @ stale) = Some (problem_answer p))"
proof -
  have int: "int_range SUCCESS" "int_range (pr_difficulty p)" using assms by (simp_all add: wf_Problem_def int_range_def)
  have zero: "print_number 0 = Some (show_int 0)" using print_number_int [of 0] by (simp add: int_range_def)
  have wf: "wf_json (problem_answer p)" using int no_nul_c_str [of "pr_title p"] by (auto simp: problem_answer_def no_nul_def)
  have nest: "nesting (problem_answer p) \<le> CJSON_NESTING_LIMIT" by (simp add: problem_answer_def CJSON_NESTING_LIMIT_def)
  obtain reply where r: "cJSON_PrintUnformatted (problem_answer p) = Some reply"
    "\<forall>stale. cJSON_Parse (reply @ stale) = Some (problem_answer p)"
    using print_parse_object wf nest unfolding problem_answer_def by blast
  have "length reply < 1000"
    using r(1) length_c_str_title [OF assms] show_int_length [OF int(1)] show_int_length [OF int(2)] length_print_string [of "c_str (pr_title p)"]
    by (auto simp: cJSON_PrintUnformatted_def problem_answer_def print_number_int int zero print_string_ptr_def [of "''status''"]
      print_string_ptr_def [of "''title''"] print_string_ptr_def [of "''difficulty''"] escape_char_def)
  moreover have "reply \<noteq> []" using r(1) by (auto simp: cJSON_PrintUnformatted_def problem_answer_def print_number_int int zero)
  ultimately show ?thesis using r print_no_nul(1) wf by (auto simp: cJSON_PrintUnformatted_def)
qed

lemma id_request_object: "id_request k i = cJSON_Object [(''op'', cJSON_Number (of_int k)), (''id'', cJSON_Number (of_int i))]"
  by (simp add: id_request_def op_request_def object_defs)

lemma id_request_text:
  assumes "int_range k" "int_range i" "cJSON_PrintUnformatted (id_request k i) = Some req"
  shows "no_nul req" "req \<noteq> []" "length req \<le> 1000" "cJSON_Parse (req @ stale) = Some (id_request k i)"
    "json_get_int (Some (id_request k i)) ''op'' = k" "json_get_int (Some (id_request k i)) ''id'' = i"
proof -
  have wf: "wf_json (id_request k i)" using assms by (auto simp: id_request_object no_nul_def)
  have nest: "nesting (id_request k i) \<le> CJSON_NESTING_LIMIT" by (simp add: id_request_object CJSON_NESTING_LIMIT_def)
  show "cJSON_Parse (req @ stale) = Some (id_request k i)" using print_parse_object wf nest assms(3) unfolding id_request_object by fastforce
  show "no_nul req" using print_no_nul(1) assms(3) wf by (simp add: cJSON_PrintUnformatted_def)
  show "req \<noteq> []" using assms(3) by (auto simp: cJSON_PrintUnformatted_def id_request_object split: option.splits)
  show "length req \<le> 1000" using assms(3) show_int_length [OF assms(1)] show_int_length [OF assms(2)]
    by (auto simp: cJSON_PrintUnformatted_def id_request_object print_number_int assms(1,2) print_string_ptr_def escape_char_def)
  show "json_get_int (Some (id_request k i)) ''op'' = k" "json_get_int (Some (id_request k i)) ''id'' = i"
    using assms by (simp_all add: id_request_object json_get_int_def cJSON_GetObjectItem_def case_names problem_names valueint_of_int)
qed

section \<open>The server's half\<close>

lemma send_files_wire:
  assumes "list_all2 (\<lambda>p d. files s p = Some d \<and> length d \<le> 10000000) ps ds" "ocaps (outs s k) = []"
  shows "send_files k ps s = s\<lparr>outs := (outs s)(k := (outs s k)\<lparr>odata := odata (outs s k) @ concat (map wire ds)\<rparr>)\<rparr>"
  using assms
proof (induction ps arbitrary: ds s)
  case (Cons p ps)
  then obtain d ds' where ds: "ds = d # ds'" "files s p = Some d" "length d \<le> 10000000"
    "list_all2 (\<lambda>p d. files s p = Some d \<and> length d \<le> 10000000) ps ds'"
    by (auto simp: list_all2_Cons1)
  let ?s1 = "s\<lparr>outs := (outs s)(k := (outs s k)\<lparr>odata := odata (outs s k) @ wire d\<rparr>)\<rparr>"
  have "getFileSize p s = int (length d)" using ds by (simp add: getFileSize_def MAX_FILE_SIZE_def)
  then have "server_sendFile k p s = (0, ?s1)" using ds Cons.prems(2) by (simp add: server_sendFile_def sendFile_all)
  moreover have "list_all2 (\<lambda>p d. files ?s1 p = Some d \<and> length d \<le> 10000000) ps ds'" using ds by simp
  then have "send_files k ps ?s1
      = ?s1\<lparr>outs := (outs ?s1)(k := (outs ?s1 k)\<lparr>odata := odata (outs ?s1 k) @ concat (map wire ds')\<rparr>)\<rparr>"
    using Cons.prems(2) by (intro Cons.IH) simp_all
  ultimately show ?case using ds(1) by (simp add: fun_upd_same del: fun_upd_apply)
qed simp

lemma serve_get_problem:
  assumes "ready k s" "users_heap s (c_user k) = Some u" "getProblem i s = Some p" "int_range i"
    "\<not> (us_privilege u = REGULAR_USER \<and> pr_visibility p = PROBLEM_HIDDEN)"
    and "list_all2 (\<lambda>f d. files s (problem_path i f) = Some d \<and> length d \<le> 10000000) problem_files ds"
    and "cJSON_PrintUnformatted (id_request GET_PROBLEM i) = Some req"
      "0 \<le> c_socket k" "ocaps (outs s (c_socket k)) = []" "CHR 0x00 \<in> set (drop (length req) (c_buffer k))"
      "ins s (c_socket k) = Data req # es"
    and "cJSON_PrintUnformatted (problem_answer p) = Some reply"
  shows "\<exists>k' s'. serve_request env k s = Some (Again, k', s')
    \<and> odata (outs s' (c_socket k)) = odata (outs s (c_socket k)) @ reply @ concat (map wire ds)"
proof -
  have rng: "int_range GET_PROBLEM" by (simp add: int_range_def)
  note wt = id_request_text [OF rng assms(4,7)]
  define s1 where "s1 = s\<lparr>ins := (ins s)(c_socket k := es)\<rparr>"
  define k1 where "k1 = k\<lparr>c_buffer := overwrite 0 req (c_buffer k)\<rparr>"
  let ?json = "Some (id_request GET_PROBLEM i)"
  have rd: "server_read 1000 (c_socket k) (c_buffer k) s = (int (length req), overwrite 0 req (c_buffer k), s1)"
    using assms(11) wt(3) by (simp add: server_read_def s1_def)
  have buf: "length (c_buffer k) = 1000" using assms(1) by (simp add: ready_def conn_ok_def)
  have srv: "serve_request env k s = handle_get_problem ?json k1 s1"
    using rd wt(2-5) received(2) [OF wt(1), of "c_buffer k"] assms(10) buf
    by (simp add: serve_request_def k1_def [symmetric] dispatch_def)
  note quiet = quiet_talk(4) [OF rd]
  have prob: "getProblem i s1 = Some p" "users_heap s1 (c_user k1) = Some u"
    using quiet_lookup(2) [OF quiet] assms(2,3) by (simp_all add: s1_def k1_def)
  have tabs: "tables_inv s" using assms(1) by (simp add: ready_def system_inv_def)
  have wf: "wf_Problem p" by (rule problem_found [OF tabs assms(3)])
  have nn: "no_nul reply" using answer_text [OF wf] assms(12) by auto
  define s2 where "s2 = send_bytes (c_socket k) reply s1"
  have s2: "outs s2 (c_socket k) = (outs s (c_socket k))\<lparr>odata := odata (outs s (c_socket k)) @ reply\<rparr>" "files s2 = files s"
    using assms(8,9) by (simp_all add: s2_def send_bytes_def s1_def sock_write_all)
  have sent: "sendJson (c_socket k1) (problem_answer p) s1 = Some s2"
    using assms(12) nn by (simp add: sendJson_def s2_def c_str_no_nul k1_def)
  let ?ps = "map (problem_path i) problem_files"
  have all: "list_all2 (\<lambda>p d. files s2 p = Some d \<and> length d \<le> 10000000) ?ps ds"
    using assms(6) by (simp add: list_all2_map1 s2(2))
  have "serve_request env k s = Some (Again, k1, send_files (c_socket k) ?ps s2)"
    unfolding srv using prob allowed_reply [OF wf assms(5)] sent wt(6)
    by (simp add: handle_get_problem_def show_problem_def k1_def)
  moreover have "odata (outs (send_files (c_socket k) ?ps s2) (c_socket k)) = odata (outs s (c_socket k)) @ reply @ concat (map wire ds)"
    using send_files_wire [OF all, of "c_socket k"] s2(1) assms(9) by simp
  ultimately show ?thesis by blast
qed

section \<open>The client's half\<close>

lemma cl_receiveFiles_wire:
  assumes "clean (cl_in c)" "heads_whole ds (cl_in c)" "\<forall>p \<in> set ps. creatable c p" "stream (cl_in c) = concat (map wire ds) @ rest"
    "\<forall>d \<in> set ds. length d \<le> 10000000" "length ps = length ds"
  shows "\<exists>es'. cl_receiveFiles ps c = (0, c\<lparr>files := (files c)(ps [\<mapsto>] ds), cl_in := es'\<rparr>) \<and> clean es' \<and> stream es' = rest"
  using assms
proof (induction ps arbitrary: ds c)
  case Nil
  then show ?case by (intro exI [of _ "cl_in c"]) simp
next
  case (Cons p ps)
  then obtain d ds' where ds: "ds = d # ds'" "length ps = length ds'" by (cases ds) auto
  let ?es = "behind (8 + length d) (cl_in c)"
  let ?c1 = "(put_file p d c)\<lparr>cl_in := ?es\<rparr>"
  have rf: "receiveFile p c (cl_in c) = (0, put_file p d c, ?es)"
    by (rule receiveFile_wire [where rest = "concat (map wire ds') @ rest"]) (use Cons.prems ds in auto)
  have step: "cl_receiveFile p c = (0, ?c1)" using rf by (simp add: cl_receiveFile_def put_file_def)
  have "clean ?es" "stream ?es = concat (map wire ds') @ rest"
    using clean_behind [OF Cons.prems(1), of "8 + length d"] Cons.prems(4) ds by (simp_all add: wire_def [of d])
  then have prem: "clean (cl_in ?c1)" "heads_whole ds' (cl_in ?c1)" "stream (cl_in ?c1) = concat (map wire ds') @ rest"
    using Cons.prems(2) ds by simp_all
  have "\<forall>x \<in> set ps. creatable ?c1 x" "\<forall>x \<in> set ds'. length x \<le> 10000000" using Cons.prems(3,5) ds by (simp_all add: put_file_def)
  from Cons.IH [OF prem(1,2) this(1) prem(3) this(2) ds(2)] obtain es' where
    "cl_receiveFiles ps ?c1 = (0, ?c1\<lparr>files := (files ?c1)(ps [\<mapsto>] ds'), cl_in := es'\<rparr>)" "clean es'" "stream es' = rest" by blast
  then show ?case using ds step by (intro exI [of _ es']) (simp add: put_file_def del: fun_upd_apply)
qed

abbreviation (input) downloads :: "bytes list" where
  "downloads \<equiv> [''./tempProblemStatement.txt'', ''./tempProblemInput.in'', ''./tempProblemOutput.out'']"

text \<open>Up to the files: the request is written, the answer is parsed, and whatever else the same read found is
  in the buffer and no longer on the socket.\<close>

lemma client_get_problem_answered:
  assumes "scan_int (stdin c) = Some (Some i, r1)" "cl_buffer c = replicate 1000 (CHR 0x00)" "ocaps (cl_out c) = []"
    and "cJSON_PrintUnformatted (id_request GET_PROBLEM i) = Some req" "no_nul req"
    and "no_nul reply" "reply \<noteq> []" "length (reply @ x) < 1000" "\<forall>stale. cJSON_Parse (reply @ stale) = Some j"
      "json_get_int (Some j) ''status'' = SUCCESS" "cl_in c = Data (reply @ x) # es"
  shows "\<exists>c2. client_get_problem c = Some (Next, let (r, c3) = cl_receiveFiles downloads c2
        in if r < 0 then c3 else say [''Problem files received successfully!\<newline>'',
           ''Problem Statement saved at: ./tempProblemStatement.txt\<newline>'',
           ''Problem Input saved at: ./tempProblemInput.in\<newline>'',
           ''Problem Output saved at: ./tempProblemOutput.out\<newline>''] c3)
    \<and> cl_in c2 = es \<and> files c2 = files c \<and> creatable c2 = creatable c \<and> odata (cl_out c2) = odata (cl_out c) @ req"
proof -
  define c1 where "c1 = (say [''Enter problem ID: ''] c)\<lparr>stdin := r1\<rparr>"
  have c1: "files c1 = files c" "cl_out c1 = cl_out c" "cl_in c1 = cl_in c" "cl_buffer c1 = cl_buffer c" "creatable c1 = creatable c"
    by (simp_all add: c1_def say_def)
  have typed: "read_int (say [''Enter problem ID: ''] c) = Some (i, c1)" using assms(1) by (simp add: read_int_def c1_def say_def)
  define c2 where "c2 = c1\<lparr>cl_out := (cl_out c)\<lparr>odata := odata (cl_out c) @ req\<rparr>,
    cl_buffer := overwrite 0 (reply @ x) (cl_buffer c), cl_in := es\<rparr>"
  have asked: "ask (id_request GET_PROBLEM i) c1 = Some (int (length (reply @ x)), c2)"
    using assms(3-5,8,11) c1 by (simp add: ask_def send_request_def cl_read_def c2_def c_str_no_nul sock_write_all)
  have ow: "overwrite 0 (reply @ x) (cl_buffer c) = reply @ x @ drop (length (reply @ x)) (cl_buffer c)"
    using overwrite_in_front [of "reply @ x" "cl_buffer c"] assms(2,8) by simp
  have nul: "CHR 0x00 \<in> set (overwrite 0 (reply @ x) (cl_buffer c))" unfolding ow using assms(2,8) by simp
  have "c_str (overwrite 0 (reply @ x) (cl_buffer c)) = reply @ c_str (x @ drop (length (reply @ x)) (cl_buffer c))"
    unfolding ow by (rule c_str_prefix_no_nul [OF assms(6)])
  then have "parse_reply c2 = Some (Some j)"
    using nul assms(9) by (simp add: parse_reply_def str_at_def c2_def)
  moreover have "\<not> int (length reply) + int (length x) \<le> 0" using assms(7) by (cases reply) simp_all
  moreover define c3 where "c3 = say (title_line (Some j)) c2"
  ultimately have "client_get_problem c = Some (Next, let (r, c4) = cl_receiveFiles downloads c3
        in if r < 0 then c4 else say [''Problem files received successfully!\<newline>'',
           ''Problem Statement saved at: ./tempProblemStatement.txt\<newline>'',
           ''Problem Input saved at: ./tempProblemInput.in\<newline>'',
           ''Problem Output saved at: ./tempProblemOutput.out\<newline>''] c4)"
    using typed asked assms(10)
    by (simp add: client_get_problem_def case_prod_beta Let_def del: cl_receiveFiles.simps)
  moreover have "cl_in c3 = es \<and> files c3 = files c \<and> creatable c3 = creatable c \<and> odata (cl_out c3) = odata (cl_out c) @ req"
    using c1 by (simp add: c3_def c2_def say_def)
  ultimately show ?thesis by blast
qed

section \<open>The download as one exchange\<close>

text \<open>C14: a download is the inverse of an upload. Somebody who may see problem \<open>i\<close> asks for it; the server
  writes the answer and the three files, and if the client's first \<open>read\<close> finds the answer alone and the
  lengths arrive whole, then the client's three files are the server's files, and it has taken from the
  socket what belongs to the download and no more.\<close>

theorem download_end_to_end:
  assumes "scan_int (stdin c) = Some (Some i, r1)" "cl_buffer c = replicate 1000 (CHR 0x00)" "ocaps (cl_out c) = []"
      "\<forall>p \<in> set downloads. creatable c p"
    and "cJSON_PrintUnformatted (id_request GET_PROBLEM i) = Some req" "int_range i"
    and "ready k s" "users_heap s (c_user k) = Some u" "getProblem i s = Some p"
      "\<not> (us_privilege u = REGULAR_USER \<and> pr_visibility p = PROBLEM_HIDDEN)"
      "list_all2 (\<lambda>f d. files s (problem_path i f) = Some d \<and> length d \<le> 10000000) problem_files [d1, d2, d3]"
    and "0 \<le> c_socket k" "ocaps (outs s (c_socket k)) = []" "CHR 0x00 \<in> set (drop (length req) (c_buffer k))"
      "ins s (c_socket k) = Data req # es'"
    and "clean es" "heads_whole [d1, d2, d3] es" "stream es = wire d1 @ wire d2 @ wire d3 @ rest"
  shows "\<exists>k' s' reply c'. serve_request env k s = Some (Again, k', s')
    \<and> odata (outs s' (c_socket k)) = odata (outs s (c_socket k)) @ reply @ wire d1 @ wire d2 @ wire d3
    \<and> client_get_problem (c\<lparr>cl_in := Data reply # es\<rparr>) = Some (Next, c') \<and> odata (cl_out c') = odata (cl_out c) @ req
    \<and> map (files c') downloads = map Some [d1, d2, d3] \<and> stream (cl_in c') = rest"
proof -
  have wf: "wf_Problem p" by (rule problem_found [of s i p]) (use assms(7,9) in \<open>simp_all add: ready_def system_inv_def\<close>)
  obtain reply where reply: "cJSON_PrintUnformatted (problem_answer p) = Some reply" "no_nul reply" "reply \<noteq> []" "length reply < 1000"
    "\<forall>stale. cJSON_Parse (reply @ stale) = Some (problem_answer p)"
    using answer_text [OF wf] by blast
  obtain k' s' where srv: "serve_request env k s = Some (Again, k', s')"
    "odata (outs s' (c_socket k)) = odata (outs s (c_socket k)) @ reply @ concat (map wire [d1, d2, d3])"
    using serve_get_problem [OF assms(7-9,6,10,11,5,12-15) reply(1)] by blast
  have rng: "int_range GET_PROBLEM" by (simp add: int_range_def)
  note nn = id_request_text(1) [OF rng assms(6,5)]
  let ?c = "c\<lparr>cl_in := Data reply # es\<rparr>"
  obtain c2 where c2: "client_get_problem ?c = Some (Next, let (r, c3) = cl_receiveFiles downloads c2
        in if r < 0 then c3 else say [''Problem files received successfully!\<newline>'',
           ''Problem Statement saved at: ./tempProblemStatement.txt\<newline>'',
           ''Problem Input saved at: ./tempProblemInput.in\<newline>'',
           ''Problem Output saved at: ./tempProblemOutput.out\<newline>''] c3)"
    "cl_in c2 = es" "files c2 = files c" "creatable c2 = creatable c" "odata (cl_out c2) = odata (cl_out c) @ req"
    using client_get_problem_answered [of ?c i r1 req reply "[]" "problem_answer p" es] assms(1-3,5) nn reply answer_fields by auto
  have len: "\<forall>d \<in> set [d1, d2, d3]. length d \<le> 10000000" using assms(11) by (simp add: problem_files_def)
  obtain es2 where got: "cl_receiveFiles downloads c2 = (0, c2\<lparr>files := (files c2)(downloads [\<mapsto>] [d1, d2, d3]), cl_in := es2\<rparr>)"
    "stream es2 = rest"
    using cl_receiveFiles_wire [of c2 "[d1, d2, d3]" downloads rest] c2(2,4) assms(4,16-18) len by auto
  show ?thesis
    using srv c2(1,5) got
    by (intro exI [of _ k'] exI [of _ s'] exI [of _ reply]) (auto simp: say_def)
qed

text \<open>C31: what arrives together with the answer is lost. If the first \<open>read\<close> of the client finds the answer and
  the first file behind it (nothing in the protocol separates them), then the second file is stored as
  the statement and the third as the input, and the first is gone.\<close>

theorem download_swallows_file:
  assumes "scan_int (stdin c) = Some (Some i, r1)" "cl_buffer c = replicate 1000 (CHR 0x00)" "ocaps (cl_out c) = []"
      "\<forall>p \<in> set downloads. creatable c p"
    and "cJSON_PrintUnformatted (id_request GET_PROBLEM i) = Some req" "int_range i"
    and "wf_Problem p" "cJSON_PrintUnformatted (problem_answer p) = Some reply" "length (reply @ wire d1) < 1000"
    and "cl_in c = Data (reply @ wire d1) # es" "clean es" "heads_whole [d2, d3] es" "stream es = wire d2 @ wire d3"
      "length d2 \<le> 10000000" "length d3 \<le> 10000000"
  shows "\<exists>c'. client_get_problem c = Some (Next, c') \<and> files c' ''./tempProblemStatement.txt'' = Some d2
    \<and> files c' ''./tempProblemInput.in'' = Some d3"
proof -
  have reply: "no_nul reply" "reply \<noteq> []" "\<forall>stale. cJSON_Parse (reply @ stale) = Some (problem_answer p)"
    using answer_text [OF assms(7)] assms(8) by auto
  have rng: "int_range GET_PROBLEM" by (simp add: int_range_def)
  note nn = id_request_text(1) [OF rng assms(6,5)]
  obtain c2 where c2: "client_get_problem c = Some (Next, let (r, c3) = cl_receiveFiles downloads c2
        in if r < 0 then c3 else say [''Problem files received successfully!\<newline>'',
           ''Problem Statement saved at: ./tempProblemStatement.txt\<newline>'',
           ''Problem Input saved at: ./tempProblemInput.in\<newline>'',
           ''Problem Output saved at: ./tempProblemOutput.out\<newline>''] c3)"
    "cl_in c2 = es" "files c2 = files c" "creatable c2 = creatable c"
    using client_get_problem_answered [OF assms(1-3,5) nn reply(1,2) assms(9) reply(3) answer_fields assms(10)] by blast
  let ?two = "[''./tempProblemStatement.txt'', ''./tempProblemInput.in'']"
  obtain es2 where got: "cl_receiveFiles ?two c2 = (0, c2\<lparr>files := (files c2)(?two [\<mapsto>] [d2, d3]), cl_in := es2\<rparr>)"
    using cl_receiveFiles_wire [of c2 "[d2, d3]" ?two "[]"] c2(2,4) assms(4,11-15) by auto
  define c3 where "c3 = c2\<lparr>files := (files c2)(?two [\<mapsto>] [d2, d3]), cl_in := es2\<rparr>"
  have split: "cl_receiveFiles (xs @ [y]) c = (let (r, c') = cl_receiveFiles xs c in if r < 0 then (r, c') else
      let (r, c'') = cl_receiveFile y c' in if r < 0 then (-1, c'') else (0, c''))" for xs y c
    by (induction xs arbitrary: c) (auto simp: Let_def case_prod_beta)
  obtain r c4 where last: "cl_receiveFile ''./tempProblemOutput.out'' c3 = (r, c4)" by (metis surj_pair)
  have keep: "files c4 q = files c3 q" if "q \<noteq> ''./tempProblemOutput.out''" for q
    using last that by (auto simp: cl_receiveFile_def receiveFile_def Let_def split: prod.splits if_splits)
  have "cl_receiveFiles downloads c2 = (if r < 0 then -1 else 0, c4)"
    using split [of ?two "''./tempProblemOutput.out''" c2] got last unfolding c3_def [symmetric] by auto
  then show ?thesis using c2(1) keep [of "''./tempProblemStatement.txt''"] keep [of "''./tempProblemInput.in''"]
    by (auto simp: c3_def say_def)
qed

section \<open>A concrete download\<close>

definition reader :: client where
  "reader = demo_client USER_MENU ''1 '' []"

definition echo_request :: bytes where
  "echo_request = ''{\"op\":5,\"id\":1}''"

definition echo_answer :: bytes where
  "echo_answer = ''{\"status\":0,\"title\":\"Echo\",\"difficulty\":0}''"

definition echo_files :: "event list" where
  "echo_files = [Data (wire ''Copy.'' @ wire ''1 2'' @ wire ''12'')]"

definition echo_server :: server where
  "echo_server = put_file (problem_path 1 ''_statement.txt'') ''Copy.'' (put_file (problem_path 1 ''_input.in'') ''1 2''
     (put_file (problem_path 1 ''_output.out'') ''12'' (demo_guest\<lparr>ins := \<lambda>_. [Data echo_request]\<rparr>)))"

lemma wire_facts: "length (wire d) = 8 + length d" "wire d \<noteq> []"
proof -
  show "length (wire d) = 8 + length d" by (simp add: wire_def)
  then show "wire d \<noteq> []" by (metis add_is_0 list.size(3) zero_neq_numeral)
qed

lemma reader_facts:
  "scan_int ''1 '' = Some (Some 1, '' '')" "cJSON_PrintUnformatted (id_request GET_PROBLEM 1) = Some echo_request"
  "cJSON_PrintUnformatted (problem_answer (demo_problem 1 ''Echo'' PROBLEM_VISIBLE)) = Some echo_answer"
  by code_simp+

lemma reader_simps:
  "stdin reader = ''1 ''" "cl_buffer reader = replicate 1000 (CHR 0x00)" "ocaps (cl_out reader) = []" "odata (cl_out reader) = []"
  "creatable reader p"
  by (simp_all add: reader_def demo_client_def)

lemma echo_files_ok:
  "clean echo_files" "heads_whole [''Copy.'', ''1 2'', ''12''] echo_files" "stream echo_files = wire ''Copy.'' @ wire ''1 2'' @ wire ''12''"
proof -
  have b1: "behind 13 echo_files = [Data (wire ''1 2'' @ wire ''12'')]" "behind 11 [Data (wire ''1 2'' @ wire ''12'')] = [Data (wire ''12'')]"
    by (simp_all add: echo_files_def behind_data wire_facts)
  have "header_whole echo_files" "header_whole (behind 13 echo_files)" "header_whole (behind 11 (behind 13 echo_files))"
    unfolding b1 by (simp_all add: header_whole_def wire_facts echo_files_def)
  then show "heads_whole [''Copy.'', ''1 2'', ''12''] echo_files" by simp
qed (simp_all add: echo_files_def wire_facts)

lemma echo_server_facts:
  "ready (demo_conn [] 6 9) echo_server" "\<exists>u. users_heap echo_server 9 = Some u"
  "getProblem 1 echo_server = Some (demo_problem 1 ''Echo'' PROBLEM_VISIBLE)"
  "ins echo_server 6 = [Data echo_request]" "ocaps (outs echo_server 6) = []"
  "list_all2 (\<lambda>f d. files echo_server (problem_path 1 f) = Some d \<and> length d \<le> 10000000) problem_files [''Copy.'', ''1 2'', ''12'']"
proof -
  let ?g = "demo_guest\<lparr>ins := \<lambda>_. [Data echo_request]\<rparr>"
  have put: "silent s (put_file (problem_path 1 f) c s)" for s f c by (rule keeps_quiet) (rule frames, simp)
  have "silent demo_guest ?g" by (simp add: quiet_def core_def os.defs)
  then have si: "silent demo_guest echo_server"
    unfolding echo_server_def by (intro quiet_trans [OF quiet_trans [OF quiet_trans [OF _ put] put] put])
  show "ready (demo_conn [] 6 9) echo_server" "\<exists>u. users_heap echo_server 9 = Some u"
    using demo_guest_facts(1,4) silent_inv [OF si] by (auto simp: ready_def)
  have base: "problems_ok demo_base" using demo_base_facts(1) by (simp add: system_inv_def tables_inv_def problems_part_def)
  have rec: "getRecord fn sz mf demo_guest = getRecord fn sz mf demo_base" for fn sz mf
    by (rule getRecord_same) (simp_all add: demo_guest_def accept_user_def Let_def)
  have "getProblem 1 demo_base = Some (demo_problem 1 ''Echo'' PROBLEM_VISIBLE)"
    using problems.get_find [OF base, of 1] demo_base_facts(6) by (simp add: demo_problem_def)
  then show "getProblem 1 echo_server = Some (demo_problem 1 ''Echo'' PROBLEM_VISIBLE)"
    using quiet_lookup(2) [OF si, of 1] rec by (simp add: getProblem_def)
  show "ins echo_server 6 = [Data echo_request]" by (simp add: echo_server_def put_file_def)
  show "ocaps (outs echo_server 6) = []"
    by (simp add: echo_server_def put_file_def demo_guest_def accept_user_def Let_def demo_base_def demo_server_def demo_tables_def with_users_def idle_def)
  show "list_all2 (\<lambda>f d. files echo_server (problem_path 1 f) = Some d \<and> length d \<le> 10000000) problem_files [''Copy.'', ''1 2'', ''12'']"
    by (simp add: problem_files_def echo_server_def)
qed

theorem download_end_to_end_witness:
  "\<exists>k' s' reply c'. serve_request echo_env (demo_conn [] 6 9) echo_server = Some (Again, k', s')
    \<and> client_get_problem (reader\<lparr>cl_in := Data reply # echo_files\<rparr>) = Some (Next, c')
    \<and> map (files c') downloads = map Some [''Copy.'', ''1 2'', ''12'']"
proof -
  let ?k = "demo_conn [] 6 9"
  have k: "c_user ?k = 9" "c_socket ?k = 6" "c_buffer ?k = replicate 1000 (CHR 0x00)" by (simp_all add: demo_conn_def)
  obtain u where u: "users_heap echo_server (c_user ?k) = Some u" using echo_server_facts(2) k(1) by auto
  have may: "\<not> (us_privilege u = REGULAR_USER \<and> pr_visibility (demo_problem 1 ''Echo'' PROBLEM_VISIBLE) = PROBLEM_HIDDEN)"
    by (simp add: demo_problem_def)
  have side: "int_range 1" "0 \<le> c_socket ?k" "CHR 0x00 \<in> set (drop (length echo_request) (c_buffer ?k))"
    by (simp_all add: int_range_def k echo_request_def)
  have typed: "scan_int (stdin reader) = Some (Some 1, '' '')" "\<forall>p \<in> set downloads. creatable reader p"
      "ocaps (outs echo_server (c_socket ?k)) = []" "ins echo_server (c_socket ?k) = Data echo_request # []"
      "stream echo_files = wire ''Copy.'' @ wire ''1 2'' @ wire ''12'' @ []"
    using reader_facts(1) reader_simps echo_server_facts(4,5) k(2) echo_files_ok(3) by simp_all
  show ?thesis
    using download_end_to_end [OF typed(1) reader_simps(2,3) typed(2) reader_facts(2) side(1) echo_server_facts(1) u
        echo_server_facts(3) may echo_server_facts(6) side(2) typed(3) side(3) typed(4) echo_files_ok(1,2) typed(5), of echo_env] by blast
qed

theorem download_swallows_file_witness:
  "\<exists>c'. client_get_problem (reader\<lparr>cl_in := [Data (echo_answer @ wire ''Copy.''), Data (wire ''1 2'' @ wire ''12'')]\<rparr>) = Some (Next, c')
    \<and> files c' ''./tempProblemStatement.txt'' = Some ''1 2''"
proof -
  let ?c = "reader\<lparr>cl_in := [Data (echo_answer @ wire ''Copy.''), Data (wire ''1 2'' @ wire ''12'')]\<rparr>"
  have wf: "wf_Problem (demo_problem 1 ''Echo'' PROBLEM_VISIBLE)" by (simp add: demo_problem_def wf_Problem_def no_nul_def int_range_def)
  have heads: "heads_whole [''1 2'', ''12''] [Data (wire ''1 2'' @ wire ''12'')]" "clean [Data (wire ''1 2'' @ wire ''12'')]"
    by (simp_all add: header_whole_def behind_data wire_facts)
  have len: "length (echo_answer @ wire ''Copy.'') < 1000" by (simp add: echo_answer_def wire_facts)
  have one: "int_range 1" by (simp add: int_range_def)
  show ?thesis
    using download_swallows_file [where c = ?c, OF _ _ _ _ reader_facts(2) one wf reader_facts(3) len _ heads(2,1)]
      reader_facts(1) reader_simps by auto
qed

end
