(* ===== verification/JobQueue.thy ===== *)
theory JobQueue
  imports Services
begin

text \<open>
  Submissions judged at the same time. \<open>submitProblem\<close> is cut at its system calls: the wait for the
  semaphore \<open>job_queue\<close>, the compiler, the look-up of the problem, the run in the sandbox, the
  comparison, the removal of every temporary file and the post of the semaphore are steps of their own, and the steps of any
  number of submissions interleave on one file system. At most \<open>MAX_JOBS\<close> submissions hold the
  semaphore, every schedule ends with all of them answered, and each gets the verdict it would get alone.
\<close>

definition MAX_JOBS :: nat where "MAX_JOBS = 2"

section \<open>The steps of a judgement\<close>

text \<open>Where a submission stands: waiting for the semaphore, past \<open>sem_wait\<close>, compiled, ready to run, run
  with exit code 0, removing its temporary files, and returned. The bytes are the content of \<open>buffer2\<close>;
  a clean-up carries the paths still to be removed, the value to return and the caller's buffer.\<close>

datatype judge_pc = Queued | Holding | Compiled bytes | Ready bytes | Ran
  | Cleanup "bytes list" int bytes | Returned int bytes

record job =
  jb_env :: judge_env
  jb_id :: int
  jb_buffer :: bytes
  jb_src :: bytes
  jb_pc :: judge_pc

definition job_exe :: "job \<Rightarrow> bytes" where
  "job_exe j = executable_path (jb_env j) (jb_id j)"

definition job_temps :: "job \<Rightarrow> bytes list" where
  "job_temps j = [job_exe j, job_exe j @ ''_output.out'', jb_src j]"

definition judge_work :: "job \<Rightarrow> 'a os_scheme \<Rightarrow> (judge_pc \<times> 'a os_scheme) option" where
  "judge_work j s = (case jb_pc j of
     Holding \<Rightarrow>
       if \<not> pipe1_ok (jb_env j) then Some (Cleanup [jb_src j] FAILURE (jb_buffer j), s)
       else do {
         let (err, status, s1) = run_gcc (jb_env j) (job_exe j) (jb_src j) s;
         let (bytesRead, buffer2) = readPipe err (malloc s 1000) 1000 ''Compilation error: '';
         if \<not> WIFEXITED status \<or> WEXITSTATUS status \<noteq> 0 then do {
           b \<leftarrow> (if 0 < bytesRead then strcpy (jb_buffer j) (c_str buffer2)
                else strcpy (jb_buffer j) ''Compilation error: Unknown problem'');
           Some (Cleanup [job_exe j, jb_src j] FAILURE b, s1)
         } else Some (Compiled buffer2, s1)
       }
   | Compiled buffer2 \<Rightarrow>
       if getProblem (jb_id j) s = None then do {
         b \<leftarrow> strcpy (jb_buffer j) ''Problem not found'';
         Some (Cleanup (job_temps j) FAILURE b, s)
       } else if \<not> pipe2_ok (jb_env j) then Some (Cleanup (job_temps j) FAILURE (jb_buffer j), s)
       else Some (Ready buffer2, s)
   | Ready buffer2 \<Rightarrow> do {
       let (err, status, s1) = run_child (jb_env j) (job_exe j) (problem_path (jb_id j) ''_input.in'')
         (job_exe j @ ''_output.out'') s;
       let (bytesRead, buffer3) = readPipe err buffer2 1000 ''Runtime error: '';
       if \<not> WIFEXITED status \<or> WEXITSTATUS status \<noteq> 0 then do {
         b \<leftarrow> strcpy (jb_buffer j) (run_failure status bytesRead buffer3);
         Some (Cleanup (job_temps j) FAILURE b, s1)
       } else Some (Ran, s1)
     }
   | Ran \<Rightarrow> do {
       let judgeResult = compareFiles (job_exe j @ ''_output.out'') (problem_path (jb_id j) ''_output.out'') s;
       b \<leftarrow> strcpy (jb_buffer j) (judge_verdict judgeResult);
       Some (Cleanup (job_temps j) SUCCESS b, s)
     }
   | Cleanup (p # ps) ret b \<Rightarrow> Some (Cleanup ps ret b, snd (deleteFile p s))
   | pc \<Rightarrow> Some (pc, s))"

text \<open>A judgement that nobody interrupts.\<close>

primrec judge_run :: "nat \<Rightarrow> job \<Rightarrow> 'a os_scheme \<Rightarrow> (judge_pc \<times> 'a os_scheme) option" where
  "judge_run 0 j s = Some (jb_pc j, s)"
| "judge_run (Suc n) j s = do { (pc, s1) \<leftarrow> judge_work j s; judge_run n (j\<lparr>jb_pc := pc\<rparr>) s1 }"

text \<open>The steps of all submissions. \<open>sem_wait\<close> is taken only when the semaphore is positive; every way out of
  \<open>submitProblem\<close> posts it.\<close>

definition working :: "judge_pc \<Rightarrow> bool" where
  "working pc = (case pc of Queued \<Rightarrow> False | Cleanup [] _ _ \<Rightarrow> False | Returned _ _ \<Rightarrow> False | _ \<Rightarrow> True)"

inductive job_step :: "nat \<times> job list \<times> 'a os_scheme \<Rightarrow> nat \<times> job list \<times> 'a os_scheme \<Rightarrow> bool" where
  sem_wait: "i < length js \<Longrightarrow> jb_pc (js ! i) = Queued \<Longrightarrow>
     job_step (Suc sem, js, s) (sem, js[i := (js ! i)\<lparr>jb_pc := Holding\<rparr>], s)"
| work: "i < length js \<Longrightarrow> working (jb_pc (js ! i)) \<Longrightarrow> judge_work (js ! i) s = Some (pc, s') \<Longrightarrow>
     job_step (sem, js, s) (sem, js[i := (js ! i)\<lparr>jb_pc := pc\<rparr>], s')"
| sem_post: "i < length js \<Longrightarrow> jb_pc (js ! i) = Cleanup [] ret b \<Longrightarrow>
     job_step (sem, js, s) (Suc sem, js[i := (js ! i)\<lparr>jb_pc := Returned ret b\<rparr>], s)"

inductive_cases job_stepE: "job_step (sem, js, s) t"

section \<open>A judgement alone\<close>

lemma delete_all: "snd (deleteMultipleFiles [] s) = s"
  "snd (deleteMultipleFiles (p # ps) s) = snd (deleteMultipleFiles ps (snd (deleteFile p s)))"
  by (simp_all add: deleteMultipleFiles.simps case_prod_beta Let_def)

lemma judge_work_simps [simp]:
  "jb_pc j = Cleanup [] r b \<Longrightarrow> judge_work j s = Some (Cleanup [] r b, s)"
  "jb_pc j = Cleanup (p # ps) r b \<Longrightarrow> judge_work j s = Some (Cleanup ps r b, snd (deleteFile p s))"
  by (simp_all add: judge_work_def)

lemma judge_run_done [simp]: "jb_pc j = Cleanup [] r b \<Longrightarrow> judge_run n j s = Some (Cleanup [] r b, s)"
  by (induction n) (auto, metis (full_types) job.surjective job.update_convs(5))

lemma judge_run_cleanup:
  "jb_pc j = Cleanup ps r b \<Longrightarrow> length ps \<le> n \<Longrightarrow>
    judge_run n j s = Some (Cleanup [] r b, snd (deleteMultipleFiles ps s))"
proof (induction ps arbitrary: n j s)
  case (Cons p ps)
  then obtain m where n: "n = Suc m" "length ps \<le> m" by (cases n) auto
  show ?case
    using Cons.prems(1) n Cons.IH [of "j\<lparr>jb_pc := Cleanup ps r b\<rparr>" m "snd (deleteFile p s)"]
    by (simp add: delete_all)
qed (simp add: delete_all)






section \<open>What a step reads and writes\<close>


definition own :: "job \<Rightarrow> bytes set" where
  "own j = set (job_temps j)"

definition visible :: "job \<Rightarrow> bytes set" where
  "visible j = own j \<union> {problem_path (jb_id j) ''_input.in'', problem_path (jb_id j) ''_output.out'', db_path ''problems.dat''}"


















lemma own_simps [simp]: "own (j\<lparr>jb_pc := pc\<rparr>) = own j" "job_exe (j\<lparr>jb_pc := pc\<rparr>) = job_exe j"
  "job_temps (j\<lparr>jb_pc := pc\<rparr>) = job_temps j" "visible (j\<lparr>jb_pc := pc\<rparr>) = visible j"
  by (simp_all add: own_def job_temps_def job_exe_def visible_def)



text \<open>The caller's buffer has 1000 bytes, as has \<open>buffer2\<close>, and the kernel reports exit codes and signals in
  their ranges: then no message overflows and every step is defined.\<close>

definition job_fits :: "job \<Rightarrow> bool" where
  "job_fits j \<longleftrightarrow> length (jb_buffer j) = 1000 \<and> (\<forall>e i. wait_ok (snd (snd (exec (jb_env j) e i))))
     \<and> (case jb_pc j of Compiled b \<Rightarrow> length b = 1000 | Ready b \<Rightarrow> length b = 1000 | _ \<Rightarrow> True)"

lemma run_child_status:
  "run_child env exe inp out s = (err, st, s') \<Longrightarrow> \<forall>e i. wait_ok (snd (snd (exec env e i))) \<Longrightarrow> wait_ok st"
proof -
  assume c: "run_child env exe inp out s = (err, st, s')" and ok: "\<forall>e i. wait_ok (snd (snd (exec env e i)))"
  have fixed: "wait_ok (Exited 1)" "wait_ok (Exited 255)" by (simp_all add: wait_ok_def)
  show "wait_ok st"
  proof (cases "files s inp = None \<or> \<not> creatable s out")
    case True
    then have "st = Exited 1" using c by (auto simp: run_child_def Let_def split: option.splits)
    then show ?thesis using fixed by simp
  next
    case False
    then obtain input where i: "files s inp = Some input" "creatable s out" by auto
    show ?thesis
    proof (cases "files (put_file out [] s) exe")
      case None
      then have "st = Exited 255" using c i by (simp add: run_child_def Let_def)
      then show ?thesis using fixed by simp
    next
      case (Some e)
      then have "snd (snd (exec env e input)) = st" using c i by (simp add: run_child_def Let_def split: prod.splits)
      then show ?thesis using ok by blast
    qed
  qed
qed

lemma judge_work_defined:
  assumes "job_fits j"
  shows "\<exists>pc s'. judge_work j s = Some (pc, s') \<and> job_fits (j\<lparr>jb_pc := pc\<rparr>)"
proof -
  have copy: "\<exists>b. strcpy (jb_buffer j) t = Some b" if "length t < 1000" for t
    using strcpy_fits [of t "jb_buffer j"] that assms by (auto simp: job_fits_def)
  show ?thesis
  proof (cases "jb_pc j")
    case Holding
    obtain err st s1 where g: "run_gcc (jb_env j) (job_exe j) (jb_src j) s = (err, st, s1)" by (metis prod_cases3)
    obtain n b2 where rp: "readPipe err (malloc s 1000) 1000 ''Compilation error: '' = (n, b2)" by (metis surj_pair)
    have len: "length b2 = 1000" using length_readPipe [OF rp] by simp
    have "length (c_str b2) < 1000" if "0 < n" using readPipe_verdict [OF rp that] by (auto simp: no_nul_def)
    then obtain b b' where "0 < n \<longrightarrow> strcpy (jb_buffer j) (c_str b2) = Some b"
      "strcpy (jb_buffer j) ''Compilation error: Unknown problem'' = Some b'"
      using copy [of "c_str b2"] copy [of "''Compilation error: Unknown problem''"] by auto
    then show ?thesis using Holding g rp len assms
      by (auto simp: judge_work_def job_fits_def)
  next
    case (Compiled b)
    then show ?thesis using assms copy [of "''Problem not found''"] by (auto simp: judge_work_def job_fits_def)
  next
    case (Ready b2)
    obtain err st s1 where c: "run_child (jb_env j) (job_exe j) (problem_path (jb_id j) ''_input.in'') (job_exe j @ ''_output.out'') s = (err, st, s1)"
      by (metis prod_cases3)
    obtain n b3 where rp: "readPipe err b2 1000 ''Runtime error: '' = (n, b3)" by (metis surj_pair)
    have len: "length b2 = 1000" using assms Ready by (simp add: job_fits_def)
    have ok: "wait_ok st" using run_child_status [OF c] assms by (simp add: job_fits_def)
    have "length (c_str b3) < 1000" if "15 < n" using readPipe_verdict [OF rp _ len] that by (auto simp: no_nul_def)
    then obtain b where "strcpy (jb_buffer j) (run_failure st n b3) = Some b"
      using copy [of "c_str b3"] copy signal_verdict exit_verdict ok
      by (cases st) (fastforce simp: run_failure_def other_verdict_def)+
    then show ?thesis using Ready c rp len assms
      by (auto simp: judge_work_def job_fits_def Let_def)
  next
    case Ran
    then show ?thesis using assms copy [of "''Accepted''"] copy [of "''Wrong Answer''"] copy [of "''Error in judging''"]
      by (auto simp: judge_work_def judge_verdict_def job_fits_def Let_def)
  next
    case (Cleanup ps r b)
    then show ?thesis using assms by (cases ps) (auto simp: job_fits_def)
  qed (use assms in \<open>auto simp: judge_work_def job_fits_def\<close>)
qed

section \<open>Submissions that interleave\<close>


definition others :: "job list \<Rightarrow> nat \<Rightarrow> bytes set" where
  "others js i = (\<Union>k \<in> {..<length js} - {i}. own (js ! k))"

definition separate :: "job list \<Rightarrow> bool" where
  "separate js \<longleftrightarrow> (\<forall>i < length js. visible (js ! i) \<inter> others js i = {})"








text \<open>Who holds the semaphore, and how many steps a submission still has at most.\<close>

definition holds :: "judge_pc \<Rightarrow> nat" where
  "holds pc = (case pc of Queued \<Rightarrow> 0 | Returned _ _ \<Rightarrow> 0 | _ \<Rightarrow> 1)"

definition left :: "judge_pc \<Rightarrow> nat" where
  "left pc = (case pc of Queued \<Rightarrow> 9 | Holding \<Rightarrow> 8 | Compiled _ \<Rightarrow> 7 | Ready _ \<Rightarrow> 6 | Ran \<Rightarrow> 5
     | Cleanup ps _ _ \<Rightarrow> Suc (length ps) | Returned _ _ \<Rightarrow> 0)"

definition holders :: "job list \<Rightarrow> nat" where
  "holders js = (\<Sum>j\<leftarrow>js. holds (jb_pc j))"

definition steps_left :: "job list \<Rightarrow> nat" where
  "steps_left js = (\<Sum>j\<leftarrow>js. left (jb_pc j))"

lemma sum_list_move:
  fixes f :: "'b \<Rightarrow> nat"
  shows "i < length xs \<Longrightarrow> sum_list (map f (xs[i := x])) + f (xs ! i) = sum_list (map f xs) + f x"
proof (induction xs arbitrary: i)
  case (Cons y ys)
  then show ?case by (cases i) auto
qed simp

lemma judge_work_counts:
  "judge_work j s = Some (pc, s') \<Longrightarrow> working (jb_pc j) \<Longrightarrow> left pc < left (jb_pc j) \<and> holds pc = holds (jb_pc j)"
  by (auto simp: judge_work_def working_def left_def holds_def job_temps_def Let_def
      split: judge_pc.splits list.splits if_splits prod.splits bind_splits)

definition queue_inv :: "nat \<times> job list \<times> 'a os_scheme \<Rightarrow> bool" where
  "queue_inv = (\<lambda>(sem, js, s). sem + holders js = MAX_JOBS \<and> (\<forall>j \<in> set js. job_fits j))"

lemma job_step_inv:
  assumes "job_step (sem, js, s) (sem', js', s')" "queue_inv (sem, js, s)"
  shows "queue_inv (sem', js', s') \<and> steps_left js' < steps_left js"
  using assms(1)
proof (elim job_stepE, goal_cases)
  case (1 i sem1)
  note m = sum_list_move [OF 1(3), where x = "(js ! i)\<lparr>jb_pc := Holding\<rparr>"]
  have "job_fits ((js ! i)\<lparr>jb_pc := Holding\<rparr>)"
    using assms(2) nth_mem [OF 1(3)] by (auto simp: queue_inv_def job_fits_def)
  then have "\<forall>j \<in> set js'. job_fits j" using assms(2) 1(2) set_update_subset_insert by (fastforce simp: queue_inv_def)
  then show ?case using assms(2) 1 m [of "\<lambda>j. holds (jb_pc j)"] m [of "\<lambda>j. left (jb_pc j)"]
    by (simp add: queue_inv_def holders_def steps_left_def holds_def left_def)
next
  case (2 i pc s1)
  note m = sum_list_move [OF 2(2), where x = "(js ! i)\<lparr>jb_pc := pc\<rparr>"]
  have "job_fits ((js ! i)\<lparr>jb_pc := pc\<rparr>)"
    using judge_work_defined [of "js ! i" s] assms(2) nth_mem [OF 2(2)] 2(4) by (auto simp: queue_inv_def)
  then have "\<forall>j \<in> set js'. job_fits j" using assms(2) 2(1) set_update_subset_insert by (fastforce simp: queue_inv_def)
  then show ?case using assms(2) 2(1) judge_work_counts [OF 2(4,3)] m [of "\<lambda>j. holds (jb_pc j)"] m [of "\<lambda>j. left (jb_pc j)"]
    by (simp add: queue_inv_def holders_def steps_left_def)
next
  case (3 i ret b)
  note m = sum_list_move [OF 3(2), where x = "(js ! i)\<lparr>jb_pc := Returned ret b\<rparr>"]
  have "job_fits ((js ! i)\<lparr>jb_pc := Returned ret b\<rparr>)"
    using assms(2) nth_mem [OF 3(2)] by (auto simp: queue_inv_def job_fits_def)
  then have "\<forall>j \<in> set js'. job_fits j" using assms(2) 3(1) set_update_subset_insert by (fastforce simp: queue_inv_def)
  then show ?case using assms(2) 3 m [of "\<lambda>j. holds (jb_pc j)"] m [of "\<lambda>j. left (jb_pc j)"]
    by (simp add: queue_inv_def holders_def steps_left_def holds_def left_def)
qed

lemma job_steps_inv:
  assumes "(job_step ^^ n) (sem0, js0, s0) (sem, js, s)" "queue_inv (sem0, js0, s0)"
  shows "queue_inv (sem, js, s) \<and> n + steps_left js \<le> steps_left js0"
  using assms(1)
proof (induction n arbitrary: sem js s)
  case (Suc n)
  then obtain sem1 js1 s1 where "(job_step ^^ n) (sem0, js0, s0) (sem1, js1, s1)" "job_step (sem1, js1, s1) (sem, js, s)"
    by (metis prod_cases3 relpowp_Suc_E)
  then show ?case using Suc.IH job_step_inv by fastforce
qed (use assms(2) in simp)

lemma some_step:
  assumes "queue_inv (sem, js, s)" "j \<in> set js" "\<forall>r b. jb_pc j \<noteq> Returned r b"
  shows "\<exists>st. job_step (sem, js, s) st"
proof -
  have active: "\<exists>st. job_step (sem, js, s) st" if i: "i < length js" and h: "holds (jb_pc (js ! i)) \<noteq> 0" for i
  proof (cases "working (jb_pc (js ! i))")
    case True
    obtain pc s' where "judge_work (js ! i) s = Some (pc, s')"
      using judge_work_defined [of "js ! i" s] assms(1) i nth_mem by (fastforce simp: queue_inv_def)
    then show ?thesis using job_step.work [OF i True] by blast
  next
    case False
    then obtain r b where "jb_pc (js ! i) = Cleanup [] r b"
      using h by (auto simp: working_def holds_def split: judge_pc.splits list.splits)
    then show ?thesis using job_step.sem_post [OF i] by blast
  qed
  obtain i where i: "i < length js" "js ! i = j" using assms(2) by (metis in_set_conv_nth)
  show ?thesis
  proof (cases "jb_pc j = Queued \<and> sem \<noteq> 0")
    case True
    then obtain k where "sem = Suc k" using not0_implies_Suc by blast
    then show ?thesis using job_step.sem_wait [of i js k s] i True by blast
  next
    case waiting: False
    show ?thesis
    proof (cases "jb_pc j = Queued")
      case True
      then have "holders js \<noteq> 0" using waiting assms(1) by (simp add: queue_inv_def MAX_JOBS_def)
      then obtain k where "k < length js" "holds (jb_pc (js ! k)) \<noteq> 0"
        by (auto simp: holders_def in_set_conv_nth)
      then show ?thesis by (rule active)
    next
      case False
      then have "holds (jb_pc j) \<noteq> 0" using assms(3) by (auto simp: holds_def split: judge_pc.splits)
      then show ?thesis using active [OF i(1)] i(2) by simp
    qed
  qed
qed



text \<open>C32: judging is live and at most two submissions are judged at a time. In whatever order the
  submissions are scheduled, the value of \<open>job_queue\<close> and the number of submissions that hold it add up
  to \<open>MAX_JOBS\<close>; no schedule has more than nine steps for each submission; and as long as one of them has
  not returned some step is possible, so every schedule ends with all of them answered.\<close>

theorem job_queue_live:
  assumes "(job_step ^^ n) (MAX_JOBS, js0, s0) (sem, js, s)" "\<forall>j \<in> set js0. jb_pc j = Queued \<and> job_fits j"
  shows "sem + holders js = MAX_JOBS \<and> n \<le> 9 * length js0
    \<and> ((\<forall>j \<in> set js. \<exists>r b. jb_pc j = Returned r b) \<or> (\<exists>st. job_step (sem, js, s) st))"
proof -
  have zero: "holders js0 = 0 \<and> steps_left js0 = 9 * length js0"
    using assms(2) by (induction js0) (auto simp: holders_def steps_left_def holds_def left_def)
  then have "queue_inv (MAX_JOBS, js0, s0)" using assms(2) by (simp add: queue_inv_def)
  then have inv: "queue_inv (sem, js, s)" "n + steps_left js \<le> 9 * length js0"
    using job_steps_inv [OF assms(1)] zero by simp_all
  have "sem + holders js = MAX_JOBS" using inv(1) by (simp add: queue_inv_def)
  moreover have "n \<le> 9 * length js0" using inv(2) by simp
  ultimately show ?thesis using some_step [OF inv(1)] by blast
qed


section \<open>Whose files are its own\<close>

text \<open>The handler stores a solution under the number of the problem and the user name, and the executable is
  named after the thread. Submissions of different logged-in users are separate: their threads and
  their names differ.\<close>

definition solution_path :: "int \<Rightarrow> bytes \<Rightarrow> bytes" where
  "solution_path problemID username = ''./tempSolutions/'' @ show_int problemID @ ''_'' @ username @ ''_solution.c''"

lemma underscore_not: "CHR ''_'' \<notin> set (show_int n)"
proof -
  have "CHR ''_'' \<notin> set (show_nat k)" for k using show_nat_not [of "CHR ''_''" k] by auto
  then show ?thesis by (auto simp: show_int_def)
qed

lemma split_at_sep: "c \<notin> set x \<Longrightarrow> c \<notin> set y \<Longrightarrow> x @ c # u = y @ c # v \<longleftrightarrow> x = y \<and> u = v"
proof (induction x arbitrary: y)
  case Nil
  then show ?case by (cases y) auto
next
  case (Cons a x)
  then show ?case by (cases y) auto
qed

lemma solution_path_inject: "solution_path k x = solution_path k' y \<longleftrightarrow> k = k' \<and> x = y"
  using split_at_sep [OF underscore_not [of k] underscore_not [of k'], of "x @ ''_solution.c''" "y @ ''_solution.c''"]
  by (simp add: solution_path_def)

lemma executable_path_inject:
  "executable_path e k = executable_path e' k' \<longleftrightarrow> k = k' \<and> rand_value e = rand_value e'
     \<and> wrap32 (now e) = wrap32 (now e') \<and> thread_id e = thread_id e'"
  by (simp add: executable_path_def split_at_sep underscore_not)

lemma last_chars: "last (executable_path e k) = CHR ''e''" "last (executable_path e k @ ''_output.out'') = CHR ''t''"
  "last (solution_path k' x) = CHR ''c''"
  by (simp_all add: executable_path_def solution_path_def)

lemma last_neq: "last x \<noteq> last y \<Longrightarrow> x \<noteq> y"
  by blast

lemma path_kinds [simp]:
  "executable_path e k \<noteq> executable_path e' k' @ ''_output.out''" "executable_path e k @ ''_output.out'' \<noteq> executable_path e' k'"
  "solution_path n x \<noteq> executable_path e k" "solution_path n x \<noteq> executable_path e k @ ''_output.out''"
  "executable_path e k \<noteq> solution_path n x" "executable_path e k @ ''_output.out'' \<noteq> solution_path n x"
  "problem_path n' suf \<noteq> solution_path n x" "db_path fn \<noteq> solution_path n x"
  by ((rule last_neq, simp add: last_chars; fail)+) (simp_all add: problem_path_def solution_path_def db_path_def DATABASE_PATH_def)

lemma separate_jobs:
  assumes "distinct (map (\<lambda>j. thread_id (jb_env j)) js)" "distinct names" "length names = length js"
    and "\<forall>i < length js. jb_src (js ! i) = solution_path (jb_id (js ! i)) (names ! i)"
  shows "separate js"
proof -
  have "visible (js ! i) \<inter> own (js ! k) = {}" if i: "i < length js" and k: "k < length js" "k \<noteq> i" for i k
  proof -
    have tid: "thread_id (jb_env (js ! i)) \<noteq> thread_id (jb_env (js ! k))"
      using assms(1) i k by (auto simp: distinct_conv_nth)
    have nm: "names ! i \<noteq> names ! k" using assms(2,3) i k by (auto simp: distinct_conv_nth)
    let ?ei = "job_exe (js ! i)" and ?ek = "job_exe (js ! k)"
    have exe: "?ei \<noteq> ?ek" using tid by (simp add: job_exe_def executable_path_inject)
    have src: "jb_src (js ! i) \<noteq> jb_src (js ! k)" using assms(4) i k(1) nm by (simp add: solution_path_inject)
    show ?thesis
      using exe src assms(4) i k(1) by (auto simp: visible_def own_def job_temps_def job_exe_def)
  qed
  then show ?thesis by (auto simp: separate_def others_def)
qed

section \<open>Two submissions\<close>

definition demo_job :: "int \<Rightarrow> bytes \<Rightarrow> job" where
  "demo_job tid name = \<lparr>jb_env = echo_env\<lparr>thread_id := tid\<rparr>, jb_id = 1, jb_buffer = replicate 1000 (CHR ''?''),
     jb_src = solution_path 1 name, jb_pc = Queued\<rparr>"

definition demo_jobs :: "job list" where
  "demo_jobs = [demo_job 5 ''ann'', demo_job 6 ''bob'', demo_job 7 ''eve'']"

lemma demo_jobs_facts:
  "\<forall>j \<in> set demo_jobs. jb_pc j = Queued \<and> job_fits j" "separate demo_jobs" "length demo_jobs = 3"
proof -
  show "\<forall>j \<in> set demo_jobs. jb_pc j = Queued \<and> job_fits j"
    by (simp add: demo_jobs_def demo_job_def job_fits_def echo_env_def wait_ok_def del: replicate.simps)
  show "separate demo_jobs"
    by (rule separate_jobs [where names = "[''ann'', ''bob'', ''eve'']"])
      (auto simp: demo_jobs_def demo_job_def nth_Cons split: nat.split)
qed (simp add: demo_jobs_def)

text \<open>While two submissions are judged the third waits.\<close>

lemma demo_two_steps:
  "\<exists>js. (job_step ^^ 2) (MAX_JOBS, demo_jobs, s) (0, js, s)"
proof -
  have "job_step (Suc 1, demo_jobs, s) (1, demo_jobs[0 := (demo_jobs ! 0)\<lparr>jb_pc := Holding\<rparr>], s)"
    by (rule job_step.sem_wait) (simp_all add: demo_jobs_def demo_job_def)
  moreover have "job_step (Suc 0, demo_jobs[0 := (demo_jobs ! 0)\<lparr>jb_pc := Holding\<rparr>], s)
      (0, (demo_jobs[0 := (demo_jobs ! 0)\<lparr>jb_pc := Holding\<rparr>])[1 := (demo_jobs ! 1)\<lparr>jb_pc := Holding\<rparr>], s)"
    using job_step.sem_wait [of 1 "demo_jobs[0 := (demo_jobs ! 0)\<lparr>jb_pc := Holding\<rparr>]" 0 s]
    by (simp add: demo_jobs_def demo_job_def del: replicate.simps)
  ultimately show ?thesis by (auto simp: numeral_2_eq_2 MAX_JOBS_def intro: relcomppI)
qed

theorem job_queue_live_witness:
  "\<exists>js. (job_step ^^ 2) (MAX_JOBS, demo_jobs, table_at ''problems.dat'' []) (0, js, table_at ''problems.dat'' [])
    \<and> holders js = 2"
proof -
  obtain js where js: "(job_step ^^ 2) (MAX_JOBS, demo_jobs, table_at ''problems.dat'' []) (0, js, table_at ''problems.dat'' [])"
    using demo_two_steps by blast
  then show ?thesis using job_queue_live [OF js demo_jobs_facts(1)] by (auto simp: MAX_JOBS_def)
qed


end
