(* ===== verification/CJsonNodes.thy ===== *)
theory CJsonNodes
  imports CJson
begin

text \<open>
  The nodes behind the trees of \<open>CJson\<close>: \<open>Utility/cJSON.c\<close> keeps the children of an array or object in a
  doubly linked list whose first node's \<open>prev\<close> points to the last one. Nodes and strings live in a
  memory; reading or freeing what is not allocated is undefined (\<open>None\<close>), as is a loop that does not end.
  \<open>malloc\<close> always succeeds and never returns an address twice. A \<open>const char*\<close> argument is the address
  of its text.
\<close>

unbundle bit_operations_syntax

type_synonym ptr = "nat option"

record node =
  nd_next :: ptr
  nd_prev :: ptr
  nd_child :: ptr
  nd_type :: int
  nd_valuestring :: ptr
  nd_valueint :: int
  nd_valuedouble :: rat
  nd_string :: ptr

record memory =
  nodes :: "nat \<rightharpoonup> node"
  texts :: "nat \<rightharpoonup> bytes"
  brk :: nat

abbreviation (input) cJSON_Invalid_t :: int where "cJSON_Invalid_t \<equiv> 0"
abbreviation (input) cJSON_False_t :: int where "cJSON_False_t \<equiv> 1"
abbreviation (input) cJSON_True_t :: int where "cJSON_True_t \<equiv> 2"
abbreviation (input) cJSON_NULL_t :: int where "cJSON_NULL_t \<equiv> 4"
abbreviation (input) cJSON_Number_t :: int where "cJSON_Number_t \<equiv> 8"
abbreviation (input) cJSON_String_t :: int where "cJSON_String_t \<equiv> 16"
abbreviation (input) cJSON_Array_t :: int where "cJSON_Array_t \<equiv> 32"
abbreviation (input) cJSON_Object_t :: int where "cJSON_Object_t \<equiv> 64"
abbreviation (input) cJSON_Raw_t :: int where "cJSON_Raw_t \<equiv> 128"
abbreviation (input) cJSON_IsReference :: int where "cJSON_IsReference \<equiv> 256"
abbreviation (input) cJSON_StringIsConst :: int where "cJSON_StringIsConst \<equiv> 512"

section \<open>Memory\<close>

definition load :: "ptr \<Rightarrow> memory \<Rightarrow> node option" where
  "load p m = Option.bind p (nodes m)"

definition store :: "ptr \<Rightarrow> (node \<Rightarrow> node) \<Rightarrow> memory \<Rightarrow> memory option" where
  "store p f m = do { a \<leftarrow> p; n \<leftarrow> nodes m a; Some (m\<lparr>nodes := (nodes m)(a \<mapsto> f n)\<rparr>) }"

definition zero_node :: node where
  "zero_node = \<lparr>nd_next = None, nd_prev = None, nd_child = None, nd_type = 0, nd_valuestring = None, nd_valueint = 0,
     nd_valuedouble = 0, nd_string = None\<rparr>"

definition cJSON_New_Item :: "memory \<Rightarrow> ptr \<times> memory" where
  "cJSON_New_Item m = (Some (brk m), m\<lparr>nodes := (nodes m)(brk m \<mapsto> zero_node), brk := Suc (brk m)\<rparr>)"

definition cJSON_strdup :: "ptr \<Rightarrow> memory \<Rightarrow> (ptr \<times> memory) option" where
  "cJSON_strdup string m = (case string of None \<Rightarrow> Some (None, m)
     | Some t \<Rightarrow> do { s \<leftarrow> texts m t; Some (Some (brk m), m\<lparr>texts := (texts m)(brk m \<mapsto> s), brk := Suc (brk m)\<rparr>) })"

definition free_text :: "ptr \<Rightarrow> memory \<Rightarrow> memory option" where
  "free_text p m = (case p of None \<Rightarrow> Some m
     | Some t \<Rightarrow> if texts m t = None then None else Some (m\<lparr>texts := (texts m)(t := None)\<rparr>))"

definition free_node :: "ptr \<Rightarrow> memory \<Rightarrow> memory option" where
  "free_node p m = (case p of None \<Rightarrow> Some m
     | Some a \<Rightarrow> if nodes m a = None then None else Some (m\<lparr>nodes := (nodes m)(a := None)\<rparr>))"

partial_function (option) cJSON_Delete :: "ptr \<Rightarrow> memory \<Rightarrow> memory option" where
  "cJSON_Delete item m = (if item = None then Some m else do {
     n \<leftarrow> load item m;
     let next = nd_next n;
     m1 \<leftarrow> (if nd_type n AND cJSON_IsReference = 0 \<and> nd_child n \<noteq> None then cJSON_Delete (nd_child n) m else Some m);
     n1 \<leftarrow> load item m1;
     m2 \<leftarrow> (if nd_type n1 AND cJSON_IsReference = 0 then free_text (nd_valuestring n1) m1 else Some m1);
     n2 \<leftarrow> load item m2;
     m3 \<leftarrow> (if nd_type n2 AND cJSON_StringIsConst = 0 then free_text (nd_string n2) m2 else Some m2);
     m4 \<leftarrow> free_node item m3;
     cJSON_Delete next m4
   })"

section \<open>Creating items\<close>

definition new_typed :: "int \<Rightarrow> memory \<Rightarrow> ptr \<times> memory" where
  "new_typed t m = (Some (brk m), m\<lparr>nodes := (nodes m)(brk m \<mapsto> zero_node\<lparr>nd_type := t\<rparr>), brk := Suc (brk m)\<rparr>)"

definition cJSON_CreateNull_n :: "memory \<Rightarrow> ptr \<times> memory" where
  "cJSON_CreateNull_n = new_typed cJSON_NULL_t"

definition cJSON_CreateTrue_n :: "memory \<Rightarrow> ptr \<times> memory" where
  "cJSON_CreateTrue_n = new_typed cJSON_True_t"

definition cJSON_CreateFalse_n :: "memory \<Rightarrow> ptr \<times> memory" where
  "cJSON_CreateFalse_n = new_typed cJSON_False_t"

definition cJSON_CreateBool_n :: "bool \<Rightarrow> memory \<Rightarrow> ptr \<times> memory" where
  "cJSON_CreateBool_n boolean = new_typed (if boolean then cJSON_True_t else cJSON_False_t)"

definition cJSON_CreateArray_n :: "memory \<Rightarrow> ptr \<times> memory" where
  "cJSON_CreateArray_n = new_typed cJSON_Array_t"

definition cJSON_CreateObject_n :: "memory \<Rightarrow> ptr \<times> memory" where
  "cJSON_CreateObject_n = new_typed cJSON_Object_t"

definition cJSON_CreateNumber_n :: "rat \<Rightarrow> memory \<Rightarrow> ptr \<times> memory" where
  "cJSON_CreateNumber_n num m = (Some (brk m), m\<lparr>nodes := (nodes m)(brk m \<mapsto>
     zero_node\<lparr>nd_type := cJSON_Number_t, nd_valuedouble := num, nd_valueint := valueint num\<rparr>), brk := Suc (brk m)\<rparr>)"

text \<open>A \<open>NULL\<close> string makes \<open>cJSON_strdup\<close> return \<open>NULL\<close>, and the new item is deleted again.\<close>

definition new_string :: "int \<Rightarrow> ptr \<Rightarrow> memory \<Rightarrow> (ptr \<times> memory) option" where
  "new_string t string m = do {
     let (item, m1) = new_typed t m;
     (copy, m2) \<leftarrow> cJSON_strdup string m1;
     m3 \<leftarrow> store item (\<lambda>n. n\<lparr>nd_valuestring := copy\<rparr>) m2;
     if copy = None then do { m4 \<leftarrow> cJSON_Delete item m3; Some (None, m4) } else Some (item, m3)
   }"

definition cJSON_CreateString_n :: "ptr \<Rightarrow> memory \<Rightarrow> (ptr \<times> memory) option" where
  "cJSON_CreateString_n = new_string cJSON_String_t"

definition cJSON_CreateRaw_n :: "ptr \<Rightarrow> memory \<Rightarrow> (ptr \<times> memory) option" where
  "cJSON_CreateRaw_n = new_string cJSON_Raw_t"

text \<open>References share what they point to; \<open>cJSON_Delete\<close> leaves it alone.\<close>

definition cJSON_CreateStringReference_n :: "ptr \<Rightarrow> memory \<Rightarrow> (ptr \<times> memory) option" where
  "cJSON_CreateStringReference_n string m = (let (item, m1) = new_typed (cJSON_String_t OR cJSON_IsReference) m
     in do { m2 \<leftarrow> store item (\<lambda>n. n\<lparr>nd_valuestring := string\<rparr>) m1; Some (item, m2) })"

definition cJSON_CreateObjectReference_n :: "ptr \<Rightarrow> memory \<Rightarrow> (ptr \<times> memory) option" where
  "cJSON_CreateObjectReference_n child m = (let (item, m1) = new_typed (cJSON_Object_t OR cJSON_IsReference) m
     in do { m2 \<leftarrow> store item (\<lambda>n. n\<lparr>nd_child := child\<rparr>) m1; Some (item, m2) })"

definition cJSON_CreateArrayReference_n :: "ptr \<Rightarrow> memory \<Rightarrow> (ptr \<times> memory) option" where
  "cJSON_CreateArrayReference_n child m = (let (item, m1) = new_typed (cJSON_Array_t OR cJSON_IsReference) m
     in do { m2 \<leftarrow> store item (\<lambda>n. n\<lparr>nd_child := child\<rparr>) m1; Some (item, m2) })"

definition create_reference :: "ptr \<Rightarrow> memory \<Rightarrow> (ptr \<times> memory) option" where
  "create_reference item m = (if item = None then Some (None, m) else do {
     n \<leftarrow> load item m;
     let (reference, m1) = cJSON_New_Item m;
     m2 \<leftarrow> store reference (\<lambda>_. n\<lparr>nd_string := None, nd_type := nd_type n OR cJSON_IsReference, nd_next := None, nd_prev := None\<rparr>) m1;
     Some (reference, m2)
   })"

section \<open>Looking at children\<close>

partial_function (option) count_items :: "ptr \<Rightarrow> nat \<Rightarrow> memory \<Rightarrow> nat option" where
  "count_items child k m = (if child = None then Some k
     else do { n \<leftarrow> load child m; count_items (nd_next n) (Suc k) m })"

definition cJSON_GetArraySize :: "ptr \<Rightarrow> memory \<Rightarrow> int option" where
  "cJSON_GetArraySize array m = (if array = None then Some 0
     else do { a \<leftarrow> load array m; k \<leftarrow> count_items (nd_child a) 0 m; Some (wrap32 (int k)) })"

primrec skip_items :: "nat \<Rightarrow> ptr \<Rightarrow> memory \<Rightarrow> ptr option" where
  "skip_items 0 current_child m = Some current_child"
| "skip_items (Suc index) current_child m = (if current_child = None then Some None
     else do { n \<leftarrow> load current_child m; skip_items index (nd_next n) m })"

definition get_array_item :: "ptr \<Rightarrow> nat \<Rightarrow> memory \<Rightarrow> ptr option" where
  "get_array_item array index m = (if array = None then Some None
     else do { a \<leftarrow> load array m; skip_items index (nd_child a) m })"

definition cJSON_GetArrayItem_n :: "ptr \<Rightarrow> int \<Rightarrow> memory \<Rightarrow> ptr option" where
  "cJSON_GetArrayItem_n array index m = (if index < 0 then Some None else get_array_item array (nat index) m)"

text \<open>The two search loops: with case, an item without a name ends the search; without case it is passed.\<close>

partial_function (option) find_item :: "bool \<Rightarrow> bytes \<Rightarrow> ptr \<Rightarrow> memory \<Rightarrow> ptr option" where
  "find_item case_sensitive name current_element m = (if current_element = None then Some None else do {
     n \<leftarrow> load current_element m;
     if nd_string n = None then (if case_sensitive then Some None else find_item case_sensitive name (nd_next n) m)
     else do {
       t \<leftarrow> nd_string n;
       s \<leftarrow> texts m t;
       if (if case_sensitive then name = s else case_insensitive_eq name s) then Some current_element
       else find_item case_sensitive name (nd_next n) m
     }
   })"

definition get_object_item :: "ptr \<Rightarrow> ptr \<Rightarrow> bool \<Rightarrow> memory \<Rightarrow> ptr option" where
  "get_object_item object name case_sensitive m = (if object = None \<or> name = None then Some None else do {
     a \<leftarrow> load object m;
     t \<leftarrow> name;
     s \<leftarrow> texts m t;
     find_item case_sensitive s (nd_child a) m
   })"

definition cJSON_GetObjectItem_n :: "ptr \<Rightarrow> ptr \<Rightarrow> memory \<Rightarrow> ptr option" where
  "cJSON_GetObjectItem_n object string m = get_object_item object string False m"

definition cJSON_GetObjectItemCaseSensitive :: "ptr \<Rightarrow> ptr \<Rightarrow> memory \<Rightarrow> ptr option" where
  "cJSON_GetObjectItemCaseSensitive object string m = get_object_item object string True m"

definition cJSON_HasObjectItem :: "ptr \<Rightarrow> ptr \<Rightarrow> memory \<Rightarrow> bool option" where
  "cJSON_HasObjectItem object string m = map_option (\<lambda>p. p \<noteq> None) (cJSON_GetObjectItem_n object string m)"

section \<open>Adding\<close>

definition suffix_object :: "ptr \<Rightarrow> ptr \<Rightarrow> memory \<Rightarrow> memory option" where
  "suffix_object prev item m = do {
     m1 \<leftarrow> store prev (\<lambda>n. n\<lparr>nd_next := item\<rparr>) m;
     store item (\<lambda>n. n\<lparr>nd_prev := prev\<rparr>) m1
   }"

definition add_item_to_array :: "ptr \<Rightarrow> ptr \<Rightarrow> memory \<Rightarrow> (bool \<times> memory) option" where
  "add_item_to_array array item m = (if item = None \<or> array = None \<or> array = item then Some (False, m) else do {
     a \<leftarrow> load array m;
     let child = nd_child a;
     if child = None then do {
       m1 \<leftarrow> store array (\<lambda>n. n\<lparr>nd_child := item\<rparr>) m;
       m2 \<leftarrow> store item (\<lambda>n. n\<lparr>nd_prev := item, nd_next := None\<rparr>) m1;
       Some (True, m2)
     } else do {
       c \<leftarrow> load child m;
       if nd_prev c = None then Some (True, m)
       else do {
         m1 \<leftarrow> suffix_object (nd_prev c) item m;
         a1 \<leftarrow> load array m1;
         m2 \<leftarrow> store (nd_child a1) (\<lambda>n. n\<lparr>nd_prev := item\<rparr>) m1;
         Some (True, m2)
       }
     }
   })"

definition cJSON_AddItemToArray_n :: "ptr \<Rightarrow> ptr \<Rightarrow> memory \<Rightarrow> (bool \<times> memory) option" where
  "cJSON_AddItemToArray_n array item m = add_item_to_array array item m"

definition add_item_to_object :: "ptr \<Rightarrow> ptr \<Rightarrow> ptr \<Rightarrow> bool \<Rightarrow> memory \<Rightarrow> (bool \<times> memory) option" where
  "add_item_to_object object string item constant_key m =
     (if object = None \<or> string = None \<or> item = None \<or> object = item then Some (False, m) else do {
        (new_key, m1) \<leftarrow> (if constant_key then Some (string, m) else cJSON_strdup string m);
        i \<leftarrow> load item m1;
        let new_type = (if constant_key then nd_type i OR cJSON_StringIsConst else nd_type i AND NOT cJSON_StringIsConst);
        m2 \<leftarrow> (if nd_type i AND cJSON_StringIsConst = 0 then free_text (nd_string i) m1 else Some m1);
        m3 \<leftarrow> store item (\<lambda>n. n\<lparr>nd_string := new_key, nd_type := new_type\<rparr>) m2;
        add_item_to_array object item m3
      })"

definition cJSON_AddItemToObject_n :: "ptr \<Rightarrow> ptr \<Rightarrow> ptr \<Rightarrow> memory \<Rightarrow> (bool \<times> memory) option" where
  "cJSON_AddItemToObject_n object string item m = add_item_to_object object string item False m"

definition cJSON_AddItemToObjectCS :: "ptr \<Rightarrow> ptr \<Rightarrow> ptr \<Rightarrow> memory \<Rightarrow> (bool \<times> memory) option" where
  "cJSON_AddItemToObjectCS object string item m = add_item_to_object object string item True m"

definition cJSON_AddItemReferenceToArray :: "ptr \<Rightarrow> ptr \<Rightarrow> memory \<Rightarrow> (bool \<times> memory) option" where
  "cJSON_AddItemReferenceToArray array item m = (if array = None then Some (False, m)
     else do { (reference, m1) \<leftarrow> create_reference item m; add_item_to_array array reference m1 })"

definition cJSON_AddItemReferenceToObject :: "ptr \<Rightarrow> ptr \<Rightarrow> ptr \<Rightarrow> memory \<Rightarrow> (bool \<times> memory) option" where
  "cJSON_AddItemReferenceToObject object string item m = (if object = None \<or> string = None then Some (False, m)
     else do { (reference, m1) \<leftarrow> create_reference item m; add_item_to_object object string reference False m1 })"

text \<open>A new item is added, or deleted again when it cannot be added.\<close>

definition add_or_delete :: "ptr \<Rightarrow> ptr \<Rightarrow> ptr \<times> memory \<Rightarrow> (ptr \<times> memory) option" where
  "add_or_delete object name new = do {
     let (item, m) = new;
     (added, m1) \<leftarrow> add_item_to_object object name item False m;
     if added then Some (item, m1) else do { m2 \<leftarrow> cJSON_Delete item m1; Some (None, m2) }
   }"

definition cJSON_AddNullToObject :: "ptr \<Rightarrow> ptr \<Rightarrow> memory \<Rightarrow> (ptr \<times> memory) option" where
  "cJSON_AddNullToObject object name m = add_or_delete object name (cJSON_CreateNull_n m)"

definition cJSON_AddTrueToObject :: "ptr \<Rightarrow> ptr \<Rightarrow> memory \<Rightarrow> (ptr \<times> memory) option" where
  "cJSON_AddTrueToObject object name m = add_or_delete object name (cJSON_CreateTrue_n m)"

definition cJSON_AddFalseToObject :: "ptr \<Rightarrow> ptr \<Rightarrow> memory \<Rightarrow> (ptr \<times> memory) option" where
  "cJSON_AddFalseToObject object name m = add_or_delete object name (cJSON_CreateFalse_n m)"

definition cJSON_AddBoolToObject :: "ptr \<Rightarrow> ptr \<Rightarrow> bool \<Rightarrow> memory \<Rightarrow> (ptr \<times> memory) option" where
  "cJSON_AddBoolToObject object name boolean m = add_or_delete object name (cJSON_CreateBool_n boolean m)"

definition cJSON_AddNumberToObject_n :: "ptr \<Rightarrow> ptr \<Rightarrow> rat \<Rightarrow> memory \<Rightarrow> (ptr \<times> memory) option" where
  "cJSON_AddNumberToObject_n object name number m = add_or_delete object name (cJSON_CreateNumber_n number m)"

definition cJSON_AddStringToObject_n :: "ptr \<Rightarrow> ptr \<Rightarrow> ptr \<Rightarrow> memory \<Rightarrow> (ptr \<times> memory) option" where
  "cJSON_AddStringToObject_n object name string m = do {
     new \<leftarrow> cJSON_CreateString_n string m; add_or_delete object name new }"

definition cJSON_AddRawToObject :: "ptr \<Rightarrow> ptr \<Rightarrow> ptr \<Rightarrow> memory \<Rightarrow> (ptr \<times> memory) option" where
  "cJSON_AddRawToObject object name raw m = do {
     new \<leftarrow> cJSON_CreateRaw_n raw m; add_or_delete object name new }"

definition cJSON_AddObjectToObject :: "ptr \<Rightarrow> ptr \<Rightarrow> memory \<Rightarrow> (ptr \<times> memory) option" where
  "cJSON_AddObjectToObject object name m = add_or_delete object name (cJSON_CreateObject_n m)"

definition cJSON_AddArrayToObject :: "ptr \<Rightarrow> ptr \<Rightarrow> memory \<Rightarrow> (ptr \<times> memory) option" where
  "cJSON_AddArrayToObject object name m = add_or_delete object name (cJSON_CreateArray_n m)"

section \<open>Detaching, inserting and replacing\<close>

definition cJSON_DetachItemViaPointer :: "ptr \<Rightarrow> ptr \<Rightarrow> memory \<Rightarrow> (ptr \<times> memory) option" where
  "cJSON_DetachItemViaPointer parent item m = (if parent = None \<or> item = None then Some (None, m) else do {
     p \<leftarrow> load parent m;
     i \<leftarrow> load item m;
     if item \<noteq> nd_child p \<and> nd_prev i = None then Some (None, m)
     else do {
       m1 \<leftarrow> (if item \<noteq> nd_child p then store (nd_prev i) (\<lambda>n. n\<lparr>nd_next := nd_next i\<rparr>) m else Some m);
       i1 \<leftarrow> load item m1;
       m2 \<leftarrow> (if nd_next i1 \<noteq> None then store (nd_next i1) (\<lambda>n. n\<lparr>nd_prev := nd_prev i1\<rparr>) m1 else Some m1);
       p2 \<leftarrow> load parent m2;
       i2 \<leftarrow> load item m2;
       m3 \<leftarrow> (if item = nd_child p2 then store parent (\<lambda>n. n\<lparr>nd_child := nd_next i2\<rparr>) m2
             else if nd_next i2 = None then store (nd_child p2) (\<lambda>n. n\<lparr>nd_prev := nd_prev i2\<rparr>) m2
             else Some m2);
       m4 \<leftarrow> store item (\<lambda>n. n\<lparr>nd_prev := None, nd_next := None\<rparr>) m3;
       Some (item, m4)
     }
   })"

definition cJSON_DetachItemFromArray :: "ptr \<Rightarrow> int \<Rightarrow> memory \<Rightarrow> (ptr \<times> memory) option" where
  "cJSON_DetachItemFromArray array which m = (if which < 0 then Some (None, m)
     else do { item \<leftarrow> get_array_item array (nat which) m; cJSON_DetachItemViaPointer array item m })"

definition cJSON_DeleteItemFromArray :: "ptr \<Rightarrow> int \<Rightarrow> memory \<Rightarrow> memory option" where
  "cJSON_DeleteItemFromArray array which m = do { (item, m1) \<leftarrow> cJSON_DetachItemFromArray array which m; cJSON_Delete item m1 }"

definition cJSON_DetachItemFromObject :: "ptr \<Rightarrow> ptr \<Rightarrow> memory \<Rightarrow> (ptr \<times> memory) option" where
  "cJSON_DetachItemFromObject object string m = do {
     to_detach \<leftarrow> cJSON_GetObjectItem_n object string m; cJSON_DetachItemViaPointer object to_detach m }"

definition cJSON_DetachItemFromObjectCaseSensitive :: "ptr \<Rightarrow> ptr \<Rightarrow> memory \<Rightarrow> (ptr \<times> memory) option" where
  "cJSON_DetachItemFromObjectCaseSensitive object string m = do {
     to_detach \<leftarrow> cJSON_GetObjectItemCaseSensitive object string m; cJSON_DetachItemViaPointer object to_detach m }"

definition cJSON_DeleteItemFromObject :: "ptr \<Rightarrow> ptr \<Rightarrow> memory \<Rightarrow> memory option" where
  "cJSON_DeleteItemFromObject object string m = do {
     (item, m1) \<leftarrow> cJSON_DetachItemFromObject object string m; cJSON_Delete item m1 }"

definition cJSON_DeleteItemFromObjectCaseSensitive :: "ptr \<Rightarrow> ptr \<Rightarrow> memory \<Rightarrow> memory option" where
  "cJSON_DeleteItemFromObjectCaseSensitive object string m = do {
     (item, m1) \<leftarrow> cJSON_DetachItemFromObjectCaseSensitive object string m; cJSON_Delete item m1 }"

definition cJSON_InsertItemInArray :: "ptr \<Rightarrow> int \<Rightarrow> ptr \<Rightarrow> memory \<Rightarrow> (bool \<times> memory) option" where
  "cJSON_InsertItemInArray array which newitem m = (if which < 0 \<or> newitem = None then Some (False, m) else do {
     after_inserted \<leftarrow> get_array_item array (nat which) m;
     if after_inserted = None then add_item_to_array array newitem m
     else do {
       a \<leftarrow> load array m;
       i \<leftarrow> load after_inserted m;
       if after_inserted \<noteq> nd_child a \<and> nd_prev i = None then Some (False, m)
       else do {
         m1 \<leftarrow> store newitem (\<lambda>n. n\<lparr>nd_next := after_inserted, nd_prev := nd_prev i\<rparr>) m;
         m2 \<leftarrow> store after_inserted (\<lambda>n. n\<lparr>nd_prev := newitem\<rparr>) m1;
         a2 \<leftarrow> load array m2;
         m3 \<leftarrow> (if after_inserted = nd_child a2 then store array (\<lambda>n. n\<lparr>nd_child := newitem\<rparr>) m2
               else do { n2 \<leftarrow> load newitem m2; store (nd_prev n2) (\<lambda>n. n\<lparr>nd_next := newitem\<rparr>) m2 });
         Some (True, m3)
       }
     }
   })"

text \<open>The links of \<open>cJSON_ReplaceItemViaPointer\<close>: the replacement takes the item's place, the item is let go.\<close>

definition replace_links :: "ptr \<Rightarrow> ptr \<Rightarrow> ptr \<Rightarrow> memory \<Rightarrow> memory option" where
  "replace_links parent item replacement m = do {
     i \<leftarrow> load item m;
     m1 \<leftarrow> store replacement (\<lambda>n. n\<lparr>nd_next := nd_next i, nd_prev := nd_prev i\<rparr>) m;
     r1 \<leftarrow> load replacement m1;
     m2 \<leftarrow> (if nd_next r1 \<noteq> None then store (nd_next r1) (\<lambda>n. n\<lparr>nd_prev := replacement\<rparr>) m1 else Some m1);
     p2 \<leftarrow> load parent m2;
     m3 \<leftarrow> (if nd_child p2 = item then do {
             c \<leftarrow> load (nd_child p2) m2;
             m3 \<leftarrow> (if nd_prev c = nd_child p2 then store replacement (\<lambda>n. n\<lparr>nd_prev := replacement\<rparr>) m2 else Some m2);
             store parent (\<lambda>n. n\<lparr>nd_child := replacement\<rparr>) m3
           } else do {
             r2 \<leftarrow> load replacement m2;
             m3 \<leftarrow> (if nd_prev r2 \<noteq> None then store (nd_prev r2) (\<lambda>n. n\<lparr>nd_next := replacement\<rparr>) m2 else Some m2);
             r3 \<leftarrow> load replacement m3;
             p3 \<leftarrow> load parent m3;
             if nd_next r3 = None then store (nd_child p3) (\<lambda>n. n\<lparr>nd_prev := replacement\<rparr>) m3 else Some m3
           });
     store item (\<lambda>n. n\<lparr>nd_next := None, nd_prev := None\<rparr>) m3
   }"

definition cJSON_ReplaceItemViaPointer :: "ptr \<Rightarrow> ptr \<Rightarrow> ptr \<Rightarrow> memory \<Rightarrow> (bool \<times> memory) option" where
  "cJSON_ReplaceItemViaPointer parent item replacement m = (if parent = None then Some (False, m) else do {
     p \<leftarrow> load parent m;
     if nd_child p = None \<or> replacement = None \<or> item = None then Some (False, m)
     else if replacement = item then Some (True, m)
     else do {
       m4 \<leftarrow> replace_links parent item replacement m;
       m5 \<leftarrow> cJSON_Delete item m4;
       Some (True, m5)
     }
   })"

definition cJSON_ReplaceItemInArray :: "ptr \<Rightarrow> int \<Rightarrow> ptr \<Rightarrow> memory \<Rightarrow> (bool \<times> memory) option" where
  "cJSON_ReplaceItemInArray array which newitem m = (if which < 0 then Some (False, m)
     else do { item \<leftarrow> get_array_item array (nat which) m; cJSON_ReplaceItemViaPointer array item newitem m })"

definition replace_item_in_object :: "ptr \<Rightarrow> ptr \<Rightarrow> ptr \<Rightarrow> bool \<Rightarrow> memory \<Rightarrow> (bool \<times> memory) option" where
  "replace_item_in_object object string replacement case_sensitive m =
     (if replacement = None \<or> string = None then Some (False, m) else do {
        r \<leftarrow> load replacement m;
        m1 \<leftarrow> (if nd_type r AND cJSON_StringIsConst = 0 then free_text (nd_string r) m else Some m);
        (copy, m2) \<leftarrow> cJSON_strdup string m1;
        m3 \<leftarrow> store replacement (\<lambda>n. n\<lparr>nd_string := copy, nd_type := nd_type n AND NOT cJSON_StringIsConst\<rparr>) m2;
        item \<leftarrow> get_object_item object string case_sensitive m3;
        cJSON_ReplaceItemViaPointer object item replacement m3
      })"

definition cJSON_ReplaceItemInObject :: "ptr \<Rightarrow> ptr \<Rightarrow> ptr \<Rightarrow> memory \<Rightarrow> (bool \<times> memory) option" where
  "cJSON_ReplaceItemInObject object string newitem m = replace_item_in_object object string newitem False m"

definition cJSON_ReplaceItemInObjectCaseSensitive :: "ptr \<Rightarrow> ptr \<Rightarrow> ptr \<Rightarrow> memory \<Rightarrow> (bool \<times> memory) option" where
  "cJSON_ReplaceItemInObjectCaseSensitive object string newitem m = replace_item_in_object object string newitem True m"

section \<open>Type tests and values\<close>

definition is_type :: "int \<Rightarrow> ptr \<Rightarrow> memory \<Rightarrow> bool option" where
  "is_type t item m = (if item = None then Some False else do { n \<leftarrow> load item m; Some (nd_type n AND 255 = t) })"

definition cJSON_IsInvalid :: "ptr \<Rightarrow> memory \<Rightarrow> bool option" where "cJSON_IsInvalid = is_type cJSON_Invalid_t"
definition cJSON_IsFalse :: "ptr \<Rightarrow> memory \<Rightarrow> bool option" where "cJSON_IsFalse = is_type cJSON_False_t"
definition cJSON_IsTrue :: "ptr \<Rightarrow> memory \<Rightarrow> bool option" where "cJSON_IsTrue = is_type cJSON_True_t"
definition cJSON_IsNull :: "ptr \<Rightarrow> memory \<Rightarrow> bool option" where "cJSON_IsNull = is_type cJSON_NULL_t"
definition cJSON_IsNumber :: "ptr \<Rightarrow> memory \<Rightarrow> bool option" where "cJSON_IsNumber = is_type cJSON_Number_t"
definition cJSON_IsString :: "ptr \<Rightarrow> memory \<Rightarrow> bool option" where "cJSON_IsString = is_type cJSON_String_t"
definition cJSON_IsArray :: "ptr \<Rightarrow> memory \<Rightarrow> bool option" where "cJSON_IsArray = is_type cJSON_Array_t"
definition cJSON_IsObject :: "ptr \<Rightarrow> memory \<Rightarrow> bool option" where "cJSON_IsObject = is_type cJSON_Object_t"
definition cJSON_IsRaw :: "ptr \<Rightarrow> memory \<Rightarrow> bool option" where "cJSON_IsRaw = is_type cJSON_Raw_t"

definition cJSON_IsBool :: "ptr \<Rightarrow> memory \<Rightarrow> bool option" where
  "cJSON_IsBool item m = (if item = None then Some False
     else do { n \<leftarrow> load item m; Some (nd_type n AND (cJSON_True_t OR cJSON_False_t) \<noteq> 0) })"

definition cJSON_GetStringValue :: "ptr \<Rightarrow> memory \<Rightarrow> ptr option" where
  "cJSON_GetStringValue item m = do { s \<leftarrow> cJSON_IsString item m;
     if s then do { n \<leftarrow> load item m; Some (nd_valuestring n) } else Some None }"

text \<open>\<open>None\<close> as the number stands for \<open>NAN\<close>.\<close>

definition cJSON_GetNumberValue :: "ptr \<Rightarrow> memory \<Rightarrow> rat option option" where
  "cJSON_GetNumberValue item m = do { s \<leftarrow> cJSON_IsNumber item m;
     if s then do { n \<leftarrow> load item m; Some (Some (nd_valuedouble n)) } else Some None }"

definition cJSON_SetNumberHelper :: "ptr \<Rightarrow> rat \<Rightarrow> memory \<Rightarrow> (rat \<times> memory) option" where
  "cJSON_SetNumberHelper object number m = do {
     m1 \<leftarrow> store object (\<lambda>n. n\<lparr>nd_valueint := (if of_int INT_MAX \<le> number then INT_MAX
         else if number \<le> of_int INT_MIN then INT_MIN else c_trunc number)\<rparr>) m;
     m2 \<leftarrow> store object (\<lambda>n. n\<lparr>nd_valuedouble := number\<rparr>) m1;
     Some (number, m2)
   }"

text \<open>Two texts overlap only when they are the same text, which the test of the two ranges refuses.\<close>

definition cJSON_SetValuestring :: "ptr \<Rightarrow> ptr \<Rightarrow> memory \<Rightarrow> (ptr \<times> memory) option" where
  "cJSON_SetValuestring object valuestring m = (if object = None then Some (None, m) else do {
     n \<leftarrow> load object m;
     if nd_type n AND cJSON_String_t = 0 \<or> nd_type n AND cJSON_IsReference \<noteq> 0 then Some (None, m)
     else if nd_valuestring n = None \<or> valuestring = None then Some (None, m)
     else do {
       v \<leftarrow> valuestring;
       o1 \<leftarrow> nd_valuestring n;
       new \<leftarrow> texts m v;
       old \<leftarrow> texts m o1;
       if length new \<le> length old then
         (if v = o1 then Some (None, m) else Some (Some o1, m\<lparr>texts := (texts m)(o1 \<mapsto> new)\<rparr>))
       else do {
         (copy, m1) \<leftarrow> cJSON_strdup valuestring m;
         m2 \<leftarrow> free_text (nd_valuestring n) m1;
         m3 \<leftarrow> store object (\<lambda>n. n\<lparr>nd_valuestring := copy\<rparr>) m2;
         Some (copy, m3)
       }
     }
   })"

section \<open>Arrays of values\<close>

text \<open>
  The loop of the four functions: \<open>k\<close> items are still to be created, \<open>xs\<close> is the rest of the C array
  (reading past it is undefined), \<open>p\<close> is the last item so far. The flag says that an item could not
  be created and the array is deleted again.
\<close>

fun array_loop :: "('a \<Rightarrow> memory \<Rightarrow> (ptr \<times> memory) option) \<Rightarrow> nat \<Rightarrow> 'a list \<Rightarrow> ptr \<Rightarrow> ptr \<Rightarrow> memory \<Rightarrow> (bool \<times> ptr \<times> memory) option" where
  "array_loop new 0 xs a p m = Some (True, p, m)"
| "array_loop new (Suc k) [] a p m = None"
| "array_loop new (Suc k) (x # xs) a p m = do {
     (n, m1) \<leftarrow> new x m;
     if n = None then do { m2 \<leftarrow> cJSON_Delete a m1; Some (False, None, m2) }
     else do {
       m2 \<leftarrow> (if p = None then store a (\<lambda>r. r\<lparr>nd_child := n\<rparr>) m1 else suffix_object p n m1);
       array_loop new k xs a n m2
     }
   }"

definition create_array_of :: "('a \<Rightarrow> memory \<Rightarrow> (ptr \<times> memory) option) \<Rightarrow> 'a list option \<Rightarrow> int \<Rightarrow> memory \<Rightarrow> (ptr \<times> memory) option" where
  "create_array_of new values count m = (if count < 0 \<or> values = None then Some (None, m) else do {
     xs \<leftarrow> values;
     let (a, m1) = cJSON_CreateArray_n m;
     (created, n, m2) \<leftarrow> array_loop new (nat count) xs a None m1;
     if \<not> created then Some (None, m2)
     else do {
       r \<leftarrow> load a m2;
       m3 \<leftarrow> (if nd_child r \<noteq> None then store (nd_child r) (\<lambda>c. c\<lparr>nd_prev := n\<rparr>) m2 else Some m2);
       Some (a, m3)
     }
   })"

definition cJSON_CreateIntArray :: "int list option \<Rightarrow> int \<Rightarrow> memory \<Rightarrow> (ptr \<times> memory) option" where
  "cJSON_CreateIntArray = create_array_of (\<lambda>i m. Some (cJSON_CreateNumber_n (of_int i) m))"

text \<open>A \<open>float\<close> is exact as a \<open>double\<close>.\<close>

definition cJSON_CreateFloatArray :: "rat list option \<Rightarrow> int \<Rightarrow> memory \<Rightarrow> (ptr \<times> memory) option" where
  "cJSON_CreateFloatArray = create_array_of (\<lambda>d m. Some (cJSON_CreateNumber_n d m))"

definition cJSON_CreateDoubleArray :: "rat list option \<Rightarrow> int \<Rightarrow> memory \<Rightarrow> (ptr \<times> memory) option" where
  "cJSON_CreateDoubleArray = create_array_of (\<lambda>d m. Some (cJSON_CreateNumber_n d m))"

definition cJSON_CreateStringArray :: "ptr list option \<Rightarrow> int \<Rightarrow> memory \<Rightarrow> (ptr \<times> memory) option" where
  "cJSON_CreateStringArray = create_array_of cJSON_CreateString_n"

section \<open>Duplication\<close>

text \<open>
  The loop over the children, given how one child is copied: \<open>next\<close> is the last copy so far. The flag is
  false when a child could not be copied. The number of \<open>cJSON_Duplicate_rec\<close> is how many levels are left
  below \<open>CJSON_CIRCULAR_LIMIT\<close>; with none left the loop fails at its first child.
\<close>

definition CJSON_CIRCULAR_LIMIT :: nat where "CJSON_CIRCULAR_LIMIT = 10000"

partial_function (option) duplicate_children ::
    "(ptr \<Rightarrow> memory \<Rightarrow> (ptr \<times> memory) option) \<Rightarrow> ptr \<Rightarrow> ptr \<Rightarrow> ptr \<Rightarrow> memory \<Rightarrow> (bool \<times> ptr \<times> memory) option" where
  "duplicate_children copy newitem child next m = (if child = None then Some (True, next, m) else do {
     (newchild, m1) \<leftarrow> copy child m;
     if newchild = None then Some (False, None, m1)
     else do {
       m2 \<leftarrow> (if next \<noteq> None then suffix_object next newchild m1 else store newitem (\<lambda>n. n\<lparr>nd_child := newchild\<rparr>) m1);
       c \<leftarrow> load child m2;
       duplicate_children copy newitem (nd_next c) newchild m2
     }
   })"

definition duplicate_item :: "(ptr \<Rightarrow> memory \<Rightarrow> (ptr \<times> memory) option) \<Rightarrow> ptr \<Rightarrow> bool \<Rightarrow> memory \<Rightarrow> (ptr \<times> memory) option" where
  "duplicate_item copy item recurse m = (if item = None then Some (None, m) else do {
     let (newitem, m1) = cJSON_New_Item m;
     i \<leftarrow> load item m1;
     m2 \<leftarrow> store newitem (\<lambda>n. n\<lparr>nd_type := nd_type i AND NOT cJSON_IsReference, nd_valueint := nd_valueint i,
       nd_valuedouble := nd_valuedouble i\<rparr>) m1;
     (vs, m3) \<leftarrow> cJSON_strdup (nd_valuestring i) m2;
     m4 \<leftarrow> store newitem (\<lambda>n. n\<lparr>nd_valuestring := vs\<rparr>) m3;
     (str, m5) \<leftarrow> (if nd_type i AND cJSON_StringIsConst \<noteq> 0 then Some (nd_string i, m4) else cJSON_strdup (nd_string i) m4);
     m6 \<leftarrow> store newitem (\<lambda>n. n\<lparr>nd_string := str\<rparr>) m5;
     if \<not> recurse then Some (newitem, m6)
     else do {
       (copied, newchild, m7) \<leftarrow> duplicate_children copy newitem (nd_child i) None m6;
       if \<not> copied then do { m8 \<leftarrow> cJSON_Delete newitem m7; Some (None, m8) }
       else do {
         r \<leftarrow> load newitem m7;
         m8 \<leftarrow> (if nd_child r \<noteq> None then store (nd_child r) (\<lambda>c. c\<lparr>nd_prev := newchild\<rparr>) m7 else Some m7);
         Some (newitem, m8)
       }
     }
   })"

primrec cJSON_Duplicate_rec :: "nat \<Rightarrow> ptr \<Rightarrow> bool \<Rightarrow> memory \<Rightarrow> (ptr \<times> memory) option" where
  "cJSON_Duplicate_rec 0 = duplicate_item (\<lambda>child m. Some (None, m))"
| "cJSON_Duplicate_rec (Suc levels) = duplicate_item (\<lambda>child. cJSON_Duplicate_rec levels child True)"

definition cJSON_Duplicate :: "ptr \<Rightarrow> bool \<Rightarrow> memory \<Rightarrow> (ptr \<times> memory) option" where
  "cJSON_Duplicate = cJSON_Duplicate_rec CJSON_CIRCULAR_LIMIT"

section \<open>Comparison\<close>

text \<open>
  \<open>cJSON_Compare\<close> and its three loops: two items, the rest of two arrays element by element, and the rest of
  an object's members against another object.
\<close>

datatype comparison = Items ptr ptr | Elements ptr ptr | Members ptr ptr

partial_function (option) compare_run :: "bool \<Rightarrow> comparison \<Rightarrow> memory \<Rightarrow> bool option" where
  "compare_run case_sensitive c m = (case c of
     Items a b \<Rightarrow> if a = None \<or> b = None then Some False else do {
       na \<leftarrow> load a m;
       nb \<leftarrow> load b m;
       let ty = nd_type na AND 255;
       if ty \<noteq> nd_type nb AND 255 then Some False
       else if ty \<notin> {cJSON_False_t, cJSON_True_t, cJSON_NULL_t, cJSON_Number_t, cJSON_String_t, cJSON_Raw_t,
           cJSON_Array_t, cJSON_Object_t} then Some False
       else if a = b then Some True
       else if ty \<in> {cJSON_False_t, cJSON_True_t, cJSON_NULL_t} then Some True
       else if ty = cJSON_Number_t then Some (compare_double (nd_valuedouble na) (nd_valuedouble nb))
       else if ty \<in> {cJSON_String_t, cJSON_Raw_t} then
         (if nd_valuestring na = None \<or> nd_valuestring nb = None then Some False else do {
            va \<leftarrow> nd_valuestring na;
            vb \<leftarrow> nd_valuestring nb;
            sa \<leftarrow> texts m va;
            sb \<leftarrow> texts m vb;
            Some (sa = sb)
          })
       else if ty = cJSON_Array_t then compare_run case_sensitive (Elements (nd_child na) (nd_child nb)) m
       else do {
         r \<leftarrow> compare_run case_sensitive (Members (nd_child na) b) m;
         if r then compare_run case_sensitive (Members (nd_child nb) a) m else Some False
       }
     }
   | Elements a_element b_element \<Rightarrow> if a_element \<noteq> None \<and> b_element \<noteq> None then do {
         r \<leftarrow> compare_run case_sensitive (Items a_element b_element) m;
         if r then do {
           na \<leftarrow> load a_element m;
           nb \<leftarrow> load b_element m;
           compare_run case_sensitive (Elements (nd_next na) (nd_next nb)) m
         } else Some False
       } else Some (a_element = b_element)
   | Members element other \<Rightarrow> if element = None then Some True else do {
       n \<leftarrow> load element m;
       found \<leftarrow> get_object_item other (nd_string n) case_sensitive m;
       if found = None then Some False
       else do {
         r \<leftarrow> compare_run case_sensitive (Items element found) m;
         if r then compare_run case_sensitive (Members (nd_next n) other) m else Some False
       }
     })"

definition cJSON_Compare :: "ptr \<Rightarrow> ptr \<Rightarrow> bool \<Rightarrow> memory \<Rightarrow> bool option" where
  "cJSON_Compare a b case_sensitive m = compare_run case_sensitive (Items a b) m"

end
