(* ===== verification/CJsonLists.thy ===== *)
theory CJsonLists
  imports CJsonNodes
begin

text \<open>
  The children of an array or object as a list of addresses. \<open>dseg\<close> is a doubly linked segment, \<open>children\<close>
  the whole ring of a parent. Every operation of \<open>cJSON.c\<close> on the children implements the operation on
  that list and touches no other node.
\<close>

section \<open>Doubly linked segments\<close>

fun first :: "nat list \<Rightarrow> ptr \<Rightarrow> ptr" where
  "first [] r = r"
| "first (b # bs) r = Some b"

fun final :: "ptr \<Rightarrow> nat list \<Rightarrow> ptr" where
  "final q [] = q"
| "final q (b # bs) = final (Some b) bs"

lemma first_append [simp]: "first (as @ bs) r = first as (first bs r)"
  by (cases as) auto

lemma final_append [simp]: "final q (as @ bs) = final (final q as) bs"
  by (induction as arbitrary: q) auto

fun dseg :: "(nat \<rightharpoonup> node) \<Rightarrow> ptr \<Rightarrow> nat list \<Rightarrow> ptr \<Rightarrow> bool" where
  "dseg h q [] r = True"
| "dseg h q (a # as) r = (case h a of None \<Rightarrow> False
     | Some n \<Rightarrow> nd_prev n = q \<and> nd_next n = first as r \<and> dseg h (Some a) as r)"

lemma dseg_Cons: "dseg h q (a # as) r \<longleftrightarrow>
    (\<exists>n. h a = Some n \<and> nd_prev n = q \<and> nd_next n = first as r \<and> dseg h (Some a) as r)"
  by (simp split: option.split)

declare dseg.simps(2) [simp del]
declare dseg_Cons [simp]

lemma dseg_append [simp]: "dseg h q (as @ bs) r \<longleftrightarrow> dseg h q as (first bs r) \<and> dseg h (final q as) bs r"
  by (induction as arbitrary: q) auto

lemma dseg_cong: "(\<And>a. a \<in> set as \<Longrightarrow> h' a = h a) \<Longrightarrow> dseg h' q as r = dseg h q as r"
  by (induction as arbitrary: q) auto

lemma dseg_upd [simp]: "a \<notin> set as \<Longrightarrow> dseg (h(a := x)) q as r = dseg h q as r"
  by (rule dseg_cong) auto

lemma dseg_allocated: "dseg h q as r \<Longrightarrow> a \<in> set as \<Longrightarrow> \<exists>n. h a = Some n"
  by (induction as arbitrary: q) auto

definition children :: "memory \<Rightarrow> nat \<Rightarrow> nat list \<Rightarrow> bool" where
  "children m p ps \<longleftrightarrow> (case nodes m p of None \<Rightarrow> False | Some n \<Rightarrow> nd_child n = first ps None) \<and>
     p \<notin> set ps \<and> distinct ps \<and> dseg (nodes m) (final None ps) ps None"

lemma load_Some [simp]: "load (Some a) m = nodes m a"
  by (simp add: load_def)

lemma store_Some: "store (Some a) f m = (case nodes m a of None \<Rightarrow> None | Some n \<Rightarrow> Some (m\<lparr>nodes := (nodes m)(a \<mapsto> f n)\<rparr>))"
  by (simp add: store_def split: option.split)

section \<open>Looking\<close>

lemma count_items_dseg:
  "dseg (nodes m) q ps None \<Longrightarrow> count_items (first ps None) k m = Some (k + length ps)"
proof (induction ps arbitrary: q k)
  case Nil
  show ?case by (subst count_items.simps) simp
next
  case (Cons a ps)
  then obtain n where "nodes m a = Some n" "nd_next n = first ps None" "dseg (nodes m) (Some a) ps None"
    by auto
  then show ?case
    using Cons.IH [of "Some a" "Suc k"] by (subst count_items.simps) simp
qed

lemma skip_items_dseg:
  "dseg (nodes m) q ps None \<Longrightarrow> skip_items i (first ps None) m = Some (if i < length ps then Some (ps ! i) else None)"
proof (induction i arbitrary: q ps)
  case 0
  show ?case by (cases ps) auto
next
  case (Suc i)
  show ?case
  proof (cases ps)
    case Nil
    then show ?thesis by simp
  next
    case (Cons a as)
    then show ?thesis using Suc.prems Suc.IH [of "Some a" as] by auto
  qed
qed

lemma children_node: "children m p ps \<Longrightarrow> \<exists>n. nodes m p = Some n \<and> nd_child n = first ps None"
  by (auto simp: children_def split: option.splits)

lemma GetArraySize_children:
  "children m p ps \<Longrightarrow> cJSON_GetArraySize (Some p) m = Some (wrap32 (int (length ps)))"
  using count_items_dseg [of m _ ps 0] by (auto simp: cJSON_GetArraySize_def children_def split: option.splits)

lemma get_array_item_children:
  "children m p ps \<Longrightarrow> get_array_item (Some p) i m = Some (if i < length ps then Some (ps ! i) else None)"
  using skip_items_dseg [of m _ ps i] by (auto simp: get_array_item_def children_def split: option.splits)

section \<open>Changing\<close>

definition links_off :: "node \<Rightarrow> node" where
  "links_off n = n\<lparr>nd_next := None, nd_prev := None\<rparr>"

definition child_off :: "node \<Rightarrow> node" where
  "child_off n = n\<lparr>nd_child := None\<rparr>"

text \<open>What changing the children of \<open>p\<close> may touch: their links, and which child is the first.\<close>

definition relinked :: "nat \<Rightarrow> nat set \<Rightarrow> memory \<Rightarrow> memory \<Rightarrow> bool" where
  "relinked p A m m' \<longleftrightarrow> texts m' = texts m \<and> brk m' = brk m \<and>
     (\<forall>x. x \<noteq> p \<longrightarrow> x \<notin> A \<longrightarrow> nodes m' x = nodes m x) \<and>
     (\<forall>x. x \<noteq> p \<longrightarrow> map_option links_off (nodes m' x) = map_option links_off (nodes m x)) \<and>
     map_option child_off (nodes m' p) = map_option child_off (nodes m p)"

lemma childrenE:
  assumes "children m p ps"
  obtains pn where "nodes m p = Some pn" "nd_child pn = first ps None" "p \<notin> set ps" "distinct ps"
    "dseg (nodes m) (final None ps) ps None"
  using assms by (auto simp: children_def split: option.splits)

lemma dseg_cases [case_names empty single many]:
  obtains "ps = []" | b where "ps = [b]" | b l bs where "ps = b # bs @ [l]"
  by (metis append_butlast_last_id list.exhaust)

lemma add_item_children:
  assumes "children m p ps" "nodes m a = Some n" "nd_next n = None" "a \<notin> set ps" "a \<noteq> p"
  shows "\<exists>m'. add_item_to_array (Some p) (Some a) m = Some (True, m') \<and> children m' p (ps @ [a]) \<and>
    relinked p (insert a (set ps)) m m'"
proof -
  from assms(1) obtain pn where p: "nodes m p = Some pn" "nd_child pn = first ps None" "p \<notin> set ps" "distinct ps"
    "dseg (nodes m) (final None ps) ps None" by (rule childrenE)
  show ?thesis
  proof (cases ps rule: dseg_cases)
    case empty
    then show ?thesis using p assms
      by (simp add: add_item_to_array_def store_Some children_def relinked_def links_off_def child_off_def)
  next
    case (single b)
    then show ?thesis using p assms
      by (auto simp: add_item_to_array_def store_Some children_def relinked_def links_off_def child_off_def suffix_object_def)
  next
    case (many b l bs)
    then show ?thesis using p assms
      by (auto simp: add_item_to_array_def store_Some children_def relinked_def links_off_def child_off_def suffix_object_def dseg_append)
  qed
qed

lemmas link_defs = store_Some children_def relinked_def links_off_def child_off_def suffix_object_def

lemma split_cases [case_names only front second_last last second middle]:
  obtains "xs = []" "ys = []"
    | b zs where "xs = []" "ys = b # zs"
    | c where "xs = [c]" "ys = []"
    | c ws w where "xs = c # ws @ [w]" "ys = []"
    | c b zs where "xs = [c]" "ys = b # zs"
    | c ws w b zs where "xs = c # ws @ [w]" "ys = b # zs"
  by (metis append_butlast_last_id list.exhaust)

lemma detach_children:
  assumes "children m p (xs @ a # ys)"
  shows "\<exists>m' n. cJSON_DetachItemViaPointer (Some p) (Some a) m = Some (Some a, m') \<and> children m' p (xs @ ys) \<and>
    relinked p (set (xs @ a # ys)) m m' \<and> nodes m' a = Some n \<and> nd_next n = None \<and> nd_prev n = None"
proof -
  from assms obtain pn where p: "nodes m p = Some pn" "nd_child pn = first (xs @ a # ys) None"
    "p \<notin> set (xs @ a # ys)" "distinct (xs @ a # ys)"
    "dseg (nodes m) (final None (xs @ a # ys)) (xs @ a # ys) None" by (rule childrenE)
  show ?thesis
    using p by (cases xs ys rule: split_cases) (auto simp: cJSON_DetachItemViaPointer_def link_defs)
qed

lemma final_allocated: "\<exists>l. final (Some b) bs = Some l"
  by (induction bs arbitrary: b) auto

lemma insert_children:
  assumes "children m p (xs @ a # ys)" "nodes m r = Some rn" "r \<notin> set (xs @ a # ys)" "r \<noteq> p"
  shows "\<exists>m'. cJSON_InsertItemInArray (Some p) (int (length xs)) (Some r) m = Some (True, m') \<and>
    children m' p (xs @ r # a # ys) \<and> relinked p (insert r (set (xs @ a # ys))) m m'"
proof -
  from assms(1) obtain pn where p: "nodes m p = Some pn" "nd_child pn = first (xs @ a # ys) None"
    "p \<notin> set (xs @ a # ys)" "distinct (xs @ a # ys)"
    "dseg (nodes m) (final None (xs @ a # ys)) (xs @ a # ys) None" by (rule childrenE)
  define i where "i = length xs"
  have g: "get_array_item (Some p) i m = Some (Some a)"
    using get_array_item_children [OF assms(1), of i] by (simp add: i_def)
  show ?thesis
    unfolding i_def [symmetric] using p assms(2-4) g final_allocated [of a ys]
    by (cases xs ys rule: split_cases) (auto simp: cJSON_InsertItemInArray_def link_defs)
qed

lemma insert_past_children:
  assumes "children m p ps" "length ps \<le> i" "nodes m a = Some n" "nd_next n = None" "a \<notin> set ps" "a \<noteq> p"
  shows "\<exists>m'. cJSON_InsertItemInArray (Some p) (int i) (Some a) m = Some (True, m') \<and> children m' p (ps @ [a]) \<and>
    relinked p (insert a (set ps)) m m'"
proof -
  have "get_array_item (Some p) i m = Some None"
    using get_array_item_children [OF assms(1), of i] assms(2) by simp
  then show ?thesis using add_item_children [OF assms(1,3-6)] by (simp add: cJSON_InsertItemInArray_def)
qed

lemma final_in: "final (Some b) bs = Some l \<Longrightarrow> l \<in> set (b # bs)"
  by (induction bs arbitrary: b) auto

lemma replace_links_children:
  assumes "children m p (xs @ a # ys)" "nodes m r = Some rn" "r \<notin> set (xs @ a # ys)" "r \<noteq> p"
  shows "\<exists>m' n. replace_links (Some p) (Some a) (Some r) m = Some m' \<and>
    children m' p (xs @ r # ys) \<and> relinked p (insert r (set (xs @ a # ys))) m m' \<and>
    nodes m' a = Some n \<and> nd_next n = None \<and> nd_prev n = None"
proof -
  from assms(1) obtain pn where p: "nodes m p = Some pn" "nd_child pn = first (xs @ a # ys) None"
    "p \<notin> set (xs @ a # ys)" "distinct (xs @ a # ys)"
    "dseg (nodes m) (final None (xs @ a # ys)) (xs @ a # ys) None" by (rule childrenE)
  show ?thesis
  proof (cases xs ys rule: split_cases)
    case only
    then show ?thesis using p assms(2-4) by (auto simp: replace_links_def link_defs)
  next
    case (front b zs)
    moreover from this have "final (Some b) zs \<noteq> Some a" using p(4) final_in [of b zs a] by auto
    ultimately show ?thesis using p assms(2-4) by (auto simp: replace_links_def link_defs)
  next
    case (second_last c)
    then show ?thesis using p assms(2-4) by (auto simp: replace_links_def link_defs)
  next
    case (last c ws w)
    then show ?thesis using p assms(2-4) by (auto simp: replace_links_def link_defs)
  next
    case (second c b zs)
    then show ?thesis using p assms(2-4) by (auto simp: replace_links_def link_defs)
  next
    case (middle c ws w b zs)
    then show ?thesis using p assms(2-4) by (auto simp: replace_links_def link_defs)
  qed
qed

lemma replace_children:
  assumes "children m p (xs @ a # ys)" "nodes m r = Some rn" "r \<notin> set (xs @ a # ys)" "r \<noteq> p"
  shows "\<exists>m' n. cJSON_ReplaceItemViaPointer (Some p) (Some a) (Some r) m =
      Option.bind (cJSON_Delete (Some a) m') (\<lambda>m''. Some (True, m'')) \<and>
    children m' p (xs @ r # ys) \<and> relinked p (insert r (set (xs @ a # ys))) m m' \<and>
    nodes m' a = Some n \<and> nd_next n = None \<and> nd_prev n = None"
proof -
  obtain pn where "nodes m p = Some pn" "nd_child pn = first (xs @ a # ys) None"
    using children_node [OF assms(1)] by blast
  moreover have "first (xs @ a # ys) None \<noteq> None" by (cases xs) auto
  ultimately show ?thesis
    using replace_links_children [OF assms] assms(3) by (auto simp: cJSON_ReplaceItemViaPointer_def)
qed

end
