(* ===== verification/CJsonTrees.thy ===== *)
theory CJsonTrees
  imports CJsonLists "HOL-Library.Multiset"
begin

text \<open>
  Trees in memory. A layout says where the nodes and the strings of an item are; \<open>laid\<close> says that the
  memory holds an item with this layout, that is what \<open>cJSON_Delete\<close> may free: not the key of an item
  with \<open>cJSON_StringIsConst\<close>, and nothing but the node and its key for an item with \<open>cJSON_IsReference\<close>.
  \<open>tree_of\<close> reads the tree of \<open>CJson\<close> from it.
\<close>

unbundle bit_operations_syntax

datatype lay = Lay (la: nat) (lv: ptr) (lk: ptr) (lc: "lay list")

definition opt_list :: "ptr \<Rightarrow> nat list" where
  "opt_list p = (case p of None \<Rightarrow> [] | Some t \<Rightarrow> [t])"

fun cells :: "lay \<Rightarrow> nat list" where
  "cells (Lay a v k cs) = a # concat (map cells cs)"

fun strings :: "lay \<Rightarrow> nat list" where
  "strings (Lay a v k cs) = opt_list v @ opt_list k @ concat (map strings cs)"

fun laid :: "memory \<Rightarrow> lay \<Rightarrow> bool" where
  "laid m (Lay a v k cs) \<longleftrightarrow> (case nodes m a of None \<Rightarrow> False | Some n \<Rightarrow>
     (if nd_type n AND cJSON_IsReference = 0
      then nd_valuestring n = v \<and> nd_child n = first (map la cs) None \<and>
        dseg (nodes m) (final None (map la cs)) (map la cs) None
      else v = None \<and> cs = []) \<and>
     (if nd_type n AND cJSON_StringIsConst = 0 then nd_string n = k else k = None)) \<and>
     (\<forall>t \<in> set (opt_list v @ opt_list k). texts m t \<noteq> None) \<and> (\<forall>c \<in> set cs. laid m c)"

definition owned :: "memory \<Rightarrow> lay list \<Rightarrow> bool" where
  "owned m Ls \<longleftrightarrow> (\<forall>L \<in> set Ls. laid m L) \<and> distinct (concat (map cells Ls)) \<and> distinct (concat (map strings Ls))"

lemma la_in_cells [simp]: "la L \<in> set (cells L)"
  by (cases L) simp

lemma la_in_all: "c \<in> set cs \<Longrightarrow> la c \<in> set (concat (map cells cs))"
  by (auto intro: bexI [of _ c])

lemma root_not_inner: "owned m [L] \<Longrightarrow> la L \<notin> set (concat (map cells (lc L)))"
  by (cases L) (auto simp: owned_def)

text \<open>An item does not depend on the links of its root: those belong to whoever holds it.\<close>

definition same_item :: "memory \<Rightarrow> memory \<Rightarrow> lay \<Rightarrow> bool" where
  "same_item m m' L \<longleftrightarrow> map_option links_off (nodes m' (la L)) = map_option links_off (nodes m (la L)) \<and>
     (\<forall>x \<in> set (concat (map cells (lc L))). nodes m' x = nodes m x) \<and> (\<forall>t \<in> set (strings L). texts m' t = texts m t)"

lemma same_itemI:
  assumes "\<And>x. x \<in> set (cells L) \<Longrightarrow> nodes m' x = nodes m x" "\<And>t. t \<in> set (strings L) \<Longrightarrow> texts m' t = texts m t"
  shows "same_item m m' L"
  using assms by (cases L) (auto simp: same_item_def)

lemma same_item_child: "same_item m m' (Lay a v k cs) \<Longrightarrow> c \<in> set cs \<Longrightarrow> same_item m m' c"
  by (rule same_itemI) (auto simp: same_item_def)

lemma links_off_eq:
  "links_off n' = links_off n \<longleftrightarrow> nd_child n' = nd_child n \<and> nd_type n' = nd_type n \<and> nd_valuestring n' = nd_valuestring n \<and>
     nd_valueint n' = nd_valueint n \<and> nd_valuedouble n' = nd_valuedouble n \<and> nd_string n' = nd_string n"
  by (cases n; cases n') (auto simp: links_off_def)

lemma child_off_eq:
  "child_off n' = child_off n \<longleftrightarrow> nd_next n' = nd_next n \<and> nd_prev n' = nd_prev n \<and> nd_type n' = nd_type n \<and>
     nd_valuestring n' = nd_valuestring n \<and> nd_valueint n' = nd_valueint n \<and> nd_valuedouble n' = nd_valuedouble n \<and>
     nd_string n' = nd_string n"
  by (cases n; cases n') (auto simp: child_off_def)

lemma map_option_eq_cases:
  assumes "map_option f x = map_option f y"
  obtains "x = None" "y = None" | a b where "x = Some a" "y = Some b" "f a = f b"
  using assms by (cases x; cases y) auto

lemma laid_same: "same_item m m' L \<Longrightarrow> laid m' L = laid m L"
proof (induction L)
  case (Lay a v k cs)
  have "nodes m' x = nodes m x" if "x \<in> set (map la cs)" for x
    using Lay.prems that la_in_all by (auto simp: same_item_def simp del: set_concat)
  then have "dseg (nodes m') (final None (map la cs)) (map la cs) None = dseg (nodes m) (final None (map la cs)) (map la cs) None"
    by (rule dseg_cong)
  moreover have "laid m' c = laid m c" if "c \<in> set cs" for c
    using Lay.IH [OF that] same_item_child [OF Lay.prems that] by simp
  moreover have "(\<forall>t \<in> set (opt_list v @ opt_list k). texts m' t \<noteq> None) = (\<forall>t \<in> set (opt_list v @ opt_list k). texts m t \<noteq> None)"
    using Lay.prems by (intro ball_cong) (auto simp: same_item_def)
  moreover have "map_option links_off (nodes m' a) = map_option links_off (nodes m a)"
    using Lay.prems by (simp add: same_item_def)
  ultimately show ?case
    by (auto simp: links_off_eq elim!: map_option_eq_cases)
qed

lemma laid_cong:
  assumes "\<And>x. x \<in> set (cells L) \<Longrightarrow> nodes m' x = nodes m x" "\<And>t. t \<in> set (strings L) \<Longrightarrow> texts m' t = texts m t"
  shows "laid m' L = laid m L"
  using assms by (intro laid_same same_itemI)

section \<open>Deleting\<close>

fun nexts :: "(nat \<rightharpoonup> node) \<Rightarrow> nat list \<Rightarrow> bool" where
  "nexts h [] = True"
| "nexts h (a # as) = ((case h a of None \<Rightarrow> False | Some n \<Rightarrow> nd_next n = first as None) \<and> nexts h as)"

lemma dseg_nexts: "dseg h q as None \<Longrightarrow> nexts h as"
  by (induction as arbitrary: q) auto

lemma nexts_cong: "(\<And>x. x \<in> set as \<Longrightarrow> h' x = h x) \<Longrightarrow> nexts h' as = nexts h as"
  by (induction as) auto

definition freed :: "lay list \<Rightarrow> memory \<Rightarrow> memory" where
  "freed Ls m = m\<lparr>nodes := nodes m |` (- set (concat (map cells Ls))), texts := texts m |` (- set (concat (map strings Ls)))\<rparr>"

lemma freed_Nil [simp]: "freed [] m = m"
  by (simp add: freed_def restrict_map_def)

lemma freed_sel [simp]:
  "x \<notin> set (concat (map cells Ls)) \<Longrightarrow> nodes (freed Ls m) x = nodes m x"
  "t \<notin> set (concat (map strings Ls)) \<Longrightarrow> texts (freed Ls m) t = texts m t"
  by (simp_all add: freed_def)

lemma free_opt:
  "(\<forall>t \<in> set (opt_list p). texts m t \<noteq> None) \<Longrightarrow> free_text p m = Some (m\<lparr>texts := texts m |` (- set (opt_list p))\<rparr>)"
  by (auto simp: free_text_def opt_list_def restrict_map_def fun_eq_iff split: option.splits intro!: memory.equality)

lemma freed_one: "freed [Lay a v k cs] m = (freed cs m)\<lparr>nodes := (nodes (freed cs m))(a := None),
    texts := texts (freed cs m) |` (- set (opt_list v)) |` (- set (opt_list k))\<rparr>"
  by (auto simp: freed_def restrict_map_def fun_eq_iff intro!: memory.equality)

lemma freed_Cons: "freed (L # Ls) m = freed Ls (freed [L] m)"
  by (auto simp: freed_def restrict_map_def fun_eq_iff intro!: memory.equality)

lemma owned_freed:
  assumes "owned m (Ls @ Ks)"
  shows "owned (freed Ls m) Ks"
proof -
  have "laid (freed Ls m) L" if L: "L \<in> set Ks" for L
  proof -
    have "set (concat (map cells Ls)) \<inter> set (cells L) = {}" "set (concat (map strings Ls)) \<inter> set (strings L) = {}"
      using assms L by (auto simp: owned_def)
    then have "laid (freed Ls m) L = laid m L"
      by (intro laid_cong freed_sel) (auto simp del: set_concat)
    then show ?thesis using assms L by (simp add: owned_def)
  qed
  then show ?thesis using assms by (simp add: owned_def)
qed

lemma delete_owned:
  "owned m Ls \<Longrightarrow> nexts (nodes m) (map la Ls) \<Longrightarrow> cJSON_Delete (first (map la Ls) None) m = Some (freed Ls m)"
proof (induction "size_list size Ls" arbitrary: Ls m rule: less_induct)
  case less
  show ?case
  proof (cases Ls)
    case Nil
    then show ?thesis by (subst cJSON_Delete.simps) simp
  next
    case (Cons L Ls')
    obtain a v k cs where L: "L = Lay a v k cs" by (cases L)
    have o: "laid m L" "owned m Ls'" using less.prems(1) Cons by (auto simp: owned_def)
    then obtain n where n: "nodes m a = Some n" by (auto simp: L split: option.splits)
    have next_n: "nd_next n = first (map la Ls') None" using less.prems(2) Cons L n by simp
    have d: "a \<notin> set (concat (map cells cs))" "distinct (concat (map cells cs))" "distinct (concat (map strings cs))"
      using less.prems(1) by (auto simp: owned_def Cons L)
    have "owned m cs" using o(1) d by (simp add: owned_def L)
    have child: "(if nd_type n AND cJSON_IsReference = 0 \<and> nd_child n \<noteq> None then cJSON_Delete (nd_child n) m else Some m) = Some (freed cs m)"
    proof (cases "nd_type n AND cJSON_IsReference = 0")
      case True
      then have c: "nd_child n = first (map la cs) None" "nexts (nodes m) (map la cs)"
        using o(1) n dseg_nexts by (auto simp: L)
      have "size_list size cs < size_list size Ls" by (simp add: Cons L)
      then have "cJSON_Delete (first (map la cs) None) m = Some (freed cs m)"
        using less.hyps \<open>owned m cs\<close> c(2) by blast
      then show ?thesis using c(1) True by (cases cs) auto
    next
      case False
      then have "cs = []" using o(1) n by (simp add: L)
      then show ?thesis using False by simp
    qed
    let ?m2 = "(freed cs m)\<lparr>texts := texts (freed cs m) |` (- set (opt_list v))\<rparr>"
    let ?m3 = "?m2\<lparr>texts := texts ?m2 |` (- set (opt_list k))\<rparr>"
    have n1: "nodes (freed cs m) a = Some n" using d(1) n by simp
    have s: "set (opt_list v) \<inter> set (concat (map strings cs)) = {}" "set (opt_list k) \<inter> set (concat (map strings cs)) = {}"
      "set (opt_list v) \<inter> set (opt_list k) = {}" "\<forall>t \<in> set (opt_list v @ opt_list k). texts m t \<noteq> None"
      using less.prems(1) o(1) by (auto simp: owned_def Cons L)
    have "free_text v (freed cs m) = Some ?m2"
      using s by (intro free_opt) (auto simp: disjoint_iff)
    then have vs: "(if nd_type n AND cJSON_IsReference = 0 then free_text (nd_valuestring n) (freed cs m) else Some (freed cs m)) = Some ?m2"
      using o(1) n by (auto simp: L free_text_def split: if_splits)
    have "free_text k ?m2 = Some ?m3"
      using s by (intro free_opt) (auto simp: disjoint_iff restrict_map_def)
    then have ks: "(if nd_type n AND cJSON_StringIsConst = 0 then free_text (nd_string n) ?m2 else Some ?m2) = Some ?m3"
      using o(1) n by (auto simp: L free_text_def split: if_splits)
    have f: "free_node (Some a) ?m3 = Some (freed [L] m)"
      using n1 by (simp add: free_node_def freed_one L)
    have "nodes (freed [L] m) x = nodes m x" if "x \<in> set (map la Ls')" for x
    proof (rule freed_sel)
      show "x \<notin> set (concat (map cells [L]))"
        using that less.prems(1) la_in_all [of _ Ls'] by (auto simp: owned_def Cons disjoint_iff)
    qed
    then have "nexts (nodes (freed [L] m)) (map la Ls') = nexts (nodes m) (map la Ls')"
      by (rule nexts_cong)
    then have "nexts (nodes (freed [L] m)) (map la Ls')" using less.prems(2) by (simp add: Cons)
    moreover have "owned (freed [L] m) Ls'" using owned_freed [of m "[L]" Ls'] less.prems(1) by (simp add: Cons)
    ultimately have rest: "cJSON_Delete (first (map la Ls') None) (freed [L] m) = Some (freed Ls m)"
      using less.hyps [of Ls' "freed [L] m"] by (simp add: Cons freed_Cons [of L Ls'])
    have n2: "nodes ?m2 a = Some n" using n1 by simp
    show ?thesis
      by (subst cJSON_Delete.simps)
        (simp only: Cons L list.map lay.sel first.simps load_Some n option.distinct if_False Option.bind.simps Let_def
          child n1 vs n2 ks f next_n rest [unfolded Cons L])
  qed
qed

section \<open>The tree in memory\<close>

definition text_at :: "memory \<Rightarrow> ptr \<Rightarrow> bytes" where
  "text_at m p = (case Option.bind p (texts m) of None \<Rightarrow> [] | Some s \<Rightarrow> s)"

definition node_tree :: "node \<Rightarrow> bytes \<Rightarrow> (bytes \<times> cJSON) list \<Rightarrow> cJSON" where
  "node_tree n s kts = (let ty = nd_type n AND 255 in
     if ty = cJSON_False_t then cJSON_False
     else if ty = cJSON_True_t then cJSON_True
     else if ty = cJSON_Number_t then cJSON_Number (nd_valuedouble n)
     else if ty = cJSON_String_t then cJSON_String s
     else if ty = cJSON_Array_t then cJSON_Array (map snd kts)
     else if ty = cJSON_Object_t then cJSON_Object kts
     else cJSON_NULL)"

fun tree_of :: "memory \<Rightarrow> lay \<Rightarrow> cJSON" where
  "tree_of m (Lay a v k cs) = (case nodes m a of None \<Rightarrow> cJSON_NULL
     | Some n \<Rightarrow> node_tree n (text_at m v) (map (\<lambda>c. (text_at m (lk c), tree_of m c)) cs))"

text \<open>A plain item shares nothing, and the members of its objects have keys.\<close>

fun plain :: "memory \<Rightarrow> lay \<Rightarrow> bool" where
  "plain m (Lay a v k cs) \<longleftrightarrow> (case nodes m a of None \<Rightarrow> False
     | Some n \<Rightarrow> nd_type n AND cJSON_IsReference = 0 \<and> nd_type n AND cJSON_StringIsConst = 0 \<and>
         (nd_type n AND 255 = cJSON_Object_t \<longrightarrow> (\<forall>c \<in> set cs. lk c \<noteq> None))) \<and> (\<forall>c \<in> set cs. plain m c)"

definition fresh_above :: "memory \<Rightarrow> bool" where
  "fresh_above m \<longleftrightarrow> (\<forall>x \<ge> brk m. nodes m x = None \<and> texts m x = None)"

definition holds :: "memory \<Rightarrow> lay list \<Rightarrow> bool" where
  "holds m Ls \<longleftrightarrow> owned m Ls \<and> (\<forall>L \<in> set Ls. plain m L) \<and> fresh_above m"

lemma plain_same: "same_item m m' L \<Longrightarrow> plain m' L = plain m L"
proof (induction L)
  case (Lay a v k cs)
  have "plain m' c = plain m c" if "c \<in> set cs" for c
    using Lay.IH [OF that] same_item_child [OF Lay.prems that] by simp
  moreover have "map_option links_off (nodes m' a) = map_option links_off (nodes m a)"
    using Lay.prems by (simp add: same_item_def)
  ultimately show ?case by (auto simp: links_off_eq elim!: map_option_eq_cases)
qed

lemma text_at_cong: "(\<forall>t \<in> set (opt_list p). texts m' t = texts m t) \<Longrightarrow> text_at m' p = text_at m p"
  by (cases p) (simp_all add: text_at_def opt_list_def)

lemma text_at_same: "same_item m m' L \<Longrightarrow> text_at m' (lk L) = text_at m (lk L) \<and> text_at m' (lv L) = text_at m (lv L)"
  by (cases L) (auto simp: same_item_def intro!: text_at_cong)

lemma node_tree_cong: "links_off n' = links_off n \<Longrightarrow> node_tree n' = node_tree n"
  unfolding node_tree_def fun_eq_iff links_off_eq by metis

lemma tree_same: "same_item m m' L \<Longrightarrow> tree_of m' L = tree_of m L"
proof (induction L)
  case (Lay a v k cs)
  have c: "map (\<lambda>c. (text_at m' (lk c), tree_of m' c)) cs = map (\<lambda>c. (text_at m (lk c), tree_of m c)) cs"
    using Lay.IH same_item_child [OF Lay.prems] text_at_same by (intro map_cong) auto
  have "map_option links_off (nodes m' a) = map_option links_off (nodes m a)"
    using Lay.prems by (simp add: same_item_def)
  then show ?case
  proof (cases rule: map_option_eq_cases)
    case 1
    then show ?thesis by simp
  next
    case (2 n' n)
    then show ?thesis using text_at_same [OF Lay.prems] node_tree_cong [OF 2(3)] by (simp add: 2 c del: map_eq_conv)
  qed
qed

section \<open>Moving items in and out of a parent\<close>

lemma mset_concat_map: "mset xs = mset ys \<Longrightarrow> mset (concat (map f xs)) = mset (concat (map f ys))"
proof -
  have "mset (concat (map f zs)) = \<Sum>\<^sub># (image_mset (\<lambda>z. mset (f z)) (mset zs))" for zs
    by (induction zs) auto
  then show "mset xs = mset ys \<Longrightarrow> ?thesis" by simp
qed

lemma inner_in_cells: "x \<in> set (concat (map cells (lc c))) \<Longrightarrow> x \<in> set (cells c)"
  by (cases c) simp

lemma inner_not_root:
  assumes "distinct (concat (map cells Ls))" "c \<in> set Ls" "x \<in> set (concat (map cells (lc c)))"
  shows "x \<notin> la ` set Ls"
  using assms
proof (induction Ls)
  case (Cons L Ls)
  obtain a v k cs where L: "L = Lay a v k cs" by (cases L)
  have x: "x \<in> set (cells c)" using Cons.prems(3) by (cases c) auto
  show ?case
  proof (cases "c = L")
    case True
    then have "x \<in> set (cells L)" "x \<noteq> la L" using Cons.prems x by (auto simp: L)
    moreover have "set (cells L) \<inter> set (concat (map cells Ls)) = {}" using Cons.prems(1) by simp
    then have "x \<noteq> la K" if "K \<in> set Ls" for K
      using la_in_all [OF that] calculation(1) by blast
    ultimately show ?thesis by auto
  next
    case False
    then have c: "c \<in> set Ls" using Cons.prems(2) by simp
    then have "x \<notin> la ` set Ls" using Cons by simp
    moreover have "x \<noteq> la L" using Cons.prems(1) c x by (auto simp: L)
    ultimately show ?thesis by simp
  qed
qed simp

text \<open>
  An operation on the links of \<open>p\<close> that makes \<open>cs'\<close> the children of \<open>p\<close> out of what were its children or
  loose items leaves every item what it was.
\<close>

lemma rebuild:
  assumes "holds m (Lay p v k cs # Ks)" "relinked p A m m'" "A \<subseteq> la ` set (cs @ Ks)"
    "children m' p (map la cs')" "mset (cs' @ Ks') = mset (cs @ Ks)"
    "\<And>n. nodes m p = Some n \<Longrightarrow> nd_type n AND 255 = cJSON_Object_t \<Longrightarrow> \<forall>c \<in> set cs'. lk c \<noteq> None"
  shows "holds m' (Lay p v k cs' # Ks')"
    and "c \<in> set (cs @ Ks) \<Longrightarrow> same_item m m' c"
    and "tree_of m' (Lay p v k cs') = (case nodes m p of None \<Rightarrow> cJSON_NULL
      | Some n \<Rightarrow> node_tree n (text_at m v) (map (\<lambda>c. (text_at m (lk c), tree_of m c)) cs'))"
proof -
  have d: "distinct (p # concat (map cells (cs @ Ks)))" "distinct (opt_list v @ opt_list k @ concat (map strings (cs @ Ks)))"
    using assms(1) by (auto simp: holds_def owned_def)
  have s: "set (cs' @ Ks') = set (cs @ Ks)" using assms(5) by (rule mset_eq_setD)
  have same: "same_item m m' c" if c: "c \<in> set (cs @ Ks)" for c
  proof -
    have r: "la c \<noteq> p" using d(1) la_in_all [OF c] by (auto simp del: set_concat)
    have "nodes m' x = nodes m x" if x: "x \<in> set (concat (map cells (lc c)))" for x
    proof -
      have "x \<notin> la ` set (cs @ Ks)"
      proof (rule inner_not_root [OF _ c x])
        show "distinct (concat (map cells (cs @ Ks)))" using d(1) by simp
      qed
      moreover have "x \<in> set (concat (map cells (cs @ Ks)))"
        using inner_in_cells [OF x] c by auto
      then have "x \<noteq> p" using d(1) by auto
      ultimately show ?thesis using assms(2,3) by (auto simp: relinked_def)
    qed
    then show ?thesis using assms(2) r by (auto simp: same_item_def relinked_def)
  qed
  then show "c \<in> set (cs @ Ks) \<Longrightarrow> same_item m m' c" .
  have np: "map_option child_off (nodes m' p) = map_option child_off (nodes m p)" "texts m' = texts m" "brk m' = brk m"
    using assms(2) by (auto simp: relinked_def)
  obtain n where n: "nodes m p = Some n" using assms(1) by (auto simp: holds_def owned_def split: option.splits)
  then obtain n' where n': "nodes m' p = Some n'" "child_off n' = child_off n" using np(1) by auto
  have l: "laid m (Lay p v k cs)" "plain m (Lay p v k cs)" using assms(1) by (auto simp: holds_def owned_def)
  have cs': "c \<in> set (cs @ Ks)" if "c \<in> set cs'" for c using that s by auto
  have laid_cs: "laid m' c" "plain m' c" if "c \<in> set (cs @ Ks)" for c
    using laid_same [OF same] plain_same [OF same] that assms(1) by (auto simp: holds_def owned_def)
  have "laid m' (Lay p v k cs')"
    using l n n' assms(4) laid_cs(1) cs' np(2) by (auto simp: child_off_eq children_def)
  moreover have "plain m' (Lay p v k cs')" using l(2) n n' laid_cs(2) cs' assms(6) by (auto simp: child_off_eq)
  moreover have "fresh_above m'"
    unfolding fresh_above_def
  proof (intro allI impI)
    fix x assume "brk m' \<le> x"
    then have x: "nodes m x = None" "texts m' x = None" using assms(1) np by (auto simp: holds_def fresh_above_def)
    then have "map_option links_off (nodes m' x) = None" using n assms(2) by (cases "x = p") (auto simp: relinked_def)
    then show "nodes m' x = None \<and> texts m' x = None" using x(2) by simp
  qed
  moreover have "distinct (p # concat (map cells (cs' @ Ks')))"
    "distinct (opt_list v @ opt_list k @ concat (map strings (cs' @ Ks')))"
    using d mset_eq_imp_distinct_iff [of "p # concat (map cells (cs' @ Ks'))" "p # concat (map cells (cs @ Ks))"]
      mset_eq_imp_distinct_iff [of "opt_list v @ opt_list k @ concat (map strings (cs' @ Ks'))"
        "opt_list v @ opt_list k @ concat (map strings (cs @ Ks))"]
      mset_concat_map [OF assms(5), of cells] mset_concat_map [OF assms(5), of strings]
    by (simp_all only: mset.simps mset_append)
  ultimately show "holds m' (Lay p v k cs' # Ks')"
    using laid_cs s by (auto simp: holds_def owned_def)
  have "map (\<lambda>c. (text_at m' (lk c), tree_of m' c)) cs' = map (\<lambda>c. (text_at m (lk c), tree_of m c)) cs'"
    using tree_same [OF same] text_at_same [OF same] cs' by (intro map_cong) auto
  moreover have "node_tree n' = node_tree n"
    using n'(2) unfolding node_tree_def fun_eq_iff child_off_eq by metis
  moreover have "text_at m' v = text_at m v" by (simp add: text_at_def np(2))
  ultimately show "tree_of m' (Lay p v k cs') = (case nodes m p of None \<Rightarrow> cJSON_NULL
      | Some n \<Rightarrow> node_tree n (text_at m v) (map (\<lambda>c. (text_at m (lk c), tree_of m c)) cs'))"
    by (simp add: n n' del: map_eq_conv)
qed

end
