(* ===== verification/CJsonItems.thy ===== *)
theory CJsonItems
  imports CJsonTrees
begin

text \<open>
  The operations of \<open>cJSON.c\<close> on items in memory implement the operations on trees: those of \<open>CJson\<close>, and
  the list operations on the elements of an array. Each leaves the other items what they were.
\<close>

unbundle bit_operations_syntax

definition loose :: "memory \<Rightarrow> lay \<Rightarrow> bool" where
  "loose m L \<longleftrightarrow> (case nodes m (la L) of None \<Rightarrow> False | Some n \<Rightarrow> nd_next n = None)"

definition becomes :: "memory \<Rightarrow> memory \<Rightarrow> nat \<Rightarrow> cJSON \<Rightarrow> lay list \<Rightarrow> bool" where
  "becomes m m' p t Ks \<longleftrightarrow> (\<exists>P. la P = p \<and> holds m' (P # Ks) \<and> tree_of m' P = t) \<and> (\<forall>K \<in> set Ks. tree_of m' K = tree_of m K)"

section \<open>Parents\<close>

lemma distinct_roots: "distinct (concat (map cells cs)) \<Longrightarrow> distinct (map la cs)"
proof (induction cs)
  case (Cons c cs)
  then have "set (cells c) \<inter> set (concat (map cells cs)) = {}" "distinct (map la cs)" by auto
  moreover have "la c \<in> set (cells c)" by simp
  ultimately have "la c \<noteq> la d" if "d \<in> set cs" for d using la_in_all [OF that] by (metis disjoint_iff)
  then show ?case using \<open>distinct (map la cs)\<close> by auto
qed simp

lemma holds_children:
  assumes "holds m (Lay p v k cs # Ks)"
  shows "children m p (map la cs)"
proof -
  obtain n where n: "nodes m p = Some n" "nd_type n AND cJSON_IsReference = 0"
    using assms by (auto simp: holds_def owned_def split: option.splits)
  have d: "distinct (p # concat (map cells cs))" using assms by (simp add: holds_def owned_def)
  then have "distinct (map la cs)" by (simp add: distinct_roots)
  moreover have "p \<notin> set (map la cs)" using d la_in_all by (auto simp del: set_concat)
  ultimately show ?thesis using assms n by (auto simp: children_def holds_def owned_def)
qed

lemma holds_mset: "mset Ls = mset Ls' \<Longrightarrow> holds m Ls = holds m Ls'"
  using mset_eq_imp_distinct_iff [OF mset_concat_map, of Ls Ls' cells] mset_eq_imp_distinct_iff [OF mset_concat_map, of Ls Ls' strings]
    mset_eq_setD [of Ls Ls'] by (simp add: holds_def owned_def)

lemma node_tree_Array: "node_tree n s kts = cJSON_Array ts \<longleftrightarrow> nd_type n AND 255 = cJSON_Array_t \<and> ts = map snd kts"
  by (auto simp: node_tree_def Let_def)

lemma node_tree_Object: "node_tree n s kts = cJSON_Object ms \<longleftrightarrow> nd_type n AND 255 = cJSON_Object_t \<and> ms = kts"
  by (auto simp: node_tree_def Let_def)

lemma tree_of_Array: "tree_of m (Lay p v k cs) = cJSON_Array ts \<longleftrightarrow>
    (\<exists>n. nodes m p = Some n \<and> nd_type n AND 255 = cJSON_Array_t) \<and> ts = map (tree_of m) cs"
  by (auto simp: node_tree_Array comp_def split: option.splits)

lemma tree_of_Object: "tree_of m (Lay p v k cs) = cJSON_Object ms \<longleftrightarrow>
    (\<exists>n. nodes m p = Some n \<and> nd_type n AND 255 = cJSON_Object_t) \<and> ms = map (\<lambda>c. (text_at m (lk c), tree_of m c)) cs"
  by (auto simp: node_tree_Object split: option.splits)

lemma rebuild_array:
  assumes "holds m (Lay p v k cs # Ks)" "tree_of m (Lay p v k cs) = cJSON_Array ts" "relinked p A m m'"
    "A \<subseteq> la ` set (cs @ Ks)" "children m' p (map la cs')" "mset (cs' @ Ks') = mset (cs @ Ks)"
  shows "becomes m m' p (cJSON_Array (map (tree_of m) cs')) Ks'" "tree_of m' (Lay p v k cs') = cJSON_Array (map (tree_of m) cs')"
    "holds m' (Lay p v k cs' # Ks')" "\<And>c. c \<in> set (cs @ Ks) \<Longrightarrow> same_item m m' c"
proof -
  obtain n where n: "nodes m p = Some n" "nd_type n AND 255 = cJSON_Array_t" using assms(2) by (auto simp: tree_of_Array simp del: tree_of.simps)
  note r = rebuild [OF assms(1,3-6)]
  show h: "holds m' (Lay p v k cs' # Ks')" using n by (intro r) auto
  show s: "\<And>c. c \<in> set (cs @ Ks) \<Longrightarrow> same_item m m' c" using n by (intro r) auto
  have "tree_of m' (Lay p v k cs') = (case nodes m p of None \<Rightarrow> cJSON_NULL
      | Some n \<Rightarrow> node_tree n (text_at m v) (map (\<lambda>c. (text_at m (lk c), tree_of m c)) cs'))"
    using n by (intro r) auto
  then show t: "tree_of m' (Lay p v k cs') = cJSON_Array (map (tree_of m) cs')"
    using n by (simp add: node_tree_def comp_def del: tree_of.simps)
  have "K \<in> set (cs @ Ks)" if "K \<in> set Ks'" for K using mset_eq_setD [OF assms(6)] that by auto
  then have "tree_of m' K = tree_of m K" if "K \<in> set Ks'" for K using tree_same [OF s] that by auto
  then show "becomes m m' p (cJSON_Array (map (tree_of m) cs')) Ks'"
    unfolding becomes_def using h t by (intro conjI exI [of _ "Lay p v k cs'"]) auto
qed

lemma holds_apart:
  assumes "holds m (Lay p v k cs # L # Ks)"
  shows "la L \<notin> set (map la cs)" "la L \<noteq> p" "\<exists>n. nodes m (la L) = Some n"
proof -
  have d: "set (p # concat (map cells cs)) \<inter> set (cells L) = {}"
    using assms by (auto simp: holds_def owned_def)
  moreover have "la L \<in> set (cells L)" by simp
  ultimately have "la L \<notin> set (p # concat (map cells cs))" by blast
  then show "la L \<notin> set (map la cs)" "la L \<noteq> p" using la_in_all by (auto simp del: set_concat)
  show "\<exists>n. nodes m (la L) = Some n" using assms by (cases L) (auto simp: holds_def owned_def split: option.splits)
qed

lemma looseD: "loose m L \<Longrightarrow> \<exists>n. nodes m (la L) = Some n \<and> nd_next n = None"
  by (auto simp: loose_def split: option.splits)

section \<open>Deleting an item\<close>

lemma delete_loose:
  assumes "holds m (L # Ks)" "loose m L"
  shows "cJSON_Delete (Some (la L)) m = Some (freed [L] m)" "holds (freed [L] m) Ks"
    "K \<in> set Ks \<Longrightarrow> same_item m (freed [L] m) K"
proof -
  have o: "owned m (L # Ks)" using assms(1) by (simp add: holds_def)
  then have "owned m [L]" by (simp add: owned_def)
  moreover have "nexts (nodes m) (map la [L])" using looseD [OF assms(2)] by auto
  ultimately show "cJSON_Delete (Some (la L)) m = Some (freed [L] m)" using delete_owned [of m "[L]"] by simp
  have s: "same_item m (freed [L] m) K" if "K \<in> set Ks" for K
    using o that by (intro same_itemI freed_sel) (auto simp: owned_def)
  then show "K \<in> set Ks \<Longrightarrow> same_item m (freed [L] m) K" .
  have "fresh_above (freed [L] m)" using assms(1) by (auto simp: holds_def fresh_above_def freed_def restrict_map_def)
  then show "holds (freed [L] m) Ks"
    using owned_freed [of m "[L]" Ks] o assms(1) plain_same [OF s] by (auto simp: holds_def)
qed

lemma becomes_delete:
  assumes "becomes m m' p t (L # Ks)" "loose m' L"
  shows "\<exists>m''. cJSON_Delete (Some (la L)) m' = Some m'' \<and> becomes m m'' p t Ks"
proof -
  obtain P where P: "la P = p" "holds m' (P # L # Ks)" "tree_of m' P = t" using assms(1) by (auto simp: becomes_def)
  have h: "holds m' (L # P # Ks)" using P(2) holds_mset [of "P # L # Ks" "L # P # Ks"] by simp
  note d = delete_loose [OF h assms(2)]
  have "tree_of (freed [L] m') K = tree_of m' K" if "K \<in> set (P # Ks)" for K using tree_same [OF d(3)] that by auto
  then show ?thesis using d(1,2) P assms(1) unfolding becomes_def by (intro exI [of _ "freed [L] m'"]) fastforce
qed

section \<open>Elements of an array\<close>

lemma array_size:
  assumes "holds m (P # Ks)" "tree_of m P = cJSON_Array ts"
  shows "cJSON_GetArraySize (Some (la P)) m = Some (wrap32 (int (length ts)))"
  using assms GetArraySize_children [OF holds_children] by (cases P) (auto simp: tree_of_Array simp del: tree_of.simps)

lemma array_get:
  assumes "holds m (P # Ks)" "tree_of m P = cJSON_Array ts"
  shows "\<exists>r. cJSON_GetArrayItem_n (Some (la P)) i m = Some (map_option la r) \<and>
    map_option (tree_of m) r = cJSON_GetArrayItem (Some (cJSON_Array ts)) i"
proof -
  obtain p v k cs where P: "P = Lay p v k cs" by (cases P)
  have ts: "ts = map (tree_of m) cs" using assms(2) by (simp add: P tree_of_Array del: tree_of.simps)
  have "cJSON_GetArrayItem_n (Some p) i m = Some (if 0 \<le> i \<and> nat i < length cs then Some (la (cs ! nat i)) else None)"
    using get_array_item_children [OF holds_children, of m p v k cs Ks "nat i"] assms(1)
    by (simp add: P cJSON_GetArrayItem_n_def)
  then show ?thesis
    by (intro exI [of _ "if 0 \<le> i \<and> nat i < length cs then Some (cs ! nat i) else None"])
      (auto simp: P ts cJSON_GetArrayItem_def)
qed

lemma array_add:
  assumes "holds m (P # L # Ks)" "tree_of m P = cJSON_Array ts" "loose m L"
  shows "\<exists>m'. add_item_to_array (Some (la P)) (Some (la L)) m = Some (True, m') \<and>
    becomes m m' (la P) (cJSON_Array (ts @ [tree_of m L])) Ks"
proof -
  obtain p v k cs where P: "P = Lay p v k cs" by (cases P)
  have ts: "ts = map (tree_of m) cs" using assms(2) by (simp add: P tree_of_Array del: tree_of.simps)
  have h: "holds m (Lay p v k cs # L # Ks)" using assms(1) by (simp add: P)
  obtain n where "nodes m (la L) = Some n" "nd_next n = None" using looseD [OF assms(3)] by blast
  then obtain m' where m': "add_item_to_array (Some p) (Some (la L)) m = Some (True, m')" "children m' p (map la (cs @ [L]))"
    "relinked p (insert (la L) (set (map la cs))) m m'"
    using add_item_children [OF holds_children [OF h], of "la L" n] holds_apart(1,2) [OF h] by auto
  have "becomes m m' p (cJSON_Array (map (tree_of m) (cs @ [L]))) Ks"
    using assms(1,2) m'(2,3) by (intro rebuild_array(1) [where A = "insert (la L) (set (map la cs))"]) (auto simp: P simp del: tree_of.simps)
  then show ?thesis using m'(1) by (auto simp: P ts)
qed

lemma array_split:
  assumes "holds m (P # Ks)" "tree_of m P = cJSON_Array ts" "i < length ts"
  obtains p v k xs a ys where "P = Lay p v k (xs @ a # ys)" "length xs = i"
    "ts = map (tree_of m) xs @ tree_of m a # map (tree_of m) ys"
    "children m p (map la xs @ la a # map la ys)" "get_array_item (Some p) i m = Some (Some (la a))"
proof -
  obtain p v k cs where P: "P = Lay p v k cs" by (cases P)
  have ts: "ts = map (tree_of m) cs" using assms(2) by (simp add: P tree_of_Array del: tree_of.simps)
  then have i: "i < length cs" using assms(3) by simp
  then obtain xs a ys where cs: "cs = xs @ a # ys" "length xs = i" by (metis id_take_nth_drop length_take min.absorb4)
  have c: "children m p (map la cs)" using holds_children assms(1) by (simp add: P)
  have "get_array_item (Some p) i m = Some (Some (la a))"
    using get_array_item_children [OF c, of i] by (simp add: cs nth_append)
  then show thesis using that [of p v k xs a ys] c ts by (simp add: P cs)
qed

lemma array_detach:
  assumes "holds m (P # Ks)" "tree_of m P = cJSON_Array ts" "i < length ts"
  shows "\<exists>m' L. cJSON_DetachItemFromArray (Some (la P)) (int i) m = Some (Some (la L), m') \<and>
    becomes m m' (la P) (cJSON_Array (take i ts @ drop (Suc i) ts)) (L # Ks) \<and> tree_of m L = ts ! i \<and> loose m' L"
proof -
  obtain p v k xs a ys where s: "P = Lay p v k (xs @ a # ys)" "length xs = i"
    "ts = map (tree_of m) xs @ tree_of m a # map (tree_of m) ys"
    "children m p (map la xs @ la a # map la ys)" "get_array_item (Some p) i m = Some (Some (la a))"
    by (rule array_split [OF assms])
  obtain m' n where m': "cJSON_DetachItemViaPointer (Some p) (Some (la a)) m = Some (Some (la a), m')"
    "children m' p (map la (xs @ ys))" "relinked p (set (map la xs @ la a # map la ys)) m m'"
    "nodes m' (la a) = Some n" "nd_next n = None"
    using detach_children [OF s(4)] by auto
  have "becomes m m' p (cJSON_Array (map (tree_of m) (xs @ ys))) (a # Ks)"
    using assms(1,2) m'(2,3)
    by (intro rebuild_array(1) [where A = "set (map la xs @ la a # map la ys)" and cs = "xs @ a # ys" and Ks = Ks])
      (auto simp: s(1) simp del: tree_of.simps)
  moreover have "loose m' a" using m'(4,5) by (simp add: loose_def)
  ultimately show ?thesis using m'(1) s(1,2,3,5)
    by (intro exI [of _ m'] exI [of _ a]) (auto simp: cJSON_DetachItemFromArray_def nth_append)
qed

lemma array_insert:
  assumes "holds m (P # L # Ks)" "tree_of m P = cJSON_Array ts" "loose m L"
  shows "\<exists>m'. cJSON_InsertItemInArray (Some (la P)) (int i) (Some (la L)) m = Some (True, m') \<and>
    becomes m m' (la P) (cJSON_Array (take i ts @ tree_of m L # drop i ts)) Ks"
proof (cases "i < length ts")
  case True
  obtain p v k xs a ys where s: "P = Lay p v k (xs @ a # ys)" "length xs = i"
    "ts = map (tree_of m) xs @ tree_of m a # map (tree_of m) ys"
    "children m p (map la xs @ la a # map la ys)" "get_array_item (Some p) i m = Some (Some (la a))"
    by (rule array_split [OF assms(1,2) True])
  have h: "holds m (Lay p v k (xs @ a # ys) # L # Ks)" using assms(1) by (simp add: s(1))
  obtain n where "nodes m (la L) = Some n" using holds_apart(3) [OF h] by blast
  then obtain m' where m': "cJSON_InsertItemInArray (Some p) (int (length xs)) (Some (la L)) m = Some (True, m')"
    "children m' p (map la (xs @ L # a # ys))" "relinked p (insert (la L) (set (map la xs @ la a # map la ys))) m m'"
    using insert_children [OF s(4), of "la L" n] holds_apart(1,2) [OF h] by auto
  have "becomes m m' p (cJSON_Array (map (tree_of m) (xs @ L # a # ys))) Ks"
    using assms(1,2) m'(2,3)
    by (intro rebuild_array(1) [where A = "insert (la L) (set (map la xs @ la a # map la ys))" and cs = "xs @ a # ys" and Ks = "L # Ks"])
      (auto simp: s(1) simp del: tree_of.simps)
  then show ?thesis using m'(1) s(1,2,3) by auto
next
  case False
  obtain p v k cs where P: "P = Lay p v k cs" by (cases P)
  have "ts = map (tree_of m) cs" using assms(2) by (simp add: P tree_of_Array del: tree_of.simps)
  then have "get_array_item (Some p) i m = Some None"
    using get_array_item_children [OF holds_children, of m p v k cs "L # Ks" i] assms(1) False by (simp add: P)
  then show ?thesis using array_add [OF assms] False by (simp add: P cJSON_InsertItemInArray_def)
qed

lemma array_replace:
  assumes "holds m (P # L # Ks)" "tree_of m P = cJSON_Array ts" "i < length ts"
  shows "\<exists>m'. cJSON_ReplaceItemInArray (Some (la P)) (int i) (Some (la L)) m = Some (True, m') \<and>
    becomes m m' (la P) (cJSON_Array (ts[i := tree_of m L])) Ks"
proof -
  obtain p v k xs a ys where s: "P = Lay p v k (xs @ a # ys)" "length xs = i"
    "ts = map (tree_of m) xs @ tree_of m a # map (tree_of m) ys"
    "children m p (map la xs @ la a # map la ys)" "get_array_item (Some p) i m = Some (Some (la a))"
    by (rule array_split [OF assms])
  have h: "holds m (Lay p v k (xs @ a # ys) # L # Ks)" using assms(1) by (simp add: s(1))
  obtain r where "nodes m (la L) = Some r" using holds_apart(3) [OF h] by blast
  then obtain m' n where m': "cJSON_ReplaceItemViaPointer (Some p) (Some (la a)) (Some (la L)) m =
      Option.bind (cJSON_Delete (Some (la a)) m') (\<lambda>m''. Some (True, m''))"
    "children m' p (map la (xs @ L # ys))" "relinked p (insert (la L) (set (map la xs @ la a # map la ys))) m m'"
    "nodes m' (la a) = Some n" "nd_next n = None"
    using replace_children [OF s(4), of "la L" r] holds_apart(1,2) [OF h] by auto
  have "becomes m m' p (cJSON_Array (map (tree_of m) (xs @ L # ys))) (a # Ks)"
    using assms(1,2) m'(2,3)
    by (intro rebuild_array(1) [where A = "insert (la L) (set (map la xs @ la a # map la ys))" and cs = "xs @ a # ys" and Ks = "L # Ks"])
      (auto simp: s(1) simp del: tree_of.simps)
  moreover have "loose m' a" using m'(4,5) by (simp add: loose_def)
  ultimately obtain m'' where "cJSON_Delete (Some (la a)) m' = Some m''"
    "becomes m m'' p (cJSON_Array (map (tree_of m) (xs @ L # ys))) Ks" using becomes_delete by blast
  then show ?thesis using m'(1) s(1,2,3,5) by (auto simp: cJSON_ReplaceItemInArray_def list_update_append)
qed

section \<open>Members of an object\<close>

lemma laid_strings: "laid m L \<Longrightarrow> t \<in> set (strings L) \<Longrightarrow> texts m t \<noteq> None"
  by (induction L) auto

lemma laid_cells: "laid m L \<Longrightarrow> x \<in> set (cells L) \<Longrightarrow> nodes m x \<noteq> None"
  by (induction L) (auto split: option.splits)

lemma rebuild_object:
  assumes "holds m (Lay p v k cs # Ks)" "tree_of m (Lay p v k cs) = cJSON_Object ms" "relinked p A m m'"
    "A \<subseteq> la ` set (cs @ Ks)" "children m' p (map la cs')" "mset (cs' @ Ks') = mset (cs @ Ks)" "\<forall>c \<in> set cs'. lk c \<noteq> None"
  shows "becomes m m' p (cJSON_Object (map (\<lambda>c. (text_at m (lk c), tree_of m c)) cs')) Ks'"
proof -
  obtain n where n: "nodes m p = Some n" "nd_type n AND 255 = cJSON_Object_t" using assms(2) by (auto simp: tree_of_Object simp del: tree_of.simps)
  note r = rebuild [OF assms(1,3-6)]
  have h: "holds m' (Lay p v k cs' # Ks')" using assms(7) by (intro r) auto
  have s: "\<And>c. c \<in> set (cs @ Ks) \<Longrightarrow> same_item m m' c" using assms(7) by (intro r) auto
  have "tree_of m' (Lay p v k cs') = (case nodes m p of None \<Rightarrow> cJSON_NULL
      | Some n \<Rightarrow> node_tree n (text_at m v) (map (\<lambda>c. (text_at m (lk c), tree_of m c)) cs'))"
    using assms(7) by (intro r) auto
  then have t: "tree_of m' (Lay p v k cs') = cJSON_Object (map (\<lambda>c. (text_at m (lk c), tree_of m c)) cs')"
    using n by (simp add: node_tree_def del: tree_of.simps)
  have "K \<in> set (cs @ Ks)" if "K \<in> set Ks'" for K using mset_eq_setD [OF assms(6)] that by auto
  then have "tree_of m' K = tree_of m K" if "K \<in> set Ks'" for K using tree_same [OF s] that by auto
  then show ?thesis
    unfolding becomes_def using h t by (intro conjI exI [of _ "Lay p v k cs'"]) auto
qed

lemma object_keys:
  assumes "holds m (Lay p v k cs # Ks)" "tree_of m (Lay p v k cs) = cJSON_Object ms" "c \<in> set cs"
  shows "\<exists>n t s. nodes m (la c) = Some n \<and> nd_string n = Some t \<and> lk c = Some t \<and> texts m t = Some s \<and> text_at m (lk c) = s"
proof -
  have "laid m c" "plain m c" using assms(1,3) by (auto simp: holds_def owned_def)
  moreover have "lk c \<noteq> None" using assms by (auto simp: holds_def tree_of_Object simp del: tree_of.simps split: option.splits)
  ultimately show ?thesis by (cases c) (auto simp: opt_list_def text_at_def split: option.splits)
qed

lemma find_item_children:
  assumes "\<And>c. c \<in> set cs \<Longrightarrow> \<exists>n t s. nodes m (la c) = Some n \<and> nd_string n = Some t \<and> lk c = Some t \<and> texts m t = Some s \<and> text_at m (lk c) = s"
    "dseg (nodes m) q (map la cs) None"
  shows "find_item b name (first (map la cs) None) m = Some (map_option la
    (List.find (\<lambda>c. if b then name = text_at m (lk c) else case_insensitive_eq name (text_at m (lk c))) cs))"
  using assms
proof (induction cs arbitrary: q)
  case Nil
  show ?case by (subst find_item.simps) simp
next
  case (Cons c cs)
  obtain n t s where "nodes m (la c) = Some n" "nd_string n = Some t" "lk c = Some t" "texts m t = Some s" "text_at m (lk c) = s"
    using Cons.prems(1) by force
  moreover have "find_item b name (first (map la cs) None) m = Some (map_option la
    (List.find (\<lambda>c. if b then name = text_at m (lk c) else case_insensitive_eq name (text_at m (lk c))) cs))"
    using Cons.prems by (intro Cons.IH [of "Some (la c)"]) auto
  ultimately show ?case using Cons.prems(2) by (subst find_item.simps) auto
qed

lemma find_of_map: "List.find P (map f xs) = map_option f (List.find (P \<circ> f) xs)"
  by (induction xs) auto

lemma get_object_item_found:
  assumes "holds m (Lay p v k cs # Ks)" "tree_of m (Lay p v k cs) = cJSON_Object ms" "texts m s = Some name"
  shows "get_object_item (Some p) (Some s) b m = Some (map_option la
    (List.find (\<lambda>c. if b then name = text_at m (lk c) else case_insensitive_eq name (text_at m (lk c))) cs))"
proof -
  obtain pn where pn: "nodes m p = Some pn" "nd_child pn = first (map la cs) None" "dseg (nodes m) (final None (map la cs)) (map la cs) None"
    using holds_children [OF assms(1)] by (rule childrenE)
  show ?thesis using find_item_children [OF object_keys [OF assms(1,2)] pn(3)] pn assms(3) by (simp add: get_object_item_def)
qed

lemma object_get:
  assumes "holds m (P # Ks)" "tree_of m P = cJSON_Object ms" "texts m s = Some name"
  shows "\<exists>r. cJSON_GetObjectItem_n (Some (la P)) (Some s) m = Some (map_option la r) \<and>
    map_option (tree_of m) r = cJSON_GetObjectItem (Some (cJSON_Object ms)) name"
proof -
  obtain p v k cs where P: "P = Lay p v k cs" by (cases P)
  have "ms = map (\<lambda>c. (text_at m (lk c), tree_of m c)) cs" using assms(2) by (simp add: P tree_of_Object del: tree_of.simps)
  then have "cJSON_GetObjectItem (Some (cJSON_Object ms)) name =
      map_option (tree_of m) (List.find (\<lambda>c. case_insensitive_eq name (text_at m (lk c))) cs)"
    by (simp add: cJSON_GetObjectItem_def find_of_map comp_def option.map_comp)
  then show ?thesis
    using get_object_item_found [of m p v k cs Ks ms s name False] assms by (auto simp: P cJSON_GetObjectItem_n_def simp del: tree_of.simps)
qed

lemma and_not_absent: "x AND y = 0 \<Longrightarrow> x AND NOT y = (x :: int)"
  by (rule bit_eqI) (metis bit_0_eq bit_and_iff bit_not_iff bot_apply bot_bool_def)

text \<open>Giving a loose item its key: the copy, the release of the old key, the new one.\<close>

lemma set_key:
  assumes "holds m (Lay a v k cs # Ks)" "texts m s = Some key" "nodes m a = Some n"
  shows "\<exists>m'. (do { (new_key, m1) \<leftarrow> cJSON_strdup (Some s) m; m2 \<leftarrow> free_text k m1;
      store (Some a) (\<lambda>n. n\<lparr>nd_string := new_key, nd_type := nd_type n AND NOT cJSON_StringIsConst\<rparr>) m2 }) = Some m' \<and>
    holds m' (Lay a v (Some (brk m)) cs # Ks) \<and> text_at m' (Some (brk m)) = key \<and>
    tree_of m' (Lay a v (Some (brk m)) cs) = tree_of m (Lay a v k cs) \<and>
    (\<forall>K \<in> set Ks. same_item m m' K) \<and> map_option nd_next (nodes m' a) = Some (nd_next n)"
proof -
  let ?n = "n\<lparr>nd_string := Some (brk m), nd_type := nd_type n AND NOT cJSON_StringIsConst\<rparr>"
  let ?m' = "m\<lparr>nodes := (nodes m)(a \<mapsto> ?n), texts := (texts m)(brk m \<mapsto> key) |` (- set (opt_list k)), brk := Suc (brk m)\<rparr>"
  have h: "owned m (Lay a v k cs # Ks)" "plain m (Lay a v k cs)" "fresh_above m" using assms(1) by (auto simp: holds_def)
  have ty: "nd_type n AND NOT cJSON_StringIsConst = nd_type n" using h(2) assms(3) and_not_absent [of "nd_type n" cJSON_StringIsConst] by simp
  have fresh: "brk m \<notin> set (concat (map strings (Lay a v k cs # Ks)))"
  proof
    assume "brk m \<in> set (concat (map strings (Lay a v k cs # Ks)))"
    then obtain L where "L \<in> set (Lay a v k cs # Ks)" "brk m \<in> set (strings L)" unfolding set_concat set_map by blast
    moreover from this have "laid m L" using h(1) unfolding owned_def by blast
    ultimately have "texts m (brk m) \<noteq> None" using laid_strings by blast
    then show False using h(3) by (simp add: fresh_above_def)
  qed
  have ks: "\<forall>t \<in> set (opt_list k). ((texts m)(brk m \<mapsto> key)) t \<noteq> None" using h(1) by (auto simp: owned_def)
  have run: "(do { (new_key, m1) \<leftarrow> cJSON_strdup (Some s) m; m2 \<leftarrow> free_text k m1;
      store (Some a) (\<lambda>n. n\<lparr>nd_string := new_key, nd_type := nd_type n AND NOT cJSON_StringIsConst\<rparr>) m2 }) = Some ?m'"
    using ks free_opt [of k "m\<lparr>texts := (texts m)(brk m \<mapsto> key), brk := Suc (brk m)\<rparr>"] assms(2,3)
    by (simp add: cJSON_strdup_def store_Some)
  have d: "distinct (concat (map cells (Lay a v k cs # Ks)))" "distinct (concat (map strings (Lay a v k cs # Ks)))"
    using h(1) by (simp_all only: owned_def)
  have same: "same_item m ?m' K" if K: "K \<in> set (cs @ Ks)" for K
  proof -
    have "a \<notin> set (cells K)" using d(1) K by auto
    moreover have "t \<noteq> brk m \<and> t \<notin> set (opt_list k)" if "t \<in> set (strings K)" for t
      using d(2) fresh K that by auto
    ultimately show ?thesis by (intro same_itemI) auto
  qed
  have vk: "brk m \<notin> set (opt_list k)" "t \<in> set (opt_list v) \<Longrightarrow> t \<notin> set (opt_list k) \<and> t \<noteq> brk m" for t
    using d(2) fresh by auto
  have "a \<notin> set (map la cs)" using d(1) la_in_all [of _ cs] by (auto simp del: set_concat)
  then have seg: "a \<notin> la ` set cs" by simp
  have ll: "\<forall>L \<in> set (cs @ Ks). laid ?m' L \<and> plain ?m' L"
    using h(1) assms(1) laid_same [OF same] plain_same [OF same] by (auto simp: owned_def holds_def)
  have l: "laid ?m' (Lay a v (Some (brk m)) cs)" "plain ?m' (Lay a v (Some (brk m)) cs)"
    using h(1,2) assms(3) ty ll vk by (auto simp: owned_def seg opt_list_def)
  have "fresh_above ?m'" using h(3) assms(3) by (auto simp: fresh_above_def restrict_map_def)
  moreover have "distinct (concat (map strings (Lay a v (Some (brk m)) cs # Ks)))"
    using d(2) fresh by (auto simp: opt_list_def [of "Some (brk m)"])
  moreover have "distinct (concat (map cells (Lay a v (Some (brk m)) cs # Ks)))" using d(1) by simp
  moreover have "laid ?m' K \<and> plain ?m' K" if "K \<in> set (Lay a v (Some (brk m)) cs # Ks)" for K
    using that l ll by (auto simp del: laid.simps plain.simps)
  ultimately have "holds ?m' (Lay a v (Some (brk m)) cs # Ks)"
    unfolding holds_def owned_def by blast
  moreover have "text_at ?m' (Some (brk m)) = key" using vk(1) by (simp add: text_at_def)
  moreover have "map (\<lambda>c. (text_at ?m' (lk c), tree_of ?m' c)) cs = map (\<lambda>c. (text_at m (lk c), tree_of m c)) cs"
    using tree_same [OF same] text_at_same [OF same] by (intro map_cong) auto
  moreover have "text_at ?m' v = text_at m v" using vk by (intro text_at_cong) auto
  ultimately show ?thesis using run assms(3) ty same
    by (intro exI [of _ ?m']) (auto simp: node_tree_def Let_def simp del: map_eq_conv)
qed

lemma object_add:
  assumes "holds m (P # L # Ks)" "tree_of m P = cJSON_Object ms" "loose m L" "texts m s = Some key"
  shows "\<exists>m'. cJSON_AddItemToObject_n (Some (la P)) (Some s) (Some (la L)) m = Some (True, m') \<and>
    becomes m m' (la P) (cJSON_AddItemToObject (tree_of m P) key (tree_of m L)) Ks"
proof -
  obtain p pv pk pcs where P: "P = Lay p pv pk pcs" by (cases P)
  obtain a v k cs where L: "L = Lay a v k cs" by (cases L)
  let ?L = "Lay a v (Some (brk m)) cs"
  obtain n where n: "nodes m a = Some n" "nd_next n = None" using looseD [OF assms(3)] L by auto
  have h: "holds m (L # P # Ks)" using assms(1) holds_mset [of "P # L # Ks" "L # P # Ks"] by simp
  then have key: "nd_string n = k" "nd_type n AND cJSON_StringIsConst = 0" using n(1) by (auto simp: L holds_def owned_def)
  obtain m' where m': "(do { (new_key, m1) \<leftarrow> cJSON_strdup (Some s) m; m2 \<leftarrow> free_text k m1;
      store (Some a) (\<lambda>n. n\<lparr>nd_string := new_key, nd_type := nd_type n AND NOT cJSON_StringIsConst\<rparr>) m2 }) = Some m'"
    "holds m' (?L # P # Ks)" "text_at m' (Some (brk m)) = key" "tree_of m' ?L = tree_of m L"
    "\<forall>K \<in> set (P # Ks). same_item m m' K" "map_option nd_next (nodes m' a) = Some None"
    using set_key [OF h [unfolded L] assms(4) n(1)] n(2) L by auto
  have h': "holds m' (P # ?L # Ks)" using m'(2) holds_mset [of "?L # P # Ks" "P # ?L # Ks"] by simp
  obtain n' where n': "nodes m' a = Some n'" "nd_next n' = None" using m'(6) by auto
  obtain m'' where m'': "add_item_to_array (Some p) (Some a) m' = Some (True, m'')" "children m'' p (map la (pcs @ [?L]))"
    "relinked p (insert a (set (map la pcs))) m' m''"
    using add_item_children [OF holds_children, of m' p pv pk pcs "?L # Ks" a n'] holds_apart(1,2) [of m' p pv pk pcs ?L Ks]
      h' n' by (auto simp: P)
  have c: "map (\<lambda>c. (text_at m' (lk c), tree_of m' c)) pcs = map (\<lambda>c. (text_at m (lk c), tree_of m c)) pcs"
    using m'(5) same_item_child [of m m' p pv pk pcs] tree_same text_at_same by (intro map_cong) (auto simp: P)
  have t: "tree_of m' P = cJSON_Object ms" using m'(5) tree_same [of m m' P] assms(2) by simp
  have lks: "\<forall>c \<in> set (pcs @ [?L]). lk c \<noteq> None"
    using object_keys [of m' p pv pk pcs "?L # Ks" ms] h' t P by fastforce
  have ms: "ms = map (\<lambda>c. (text_at m (lk c), tree_of m c)) pcs" using assms(2) by (simp add: P tree_of_Object del: tree_of.simps)
  have "becomes m' m'' p (cJSON_Object (map (\<lambda>c. (text_at m' (lk c), tree_of m' c)) (pcs @ [?L]))) Ks"
    using h' t m''(2,3) lks
    by (intro rebuild_object [where A = "insert a (set (map la pcs))" and cs = pcs and Ks = "?L # Ks"]) (auto simp: P simp del: tree_of.simps)
  moreover have "map (\<lambda>c. (text_at m' (lk c), tree_of m' c)) (pcs @ [?L]) = ms @ [(key, tree_of m L)]"
    using c m'(3,4) by (simp add: ms del: map_eq_conv tree_of.simps)
  moreover have "tree_of m' K = tree_of m K" if "K \<in> set Ks" for K using m'(5) tree_same that by auto
  ultimately have "becomes m m'' p (cJSON_Object (ms @ [(key, tree_of m L)])) Ks"
    by (simp add: becomes_def del: tree_of.simps)
  moreover have "cJSON_AddItemToObject_n (Some p) (Some s) (Some a) m = Some (True, m'')"
    using m'(1) m''(1) n(1) key holds_apart(2) [of m p pv pk pcs L Ks] assms(1) assms(4)
    by (auto simp: P L cJSON_AddItemToObject_n_def add_item_to_object_def cJSON_strdup_def store_Some free_text_def
        split: option.splits if_splits)
  ultimately show ?thesis using assms(2) by (auto simp: P L cJSON_AddItemToObject_def simp del: tree_of.simps)
qed

lemma object_detach:
  assumes "holds m (P # Ks)" "tree_of m P = cJSON_Object (xs @ (key, t) # ys)" "texts m s = Some name"
    "\<forall>x \<in> set xs. \<not> case_insensitive_eq name (fst x)" "case_insensitive_eq name key"
  shows "\<exists>m' L. cJSON_DetachItemFromObject (Some (la P)) (Some s) m = Some (Some (la L), m') \<and>
    becomes m m' (la P) (cJSON_Object (xs @ ys)) (L # Ks) \<and> tree_of m L = t \<and> loose m' L"
proof -
  obtain p v k cs where P: "P = Lay p v k cs" by (cases P)
  let ?f = "\<lambda>c. (text_at m (lk c), tree_of m c)"
  have "map ?f cs = xs @ (key, t) # ys" using assms(2) by (simp add: P tree_of_Object del: tree_of.simps)
  then obtain as a bs where cs: "cs = as @ a # bs" "map ?f as = xs" "?f a = (key, t)" "map ?f bs = ys"
    by (auto simp: map_eq_append_conv map_eq_Cons_conv)
  have h: "holds m (Lay p v k (as @ a # bs) # Ks)" "tree_of m (Lay p v k (as @ a # bs)) = cJSON_Object (xs @ (key, t) # ys)"
    using assms(1,2) by (simp_all only: P cs(1))
  have "\<forall>c \<in> set as. \<not> case_insensitive_eq name (text_at m (lk c))" using assms(4) cs(2) by auto
  then have "List.find (\<lambda>c. case_insensitive_eq name (text_at m (lk c))) as = None" by (simp add: find_None_iff)
  then have "List.find (\<lambda>c. case_insensitive_eq name (text_at m (lk c))) (as @ a # bs) = Some a"
    using cs(3) assms(5) by (induction as) auto
  then have g: "cJSON_GetObjectItem_n (Some p) (Some s) m = Some (Some (la a))"
    using get_object_item_found [OF h assms(3), of False] by (simp add: cJSON_GetObjectItem_n_def)
  have c: "children m p (map la as @ la a # map la bs)" using holds_children [OF h(1)] by simp
  obtain m' n where m': "cJSON_DetachItemViaPointer (Some p) (Some (la a)) m = Some (Some (la a), m')"
    "children m' p (map la (as @ bs))" "relinked p (set (map la as @ la a # map la bs)) m m'"
    "nodes m' (la a) = Some n" "nd_next n = None"
    using detach_children [OF c] by auto
  have "\<forall>c \<in> set (as @ bs). lk c \<noteq> None" using object_keys [OF h] by fastforce
  then have "becomes m m' p (cJSON_Object (map ?f (as @ bs))) (a # Ks)"
    using h m'(2,3)
    by (intro rebuild_object [where A = "set (map la as @ la a # map la bs)" and cs = "as @ a # bs" and Ks = Ks])
      (auto simp del: tree_of.simps)
  moreover have "loose m' a" using m'(4,5) by (simp add: loose_def)
  ultimately show ?thesis using m'(1) g cs
    by (intro exI [of _ m'] exI [of _ a]) (auto simp: P cJSON_DetachItemFromObject_def)
qed

section \<open>New members\<close>

lemma holds_fresh_cells:
  assumes "holds m Ks" "K \<in> set Ks"
  shows "x \<in> set (cells K) \<Longrightarrow> x < brk m" "t \<in> set (strings K) \<Longrightarrow> t < brk m"
  using assms laid_cells [of m K x] laid_strings [of m K t]
  by (auto simp: holds_def owned_def fresh_above_def not_le [symmetric])

lemma create_item:
  assumes "holds m Ks" "nd_type n AND cJSON_IsReference = 0" "nd_type n AND cJSON_StringIsConst = 0"
    "nd_next n = None" "nd_child n = None" "nd_string n = None"
    "m' = m\<lparr>nodes := (nodes m)(brk m \<mapsto> n), texts := ts, brk := b\<rparr>" "brk m < b"
    "\<forall>x \<ge> b. ts x = None" "\<forall>x < brk m. ts x = texts m x"
    "\<forall>t \<in> set (opt_list (nd_valuestring n)). brk m \<le> t \<and> ts t \<noteq> None"
  shows "holds m' (Lay (brk m) (nd_valuestring n) None [] # Ks)" "loose m' (Lay (brk m) (nd_valuestring n) None [])"
    "K \<in> set Ks \<Longrightarrow> same_item m m' K"
proof -
  have same: "same_item m m' K" if "K \<in> set Ks" for K
    using holds_fresh_cells [OF assms(1) that] assms(7,10) by (intro same_itemI) fastforce+
  then show "K \<in> set Ks \<Longrightarrow> same_item m m' K" .
  show "loose m' (Lay (brk m) (nd_valuestring n) None [])" using assms(4,7) by (simp add: loose_def)
  have h: "owned m Ks" "fresh_above m" using assms(1) by (simp_all add: holds_def)
  have "distinct (concat (map cells (Lay (brk m) (nd_valuestring n) None [] # Ks)))"
    using h(1) holds_fresh_cells(1) [OF assms(1)] by (fastforce simp: owned_def)
  moreover have "distinct (concat (map strings (Lay (brk m) (nd_valuestring n) None [] # Ks)))"
    using h(1) holds_fresh_cells(2) [OF assms(1)] assms(11) by (fastforce simp: owned_def opt_list_def split: option.splits)
  moreover have "laid m' (Lay (brk m) (nd_valuestring n) None [])" "plain m' (Lay (brk m) (nd_valuestring n) None [])"
    using assms(2-7,11) by (auto simp: opt_list_def)
  moreover have "laid m' K \<and> plain m' K" if "K \<in> set Ks" for K
    using laid_same [OF same] plain_same [OF same] that assms(1) by (simp add: holds_def owned_def)
  moreover have "fresh_above m'" using assms(7-9) h(2) by (auto simp: fresh_above_def)
  ultimately show "holds m' (Lay (brk m) (nd_valuestring n) None [] # Ks)"
    by (simp add: holds_def owned_def del: cells.simps strings.simps laid.simps plain.simps)
qed

lemma becomes_new:
  assumes "holds m (P # Ks)" "tree_of m P = cJSON_Object ms" "texts m' s = Some key"
    "holds m' (L # P # Ks)" "loose m' L" "\<And>K. K \<in> set (P # Ks) \<Longrightarrow> same_item m m' K"
  shows "\<exists>m''. add_or_delete (Some (la P)) (Some s) (Some (la L), m') = Some (Some (la L), m'') \<and>
    becomes m m'' (la P) (cJSON_AddItemToObject (tree_of m P) key (tree_of m' L)) Ks"
proof -
  have h: "holds m' (P # L # Ks)" using assms(4) holds_mset [of "L # P # Ks" "P # L # Ks"] by simp
  have same: "tree_of m' K = tree_of m K" if "K \<in> set (P # Ks)" for K using tree_same [OF assms(6) [OF that]] .
  obtain m'' where m'': "cJSON_AddItemToObject_n (Some (la P)) (Some s) (Some (la L)) m' = Some (True, m'')"
    "becomes m' m'' (la P) (cJSON_AddItemToObject (tree_of m' P) key (tree_of m' L)) Ks"
    using object_add [OF h _ assms(5,3)] same assms(2) by auto
  then have "becomes m m'' (la P) (cJSON_AddItemToObject (tree_of m P) key (tree_of m' L)) Ks"
    using same by (simp add: becomes_def)
  then show ?thesis using m''(1) by (auto simp: add_or_delete_def cJSON_AddItemToObject_n_def)
qed

lemma object_add_number:
  assumes "holds m (P # Ks)" "tree_of m P = cJSON_Object ms" "texts m s = Some key"
  shows "\<exists>m' a. cJSON_AddNumberToObject_n (Some (la P)) (Some s) num m = Some (Some a, m') \<and>
    becomes m m' (la P) (cJSON_AddItemToObject (tree_of m P) key (cJSON_Number num)) Ks"
proof -
  let ?n = "zero_node\<lparr>nd_type := cJSON_Number_t, nd_valuedouble := num, nd_valueint := valueint num\<rparr>"
  let ?m = "m\<lparr>nodes := (nodes m)(brk m \<mapsto> ?n), texts := texts m, brk := Suc (brk m)\<rparr>"
  let ?L = "Lay (brk m) None None []"
  have f: "\<forall>x \<ge> Suc (brk m). texts m x = None" using assms(1) by (simp add: holds_def fresh_above_def)
  have c: "holds ?m (?L # P # Ks)" "loose ?m ?L" "\<And>K. K \<in> set (P # Ks) \<Longrightarrow> same_item m ?m K"
    using create_item [OF assms(1), where n = ?n and m' = ?m and ts = "texts m" and b = "Suc (brk m)"] f by (simp_all add: zero_node_def opt_list_def del: cells.simps)
  have "tree_of ?m ?L = cJSON_Number num" by (simp add: node_tree_def Let_def)
  then show ?thesis using becomes_new [OF assms(1,2) _ c, of s key] assms(3)
    by (simp add: cJSON_AddNumberToObject_n_def cJSON_CreateNumber_n_def) blast
qed

lemma object_add_string:
  assumes "holds m (P # Ks)" "tree_of m P = cJSON_Object ms" "texts m s = Some key" "texts m t = Some str"
  shows "\<exists>m' a. cJSON_AddStringToObject_n (Some (la P)) (Some s) (Some t) m = Some (Some a, m') \<and>
    becomes m m' (la P) (cJSON_AddStringToObject (tree_of m P) key str) Ks"
proof -
  let ?n = "zero_node\<lparr>nd_type := cJSON_String_t, nd_valuestring := Some (Suc (brk m))\<rparr>"
  let ?ts = "(texts m)(Suc (brk m) \<mapsto> str)"
  let ?m = "m\<lparr>nodes := (nodes m)(brk m \<mapsto> ?n), texts := ?ts, brk := Suc (Suc (brk m))\<rparr>"
  let ?L = "Lay (brk m) (nd_valuestring ?n) None []"
  have f: "\<forall>x \<ge> brk m. texts m x = None" using assms(1) by (simp add: holds_def fresh_above_def)
  then have st: "s < brk m" "t < brk m" using assms(3,4) by (auto simp: not_le [symmetric])
  have c: "holds ?m (?L # P # Ks)" "loose ?m ?L" "\<And>K. K \<in> set (P # Ks) \<Longrightarrow> same_item m ?m K"
    using create_item [OF assms(1), where n = ?n and m' = ?m and ts = ?ts and b = "Suc (Suc (brk m))"] f by (simp_all add: zero_node_def opt_list_def del: cells.simps)
  have tr: "tree_of ?m ?L = cJSON_String str" by (simp add: node_tree_def Let_def text_at_def)
  have new: "cJSON_CreateString_n (Some t) m = Some (Some (brk m), ?m)"
    using st assms(4) by (simp add: cJSON_CreateString_n_def new_string_def new_typed_def cJSON_strdup_def store_Some)
  have "texts ?m s = Some key" using assms(3) st by simp
  from becomes_new [OF assms(1,2) this c] show ?thesis
    using new tr by (simp add: cJSON_AddStringToObject_n_def cJSON_AddStringToObject_def) blast
qed

section \<open>Arrays and objects\<close>

lemma array_delete:
  assumes "holds m (P # Ks)" "tree_of m P = cJSON_Array ts" "i < length ts"
  shows "\<exists>m'. cJSON_DeleteItemFromArray (Some (la P)) (int i) m = Some m' \<and>
    becomes m m' (la P) (cJSON_Array (take i ts @ drop (Suc i) ts)) Ks"
proof -
  obtain m' L where d: "cJSON_DetachItemFromArray (Some (la P)) (int i) m = Some (Some (la L), m')"
    "becomes m m' (la P) (cJSON_Array (take i ts @ drop (Suc i) ts)) (L # Ks)" "loose m' L"
    using array_detach [OF assms] by blast
  then show ?thesis using becomes_delete [OF d(2,3)] by (auto simp: cJSON_DeleteItemFromArray_def)
qed

lemma array_outside:
  assumes "holds m (P # Ks)" "tree_of m P = cJSON_Array ts" "length ts \<le> i"
  shows "cJSON_DeleteItemFromArray (Some (la P)) (int i) m = Some m"
    "cJSON_ReplaceItemInArray (Some (la P)) (int i) newitem m = Some (False, m)"
proof -
  obtain p v k cs where P: "P = Lay p v k cs" by (cases P)
  have "ts = map (tree_of m) cs" using assms(2) by (simp add: P tree_of_Array del: tree_of.simps)
  then have g: "get_array_item (Some p) i m = Some None"
    using get_array_item_children [OF holds_children, of m p v k cs Ks i] assms(1,3) by (simp add: P)
  obtain n where "nodes m p = Some n" using holds_children [of m p v k cs Ks] assms(1) P children_node by blast
  then show "cJSON_ReplaceItemInArray (Some (la P)) (int i) newitem m = Some (False, m)"
    using g by (simp add: P cJSON_ReplaceItemInArray_def cJSON_ReplaceItemViaPointer_def)
  have "cJSON_Delete None m = Some m" by (subst cJSON_Delete.simps) simp
  then show "cJSON_DeleteItemFromArray (Some (la P)) (int i) m = Some m"
    using g by (simp add: P cJSON_DeleteItemFromArray_def cJSON_DetachItemFromArray_def cJSON_DetachItemViaPointer_def)
qed

text \<open>C20: The array functions of cJSON, on nodes in memory, are the list operations on the elements of the
  tree: size, element at an index, append, insert before an index, replace and delete; past the end
  replacing fails and deleting does nothing. No other item changes, and what is replaced or deleted is freed.
\<close>
theorem array_operations_correct:
  assumes "holds m (P # L # Ks)" "loose m L" "tree_of m P = cJSON_Array ts"
  shows "cJSON_GetArraySize (Some (la P)) m = Some (wrap32 (int (length ts))) \<and>
    (\<forall>i. \<exists>r. cJSON_GetArrayItem_n (Some (la P)) i m = Some (map_option la r) \<and>
      map_option (tree_of m) r = cJSON_GetArrayItem (Some (cJSON_Array ts)) i) \<and>
    (\<exists>m'. cJSON_AddItemToArray_n (Some (la P)) (Some (la L)) m = Some (True, m') \<and>
      becomes m m' (la P) (cJSON_AddItemToArray (cJSON_Array ts) (tree_of m L)) Ks) \<and>
    (\<forall>i. \<exists>m'. cJSON_InsertItemInArray (Some (la P)) (int i) (Some (la L)) m = Some (True, m') \<and>
      becomes m m' (la P) (cJSON_Array (take i ts @ tree_of m L # drop i ts)) Ks) \<and>
    (\<forall>i. if i < length ts
      then \<exists>m'. cJSON_ReplaceItemInArray (Some (la P)) (int i) (Some (la L)) m = Some (True, m') \<and>
        becomes m m' (la P) (cJSON_Array (ts[i := tree_of m L])) Ks
      else cJSON_ReplaceItemInArray (Some (la P)) (int i) (Some (la L)) m = Some (False, m)) \<and>
    (\<forall>i. if i < length ts
      then \<exists>m'. cJSON_DeleteItemFromArray (Some (la P)) (int i) m = Some m' \<and>
        becomes m m' (la P) (cJSON_Array (take i ts @ drop (Suc i) ts)) (L # Ks)
      else cJSON_DeleteItemFromArray (Some (la P)) (int i) m = Some m)"
proof (intro conjI allI)
  show "cJSON_GetArraySize (Some (la P)) m = Some (wrap32 (int (length ts)))" by (rule array_size [OF assms(1,3)])
  show "\<exists>r. cJSON_GetArrayItem_n (Some (la P)) i m = Some (map_option la r) \<and>
      map_option (tree_of m) r = cJSON_GetArrayItem (Some (cJSON_Array ts)) i" for i by (rule array_get [OF assms(1,3)])
  show "\<exists>m'. cJSON_AddItemToArray_n (Some (la P)) (Some (la L)) m = Some (True, m') \<and>
      becomes m m' (la P) (cJSON_AddItemToArray (cJSON_Array ts) (tree_of m L)) Ks"
    using array_add [OF assms(1,3,2)] by (simp add: cJSON_AddItemToArray_n_def cJSON_AddItemToArray_def)
  show "\<exists>m'. cJSON_InsertItemInArray (Some (la P)) (int i) (Some (la L)) m = Some (True, m') \<and>
      becomes m m' (la P) (cJSON_Array (take i ts @ tree_of m L # drop i ts)) Ks" for i by (rule array_insert [OF assms(1,3,2)])
qed (use array_replace [OF assms(1,3)] array_delete [OF assms(1,3)] array_outside [OF assms(1,3)] in simp_all)

text \<open>C19: The object functions of cJSON, on nodes in memory, are the tree operations the handlers are
  modelled with: adding an item, a number or a string under a key, looking a key up, and taking a member
  out. No other item changes.
\<close>
theorem object_operations_correct:
  assumes "holds m (P # L # Ks)" "loose m L" "tree_of m P = cJSON_Object ms" "texts m s = Some name" "texts m t = Some str"
  shows "(\<exists>m'. cJSON_AddItemToObject_n (Some (la P)) (Some s) (Some (la L)) m = Some (True, m') \<and>
      becomes m m' (la P) (cJSON_AddItemToObject (tree_of m P) name (tree_of m L)) Ks) \<and>
    (\<exists>m' a. cJSON_AddNumberToObject_n (Some (la P)) (Some s) (of_int num) m = Some (Some a, m') \<and>
      becomes m m' (la P) (cJSON_AddNumberToObject (tree_of m P) name num) (L # Ks)) \<and>
    (\<exists>m' a. cJSON_AddStringToObject_n (Some (la P)) (Some s) (Some t) m = Some (Some a, m') \<and>
      becomes m m' (la P) (cJSON_AddStringToObject (tree_of m P) name str) (L # Ks)) \<and>
    (\<exists>r. cJSON_GetObjectItem_n (Some (la P)) (Some s) m = Some (map_option la r) \<and>
      map_option (tree_of m) r = cJSON_GetObjectItem (Some (tree_of m P)) name) \<and>
    (\<forall>xs key x ys. ms = xs @ (key, x) # ys \<longrightarrow> (\<forall>e \<in> set xs. \<not> case_insensitive_eq name (fst e)) \<longrightarrow> case_insensitive_eq name key \<longrightarrow>
      (\<exists>m' K. cJSON_DetachItemFromObject (Some (la P)) (Some s) m = Some (Some (la K), m') \<and>
        becomes m m' (la P) (cJSON_Object (xs @ ys)) (K # L # Ks) \<and> tree_of m K = x))"
proof (intro conjI allI impI)
  show "\<exists>m'. cJSON_AddItemToObject_n (Some (la P)) (Some s) (Some (la L)) m = Some (True, m') \<and>
      becomes m m' (la P) (cJSON_AddItemToObject (tree_of m P) name (tree_of m L)) Ks" by (rule object_add [OF assms(1,3,2,4)])
  show "\<exists>m' a. cJSON_AddNumberToObject_n (Some (la P)) (Some s) (of_int num) m = Some (Some a, m') \<and>
      becomes m m' (la P) (cJSON_AddNumberToObject (tree_of m P) name num) (L # Ks)"
    using object_add_number [OF assms(1,3,4)] by (simp add: cJSON_AddNumberToObject_def cJSON_CreateNumber_def)
  show "\<exists>m' a. cJSON_AddStringToObject_n (Some (la P)) (Some s) (Some t) m = Some (Some a, m') \<and>
      becomes m m' (la P) (cJSON_AddStringToObject (tree_of m P) name str) (L # Ks)" by (rule object_add_string [OF assms(1,3,4,5)])
  show "\<exists>r. cJSON_GetObjectItem_n (Some (la P)) (Some s) m = Some (map_option la r) \<and>
      map_option (tree_of m) r = cJSON_GetObjectItem (Some (tree_of m P)) name" using object_get [OF assms(1,3,4)] assms(3) by simp
  fix xs key x ys
  assume "ms = xs @ (key, x) # ys" "\<forall>e \<in> set xs. \<not> case_insensitive_eq name (fst e)" "case_insensitive_eq name key"
  then show "\<exists>m' K. cJSON_DetachItemFromObject (Some (la P)) (Some s) m = Some (Some (la K), m') \<and>
        becomes m m' (la P) (cJSON_Object (xs @ ys)) (K # L # Ks) \<and> tree_of m K = x"
    using object_detach [of m P "L # Ks" xs key x ys s name] assms(1,3,4) by blast
qed

section \<open>A concrete memory\<close>

text \<open>An array or object \<open>0\<close> with two members \<open>1\<close> and \<open>2\<close>, a loose string \<open>3\<close>, and the texts of keys.\<close>

definition demo_memory :: "int \<Rightarrow> memory" where
  "demo_memory ty = \<lparr>nodes = [
     0 \<mapsto> zero_node\<lparr>nd_type := ty, nd_child := Some 1\<rparr>,
     1 \<mapsto> zero_node\<lparr>nd_type := cJSON_Number_t, nd_valuedouble := 7, nd_valueint := 7, nd_string := Some 5, nd_next := Some 2, nd_prev := Some 2\<rparr>,
     2 \<mapsto> zero_node\<lparr>nd_type := cJSON_True_t, nd_string := Some 6, nd_prev := Some 1\<rparr>,
     3 \<mapsto> zero_node\<lparr>nd_type := cJSON_String_t, nd_valuestring := Some 4\<rparr>],
   texts = [4 \<mapsto> ''text'', 5 \<mapsto> ''a'', 6 \<mapsto> ''b'', 7 \<mapsto> ''A''], brk = 8\<rparr>"

definition demo_parent :: lay where
  "demo_parent = Lay 0 None None [Lay 1 None (Some 5) [], Lay 2 None (Some 6) []]"

definition demo_loose :: lay where
  "demo_loose = Lay 3 (Some 4) None []"

lemma demo_holds: "ty \<in> {cJSON_Array_t, cJSON_Object_t} \<Longrightarrow> holds (demo_memory ty) [demo_parent, demo_loose]"
  by (auto simp: holds_def owned_def demo_memory_def demo_parent_def demo_loose_def zero_node_def opt_list_def fresh_above_def)

lemma demo_is_loose: "loose (demo_memory ty) demo_loose"
  by (simp add: loose_def demo_loose_def demo_memory_def zero_node_def)

lemma demo_trees:
  "tree_of (demo_memory cJSON_Array_t) demo_parent = cJSON_Array [cJSON_Number 7, cJSON_True]"
  "tree_of (demo_memory cJSON_Object_t) demo_parent = cJSON_Object [(''a'', cJSON_Number 7), (''b'', cJSON_True)]"
  "tree_of (demo_memory ty) demo_loose = cJSON_String ''text''"
  by (simp_all add: demo_memory_def demo_parent_def demo_loose_def zero_node_def node_tree_def Let_def text_at_def)

theorem array_operations_correct_witness:
  "\<exists>m'. cJSON_InsertItemInArray (Some 0) 1 (Some 3) (demo_memory cJSON_Array_t) = Some (True, m') \<and>
    becomes (demo_memory cJSON_Array_t) m' 0 (cJSON_Array [cJSON_Number 7, cJSON_String ''text'', cJSON_True]) []"
proof -
  have "\<exists>m'. cJSON_InsertItemInArray (Some (la demo_parent)) (int 1) (Some (la demo_loose)) (demo_memory cJSON_Array_t) = Some (True, m') \<and>
    becomes (demo_memory cJSON_Array_t) m' (la demo_parent) (cJSON_Array (take 1 [cJSON_Number 7, cJSON_True] @
      tree_of (demo_memory cJSON_Array_t) demo_loose # drop 1 [cJSON_Number 7, cJSON_True])) []"
    using array_operations_correct [OF demo_holds demo_is_loose demo_trees(1)] by blast
  then show ?thesis unfolding demo_trees by (simp add: demo_parent_def demo_loose_def)
qed

theorem object_operations_correct_witness:
  "\<exists>m' K. cJSON_DetachItemFromObject (Some 0) (Some 7) (demo_memory cJSON_Object_t) = Some (Some (la K), m') \<and>
    becomes (demo_memory cJSON_Object_t) m' 0 (cJSON_Object [(''b'', cJSON_True)]) [K, demo_loose] \<and>
    tree_of (demo_memory cJSON_Object_t) K = cJSON_Number 7"
proof -
  have "texts (demo_memory cJSON_Object_t) 7 = Some ''A''" by (simp add: demo_memory_def)
  moreover have "case_insensitive_eq ''A'' ''a''" by code_simp
  ultimately have "\<exists>m' K. cJSON_DetachItemFromObject (Some (la demo_parent)) (Some 7) (demo_memory cJSON_Object_t) = Some (Some (la K), m') \<and>
    becomes (demo_memory cJSON_Object_t) m' (la demo_parent) (cJSON_Object ([] @ [(''b'', cJSON_True)])) (K # [demo_loose]) \<and>
    tree_of (demo_memory cJSON_Object_t) K = cJSON_Number 7"
    using object_operations_correct [OF demo_holds demo_is_loose demo_trees(2), of 7 "''A''" 7 "''A''",
        THEN conjunct2, THEN conjunct2, THEN conjunct2, THEN conjunct2, rule_format, of "[]" "''a''" "cJSON_Number 7" "[(''b'', cJSON_True)]"]
    by simp
  then show ?thesis by (simp add: demo_parent_def)
qed

end
