(* ===== verification/CJsonCopy.thy ===== *)
theory CJsonCopy
  imports CJsonItems
begin

text \<open>
  \<open>cJSON_Duplicate\<close> makes a copy with the same tree in new memory and leaves everything that was there as
  it was, when the item is not nested deeper than \<open>CJSON_CIRCULAR_LIMIT\<close>.
\<close>

unbundle bit_operations_syntax

fun depth :: "lay \<Rightarrow> nat" where
  "depth (Lay a v k cs) = foldr max (map (\<lambda>c. Suc (depth c)) cs) 0"

lemma depth_child: "c \<in> set cs \<Longrightarrow> depth c < depth (Lay a v k cs)"
  by (induction cs) (auto simp: less_max_iff_disj)

text \<open>Everything that an item and what hangs below it hold, but for the addresses: type, the two numbers, value, key
  and children. \<open>tree_of\<close> does not look at \<open>valueint\<close>, which \<open>json_get_int\<close> reads.\<close>

datatype fields = Fields int int rat "bytes option" "bytes option" "fields list"

definition opt_text :: "memory \<Rightarrow> ptr \<Rightarrow> bytes option" where
  "opt_text m p = (if p = None then None else Some (text_at m p))"

fun fields_of :: "memory \<Rightarrow> lay \<Rightarrow> fields" where
  "fields_of m (Lay a v k cs) = (case nodes m a of None \<Rightarrow> Fields 0 0 0 None None []
     | Some n \<Rightarrow> Fields (nd_type n) (nd_valueint n) (nd_valuedouble n) (opt_text m v) (opt_text m k) (map (fields_of m) cs))"

lemma fields_same: "same_item m m' L \<Longrightarrow> fields_of m' L = fields_of m L"
proof (induction L)
  case (Lay a v k cs)
  have c: "map (fields_of m') cs = map (fields_of m) cs"
    using Lay.IH same_item_child [OF Lay.prems] by (intro map_cong) auto
  have x: "opt_text m' v = opt_text m v" "opt_text m' k = opt_text m k"
    using text_at_same [OF Lay.prems] by (simp_all add: opt_text_def)
  have "map_option links_off (nodes m' a) = map_option links_off (nodes m a)"
    using Lay.prems by (simp add: same_item_def)
  then show ?case
  proof (cases rule: map_option_eq_cases)
    case 1
    then show ?thesis by simp
  next
    case (2 n' n)
    have "nd_type n' = nd_type n" "nd_valueint n' = nd_valueint n" "nd_valuedouble n' = nd_valuedouble n"
      using 2(3) unfolding links_off_eq by metis+
    then show ?thesis by (simp add: 2(1,2) c x del: map_eq_conv)
  qed
qed

definition grows :: "memory \<Rightarrow> memory \<Rightarrow> bool" where
  "grows m m' \<longleftrightarrow> brk m \<le> brk m' \<and> fresh_above m' \<and> (\<forall>x < brk m. nodes m' x = nodes m x \<and> texts m' x = texts m x)"

definition copied :: "memory \<Rightarrow> lay \<Rightarrow> memory \<Rightarrow> lay \<Rightarrow> bool" where
  "copied m L m' L' \<longleftrightarrow> grows m m' \<and> laid m' L' \<and> plain m' L' \<and>
     (\<exists>n. nodes m' (la L') = Some n \<and> nd_next n = None \<and> nd_prev n = None) \<and>
     (\<forall>x \<in> set (cells L'). brk m \<le> x) \<and> (\<forall>t \<in> set (strings L'). brk m \<le> t) \<and>
     distinct (cells L') \<and> distinct (strings L') \<and>
     tree_of m' L' = tree_of m L \<and> fields_of m' L' = fields_of m L \<and>
     text_at m' (lk L') = text_at m (lk L) \<and> (lk L' = None \<longleftrightarrow> lk L = None)"

text \<open>The state of the loop over the children: \<open>ds\<close> are the copies so far, above \<open>R\<close>; below it nothing changes but \<open>r\<close>'s child.\<close>

definition copying :: "memory \<Rightarrow> nat \<Rightarrow> node \<Rightarrow> memory \<Rightarrow> lay list \<Rightarrow> bool" where
  "copying m0 r rn m ds \<longleftrightarrow> fresh_above m \<and> r < brk m0 \<and> brk m0 \<le> brk m \<and>
     nodes m r = Some (rn\<lparr>nd_child := first (map la ds) None\<rparr>) \<and> dseg (nodes m) None (map la ds) None \<and>
     (\<forall>d \<in> set ds. laid m d \<and> plain m d) \<and>
     (\<forall>x \<in> set (concat (map cells ds)). brk m0 \<le> x) \<and> (\<forall>t \<in> set (concat (map strings ds)). brk m0 \<le> t) \<and>
     distinct (concat (map cells ds)) \<and> distinct (concat (map strings ds)) \<and>
     (\<forall>x < brk m0. (x \<noteq> r \<longrightarrow> nodes m x = nodes m0 x) \<and> texts m x = texts m0 x)"

lemma below_brk: "laid m L \<Longrightarrow> fresh_above m \<Longrightarrow> x \<in> set (cells L) \<Longrightarrow> x < brk m"
  using laid_cells by (metis fresh_above_def not_less)

lemma below_brk_text: "laid m L \<Longrightarrow> fresh_above m \<Longrightarrow> t \<in> set (strings L) \<Longrightarrow> t < brk m"
  using laid_strings by (metis fresh_above_def not_less)

lemma grows_same: "grows m m' \<Longrightarrow> laid m L \<Longrightarrow> fresh_above m \<Longrightarrow> same_item m m' L"
  by (rule same_itemI) (auto simp: grows_def dest: below_brk below_brk_text)

lemma all_cells: "c \<in> set cs \<Longrightarrow> x \<in> set (cells c) \<Longrightarrow> x \<in> set (concat (map cells cs))"
  by auto

lemma same_item_trans: "same_item m m1 L \<Longrightarrow> same_item m1 m2 L \<Longrightarrow> same_item m m2 L"
  by (simp add: same_item_def)

lemma copying_step:
  assumes "copying m0 r rn m ds" "copied m c m1 d"
  shows "\<exists>m2. (if final None (map la ds) \<noteq> None then suffix_object (final None (map la ds)) (Some (la d)) m1
      else store (Some r) (\<lambda>n. n\<lparr>nd_child := Some (la d)\<rparr>) m1) = Some m2 \<and> copying m0 r rn m2 (ds @ [d]) \<and>
    (\<forall>e \<in> set (ds @ [d]). same_item m1 m2 e)"
proof -
  have c: "fresh_above m" "r < brk m0" "brk m0 \<le> brk m" "nodes m r = Some (rn\<lparr>nd_child := first (map la ds) None\<rparr>)"
    "dseg (nodes m) None (map la ds) None" "\<And>d. d \<in> set ds \<Longrightarrow> laid m d \<and> plain m d"
    "\<And>x. x \<in> set (concat (map cells ds)) \<Longrightarrow> brk m0 \<le> x" "\<And>t. t \<in> set (concat (map strings ds)) \<Longrightarrow> brk m0 \<le> t"
    "distinct (concat (map cells ds))" "distinct (concat (map strings ds))"
    "\<And>x. x < brk m0 \<Longrightarrow> x \<noteq> r \<Longrightarrow> nodes m x = nodes m0 x" "\<And>x. x < brk m0 \<Longrightarrow> texts m x = texts m0 x"
    using assms(1) by (auto simp: copying_def)
  obtain n where d: "grows m m1" "laid m1 d" "plain m1 d" "nodes m1 (la d) = Some n" "nd_next n = None" "nd_prev n = None"
    "\<And>x. x \<in> set (cells d) \<Longrightarrow> brk m \<le> x" "\<And>t. t \<in> set (strings d) \<Longrightarrow> brk m \<le> t" "distinct (cells d)" "distinct (strings d)"
    using assms(2) by (auto simp: copied_def)
  have g: "brk m \<le> brk m1" "fresh_above m1" "\<And>x. x < brk m \<Longrightarrow> nodes m1 x = nodes m x" "\<And>x. x < brk m \<Longrightarrow> texts m1 x = texts m x"
    using d(1) by (auto simp: grows_def)
  have low: "x < brk m" if "x \<in> set (concat (map cells ds))" for x
    using that below_brk c(1,6) by auto
  have lowt: "x < brk m" if "x \<in> set (concat (map strings ds))" for x
    using that below_brk_text c(1,6) by auto
  have roots: "la e \<in> set (concat (map cells ds))" if "e \<in> set ds" for e using that by (rule la_in_all)
  have la_d: "brk m \<le> la d" using d(7) by simp
  have apart: "la d \<notin> set (map la ds)" "r \<notin> set (map la ds)" "r \<noteq> la d"
    using la_d low roots c(2,3,7) by fastforce+
  have "nodes m1 x = nodes m x" if "x \<in> set (map la ds)" for x
    using that g(3) low roots by (auto simp del: set_concat)
  then have "dseg (nodes m1) None (map la ds) None = dseg (nodes m) None (map la ds) None" by (rule dseg_cong)
  then have s: "dseg (nodes m1) None (map la ds) None" using c(5) by simp
  have r1: "nodes m1 r = Some (rn\<lparr>nd_child := first (map la ds) None\<rparr>)" using c(2,3,4) g(3) by simp
  have dd: "distinct (concat (map cells (ds @ [d])))" "distinct (concat (map strings (ds @ [d])))"
    using c(9,10) d(7-10) low lowt by fastforce+
  have up: "\<forall>x \<in> set (concat (map cells (ds @ [d]))). brk m0 \<le> x" "\<forall>t \<in> set (concat (map strings (ds @ [d]))). brk m0 \<le> t"
    using c(3,7,8) d(7,8) by fastforce+
  have l1: "laid m1 e \<and> plain m1 e" if "e \<in> set (ds @ [d])" for e
    using that d(2,3) c(1,6) laid_same [OF grows_same [OF d(1)]] plain_same [OF grows_same [OF d(1)]] by auto
  have fin: "copying m0 r rn m2 (ds @ [d]) \<and> (\<forall>e \<in> set (ds @ [d]). same_item m1 m2 e)"
    if m2: "texts m2 = texts m1" "brk m2 = brk m1" "fresh_above m2" "nodes m2 r = Some (rn\<lparr>nd_child := first (map la (ds @ [d])) None\<rparr>)"
      "dseg (nodes m2) None (map la (ds @ [d])) None"
      "\<And>x. x \<notin> la ` set (ds @ [d]) \<Longrightarrow> x \<noteq> r \<Longrightarrow> nodes m2 x = nodes m1 x"
      "\<And>x. x \<noteq> r \<Longrightarrow> map_option links_off (nodes m2 x) = map_option links_off (nodes m1 x)" for m2
  proof -
    have same: "same_item m1 m2 e" if e: "e \<in> set (ds @ [d])" for e
    proof -
      have "nodes m2 x = nodes m1 x" if x: "x \<in> set (concat (map cells (lc e)))" for x
      proof (rule m2(6))
        show "x \<notin> la ` set (ds @ [d])" by (rule inner_not_root [OF dd(1) e x])
        have "brk m0 \<le> x" using up(1) all_cells [OF e inner_in_cells [OF x]] by blast
        then show "x \<noteq> r" using c(2) by simp
      qed
      moreover have "la e \<noteq> r" using e apart by auto
      ultimately show ?thesis using m2(1,7) by (simp add: same_item_def)
    qed
    have "nodes m2 x = nodes m0 x" if x: "x < brk m0" "x \<noteq> r" for x
    proof -
      have "x \<notin> la ` set (ds @ [d])"
      proof
        assume "x \<in> la ` set (ds @ [d])"
        then obtain e where "e \<in> set (ds @ [d])" "x = la e" by blast
        then have "brk m0 \<le> x" using up(1) la_in_all by blast
        then show False using x(1) by simp
      qed
      then show ?thesis using m2(6) x c(3,11) g(3) by simp
    qed
    moreover have "texts m2 x = texts m0 x" if "x < brk m0" for x using m2(1) g(4) c(3,12) that by simp
    moreover have "laid m2 e \<and> plain m2 e" if "e \<in> set (ds @ [d])" for e
      using l1 laid_same [OF same] plain_same [OF same] that by blast
    ultimately show ?thesis
      unfolding copying_def using m2(2-5) c(2,3) g(1) up dd same by simp
  qed
  show ?thesis
  proof (cases "map la ds" rule: rev_cases)
    case Nil
    let ?m2 = "m1\<lparr>nodes := (nodes m1)(r \<mapsto> rn\<lparr>nd_child := Some (la d)\<rparr>)\<rparr>"
    have "store (Some r) (\<lambda>n. n\<lparr>nd_child := Some (la d)\<rparr>) m1 = Some ?m2" using r1 by (simp add: store_Some)
    moreover have "fresh_above ?m2" using g c(2,3) by (auto simp: fresh_above_def)
    ultimately show ?thesis using Nil apart d(4-6) by (intro exI [of _ ?m2] conjI fin) auto
  next
    case (snoc as l)
    obtain ln where ln: "nodes m1 l = Some ln" "nd_prev ln = final None as" "nd_next ln = None" "dseg (nodes m1) None as (Some l)"
      using s snoc by auto
    let ?m2 = "m1\<lparr>nodes := (nodes m1)(l \<mapsto> ln\<lparr>nd_next := Some (la d)\<rparr>, la d \<mapsto> n\<lparr>nd_prev := Some l\<rparr>)\<rparr>"
    have ll: "l \<noteq> la d" "l \<noteq> r" "l \<notin> set as" "la d \<notin> set as" "l \<in> la ` set ds"
    proof -
      have "set (map la ds) = insert l (set as)" "distinct (as @ [l])"
        using snoc distinct_roots [OF c(9)] by simp_all
      then show "l \<noteq> la d" "l \<noteq> r" "l \<notin> set as" "la d \<notin> set as" "l \<in> la ` set ds" using apart by auto
    qed
    have "suffix_object (Some l) (Some (la d)) m1 = Some ?m2" using ln d(4) ll by (simp add: suffix_object_def store_Some)
    moreover have "fresh_above ?m2" using g(2) ln d(4) by (auto simp: fresh_above_def)
    moreover have "final None (map la ds) = Some l" by (simp add: snoc)
    moreover have "nodes ?m2 r = Some (rn\<lparr>nd_child := first (map la (ds @ [d])) None\<rparr>)"
      using r1 ll(2) apart(3) snoc by (cases ds) auto
    moreover have "dseg (nodes ?m2) None (map la (ds @ [d])) None"
      using ln ll d(4,5) by (simp add: snoc)
    ultimately show ?thesis using ll(5) ln(1) d(4) by (intro exI [of _ ?m2] conjI fin) (auto simp: links_off_eq)
  qed
qed

text \<open>The loop, given that each child is copied.\<close>

lemma duplicate_children_loop:
  assumes "\<And>c m. c \<in> set cs \<Longrightarrow> laid m c \<Longrightarrow> plain m c \<Longrightarrow> fresh_above m \<Longrightarrow>
      \<exists>m' d. copy (Some (la c)) m = Some (Some (la d), m') \<and> copied m c m' d"
    "nexts (nodes m0) (map la cs)" "\<And>c. c \<in> set cs \<Longrightarrow> laid m0 c \<and> plain m0 c \<and> r \<notin> set (cells c)" "fresh_above m0"
    "copying m0 r rn m ds"
  shows "\<exists>m' es. duplicate_children copy (Some r) (first (map la cs) None) (final None (map la ds)) m =
      Some (True, final None (map la (ds @ es)), m') \<and> copying m0 r rn m' (ds @ es) \<and>
    (\<forall>d \<in> set ds. same_item m m' d) \<and>
    map (\<lambda>c. (text_at m' (lk c), tree_of m' c)) es = map (\<lambda>c. (text_at m0 (lk c), tree_of m0 c)) cs \<and>
    map (\<lambda>c. lk c = None) es = map (\<lambda>c. lk c = None) cs \<and> map (fields_of m') es = map (fields_of m0) cs"
  using assms
proof (induction cs arbitrary: m ds)
  case Nil
  have "duplicate_children copy (Some r) (first (map la []) None) (final None (map la ds)) m = Some (True, final None (map la (ds @ [])), m)"
    by (subst duplicate_children.simps) simp
  then show ?case using Nil.prems(5) by (intro exI [of _ m] exI [of _ "[]"]) (auto simp: same_item_def)
next
  case (Cons c cs)
  have c0: "laid m0 c" "plain m0 c" "r \<notin> set (cells c)" using Cons.prems(3) by auto
  have old: "same_item m0 m c"
  proof (rule same_itemI)
    show "nodes m x = nodes m0 x" if "x \<in> set (cells c)" for x
    proof -
      have "x < brk m0" "x \<noteq> r" using below_brk [OF c0(1) Cons.prems(4) that] c0(3) that by auto
      then show ?thesis using Cons.prems(5) by (simp add: copying_def)
    qed
    show "texts m t = texts m0 t" if "t \<in> set (strings c)" for t
      using below_brk_text [OF c0(1) Cons.prems(4) that] Cons.prems(5) by (simp add: copying_def)
  qed
  have "laid m c" "plain m c" "fresh_above m"
    using c0 laid_same [OF old] plain_same [OF old] Cons.prems(5) by (auto simp: copying_def)
  then obtain m1 d where d: "copy (Some (la c)) m = Some (Some (la d), m1)" "copied m c m1 d"
    using Cons.prems(1) [of c m] by auto
  obtain m2 where m2: "(if final None (map la ds) \<noteq> None then suffix_object (final None (map la ds)) (Some (la d)) m1
      else store (Some r) (\<lambda>n. n\<lparr>nd_child := Some (la d)\<rparr>) m1) = Some m2" "copying m0 r rn m2 (ds @ [d])"
    "\<forall>e \<in> set (ds @ [d]). same_item m1 m2 e"
    using copying_step [OF Cons.prems(5) d(2)] by blast
  have "\<exists>m' es. duplicate_children copy (Some r) (first (map la cs) None) (final None (map la (ds @ [d]))) m2 =
      Some (True, final None (map la ((ds @ [d]) @ es)), m') \<and> copying m0 r rn m' ((ds @ [d]) @ es) \<and>
    (\<forall>e \<in> set (ds @ [d]). same_item m2 m' e) \<and>
    map (\<lambda>c. (text_at m' (lk c), tree_of m' c)) es = map (\<lambda>c. (text_at m0 (lk c), tree_of m0 c)) cs \<and>
    map (\<lambda>c. lk c = None) es = map (\<lambda>c. lk c = None) cs \<and> map (fields_of m') es = map (fields_of m0) cs"
    using Cons.prems m2(2) by (intro Cons.IH) auto
  then obtain m' es where es: "duplicate_children copy (Some r) (first (map la cs) None) (final None (map la (ds @ [d]))) m2 =
      Some (True, final None (map la ((ds @ [d]) @ es)), m')" "copying m0 r rn m' ((ds @ [d]) @ es)"
    "\<forall>e \<in> set (ds @ [d]). same_item m2 m' e"
    "map (\<lambda>c. (text_at m' (lk c), tree_of m' c)) es = map (\<lambda>c. (text_at m0 (lk c), tree_of m0 c)) cs"
    "map (\<lambda>c. lk c = None) es = map (\<lambda>c. lk c = None) cs" "map (fields_of m') es = map (fields_of m0) cs" by blast
  have lac: "la c < brk m0" "la c \<noteq> r"
    using below_brk [OF c0(1) Cons.prems(4) la_in_cells] c0(3) la_in_cells by metis+
  then have "nodes m2 (la c) = nodes m0 (la c)" using m2(2) by (simp add: copying_def)
  then obtain n where n: "nodes m2 (la c) = Some n" "nd_next n = first (map la cs) None"
    using Cons.prems(2) by (auto split: option.splits)
  have run: "duplicate_children copy (Some r) (first (map la (c # cs)) None) (final None (map la ds)) m =
      Some (True, final None (map la (ds @ d # es)), m')"
    using d(1) m2(1) n es(1) by (subst duplicate_children.simps) simp
  have g: "grows m m1" "tree_of m1 d = tree_of m c" "text_at m1 (lk d) = text_at m (lk c)" "(lk d = None) = (lk c = None)"
    "fields_of m1 d = fields_of m c"
    using d(2) by (simp_all add: copied_def)
  have same: "same_item m m' e" if "e \<in> set ds" for e
  proof -
    have "same_item m m1 e" using that Cons.prems(5) by (intro grows_same [OF g(1)]) (auto simp: copying_def)
    moreover have "same_item m1 m2 e" "same_item m2 m' e" using m2(3) es(3) that by auto
    ultimately show ?thesis by (blast intro: same_item_trans)
  qed
  have "same_item m1 m2 d" "same_item m2 m' d" using m2(3) es(3) by auto
  then have "same_item m1 m' d" by (rule same_item_trans)
  have ff: "fields_of m' d = fields_of m0 c" using g(5) fields_same [OF \<open>same_item m1 m' d\<close>] fields_same [OF old] by simp
  have dd: "text_at m' (lk d) = text_at m0 (lk c)" "tree_of m' d = tree_of m0 c" "(lk d = None) = (lk c = None)"
    using g text_at_same [OF \<open>same_item m1 m' d\<close>] tree_same [OF \<open>same_item m1 m' d\<close>] tree_same [OF old] text_at_same [OF old] by auto
  show ?case using run es same dd ff by (intro exI [of _ m'] exI [of _ "d # es"]) auto
qed

lemma strdup_opt:
  assumes "\<forall>t \<in> set (opt_list p). texts m t \<noteq> None" "\<forall>x \<ge> brk m. nodes m x = None \<and> texts m x = None"
  obtains p' m' where "cJSON_strdup p m = Some (p', m')" "nodes m' = nodes m" "brk m \<le> brk m'"
    "\<forall>x < brk m. texts m' x = texts m x" "\<forall>t \<in> set (opt_list p'). brk m \<le> t \<and> t < brk m' \<and> texts m' t \<noteq> None"
    "text_at m' p' = text_at m p" "p' = None \<longleftrightarrow> p = None" "\<forall>x \<ge> brk m'. nodes m' x = None \<and> texts m' x = None"
proof (cases p)
  case None
  then show thesis using assms that [of None m] by (simp add: cJSON_strdup_def opt_list_def text_at_def)
next
  case (Some t)
  then obtain s where "texts m t = Some s" using assms(1) by (auto simp: opt_list_def)
  then show thesis using Some assms that [of "Some (brk m)" "m\<lparr>texts := (texts m)(brk m \<mapsto> s), brk := Suc (brk m)\<rparr>"]
    by (simp add: cJSON_strdup_def opt_list_def text_at_def)
qed

lemma dseg_first_prev:
  "dseg h q' (e # es) r \<Longrightarrow> h e = Some n \<Longrightarrow> e \<notin> set es \<Longrightarrow> dseg (h(e \<mapsto> n\<lparr>nd_prev := q\<rparr>)) q (e # es) r"
  by simp

text \<open>The last step of \<open>duplicate_item\<close>: the first copy's \<open>prev\<close> becomes the last copy.\<close>

lemma copying_close:
  assumes "copying m0 r rn m ds" "nd_child rn = None"
  shows "\<exists>m'. (if first (map la ds) None \<noteq> None then store (first (map la ds) None) (\<lambda>c. c\<lparr>nd_prev := final None (map la ds)\<rparr>) m
      else Some m) = Some m' \<and>
    nodes m' r = Some (rn\<lparr>nd_child := first (map la ds) None\<rparr>) \<and> texts m' = texts m \<and> brk m' = brk m \<and> fresh_above m' \<and>
    dseg (nodes m') (final None (map la ds)) (map la ds) None \<and> (\<forall>x < brk m0. nodes m' x = nodes m x) \<and> (\<forall>d \<in> set ds. same_item m m' d)"
proof (cases ds)
  case Nil
  then show ?thesis using assms by (auto simp: copying_def)
next
  case (Cons d es)
  have c: "dseg (nodes m) None (map la ds) None" "distinct (concat (map cells ds))"
    "\<And>x. x \<in> set (concat (map cells ds)) \<Longrightarrow> brk m0 \<le> x" "r < brk m0" "nodes m r = Some (rn\<lparr>nd_child := first (map la ds) None\<rparr>)" "fresh_above m"
    using assms(1) by (auto simp: copying_def)
  obtain n where n: "nodes m (la d) = Some n" using c(1) Cons by auto
  let ?m' = "m\<lparr>nodes := (nodes m)(la d \<mapsto> n\<lparr>nd_prev := final None (map la ds)\<rparr>)\<rparr>"
  have low: "brk m0 \<le> la d" using c(3) la_in_all [of d ds] Cons by simp
  have "dseg (nodes ?m') (final None (map la ds)) (map la ds) None"
    using dseg_first_prev [of "nodes m" None "la d" "map la es" None n] c(1) n distinct_roots [OF c(2)] Cons by simp
  moreover have "same_item m ?m' e" if e: "e \<in> set ds" for e
  proof -
    have "x \<noteq> la d" if "x \<in> set (concat (map cells (lc e)))" for x
      using inner_not_root [OF c(2) e that] Cons by auto
    then show ?thesis using n by (auto simp: same_item_def links_off_eq)
  qed
  moreover have "fresh_above ?m'" using c(6) n by (auto simp: fresh_above_def)
  ultimately show ?thesis using n low c(4,5) Cons by (intro exI [of _ ?m']) (auto simp: store_Some)
qed

lemma plain_laid:
  assumes "laid m (Lay a v k cs)" "plain m (Lay a v k cs)"
  obtains i where "nodes m a = Some i" "nd_type i AND cJSON_IsReference = 0" "nd_type i AND cJSON_StringIsConst = 0"
    "nd_valuestring i = v" "nd_string i = k" "nd_child i = first (map la cs) None" "dseg (nodes m) (final None (map la cs)) (map la cs) None"
    "nd_type i AND 255 = cJSON_Object_t \<longrightarrow> (\<forall>c \<in> set cs. lk c \<noteq> None)"
    "\<forall>t \<in> set (opt_list v). texts m t \<noteq> None" "\<forall>t \<in> set (opt_list k). texts m t \<noteq> None"
  using assms by (auto split: option.splits)

text \<open>The new node with its own copies of the two strings, before any child is copied.\<close>

definition shell :: "memory \<Rightarrow> node \<Rightarrow> memory \<Rightarrow> node \<Rightarrow> bool" where
  "shell m i m' n \<longleftrightarrow> brk m < brk m' \<and> fresh_above m' \<and> (\<forall>x < brk m. nodes m' x = nodes m x \<and> texts m' x = texts m x) \<and>
     nodes m' (brk m) = Some n \<and> nd_next n = None \<and> nd_prev n = None \<and> nd_child n = None \<and> nd_type n = nd_type i \<and>
     nd_valuedouble n = nd_valuedouble i \<and> nd_valueint n = nd_valueint i \<and>
     (\<forall>t \<in> set (opt_list (nd_valuestring n) @ opt_list (nd_string n)). brk m \<le> t \<and> t < brk m' \<and> texts m' t \<noteq> None) \<and>
     distinct (opt_list (nd_valuestring n) @ opt_list (nd_string n)) \<and>
     text_at m' (nd_valuestring n) = text_at m (nd_valuestring i) \<and> text_at m' (nd_string n) = text_at m (nd_string i) \<and>
     (nd_string n = None \<longleftrightarrow> nd_string i = None) \<and> (nd_valuestring n = None \<longleftrightarrow> nd_valuestring i = None)"

lemma opt_list_distinct [simp]: "distinct (opt_list p)"
  by (simp add: opt_list_def split: option.split)

lemma duplicate_shell:
  assumes "nodes m a = Some i" "nd_type i AND cJSON_IsReference = 0" "nd_type i AND cJSON_StringIsConst = 0" "fresh_above m"
    "\<forall>t \<in> set (opt_list (nd_valuestring i)). texts m t \<noteq> None" "\<forall>t \<in> set (opt_list (nd_string i)). texts m t \<noteq> None"
  shows "\<exists>m' n. shell m i m' n \<and> duplicate_item copy (Some a) True m = (do {
       (copied, newchild, m7) \<leftarrow> duplicate_children copy (Some (brk m)) (nd_child i) None m';
       if \<not> copied then do { m8 \<leftarrow> cJSON_Delete (Some (brk m)) m7; Some (None, m8) }
       else do {
         r \<leftarrow> load (Some (brk m)) m7;
         m8 \<leftarrow> (if nd_child r \<noteq> None then store (nd_child r) (\<lambda>c. c\<lparr>nd_prev := newchild\<rparr>) m7 else Some m7);
         Some (Some (brk m), m8)
       } })"
proof -
  let ?r = "brk m"
  have ty: "nd_type i AND NOT cJSON_IsReference = nd_type i" using and_not_absent [OF assms(2)] .
  have ar: "a \<noteq> ?r" using assms(1,4) by (auto simp: fresh_above_def)
  let ?n2 = "zero_node\<lparr>nd_type := nd_type i, nd_valueint := nd_valueint i, nd_valuedouble := nd_valuedouble i\<rparr>"
  define m2 where "m2 = m\<lparr>brk := Suc ?r, nodes := (nodes m)(?r \<mapsto> ?n2)\<rparr>"
  have m2: "brk m2 = Suc ?r" "texts m2 = texts m" "nodes m2 = (nodes m)(?r \<mapsto> ?n2)" by (simp_all add: m2_def)
  have l2: "\<forall>t \<in> set (opt_list (nd_valuestring i)). texts m2 t \<noteq> None" using assms(5) m2 by simp
  have f2: "\<forall>x \<ge> brk m2. nodes m2 x = None \<and> texts m2 x = None" using assms(4) m2 by (auto simp: fresh_above_def)
  obtain vs m3 where vs: "cJSON_strdup (nd_valuestring i) m2 = Some (vs, m3)" "nodes m3 = nodes m2" "brk m2 \<le> brk m3"
    "\<forall>x < brk m2. texts m3 x = texts m2 x" "\<forall>t \<in> set (opt_list vs). brk m2 \<le> t \<and> t < brk m3 \<and> texts m3 t \<noteq> None"
    "text_at m3 vs = text_at m2 (nd_valuestring i)" "vs = None \<longleftrightarrow> nd_valuestring i = None" "\<forall>x \<ge> brk m3. nodes m3 x = None \<and> texts m3 x = None"
    by (rule strdup_opt [OF l2 f2])
  define n4 where "n4 = ?n2\<lparr>nd_valuestring := vs\<rparr>"
  define m4 where "m4 = m3\<lparr>nodes := (nodes m3)(?r \<mapsto> n4)\<rparr>"
  have st4: "store (Some ?r) (\<lambda>n. n\<lparr>nd_valuestring := vs\<rparr>) m3 = Some m4" by (simp add: store_Some vs(2) m2 m4_def n4_def)
  have b4: "brk m4 = brk m3" "texts m4 = texts m3" "Suc ?r \<le> brk m4" using vs(3) m2 by (simp_all add: m4_def)
  have o4: "nodes m4 x = nodes m x \<and> texts m4 x = texts m x" if "x < ?r" for x using that vs(2,4) m2 by (simp add: m4_def)
  have below: "t < ?r" if "texts m t \<noteq> None" for t using that assms(4) by (metis fresh_above_def not_less)
  have l4: "\<forall>t \<in> set (opt_list (nd_string i)). texts m4 t \<noteq> None" using assms(6) o4 below by metis
  have f4: "\<forall>x \<ge> brk m4. nodes m4 x = None \<and> texts m4 x = None" using vs(3,8) m2 by (auto simp: m4_def)
  obtain str m5 where str: "cJSON_strdup (nd_string i) m4 = Some (str, m5)" "nodes m5 = nodes m4" "brk m4 \<le> brk m5"
    "\<forall>x < brk m4. texts m5 x = texts m4 x" "\<forall>t \<in> set (opt_list str). brk m4 \<le> t \<and> t < brk m5 \<and> texts m5 t \<noteq> None"
    "text_at m5 str = text_at m4 (nd_string i)" "str = None \<longleftrightarrow> nd_string i = None" "\<forall>x \<ge> brk m5. nodes m5 x = None \<and> texts m5 x = None"
    by (rule strdup_opt [OF l4 f4])
  define n6 where "n6 = n4\<lparr>nd_string := str\<rparr>"
  define m6 where "m6 = m5\<lparr>nodes := (nodes m5)(?r \<mapsto> n6)\<rparr>"
  have "nodes m5 ?r = Some n4" by (simp add: str(2) m4_def)
  then have st6: "store (Some ?r) (\<lambda>n. n\<lparr>nd_string := str\<rparr>) m5 = Some m6" by (simp add: store_Some m6_def n6_def)
  have t: "text_at m6 vs = text_at m (nd_valuestring i)" "text_at m6 str = text_at m (nd_string i)"
  proof -
    have "text_at m5 vs = text_at m3 vs" using vs(5) str(4) b4 by (intro text_at_cong) auto
    then show "text_at m6 vs = text_at m (nd_valuestring i)" using vs(6) m2(2) by (simp add: m6_def text_at_def)
    have "text_at m4 (nd_string i) = text_at m (nd_string i)" using assms(6) o4 below by (intro text_at_cong) blast
    then show "text_at m6 str = text_at m (nd_string i)" using str(6) by (simp add: m6_def text_at_def)
  qed
  have "shell m i m6 n6"
    unfolding shell_def
  proof (intro conjI)
    show "brk m < brk m6" "nodes m6 (brk m) = Some n6" using b4 str(3) by (simp_all add: m6_def)
    show "fresh_above m6" using str(3,8) b4 by (auto simp: m6_def fresh_above_def)
    show "\<forall>x < brk m. nodes m6 x = nodes m x \<and> texts m6 x = texts m x" using o4 str(2,4) b4 by (simp add: m6_def)
    show "distinct (opt_list (nd_valuestring n6) @ opt_list (nd_string n6))"
      using vs(5) str(5) b4 by (fastforce simp: n6_def n4_def)
    show "\<forall>t \<in> set (opt_list (nd_valuestring n6) @ opt_list (nd_string n6)). brk m \<le> t \<and> t < brk m6 \<and> texts m6 t \<noteq> None"
      using vs(5) str(3,4,5) b4 m2(1) by (fastforce simp: n6_def n4_def m6_def)
  qed (use t str(7) vs(7) in \<open>simp_all add: n6_def n4_def zero_node_def\<close>)
  moreover have "duplicate_item copy (Some a) True m = (do {
       (copied, newchild, m7) \<leftarrow> duplicate_children copy (Some (brk m)) (nd_child i) None m6;
       if \<not> copied then do { m8 \<leftarrow> cJSON_Delete (Some (brk m)) m7; Some (None, m8) }
       else do {
         r \<leftarrow> load (Some (brk m)) m7;
         m8 \<leftarrow> (if nd_child r \<noteq> None then store (nd_child r) (\<lambda>c. c\<lparr>nd_prev := newchild\<rparr>) m7 else Some m7);
         Some (Some (brk m), m8)
       } })"
    using assms(1) ar ty vs(1) str(1) st4 st6 assms(3)
    by (simp add: duplicate_item_def cJSON_New_Item_def store_Some m2_def)
  ultimately show ?thesis by blast
qed

lemma node_tree_eq:
  assumes "nd_type n = nd_type i" "nd_valuedouble n = nd_valuedouble i"
  shows "node_tree n = node_tree i"
  unfolding node_tree_def assms ..

text \<open>What has been built is a copy.\<close>

lemma copied_close:
  assumes "nodes m a = Some i" "nd_type i AND cJSON_IsReference = 0" "nd_type i AND cJSON_StringIsConst = 0"
    "nd_valuestring i = v" "nd_string i = k" "nd_child i = first (map la cs) None" "dseg (nodes m) (final None (map la cs)) (map la cs) None"
    "nd_type i AND 255 = cJSON_Object_t \<longrightarrow> (\<forall>c \<in> set cs. lk c \<noteq> None)"
    "shell m i m6 n" "copying m6 (brk m) n m7 ([] @ ds)"
    "map (\<lambda>c. (text_at m7 (lk c), tree_of m7 c)) ds = map (\<lambda>c. (text_at m (lk c), tree_of m c)) cs"
    "map (\<lambda>c. lk c = None) ds = map (\<lambda>c. lk c = None) cs" "map (fields_of m7) ds = map (fields_of m) cs"
    "nodes m8 (brk m) = Some (n\<lparr>nd_child := first (map la ds) None\<rparr>)" "texts m8 = texts m7" "brk m8 = brk m7" "fresh_above m8"
    "dseg (nodes m8) (final None (map la ds)) (map la ds) None" "\<forall>x < brk m6. nodes m8 x = nodes m7 x"
    "\<And>d. d \<in> set ds \<Longrightarrow> same_item m7 m8 d"
  shows "copied m (Lay a v k cs) m8 (Lay (brk m) (nd_valuestring n) (nd_string n) ds)"
proof -
  let ?L = "Lay (brk m) (nd_valuestring n) (nd_string n) ds"
  have c: "brk m6 \<le> brk m7" "\<And>x. x \<in> set (concat (map cells ds)) \<Longrightarrow> brk m6 \<le> x" "\<And>t. t \<in> set (concat (map strings ds)) \<Longrightarrow> brk m6 \<le> t"
    "distinct (concat (map cells ds))" "distinct (concat (map strings ds))" "\<And>d. d \<in> set ds \<Longrightarrow> laid m7 d \<and> plain m7 d"
    "\<And>x. x < brk m6 \<Longrightarrow> x \<noteq> brk m \<Longrightarrow> nodes m7 x = nodes m6 x" "\<And>x. x < brk m6 \<Longrightarrow> texts m7 x = texts m6 x"
    using assms(10) by (auto simp: copying_def)
  have s: "brk m < brk m6" "\<And>x. x < brk m \<Longrightarrow> nodes m6 x = nodes m x" "\<And>x. x < brk m \<Longrightarrow> texts m6 x = texts m x"
    "nd_next n = None" "nd_prev n = None" "nd_type n = nd_type i" "nd_valuedouble n = nd_valuedouble i"
    "\<And>t. t \<in> set (opt_list (nd_valuestring n) @ opt_list (nd_string n)) \<Longrightarrow> brk m \<le> t \<and> t < brk m6 \<and> texts m6 t \<noteq> None"
    "distinct (opt_list (nd_valuestring n) @ opt_list (nd_string n))"
    "text_at m6 (nd_valuestring n) = text_at m v" "text_at m6 (nd_string n) = text_at m k" "nd_string n = None \<longleftrightarrow> k = None"
    using assms(4,5,9) by (auto simp: shell_def)
  have grows: "grows m m8" using s(1-3) c(1,7,8) assms(15-17,19) by (simp add: grows_def)
  have lp: "laid m8 d \<and> plain m8 d" if "d \<in> set ds" for d
    using c(6) laid_same [OF assms(20)] plain_same [OF assms(20)] that by blast
  have live: "\<forall>t \<in> set (opt_list (nd_valuestring n) @ opt_list (nd_string n)). texts m8 t \<noteq> None"
    using s(8) c(8) assms(15) by metis
  have laid: "laid m8 ?L" using assms(2,3,14,18) s(6) live lp by simp
  have "(\<forall>d \<in> set ds. lk d \<noteq> None) = (\<forall>c \<in> set cs. lk c \<noteq> None)"
  proof -
    have "(\<lambda>c. lk c = None) ` set ds = (\<lambda>c. lk c = None) ` set cs" using arg_cong [OF assms(12), of set] by simp
    then have "(True \<in> (\<lambda>c. lk c = None) ` set ds) = (True \<in> (\<lambda>c. lk c = None) ` set cs)" by (rule arg_cong)
    then have "(\<exists>x \<in> set ds. lk x = None) = (\<exists>x \<in> set cs. lk x = None)" by (simp add: image_iff)
    moreover have "(\<forall>d \<in> set X. lk d \<noteq> None) = (\<not> (\<exists>x \<in> set X. lk x = None))" for X by auto
    ultimately show ?thesis by (simp only:)
  qed
  then have plain: "plain m8 ?L" using assms(2,3,8,14) s(6) lp by simp
  have tx: "text_at m8 p = text_at m6 p" if "\<forall>t \<in> set (opt_list p). t < brk m6" for p
    using that c(8) assms(15) by (intro text_at_cong) simp
  have t: "text_at m8 (nd_valuestring n) = text_at m v" "text_at m8 (nd_string n) = text_at m k"
    using tx [of "nd_valuestring n"] tx [of "nd_string n"] s(8,10,11) by auto
  have "map (\<lambda>c. (text_at m8 (lk c), tree_of m8 c)) ds = map (\<lambda>c. (text_at m7 (lk c), tree_of m7 c)) ds"
    using tree_same [OF assms(20)] text_at_same [OF assms(20)] by (intro map_cong) auto
  then have kids: "map (\<lambda>c. (text_at m8 (lk c), tree_of m8 c)) ds = map (\<lambda>c. (text_at m (lk c), tree_of m c)) cs" using assms(11) by simp
  have "node_tree (n\<lparr>nd_child := first (map la ds) None\<rparr>) = node_tree i"
    using s(6,7) by (intro node_tree_eq) simp_all
  then have tree: "tree_of m8 ?L = tree_of m (Lay a v k cs)"
    using assms(1,14) t(1) kids by (simp del: map_eq_conv)
  have "map (fields_of m8) ds = map (fields_of m7) ds" using fields_same [OF assms(20)] by (intro map_cong) auto
  then have "map (fields_of m8) ds = map (fields_of m) cs" using assms(13) by simp
  moreover have "nd_valueint n = nd_valueint i" "nd_valuestring n = None \<longleftrightarrow> v = None" using assms(4,9) by (auto simp: shell_def)
  ultimately have fields: "fields_of m8 ?L = fields_of m (Lay a v k cs)"
    using assms(1,14) t s(6,7,12) by (simp add: opt_text_def del: map_eq_conv)
  have above: "\<forall>x \<in> set (cells ?L). brk m \<le> x" "\<forall>t \<in> set (strings ?L). brk m \<le> t" "distinct (cells ?L)" "distinct (strings ?L)"
  proof -
    show "\<forall>x \<in> set (cells ?L). brk m \<le> x" using c(2) s(1) by (fastforce simp del: set_concat)
    show "\<forall>t \<in> set (strings ?L). brk m \<le> t" using c(3) s(1,8) by (fastforce simp del: set_concat)
    show "distinct (cells ?L)" using c(2,4) s(1) by (fastforce simp del: set_concat)
    have "set (opt_list (nd_valuestring n) @ opt_list (nd_string n)) \<inter> set (concat (map strings ds)) = {}"
      using c(3) s(8) by (meson disjoint_iff not_less)
    then show "distinct (strings ?L)" using c(5) s(9) by (auto simp del: set_concat)
  qed
  show ?thesis
    unfolding copied_def using grows laid plain above tree fields t(2) s(4,5,12) assms(14) by simp
qed

lemma duplicate_item_copies:
  assumes "\<And>c m. c \<in> set cs \<Longrightarrow> laid m c \<Longrightarrow> plain m c \<Longrightarrow> fresh_above m \<Longrightarrow>
      \<exists>m' d. copy (Some (la c)) m = Some (Some (la d), m') \<and> copied m c m' d"
    "laid m (Lay a v k cs)" "plain m (Lay a v k cs)" "fresh_above m"
  shows "\<exists>m' L'. duplicate_item copy (Some a) True m = Some (Some (la L'), m') \<and> copied m (Lay a v k cs) m' L'"
proof -
  obtain i where i: "nodes m a = Some i" "nd_type i AND cJSON_IsReference = 0" "nd_type i AND cJSON_StringIsConst = 0"
    "nd_valuestring i = v" "nd_string i = k" "nd_child i = first (map la cs) None" "dseg (nodes m) (final None (map la cs)) (map la cs) None"
    "nd_type i AND 255 = cJSON_Object_t \<longrightarrow> (\<forall>c \<in> set cs. lk c \<noteq> None)"
    "\<forall>t \<in> set (opt_list v). texts m t \<noteq> None" "\<forall>t \<in> set (opt_list k). texts m t \<noteq> None"
    by (rule plain_laid [OF assms(2,3)])
  obtain m6 n where sh: "shell m i m6 n" and run: "duplicate_item copy (Some a) True m = (do {
       (copied, newchild, m7) \<leftarrow> duplicate_children copy (Some (brk m)) (nd_child i) None m6;
       if \<not> copied then do { m8 \<leftarrow> cJSON_Delete (Some (brk m)) m7; Some (None, m8) }
       else do {
         r \<leftarrow> load (Some (brk m)) m7;
         m8 \<leftarrow> (if nd_child r \<noteq> None then store (nd_child r) (\<lambda>c. c\<lparr>nd_prev := newchild\<rparr>) m7 else Some m7);
         Some (Some (brk m), m8)
       } })"
    using duplicate_shell [OF i(1-3) assms(4), of copy] i(4,5,9,10) by blast
  have g6: "grows m m6" using sh by (simp add: shell_def grows_def)
  have src: "laid m c" "plain m c" if "c \<in> set cs" for c using assms(2,3) that by auto
  have src6: "laid m6 c \<and> plain m6 c \<and> brk m \<notin> set (cells c)" if "c \<in> set cs" for c
    using laid_same [OF grows_same [OF g6 src(1) assms(4)]] plain_same [OF grows_same [OF g6 src(1) assms(4)]] src that
      below_brk [OF src(1) assms(4)] by blast
  have nx: "nexts (nodes m6) (map la cs)"
  proof -
    have "nodes m6 x = nodes m x" if "x \<in> set (map la cs)" for x
      using that below_brk [OF src(1) assms(4)] la_in_cells g6 by (auto simp: grows_def)
    then have "nexts (nodes m6) (map la cs) = nexts (nodes m) (map la cs)" by (rule nexts_cong)
    then show ?thesis using dseg_nexts i(7) by blast
  qed
  have same6: "same_item m m6 c" if "c \<in> set cs" for c using grows_same [OF g6 src(1) assms(4)] that by blast
  have kids6: "map (\<lambda>c. (text_at m6 (lk c), tree_of m6 c)) cs = map (\<lambda>c. (text_at m (lk c), tree_of m c)) cs"
    using tree_same [OF same6] text_at_same [OF same6] by (intro map_cong) auto
  have fields6: "map (fields_of m6) cs = map (fields_of m) cs" using fields_same [OF same6] by (intro map_cong) auto
  have f6: "fresh_above m6" using sh by (simp add: shell_def)
  have start: "copying m6 (brk m) n m6 []" using sh by (simp add: copying_def shell_def)
  obtain m7 ds where loop: "duplicate_children copy (Some (brk m)) (first (map la cs) None) (final None (map la [])) m6 =
      Some (True, final None (map la ([] @ ds)), m7)" "copying m6 (brk m) n m7 ([] @ ds)"
    "map (\<lambda>c. (text_at m7 (lk c), tree_of m7 c)) ds = map (\<lambda>c. (text_at m (lk c), tree_of m c)) cs"
    "map (\<lambda>c. lk c = None) ds = map (\<lambda>c. lk c = None) cs" "map (fields_of m7) ds = map (fields_of m) cs"
    using duplicate_children_loop [OF assms(1) nx src6 f6 start] kids6 fields6 by auto
  have nc: "nd_child n = None" using sh by (simp add: shell_def)
  have loop7: "copying m6 (brk m) n m7 ds" using loop(2) by simp
  let ?r = "brk m" and ?n = "n\<lparr>nd_child := first (map la ds) None\<rparr>"
  let ?L = "Lay ?r (nd_valuestring n) (nd_string n) ds"
  obtain m8 where m8: "(if first (map la ds) None \<noteq> None then store (first (map la ds) None) (\<lambda>c. c\<lparr>nd_prev := final None (map la ds)\<rparr>) m7
      else Some m7) = Some m8" "nodes m8 ?r = Some ?n" "texts m8 = texts m7" "brk m8 = brk m7" "fresh_above m8"
    "dseg (nodes m8) (final None (map la ds)) (map la ds) None" "\<forall>x < brk m6. nodes m8 x = nodes m7 x"
    "\<And>d. d \<in> set ds \<Longrightarrow> same_item m7 m8 d"
    using copying_close [OF loop7 nc] by blast
  have r7: "nodes m7 ?r = Some ?n" using loop(2) by (simp add: copying_def)
  have "duplicate_item copy (Some a) True m = Some (Some (la ?L), m8)"
    using run i(6) loop(1) m8(1) r7 by (cases "first (map la ds) None = None") simp_all
  moreover have "copied m (Lay a v k cs) m8 ?L"
    by (rule copied_close [OF i(1-8) sh loop(2-5) m8(2-8)])
  ultimately show ?thesis by blast
qed

lemma duplicate_rec_copies:
  "laid m L \<Longrightarrow> plain m L \<Longrightarrow> fresh_above m \<Longrightarrow> depth L \<le> levels \<Longrightarrow>
    \<exists>m' L'. cJSON_Duplicate_rec levels (Some (la L)) True m = Some (Some (la L'), m') \<and> copied m L m' L'"
proof (induction levels arbitrary: L m)
  case 0
  obtain a v k cs where L: "L = Lay a v k cs" by (cases L)
  have "cs = []" using 0(4) depth_child [of _ cs a v k] by (cases cs) (auto simp: L)
  then show ?case using duplicate_item_copies [of cs "\<lambda>child m. Some (None, m)" m a v k] 0 by (simp add: L)
next
  case (Suc levels)
  obtain a v k cs where L: "L = Lay a v k cs" by (cases L)
  have "depth c \<le> levels" if "c \<in> set cs" for c using depth_child [OF that, of a v k] Suc.prems(4) by (simp add: L del: depth.simps)
  then show ?case using duplicate_item_copies [of cs "\<lambda>child. cJSON_Duplicate_rec levels child True" m a v k] Suc by (simp add: L del: depth.simps laid.simps plain.simps)
qed

text \<open>C25: Deleting an item that is in no list frees exactly its nodes and strings, each once: not the key of a
  \<open>cJSON_StringIsConst\<close> item, nor what a \<open>cJSON_IsReference\<close> item points to. Nothing else changes.
\<close>
theorem delete_frees_exactly:
  assumes "owned m [L]" "loose m L"
  shows "cJSON_Delete (Some (la L)) m =
    Some (m\<lparr>nodes := nodes m |` (- set (cells L)), texts := texts m |` (- set (strings L))\<rparr>)"
proof -
  have "nexts (nodes m) (map la [L])" using looseD [OF assms(2)] by auto
  then show ?thesis using delete_owned [OF assms(1)] by (simp add: freed_def)
qed

theorem delete_frees_exactly_witness:
  "cJSON_Delete (Some 0) (demo_memory cJSON_Object_t) =
    Some ((demo_memory cJSON_Object_t)\<lparr>nodes := nodes (demo_memory cJSON_Object_t) |` (- {0, 1, 2}),
      texts := texts (demo_memory cJSON_Object_t) |` (- {5, 6})\<rparr>)"
proof -
  have "owned (demo_memory cJSON_Object_t) [demo_parent]" using demo_holds [of cJSON_Object_t] by (simp add: holds_def owned_def)
  moreover have "loose (demo_memory cJSON_Object_t) demo_parent" by (simp add: loose_def demo_parent_def demo_memory_def zero_node_def)
  ultimately show ?thesis using delete_frees_exactly by (fastforce simp: demo_parent_def opt_list_def)
qed

text \<open>C26: Duplicating an item nested at most \<open>CJSON_CIRCULAR_LIMIT\<close> deep gives an item of its own that holds the same in
  every field but the links - type, \<open>valueint\<close>, \<open>valuedouble\<close>, value, key, and so on in its children - and so stands for the same
  tree; every node, string and item that was there is unchanged, and the two can be changed and deleted apart.
\<close>
theorem duplicate_correct:
  assumes "holds m (L # Ks)" "depth L \<le> CJSON_CIRCULAR_LIMIT"
  shows "\<exists>m' L'. cJSON_Duplicate (Some (la L)) True m = Some (Some (la L'), m') \<and> holds m' (L' # L # Ks) \<and> loose m' L' \<and>
    fields_of m' L' = fields_of m L \<and> tree_of m' L' = tree_of m L \<and> (\<forall>x < brk m. nodes m' x = nodes m x \<and> texts m' x = texts m x) \<and>
    (\<forall>K \<in> set (L # Ks). tree_of m' K = tree_of m K)"
proof -
  have h: "laid m L" "plain m L" "fresh_above m" "owned m (L # Ks)" "\<And>K. K \<in> set (L # Ks) \<Longrightarrow> laid m K \<and> plain m K"
    using assms(1) by (auto simp: holds_def owned_def)
  obtain m' L' where d: "cJSON_Duplicate_rec CJSON_CIRCULAR_LIMIT (Some (la L)) True m = Some (Some (la L'), m')" "copied m L m' L'"
    using duplicate_rec_copies [OF h(1-3) assms(2)] by blast
  have c: "grows m m'" "laid m' L'" "plain m' L'" "\<And>x. x \<in> set (cells L') \<Longrightarrow> brk m \<le> x" "\<And>t. t \<in> set (strings L') \<Longrightarrow> brk m \<le> t"
    "distinct (cells L')" "distinct (strings L')" "tree_of m' L' = tree_of m L" "loose m' L'" "fields_of m' L' = fields_of m L"
    using d(2) by (auto simp: copied_def loose_def)
  have same: "same_item m m' K" if "K \<in> set (L # Ks)" for K using grows_same [OF c(1)] h(3,5) that by blast
  have "x < brk m" if "x \<in> set (concat (map cells (L # Ks)))" for x using that below_brk [OF _ h(3)] h(5) by auto
  then have "set (cells L') \<inter> set (concat (map cells (L # Ks))) = {}" using c(4) by (meson disjoint_iff not_less)
  moreover have "x < brk m" if "x \<in> set (concat (map strings (L # Ks)))" for x using that below_brk_text [OF _ h(3)] h(5) by auto
  then have "set (strings L') \<inter> set (concat (map strings (L # Ks))) = {}" using c(5) by (meson disjoint_iff not_less)
  moreover have "laid m' K \<and> plain m' K" if "K \<in> set (L # Ks)" for K
    using laid_same [OF same [OF that]] plain_same [OF same [OF that]] h(5) [OF that] by simp
  moreover have "fresh_above m'" using c(1) by (simp add: grows_def)
  ultimately have "holds m' (L' # L # Ks)"
    using h(4) c(2,3,6,7) by (simp add: holds_def owned_def)
  moreover have "\<forall>K \<in> set (L # Ks). tree_of m' K = tree_of m K" using tree_same [OF same] by blast
  ultimately show ?thesis using d(1) c(1,8,9,10) by (auto simp: cJSON_Duplicate_def grows_def)
qed

theorem duplicate_correct_witness:
  "\<exists>m' L'. cJSON_Duplicate (Some 0) True (demo_memory cJSON_Object_t) = Some (Some (la L'), m') \<and>
    tree_of m' L' = cJSON_Object [(''a'', cJSON_Number 7), (''b'', cJSON_True)] \<and>
    tree_of m' demo_parent = cJSON_Object [(''a'', cJSON_Number 7), (''b'', cJSON_True)]"
proof -
  have "depth demo_parent \<le> CJSON_CIRCULAR_LIMIT" by (simp add: demo_parent_def CJSON_CIRCULAR_LIMIT_def)
  then have "\<exists>m' L'. cJSON_Duplicate (Some (la demo_parent)) True (demo_memory cJSON_Object_t) = Some (Some (la L'), m') \<and>
    tree_of m' L' = tree_of (demo_memory cJSON_Object_t) demo_parent \<and> tree_of m' demo_parent = tree_of (demo_memory cJSON_Object_t) demo_parent"
    using duplicate_correct [of "demo_memory cJSON_Object_t" demo_parent "[demo_loose]"] demo_holds [of cJSON_Object_t]
    by (metis insertI1 insertI2 list.set_intros(1))
  then show ?thesis unfolding demo_trees by (simp add: demo_parent_def)
qed

end
