(* ===== verification/CJsonMinify.thy ===== *)
theory CJsonMinify
  imports CJsonRoundtrip
begin

text \<open>
  \<open>cJSON_Print\<close>, which formats, and \<open>cJSON_Minify\<close>, which undoes it: comments and white space outside strings are removed
  in place. The write position never passes the read position, so the result is a function of the text. What is left of the text is the
  argument; its end is the terminating NUL.
\<close>

fun skip_line :: "bytes \<Rightarrow> bytes" where
  "skip_line [] = []"
| "skip_line (c # r) = (if c = CHR 0x0A then r else skip_line r)"

definition skip_oneline_comment :: "bytes \<Rightarrow> bytes" where
  "skip_oneline_comment s = skip_line (drop 2 s)"

fun skip_block :: "bytes \<Rightarrow> bytes" where
  "skip_block [] = []"
| "skip_block (c # r) = (if c = CHR ''*'' \<and> r \<noteq> [] \<and> hd r = CHR ''/'' then tl r else skip_block r)"

definition skip_multiline_comment :: "bytes \<Rightarrow> bytes" where
  "skip_multiline_comment s = skip_block (drop 2 s)"

text \<open>The rest of a string behind its opening quote: what is written, and what is left to read.\<close>

fun string_rest :: "bytes \<Rightarrow> bytes \<times> bytes" where
  "string_rest [] = ([], [])"
| "string_rest [c] = ([c], [])"
| "string_rest (c # d # r) =
     (if c = CHR 0x22 then ([CHR 0x22], d # r)
      else if c = CHR 0x5C \<and> d = CHR 0x22 then (let (w, l) = string_rest r in (c # d # w, l))
      else (let (w, l) = string_rest (d # r) in (c # w, l)))"

definition minify_string :: "bytes \<Rightarrow> bytes \<times> bytes" where
  "minify_string s = (let (w, l) = string_rest (tl s) in (hd s # w, l))"

lemma skip_line_shorter: "length (skip_line s) \<le> length s"
  by (induction s) auto

lemma skip_block_shorter: "length (skip_block s) \<le> length s"
  by (induction s) (auto simp: le_SucI)

lemma string_rest_shorter: "length (snd (string_rest s)) \<le> length s"
  by (induction s rule: string_rest.induct) (auto split: prod.splits simp: le_SucI)

function cJSON_Minify :: "bytes \<Rightarrow> bytes" where
  "cJSON_Minify [] = []"
| "cJSON_Minify (c # r) =
     (if c = CHR '' '' \<or> c = CHR 0x09 \<or> c = CHR 0x0D \<or> c = CHR 0x0A then cJSON_Minify r
      else if c = CHR ''/'' then
        (if r \<noteq> [] \<and> hd r = CHR ''/'' then cJSON_Minify (skip_oneline_comment (c # r))
         else if r \<noteq> [] \<and> hd r = CHR ''*'' then cJSON_Minify (skip_multiline_comment (c # r))
         else cJSON_Minify r)
      else if c = CHR 0x22 then fst (minify_string (c # r)) @ cJSON_Minify (snd (minify_string (c # r)))
      else c # cJSON_Minify r)"
  by pat_completeness auto
termination
proof (relation "measure length", goal_cases)
  case (3 c r)
  then show ?case using skip_line_shorter [of "tl r"] by (cases r) (auto simp: skip_oneline_comment_def)
next
  case (4 c r)
  then show ?case using skip_block_shorter [of "tl r"] by (cases r) (auto simp: skip_multiline_comment_def)
next
  case (6 c r)
  then show ?case using string_rest_shorter [of r] by (auto simp: minify_string_def split: prod.splits)
qed auto

section \<open>Printed text\<close>

definition ends_plain :: "bytes \<Rightarrow> bool" where
  "ends_plain s \<longleftrightarrow> s = [] \<or> last s \<noteq> CHR 0x5C"

text \<open>No string and no key ends in a backslash.\<close>

fun unslashed :: "cJSON \<Rightarrow> bool" where
  "unslashed (cJSON_String s) = ends_plain s"
| "unslashed (cJSON_Array xs) = (\<forall>x \<in> set xs. unslashed x)"
| "unslashed (cJSON_Object ms) = (\<forall>(k, v) \<in> set ms. ends_plain k \<and> unslashed v)"
| "unslashed v = True"

lemma string_rest_step:
  assumes "Y \<noteq> []" "c \<noteq> CHR 0x22" "c = CHR 0x5C \<Longrightarrow> hd Y \<noteq> CHR 0x22"
  shows "string_rest (c # Y) = (c # fst (string_rest Y), snd (string_rest Y))"
  using assms by (cases Y) (auto split: prod.split)

lemma string_rest_escape:
  assumes "Y \<noteq> []" "c = CHR 0x5C \<Longrightarrow> hd Y \<noteq> CHR 0x22"
  shows "string_rest (escape_char c @ Y) = (escape_char c @ fst (string_rest Y), snd (string_rest Y))"
proof (cases rule: escape_cases [of c])
  case plain
  then show ?thesis using string_rest_step [of Y c] assms by simp
next
  case (simple e)
  show ?thesis
  proof (cases "e = CHR 0x22")
    case True
    then show ?thesis by (simp add: simple(1) split: prod.split)
  next
    case False
    have "e = CHR 0x5C \<Longrightarrow> c = CHR 0x5C" using simple(2) by (simp add: simple_escape_def)
    then have "string_rest (e # Y) = (e # fst (string_rest Y), snd (string_rest Y))"
      using assms False by (intro string_rest_step) auto
    moreover have "string_rest (CHR 0x5C # e # Y) = (CHR 0x5C # fst (string_rest (e # Y)), snd (string_rest (e # Y)))"
      using False by (intro string_rest_step) auto
    ultimately show ?thesis by (simp only: simple(1) append_Cons append_Nil fst_conv snd_conv)
  qed
next
  case unicode
  have step: "string_rest (d # Z) = (d # fst (string_rest Z), snd (string_rest Z))"
    if "Z \<noteq> []" "d \<noteq> CHR 0x22 \<and> d \<noteq> CHR 0x5C" for d Z using string_rest_step [of Z d] that by simp
  have h: "hex_digit (of_char c div 16) \<noteq> CHR 0x22 \<and> hex_digit (of_char c div 16) \<noteq> CHR 0x5C"
    "hex_digit (of_char c mod 16) \<noteq> CHR 0x22 \<and> hex_digit (of_char c mod 16) \<noteq> CHR 0x5C"
    using unicode(2) by (auto intro!: hex_digit_plain)
  show ?thesis unfolding unicode(1) using h assms(1) string_rest_step [of "CHR ''u'' # Z" "CHR 0x5C" for Z]
    by (simp add: step)
qed

lemma escape_hd: "escape_char c \<noteq> [] \<and> hd (escape_char c) \<noteq> CHR 0x22"
  by (simp add: escape_char_def)

lemma string_rest_print:
  "ends_plain s \<Longrightarrow> string_rest (concat (map escape_char s) @ CHR 0x22 # rest) = (concat (map escape_char s) @ [CHR 0x22], rest)"
proof (induction s)
  case Nil
  show ?case by (cases rest) simp_all
next
  case (Cons c s)
  let ?Y = "concat (map escape_char s) @ CHR 0x22 # rest"
  have "hd ?Y \<noteq> CHR 0x22" if "c = CHR 0x5C"
    using Cons.prems that escape_hd by (cases s) (auto simp: ends_plain_def)
  moreover have "ends_plain s" using Cons.prems by (auto simp: ends_plain_def split: if_splits)
  ultimately show ?case using string_rest_escape [of ?Y c] Cons.IH by simp
qed

lemma minify_print_string: "ends_plain s \<Longrightarrow> cJSON_Minify (print_string_ptr s @ rest) = print_string_ptr s @ cJSON_Minify rest"
  by (simp add: print_string_ptr_def minify_string_def string_rest_print)

definition ordinary :: "char \<Rightarrow> bool" where
  "ordinary c \<longleftrightarrow> c \<notin> {CHR '' '', CHR 0x09, CHR 0x0D, CHR 0x0A, CHR ''/'', CHR 0x22}"

lemma minify_ordinary: "\<forall>c \<in> set w. ordinary c \<Longrightarrow> cJSON_Minify (w @ rest) = w @ cJSON_Minify rest"
  by (induction w) (simp_all add: ordinary_def)

lemma number_char_ordinary: "number_char c \<Longrightarrow> ordinary c"
  by (auto simp: number_char_def isdigit_def ordinary_def)

section \<open>Formatted printing\<close>

text \<open>
  \<open>print_value\<close>, \<open>print_array\<close> and \<open>print_object\<close> with the buffer's \<open>format\<close> flag and nesting \<open>depth\<close>: elements are
  separated by a comma and a blank, members stand on lines of their own, indented by tabs.
\<close>

definition tabs :: "bool \<Rightarrow> nat \<Rightarrow> bytes" where
  "tabs format n = (if format then replicate n (CHR 0x09) else [])"

definition layout :: "bool \<Rightarrow> bytes \<Rightarrow> bytes" where
  "layout format w = (if format then w else [])"

fun format_value :: "bool \<Rightarrow> nat \<Rightarrow> cJSON \<Rightarrow> bytes option"
  and format_array :: "bool \<Rightarrow> nat \<Rightarrow> cJSON list \<Rightarrow> bytes option"
  and format_object :: "bool \<Rightarrow> nat \<Rightarrow> (bytes \<times> cJSON) list \<Rightarrow> bytes option" where
  "format_value format depth cJSON_NULL = Some ''null''"
| "format_value format depth cJSON_False = Some ''false''"
| "format_value format depth cJSON_True = Some ''true''"
| "format_value format depth (cJSON_Number d) = print_number d"
| "format_value format depth (cJSON_String s) = Some (print_string_ptr s)"
| "format_value format depth (cJSON_Array xs) = map_option (\<lambda>b. ''['' @ b @ '']'') (format_array format (Suc depth) xs)"
| "format_value format depth (cJSON_Object ms) = map_option
     (\<lambda>b. CHR 0x7B # layout format [CHR 0x0A] @ b @ tabs format depth @ [CHR 0x7D]) (format_object format (Suc depth) ms)"
| "format_array format depth [] = Some []"
| "format_array format depth (x # xs) =
     (case (format_value format depth x, format_array format depth xs) of
        (Some p, Some ps) \<Rightarrow> Some (p @ (if xs = [] then [] else CHR '','' # layout format '' '' @ ps))
      | _ \<Rightarrow> None)"
| "format_object format depth [] = Some []"
| "format_object format depth ((k, v) # ms) =
     (case (format_value format depth v, format_object format depth ms) of
        (Some p, Some ps) \<Rightarrow> Some (tabs format depth @ print_string_ptr k @ CHR '':'' # layout format [CHR 0x09] @ p @
          (if ms = [] then [] else '','') @ layout format [CHR 0x0A] @ ps)
      | _ \<Rightarrow> None)"

definition cJSON_Print :: "cJSON \<Rightarrow> bytes option" where
  "cJSON_Print item = format_value True 0 item"

lemma format_off:
  "format_value False d v = print_value v" "format_array False d xs = print_array xs"
  "format_object False d ms = print_object ms"
  by (induction v and xs and ms arbitrary: d and d and d rule: print_value_print_array_print_object.induct)
    (auto simp: layout_def tabs_def split: option.splits)

lemma format_no_nul:
  "format_value b d v = Some t \<Longrightarrow> no_nul t" "format_array b d xs = Some t \<Longrightarrow> no_nul t" "format_object b d ms = Some t \<Longrightarrow> no_nul t"
proof (induction v and xs and ms arbitrary: d t and d t and d t rule: print_value_print_array_print_object.induct)
  case (4 x)
  then show ?case using number_buffer_no_nul by (simp add: print_number_def)
next
  case (5 s)
  then show ?case using print_string_no_nul by auto
next
  case (11 k v ms)
  then show ?case using print_string_no_nul [of k]
    by (fastforce simp: no_nul_def tabs_def layout_def split: option.splits if_splits)
qed (fastforce simp: no_nul_def tabs_def layout_def split: option.splits if_splits)+

lemma minify_tabs: "cJSON_Minify (tabs format n @ rest) = cJSON_Minify rest"
  by (cases format) (induction n, simp_all add: tabs_def)

lemma minify_layout: "cJSON_Minify (layout format '' '' @ rest) = cJSON_Minify rest"
  "cJSON_Minify (layout format [CHR 0x09] @ rest) = cJSON_Minify rest" "cJSON_Minify (layout format [CHR 0x0A] @ rest) = cJSON_Minify rest"
  by (simp_all add: layout_def)

lemma minify_format:
  "format_value b d v = Some f \<Longrightarrow> unslashed v \<Longrightarrow> \<exists>s. print_value v = Some s \<and> (\<forall>rest. cJSON_Minify (f @ rest) = s @ cJSON_Minify rest)"
  "format_array b d xs = Some f \<Longrightarrow> \<forall>x \<in> set xs. unslashed x \<Longrightarrow>
    \<exists>s. print_array xs = Some s \<and> (\<forall>rest. cJSON_Minify (f @ rest) = s @ cJSON_Minify rest)"
  "format_object b d ms = Some f \<Longrightarrow> \<forall>(k, v) \<in> set ms. ends_plain k \<and> unslashed v \<Longrightarrow>
    \<exists>s. print_object ms = Some s \<and> (\<forall>rest. cJSON_Minify (f @ rest) = s @ cJSON_Minify rest)"
proof (induction v and xs and ms arbitrary: d f and d f and d f rule: print_value_print_array_print_object.induct)
  case (4 r)
  then show ?case using minify_ordinary [of f] number_text_chars number_char_ordinary
    by (auto simp: print_number_def number_buffer_def Let_def split: if_splits)
next
  case (5 str)
  then show ?case by (auto simp: minify_print_string)
next
  case (6 xs)
  then obtain g where g: "format_array b (Suc d) xs = Some g" "f = ''['' @ g @ '']''" by auto
  with 6 obtain s where "print_array xs = Some s" "\<forall>rest. cJSON_Minify (g @ rest) = s @ cJSON_Minify rest" by fastforce
  then show ?case using g by simp
next
  case (7 ms)
  then obtain g where g: "format_object b (Suc d) ms = Some g"
    "f = CHR 0x7B # layout b [CHR 0x0A] @ g @ tabs b d @ [CHR 0x7D]" by auto
  with 7 obtain s where "print_object ms = Some s" "\<forall>rest. cJSON_Minify (g @ rest) = s @ cJSON_Minify rest" by fastforce
  then show ?case using g by (simp add: minify_layout minify_tabs)
next
  case (9 x xs)
  then obtain p ps where p: "format_value b d x = Some p" "format_array b d xs = Some ps"
    "f = p @ (if xs = [] then [] else CHR '','' # layout b '' '' @ ps)"
    by (auto split: option.splits)
  obtain s where s: "print_value x = Some s" "\<forall>rest. cJSON_Minify (p @ rest) = s @ cJSON_Minify rest"
    using 9(1) [OF p(1)] 9(4) by auto
  obtain ss where ss: "print_array xs = Some ss" "\<forall>rest. cJSON_Minify (ps @ rest) = ss @ cJSON_Minify rest"
    using 9(2) [OF p(2)] 9(4) by auto
  show ?case using p(3) s ss by (simp add: minify_layout)
next
  case (11 k v ms)
  then obtain p ps where p: "format_value b d v = Some p" "format_object b d ms = Some ps"
    "f = tabs b d @ print_string_ptr k @ CHR '':'' # layout b [CHR 0x09] @ p @ (if ms = [] then [] else '','') @ layout b [CHR 0x0A] @ ps"
    by (auto split: option.splits)
  obtain s where s: "print_value v = Some s" "\<forall>rest. cJSON_Minify (p @ rest) = s @ cJSON_Minify rest"
    using 11(1) [OF p(1)] 11(4) by auto
  obtain ss where ss: "print_object ms = Some ss" "\<forall>rest. cJSON_Minify (ps @ rest) = ss @ cJSON_Minify rest"
    using 11(2) [OF p(2)] 11(4) by auto
  have "ends_plain k" "ms = [] \<Longrightarrow> ss = []" using 11(4) ss(1) by auto
  then show ?case using p(2,3) s ss by (simp add: minify_layout minify_tabs minify_print_string)
qed auto

text \<open>C30: \<open>cJSON_Minify\<close> turns the formatted text of a tree into its unformatted one, which still parses to
  that tree, when no string or key ends in a backslash. When one does, it takes the closing quote for an
  escaped one and removes white space from the next string: the text parses to another tree.
\<close>
theorem minify_printed:
  "(\<forall>v f. cJSON_Print v = Some f \<longrightarrow> unslashed v \<longrightarrow> cJSON_PrintUnformatted v = Some (cJSON_Minify f)) \<and>
   (\<exists>v s w. cJSON_PrintUnformatted v = Some s \<and> cJSON_Parse s = Some v \<and> cJSON_Parse (cJSON_Minify s) = Some w \<and> w \<noteq> v)"
proof
  show "\<forall>v f. cJSON_Print v = Some f \<longrightarrow> unslashed v \<longrightarrow> cJSON_PrintUnformatted v = Some (cJSON_Minify f)"
  proof (intro allI impI)
    fix v f
    assume "cJSON_Print v = Some f" "unslashed v"
    then obtain s where "print_value v = Some s" "\<forall>rest. cJSON_Minify (f @ rest) = s @ cJSON_Minify rest"
      using minify_format(1) unfolding cJSON_Print_def by blast
    from this(1) spec [OF this(2), of "[]"] show "cJSON_PrintUnformatted v = Some (cJSON_Minify f)"
      by (simp add: cJSON_PrintUnformatted_def)
  qed
  let ?v = "cJSON_Array [cJSON_String [CHR 0x5C], cJSON_String ''a b'']"
  let ?s = "[CHR ''['', CHR 0x22, CHR 0x5C, CHR 0x5C, CHR 0x22, CHR '','', CHR 0x22, CHR ''a'', CHR '' '', CHR ''b'', CHR 0x22, CHR '']'']"
  have "cJSON_PrintUnformatted ?v = Some ?s" by code_simp
  moreover have "cJSON_Parse ?s = Some ?v" by code_simp
  moreover have "cJSON_Parse (cJSON_Minify ?s) = Some (cJSON_Array [cJSON_String [CHR 0x5C], cJSON_String ''ab''])" by code_simp
  ultimately show "\<exists>v s w. cJSON_PrintUnformatted v = Some s \<and> cJSON_Parse s = Some v \<and> cJSON_Parse (cJSON_Minify s) = Some w \<and> w \<noteq> v"
    by (intro exI conjI) auto
qed

theorem minify_printed_witness:
  "cJSON_PrintUnformatted (cJSON_Object [(''a key'', cJSON_String ''a value'')]) =
    Some (cJSON_Minify (the (cJSON_Print (cJSON_Object [(''a key'', cJSON_String ''a value'')]))))"
proof -
  let ?v = "cJSON_Object [(''a key'', cJSON_String ''a value'')]"
  have "cJSON_Print ?v = Some (the (cJSON_Print ?v))" by code_simp
  moreover have "unslashed ?v" by (simp add: ends_plain_def)
  ultimately show ?thesis using minify_printed by blast
qed

end
