(* ===== verification/CJsonPrint.thy ===== *)
theory CJsonPrint
  imports CJsonTrees CJsonMinify "HOL-Library.Monad_Syntax"
begin

text \<open>
  Printing as \<open>Utility/cJSON.c\<close> does it: the nodes of an item are written into a block of memory that is
  reallocated when it is full (\<open>cJSON_Print\<close>, \<open>cJSON_PrintBuffered\<close>) or is the caller's
  (\<open>cJSON_PrintPreallocated\<close>). A write outside of a block, the use of a block that was freed, a string
  without end and a recursion without end are undefined (\<open>None\<close>). The allocator is that of the hooks: it may
  refuse any request.
\<close>

unbundle bit_operations_syntax

abbreviation (input) NUL :: char where "NUL \<equiv> CHR 0x00"

section \<open>The hooks\<close>

text \<open>\<open>cJSON_InitHooks\<close>: the library's \<open>realloc\<close> is used only with the library's \<open>malloc\<close> and \<open>free\<close>.\<close>

datatype malloc_function = libc_malloc | user_malloc
datatype free_function = libc_free | user_free

record global_hooks =
  gh_allocate :: malloc_function
  gh_deallocate :: free_function
  gh_reallocate :: bool

definition cJSON_InitHooks :: "(malloc_function option \<times> free_function option) option \<Rightarrow> global_hooks" where
  "cJSON_InitHooks hooks = (case hooks of
     None \<Rightarrow> \<lparr>gh_allocate = libc_malloc, gh_deallocate = libc_free, gh_reallocate = True\<rparr>
   | Some (m, f) \<Rightarrow>
       let al = (case m of None \<Rightarrow> libc_malloc | Some g \<Rightarrow> g); de = (case f of None \<Rightarrow> libc_free | Some g \<Rightarrow> g)
       in \<lparr>gh_allocate = al, gh_deallocate = de, gh_reallocate = (al = libc_malloc \<and> de = libc_free)\<rparr>)"

lemma InitHooks_realloc:
  "gh_reallocate (cJSON_InitHooks hooks) \<longleftrightarrow> gh_allocate (cJSON_InitHooks hooks) = libc_malloc \<and> gh_deallocate (cJSON_InitHooks hooks) = libc_free"
  by (auto simp: cJSON_InitHooks_def Let_def split: option.splits)

section \<open>The allocator\<close>

record allocator =
  blocks :: "nat \<rightharpoonup> bytes"
  requests :: nat

text \<open>Which request, counted from 0, is granted for how many bytes; what a new block holds; whether the hooks
  have a \<open>realloc\<close>. The address of a block is the number of its request.\<close>

record hooks =
  grants :: "nat \<Rightarrow> nat \<Rightarrow> bool"
  stale :: "nat \<Rightarrow> nat \<Rightarrow> char"
  has_reallocate :: bool

definition allocate :: "hooks \<Rightarrow> nat \<Rightarrow> 'a allocator_scheme \<Rightarrow> ptr \<times> 'a allocator_scheme" where
  "allocate h n s = (let k = requests s; s1 = s\<lparr>requests := Suc k\<rparr>
     in if grants h k n then (Some k, s1\<lparr>blocks := (blocks s)(k \<mapsto> map (stale h k) [0..<n])\<rparr>) else (None, s1))"

definition deallocate :: "ptr \<Rightarrow> 'a allocator_scheme \<Rightarrow> 'a allocator_scheme option" where
  "deallocate p s = (case p of None \<Rightarrow> Some s
     | Some b \<Rightarrow> if blocks s b = None then None else Some (s\<lparr>blocks := (blocks s)(b := None)\<rparr>))"

definition poke :: "ptr \<Rightarrow> nat \<Rightarrow> bytes \<Rightarrow> 'a allocator_scheme \<Rightarrow> 'a allocator_scheme option" where
  "poke p i bs s = do {
     b \<leftarrow> p;
     old \<leftarrow> blocks s b;
     if i + length bs \<le> length old then Some (s\<lparr>blocks := (blocks s)(b \<mapsto> take i old @ bs @ drop (i + length bs) old)\<rparr>) else None
   }"

definition peek :: "ptr \<Rightarrow> nat \<Rightarrow> 'a allocator_scheme \<Rightarrow> bytes option" where
  "peek p n s = do { b \<leftarrow> p; old \<leftarrow> blocks s b; if n \<le> length old then Some (take n old) else None }"

definition strlen_at :: "ptr \<Rightarrow> nat \<Rightarrow> 'a allocator_scheme \<Rightarrow> nat option" where
  "strlen_at p i s = do { b \<leftarrow> p; old \<leftarrow> blocks s b; if i \<le> length old then map_option length (str_at (drop i old)) else None }"

text \<open>\<open>realloc\<close> keeps what fits of the old block, which is gone when it succeeds.\<close>

definition realloc :: "hooks \<Rightarrow> ptr \<Rightarrow> nat \<Rightarrow> 'a allocator_scheme \<Rightarrow> (ptr \<times> 'a allocator_scheme) option" where
  "realloc h p n s = do {
     b \<leftarrow> p;
     old \<leftarrow> blocks s b;
     let (q, s1) = allocate h n s;
     if q = None then Some (None, s1)
     else do {
       s2 \<leftarrow> poke q 0 (take n old) s1;
       s3 \<leftarrow> deallocate p s2;
       Some (q, s3)
     }
   }"

section \<open>The print buffer\<close>

record printbuffer = allocator +
  pb_buffer :: ptr
  pb_length :: nat
  pb_offset :: nat
  pb_depth :: nat
  pb_noalloc :: bool
  pb_format :: bool

abbreviation advance :: "nat \<Rightarrow> printbuffer \<Rightarrow> printbuffer" where
  "advance n p \<equiv> p\<lparr>pb_offset := pb_offset p + n\<rparr>"

text \<open>\<open>ensure\<close>: the offset to write at, or \<open>None\<close> when there is no room and none can be had.\<close>

definition grow :: "hooks \<Rightarrow> nat \<Rightarrow> printbuffer \<Rightarrow> (nat option \<times> printbuffer) option" where
  "grow h newsize p = do {
     (newbuffer, p1) \<leftarrow> (if has_reallocate h then realloc h (pb_buffer p) newsize p
       else Some (allocate h newsize p));
     if newbuffer = None then do {
       p2 \<leftarrow> deallocate (pb_buffer p) p1;
       Some (None, p2\<lparr>pb_length := 0, pb_buffer := None\<rparr>)
     } else do {
       p3 \<leftarrow> (if has_reallocate h then Some p1
         else do {
           old \<leftarrow> peek (pb_buffer p) (pb_offset p + 1) p1;
           p2 \<leftarrow> poke newbuffer 0 old p1;
           deallocate (pb_buffer p) p2
         });
       Some (Some (pb_offset p), p3\<lparr>pb_length := newsize, pb_buffer := newbuffer\<rparr>)
     }
   }"

definition ensure :: "hooks \<Rightarrow> nat \<Rightarrow> printbuffer \<Rightarrow> (nat option \<times> printbuffer) option" where
  "ensure h needed p =
     (if pb_buffer p = None then Some (None, p)
      else if 0 < pb_length p \<and> pb_length p \<le> pb_offset p then Some (None, p)
      else if nat INT_MAX < needed then Some (None, p)
      else let needed = needed + (pb_offset p + 1) in
        if needed \<le> pb_length p then Some (Some (pb_offset p), p)
        else if pb_noalloc p then Some (None, p)
        else if nat INT_MAX div 2 < needed then
          (if needed \<le> nat INT_MAX then grow h (nat INT_MAX) p else Some (None, p))
        else grow h (needed * 2) p)"

definition update_offset :: "printbuffer \<Rightarrow> printbuffer option" where
  "update_offset p = (if pb_buffer p = None then Some p
     else do { n \<leftarrow> strlen_at (pb_buffer p) (pb_offset p) p; Some (advance n p) })"

text \<open>Most of the printer is to ask for room and write one piece of text.\<close>

definition put :: "hooks \<Rightarrow> nat \<Rightarrow> bytes \<Rightarrow> printbuffer \<Rightarrow> (bool \<times> printbuffer) option" where
  "put h needed bs p = do {
     (output, p1) \<leftarrow> ensure h needed p;
     case output of None \<Rightarrow> Some (False, p1)
     | Some i \<Rightarrow> do { p2 \<leftarrow> poke (pb_buffer p1) i bs p1; Some (True, p2) }
   }"

text \<open>What happens to the buffer when the piece is written.\<close>

definition put_step :: "hooks \<Rightarrow> nat \<Rightarrow> bytes \<Rightarrow> (printbuffer \<Rightarrow> printbuffer) \<Rightarrow> printbuffer \<Rightarrow> (bool \<times> printbuffer) option" where
  "put_step h needed bs g p = do { (ok, p1) \<leftarrow> put h needed bs p; Some (ok, if ok then g p1 else p1) }"

section \<open>Leaves\<close>

definition print_number_b :: "hooks \<Rightarrow> int \<Rightarrow> rat \<Rightarrow> printbuffer \<Rightarrow> (bool \<times> printbuffer) option" where
  "print_number_b h i d p = (case number_buffer i d of None \<Rightarrow> Some (False, p)
     | Some s \<Rightarrow> put_step h (length s + 1) (s @ [NUL]) (advance (length s)) p)"

definition escape_characters :: "bytes \<Rightarrow> nat" where
  "escape_characters s = (\<Sum>c \<leftarrow> s.
     if c \<in> {CHR 0x22, CHR 0x5C, CHR 0x08, CHR 0x0C, CHR 0x0A, CHR 0x0D, CHR 0x09} then 1
     else if (of_char c :: nat) < 32 then 5 else 0)"

definition print_string_ptr_b :: "hooks \<Rightarrow> bytes option \<Rightarrow> printbuffer \<Rightarrow> (bool \<times> printbuffer) option" where
  "print_string_ptr_b h input p = (case input of None \<Rightarrow> put h 3 [CHR 0x22, CHR 0x22, NUL] p
     | Some s \<Rightarrow> do {
         let output_length = length s + escape_characters s;
         (output, p1) \<leftarrow> ensure h (output_length + 3) p;
         case output of None \<Rightarrow> Some (False, p1)
         | Some i \<Rightarrow> do {
             p2 \<leftarrow> poke (pb_buffer p1) i (CHR 0x22 # (if escape_characters s = 0 then s else concat (map escape_char s))) p1;
             p3 \<leftarrow> poke (pb_buffer p1) (i + output_length + 1) [CHR 0x22, NUL] p2;
             Some (True, p3)
           }
       })"

definition print_raw_b :: "hooks \<Rightarrow> bytes option \<Rightarrow> printbuffer \<Rightarrow> (bool \<times> printbuffer) option" where
  "print_raw_b h input p = (case input of None \<Rightarrow> Some (False, p) | Some s \<Rightarrow> put h (length s + 1) (s @ [NUL]) p)"

text \<open>The string at a pointer, if it is not NULL.\<close>

definition string_at :: "memory \<Rightarrow> ptr \<Rightarrow> bytes option option" where
  "string_at m p = (case p of None \<Rightarrow> Some None | Some t \<Rightarrow> map_option Some (texts m t))"

definition print_leaf :: "hooks \<Rightarrow> memory \<Rightarrow> node \<Rightarrow> printbuffer \<Rightarrow> (bool \<times> printbuffer) option" where
  "print_leaf h m n p = (let ty = nd_type n AND 255 in
     if ty = cJSON_NULL_t then put h 5 (''null'' @ [NUL]) p
     else if ty = cJSON_False_t then put h 6 (''false'' @ [NUL]) p
     else if ty = cJSON_True_t then put h 5 (''true'' @ [NUL]) p
     else if ty = cJSON_Number_t then print_number_b h (nd_valueint n) (nd_valuedouble n) p
     else if ty = cJSON_Raw_t then do { s \<leftarrow> string_at m (nd_valuestring n); print_raw_b h s p }
     else if ty = cJSON_String_t then do { s \<leftarrow> string_at m (nd_valuestring n); print_string_ptr_b h s p }
     else Some (False, p))"

section \<open>Arrays and objects\<close>

definition deeper :: "printbuffer \<Rightarrow> printbuffer" where "deeper p = p\<lparr>pb_depth := pb_depth p + 1\<rparr>"
definition shallower :: "printbuffer \<Rightarrow> printbuffer" where "shallower p = p\<lparr>pb_depth := pb_depth p - 1\<rparr>"

definition open_array :: "hooks \<Rightarrow> printbuffer \<Rightarrow> (bool \<times> printbuffer) option" where
  "open_array h = put_step h 1 ''['' (\<lambda>p. deeper (advance 1 p))"

definition close_array :: "hooks \<Rightarrow> printbuffer \<Rightarrow> (bool \<times> printbuffer) option" where
  "close_array h = put_step h 2 ('']'' @ [NUL]) shallower"

definition separate_elements :: "hooks \<Rightarrow> printbuffer \<Rightarrow> (bool \<times> printbuffer) option" where
  "separate_elements h p = (let n = (if pb_format p then 2 else 1)
     in put_step h (n + 1) ('','' @ layout (pb_format p) '' '' @ [NUL]) (advance n) p)"

definition open_object :: "hooks \<Rightarrow> printbuffer \<Rightarrow> (bool \<times> printbuffer) option" where
  "open_object h p = (let n = (if pb_format p then 2 else 1)
     in put_step h (n + 1) (CHR 0x7B # layout (pb_format p) [CHR 0x0A]) (\<lambda>p. deeper (advance n p)) p)"

definition indent_member :: "hooks \<Rightarrow> printbuffer \<Rightarrow> (bool \<times> printbuffer) option" where
  "indent_member h p = (if pb_format p then put_step h (pb_depth p) (tabs True (pb_depth p)) (advance (pb_depth p)) p
     else Some (True, p))"

definition separate_key :: "hooks \<Rightarrow> printbuffer \<Rightarrow> (bool \<times> printbuffer) option" where
  "separate_key h p = (let n = (if pb_format p then 2 else 1)
     in put_step h n (CHR '':'' # layout (pb_format p) [CHR 0x09]) (advance n) p)"

definition end_member :: "hooks \<Rightarrow> bool \<Rightarrow> printbuffer \<Rightarrow> (bool \<times> printbuffer) option" where
  "end_member h has_next p = (let n = (if pb_format p then 1 else 0) + (if has_next then 1 else 0)
     in put_step h (n + 1) ((if has_next then '','' else []) @ layout (pb_format p) [CHR 0x0A] @ [NUL]) (advance n) p)"

definition close_object :: "hooks \<Rightarrow> printbuffer \<Rightarrow> (bool \<times> printbuffer) option" where
  "close_object h p = put_step h (if pb_format p then pb_depth p + 1 else 2)
     (tabs (pb_format p) (pb_depth p - 1) @ [CHR 0x7D, NUL]) shallower p"

text \<open>What follows a step is done only when the step succeeded.\<close>

definition andthen :: "(bool \<times> printbuffer) option \<Rightarrow> (printbuffer \<Rightarrow> (bool \<times> printbuffer) option) \<Rightarrow> (bool \<times> printbuffer) option" where
  "andthen r next = Option.bind r (\<lambda>(ok, p). if ok then next p else Some (False, p))"

lemma andthen_mono [partial_function_mono]:
  assumes "mono_option r" "\<And>p. mono_option (\<lambda>f. next f p)"
  shows "mono_option (\<lambda>f. andthen (r f) (next f))"
proof -
  have "mono_option (\<lambda>f. if ok then next f p else Some (False, p))" for ok p
    using assms(2) by (cases ok) (simp_all add: option.const_mono)
  then show ?thesis unfolding andthen_def using assms(1) by (intro partial_function_mono) (auto split: prod.splits)
qed

datatype printing = Value ptr | Elements ptr | Members ptr

partial_function (option) print_run :: "hooks \<Rightarrow> memory \<Rightarrow> printing \<Rightarrow> printbuffer \<Rightarrow> (bool \<times> printbuffer) option" where
  "print_run h m task p = (case task of
     Value item \<Rightarrow> if item = None then Some (False, p) else do {
       n \<leftarrow> load item m;
       if nd_type n AND 255 = cJSON_Array_t then
         andthen (open_array h p) (\<lambda>p1. andthen (print_run h m (Elements (nd_child n)) p1) (close_array h))
       else if nd_type n AND 255 = cJSON_Object_t then
         andthen (open_object h p) (\<lambda>p1. andthen (print_run h m (Members (nd_child n)) p1) (close_object h))
       else print_leaf h m n p
     }
   | Elements current_element \<Rightarrow> if current_element = None then Some (True, p) else
       andthen (print_run h m (Value current_element) p) (\<lambda>p1. do {
         p2 \<leftarrow> update_offset p1;
         n \<leftarrow> load current_element m;
         andthen (if nd_next n \<noteq> None then separate_elements h p2 else Some (True, p2)) (print_run h m (Elements (nd_next n)))
       })
   | Members current_item \<Rightarrow> if current_item = None then Some (True, p) else do {
       n \<leftarrow> load current_item m;
       key \<leftarrow> string_at m (nd_string n);
       andthen (andthen (indent_member h p) (print_string_ptr_b h key)) (\<lambda>p1. do {
         p2 \<leftarrow> update_offset p1;
         andthen (andthen (separate_key h p2) (print_run h m (Value current_item))) (\<lambda>p3. do {
           p4 \<leftarrow> update_offset p3;
           andthen (end_member h (nd_next n \<noteq> None) p4) (print_run h m (Members (nd_next n)))
         })
       })
     })"

definition print_value_b :: "hooks \<Rightarrow> memory \<Rightarrow> ptr \<Rightarrow> printbuffer \<Rightarrow> (bool \<times> printbuffer) option" where
  "print_value_b h m item = print_run h m (Value item)"

section \<open>The four entry points\<close>

definition new_buffer :: "'a allocator_scheme \<Rightarrow> ptr \<Rightarrow> nat \<Rightarrow> bool \<Rightarrow> bool \<Rightarrow> printbuffer" where
  "new_buffer s b n noalloc format = \<lparr>blocks = blocks s, requests = requests s, pb_buffer = b, pb_length = n, pb_offset = 0,
     pb_depth = 0, pb_noalloc = noalloc, pb_format = format\<rparr>"

text \<open>The end of \<open>print\<close>: the text moves to a block of its own size.\<close>

definition shrink :: "hooks \<Rightarrow> printbuffer \<Rightarrow> (ptr \<times> printbuffer) option" where
  "shrink h p = do {
     (printed, p1) \<leftarrow> (if has_reallocate h then realloc h (pb_buffer p) (pb_offset p + 1) p
       else Some (allocate h (pb_offset p + 1) p));
     if printed = None then do { p2 \<leftarrow> deallocate (pb_buffer p1) p1; Some (None, p2) }
     else if has_reallocate h then Some (printed, p1)
     else do {
       old \<leftarrow> peek (pb_buffer p1) (min (pb_length p1) (pb_offset p1 + 1)) p1;
       p2 \<leftarrow> poke printed 0 old p1;
       p3 \<leftarrow> poke printed (pb_offset p2) [NUL] p2;
       p4 \<leftarrow> deallocate (pb_buffer p3) p3;
       Some (printed, p4)
     }
   }"

definition print_b :: "hooks \<Rightarrow> memory \<Rightarrow> ptr \<Rightarrow> bool \<Rightarrow> allocator \<Rightarrow> (ptr \<times> allocator) option" where
  "print_b h m item format s = (let (b, s1) = allocate h 256 s in
     if b = None then Some (None, s1)
     else do {
       (ok, p1) \<leftarrow> print_value_b h m item (new_buffer s1 b 256 False format);
       if \<not> ok then do { p2 \<leftarrow> deallocate (pb_buffer p1) p1; Some (None, allocator.truncate p2) }
       else do {
         p2 \<leftarrow> update_offset p1;
         (printed, p3) \<leftarrow> shrink h p2;
         Some (printed, allocator.truncate p3)
       }
     })"

definition cJSON_Print_b :: "hooks \<Rightarrow> memory \<Rightarrow> ptr \<Rightarrow> allocator \<Rightarrow> (ptr \<times> allocator) option" where
  "cJSON_Print_b h m item = print_b h m item True"

definition cJSON_PrintUnformatted_b :: "hooks \<Rightarrow> memory \<Rightarrow> ptr \<Rightarrow> allocator \<Rightarrow> (ptr \<times> allocator) option" where
  "cJSON_PrintUnformatted_b h m item = print_b h m item False"

definition cJSON_PrintBuffered :: "hooks \<Rightarrow> memory \<Rightarrow> ptr \<Rightarrow> int \<Rightarrow> bool \<Rightarrow> allocator \<Rightarrow> (ptr \<times> allocator) option" where
  "cJSON_PrintBuffered h m item prebuffer fmt s = (if prebuffer < 0 then Some (None, s)
     else let (b, s1) = allocate h (nat prebuffer) s in
     if b = None then Some (None, s1)
     else do {
       (ok, p1) \<leftarrow> print_value_b h m item (new_buffer s1 b (nat prebuffer) False fmt);
       if \<not> ok then do { p2 \<leftarrow> deallocate (pb_buffer p1) p1; Some (None, allocator.truncate p2) }
       else Some (pb_buffer p1, allocator.truncate p1)
     })"

definition cJSON_PrintPreallocated :: "hooks \<Rightarrow> memory \<Rightarrow> ptr \<Rightarrow> ptr \<Rightarrow> int \<Rightarrow> bool \<Rightarrow> allocator \<Rightarrow> (bool \<times> allocator) option" where
  "cJSON_PrintPreallocated h m item buffer n format s = (if n < 0 \<or> buffer = None then Some (False, s)
     else do {
       (ok, p1) \<leftarrow> print_value_b h m item (new_buffer s buffer (nat n) True format);
       Some (ok, allocator.truncate p1)
     })"

end
