(* ===== verification/CJsonBuffer.thy ===== *)
theory CJsonBuffer
  imports CJsonPrint
begin

text \<open>
  The printer of \<open>CJsonPrint\<close> writes the text of \<open>CJsonMinify\<close>'s \<open>format_value\<close>, stays inside its block and gives
  every block back, whatever the allocator grants.
\<close>

unbundle bit_operations_syntax

section \<open>The buffer while it is written\<close>

text \<open>
  What stays the same: the hooks, the other blocks, the caller's block and what lies behind the part of it that may be
  used, the size the text may grow to, and the two flags.
\<close>

record frame =
  fr_hooks :: hooks
  fr_others :: "nat \<rightharpoonup> bytes"
  fr_home :: nat
  fr_tail :: bytes
  fr_limit :: nat
  fr_noalloc :: bool
  fr_format :: bool

text \<open>The buffer's block is \<open>blk\<close>.\<close>

definition owns :: "frame \<Rightarrow> printbuffer \<Rightarrow> bytes \<Rightarrow> bool" where
  "owns F p blk \<longleftrightarrow> (\<exists>b. pb_buffer p = Some b \<and> fr_others F b = None \<and> blocks p = (fr_others F)(b \<mapsto> blk) \<and>
     (if fr_noalloc F then b = fr_home F \<and> pb_length p = fr_limit F
      else fr_tail F = [] \<and> fr_limit F = nat INT_MAX \<and> pb_length p \<le> fr_limit F \<and> b < requests p \<and>
        (\<forall>x \<ge> requests p. fr_others F x = None))) \<and>
     length blk = pb_length p + length (fr_tail F) \<and> drop (pb_length p) blk = fr_tail F"

lemma owns_update [simp]:
  "owns F (p\<lparr>pb_offset := n\<rparr>) blk = owns F p blk" "owns F (p\<lparr>pb_depth := n\<rparr>) blk = owns F p blk"
  by (simp_all add: owns_def)

text \<open>The flags, the depth and the offset.\<close>

definition set_up :: "frame \<Rightarrow> nat \<Rightarrow> nat \<Rightarrow> printbuffer \<Rightarrow> bool" where
  "set_up F d n p \<longleftrightarrow> pb_offset p = n \<and> pb_depth p = d \<and> pb_format p = fr_format F \<and> pb_noalloc p = fr_noalloc F \<and>
     fr_limit F \<le> nat INT_MAX \<and> (has_reallocate (fr_hooks F) \<or> 0 < pb_length p \<or> fr_noalloc F)"

text \<open>The buffer starts with \<open>w\<close>, the offset is \<open>n\<close>.\<close>

definition printed :: "frame \<Rightarrow> nat \<Rightarrow> printbuffer \<Rightarrow> bytes \<Rightarrow> nat \<Rightarrow> bool" where
  "printed F d p w n \<longleftrightarrow> (\<exists>blk. owns F p blk \<and> take (length w) blk = w) \<and> set_up F d n p \<and> n \<le> length w \<and>
     (length w < pb_length p \<or> w = [] \<and> pb_length p = 0)"

abbreviation at_end :: "frame \<Rightarrow> nat \<Rightarrow> bytes \<Rightarrow> printbuffer \<Rightarrow> bool" where
  "at_end F d w p \<equiv> printed F d p w (length w)"

text \<open>A value is written, but the offset is not behind it yet.\<close>

definition wrote :: "frame \<Rightarrow> nat \<Rightarrow> bytes \<Rightarrow> bytes \<Rightarrow> printbuffer \<Rightarrow> bool" where
  "wrote F d w t p \<longleftrightarrow> (\<exists>n. length w \<le> n \<and> n \<le> length (w @ t) \<and> printed F d p (w @ t @ [NUL]) n)"

text \<open>After a failure the buffer is freed or still there.\<close>

definition failed :: "frame \<Rightarrow> printbuffer \<Rightarrow> bool" where
  "failed F p \<longleftrightarrow> (if fr_noalloc F
     then \<exists>blk. pb_buffer p = Some (fr_home F) \<and> blocks p = (fr_others F)(fr_home F \<mapsto> blk) \<and>
       length blk = fr_limit F + length (fr_tail F) \<and> drop (fr_limit F) blk = fr_tail F
     else pb_buffer p = None \<and> blocks p = fr_others F \<or>
       (\<exists>b blk. pb_buffer p = Some b \<and> fr_others F b = None \<and> blocks p = (fr_others F)(b \<mapsto> blk)))"

definition granting :: "frame \<Rightarrow> bool" where
  "granting F \<longleftrightarrow> fr_noalloc F \<or> (\<forall>k n. grants (fr_hooks F) k n)"

text \<open>A step succeeds only if it has the room \<open>lo\<close>, and fails with a generous allocator only if it has less than \<open>hi\<close>.\<close>

definition outcome :: "frame \<Rightarrow> (bool \<times> printbuffer) option \<Rightarrow> (printbuffer \<Rightarrow> bool) \<Rightarrow> nat \<Rightarrow> nat \<Rightarrow> bool" where
  "outcome F r Q lo hi \<longleftrightarrow> (\<exists>ok p. r = Some (ok, p) \<and> (if ok then Q p \<and> lo \<le> fr_limit F
     else failed F p \<and> (granting F \<longrightarrow> fr_limit F < hi)))"

lemma outcome_simps [simp]:
  "outcome F (Some (True, p)) Q lo hi \<longleftrightarrow> Q p \<and> lo \<le> fr_limit F"
  "outcome F (Some (False, p)) Q lo hi \<longleftrightarrow> failed F p \<and> (granting F \<longrightarrow> fr_limit F < hi)"
  by (auto simp: outcome_def)

lemma outcomeE:
  assumes "outcome F r Q lo hi"
  obtains (ok) p where "r = Some (True, p)" "Q p" "lo \<le> fr_limit F"
  | (fail) p where "r = Some (False, p)" "failed F p" "granting F \<Longrightarrow> fr_limit F < hi"
proof -
  obtain ok p where "r = Some (ok, p)" "if ok then Q p \<and> lo \<le> fr_limit F else failed F p \<and> (granting F \<longrightarrow> fr_limit F < hi)"
    using assms unfolding outcome_def by blast
  then show ?thesis using that by (cases ok) simp_all
qed

lemma outcome_mono:
  assumes "outcome F r Q lo hi" "\<And>p. Q p \<Longrightarrow> R p" "lo' \<le> lo" "hi \<le> hi'"
  shows "outcome F r R lo' hi'"
  using assms(1)
proof (cases rule: outcomeE)
  case (ok p)
  then show ?thesis using assms(2,3) by simp
next
  case (fail p)
  then show ?thesis using assms(4) by fastforce
qed

lemma outcome_andthen:
  assumes "outcome F r Q lo hi" "\<And>p. Q p \<Longrightarrow> outcome F (k p) R lo' hi'" "hi \<le> hi'"
  shows "outcome F (andthen r k) R lo' hi'"
  using assms(1)
proof (cases rule: outcomeE)
  case (ok p)
  then show ?thesis using assms(2) by (simp add: andthen_def)
next
  case (fail p)
  then show ?thesis using assms(3) by (fastforce simp: andthen_def)
qed

lemma outcome_set:
  assumes "outcome F r Q lo hi" "\<And>p. Q p \<Longrightarrow> R (g p)"
  shows "outcome F (Option.bind r (\<lambda>(ok, p). Some (ok, if ok then g p else p))) R lo hi"
  using assms(1) by (cases rule: outcomeE) (use assms(2) in simp_all)

lemma printed_failed: "printed F d p w n \<Longrightarrow> failed F p"
  unfolding printed_def owns_def set_up_def failed_def by (cases "fr_noalloc F") auto

lemma printed_shorten:
  assumes "printed F d p (w @ u) n" "n \<le> length w"
  shows "printed F d p w n"
proof -
  obtain blk where b: "owns F p blk" "take (length (w @ u)) blk = w @ u" using assms(1) unfolding printed_def by blast
  have "take (length w) blk = w" using arg_cong [OF b(2), of "take (length w)"] by simp
  then show ?thesis using assms b(1) unfolding printed_def by (metis append_is_Nil_conv le_add1 le_less_trans length_append)
qed

lemma printed_advance: "printed F d p (w @ u) (length w) \<Longrightarrow> k \<le> length u \<Longrightarrow> printed F d (advance k p) (w @ u) (length w + k)"
  by (auto simp: printed_def set_up_def)

lemma printed_forward: "printed F d p (w @ u @ v) (length w) \<Longrightarrow> at_end F d (w @ u) (advance (length u) p)"
  using printed_advance [of F d p w "u @ v" "length u"] printed_shorten [of F d _ "w @ u" v] by simp

lemma printed_depth: "printed F d p w n \<Longrightarrow> printed F (Suc d) (deeper p) w n" "printed F (Suc d) p w n \<Longrightarrow> printed F d (shallower p) w n"
  by (auto simp: printed_def deeper_def shallower_def set_up_def)

lemma printed_format: "printed F d p w n \<Longrightarrow> pb_format p = fr_format F \<and> pb_depth p = d"
  by (simp add: printed_def set_up_def)

lemma poke_printed:
  assumes "printed F d p w n" "length w + length bs < pb_length p"
  obtains p' where "poke (pb_buffer p) (length w) bs p = Some p'" "printed F d p' (w @ bs) n"
    "pb_length p' = pb_length p" "pb_buffer p' = pb_buffer p"
proof -
  obtain blk where own: "owns F p blk" "take (length w) blk = w" using assms(1) by (auto simp: printed_def)
  then obtain b where b: "pb_buffer p = Some b" "blocks p = (fr_others F)(b \<mapsto> blk)" by (auto simp: owns_def)
  have len: "length blk = pb_length p + length (fr_tail F)" "drop (pb_length p) blk = fr_tail F" using own by (simp_all add: owns_def)
  define blk' where "blk' = w @ bs @ drop (length w + length bs) blk"
  define p' where "p' = p\<lparr>blocks := (blocks p)(b \<mapsto> blk')\<rparr>"
  have "poke (pb_buffer p) (length w) bs p = Some p'" using b own len assms(2) by (simp add: poke_def p'_def blk'_def)
  moreover have "length blk' = pb_length p + length (fr_tail F)" "drop (pb_length p) blk' = fr_tail F"
    using len assms(2) by (simp_all add: blk'_def)
  then have "owns F p' blk'" using own(1) b by (auto simp: owns_def p'_def)
  moreover have "set_up F d n p'" "n \<le> length w" using assms(1) by (simp_all add: printed_def set_up_def p'_def)
  moreover have "take (length (w @ bs)) blk' = w @ bs" "pb_length p' = pb_length p" "pb_buffer p' = pb_buffer p"
    by (simp_all add: blk'_def p'_def)
  ultimately show ?thesis using assms(2) by (intro that [of p']) (auto simp: printed_def)
qed

section \<open>Growing\<close>

lemma replaced: "g b = None \<Longrightarrow> b \<noteq> k \<Longrightarrow> (g(b \<mapsto> x, k \<mapsto> z))(b := None) = g(k \<mapsto> z)"
  by (auto simp: fun_eq_iff)

text \<open>What becomes of the block when a new one of \<open>sz\<close> bytes is there and \<open>kept\<close> is copied to it.\<close>

lemma printed_moved:
  assumes "printed F d p w n" "\<not> fr_noalloc F" "pb_buffer p = Some b" "sz \<le> fr_limit F" "length w < sz"
    "take (length w) kept = w" "length kept \<le> sz" "length rest = sz - length kept" "0 < sz"
  shows "printed F d (p\<lparr>requests := Suc (requests p), blocks := (fr_others F)(requests p \<mapsto> kept @ rest),
    pb_length := sz, pb_buffer := Some (requests p)\<rparr>) w n"
proof -
  obtain blk where "owns F p blk" using assms(1) by (auto simp: printed_def)
  then have "fr_tail F = []" "fr_limit F = nat INT_MAX" "\<forall>x \<ge> requests p. fr_others F x = None"
    using assms(2) by (auto simp: owns_def)
  moreover have "length w \<le> length kept" using arg_cong [OF assms(6), of length] by simp
  ultimately show ?thesis using assms unfolding printed_def owns_def set_up_def
    by (intro conjI exI [of _ "kept @ rest"]) auto
qed

lemma grow_printed:
  assumes "printed F d p w n" "length w = n" "\<not> fr_noalloc F" "pb_length p \<le> sz" "sz \<le> fr_limit F" "n < sz"
  shows "\<exists>r p'. grow (fr_hooks F) sz p = Some (r, p') \<and>
    (case r of None \<Rightarrow> failed F p' \<and> \<not> granting F | Some i \<Rightarrow> i = n \<and> printed F d p' w n \<and> pb_length p' = sz)"
proof -
  let ?h = "fr_hooks F" and ?k = "requests p"
  obtain blk where own: "owns F p blk" "take (length w) blk = w" using assms(1) by (auto simp: printed_def)
  then obtain b where b: "pb_buffer p = Some b" "blocks p = (fr_others F)(b \<mapsto> blk)" "fr_others F b = None" "b < ?k"
    "\<forall>x \<ge> ?k. fr_others F x = None" "fr_tail F = []" "length blk = pb_length p"
    using assms(3) by (auto simp: owns_def)
  have p: "pb_offset p = n" "has_reallocate ?h \<or> 0 < pb_length p" "length w < pb_length p \<or> pb_length p = 0"
    using assms(1,3) by (auto simp: printed_def set_up_def)
  note upd = replaced [of "fr_others F" b ?k, OF b(3) less_imp_neq [OF b(4)]]
  show ?thesis
  proof (cases "grants ?h ?k sz")
    case False
    let ?p1 = "p\<lparr>requests := Suc ?k\<rparr>"
    have "allocate ?h sz p = (None, ?p1)" using False by (simp add: allocate_def Let_def)
    moreover have "deallocate (Some b) ?p1 = Some (?p1\<lparr>blocks := fr_others F\<rparr>)"
      using b by (simp add: deallocate_def fun_upd_idem)
    ultimately have "grow ?h sz p = Some (None, ?p1\<lparr>blocks := fr_others F, pb_length := 0, pb_buffer := None\<rparr>)"
      using b by (simp add: grow_def realloc_def)
    then show ?thesis using assms(3) False by (auto simp: failed_def granting_def)
  next
    case True
    let ?new = "map (stale ?h ?k) [0..<sz]"
    let ?p1 = "p\<lparr>requests := Suc ?k, blocks := (fr_others F)(b \<mapsto> blk, ?k \<mapsto> ?new)\<rparr>"
    have al: "allocate ?h sz p = (Some ?k, ?p1)" using True b(2) by (simp add: allocate_def Let_def)
    have moved: "printed F d (p\<lparr>requests := Suc ?k, blocks := (fr_others F)(?k \<mapsto> kept @ drop (length kept) ?new),
        pb_length := sz, pb_buffer := Some ?k\<rparr>) w n" if "take (length w) kept = w" "length kept \<le> sz" for kept
      using assms(2,6) that by (intro printed_moved [OF assms(1,3) b(1) assms(5)]) auto
    show ?thesis
    proof (cases "has_reallocate ?h")
      case True
      have "grow ?h sz p = Some (Some n, p\<lparr>requests := Suc ?k, blocks := (fr_others F)(?k \<mapsto> blk @ drop (length blk) ?new),
          pb_length := sz, pb_buffer := Some ?k\<rparr>)"
        using True al b(1,2,4,7) p(1) assms(4) upd by (simp add: grow_def realloc_def poke_def deallocate_def)
      then show ?thesis using moved [of blk] own(2) b(7) assms(4) by simp
    next
      case False
      then have "n < length blk" using p(2,3) b(7) assms(2) by auto
      have "grow ?h sz p = Some (Some n, p\<lparr>requests := Suc ?k,
          blocks := (fr_others F)(?k \<mapsto> take (n + 1) blk @ drop (length (take (n + 1) blk)) ?new), pb_length := sz, pb_buffer := Some ?k\<rparr>)"
        using False al b(1,2,4) p(1) \<open>n < length blk\<close> assms(6) upd
        by (simp add: grow_def peek_def poke_def deallocate_def)
      then show ?thesis using moved [of "take (n + 1) blk"] own(2) assms(2,6) by simp
    qed
  qed
qed

lemma ensure_printed:
  assumes "printed F d p w n" "length w = n"
  shows "\<exists>r p'. ensure (fr_hooks F) m p = Some (r, p') \<and>
    (case r of None \<Rightarrow> failed F p' \<and> (granting F \<longrightarrow> fr_limit F < n + m + 1)
     | Some i \<Rightarrow> i = n \<and> printed F d p' w n \<and> n + m + 1 \<le> pb_length p' \<and> n + m + 1 \<le> fr_limit F)"
proof -
  obtain blk where own: "owns F p blk" using assms(1) by (auto simp: printed_def)
  have up: "pb_noalloc p = fr_noalloc F" "pb_offset p = n" "fr_limit F \<le> nat INT_MAX" "\<not> (0 < pb_length p \<and> pb_length p \<le> pb_offset p)"
  proof -
    have su: "set_up F d n p" and wl: "length w < pb_length p \<or> w = [] \<and> pb_length p = 0" using assms(1) unfolding printed_def by blast+
    show "pb_noalloc p = fr_noalloc F" "pb_offset p = n" "fr_limit F \<le> nat INT_MAX" using su unfolding set_up_def by blast+
    then show "\<not> (0 < pb_length p \<and> pb_length p \<le> pb_offset p)" using wl assms(2) by linarith
  qed
  have "pb_buffer p \<noteq> None \<and> pb_length p \<le> fr_limit F \<and> (if fr_noalloc F then pb_length p = fr_limit F else fr_limit F = nat INT_MAX)"
    using own unfolding owns_def by (cases "fr_noalloc F") auto
  then have len: "pb_buffer p \<noteq> None" "pb_length p \<le> fr_limit F" "fr_noalloc F \<Longrightarrow> pb_length p = fr_limit F"
    "\<not> fr_noalloc F \<Longrightarrow> fr_limit F = nat INT_MAX" by (simp_all split: if_splits)
  note fail = printed_failed [OF assms(1)]
  consider (huge) "nat INT_MAX < m" | (fits) "m \<le> nat INT_MAX" "m + (n + 1) \<le> pb_length p"
    | (full) "m \<le> nat INT_MAX" "pb_length p < m + (n + 1)" "fr_noalloc F \<or> nat INT_MAX < m + (n + 1)"
    | (grow) "m \<le> nat INT_MAX" "pb_length p < m + (n + 1)" "\<not> fr_noalloc F" "m + (n + 1) \<le> nat INT_MAX"
    by (metis not_le)
  then show ?thesis
  proof cases
    case huge
    then have "ensure (fr_hooks F) m p = Some (None, p)" using up len by (simp add: ensure_def)
    then show ?thesis using fail huge up(3) by auto
  next
    case fits
    then have "ensure (fr_hooks F) m p = Some (Some n, p)" using up len by (simp add: ensure_def)
    then show ?thesis using assms(1) fits len(2) by auto
  next
    case full
    then have "ensure (fr_hooks F) m p = Some (None, p)" using up len by (auto simp: ensure_def Let_def)
    then show ?thesis using fail full up(3) len(3,4) by auto
  next
    case grow
    define sz where "sz = (if nat INT_MAX div 2 < m + (n + 1) then nat INT_MAX else (m + (n + 1)) * 2)"
    have e: "ensure (fr_hooks F) m p = grow (fr_hooks F) sz p" using grow up len by (auto simp: ensure_def Let_def sz_def)
    have sz: "m + (n + 1) \<le> sz" "sz \<le> fr_limit F" using grow(4) len(4) [OF grow(3)] by (auto simp: sz_def)
    obtain r p' where "grow (fr_hooks F) sz p = Some (r, p')"
      "case r of None \<Rightarrow> failed F p' \<and> \<not> granting F | Some i \<Rightarrow> i = n \<and> printed F d p' w n \<and> pb_length p' = sz"
      using grow_printed [OF assms grow(3) _ sz(2)] sz(1) grow(2) by auto
    then show ?thesis using e sz by (auto split: option.splits)
  qed
qed

section \<open>One piece of text\<close>

lemma put_at:
  assumes "at_end F d w p" "length bs \<le> n"
  shows "outcome F (put (fr_hooks F) n bs p) (\<lambda>q. printed F d q (w @ bs) (length w)) (length w + n + 1) (length w + n + 1)"
proof -
  obtain r p1 where e: "ensure (fr_hooks F) n p = Some (r, p1)"
    "case r of None \<Rightarrow> failed F p1 \<and> (granting F \<longrightarrow> fr_limit F < length w + n + 1)
     | Some i \<Rightarrow> i = length w \<and> printed F d p1 w (length w) \<and> length w + n + 1 \<le> pb_length p1 \<and> length w + n + 1 \<le> fr_limit F"
    using ensure_printed [OF assms(1) refl] by blast
  show ?thesis
  proof (cases r)
    case None
    then show ?thesis using e by (simp add: put_def)
  next
    case (Some i)
    then have i: "i = length w" "printed F d p1 w (length w)" "length w + length bs < pb_length p1" "length w + n + 1 \<le> fr_limit F"
      using e(2) assms(2) by simp_all
    obtain p2 where "poke (pb_buffer p1) (length w) bs p1 = Some p2" "printed F d p2 (w @ bs) (length w)"
      using poke_printed [OF i(2,3)] by metis
    then show ?thesis using e(1) Some i(1,4) by (simp add: put_def)
  qed
qed

lemma put_step_at:
  assumes "at_end F d w p" "length bs \<le> n" "\<And>q. printed F d q (w @ bs) (length w) \<Longrightarrow> Q (g q)" "lo \<le> length w + n + 1" "length w + n + 1 \<le> hi"
  shows "outcome F (put_step (fr_hooks F) n bs g p) Q lo hi"
proof -
  have "outcome F (put_step (fr_hooks F) n bs g p) Q (length w + n + 1) (length w + n + 1)"
    unfolding put_step_def using put_at [OF assms(1,2)] by (rule outcome_set) (rule assms(3))
  then show ?thesis by (rule outcome_mono) (use assms(4,5) in simp_all)
qed

text \<open>The offset is moved behind the part \<open>u\<close> of the piece.\<close>

lemma put_piece:
  assumes "at_end F d w p" "bs = u @ v" "length bs \<le> n" "k = length u" "length w + n + 1 \<le> hi"
    "\<And>q. at_end F d (w @ u) q \<Longrightarrow> Q (g q)"
  shows "outcome F (put_step (fr_hooks F) n bs (\<lambda>q. g (advance k q)) p) Q 0 hi"
  using assms(1,3)
proof (rule put_step_at)
  fix q
  assume "printed F d q (w @ bs) (length w)"
  then show "Q (g (advance k q))" using printed_forward [of F d q w u v] assms(2,4,6) by simp
qed (use assms(5) in simp_all)

text \<open>A piece that ends a value: the offset stays.\<close>

lemma put_close:
  assumes "at_end F (Suc d) (w @ u) p" "bs = v @ [NUL]" "length bs \<le> n" "lo = length (w @ u) + n + 1"
  shows "outcome F (put_step (fr_hooks F) n bs shallower p) (wrote F d w (u @ v)) lo lo"
  using assms(1,3)
proof (rule put_step_at)
  fix q
  assume "printed F (Suc d) q ((w @ u) @ bs) (length (w @ u))"
  then show "wrote F d w (u @ v) (shallower q)"
    using printed_depth(2) assms(2) unfolding wrote_def by (intro exI [of _ "length (w @ u)"]) simp
qed (use assms(4) in simp_all)

lemma put_wrote: "at_end F d w p \<Longrightarrow> length t < n \<Longrightarrow>
  outcome F (put (fr_hooks F) n (t @ [NUL]) p) (wrote F d w t) (length w + n + 1) (length w + n + 1)"
  by (rule outcome_mono [OF put_at]) (auto simp: wrote_def)

lemma update_offset_wrote:
  assumes "wrote F d w t p" "no_nul t"
  obtains p' where "update_offset p = Some p'" "printed F d p' (w @ t @ [NUL]) (length (w @ t))"
proof -
  obtain n where n: "length w \<le> n" "n \<le> length (w @ t)" "printed F d p (w @ t @ [NUL]) n" using assms(1) by (auto simp: wrote_def)
  obtain blk where own: "owns F p blk" "take (length (w @ t @ [NUL])) blk = w @ t @ [NUL]" using n(3) unfolding printed_def by blast
  then obtain b where b: "pb_buffer p = Some b" "blocks p b = Some blk" by (auto simp: owns_def)
  let ?rest = "drop (length (w @ t @ [NUL])) blk"
  have blk: "blk = w @ t @ NUL # ?rest" using own(2) by (metis append_assoc append_Cons append_Nil append_take_drop_id)
  have off: "pb_offset p = n" using n(3) by (simp add: printed_def set_up_def)
  have "drop n blk = drop (n - length w) t @ NUL # ?rest"
    using n(1,2) by (subst blk) simp
  moreover have "no_nul (drop (n - length w) t)" using assms(2) by (auto simp: no_nul_def dest: in_set_dropD)
  ultimately have "str_at (drop n blk) = Some (drop (n - length w) t)" by (simp add: str_at_def)
  moreover have "n \<le> length blk" using n(2) by (subst blk) simp
  ultimately have len: "strlen_at (pb_buffer p) n p = Some (length w + length t - n)"
    using b n(1) by (simp add: strlen_at_def)
  have "printed F d (advance (length w + length t - n) p) (w @ t @ [NUL]) (length (w @ t))"
    using n by (auto simp: printed_def set_up_def)
  then show ?thesis using that len b(1) off by (simp add: update_offset_def)
qed

section \<open>Strings and numbers\<close>

lemma length_escape: "length (concat (map escape_char s)) = length s + escape_characters s"
proof (induction s)
  case (Cons c s)
  have "length (escape_char c) = 1 + (if c \<in> {CHR 0x22, CHR 0x5C, CHR 0x08, CHR 0x0C, CHR 0x0A, CHR 0x0D, CHR 0x09} then 1
     else if (of_char c :: nat) < 32 then 5 else 0)"
    by (auto simp: escape_char_def)
  then show ?case using Cons by (simp add: escape_characters_def)
qed (simp add: escape_characters_def)

lemma escape_none: "escape_characters s = 0 \<Longrightarrow> concat (map escape_char s) = s"
  by (induction s) (auto simp: escape_characters_def escape_char_def split: if_splits)

lemma print_string_b:
  assumes "at_end F d w p"
  shows "outcome F (print_string_ptr_b (fr_hooks F) input p) (wrote F d w (print_string_ptr (case input of None \<Rightarrow> [] | Some s \<Rightarrow> s)))
    (length w + length (print_string_ptr (case input of None \<Rightarrow> [] | Some s \<Rightarrow> s)) + 2)
    (length w + length (print_string_ptr (case input of None \<Rightarrow> [] | Some s \<Rightarrow> s)) + 2)"
proof (cases input)
  case None
  then show ?thesis using put_wrote [OF assms, of "[CHR 0x22, CHR 0x22]" 3] by (simp add: print_string_ptr_b_def print_string_ptr_def numeral_eq_Suc)
next
  case (Some s)
  let ?e = "concat (map escape_char s)" and ?n = "length s + escape_characters s"
  have body: "CHR 0x22 # (if escape_characters s = 0 then s else ?e) = CHR 0x22 # ?e" using escape_none by simp
  obtain r p1 where e: "ensure (fr_hooks F) (?n + 3) p = Some (r, p1)"
    "case r of None \<Rightarrow> failed F p1 \<and> (granting F \<longrightarrow> fr_limit F < length w + (?n + 3) + 1)
     | Some i \<Rightarrow> i = length w \<and> printed F d p1 w (length w) \<and> length w + (?n + 3) + 1 \<le> pb_length p1 \<and> length w + (?n + 3) + 1 \<le> fr_limit F"
    using ensure_printed [OF assms refl] by blast
  have len: "length (print_string_ptr s) = ?n + 2" by (simp add: print_string_ptr_def length_escape)
  show ?thesis
  proof (cases r)
    case None
    then show ?thesis using e Some len by (auto simp: print_string_ptr_b_def Let_def)
  next
    case r: (Some i)
    then have i: "i = length w" "printed F d p1 w (length w)" "length w + (?n + 3) + 1 \<le> pb_length p1" "length w + (?n + 3) + 1 \<le> fr_limit F"
      using e(2) by simp_all
    obtain p2 where p2: "poke (pb_buffer p1) (length w) (CHR 0x22 # ?e) p1 = Some p2" "printed F d p2 (w @ CHR 0x22 # ?e) (length w)"
      "pb_length p2 = pb_length p1" "pb_buffer p2 = pb_buffer p1"
      using poke_printed [OF i(2), of "CHR 0x22 # ?e"] i(3) by (auto simp: length_escape)
    obtain p3 where p3: "poke (pb_buffer p2) (length (w @ CHR 0x22 # ?e)) [CHR 0x22, NUL] p2 = Some p3"
      "printed F d p3 ((w @ CHR 0x22 # ?e) @ [CHR 0x22, NUL]) (length w)"
      using poke_printed [OF p2(2), of "[CHR 0x22, NUL]"] i(3) p2(3) by (auto simp: length_escape)
    have "print_string_ptr_b (fr_hooks F) input p = Some (True, p3)"
      using e(1) r i(1) p2(1,4) p3(1) Some body by (simp add: print_string_ptr_b_def Let_def length_escape)
    moreover have "wrote F d w (print_string_ptr s) p3"
      using p3(2) by (auto simp: wrote_def print_string_ptr_def)
    ultimately show ?thesis using i(4) Some len by simp
  qed
qed

lemma print_number_b:
  assumes "at_end F d w p" "number_buffer i x = Some s"
  shows "outcome F (print_number_b (fr_hooks F) i x p) (wrote F d w s) (length w + length s + 2) (length w + length s + 2)"
proof -
  have "outcome F (put_step (fr_hooks F) (length s + 1) (s @ [NUL]) (advance (length s)) p) (wrote F d w s)
    (length w + length s + 2) (length w + length s + 2)"
    using assms(1)
  proof (rule put_step_at)
    fix q
    assume "printed F d q (w @ s @ [NUL]) (length w)"
    then have "printed F d (advance (length s) q) (w @ s @ [NUL]) (length w + length s)" by (rule printed_advance) simp
    then show "wrote F d w s (advance (length s) q)" unfolding wrote_def by (intro exI [of _ "length w + length s"]) simp
  qed simp_all
  then show ?thesis using assms(2) by (simp add: print_number_b_def)
qed

section \<open>The pieces of arrays and objects\<close>

lemma open_array_at:
  assumes "at_end F d w p"
  shows "outcome F (open_array (fr_hooks F) p) (at_end F (Suc d) (w @ ''['')) 0 (length w + 2)"
  unfolding open_array_def by (rule put_piece [OF assms, where u = "''[''" and v = "[]" and g = deeper]) (simp_all add: printed_depth)

lemma close_array_at:
  assumes "at_end F (Suc d) (w @ u) p"
  shows "outcome F (close_array (fr_hooks F) p) (wrote F d w (u @ '']'')) (length (w @ u) + 3) (length (w @ u) + 3)"
  unfolding close_array_def by (rule put_close [OF assms, where v = "'']''"]) simp_all

lemma separate_elements_at:
  assumes "at_end F d w p"
  shows "outcome F (separate_elements (fr_hooks F) p) (at_end F d (w @ CHR '','' # layout (fr_format F) '' '')) 0
    (length w + length (CHR '','' # layout (fr_format F) '' '') + 2)"
  unfolding separate_elements_def Let_def printed_format [OF assms, THEN conjunct1]
  by (rule put_piece [OF assms, where u = "CHR '','' # layout (fr_format F) '' ''" and v = "[NUL]" and g = "\<lambda>q. q"]) (simp_all add: layout_def)

lemma open_object_at:
  assumes "at_end F d w p"
  shows "outcome F (open_object (fr_hooks F) p) (at_end F (Suc d) (w @ CHR 0x7B # layout (fr_format F) [CHR 0x0A])) 0
    (length w + length (CHR 0x7B # layout (fr_format F) [CHR 0x0A]) + 2)"
  unfolding open_object_def Let_def printed_format [OF assms, THEN conjunct1]
  by (rule put_piece [OF assms, where v = "[]" and u = "CHR 0x7B # layout (fr_format F) [CHR 0x0A]" and g = deeper]) (simp_all add: layout_def printed_depth)

lemma indent_member_at:
  assumes "at_end F d w p"
  shows "outcome F (indent_member (fr_hooks F) p) (at_end F d (w @ tabs (fr_format F) d)) 0 (length w + length (tabs (fr_format F) d) + 2)"
proof (cases "fr_format F")
  case True
  have "outcome F (put_step (fr_hooks F) d (tabs True d) (advance d) p) (at_end F d (w @ tabs True d)) 0 (length w + d + 2)"
    by (rule put_piece [OF assms, where u = "tabs True d" and v = "[]" and g = "\<lambda>q. q"]) (simp_all add: tabs_def)
  then show ?thesis using True printed_format [OF assms] by (simp add: indent_member_def tabs_def)
next
  case False
  then show ?thesis using assms printed_format [OF assms] by (simp add: indent_member_def tabs_def)
qed

lemma separate_key_at:
  assumes "at_end F d w p"
  shows "outcome F (separate_key (fr_hooks F) p) (at_end F d (w @ CHR '':'' # layout (fr_format F) [CHR 0x09])) 0
    (length w + length (CHR '':'' # layout (fr_format F) [CHR 0x09]) + 2)"
  unfolding separate_key_def Let_def printed_format [OF assms, THEN conjunct1]
  by (rule put_piece [OF assms, where u = "CHR '':'' # layout (fr_format F) [CHR 0x09]" and v = "[]" and g = "\<lambda>q. q"]) (simp_all add: layout_def)

lemma end_member_at:
  assumes "at_end F d w p" "u = (if has_next then '','' else []) @ layout (fr_format F) [CHR 0x0A]"
  shows "outcome F (end_member (fr_hooks F) has_next p) (at_end F d (w @ u)) 0 (length w + length u + 2)"
  unfolding end_member_def Let_def printed_format [OF assms(1), THEN conjunct1]
  by (rule put_piece [OF assms(1), where u = u and v = "[NUL]" and g = "\<lambda>q. q"]) (simp_all add: layout_def assms(2))

lemma close_object_at:
  assumes "at_end F (Suc d) (w @ u) p"
  shows "outcome F (close_object (fr_hooks F) p) (wrote F d w (u @ tabs (fr_format F) d @ [CHR 0x7D]))
    (length (w @ u) + length (tabs (fr_format F) d) + 3) (length (w @ u) + length (tabs (fr_format F) d) + 3)"
  unfolding close_object_def printed_format [OF assms, THEN conjunct1] printed_format [OF assms, THEN conjunct2]
  by (rule put_close [OF assms, where v = "tabs (fr_format F) d @ [CHR 0x7D]"]) (simp_all add: tabs_def)

section \<open>Whole items\<close>

text \<open>Only the types \<open>print_value\<close> knows, and numbers as \<open>cJSON_CreateNumber\<close> and the parser make them.\<close>

fun printable :: "memory \<Rightarrow> lay \<Rightarrow> bool" where
  "printable m (Lay a v k cs) \<longleftrightarrow> (case nodes m a of None \<Rightarrow> False | Some n \<Rightarrow>
     nd_type n AND 255 \<in> {cJSON_False_t, cJSON_True_t, cJSON_NULL_t, cJSON_Number_t, cJSON_String_t, cJSON_Array_t, cJSON_Object_t} \<and>
     nd_valueint n = valueint (nd_valuedouble n)) \<and> (\<forall>c \<in> set cs. printable m c)"

definition value_ok :: "memory \<Rightarrow> lay \<Rightarrow> bool" where
  "value_ok m c \<longleftrightarrow> (\<forall>F d t p w. format_value (fr_format F) d (tree_of m c) = Some t \<longrightarrow> at_end F d w p \<longrightarrow>
     outcome F (print_run (fr_hooks F) m (Value (Some (la c))) p) (wrote F d w t) (length w + length t + 2) (length w + length t + 2))"

lemma value_okD:
  "value_ok m c \<Longrightarrow> format_value (fr_format F) d (tree_of m c) = Some t \<Longrightarrow> at_end F d w p \<Longrightarrow>
   outcome F (print_run (fr_hooks F) m (Value (Some (la c))) p) (wrote F d w t) (length w + length t + 2) (length w + length t + 2)"
  by (simp add: value_ok_def)

lemma outcome_offset:
  assumes "wrote F d w t p" "no_nul t" "\<And>q. at_end F d (w @ t) q \<Longrightarrow> outcome F (k q) Q lo hi"
  shows "outcome F (Option.bind (update_offset p) k) Q lo hi"
proof -
  obtain q where "update_offset p = Some q" "printed F d q ((w @ t) @ [NUL]) (length (w @ t))"
    using update_offset_wrote [OF assms(1,2)] by (metis append_assoc)
  then show ?thesis using assms(3) printed_shorten [of F d q "w @ t" "[NUL]"] by simp
qed

lemma elements_ok:
  assumes "\<forall>c \<in> set cs. value_ok m c" "nexts (nodes m) (map la cs)"
    "format_array (fr_format F) d (map (tree_of m) cs) = Some t" "at_end F d w p"
  shows "outcome F (print_run (fr_hooks F) m (Elements (first (map la cs) None)) p) (at_end F d (w @ t)) 0 (length w + length t + 2)"
  using assms
proof (induction cs arbitrary: t w p)
  case Nil
  then show ?case by (subst print_run.simps) simp
next
  case (Cons c cs)
  obtain t1 ts where t: "format_value (fr_format F) d (tree_of m c) = Some t1" "format_array (fr_format F) d (map (tree_of m) cs) = Some ts"
    "t = t1 @ (if cs = [] then [] else CHR '','' # layout (fr_format F) '' '' @ ts)"
    using Cons.prems(3) by (auto split: option.splits)
  obtain n where n: "nodes m (la c) = Some n" "nd_next n = first (map la cs) None" "nexts (nodes m) (map la cs)"
    using Cons.prems(2) by (auto split: option.splits)
  let ?sep = "CHR '','' # layout (fr_format F) '' ''"
  let ?rest = "\<lambda>p. andthen (if nd_next n \<noteq> None then separate_elements (fr_hooks F) p else Some (True, p))
    (print_run (fr_hooks F) m (Elements (nd_next n)))"
  have rest: "outcome F (?rest q) (at_end F d (w @ t)) 0 (length w + length t + 2)" if q: "at_end F d (w @ t1) q" for q
  proof (cases "cs = []")
    case True
    then have "ts = []" using t(2) by simp
    then have "outcome F (print_run (fr_hooks F) m (Elements None) q) (at_end F d (w @ t)) 0 (length w + length t + 2)"
      using q t(3) True by (subst print_run.simps) simp
    then show ?thesis using True n(2) by (simp add: andthen_def)
  next
    case False
    then have some: "nd_next n \<noteq> None" using n(2) by (cases cs) auto
    have "outcome F (andthen (separate_elements (fr_hooks F) q) (print_run (fr_hooks F) m (Elements (first (map la cs) None))))
      (at_end F d (((w @ t1) @ ?sep) @ ts)) 0 (length w + length t + 2)"
    proof (rule outcome_andthen [OF separate_elements_at [OF q]])
      fix r
      assume r: "at_end F d ((w @ t1) @ ?sep) r"
      have "\<forall>c \<in> set cs. value_ok m c" using Cons.prems(1) by simp
      from Cons.IH [OF this n(3) t(2) r]
      have "outcome F (print_run (fr_hooks F) m (Elements (first (map la cs) None)) r) (at_end F d (((w @ t1) @ ?sep) @ ts)) 0
        (length ((w @ t1) @ ?sep) + length ts + 2)" .
      then show "outcome F (print_run (fr_hooks F) m (Elements (first (map la cs) None)) r) (at_end F d (((w @ t1) @ ?sep) @ ts)) 0 (length w + length t + 2)"
        by (rule outcome_mono) (use False t(3) in simp_all)
    qed (use False t(3) in simp)
    then show ?thesis using some n(2) False t(3) by simp
  qed
  have "outcome F (andthen (print_run (fr_hooks F) m (Value (Some (la c))) p) (\<lambda>p1. Option.bind (update_offset p1) ?rest))
    (at_end F d (w @ t)) 0 (length w + length t + 2)"
  proof (rule outcome_andthen [OF value_okD [OF _ t(1) Cons.prems(4)]])
    show "value_ok m c" using Cons.prems(1) by simp
    show "outcome F (Option.bind (update_offset q) ?rest) (at_end F d (w @ t)) 0 (length w + length t + 2)" if "wrote F d w t1 q" for q
      using outcome_offset [OF that format_no_nul(1) [OF t(1)] rest] .
  qed (simp add: t(3))
  then show ?case by (subst print_run.simps) (simp add: n(1) load_def)
qed

lemma string_at_laid:
  assumes "\<forall>t \<in> set (opt_list k). texts m t \<noteq> None"
  obtains input where "string_at m k = Some input" "(case input of None \<Rightarrow> [] | Some s \<Rightarrow> s) = text_at m k"
  using assms by (cases k) (auto simp: string_at_def text_at_def opt_list_def)

text \<open>The member with key \<open>k\<close>: its indentation, key and value.\<close>

lemma member_ok:
  assumes "value_ok m c" "format_value (fr_format F) d (tree_of m c) = Some t1" "at_end F d w p"
    "(case key of None \<Rightarrow> [] | Some s \<Rightarrow> s) = k"
    "\<And>q. at_end F d (w @ tabs (fr_format F) d @ print_string_ptr k @ CHR '':'' # layout (fr_format F) [CHR 0x09] @ t1) q \<Longrightarrow> outcome F (rest q) Q 0 hi"
    "length w + length (tabs (fr_format F) d @ print_string_ptr k @ CHR '':'' # layout (fr_format F) [CHR 0x09] @ t1) + 2 \<le> hi"
  shows "outcome F (andthen (andthen (indent_member (fr_hooks F) p) (print_string_ptr_b (fr_hooks F) key)) (\<lambda>p1. do {
       p2 \<leftarrow> update_offset p1;
       andthen (andthen (separate_key (fr_hooks F) p2) (print_run (fr_hooks F) m (Value (Some (la c))))) (\<lambda>p3. Option.bind (update_offset p3) rest)
     })) Q 0 hi"
proof -
  let ?tabs = "tabs (fr_format F) d" and ?key = "print_string_ptr k" and ?colon = "CHR '':'' # layout (fr_format F) [CHR 0x09]"
  let ?val = "\<lambda>p2. andthen (andthen (separate_key (fr_hooks F) p2) (print_run (fr_hooks F) m (Value (Some (la c))))) (\<lambda>p3. Option.bind (update_offset p3) rest)"
  have vals: "outcome F (?val q) Q 0 hi" if q: "at_end F d ((w @ ?tabs) @ ?key) q" for q
  proof (rule outcome_andthen)
    show "outcome F (andthen (separate_key (fr_hooks F) q) (print_run (fr_hooks F) m (Value (Some (la c)))))
      (wrote F d (((w @ ?tabs) @ ?key) @ ?colon) t1) 0 hi"
    proof (rule outcome_andthen [OF separate_key_at [OF q]])
      fix r
      assume "at_end F d (((w @ ?tabs) @ ?key) @ ?colon) r"
      from value_okD [OF assms(1,2) this] show "outcome F (print_run (fr_hooks F) m (Value (Some (la c))) r)
        (wrote F d (((w @ ?tabs) @ ?key) @ ?colon) t1) 0 hi"
        by (rule outcome_mono) (use assms(6) in simp_all)
    qed (use assms(6) in simp)
    show "outcome F (Option.bind (update_offset r) rest) Q 0 hi" if "wrote F d (((w @ ?tabs) @ ?key) @ ?colon) t1 r" for r
    proof (rule outcome_offset [OF that format_no_nul(1) [OF assms(2)]])
      fix u
      assume "at_end F d ((((w @ ?tabs) @ ?key) @ ?colon) @ t1) u"
      then show "outcome F (rest u) Q 0 hi" by (intro assms(5)) simp
    qed
  qed simp
  have "outcome F (andthen (indent_member (fr_hooks F) p) (print_string_ptr_b (fr_hooks F) key)) (wrote F d (w @ ?tabs) ?key) 0 hi"
  proof (rule outcome_andthen [OF indent_member_at [OF assms(3)]])
    fix q
    assume "at_end F d (w @ ?tabs) q"
    from print_string_b [OF this, of key] show "outcome F (print_string_ptr_b (fr_hooks F) key q) (wrote F d (w @ ?tabs) ?key) 0 hi"
      unfolding assms(4) by (rule outcome_mono) (use assms(6) in simp_all)
  qed (use assms(6) in simp)
  then show ?thesis
  proof (rule outcome_andthen)
    show "outcome F (Option.bind (update_offset q) ?val) Q 0 hi" if "wrote F d (w @ ?tabs) ?key q" for q
      by (rule outcome_offset [OF that print_string_no_nul vals])
  qed simp
qed

lemma members_ok:
  assumes "\<forall>c \<in> set cs. value_ok m c \<and> (\<forall>t \<in> set (opt_list (lk c)). texts m t \<noteq> None) \<and>
      (\<forall>n. nodes m (la c) = Some n \<longrightarrow> nd_string n = lk c)" "nexts (nodes m) (map la cs)"
    "format_object (fr_format F) d (map (\<lambda>c. (text_at m (lk c), tree_of m c)) cs) = Some t" "at_end F d w p"
  shows "outcome F (print_run (fr_hooks F) m (Members (first (map la cs) None)) p) (at_end F d (w @ t)) 0 (length w + length t + 2)"
  using assms
proof (induction cs arbitrary: t w p)
  case Nil
  then show ?case by (subst print_run.simps) simp
next
  case (Cons c cs)
  let ?k = "text_at m (lk c)"
  obtain t1 ts where t: "format_value (fr_format F) d (tree_of m c) = Some t1"
    "format_object (fr_format F) d (map (\<lambda>c. (text_at m (lk c), tree_of m c)) cs) = Some ts"
    "t = tabs (fr_format F) d @ print_string_ptr ?k @ CHR '':'' # layout (fr_format F) [CHR 0x09] @ t1 @
      (if cs = [] then [] else '','') @ layout (fr_format F) [CHR 0x0A] @ ts"
    using Cons.prems(3) by (auto split: option.splits)
  obtain n where n: "nodes m (la c) = Some n" "nd_next n = first (map la cs) None" "nexts (nodes m) (map la cs)"
    using Cons.prems(2) by (auto split: option.splits)
  have key: "nd_string n = lk c" "\<forall>t \<in> set (opt_list (lk c)). texts m t \<noteq> None" "value_ok m c" using Cons.prems(1) n(1) by simp_all
  obtain input where input: "string_at m (lk c) = Some input" "(case input of None \<Rightarrow> [] | Some s \<Rightarrow> s) = ?k"
    using string_at_laid [OF key(2)] by blast
  have has_next: "(nd_next n \<noteq> None) = (cs \<noteq> [])" using n(2) by (cases cs) auto
  let ?w1 = "w @ tabs (fr_format F) d @ print_string_ptr ?k @ CHR '':'' # layout (fr_format F) [CHR 0x09] @ t1"
  let ?fin = "(if cs \<noteq> [] then '','' else []) @ layout (fr_format F) [CHR 0x0A]"
  let ?rest = "\<lambda>p4. andthen (end_member (fr_hooks F) (nd_next n \<noteq> None) p4) (print_run (fr_hooks F) m (Members (nd_next n)))"
  have len: "length (?w1 @ ?fin) + length ts = length w + length t" and app: "(?w1 @ ?fin) @ ts = w @ t"
    by (simp_all add: t(3))
  have rest: "outcome F (?rest q) (at_end F d (w @ t)) 0 (length w + length t + 2)" if q: "at_end F d ?w1 q" for q
    unfolding has_next unfolding n(2)
  proof (rule outcome_andthen [OF end_member_at [OF q refl]])
    fix r
    assume r: "at_end F d (?w1 @ ?fin) r"
    have "\<forall>c \<in> set cs. value_ok m c \<and> (\<forall>t \<in> set (opt_list (lk c)). texts m t \<noteq> None) \<and>
      (\<forall>n. nodes m (la c) = Some n \<longrightarrow> nd_string n = lk c)" using Cons.prems(1) by simp
    from Cons.IH [OF this n(3) t(2) r]
    show "outcome F (print_run (fr_hooks F) m (Members (first (map la cs) None)) r) (at_end F d (w @ t)) 0 (length w + length t + 2)"
      unfolding app len .
  qed (use len in simp)
  have "outcome F (print_run (fr_hooks F) m (Members (Some (la c))) p) (at_end F d (w @ t)) 0 (length w + length t + 2)"
    by (subst print_run.simps)
      (simp only: printing.simps option.distinct if_False load_def n(1) Option.bind.simps key(1) input(1),
       rule member_ok [OF key(3) t(1) Cons.prems(4) input(2) rest], assumption, use len in simp)
  then show ?case by simp
qed

lemma plain_child: "plain m (Lay a v k cs) \<Longrightarrow> nodes m a = Some n \<Longrightarrow> laid m (Lay a v k cs) \<Longrightarrow>
  nd_valuestring n = v \<and> nd_child n = first (map la cs) None \<and> nexts (nodes m) (map la cs) \<and> nd_string n = k \<and>
  (\<forall>t \<in> set (opt_list v @ opt_list k). texts m t \<noteq> None)"
  using dseg_nexts by auto

lemma leaf_printed:
  assumes "at_end F d w p" "string_at m v = Some input" "nd_valuestring n = v" "nd_valueint n = valueint (nd_valuedouble n)"
    "nd_type n AND 255 \<in> {cJSON_False_t, cJSON_True_t, cJSON_NULL_t, cJSON_Number_t, cJSON_String_t}"
    "format_value (fr_format F) d (node_tree n (case input of None \<Rightarrow> [] | Some s \<Rightarrow> s) kts) = Some t"
  shows "outcome F (print_leaf (fr_hooks F) m n p) (wrote F d w t) (length w + length t + 2) (length w + length t + 2)"
proof -
  let ?ty = "nd_type n AND 255"
  have word: "outcome F (put (fr_hooks F) (length u + 1) (u @ [NUL]) p) (wrote F d w u) (length w + length u + 2) (length w + length u + 2)" for u
    using put_wrote [OF assms(1), of u "length u + 1"] by simp
  consider "?ty = cJSON_False_t" | "?ty = cJSON_True_t" | "?ty = cJSON_NULL_t" | "?ty = cJSON_Number_t" | "?ty = cJSON_String_t"
    using assms(5) by blast
  then show ?thesis
  proof cases
    case 1
    then show ?thesis using assms(6) word [of "''false''"] by (auto simp: print_leaf_def node_tree_def numeral_eq_Suc)
  next
    case 2
    then show ?thesis using assms(6) word [of "''true''"] by (auto simp: print_leaf_def node_tree_def numeral_eq_Suc)
  next
    case 3
    then show ?thesis using assms(6) word [of "''null''"] by (auto simp: print_leaf_def node_tree_def numeral_eq_Suc)
  next
    case 4
    then show ?thesis using assms(4,6) print_number_b [OF assms(1)] by (simp add: print_leaf_def node_tree_def print_number_def)
  next
    case 5
    then show ?thesis using assms(2,3,6) print_string_b [OF assms(1), of input] by (simp add: print_leaf_def node_tree_def) 
  qed
qed

lemma value_printed: "laid m L \<Longrightarrow> plain m L \<Longrightarrow> printable m L \<Longrightarrow> value_ok m L"
proof (induction L)
  case (Lay a v k cs)
  obtain n where n: "nodes m a = Some n" using Lay.prems(1) by (auto split: option.splits)
  note node = plain_child [OF Lay.prems(2) n Lay.prems(1)]
  have vals: "\<forall>c \<in> set cs. value_ok m c" using Lay by simp
  have "(\<forall>t \<in> set (opt_list (lk c)). texts m t \<noteq> None) \<and> (\<forall>n. nodes m (la c) = Some n \<longrightarrow> nd_string n = lk c)" if "c \<in> set cs" for c
  proof -
    have "laid m c" "plain m c" using Lay.prems(1,2) that by auto
    moreover obtain nc where "nodes m (la c) = Some nc" using \<open>laid m c\<close> by (cases c) (auto split: option.splits)
    ultimately show ?thesis using plain_child [of m "la c" "lv c" "lk c" "lc c" nc] by simp
  qed
  then have keys: "\<forall>c \<in> set cs. value_ok m c \<and> (\<forall>t \<in> set (opt_list (lk c)). texts m t \<noteq> None) \<and>
      (\<forall>n. nodes m (la c) = Some n \<longrightarrow> nd_string n = lk c)" using vals by blast
  obtain input where input: "string_at m v = Some input" "(case input of None \<Rightarrow> [] | Some s \<Rightarrow> s) = text_at m v"
    using string_at_laid [of v m] node by auto
  show ?case unfolding value_ok_def lay.sel
  proof (intro allI impI)
    fix F d t p w
    assume t: "format_value (fr_format F) d (tree_of m (Lay a v k cs)) = Some t" and p: "at_end F d w p"
    let ?ty = "nd_type n AND 255" and ?goal = "\<lambda>r. outcome F r (wrote F d w t) (length w + length t + 2) (length w + length t + 2)"
    have tree: "tree_of m (Lay a v k cs) = node_tree n (text_at m v) (map (\<lambda>c. (text_at m (lk c), tree_of m c)) cs)" by (simp add: n)
    have ty: "?ty \<in> {cJSON_False_t, cJSON_True_t, cJSON_NULL_t, cJSON_Number_t, cJSON_String_t, cJSON_Array_t, cJSON_Object_t}"
      and int: "nd_valueint n = valueint (nd_valuedouble n)" using Lay.prems(3) n by simp_all
    have run: "print_run (fr_hooks F) m (Value (Some a)) p = (if ?ty = cJSON_Array_t then
        andthen (open_array (fr_hooks F) p) (\<lambda>p1. andthen (print_run (fr_hooks F) m (Elements (first (map la cs) None)) p1) (close_array (fr_hooks F)))
      else if ?ty = cJSON_Object_t then
        andthen (open_object (fr_hooks F) p) (\<lambda>p1. andthen (print_run (fr_hooks F) m (Members (first (map la cs) None)) p1) (close_object (fr_hooks F)))
      else print_leaf (fr_hooks F) m n p)"
      by (subst print_run.simps) (simp add: load_def n node)
    consider (leaf) "?ty \<noteq> cJSON_Array_t" "?ty \<noteq> cJSON_Object_t" | (array) "?ty = cJSON_Array_t" | (object) "?ty = cJSON_Object_t" by blast
    then show "?goal (print_run (fr_hooks F) m (Value (Some a)) p)"
    proof cases
      case leaf
      have "?goal (print_leaf (fr_hooks F) m n p)"
        using leaf_printed [OF p input(1), where n = n and t = t and kts = "map (\<lambda>c. (text_at m (lk c), tree_of m c)) cs"] node ty leaf int t unfolding tree input(2) by simp
      then show ?thesis using run leaf by simp
    next
      case array
      let ?inner = "\<lambda>q. andthen (print_run (fr_hooks F) m (Elements (first (map la cs) None)) q) (close_array (fr_hooks F))"
      obtain b where b: "format_array (fr_format F) (Suc d) (map (tree_of m) cs) = Some b" "t = ''['' @ b @ '']''"
        using t array unfolding tree by (auto simp: node_tree_def Let_def comp_def)
      have "?goal (andthen (open_array (fr_hooks F) p) ?inner)"
      proof (rule outcome_andthen [OF open_array_at [OF p]])
        fix q
        assume q: "at_end F (Suc d) (w @ ''['') q"
        show "?goal (?inner q)"
        proof (rule outcome_andthen [OF elements_ok [OF vals _ b(1) q]])
          fix r
          assume "at_end F (Suc d) ((w @ ''['') @ b) r"
          then have "at_end F (Suc d) (w @ (''['' @ b)) r" by simp
          from close_array_at [OF this] show "?goal (close_array (fr_hooks F) r)" by (simp add: b(2) numeral_eq_Suc)
        qed (use node b(2) in simp_all)
      qed (simp add: b(2))
      then show ?thesis using run array by simp
    next
      case object
      let ?open = "CHR 0x7B # layout (fr_format F) [CHR 0x0A]"
      let ?inner = "\<lambda>q. andthen (print_run (fr_hooks F) m (Members (first (map la cs) None)) q) (close_object (fr_hooks F))"
      obtain b where b: "format_object (fr_format F) (Suc d) (map (\<lambda>c. (text_at m (lk c), tree_of m c)) cs) = Some b"
        "t = (?open @ b) @ tabs (fr_format F) d @ [CHR 0x7D]"
        using t object unfolding tree by (auto simp: node_tree_def Let_def)
      have "?goal (andthen (open_object (fr_hooks F) p) ?inner)"
      proof (rule outcome_andthen [OF open_object_at [OF p]])
        fix q
        assume q: "at_end F (Suc d) (w @ ?open) q"
        show "?goal (?inner q)"
        proof (rule outcome_andthen [OF members_ok [OF keys _ b(1) q]])
          fix r
          assume "at_end F (Suc d) ((w @ ?open) @ b) r"
          then have "at_end F (Suc d) (w @ (?open @ b)) r" by simp
          from close_object_at [OF this] show "?goal (close_object (fr_hooks F) r)" by (simp add: b(2) numeral_eq_Suc add.assoc)
        qed (use node b(2) in simp_all)
      qed (simp add: b(2))
      then show ?thesis using run object by simp
    qed
  qed
qed

section \<open>The results of the entry points\<close>

definition allocator_ok :: "'a allocator_scheme \<Rightarrow> bool" where
  "allocator_ok s \<longleftrightarrow> (\<forall>x \<ge> requests s. blocks s x = None)"

text \<open>The printer's own buffer beside the blocks that are there.\<close>

definition own_frame :: "hooks \<Rightarrow> bool \<Rightarrow> allocator \<Rightarrow> frame" where
  "own_frame h format s = \<lparr>fr_hooks = h, fr_others = blocks s, fr_home = 0, fr_tail = [], fr_limit = nat INT_MAX,
     fr_noalloc = False, fr_format = format\<rparr>"

lemma own_frame_simps [simp]:
  "fr_hooks (own_frame h format s) = h" "fr_others (own_frame h format s) = blocks s" "fr_limit (own_frame h format s) = nat INT_MAX"
  "\<not> fr_noalloc (own_frame h format s)" "fr_format (own_frame h format s) = format" "fr_tail (own_frame h format s) = []"
  by (simp_all add: own_frame_def)

text \<open>An item that can be printed, and its text.\<close>

definition item_text :: "memory \<Rightarrow> lay \<Rightarrow> bool \<Rightarrow> bytes \<Rightarrow> bool" where
  "item_text m L format t \<longleftrightarrow> laid m L \<and> plain m L \<and> printable m L \<and> format_value format 0 (tree_of m L) = Some t"

lemma item_printed:
  assumes "item_text m L (fr_format F) t" "at_end F 0 [] p"
  shows "outcome F (print_value_b (fr_hooks F) m (Some (la L)) p) (wrote F 0 [] t) (length t + 2) (length t + 2)"
  using value_okD [OF value_printed, where w = "[]" and d = 0] assms by (simp add: item_text_def print_value_b_def)

lemma new_printed:
  assumes "allocator_ok s" "allocate h n s = (Some b, s1)" "int n \<le> INT_MAX" "has_reallocate h \<or> 0 < n"
  shows "at_end (own_frame h format s) 0 [] (new_buffer s1 (Some b) n False format)"
proof -
  have "b = requests s" "s1 = s\<lparr>requests := Suc b, blocks := (blocks s)(b \<mapsto> map (stale h b) [0..<n])\<rparr>"
    using assms(2) by (auto simp: allocate_def Let_def split: if_splits)
  moreover have "n \<le> nat INT_MAX" using assms(3) by linarith
  ultimately show ?thesis using assms(1,4)
    by (auto simp: printed_def owns_def set_up_def new_buffer_def allocator_ok_def intro!: exI [of _ "map (stale h b) [0..<n]"])
qed

text \<open>The buffer is freed, or was.\<close>

lemma failed_freed:
  assumes "failed F p" "\<not> fr_noalloc F"
  obtains p' where "deallocate (pb_buffer p) p = Some p'" "blocks p' = fr_others F"
proof -
  consider "pb_buffer p = None" "blocks p = fr_others F"
    | b blk where "pb_buffer p = Some b" "fr_others F b = None" "blocks p = (fr_others F)(b \<mapsto> blk)"
    using assms by (auto simp: failed_def)
  then show ?thesis
    by cases (use that in \<open>auto simp: deallocate_def fun_upd_idem\<close>)
qed

text \<open>The text is moved to a block of its own size.\<close>

lemma shrunk:
  assumes "printed F d p (t @ [NUL]) (length t)" "\<not> fr_noalloc F" "h = fr_hooks F"
  shows "\<exists>r p'. shrink h p = Some (r, p') \<and> (case r of None \<Rightarrow> blocks p' = fr_others F \<and> \<not> granting F
    | Some q \<Rightarrow> fr_others F q = None \<and> blocks p' = (fr_others F)(q \<mapsto> t @ [NUL]))"
proof -
  obtain blk where own: "owns F p blk" "take (length t + 1) blk = t @ [NUL]" and p: "pb_offset p = length t" "length t + 1 < pb_length p"
    using assms(1) by (auto simp: printed_def set_up_def)
  then obtain b where b: "pb_buffer p = Some b" "blocks p = (fr_others F)(b \<mapsto> blk)" "fr_others F b = None" "b < requests p"
    "fr_others F (requests p) = None" "length blk = pb_length p" using assms(2) by (auto simp: owns_def)
  let ?k = "requests p" and ?n = "length t + 1"
  note upd = replaced [of "fr_others F" b ?k, OF b(3) less_imp_neq [OF b(4)]]
  show ?thesis
  proof (cases "grants h ?k ?n")
    case False
    let ?p1 = "p\<lparr>requests := Suc ?k\<rparr>"
    have "allocate h ?n p = (None, ?p1)" using False by (simp add: allocate_def Let_def)
    moreover have "deallocate (Some b) ?p1 = Some (?p1\<lparr>blocks := fr_others F\<rparr>)" using b by (simp add: deallocate_def fun_upd_idem)
    ultimately have "shrink h p = Some (None, ?p1\<lparr>blocks := fr_others F\<rparr>)" using b p(1) by (simp add: shrink_def realloc_def)
    then show ?thesis using False assms(2,3) by (auto simp: granting_def)
  next
    case True
    let ?new = "map (stale h ?k) [0..<?n]" and ?p' = "p\<lparr>requests := Suc ?k, blocks := (fr_others F)(?k \<mapsto> t @ [NUL])\<rparr>"
    let ?p1 = "p\<lparr>requests := Suc ?k, blocks := (fr_others F)(b \<mapsto> blk, ?k \<mapsto> ?new)\<rparr>"
    have al: "allocate h ?n p = (Some ?k, ?p1)" using True b(2) by (simp add: allocate_def Let_def)
    have "shrink h p = Some (Some ?k, ?p')"
    proof (cases "has_reallocate h")
      case True
      then show ?thesis using al own(2) b p upd by (simp add: shrink_def realloc_def poke_def deallocate_def)
    next
      case False
      let ?p2 = "p\<lparr>requests := Suc ?k, blocks := (fr_others F)(b \<mapsto> blk, ?k \<mapsto> t @ [NUL])\<rparr>"
      have "peek (pb_buffer ?p1) (min (pb_length ?p1) (pb_offset ?p1 + 1)) ?p1 = Some (t @ [NUL])" using own(2) b p by (simp add: peek_def min_def)
      moreover have "poke (Some ?k) 0 (t @ [NUL]) ?p1 = Some ?p2" "poke (Some ?k) (pb_offset ?p2) [NUL] ?p2 = Some ?p2"
        using p by (simp_all add: poke_def)
      moreover have "deallocate (pb_buffer ?p2) ?p2 = Some ?p'" using b upd by (simp add: deallocate_def)
      ultimately show ?thesis using False al p(1) by (simp add: shrink_def)
    qed
    then show ?thesis using b(5) by simp
  qed
qed

lemma print_item:
  assumes "item_text m L format t" "allocator_ok s"
  shows "\<exists>r s'. print_b h m (Some (la L)) format s = Some (r, s') \<and>
    (case r of None \<Rightarrow> blocks s' = blocks s | Some q \<Rightarrow> blocks s q = None \<and> blocks s' = (blocks s)(q \<mapsto> t @ [NUL])) \<and>
    ((\<forall>k n. grants h k n) \<longrightarrow> (r \<noteq> None \<longleftrightarrow> int (length t) + 2 \<le> INT_MAX))"
proof -
  let ?F = "own_frame h format s"
  obtain b s1 where al: "allocate h 256 s = (b, s1)" by fastforce
  show ?thesis
  proof (cases b)
    case None
    then have "blocks s1 = blocks s" "\<not> (\<forall>k n. grants h k n)" using al by (auto simp: allocate_def Let_def split: if_splits)
    then show ?thesis using al None by (auto simp: print_b_def)
  next
    case (Some a)
    let ?p = "new_buffer s1 (Some a) 256 False format"
    have "at_end ?F 0 [] ?p" using new_printed [OF assms(2)] al Some by (simp add: INT_MAX_def)
    with item_printed [of m L ?F t] assms(1)
    have "outcome ?F (print_value_b h m (Some (la L)) ?p) (wrote ?F 0 [] t) (length t + 2) (length t + 2)" by simp
    then show ?thesis
    proof (cases rule: outcomeE)
      case (ok p1)
      have "no_nul t" using assms(1) format_no_nul(1) by (auto simp: item_text_def)
      then obtain p2 where p2: "update_offset p1 = Some p2" "printed ?F 0 p2 (t @ [NUL]) (length t)"
        by (rule update_offset_wrote [OF ok(2)]) simp
      obtain r p3 where p3: "shrink h p2 = Some (r, p3)" "case r of None \<Rightarrow> blocks p3 = blocks s \<and> \<not> granting ?F
        | Some q \<Rightarrow> blocks s q = None \<and> blocks p3 = (blocks s)(q \<mapsto> t @ [NUL])" using shrunk [OF p2(2), of h] unfolding own_frame_simps by auto
      have "print_b h m (Some (la L)) format s = Some (r, allocator.truncate p3)" using al Some ok(1) p2(1) p3(1) by (simp add: print_b_def)
      moreover have "blocks (allocator.truncate p3) = blocks p3" by (simp add: allocator.truncate_def)
      ultimately show ?thesis using p3(2) ok(3) by (auto simp: granting_def split: option.splits)
    next
      case (fail p1)
      obtain p2 where "deallocate (pb_buffer p1) p1 = Some p2" "blocks p2 = blocks s" using failed_freed [OF fail(2)] by auto
      then have "print_b h m (Some (la L)) format s = Some (None, allocator.truncate p2)" "blocks (allocator.truncate p2) = blocks s"
        using al Some fail(1) by (simp_all add: print_b_def allocator.truncate_def)
      moreover have "\<not> int (length t) + 2 \<le> INT_MAX" if "\<forall>k n. grants h k n" using fail(3) that by (simp add: granting_def INT_MAX_def)
      ultimately show ?thesis by auto
    qed
  qed
qed

lemma print_buffered_item:
  assumes "item_text m L format t" "allocator_ok s" "0 \<le> prebuffer" "prebuffer \<le> INT_MAX" "has_reallocate h \<or> 0 < prebuffer"
  shows "\<exists>r s'. cJSON_PrintBuffered h m (Some (la L)) prebuffer format s = Some (r, s') \<and>
    (case r of None \<Rightarrow> blocks s' = blocks s
     | Some q \<Rightarrow> blocks s q = None \<and> (\<exists>rest. blocks s' = (blocks s)(q \<mapsto> t @ NUL # rest))) \<and>
    ((\<forall>k n. grants h k n) \<longrightarrow> (r \<noteq> None \<longleftrightarrow> int (length t) + 2 \<le> INT_MAX))"
proof -
  let ?F = "own_frame h format s"
  obtain b s1 where al: "allocate h (nat prebuffer) s = (b, s1)" by fastforce
  show ?thesis
  proof (cases b)
    case None
    then have "blocks s1 = blocks s" "\<not> (\<forall>k n. grants h k n)" using al by (auto simp: allocate_def Let_def split: if_splits)
    then show ?thesis using al None assms(3) by (auto simp: cJSON_PrintBuffered_def)
  next
    case (Some a)
    let ?p = "new_buffer s1 (Some a) (nat prebuffer) False format"
    have "at_end ?F 0 [] ?p" using new_printed [OF assms(2)] al Some assms(3-5) by auto
    with item_printed [of m L ?F t] assms(1)
    have "outcome ?F (print_value_b h m (Some (la L)) ?p) (wrote ?F 0 [] t) (length t + 2) (length t + 2)" by simp
    then show ?thesis
    proof (cases rule: outcomeE)
      case (ok p1)
      then obtain n where "printed ?F 0 p1 (t @ [NUL]) n" by (auto simp: wrote_def)
      then obtain q blk where q: "pb_buffer p1 = Some q" "blocks s q = None" "blocks p1 = (blocks s)(q \<mapsto> blk)" "take (length t + 1) blk = t @ [NUL]"
        by (auto simp: printed_def owns_def)
      then have "blk = t @ NUL # drop (length t + 1) blk" by (metis append.assoc append_Cons append_Nil append_take_drop_id)
      then have "\<exists>rest. blocks p1 = (blocks s)(q \<mapsto> t @ NUL # rest)" using q(3) by metis
      moreover have "cJSON_PrintBuffered h m (Some (la L)) prebuffer format s = Some (Some q, allocator.truncate p1)"
        using al Some ok(1) q(1) assms(3) by (simp add: cJSON_PrintBuffered_def)
      moreover have "blocks (allocator.truncate p1) = blocks p1" by (simp add: allocator.truncate_def)
      ultimately show ?thesis using ok(3) q(2) by auto
    next
      case (fail p1)
      obtain p2 where "deallocate (pb_buffer p1) p1 = Some p2" "blocks p2 = blocks s" using failed_freed [OF fail(2)] by auto
      then have "cJSON_PrintBuffered h m (Some (la L)) prebuffer format s = Some (None, allocator.truncate p2)" "blocks (allocator.truncate p2) = blocks s"
        using al Some fail(1) assms(3) by (simp_all add: cJSON_PrintBuffered_def allocator.truncate_def)
      moreover have "\<not> int (length t) + 2 \<le> INT_MAX" if "\<forall>k n. grants h k n" using fail(3) that by (simp add: granting_def INT_MAX_def)
      ultimately show ?thesis by auto
    qed
  qed
qed

text \<open>A buffer of no bytes that has to grow without \<open>realloc\<close>: the copy of the byte at the offset reads outside of it.\<close>

definition empty_buffer :: "hooks \<Rightarrow> printbuffer \<Rightarrow> bool" where
  "empty_buffer h p \<longleftrightarrow> \<not> has_reallocate h \<and> (\<forall>k n. grants h k n) \<and> (\<exists>b < requests p. pb_buffer p = Some b \<and> blocks p b = Some []) \<and>
     pb_length p = 0 \<and> pb_offset p = 0 \<and> \<not> pb_noalloc p"

lemma ensure_empty:
  assumes "empty_buffer h p" "int m + 1 \<le> INT_MAX"
  shows "ensure h m p = None"
proof -
  obtain b where b: "pb_buffer p = Some b" "blocks p b = Some []" "b < requests p" using assms(1) by (auto simp: empty_buffer_def)
  have "grow h n p = None" for n
    using assms(1) b by (simp add: grow_def empty_buffer_def allocate_def Let_def peek_def)
  moreover have "m \<le> nat INT_MAX" "m + 1 \<le> nat INT_MAX" using assms(2) by (simp_all add: INT_MAX_def)
  ultimately show ?thesis using assms(1) b(1) by (simp add: ensure_def empty_buffer_def Let_def)
qed

lemma put_empty: "empty_buffer h p \<Longrightarrow> int m + 1 \<le> INT_MAX \<Longrightarrow> put h m bs p = None \<and> put_step h m bs g p = None"
  by (simp add: put_step_def put_def ensure_empty)

lemma print_empty:
  assumes "item_text m L format t" "empty_buffer h p" "pb_format p = format" "int (length t) + 2 \<le> INT_MAX"
  shows "print_value_b h m (Some (la L)) p = None"
proof -
  obtain a v k cs where L: "L = Lay a v k cs" by (cases L)
  obtain n where n: "nodes m a = Some n" using assms(1) by (auto simp: item_text_def L split: option.splits)
  note node = plain_child [of m a v k cs n]
  obtain input where input: "string_at m v = Some input" "(case input of None \<Rightarrow> [] | Some s \<Rightarrow> s) = text_at m v" "nd_valuestring n = v"
    using string_at_laid [of v m] node n assms(1) by (auto simp: item_text_def L simp del: plain.simps laid.simps)
  have t: "format_value format 0 (node_tree n (text_at m v) (map (\<lambda>c. (text_at m (lk c), tree_of m c)) cs)) = Some t"
    and ty: "nd_type n AND 255 \<in> {cJSON_False_t, cJSON_True_t, cJSON_NULL_t, cJSON_Number_t, cJSON_String_t, cJSON_Array_t, cJSON_Object_t}"
    and int: "nd_valueint n = valueint (nd_valuedouble n)"
    using assms(1) n by (simp_all add: item_text_def L)
  have small: "put h 5 bs p = None" "put h 6 bs p = None" "put h 3 bs p = None" "put_step h 1 bs g p = None" "put_step h 2 bs g p = None"
    "put_step h 3 bs g p = None" for bs g using put_empty [OF assms(2)] by (simp_all add: INT_MAX_def)
  have "print_string_ptr_b h input p = None" if "t = print_string_ptr (text_at m v)"
  proof (cases input)
    case None
    then show ?thesis using small by (simp add: print_string_ptr_b_def)
  next
    case (Some s)
    then have "length t = length s + escape_characters s + 2" using that input(2) by (simp add: print_string_ptr_def length_escape)
    then have "ensure h (length s + escape_characters s + 3) p = None" using assms(4) by (intro ensure_empty [OF assms(2)]) simp
    then show ?thesis using Some by (simp add: print_string_ptr_b_def Let_def)
  qed
  moreover have "print_number_b h i x p = None" if "number_buffer i x = Some t" for i x
    using that put_empty [OF assms(2), of "length t + 1"] assms(4) by (simp add: print_number_b_def)
  ultimately have "nd_type n AND 255 \<noteq> cJSON_Array_t \<Longrightarrow> nd_type n AND 255 \<noteq> cJSON_Object_t \<Longrightarrow> print_leaf h m n p = None"
    using ty t int input small(1,2) by (auto simp: print_leaf_def node_tree_def print_number_def)
  moreover have "open_array h p = None" "open_object h p = None"
    using small(4-6) by (auto simp: open_array_def open_object_def Let_def numeral_eq_Suc)
  ultimately show ?thesis
    by (simp add: print_value_b_def L, subst print_run.simps) (auto simp: load_def n andthen_def)
qed

section \<open>Properties\<close>

text \<open>C27: \<open>cJSON_Print\<close> and \<open>cJSON_PrintUnformatted\<close> print an item in memory as the tree it stands for, whatever the
  allocator refuses and however often the buffer has to grow: they return a new block that holds exactly the
  text and its NUL, or NULL and nothing is left allocated. They never write outside of a block or use a freed
  one, with and without a \<open>realloc\<close>. If every request is granted they fail only for a text of \<open>INT_MAX - 1\<close> bytes
  or more.
\<close>
theorem print_correct:
  assumes "item_text m L format t" "allocator_ok s"
  shows "\<exists>r s'. (if format then cJSON_Print_b h m (Some (la L)) s else cJSON_PrintUnformatted_b h m (Some (la L)) s) = Some (r, s') \<and>
    (case r of None \<Rightarrow> blocks s' = blocks s | Some q \<Rightarrow> blocks s q = None \<and> blocks s' = (blocks s)(q \<mapsto> t @ [NUL])) \<and>
    ((\<forall>k n. grants h k n) \<longrightarrow> (r \<noteq> None \<longleftrightarrow> int (length t) + 2 \<le> INT_MAX))"
  using print_item [OF assms, of h] by (cases format) (simp_all add: cJSON_Print_b_def cJSON_PrintUnformatted_b_def)

text \<open>C28: \<open>cJSON_PrintPreallocated\<close> never writes beyond the length it is given, frees and allocates nothing, and succeeds
  exactly when the length is at least that of the text plus 2, one byte more than the text and its NUL take.
\<close>
theorem print_preallocated_bounded:
  assumes "item_text m L format t" "blocks s b = Some blk" "0 \<le> n" "n \<le> int (length blk)" "n \<le> INT_MAX"
  shows "\<exists>ok s' blk'. cJSON_PrintPreallocated h m (Some (la L)) (Some b) n format s = Some (ok, s') \<and>
    blocks s' = (blocks s)(b \<mapsto> blk') \<and> length blk' = length blk \<and> drop (nat n) blk' = drop (nat n) blk \<and>
    (ok \<longleftrightarrow> int (length t) + 2 \<le> n) \<and> (ok \<longrightarrow> take (length t + 1) blk' = t @ [NUL])"
proof -
  let ?F = "\<lparr>fr_hooks = h, fr_others = (blocks s)(b := None), fr_home = b, fr_tail = drop (nat n) blk, fr_limit = nat n,
     fr_noalloc = True, fr_format = format\<rparr>"
  let ?p = "new_buffer s (Some b) (nat n) True format"
  have others: "(blocks s)(b := None, b \<mapsto> x) = (blocks s)(b \<mapsto> x)" for x by simp
  have "at_end ?F 0 [] ?p"
  proof -
    have "owns ?F ?p blk" using assms(2-4) by (simp add: owns_def new_buffer_def fun_upd_idem)
    then show ?thesis using assms(5) unfolding printed_def set_up_def by (auto simp: new_buffer_def)
  qed
  with item_printed [of m L ?F t] assms(1)
  have "outcome ?F (print_value_b h m (Some (la L)) ?p) (wrote ?F 0 [] t) (length t + 2) (length t + 2)" by simp
  then show ?thesis
  proof (cases rule: outcomeE)
    case (ok p1)
    then obtain k where "printed ?F 0 p1 (t @ [NUL]) k" by (auto simp: wrote_def)
    then obtain blk' where "blocks p1 = (blocks s)(b \<mapsto> blk')" "take (length t + 1) blk' = t @ [NUL]"
      "length blk' = length blk" "drop (nat n) blk' = drop (nat n) blk"
      using assms(4) by (auto simp: printed_def owns_def)
    moreover have "cJSON_PrintPreallocated h m (Some (la L)) (Some b) n format s = Some (True, allocator.truncate p1)"
      using ok(1) assms(3) by (simp add: cJSON_PrintPreallocated_def)
    moreover have "int (length t) + 2 \<le> n" using ok(3) assms(3) by simp
    ultimately show ?thesis
      by (intro exI [of _ True] exI [of _ "allocator.truncate p1"] exI [of _ blk']) (simp add: allocator.truncate_def)
  next
    case (fail p1)
    then obtain blk' where "blocks p1 = (blocks s)(b \<mapsto> blk')" "length blk' = length blk" "drop (nat n) blk' = drop (nat n) blk"
      using assms(4) by (auto simp: failed_def)
    moreover have "cJSON_PrintPreallocated h m (Some (la L)) (Some b) n format s = Some (False, allocator.truncate p1)"
      using fail(1) assms(3) by (simp add: cJSON_PrintPreallocated_def)
    moreover have "\<not> int (length t) + 2 \<le> n" using fail(3) assms(3) by (simp add: granting_def)
    ultimately show ?thesis
      by (intro exI [of _ False] exI [of _ "allocator.truncate p1"] exI [of _ blk']) (simp add: allocator.truncate_def)
  qed
qed

text \<open>C29: \<open>cJSON_PrintBuffered\<close> prints as \<open>cJSON_Print\<close> does into a block of any size that starts with the text and its
  NUL. With a \<open>prebuffer\<close> of 0 and hooks without \<open>realloc\<close> it is undefined for every item: the first time the
  buffer grows, \<open>ensure\<close> copies one byte out of the block of no bytes.
\<close>
theorem print_buffered_correct:
  assumes "item_text m L format t" "allocator_ok s" "0 \<le> prebuffer" "prebuffer \<le> INT_MAX"
  shows "(has_reallocate h \<or> 0 < prebuffer \<longrightarrow>
     (\<exists>r s'. cJSON_PrintBuffered h m (Some (la L)) prebuffer format s = Some (r, s') \<and>
       (case r of None \<Rightarrow> blocks s' = blocks s
        | Some q \<Rightarrow> blocks s q = None \<and> (\<exists>rest. blocks s' = (blocks s)(q \<mapsto> t @ NUL # rest))) \<and>
       ((\<forall>k n. grants h k n) \<longrightarrow> (r \<noteq> None \<longleftrightarrow> int (length t) + 2 \<le> INT_MAX)))) \<and>
   (\<not> has_reallocate h \<and> (\<forall>k n. grants h k n) \<and> int (length t) + 2 \<le> INT_MAX \<longrightarrow>
     cJSON_PrintBuffered h m (Some (la L)) 0 format s = None)"
proof (intro conjI impI)
  assume "\<not> has_reallocate h \<and> (\<forall>k n. grants h k n) \<and> int (length t) + 2 \<le> INT_MAX"
  then have h: "\<not> has_reallocate h" "\<forall>k n. grants h k n" "int (length t) + 2 \<le> INT_MAX" by blast+
  let ?s1 = "s\<lparr>requests := Suc (requests s), blocks := (blocks s)(requests s \<mapsto> [])\<rparr>"
  have "allocate h 0 s = (Some (requests s), ?s1)" using h(2) by (simp add: allocate_def Let_def)
  moreover have "empty_buffer h (new_buffer ?s1 (Some (requests s)) 0 False format)"
    using h(1,2) by (simp add: empty_buffer_def new_buffer_def)
  then have "print_value_b h m (Some (la L)) (new_buffer ?s1 (Some (requests s)) 0 False format) = None"
    by (rule print_empty [OF assms(1) _ _ h(3)]) (simp add: new_buffer_def)
  ultimately show "cJSON_PrintBuffered h m (Some (la L)) 0 format s = None" by (simp add: cJSON_PrintBuffered_def)
qed (rule print_buffered_item [OF assms])

section \<open>An example\<close>

text \<open>The array \<open>[true]\<close>, an allocator that grants everything, and a caller's block of 8 bytes.\<close>

definition demo_array :: memory where
  "demo_array = \<lparr>nodes = [0 \<mapsto> zero_node\<lparr>nd_type := cJSON_Array_t, nd_child := Some 1\<rparr>, 1 \<mapsto> zero_node\<lparr>nd_type := cJSON_True_t, nd_prev := Some 1\<rparr>],
     texts = Map.empty, brk = 2\<rparr>"

definition demo_lay :: lay where "demo_lay = Lay 0 None None [Lay 1 None None []]"

definition demo_hooks :: hooks where "demo_hooks = \<lparr>grants = \<lambda>_ _. True, stale = \<lambda>_ _. CHR ''?'', has_reallocate = False\<rparr>"

definition demo_allocator :: allocator where "demo_allocator = \<lparr>blocks = [0 \<mapsto> ''12345678''], requests = 1\<rparr>"

lemma demo_item: "item_text demo_array demo_lay False ''[true]''"
  by (simp add: item_text_def demo_array_def demo_lay_def zero_node_def node_tree_def opt_list_def valueint_def INT_MAX_def INT_MIN_def c_trunc_def)

lemma demo_allocator_ok: "allocator_ok demo_allocator"
  by (simp add: allocator_ok_def demo_allocator_def)

theorem print_correct_witness:
  "\<exists>q s'. cJSON_PrintUnformatted_b demo_hooks demo_array (Some 0) demo_allocator = Some (Some q, s') \<and> blocks s' q = Some (''[true]'' @ [NUL])"
proof -
  have "la demo_lay = 0" "\<forall>k n. grants demo_hooks k n" by (simp_all add: demo_lay_def demo_hooks_def)
  then show ?thesis using print_correct [OF demo_item demo_allocator_ok, of demo_hooks] by (auto simp: INT_MAX_def)
qed

theorem print_preallocated_bounded_witness:
  "\<exists>s' blk. cJSON_PrintPreallocated demo_hooks demo_array (Some 0) (Some 0) 8 False demo_allocator = Some (True, s') \<and>
    blocks s' 0 = Some blk \<and> take 7 blk = ''[true]'' @ [NUL]"
  using print_preallocated_bounded [OF demo_item, of demo_allocator 0 "''12345678''" 8 demo_hooks]
  by (auto simp: demo_allocator_def demo_lay_def INT_MAX_def numeral_eq_Suc)

theorem print_buffered_correct_witness:
  "(\<exists>q s'. cJSON_PrintBuffered demo_hooks demo_array (Some 0) 3 False demo_allocator = Some (Some q, s')) \<and>
   cJSON_PrintBuffered demo_hooks demo_array (Some 0) 0 False demo_allocator = None"
proof -
  have "la demo_lay = 0" "\<forall>k n. grants demo_hooks k n" "\<not> has_reallocate demo_hooks" by (simp_all add: demo_lay_def demo_hooks_def)
  then show ?thesis using print_buffered_correct [OF demo_item demo_allocator_ok, of 3 demo_hooks] by (auto simp: INT_MAX_def)
qed

end
