(* ===== verification/DatabaseRace.thy ===== *)
theory DatabaseRace
  imports DatabaseRefinement
begin

text \<open>
  \<open>insertUniqueRecord\<close> cut at its system calls, for any number of threads of the server on one table.
  The lock is taken with \<open>fcntl\<close>: it belongs to the process, so that a thread is never kept waiting by
  another one and the calls interleave freely. Each thread has opened the file itself, so that its
  position is its own; \<open>lseek\<close> and the read or write behind it are one step.
\<close>

datatype insert_pc =
    At_lock
  | Scanning int nat int
  | Writing int
  | Counting int
  | Returned int

type_synonym inserter = "bytes \<times> (bytes \<Rightarrow> int) \<times> insert_pc"

text \<open>\<open>Scanning recordCount n i\<close>: \<open>n\<close> records are left, the next is record \<open>i\<close>.\<close>

fun insert_step :: "'a os_scheme \<Rightarrow> nat \<Rightarrow> bytes \<Rightarrow> (bytes \<Rightarrow> int) \<Rightarrow> insert_pc \<Rightarrow> bytes \<Rightarrow> (insert_pc \<times> bytes) option" where
  "insert_step s recordSize record mf At_lock c =
     (let recordCount = fst (readCount s (open_file c)) in Some (Scanning recordCount (nat recordCount) 0, c))"
| "insert_step s recordSize record mf (Scanning recordCount (Suc n) i) c =
     (let currentRecord = fst (getRecordUnlocked s (open_file c) recordSize i)
      in Some (if mf currentRecord = 1 then Returned (-1) else Scanning recordCount n (i + 1), c))"
| "insert_step s recordSize record mf (Scanning recordCount 0 i) c = Some (Writing recordCount, c)"
| "insert_step s recordSize record mf (Writing recordCount) c = Some (Counting recordCount,
     fdata (fd_write (take recordSize record) (fd_lseek (recordOffset recordSize recordCount) (open_file c))))"
| "insert_step s recordSize record mf (Counting recordCount) c = Some (Returned 0,
     fdata (fd_write (enc_int (wrap32 (recordCount + 1))) (fd_lseek 0 (open_file c))))"
| "insert_step s recordSize record mf (Returned v) c = None"

inductive race_step :: "'a os_scheme \<Rightarrow> nat \<Rightarrow> bytes \<times> inserter list \<Rightarrow> bytes \<times> inserter list \<Rightarrow> bool"
  for s :: "'a os_scheme" and recordSize :: nat where
  insert: "i < length ts \<Longrightarrow> ts ! i = (record, mf, pc) \<Longrightarrow> insert_step s recordSize record mf pc c = Some (pc', c') \<Longrightarrow>
    race_step s recordSize (c, ts) (c', ts[i := (record, mf, pc')])"

abbreviation race_steps :: "'a os_scheme \<Rightarrow> nat \<Rightarrow> bytes \<times> inserter list \<Rightarrow> bytes \<times> inserter list \<Rightarrow> bool" where
  "race_steps s recordSize \<equiv> (race_step s recordSize)\<^sup>*\<^sup>*"

section \<open>The file while inserts are under way\<close>

text \<open>The count on disk may be behind the records that are there.\<close>

definition stored :: "nat \<Rightarrow> bytes list \<Rightarrow> bytes \<Rightarrow> bytes" where
  "stored k recs t = enc_int (int k) @ concat recs @ t"

lemma stored_image: "k \<le> length recs \<Longrightarrow> stored k recs t = db_image (take k recs) (concat (drop k recs) @ t)"
  by (simp add: stored_def db_image_def flip: append_assoc concat_append)

lemma fits_take:
  assumes "db_fits sz recs"
  shows "db_fits sz (take k recs)"
proof -
  have "length (take k recs) * sz \<le> length recs * sz" by (intro mult_le_mono1) simp
  also have "\<dots> < 2 ^ 31" using assms by (simp add: db_fits_def)
  finally show ?thesis
    using assms all_len_mono [of sz recs "take k recs"] set_take_subset [of k recs] by (simp add: db_fits_def)
qed

lemma stored_rows:
  assumes "db_fits sz recs" "k \<le> length recs"
  shows "db_inv sz (stored k recs t)" "db_rows sz (stored k recs t) = take k recs"
  using db_inv_image [OF fits_take [OF assms(1)]] assms(2) by (simp_all add: stored_image)

lemma stored_count:
  "db_fits sz recs \<Longrightarrow> k \<le> length recs \<Longrightarrow> fst (readCount s (open_file (stored k recs t))) = int k"
  using readCount_image [OF fits_take, of sz recs s k] by (simp add: stored_image min_absorb2)

lemma stored_write:
  assumes "db_fits sz recs" "i \<le> length recs" "length r = sz"
  shows "fdata (fd_write (take sz r) (fd_lseek (recordOffset sz (int i)) (open_file (stored k recs t)))) =
    (if i < length recs then stored k (recs[i := r]) t else stored k (recs @ [r]) (drop sz t))"
proof -
  have o: "recordOffset sz (int i) = int (4 + i * sz)" by (rule db_fits_offset [OF assms(1,2)])
  have "fdata (fd_write (take sz r) (fd_lseek (recordOffset sz (int i)) (open_file (stored k recs t)))) =
      overwrite (4 + i * sz) r (stored k recs t)"
    using assms(3) by (simp add: o fdata_write fd_lseek_def open_file_def nat_add_distrib flip: of_nat_mult)
  also have "\<dots> = enc_int (int k) @ overwrite (i * sz) r (concat recs @ t)"
    by (simp add: stored_def overwrite_prefix)
  finally show ?thesis
    using chunk_set [of sz recs i r t] chunk_append [of sz recs r t] assms db_fitsD(2) [OF assms(1)] by (auto simp: stored_def)
qed

lemma stored_bump:
  assumes "k < 2 ^ 31 - 1"
  shows "fdata (fd_write (enc_int (wrap32 (int k + 1))) (fd_lseek 0 (open_file (stored j recs t)))) = stored (Suc k) recs t"
proof -
  have "wrap32 (int k + 1) = int (Suc k)" using assms by (simp add: wrap32_id int_range_def)
  then show ?thesis by (simp add: fdata_write fd_lseek_def open_file_def stored_def overwrite_front)
qed

section \<open>What no interleaving breaks\<close>

fun before_write :: "insert_pc \<Rightarrow> bool" where
  "before_write (Counting _) = False"
| "before_write (Returned _) = False"
| "before_write _ = True"

fun pc_ok :: "nat \<Rightarrow> nat \<Rightarrow> insert_pc \<Rightarrow> bool" where
  "pc_ok n m At_lock = True"
| "pc_ok n m (Scanning k l i) = (\<exists>k'. k = int k' \<and> n \<le> k' \<and> k' \<le> m)"
| "pc_ok n m (Writing k) = (\<exists>k'. k = int k' \<and> n \<le> k' \<and> k' \<le> m)"
| "pc_ok n m (Counting k) = (\<exists>k'. k = int k' \<and> n \<le> k' \<and> k' < m)"
| "pc_ok n m (Returned v) = True"

definition race_at :: "nat \<Rightarrow> bytes list \<Rightarrow> bytes set \<Rightarrow> nat \<Rightarrow> nat \<Rightarrow> bytes list \<Rightarrow> inserter list \<Rightarrow> bool" where
  "race_at sz rows R room k recs ts \<longleftrightarrow> all_len sz recs \<and> length rows \<le> k \<and> k \<le> length recs \<and>
     take (length rows) recs = rows \<and> set (drop (length rows) recs) \<subseteq> R \<and>
     length recs + length (filter (\<lambda>(r, mf, pc). before_write pc) ts) \<le> room \<and>
     (\<forall>(r, mf, pc) \<in> set ts. length r = sz \<and> r \<in> R \<and> pc_ok (length rows) (length recs) pc)"

definition race_inv :: "nat \<Rightarrow> bytes list \<Rightarrow> bytes set \<Rightarrow> nat \<Rightarrow> bytes \<times> inserter list \<Rightarrow> bool" where
  "race_inv sz rows R room = (\<lambda>(c, ts). \<exists>k recs t. c = stored k recs t \<and> race_at sz rows R room k recs ts)"

lemma pc_ok_mono: "pc_ok n m pc \<Longrightarrow> m \<le> m' \<Longrightarrow> pc_ok n m' pc"
  by (cases pc) auto

lemma filter_update_same:
  "i < length ts \<Longrightarrow> P (ts ! i) = P x \<Longrightarrow> length (filter P (ts[i := x])) = length (filter P ts)"
  by (induction ts arbitrary: i) (auto split: nat.splits)

lemma filter_update_off:
  "i < length ts \<Longrightarrow> P (ts ! i) \<Longrightarrow> \<not> P x \<Longrightarrow> Suc (length (filter P (ts[i := x]))) = length (filter P ts)"
  by (induction ts arbitrary: i) (auto split: nat.splits)

lemma race_at_fits: "race_at sz rows R room k recs ts \<Longrightarrow> 0 < sz \<Longrightarrow> room * sz < 2 ^ 31 \<Longrightarrow> db_fits sz recs"
  using le_less_trans [OF mult_le_mono1 [of "length recs" room sz], of "2 ^ 31"] by (simp add: race_at_def db_fits_def)

lemma race_at_thread:
  assumes "race_at sz rows R room k recs ts" "i < length ts" "ts ! i = (r, mf, pc)"
  shows "length r = sz" "r \<in> R" "pc_ok (length rows) (length recs) pc"
  using assms nth_mem [OF assms(2)] by (auto simp: race_at_def)

lemma race_at_goto:
  assumes "race_at sz rows R room k recs ts" "i < length ts" "ts ! i = (r, mf, pc)"
    "before_write pc' \<longrightarrow> before_write pc" "pc_ok (length rows) (length recs) pc'"
  shows "race_at sz rows R room k recs (ts[i := (r, mf, pc')])"
proof -
  let ?f = "\<lambda>(r, mf, pc). before_write pc" and ?x = "(r, mf, pc')"
  have "length (filter ?f (ts[i := ?x])) \<le> length (filter ?f ts)"
    using filter_update_same [OF assms(2), of ?f ?x] filter_update_off [OF assms(2), of ?f ?x] assms(3,4)
    by (cases "before_write pc"; cases "before_write pc'") auto
  moreover have "\<forall>(r, mf, pc) \<in> set (ts[i := ?x]). length r = sz \<and> r \<in> R \<and> pc_ok (length rows) (length recs) pc"
    using assms(1,5) race_at_thread [OF assms(1-3)] set_update_subset_insert [of ts i ?x] by (auto simp: race_at_def)
  ultimately show ?thesis using assms(1) by (simp add: race_at_def)
qed

lemma race_at_write:
  assumes "race_at sz rows R room k recs ts" "i < length ts" "ts ! i = (r, mf, Writing (int j))"
  shows "race_at sz rows R room k (if j < length recs then recs[j := r] else recs @ [r]) (ts[i := (r, mf, Counting (int j))])"
proof -
  let ?recs = "if j < length recs then recs[j := r] else recs @ [r]"
  let ?f = "\<lambda>(r, mf, pc). before_write pc" and ?x = "(r, mf, Counting (int j))"
  note me = race_at_thread [OF assms]
  have at: "all_len sz recs" "length rows \<le> k" "k \<le> length recs" "take (length rows) recs = rows"
    "set (drop (length rows) recs) \<subseteq> R" "length recs + length (filter ?f ts) \<le> room"
    "\<forall>(r, mf, pc) \<in> set ts. length r = sz \<and> r \<in> R \<and> pc_ok (length rows) (length recs) pc"
    using assms(1) unfolding race_at_def by blast+
  have j: "length rows \<le> j" "j \<le> length recs" using me(3) by auto
  have len: "length recs \<le> length ?recs" "length ?recs \<le> Suc (length recs)" "j < length ?recs" using j by auto
  have "all_len sz ?recs" "take (length rows) ?recs = rows" using at(1-4) me(1) j by (auto simp: take_update_cancel)
  moreover have "set (drop (length rows) ?recs) \<subseteq> R"
    using at(2,3,5) me(2) j set_update_subset_insert [of "drop (length rows) recs" "j - length rows" r] by (auto simp: drop_update_swap)
  moreover have "length ?recs + length (filter ?f (ts[i := ?x])) \<le> room"
    using filter_update_off [OF assms(2), of ?f ?x] assms(3) at(6) len(2) by auto
  moreover have "\<forall>(r, mf, pc) \<in> set (ts[i := ?x]). length r = sz \<and> r \<in> R \<and> pc_ok (length rows) (length ?recs) pc"
    using at(7) me(1,2) j(1) len(1,3) pc_ok_mono set_update_subset_insert [of ts i ?x] by fastforce
  ultimately show ?thesis using at(2,3) len(1) by (simp add: race_at_def)
qed

lemma race_at_count:
  "race_at sz rows R room k recs ts \<Longrightarrow> length rows \<le> j \<Longrightarrow> j < length recs \<Longrightarrow> race_at sz rows R room (Suc j) recs ts"
  by (simp add: race_at_def)

lemma race_inv_step:
  assumes "race_step s sz (c, ts) (c', ts')" "race_inv sz rows R room (c, ts)" "0 < sz" "room * sz < 2 ^ 31"
  shows "race_inv sz rows R room (c', ts')"
  using assms(1)
proof cases
  case (insert i r mf pc pc')
  obtain k recs t where c: "c = stored k recs t" and at: "race_at sz rows R room k recs ts"
    using assms(2) by (auto simp: race_inv_def)
  note me = race_at_thread [OF at insert(2,3)]
  have fits: "db_fits sz recs" by (rule race_at_fits [OF at assms(3,4)])
  have k: "length rows \<le> k" "k \<le> length recs" using at by (simp_all add: race_at_def)
  have unchanged: ?thesis if "c' = c" "before_write pc' \<longrightarrow> before_write pc" "pc_ok (length rows) (length recs) pc'"
    using race_at_goto [OF at insert(2,3) that(2,3)] that(1) insert(1) c by (auto simp: race_inv_def)
  show ?thesis
  proof (cases pc)
    case At_lock
    then have "c' = c" "pc' = Scanning (int k) k 0" using insert(4) c stored_count [OF fits k(2)] by (auto simp: Let_def)
    then show ?thesis using k At_lock by (intro unchanged) auto
  next
    case (Scanning k0 n j)
    then show ?thesis using insert(4) me(3) by (intro unchanged) (cases n; auto simp: Let_def split: if_splits)+
  next
    case (Writing k0)
    then obtain j where j: "k0 = int j" "j \<le> length recs" using me(3) by auto
    have "c' = stored k (if j < length recs then recs[j := r] else recs @ [r]) (if j < length recs then t else drop sz t)"
      "pc' = Counting (int j)"
      using insert(4) Writing j(1) stored_write [OF fits j(2) me(1), of k t] c by auto
    then show ?thesis using race_at_write [OF at insert(2), of r mf j] insert(1,3) Writing j(1) unfolding race_inv_def by blast
  next
    case (Counting k0)
    then obtain j where j: "k0 = int j" "length rows \<le> j" "j < length recs" using me(3) by auto
    have "c' = stored (Suc j) recs t" "pc' = Returned 0"
      using insert(4) Counting j stored_bump [of j k recs t] db_fits_count [OF fits] c by auto
    then show ?thesis
      using race_at_count [OF race_at_goto [OF at insert(2,3), of "Returned 0"] j(2,3)] insert(1) unfolding race_inv_def by auto
  next
    case (Returned v)
    then show ?thesis using insert(4) by simp
  qed
qed

text \<open>C23: However the inserts of any number of threads interleave, the file stays well formed, the rows that
  were there before them stay where they were, and every row behind those is one of the inserted records.
\<close>
theorem race_keeps_rows:
  assumes "race_steps s sz (db_image rows t, ts) (c', ts')" "db_fits sz (rows @ map fst ts)"
    "\<forall>(r, mf, pc) \<in> set ts. pc = At_lock"
  shows "db_inv sz c' \<and> (\<exists>ys. db_rows sz c' = rows @ ys \<and> set ys \<subseteq> fst ` set ts \<and> length ys \<le> length ts)"
proof -
  let ?room = "length rows + length ts" and ?R = "fst ` set ts"
  have sz: "0 < sz" "?room * sz < 2 ^ 31" "all_len sz rows" "all_len sz (map fst ts)" using assms(2) by (simp_all add: db_fits_def)
  have "race_inv sz rows ?R ?room (db_image rows t, ts)"
  proof -
    have "\<forall>(r, mf, pc) \<in> set ts. length r = sz \<and> r \<in> ?R \<and> pc_ok (length rows) (length rows) pc"
      using assms(3) sz(4) by (force simp: all_len_def)
    then have "race_at sz rows ?R ?room (length rows) rows ts" using sz(3) by (simp add: race_at_def)
    then show ?thesis by (auto simp: race_inv_def stored_def db_image_def)
  qed
  with assms(1) have "race_inv sz rows ?R ?room (c', ts')"
  proof (induction rule: rtranclp_induct2)
    case (step c1 ts1 c2 ts2)
    then show ?case using race_inv_step sz(1,2) by blast
  qed
  then obtain k recs t' where r: "c' = stored k recs t'" "all_len sz recs" "length rows \<le> k" "k \<le> length recs"
    "take (length rows) recs = rows" "set (drop (length rows) recs) \<subseteq> ?R" "length recs \<le> ?room"
    by (auto simp: race_inv_def race_at_def)
  have "length recs * sz \<le> ?room * sz" using r(7) by (rule mult_le_mono1)
  then have "length recs * sz < 2 ^ 31" using sz(2) by (rule le_less_trans)
  then have fits: "db_fits sz recs" using r(2) sz(1) by (simp add: db_fits_def)
  have "take k recs = rows @ take (k - length rows) (drop (length rows) recs)"
    using r(3,5) by (metis le_add_diff_inverse take_add)
  then show ?thesis
    using stored_rows [OF fits r(4), of t'] r(1,6,7) set_take_subset [of "k - length rows" "drop (length rows) recs"] r(3,4)
    by (intro conjI exI [of _ "take (k - length rows) (drop (length rows) recs)"]) auto
qed

section \<open>One thread\<close>

abbreviation solo :: "'a os_scheme \<Rightarrow> nat \<Rightarrow> bytes \<Rightarrow> (bytes \<Rightarrow> int) \<Rightarrow> insert_pc \<times> bytes \<Rightarrow> insert_pc \<times> bytes \<Rightarrow> bool" where
  "solo s sz r mf \<equiv> (\<lambda>(pc, c) x. insert_step s sz r mf pc c = Some x)\<^sup>*\<^sup>*"

lemma solo_step:
  "insert_step s sz r mf pc c = Some y \<Longrightarrow> solo s sz r mf y x \<Longrightarrow> solo s sz r mf (pc, c) x"
  by (rule converse_rtranclp_into_rtranclp) simp_all

lemma solo_race:
  assumes "solo s sz r mf (pc, c) (pc', c')" "i < length ts" "ts ! i = (r, mf, pc)"
  shows "race_steps s sz (c, ts) (c', ts[i := (r, mf, pc')])"
  using assms(1)
proof (induction rule: rtranclp_induct2)
  case refl
  then show ?case using assms(2,3) list_update_id [of ts i] by simp
next
  case (step pc1 c1 pc2 c2)
  have "race_step s sz (c1, ts[i := (r, mf, pc1)]) (c2, ts[i := (r, mf, pc1), i := (r, mf, pc2)])"
    using step(2) assms(2) by (intro race_step.insert) auto
  then show ?case using step(3) by (simp add: rtranclp.rtrancl_into_rtrancl)
qed

lemma solo_scan:
  assumes "db_fits sz rows" "i + n = length rows"
  shows "solo s sz r mf (Scanning k n (int i), db_image rows t)
    (if \<exists>x \<in> set (drop i rows). mf x = 1 then Returned (-1) else Writing k, db_image rows t)"
  using assms(2)
proof (induction n arbitrary: i)
  case 0
  then show ?case by (intro solo_step) auto
next
  case (Suc n)
  have i: "i < length rows" using Suc.prems by simp
  have rec: "fst (getRecordUnlocked s (open_file (db_image rows t)) sz (int i)) = rows ! i"
    using getRecordUnlocked_image(1) [OF assms(1) fdata_simps(1) i] .
  have d: "drop i rows = rows ! i # drop (Suc i) rows" using i by (simp add: Cons_nth_drop_Suc)
  show ?case
  proof (cases "mf (rows ! i) = 1")
    case True
    then show ?thesis using rec d by (intro solo_step) auto
  next
    case False
    have "solo s sz r mf (Scanning k n (int (Suc i)), db_image rows t)
      (if \<exists>x \<in> set (drop (Suc i) rows). mf x = 1 then Returned (-1) else Writing k, db_image rows t)"
      using Suc.prems by (intro Suc.IH) simp
    then show ?thesis using rec d False by (intro solo_step) (auto simp: add.commute)
  qed
qed

lemma solo_search:
  assumes "db_fits sz rows"
  shows "solo s sz r mf (At_lock, db_image rows t)
    (if \<exists>x \<in> set rows. mf x = 1 then Returned (-1) else Writing (int (length rows)), db_image rows t)"
  using solo_scan [OF assms, of 0 "length rows" s r mf "int (length rows)" t] readCount_image [OF assms, of s t]
  by (intro solo_step) auto

lemma solo_append:
  assumes "db_fits sz recs" "i \<le> length recs" "length r = sz" "i < 2 ^ 31 - 1"
  shows "solo s sz r mf (Writing (int i), stored k recs t) (Returned 0,
    stored (Suc i) (if i < length recs then recs[i := r] else recs @ [r]) (if i < length recs then t else drop sz t))"
proof -
  let ?t = "if i < length recs then t else drop sz t"
  have w: "insert_step s sz r mf (Writing (int i)) (stored k recs t) =
      Some (Counting (int i), stored k (if i < length recs then recs[i := r] else recs @ [r]) ?t)"
    using stored_write [OF assms(1-3), of k t] by simp
  have "insert_step s sz r mf (Counting (int i)) (stored k (if i < length recs then recs[i := r] else recs @ [r]) ?t) =
      Some (Returned 0, stored (Suc i) (if i < length recs then recs[i := r] else recs @ [r]) ?t)"
    using stored_bump [OF assms(4)] by simp
  then show ?thesis using solo_step [OF w solo_step] by blast
qed

lemma stored_full: "db_image rows t = stored (length rows) rows t"
  by (simp add: stored_def db_image_def)

text \<open>A thread that nobody interrupts does what \<open>insertUniqueRecord\<close> does: the same result, the same file.\<close>

lemma race_sequential:
  assumes "table_ok fn sz s" "fcntl_ok s" "db_fits sz (table_rows fn sz s @ [r])" "files s (db_path fn) = Some c"
  shows "\<exists>v s' c'. insertUniqueRecord fn r sz mf s = (v, s') \<and> files s' (db_path fn) = Some c' \<and>
    race_steps s sz (c, [(r, mf, At_lock)]) (c', [(r, mf, Returned v)])"
proof -
  let ?rows = "table_rows fn sz s"
  obtain t fd fd' where
    t: "files s (db_path fn) = Some (db_image ?rows t)" and fits: "db_fits sz ?rows" and
    rc: "readCount s (open_file (db_image ?rows t)) = (int (length ?rows), fd)" and
    "fdata fd = db_image ?rows t" and "fpos fd = 4" and
    sc: "scanRecords s sz mf (length ?rows) 0 fd = (map_option (\<lambda>k. (int k, ?rows ! k))
          (find_index (\<lambda>r. mf r = 1) ?rows), fd')" and
    fd': "fdata fd' = db_image ?rows t" by (rule table_scan [OF assms(1), where mf = mf])
  have c: "c = db_image ?rows t" using t assms(4) by simp
  have one: "race_steps s sz (c, [(r, mf, At_lock)]) (c', [(r, mf, pc')])" if "solo s sz r mf (At_lock, c) (pc', c')" for pc' c'
    using solo_race [OF that, of 0 "[(r, mf, At_lock)]"] by simp
  show ?thesis
  proof (cases "\<exists>x \<in> set ?rows. mf x = 1")
    case True
    then have "insertUniqueRecord fn r sz mf s = (-1, s)" using insertUniqueRecord_spec(1) [OF assms(1,2)] by blast
    then show ?thesis using one [of "Returned (-1)" c] solo_search [OF fits, of s r mf t] True assms(4) c by auto
  next
    case False
    then have "find_index (\<lambda>r. mf r = 1) ?rows = None" by simp
    with sc have sc': "scanRecords s sz mf (length ?rows) 0 fd = (None, fd')" by simp
    have ins: "insertUniqueRecord fn r sz mf s = (0, put_file (db_path fn) (db_image (?rows @ [r]) (drop sz t)) s)"
      using assms(2) appendRecord_image [OF assms(3) fd']
      by (simp add: insertUniqueRecord_def fcntl_ok_def t rc sc' Let_def)
    have "length ?rows < 2 ^ 31 - 1" using db_fits_count [OF assms(3)] by simp
    then have "solo s sz r mf (Writing (int (length ?rows)), c) (Returned 0, db_image (?rows @ [r]) (drop sz t))"
      using solo_append [OF fits, of "length ?rows" r s mf "length ?rows" t] db_fitsD(2) [OF assms(3)] by (simp add: c stored_full)
    with solo_search [OF fits, of s r mf t] False
    have "solo s sz r mf (At_lock, c) (Returned 0, db_image (?rows @ [r]) (drop sz t))" by (auto simp: c intro: rtranclp_trans)
    then show ?thesis using one ins by (intro exI conjI) auto
  qed
qed

section \<open>Two registrations at the same time\<close>

lemma lost_insert:
  assumes "db_fits sz (rows @ [r1, r2])" "\<forall>x \<in> set rows. mf1 x \<noteq> 1 \<and> mf2 x \<noteq> 1"
  shows "\<exists>c'. race_steps s sz (db_image rows t, [(r1, mf1, At_lock), (r2, mf2, At_lock)])
      (c', [(r1, mf1, Returned 0), (r2, mf2, Returned 0)]) \<and> db_inv sz c' \<and> db_rows sz c' = rows @ [r2]"
proof -
  let ?n = "length rows" and ?c0 = "db_image rows t" and ?c1 = "db_image (rows @ [r1]) (drop sz t)" and ?c2 = "db_image (rows @ [r2]) (drop sz t)"
  have fits: "db_fits sz rows" "db_fits sz (rows @ [r1])" "db_fits sz (rows @ [r2])" "length r1 = sz" "length r2 = sz"
    using assms(1) by (auto simp: db_fits_def)
  have n: "?n < 2 ^ 31 - 1" using db_fits_count [OF fits(2)] by simp
  have search: "solo s sz r mf (At_lock, ?c0) (Writing (int ?n), ?c0)" if "mf = mf1 \<or> mf = mf2" for r mf
    using solo_search [OF fits(1), of s r mf t] assms(2) that by auto
  have first: "solo s sz r1 mf1 (Writing (int ?n), ?c0) (Returned 0, ?c1)"
    using solo_append [OF fits(1) _ fits(4) n, of s mf1 ?n t] by (simp add: stored_full)
  have second: "solo s sz r2 mf2 (Writing (int ?n), ?c1) (Returned 0, ?c2)"
    using solo_append [OF fits(2) _ fits(5) n, of s mf2 "Suc ?n" "drop sz t"] by (simp add: stored_full)
  have "race_steps s sz (?c0, [(r1, mf1, At_lock), (r2, mf2, At_lock)]) (?c0, [(r1, mf1, Writing (int ?n)), (r2, mf2, At_lock)])"
    using solo_race [OF search [of mf1 r1], of 0 "[(r1, mf1, At_lock), (r2, mf2, At_lock)]"] by simp
  also have "race_steps s sz \<dots> (?c0, [(r1, mf1, Writing (int ?n)), (r2, mf2, Writing (int ?n))])"
    using solo_race [OF search [of mf2 r2], of 1 "[(r1, mf1, Writing (int ?n)), (r2, mf2, At_lock)]"] by simp
  also have "race_steps s sz \<dots> (?c1, [(r1, mf1, Returned 0), (r2, mf2, Writing (int ?n))])"
    using solo_race [OF first, of 0 "[(r1, mf1, Writing (int ?n)), (r2, mf2, Writing (int ?n))]"] by simp
  also have "race_steps s sz \<dots> (?c2, [(r1, mf1, Returned 0), (r2, mf2, Returned 0)])"
    using solo_race [OF second, of 1 "[(r1, mf1, Returned 0), (r2, mf2, Writing (int ?n))]"] by simp
  finally show ?thesis using db_inv_image [OF fits(3), of "drop sz t"] by blast
qed

text \<open>C22: Two threads that insert at the same time can both return 0, whatever table they insert into, also with
  the same key: the second record takes the place of the first, which is lost.
\<close>
theorem race_loses_record:
  assumes "db_fits sz (rows @ [r1, r2])" "\<forall>x \<in> set rows. mf1 x \<noteq> 1 \<and> mf2 x \<noteq> 1"
  shows "\<exists>c'. race_steps s sz (db_image rows t, [(r1, mf1, At_lock), (r2, mf2, At_lock)])
      (c', [(r1, mf1, Returned 0), (r2, mf2, Returned 0)]) \<and> db_inv sz c' \<and> db_rows sz c' = rows @ [r2]"
  by (rule lost_insert [OF assms])

definition demo_match :: "bytes \<Rightarrow> bytes \<Rightarrow> int" where
  "demo_match key record = (if record = key then 1 else 0)"

abbreviation demo_inserts :: "insert_pc \<Rightarrow> inserter list" where
  "demo_inserts pc \<equiv> [(''def'', demo_match ''def'', pc), (''ghi'', demo_match ''ghi'', pc)]"

lemma demo_inserts_fit: "db_fits 3 ([''abc''] @ [''def'', ''ghi''])" "\<forall>x \<in> set [''abc'']. demo_match ''def'' x \<noteq> 1 \<and> demo_match ''ghi'' x \<noteq> 1"
  by (simp_all add: db_fits_def demo_match_def)

theorem race_loses_record_witness:
  "\<exists>c'. race_steps (table_at ''t'' []) 3 (db_image [''abc''] [], demo_inserts At_lock) (c', demo_inserts (Returned 0)) \<and>
    db_rows 3 c' = [''abc'', ''ghi'']"
  using race_loses_record [OF demo_inserts_fit, of "table_at ''t'' []" "[]"] by auto

theorem race_keeps_rows_witness:
  "\<exists>c' ys. race_steps (table_at ''t'' []) 3 (db_image [''abc''] [], demo_inserts At_lock) (c', demo_inserts (Returned 0)) \<and>
    db_inv 3 c' \<and> db_rows 3 c' = [''abc''] @ ys \<and> set ys \<subseteq> {''def'', ''ghi''}"
proof -
  obtain c' where run: "race_steps (table_at ''t'' []) 3 (db_image [''abc''] [], demo_inserts At_lock) (c', demo_inserts (Returned 0))"
    using lost_insert [OF demo_inserts_fit, of "table_at ''t'' []" "[]"] by blast
  then show ?thesis using race_keeps_rows [OF run] demo_inserts_fit(1) by auto
qed

end
