(* ===== verification/Spec2Isabelle.thy ===== *)
theory Spec2Isabelle
  imports QueryDatabase FileTransfer Elo CJsonRoundtrip Seccomp StartUp Download LoginRace JobQueue CJsonCopy CJsonBuffer DatabaseRace
begin

text \<open>
  A competitive-programming platform in C: a server that keeps users, problems and a leaderboard in
  flat files, judges submitted solutions in a sandbox and lets two users duel over a problem; a client
  with text menus; and JSON messages and raw file contents on one TCP stream between them.

  \<^bold>\<open>The program and its parts\<close>

  \<^item> \<open>Server/server.c\<close>. \<open>main\<close> accepts connections and starts \<open>handleClient\<close> for each, a thread that reads
    a JSON request, dispatches on its \<open>operation\<close> and answers. The threads share the array of active
    users, the array of pending challenges and the tables. Two matched challenges start the thread
    \<open>startDuel\<close>, which waits with \<open>select\<close> on both players' sockets while their connection threads stand
    still. \<open>submitProblem\<close> judges a solution, at most \<open>MAX_JOBS\<close> at a time.
  \<^item> \<open>Server/queryDatabase.c\<close> over \<open>Server/genericDatabase.c\<close>: the tables as files of a 4-byte count and
    fixed-size records.
  \<^item> \<open>Utility/fileTransfer.c\<close>: files over sockets, output of a child over a pipe, comparison of outputs.
  \<^item> \<open>Utility/cJSON.c\<close>, \<open>Utility/jsonUtility.c\<close>: the messages. \<open>Utility/elo.c\<close>: the ratings.
    \<open>Utility/seccomp-bpf.h\<close>: the sandbox. \<open>Utility/codes.h\<close>, \<open>Utility/structs.h\<close>: codes and records.
  \<^item> \<open>Client/client.c\<close>: the menus, one request at a time, and the duel menu.

  \<^bold>\<open>Which theory models what\<close>

  \<^item> \<open>Prelude\<close>: bytes, C strings, little-endian integers, two's complement wrap-around, decimal printing,
    shared list lemmas, the collections of simplification rules. \<open>Posix\<close>: files, positions, reads and
    writes, sockets. \<open>Codes\<close>, \<open>Structs\<close>: the macros of \<open>codes.h\<close> and the records of \<open>structs.h\<close> with their
    x86-64 disk images and the round trips between the two.
  \<^item> \<open>GenericDatabase\<close>: one definition per function of \<open>genericDatabase.c\<close> on the bytes of a file.
    \<open>DatabaseRefinement\<close> abstracts a file to the list of its rows and proves that each function
    implements an operation on lists; \<open>DatabaseSort\<close> does the same for the sort on disk. \<open>DatabaseRace\<close> cuts
    \<open>insertUniqueRecord\<close> at its system calls and interleaves any number of threads. \<open>Tables\<close> holds
    the interfaces (\<open>keyed_table\<close> and what extends it) that the query layer offers its clients, and
    \<open>QueryDatabase\<close> the functions of \<open>queryDatabase.c\<close>, which interpret them.
  \<^item> \<open>FileTransfer\<close>: \<open>fileTransfer.c\<close>; a socket is a list of read events, so every way in which TCP may cut
    a stream is covered, and an output stream is a list of write capacities, so short writes are covered.
  \<^item> \<open>Floating\<close>, \<open>Elo\<close>: IEEE arithmetic as exact arithmetic followed by rounding, the Elo formulas and
    \<open>updateDuelElos\<close>.
  \<^item> \<open>NumberText\<close>: \<open>strtod\<close> and the \<open>%g\<close> of \<open>sprintf\<close> on exact arithmetic, and which digits give a number back.
  \<^item> \<open>CJson\<close>, \<open>CJsonRoundtrip\<close>: JSON trees, the parser and the printer, and that parsing inverts printing.
    \<open>CJsonMinify\<close>: formatted printing and \<open>cJSON_Minify\<close>, which undoes it.
  \<^item> \<open>CJsonNodes\<close>: the linked nodes behind the trees, with one definition per function of \<open>cJSON.c\<close> that works
    on them. \<open>CJsonLists\<close> abstracts the children of a node to the list of their addresses, \<open>CJsonTrees\<close> an
    item to where it lies and to its tree; \<open>CJsonItems\<close> proves that the functions on nodes are the functions
    on trees that the server and the client are modelled with, \<open>CJsonCopy\<close> that deleting frees an item exactly
    and that a duplicate is a copy.
  \<^item> \<open>CJsonPrint\<close>: the printer on nodes, with the buffer that grows or is the caller's and an allocator that may
    refuse. \<open>CJsonBuffer\<close> proves that it writes the text of the tree and stays inside its block.
  \<^item> \<open>Seccomp\<close>, \<open>Judge\<close>, \<open>JobQueue\<close>: the BPF filter and the kernel's reading of it, \<open>submitProblem\<close> as one
    step, and \<open>submitProblem\<close> cut at its system calls with any number of submissions interleaved under
    the semaphore.
  \<^item> \<open>Registry\<close>, \<open>ServerState\<close>: an array of pointers with swap-removal as a locale, and the two arrays of the
    server that interpret it, the heap of \<open>User\<close>s, \<open>processDuelRequest\<close>, \<open>serverInit\<close>, \<open>accept_user\<close>.
  \<^item> \<open>Handlers\<close>: \<open>handleClient\<close>, one definition per operation and \<open>serve_request\<close> for a round of its loop.
    \<open>Sessions\<close>, \<open>Frames\<close>, \<open>Memory\<close>, \<open>Requests\<close>, \<open>Progress\<close>: the invariants each operation keeps, those of the shared memory
    whatever the files hold and those of the tables beside them, what it leaves alone, and that a request that fits (its strings,
    its end, its page number) has defined behaviour. \<open>Services\<close>: what the requests
    achieve. \<open>Demo\<close>: a family of concrete servers for the witnesses.
  \<^item> \<open>LoginRace\<close>: the login at the granularity of its locked sections, any number interleaved.
  \<^item> \<open>Duels\<close>, \<open>DuelLive\<close>, \<open>DuelEnds\<close>, \<open>DuelFaults\<close>: the duel thread with the results of \<open>select\<close> as input; its
    safety, its termination, how it ends, and two behaviours its users would not expect.
  \<^item> \<open>System\<close>, \<open>World\<close>: all connections and duels interleaved on the shared state, the logins cut at their locks and the
    files changing at any time. \<open>StartUp\<close>: \<open>main\<close>, the state its set-up leaves, and its loop beside the other threads.
  \<^item> \<open>Client\<close>, \<open>ClientLoop\<close>, \<open>ClientSafety\<close>: the operations of the client, its loops, its menu machine.
  \<^item> \<open>EndToEnd\<close>, \<open>Upload\<close>, \<open>Download\<close>: client and server together, for the login and for problems with
    their files.

  \<^bold>\<open>State and operations\<close>

  The record \<open>server\<close> holds what \<open>server.c\<close> keeps in globals and on disk: the arrays with their counters,
  the map from addresses to \<open>User\<close>s (a freed one is absent), the files, and the sockets. The record
  \<open>conn\<close> holds the locals of one \<open>handleClient\<close>, \<open>arena\<close> those of one \<open>startDuel\<close>, and \<open>client\<close> those of the
  client's \<open>main\<close>. An operation takes the state and returns it updated. The result is \<open>None\<close> exactly where C
  has no defined behaviour: a freed \<open>User\<close> followed, an array overflowed or read past its end, \<open>FD_SET\<close> on a
  negative descriptor, an uninitialised integer used. Error codes of the source are the source's
  integers. Fresh or stale memory is the unknown byte sequence \<open>junk\<close>. Signed \<open>int\<close> arithmetic is written
  with \<open>wrap32\<close>; sizes and offsets are bounded by hypotheses where the code depends on it.

  \<^bold>\<open>Atomicity\<close>

  A database call is one atomic step: its body runs under the file's lock. That lock is taken with \<open>fcntl\<close>,
  which excludes other processes; that it also keeps the server's own threads apart is an assumption of
  the model that the code relies on and POSIX does not grant. What inserts can then do to each other is in
  \<open>DatabaseRace\<close>. \<open>serve_request\<close> takes a request as one
  step. In \<open>World\<close> a login is several steps, those of \<open>LoginRace\<close>: two of the same name can pass the search for a session both before
  one registers. Runs in which that happens are runs of \<open>World\<close> (\<open>race_in_world\<close>) with the outcome of \<open>login_race_use_after_free\<close>; the
  invariant of \<open>World\<close> is that of the runs without (\<open>crossing\<close>), and of all runs what \<open>login_race_invariant\<close> says of the array. \<open>World\<close> also splits the loop at its check of \<open>duelRequest\<close>, because a
  duel can start behind it; every other request and every round of a duel is one step there. Nothing in \<open>World\<close> relies on the content of the
  files, which may change between any two steps. \<open>JobQueue\<close> splits the judge at its
  system calls, and \<open>DatabaseRace\<close> the insertion of a record. Each finer model is proved to agree with the coarse one when nothing interferes.

  \<^bold>\<open>Groups of lemmas\<close>

  Round trips: disk images, JSON, file transfer, uploads and downloads. Refinement: database functions
  to list operations, the query layer to maps, challenges to a multiset, JSON nodes to trees, the print buffer to a text. Invariants: the arrays, the
  heap, the tables, sessions and their connections, the sorted leaderboard, and their preservation by
  every request; of the arrays, the heap and the sessions by every interleaving without crossing logins. Safety: no undefined behaviour for requests that fit, hidden
  problems stay hidden, at most one rating exchange per duel, the client's menus need a grant.
  Liveness and termination: every duel ends, every submission is judged. Faults: the executions in
  which the code does what it should not, each with a concrete run.

  \<^bold>\<open>Bounds and fuel\<close>

  The parser's loops over elements and members carry the length of the text as fuel, and every element
  consumes a byte; nesting is bounded by \<open>CJSON_NESTING_LIMIT\<close> as in the source. \<open>judge_run\<close> takes at most
  seven steps from the wait to the result, and a schedule of the job queue at most nine per submission.
  The duel loop takes the list of \<open>select\<close> results; \<open>DuelLive\<close> bounds the productive ones by the input on the
  two sockets. \<open>cJSON_Duplicate_rec\<close> counts down the levels left below \<open>CJSON_CIRCULAR_LIMIT\<close>, as the source counts
  up to it. A double is printed with 15 digits when they read back as it up to \<open>compare_double\<close> and with 17 otherwise,
  which always read back as it. The loops of \<open>cJSON.c\<close> over linked nodes may not end on a cyclic list and are
  \<open>partial_function (option)\<close>; on the structures the functions build they are proved to return.

  \<^bold>\<open>Parameters and hypotheses\<close>

  What is not code of the repository is an argument: the C library's \<open>pow\<close> (never
  negative and \<open>1\<close> at exponent \<open>0\<close>, where a property needs it), \<open>rand\<close> and the clock, \<open>gcc\<close>, the run of the compiled program,
  what \<open>select\<close> reports, which requests an allocator grants, which paths can be created, how the network cuts a stream. Upload and download
  assume that the eight bytes of a length arrive in one \<open>read\<close>, on which the code relies.

  \<^bold>\<open>Not modelled\<close>

  Failure of \<open>malloc\<close> outside of the JSON printer, of \<open>pthread_create\<close> in a duel and of writes to a full disk; exclusion by \<open>fcntl\<close> locks beyond
  atomicity of the calls; what \<open>socket\<close>, \<open>bind\<close> and \<open>getaddrinfo\<close> do beside their results; the freeing of the \<open>Duel\<close> and of the
  \<open>Problem\<close> after a duel; what \<open>fileTransfer.c\<close> prints about its errors; the expect scripts and the Makefile.
  Of \<open>cJSON.c\<close>: NaN and the infinities, since a number is a rational; the parser builds trees, not nodes, and
  only the printer meets an allocator that refuses.
\<close>

end
